(* ===== verification/Prelude.thy ===== *)
theory Prelude
  imports Main "HOL-Library.Word"
begin

text \<open>
  Shared vocabulary of the development.

  \<^item> Machine integers are words (\<open>u8\<close>, \<open>u16\<close>, \<open>u32\<close>); sizes, offsets and byte counts that the
    code keeps in \<open>usize\<close> or \<open>u64\<close> are \<open>nat\<close>, with saturation and limits written out where the
    code has them.
  \<^item> A Rust \<open>str\<close> is a list of code points (\<open>ustr\<close>); \<open>str_len\<close> is its length in UTF-8 bytes,
    which is what \<open>str::len\<close> returns. \<open>lit\<close> and \<open>blit\<close> turn an ASCII literal into text or bytes.
  \<^item> \<open>result\<close> is Rust's \<open>Result\<close>.
  \<^item> The pieces of Rust's standard library the code uses: UTF-8 decoding with replacement,
    trimming, splitting, number formatting and number parsing.
\<close>

unbundle bit_operations_syntax

named_theorems text_simps "facts about Rust text functions"

named_theorems eval_defs "definitions unfolded to evaluate the model on concrete data"

type_synonym u8 = "8 word"
type_synonym u16 = "16 word"
type_synonym u32 = "32 word"
type_synonym bytes = "u8 list"
type_synonym uchar = nat
type_synonym ustr = "uchar list"

datatype ('a, 'e) result = Ok 'a | Err 'e

definition lit :: "string \<Rightarrow> ustr" where [eval_defs]:
  "lit s = map of_char s"

definition blit :: "string \<Rightarrow> bytes" where [eval_defs]:
  "blit s = map of_char s"

subsection \<open>Big-endian words\<close>

definition u16_to_be :: "u16 \<Rightarrow> bytes" where [eval_defs]:
  "u16_to_be w = [ucast (drop_bit 8 w), ucast w]"

definition u16_to_le :: "u16 \<Rightarrow> bytes" where [eval_defs]:
  "u16_to_le w = [ucast w, ucast (drop_bit 8 w)]"

definition u16_of_be :: "u8 \<Rightarrow> u8 \<Rightarrow> u16" where [eval_defs]:
  "u16_of_be a b = push_bit 8 (ucast a) OR ucast b"

definition u32_to_be :: "u32 \<Rightarrow> bytes" where [eval_defs]:
  "u32_to_be w = [ucast (drop_bit 24 w), ucast (drop_bit 16 w), ucast (drop_bit 8 w), ucast w]"

definition u32_of_be :: "bytes \<Rightarrow> u32" where [eval_defs]:
  "u32_of_be bs = foldl (\<lambda>acc b. push_bit 8 acc OR ucast b) 0 bs"

lemma length_u16_to_be [simp]: "length (u16_to_be w) = 2"
  by (simp add: u16_to_be_def)

lemma length_u16_to_le [simp]: "length (u16_to_le w) = 2"
  by (simp add: u16_to_le_def)

lemma length_u32_to_be [simp]: "length (u32_to_be w) = 4"
  by (simp add: u32_to_be_def)

lemma u16_of_be_to_be: "u16_of_be (ucast (drop_bit 8 w)) (ucast (w :: u16)) = w"
  unfolding u16_of_be_def
  by (rule bit_word_eqI)
    (auto simp: bit_simps bit_ucast_iff bit_push_bit_iff bit_drop_bit_eq not_less)

lemma u32_of_be_to_be: "u32_of_be (u32_to_be w) = w"
proof (rule bit_word_eqI)
  fix n :: nat
  assume n: "n < LENGTH(32)"
  consider "n < 8" | "8 \<le> n" "n < 16" | "16 \<le> n" "n < 24" | "24 \<le> n"
    by linarith
  then show "bit (u32_of_be (u32_to_be w)) n = bit w n"
    using n
    by cases (auto simp: u32_of_be_def u32_to_be_def bit_simps)
qed

lemma u32_to_be_of_be:
  assumes "length h = 4"
  shows "u32_to_be (u32_of_be h) = h"
proof -
  obtain a b c d where h: "h = [a, b, c, d]"
    using assms by (auto simp: numeral_eq_Suc length_Suc_conv)
  have "ucast (drop_bit 24 (u32_of_be h)) = a" "ucast (drop_bit 16 (u32_of_be h)) = b"
    "ucast (drop_bit 8 (u32_of_be h)) = c" "ucast (u32_of_be h) = d"
    by (rule bit_word_eqI, auto simp: h u32_of_be_def bit_simps dest: bit_imp_le_length)+
  then show ?thesis by (simp add: u32_to_be_def h)
qed

subsection \<open>Lists\<close>

fun split_by :: "('a \<Rightarrow> bool) \<Rightarrow> 'a list \<Rightarrow> 'a list list" where
  "split_by p [] = [[]]"
| "split_by p (x # xs) =
     (if p x then [] # split_by p xs
      else (case split_by p xs of [] \<Rightarrow> [[x]] | y # ys \<Rightarrow> (x # y) # ys))"

fun join :: "'a list \<Rightarrow> 'a list list \<Rightarrow> 'a list" where
  "join sep [] = []"
| "join sep [x] = x"
| "join sep (x # y # zs) = x @ sep @ join sep (y # zs)"

fun starts_with :: "'a list \<Rightarrow> 'a list \<Rightarrow> bool" where
  "starts_with s [] = True"
| "starts_with [] (p # ps) = False"
| "starts_with (c # cs) (p # ps) = (c = p \<and> starts_with cs ps)"

definition ends_with :: "'a list \<Rightarrow> 'a list \<Rightarrow> bool" where [eval_defs]:
  "ends_with s p = starts_with (rev s) (rev p)"

definition trim_end_matches :: "('a \<Rightarrow> bool) \<Rightarrow> 'a list \<Rightarrow> 'a list" where [eval_defs]:
  "trim_end_matches p s = rev (dropWhile p (rev s))"

lemma split_by_not_Nil [simp]: "split_by p xs \<noteq> []"
  by (induction xs) (auto split: list.splits)

lemma split_by_no_sep: "part \<in> set (split_by p xs) \<Longrightarrow> c \<in> set part \<Longrightarrow> \<not> p c \<and> c \<in> set xs"
  by (induction xs arbitrary: part) (fastforce split: if_splits list.splits)+

lemma split_by_none: "\<forall>c \<in> set xs. \<not> p c \<Longrightarrow> split_by p xs = [xs]"
  by (induction xs) auto

lemma split_by_append_sep:
  "\<forall>c \<in> set xs. \<not> p c \<Longrightarrow> p c \<Longrightarrow> split_by p (xs @ c # ys) = xs # split_by p ys"
  by (induction xs) auto

lemma split_by_join:
  assumes "p c" and "xss \<noteq> []" and "\<forall>xs \<in> set xss. \<forall>x \<in> set xs. \<not> p x"
  shows "split_by p (join [c] xss) = xss"
  using assms(2,3)
proof (induction xss rule: induct_list012)
  case 1
  then show ?case by simp
next
  case (2 xs)
  then show ?case by (simp add: split_by_none)
next
  case (3 xs ys zss)
  from 3 have "split_by p (join [c] (ys # zss)) = ys # zss"
    by simp
  with 3 assms(1) show ?case by (simp add: split_by_append_sep)
qed

lemma join_split_by_eq: "join [c] (split_by (\<lambda>x. x = c) xs) = xs"
proof (induction xs)
  case Nil
  then show ?case by simp
next
  case (Cons x xs)
  obtain y ys where y: "split_by (\<lambda>x. x = c) xs = y # ys"
    by (cases "split_by (\<lambda>x. x = c) xs") auto
  with Cons show ?case by (cases ys) auto
qed

lemma starts_with_append [simp]: "starts_with (p @ s) p"
  by (induction p) auto

lemma starts_with_iff: "starts_with s p \<longleftrightarrow> (\<exists>t. s = p @ t)"
  by (induction s p rule: starts_with.induct) auto

lemma set_dropWhile_subset: "set (dropWhile p xs) \<subseteq> set xs"
  by (auto dest: set_dropWhileD)

lemma set_join: "c \<in> set (join sep ls) \<Longrightarrow> c \<in> set sep \<or> (\<exists>l \<in> set ls. c \<in> set l)"
  by (induction sep ls rule: join.induct) auto

lemma set_trim_end_matches: "c \<in> set (trim_end_matches p s) \<Longrightarrow> c \<in> set s"
  by (auto simp: trim_end_matches_def dest: set_dropWhileD)

lemma dropWhile_hd: "dropWhile p xs = y # ys \<Longrightarrow> \<not> p y"
  by (metis hd_dropWhile list.distinct(1) list.sel(1))

end
