(* ===== verification/Text.thy ===== *)
theory Text
  imports Prelude
begin

text \<open>
  Text as the Rust standard library handles it: UTF-8 lengths, encoding and lossy decoding,
  character classes, trimming, ASCII case, and numbers written and read in a radix.
  Facts about them are collected for the components that build names, headers and messages.
\<close>

subsection \<open>Character classes\<close>

definition is_whitespace :: "uchar \<Rightarrow> bool" where [eval_defs]:
  "is_whitespace c \<longleftrightarrow> (9 \<le> c \<and> c \<le> 13) \<or> c = 32 \<or> c = 0x85 \<or> c = 0xa0 \<or> c = 0x1680
     \<or> (0x2000 \<le> c \<and> c \<le> 0x200a) \<or> c = 0x2028 \<or> c = 0x2029 \<or> c = 0x202f \<or> c = 0x205f \<or> c = 0x3000"

definition is_control :: "uchar \<Rightarrow> bool" where [eval_defs]:
  "is_control c \<longleftrightarrow> c \<le> 0x1f \<or> (0x7f \<le> c \<and> c \<le> 0x9f)"

definition is_ascii_digit :: "uchar \<Rightarrow> bool" where [eval_defs]:
  "is_ascii_digit c \<longleftrightarrow> 48 \<le> c \<and> c \<le> 57"

definition is_ascii_lowercase :: "uchar \<Rightarrow> bool" where [eval_defs]:
  "is_ascii_lowercase c \<longleftrightarrow> 97 \<le> c \<and> c \<le> 122"

definition is_ascii_alphabetic :: "uchar \<Rightarrow> bool" where [eval_defs]:
  "is_ascii_alphabetic c \<longleftrightarrow> (65 \<le> c \<and> c \<le> 90) \<or> (97 \<le> c \<and> c \<le> 122)"

definition is_ascii_alphanumeric :: "uchar \<Rightarrow> bool" where [eval_defs]:
  "is_ascii_alphanumeric c \<longleftrightarrow> is_ascii_alphabetic c \<or> is_ascii_digit c"

definition is_ascii_whitespace :: "uchar \<Rightarrow> bool" where [eval_defs]:
  "is_ascii_whitespace c \<longleftrightarrow> c = 9 \<or> c = 10 \<or> c = 12 \<or> c = 13 \<or> c = 32"

definition to_ascii_lower :: "uchar \<Rightarrow> uchar" where [eval_defs]:
  "to_ascii_lower c = (if 65 \<le> c \<and> c \<le> 90 then c + 32 else c)"

definition eq_ignore_ascii_case :: "ustr \<Rightarrow> ustr \<Rightarrow> bool" where [eval_defs]:
  "eq_ignore_ascii_case s t \<longleftrightarrow> map to_ascii_lower s = map to_ascii_lower t"

definition trim :: "ustr \<Rightarrow> ustr" where [eval_defs]:
  "trim s = trim_end_matches is_whitespace (dropWhile is_whitespace s)"

definition trim_ascii :: "ustr \<Rightarrow> ustr" where [eval_defs]:
  "trim_ascii s = trim_end_matches is_ascii_whitespace (dropWhile is_ascii_whitespace s)"

lemma set_trim: "c \<in> set (trim s) \<Longrightarrow> c \<in> set s"
  by (auto simp: trim_def dest: set_trim_end_matches set_dropWhileD)

lemma trim_end_hd:
  assumes "trim_end_matches p (x # xs) = y # ys"
  shows "y = x"
proof -
  have "\<exists>zs. x # xs = trim_end_matches p (x # xs) @ zs"
    unfolding trim_end_matches_def
    by (metis rev_append rev_rev_ident takeWhile_dropWhile_id)
  with assms show ?thesis by auto
qed

lemma trim_hd:
  assumes "trim s = c # cs"
  shows "\<not> is_whitespace c"
proof (cases "dropWhile is_whitespace s")
  case Nil
  with assms show ?thesis by (simp add: trim_def trim_end_matches_def)
next
  case (Cons x xs)
  from dropWhile_hd [OF Cons] have "\<not> is_whitespace x" .
  moreover have "c = x" using assms Cons by (metis trim_def trim_end_hd)
  ultimately show ?thesis by simp
qed

lemma to_ascii_lower_idem [simp]: "to_ascii_lower (to_ascii_lower c) = to_ascii_lower c"
  by (simp add: to_ascii_lower_def)

subsection \<open>UTF-8\<close>

definition utf8_len :: "uchar \<Rightarrow> nat" where [eval_defs]:
  "utf8_len c = (if c < 0x80 then 1 else if c < 0x800 then 2 else if c < 0x10000 then 3 else 4)"

definition str_len :: "ustr \<Rightarrow> nat" where [eval_defs]:
  "str_len s = sum_list (map utf8_len s)"

definition utf8_char :: "uchar \<Rightarrow> bytes" where [eval_defs]:
  "utf8_char c =
     (if c < 0x80 then [of_nat c]
      else if c < 0x800 then [of_nat (0xc0 + c div 64), of_nat (0x80 + c mod 64)]
      else if c < 0x10000 then
        [of_nat (0xe0 + c div 4096), of_nat (0x80 + c div 64 mod 64), of_nat (0x80 + c mod 64)]
      else [of_nat (0xf0 + c div 262144), of_nat (0x80 + c div 4096 mod 64),
            of_nat (0x80 + c div 64 mod 64), of_nat (0x80 + c mod 64)])"

definition as_bytes :: "ustr \<Rightarrow> bytes" where [eval_defs]:
  "as_bytes s = concat (map utf8_char s)"

lemma utf8_len_pos [simp]: "0 < utf8_len c"
  by (simp add: utf8_len_def)

lemma utf8_len_le_4: "utf8_len c \<le> 4"
  by (simp add: utf8_len_def)

lemma length_utf8_char [simp]: "length (utf8_char c) = utf8_len c"
  by (simp add: utf8_char_def utf8_len_def)

lemma str_len_Nil [simp]: "str_len [] = 0"
  by (simp add: str_len_def)

lemma str_len_Cons [simp]: "str_len (c # s) = utf8_len c + str_len s"
  by (simp add: str_len_def)

lemma str_len_append [simp]: "str_len (s @ t) = str_len s + str_len t"
  by (simp add: str_len_def)

lemma str_len_0_iff [simp]: "str_len s = 0 \<longleftrightarrow> s = []"
  by (cases s) (simp_all add: utf8_len_def)

lemma length_le_str_len: "length s \<le> str_len s"
proof (induction s)
  case (Cons c s)
  then show ?case using utf8_len_pos [of c] by (simp del: utf8_len_pos)
qed simp

lemma str_len_ascii: "\<forall>c \<in> set s. c < 0x80 \<Longrightarrow> str_len s = length s"
  by (induction s) (auto simp: utf8_len_def)

lemma length_as_bytes [simp]: "length (as_bytes s) = str_len s"
  by (induction s) (simp_all add: as_bytes_def)

lemma as_bytes_append [simp]: "as_bytes (s @ t) = as_bytes s @ as_bytes t"
  by (simp add: as_bytes_def)

text \<open>
  \<open>String::from_utf8_lossy\<close>: a maximal prefix of an ill-formed sequence becomes one U+FFFD.
\<close>

definition is_cont :: "nat \<Rightarrow> bool" where [eval_defs]:
  "is_cont b \<longleftrightarrow> 0x80 \<le> b \<and> b \<le> 0xbf"

definition second_ok :: "nat \<Rightarrow> nat \<Rightarrow> bool" where [eval_defs]:
  "second_ok a b \<longleftrightarrow>
     (if a = 0xe0 then 0xa0 \<le> b \<and> b \<le> 0xbf
      else if a = 0xed then 0x80 \<le> b \<and> b \<le> 0x9f
      else if a = 0xf0 then 0x90 \<le> b \<and> b \<le> 0xbf
      else if a = 0xf4 then 0x80 \<le> b \<and> b \<le> 0x8f
      else is_cont b)"

definition lead_width :: "nat \<Rightarrow> nat" where [eval_defs]:
  "lead_width a =
     (if a < 0x80 then 1
      else if 0xc2 \<le> a \<and> a \<le> 0xdf then 2
      else if 0xe0 \<le> a \<and> a \<le> 0xef then 3
      else if 0xf0 \<le> a \<and> a \<le> 0xf4 then 4
      else 0)"

definition utf8_step :: "nat list \<Rightarrow> uchar option \<times> nat" where [eval_defs]:
  "utf8_step bs =
     (case bs of
        [] \<Rightarrow> (None, 0)
      | a # r1 \<Rightarrow>
        (if lead_width a = 1 then (Some a, 1)
         else if lead_width a = 0 then (None, 1)
         else (case r1 of
           [] \<Rightarrow> (None, 1)
         | b # r2 \<Rightarrow>
           if \<not> second_ok a b then (None, 1)
           else if lead_width a = 2 then (Some ((a - 0xc0) * 64 + (b - 0x80)), 2)
           else (case r2 of
             [] \<Rightarrow> (None, 2)
           | c # r3 \<Rightarrow>
             if \<not> is_cont c then (None, 2)
             else if lead_width a = 3
               then (Some ((a - 0xe0) * 4096 + (b - 0x80) * 64 + (c - 0x80)), 3)
             else (case r3 of
               [] \<Rightarrow> (None, 3)
             | d # _ \<Rightarrow>
               if \<not> is_cont d then (None, 3)
               else (Some ((a - 0xf0) * 262144 + (b - 0x80) * 4096 + (c - 0x80) * 64 + (d - 0x80)), 4))))))"

lemma utf8_step_pos: "0 < snd (utf8_step (a # r))"
  by (auto simp: utf8_step_def split: list.splits)

function utf8_decode :: "nat list \<Rightarrow> uchar option list" where
  "utf8_decode [] = []"
| "utf8_decode (a # r) =
     fst (utf8_step (a # r)) # utf8_decode (drop (snd (utf8_step (a # r))) (a # r))"
  by pat_completeness auto
termination
  by (relation "measure length") (use utf8_step_pos in auto)

definition from_utf8_lossy :: "bytes \<Rightarrow> ustr" where [eval_defs]:
  "from_utf8_lossy bs = map (case_option 0xfffd id) (utf8_decode (map unat bs))"

definition from_utf8 :: "bytes \<Rightarrow> ustr option" where [eval_defs]:
  "from_utf8 bs =
     (let cs = utf8_decode (map unat bs)
      in if None \<in> set cs then None else Some (map the cs))"

definition is_scalar :: "uchar \<Rightarrow> bool" where [eval_defs]:
  "is_scalar c \<longleftrightarrow> c < 0xd800 \<or> (0xe000 \<le> c \<and> c < 0x110000)"

definition utf8_nats :: "uchar \<Rightarrow> nat list" where [eval_defs]:
  "utf8_nats c =
     (if c < 0x80 then [c]
      else if c < 0x800 then [0xc0 + c div 64, 0x80 + c mod 64]
      else if c < 0x10000 then [0xe0 + c div 4096, 0x80 + c div 64 mod 64, 0x80 + c mod 64]
      else [0xf0 + c div 262144, 0x80 + c div 4096 mod 64, 0x80 + c div 64 mod 64, 0x80 + c mod 64])"

lemma map_unat_utf8_char:
  assumes "is_scalar c"
  shows "map unat (utf8_char c) = utf8_nats c"
proof -
  have small: "unat (of_nat n :: u8) = n" if "n < 256" for n
    using that by (simp add: unat_of_nat)
  have c: "c < 0x110000" using assms by (auto simp: is_scalar_def)
  have m: "c mod 64 < 64" "c div 64 mod 64 < 64" "c div 4096 mod 64 < 64" by simp_all
  have "c < 0x800 \<Longrightarrow> c div 64 < 32" "c < 0x10000 \<Longrightarrow> c div 4096 < 16" "c div 262144 < 5"
    using c by (simp_all add: div_less_iff_less_mult less_mult_imp_div_less)
  with m show ?thesis
    unfolding utf8_char_def utf8_nats_def
    by (simp add: small del: of_nat_add of_nat_numeral)
qed

lemma div_mod_base: "(c::nat) div 4096 * 64 + c div 64 mod 64 = c div 64"
proof -
  have "c div 4096 = c div 64 div 64" by (simp add: div_mult2_eq [symmetric])
  then show ?thesis by (metis div_mult_mod_eq)
qed

lemma div_mod_base2: "(c::nat) div 262144 * 64 + c div 4096 mod 64 = c div 4096"
proof -
  have "c div 262144 = c div 4096 div 64" by (simp add: div_mult2_eq [symmetric])
  then show ?thesis by (metis div_mult_mod_eq)
qed

lemma join3: "(c::nat) div 4096 * 4096 + c div 64 mod 64 * 64 + c mod 64 = c"
proof -
  have "c div 4096 * 4096 + c div 64 mod 64 * 64 = (c div 4096 * 64 + c div 64 mod 64) * 64"
    by (simp add: algebra_simps)
  then show ?thesis by (simp only: div_mod_base) simp
qed

lemma join4:
  "(c::nat) div 262144 * 262144 + c div 4096 mod 64 * 4096 + c div 64 mod 64 * 64 + c mod 64 = c"
proof -
  have "c div 262144 * 262144 + c div 4096 mod 64 * 4096 = (c div 262144 * 64 + c div 4096 mod 64) * 4096"
    by (simp add: algebra_simps)
  then show ?thesis by (simp only: div_mod_base2 join3)
qed

lemma utf8_step_3:
  assumes "q < 16" "b < 64" "d < 64" "q = 0 \<Longrightarrow> 32 \<le> b" "q = 13 \<Longrightarrow> b < 32"
  shows "utf8_step ((0xe0 + q) # (0x80 + b) # (0x80 + d) # r) = (Some (q * 4096 + b * 64 + d), 3)"
  using assms by (auto simp: utf8_step_def lead_width_def second_ok_def is_cont_def)

lemma utf8_step_4:
  assumes "q < 5" "a < 64" "b < 64" "d < 64" "q = 0 \<Longrightarrow> 16 \<le> a" "q = 4 \<Longrightarrow> a < 16"
  shows "utf8_step ((0xf0 + q) # (0x80 + a) # (0x80 + b) # (0x80 + d) # r)
    = (Some (q * 262144 + a * 4096 + b * 64 + d), 4)"
  using assms by (auto simp: utf8_step_def lead_width_def second_ok_def is_cont_def)

lemma utf8_step_encoded:
  assumes "is_scalar c"
  shows "utf8_step (utf8_nats c @ r) = (Some c, utf8_len c)"
proof -
  have top: "c < 0x110000" and sur: "c < 0xd800 \<or> 0xe000 \<le> c"
    using assms by (auto simp: is_scalar_def)
  have m: "c mod 64 < 64" "c div 64 mod 64 < 64" "c div 4096 mod 64 < 64" by simp_all
  consider (one) "c < 0x80" | (two) "0x80 \<le> c" "c < 0x800"
    | (three) "0x800 \<le> c" "c < 0x10000" | (four) "0x10000 \<le> c"
    by linarith
  then show ?thesis
  proof cases
    case one
    then show ?thesis by (simp add: utf8_nats_def utf8_step_def lead_width_def utf8_len_def)
  next
    case two
    then have "2 \<le> c div 64" "c div 64 < 32"
      by (simp_all add: less_mult_imp_div_less less_eq_div_iff_mult_less_eq)
    with two m show ?thesis
      by (simp add: utf8_nats_def utf8_step_def lead_width_def second_ok_def is_cont_def utf8_len_def)
  next
    case three
    then have q: "c div 4096 < 16" by (simp add: less_mult_imp_div_less)
    have "c div 4096 = 0 \<Longrightarrow> 0x20 \<le> c div 64 mod 64" using three div_mod_base [of c] by simp
    moreover have "c div 4096 = 13 \<Longrightarrow> c div 64 mod 64 < 32"
      using three sur div_mod_base [of c] by linarith
    ultimately have "utf8_step ((0xe0 + c div 4096) # (0x80 + c div 64 mod 64) # (0x80 + c mod 64) # r)
        = (Some c, 3)"
      using utf8_step_3 [OF q m(2,1)] by (simp only: join3)
    with three show ?thesis by (simp add: utf8_nats_def utf8_len_def)
  next
    case four
    then have q: "c div 262144 < 5" using top by (simp add: less_mult_imp_div_less)
    have "c div 262144 = 0 \<Longrightarrow> 16 \<le> c div 4096 mod 64" using four div_mod_base2 [of c] by simp
    moreover have "c div 262144 = 4 \<Longrightarrow> c div 4096 mod 64 < 16"
      using top div_mod_base2 [of c] by linarith
    ultimately have "utf8_step ((0xf0 + c div 262144) # (0x80 + c div 4096 mod 64)
          # (0x80 + c div 64 mod 64) # (0x80 + c mod 64) # r) = (Some c, 4)"
      using utf8_step_4 [OF q m(3,2,1)] by (simp only: join4)
    with four show ?thesis by (simp add: utf8_nats_def utf8_len_def)
  qed
qed

lemma utf8_nats_Cons: "\<exists>a t. utf8_nats c = a # t"
  by (simp add: utf8_nats_def)

lemma length_utf8_nats [simp]: "length (utf8_nats c) = utf8_len c"
  by (simp add: utf8_nats_def utf8_len_def)

lemma utf8_decode_encoded:
  assumes "is_scalar c"
  shows "utf8_decode (utf8_nats c @ r) = Some c # utf8_decode r"
proof -
  obtain a t where at: "utf8_nats c = a # t" using utf8_nats_Cons by blast
  have st: "utf8_step (a # t @ r) = (Some c, utf8_len c)"
    using utf8_step_encoded [OF assms, of r] at by simp
  have "drop (utf8_len c) (a # t @ r) = r"
    using length_utf8_nats [of c] at by (metis append_Cons append_eq_conv_conj)
  with st show ?thesis by (simp add: at del: drop_Cons)
qed

lemma map_unat_as_bytes:
  "\<forall>c \<in> set s. is_scalar c \<Longrightarrow> map unat (as_bytes s) = concat (map utf8_nats s)"
  by (induction s) (simp_all add: as_bytes_def map_unat_utf8_char)

lemma utf8_decode_as_bytes:
  "\<forall>c \<in> set s. is_scalar c \<Longrightarrow> utf8_decode (map unat (as_bytes s)) = map Some s"
  by (induction s) (simp_all add: as_bytes_def map_unat_utf8_char utf8_decode_encoded)

lemma from_utf8_lossy_as_bytes [text_simps]:
  "\<forall>c \<in> set s. is_scalar c \<Longrightarrow> from_utf8_lossy (as_bytes s) = s"
  by (simp add: from_utf8_lossy_def utf8_decode_as_bytes comp_def)

subsection \<open>Numbers\<close>

text \<open>
  \<open>format!\<close> in a radix, with and without zero padding, and \<open>from_str_radix\<close>: an optional \<open>+\<close>,
  at least one digit, and an error past the type's maximum.
\<close>

definition u64_max :: nat where [eval_defs]:
  "u64_max = 2 ^ 64 - 1"

definition u32_max :: nat where [eval_defs]:
  "u32_max = 2 ^ 32 - 1"

fun digits :: "nat \<Rightarrow> nat \<Rightarrow> nat list" where
  "digits b n = (if b \<le> 1 \<or> n < b then [n] else digits b (n div b) @ [n mod b])"

declare digits.simps [simp del]

definition digit_char :: "nat \<Rightarrow> uchar" where [eval_defs]:
  "digit_char d = (if d < 10 then 48 + d else 87 + d)"

definition show_radix :: "nat \<Rightarrow> nat \<Rightarrow> ustr" where [eval_defs]:
  "show_radix b n = map digit_char (digits b n)"

definition pad0 :: "nat \<Rightarrow> ustr \<Rightarrow> ustr" where [eval_defs]:
  "pad0 w s = replicate (w - length s) 48 @ s"

abbreviation dec :: "nat \<Rightarrow> ustr" where
  "dec n \<equiv> show_radix 10 n"

definition to_digit :: "nat \<Rightarrow> uchar \<Rightarrow> nat option" where [eval_defs]:
  "to_digit radix c =
     (let d = (if 48 \<le> c \<and> c \<le> 57 then c - 48
               else if 97 \<le> c \<and> c \<le> 122 then c - 87
               else if 65 \<le> c \<and> c \<le> 90 then c - 55
               else radix)
      in if d < radix then Some d else None)"

definition is_digit_in :: "nat \<Rightarrow> uchar \<Rightarrow> bool" where [eval_defs]:
  "is_digit_in radix c \<longleftrightarrow> to_digit radix c \<noteq> None"

definition digits_value :: "nat \<Rightarrow> nat list \<Rightarrow> nat" where [eval_defs]:
  "digits_value b ds = foldl (\<lambda>a d. a * b + d) 0 ds"

definition parse_digits :: "nat \<Rightarrow> nat \<Rightarrow> ustr \<Rightarrow> nat option" where [eval_defs]:
  "parse_digits mx radix s =
     (if s = [] \<or> \<not> list_all (is_digit_in radix) s then None
      else (let v = digits_value radix (map (\<lambda>c. the (to_digit radix c)) s)
            in if v \<le> mx then Some v else None))"

definition from_str_radix :: "nat \<Rightarrow> nat \<Rightarrow> ustr \<Rightarrow> nat option" where [eval_defs]:
  "from_str_radix mx radix s =
     (case s of c # r \<Rightarrow> if c = 43 then parse_digits mx radix r else parse_digits mx radix s
      | [] \<Rightarrow> None)"

lemma digits_value_snoc: "digits_value b (xs @ [x]) = digits_value b xs * b + x"
  by (simp add: digits_value_def)

lemma digits_value_digits [simp]: "digits_value b (digits b n) = n"
proof (induction b n rule: digits.induct)
  case (1 b n)
  show ?case
  proof (cases "b \<le> 1 \<or> n < b")
    case True
    then show ?thesis by (simp add: digits.simps [of b n] digits_value_def)
  next
    case False
    with 1 show ?thesis by (simp add: digits.simps [of b n] digits_value_snoc)
  qed
qed

lemma digits_not_Nil [simp]: "digits b n \<noteq> []"
  by (simp add: digits.simps [of b n])

lemma digits_less: "1 < b \<Longrightarrow> d \<in> set (digits b n) \<Longrightarrow> d < b"
proof (induction b n rule: digits.induct)
  case (1 b n)
  then show ?case
    by (auto simp: digits.simps [of b n] split: if_splits)
qed

lemma length_digits_le: "1 < b \<Longrightarrow> n < b ^ w \<Longrightarrow> 0 < w \<Longrightarrow> length (digits b n) \<le> w"
proof (induction w arbitrary: n)
  case 0
  then show ?case by simp
next
  case (Suc w)
  show ?case
  proof (cases "n < b")
    case True
    then show ?thesis by (simp add: digits.simps [of b n])
  next
    case False
    then have w: "0 < w" using Suc.prems by (cases w) auto
    have "n div b < b ^ w"
      using Suc.prems by (simp add: less_mult_imp_div_less mult.commute)
    with Suc.IH Suc.prems w have "length (digits b (n div b)) \<le> w" by simp
    with False Suc.prems show ?thesis by (simp add: digits.simps [of b n])
  qed
qed

lemma to_digit_digit_char: "b \<le> 36 \<Longrightarrow> d < b \<Longrightarrow> to_digit b (digit_char d) = Some d"
  by (auto simp: to_digit_def digit_char_def Let_def)

lemma digits_value_replicate0 [simp]: "digits_value b (replicate k 0 @ ds) = digits_value b ds"
  by (induction k) (simp_all add: digits_value_def)

lemma map_to_digit_digits:
  "1 < b \<Longrightarrow> b \<le> 36 \<Longrightarrow> map (\<lambda>c. the (to_digit b c)) (show_radix b n) = digits b n"
  by (auto simp: show_radix_def to_digit_digit_char digits_less intro!: map_idI)

lemma list_all_is_digit_show: "1 < b \<Longrightarrow> b \<le> 36 \<Longrightarrow> list_all (is_digit_in b) (show_radix b n)"
  by (auto simp: list_all_iff show_radix_def is_digit_in_def to_digit_digit_char digits_less)

lemma parse_digits_pad0 [text_simps]:
  assumes "1 < b" "b \<le> 36" "n \<le> mx"
  shows "parse_digits mx b (pad0 w (show_radix b n)) = Some n"
proof -
  have z: "to_digit b 48 = Some 0" using assms by (simp add: to_digit_def)
  have "map (\<lambda>c. the (to_digit b c)) (pad0 w (show_radix b n))
      = replicate (w - length (show_radix b n)) 0 @ digits b n"
    using assms z by (simp add: pad0_def map_to_digit_digits map_replicate_const)
  moreover have "list_all (is_digit_in b) (pad0 w (show_radix b n))"
    using assms list_all_is_digit_show [of b n] z by (auto simp: pad0_def list_all_iff is_digit_in_def)
  moreover have "pad0 w (show_radix b n) \<noteq> []" by (simp add: pad0_def show_radix_def)
  ultimately show ?thesis using assms by (simp add: parse_digits_def)
qed

lemma length_show_radix: "1 < b \<Longrightarrow> n < b ^ w \<Longrightarrow> 0 < w \<Longrightarrow> length (show_radix b n) \<le> w"
  by (simp add: show_radix_def length_digits_le)

lemma length_pad0: "length s \<le> w \<Longrightarrow> length (pad0 w s) = w"
  by (simp add: pad0_def)

lemma pad0_0 [simp]: "pad0 0 s = s"
  by (simp add: pad0_def)

lemma digit_char_ascii: "d < 36 \<Longrightarrow> 48 \<le> digit_char d \<and> digit_char d < 128"
  by (simp add: digit_char_def)

lemma show_radix_chars:
  assumes "1 < b" "b \<le> 36" "c \<in> set (show_radix b n)"
  shows "48 \<le> c \<and> c < 128"
proof -
  from assms obtain d where "d \<in> set (digits b n)" "c = digit_char d"
    by (auto simp: show_radix_def)
  moreover from this assms have "d < 36" using digits_less [of b d n] by simp
  ultimately show ?thesis using digit_char_ascii by simp
qed

lemma dec_digit: "c \<in> set (dec n) \<Longrightarrow> is_ascii_digit c"
  by (auto simp: show_radix_def is_ascii_digit_def digit_char_def dest!: digits_less [of 10, simplified])

lemma from_str_radix_show [text_simps]:
  assumes "1 < b" "b \<le> 36" "n \<le> mx"
  shows "from_str_radix mx b (show_radix b n) = Some n"
proof -
  obtain c r where c: "show_radix b n = c # r"
    by (cases "show_radix b n") (auto simp: show_radix_def)
  then have "c \<noteq> 43" using show_radix_chars [OF assms(1,2), of c n] by auto
  moreover have "parse_digits mx b (show_radix b n) = Some n"
    using parse_digits_pad0 [OF assms, of 0] by simp
  ultimately show ?thesis by (simp add: from_str_radix_def c)
qed

end
