(* ===== verification/Names.thy ===== *)
theory Names
  imports Text
begin

text \<open>
  File names from sender-controlled text (\<open>core/crates/omdrop-proto/src/archive.rs\<close>, names):
  the character filter, \<open>split_ext\<close>, \<open>safe_name\<close>, the candidate names tried when a name is taken,
  and Python's \<open>repr\<close> for log lines. Unicode normalisation (the \<open>unicode_normalization\<close> crate) is
  the parameter \<open>nfc\<close>; no property of it is needed for the safety of a name.
\<close>

definition MAX_FILE_NAME_BYTES :: nat where [eval_defs]:
  "MAX_FILE_NAME_BYTES = 255"

definition PARTIAL_PREFIX :: ustr where [eval_defs]:
  "PARTIAL_PREFIX = lit ''.omdrop-partial-''"

definition is_unsafe_char :: "uchar \<Rightarrow> bool" where [eval_defs]:
  "is_unsafe_char c \<longleftrightarrow>
     c = 0x2f \<or> c = 0x5c \<or> c = 0
     \<or> (0x202a \<le> c \<and> c \<le> 0x202e)
     \<or> (0x2066 \<le> c \<and> c \<le> 0x2069)
     \<or> (0x200b \<le> c \<and> c \<le> 0x200f)
     \<or> c = 0xfeff
     \<or> (0x01 \<le> c \<and> c \<le> 0x1f)
     \<or> (0x7f \<le> c \<and> c \<le> 0x9f)"

definition split_ext :: "ustr \<Rightarrow> ustr \<times> ustr" where [eval_defs]:
  "split_ext name =
     (let after = length (takeWhile (\<lambda>c. c \<noteq> 0x2e) (rev name))
      in if after = length name then (name, [])
         else (let dot = length name - after - 1; stem = take dot name
               in if list_ex (\<lambda>c. c \<noteq> 0x2e) stem then (stem, drop dot name) else (name, [])))"

function shorten :: "ustr \<Rightarrow> nat \<Rightarrow> ustr" where
  "shorten stem extra =
     (if str_len stem + extra > MAX_FILE_NAME_BYTES \<and> stem \<noteq> [] then shorten (butlast stem) extra
      else stem)"
  by pat_completeness auto
termination
  by (relation "measure (\<lambda>(stem, extra). length stem)") auto

declare shorten.simps [simp del]

definition safe_name :: "(ustr \<Rightarrow> ustr) \<Rightarrow> ustr \<Rightarrow> ustr \<Rightarrow> ustr" where [eval_defs]:
  "safe_name nfc name fallback =
     (let last_part = last (split_by (\<lambda>c. c = 0x2f \<or> c = 0x5c) name);
          cleaned = filter (\<lambda>c. \<not> is_unsafe_char c) (nfc last_part);
          trimmed = dropWhile (\<lambda>c. c = 0x2e) (trim cleaned);
          (stem0, ext) = split_ext trimmed;
          stem = shorten stem0 (str_len ext)
      in if stem = [] then fallback
         else (let out = stem @ ext
               in if str_len out > MAX_FILE_NAME_BYTES \<or> starts_with out [0x2e] then fallback else out))"

definition candidate_name :: "ustr \<Rightarrow> nat \<Rightarrow> ustr" where [eval_defs]:
  "candidate_name name i =
     (if i = 0 then name
      else (let (stem, ext) = split_ext name; suffix = lit ''-'' @ dec i @ ext
            in shorten stem (str_len suffix) @ suffix))"

definition candidate_names :: "ustr \<Rightarrow> ustr list" where [eval_defs]:
  "candidate_names name = map (candidate_name name) [0..<10000]"

definition py_printable :: "uchar \<Rightarrow> bool" where [eval_defs]:
  "py_printable c \<longleftrightarrow>
     \<not> (is_control c \<or> c = 0xa0 \<or> c = 0xad \<or> (0x600 \<le> c \<and> c \<le> 0x605) \<or> c = 0x61c \<or> c = 0x6dd
       \<or> c = 0x70f \<or> c = 0x1680 \<or> c = 0x180e \<or> (0x2000 \<le> c \<and> c \<le> 0x200f)
       \<or> (0x2028 \<le> c \<and> c \<le> 0x202f) \<or> (0x205f \<le> c \<and> c \<le> 0x2064) \<or> (0x2066 \<le> c \<and> c \<le> 0x206f)
       \<or> c = 0x3000 \<or> (0xe000 \<le> c \<and> c \<le> 0xf8ff) \<or> c = 0xfeff \<or> (0xfff9 \<le> c \<and> c \<le> 0xfffb)
       \<or> (0xf0000 \<le> c \<and> c \<le> 0x10ffff))"

definition py_quote :: "nat list \<Rightarrow> nat" where [eval_defs]:
  "py_quote s = (if 0x27 \<in> set s \<and> 0x22 \<notin> set s then 0x22 else 0x27)"

definition py_escape_char :: "uchar \<Rightarrow> uchar \<Rightarrow> ustr" where [eval_defs]:
  "py_escape_char quote c =
     (if c = 0x5c then [0x5c, 0x5c]
      else if c = 0x0a then [0x5c, 0x6e]
      else if c = 0x0d then [0x5c, 0x72]
      else if c = 0x09 then [0x5c, 0x74]
      else if c = quote then [0x5c, c]
      else if \<not> py_printable c then
        (if c \<le> 0xff then lit [CHR 0x5c, CHR ''x''] @ pad0 2 (show_radix 16 c)
         else if c \<le> 0xffff then lit [CHR 0x5c, CHR ''u''] @ pad0 4 (show_radix 16 c)
         else lit [CHR 0x5c, CHR ''U''] @ pad0 8 (show_radix 16 c))
      else [c])"

definition py_repr :: "ustr \<Rightarrow> ustr" where [eval_defs]:
  "py_repr s = (let quote = py_quote s in [quote] @ concat (map (py_escape_char quote) s) @ [quote])"

definition py_escape_byte :: "nat \<Rightarrow> nat \<Rightarrow> ustr" where [eval_defs]:
  "py_escape_byte quote b =
     (if b = 0x5c then [0x5c, 0x5c]
      else if b = 0x0a then [0x5c, 0x6e]
      else if b = 0x0d then [0x5c, 0x72]
      else if b = 0x09 then [0x5c, 0x74]
      else if b = quote then [0x5c, quote]
      else if 0x20 \<le> b \<and> b \<le> 0x7e then [b]
      else lit [CHR 0x5c, CHR ''x''] @ pad0 2 (show_radix 16 b))"

definition py_bytes_repr :: "bytes \<Rightarrow> ustr" where [eval_defs]:
  "py_bytes_repr bs =
     (let ns = map unat bs; quote = py_quote ns
      in lit ''b'' @ [quote] @ concat (map (py_escape_byte quote) ns) @ [quote])"

subsection \<open>What a safe file name is\<close>

text \<open>
  A name that stays one visible entry of the directory it is joined to: not empty, no separator,
  control or disguising character, and not hidden (so neither \<open>.\<close> nor \<open>..\<close> nor an unfinished
  upload). A file name that is fit for the file system also has at most 255 bytes.
\<close>

definition visible_name :: "ustr \<Rightarrow> bool" where [eval_defs]:
  "visible_name s \<longleftrightarrow> s \<noteq> [] \<and> list_all (\<lambda>c. \<not> is_unsafe_char c) s \<and> hd s \<noteq> 0x2e"

definition file_name_ok :: "ustr \<Rightarrow> bool" where [eval_defs]:
  "file_name_ok s \<longleftrightarrow> visible_name s \<and> str_len s \<le> MAX_FILE_NAME_BYTES"

lemma takeWhile_rev_no: "x \<notin> set b \<Longrightarrow> takeWhile (\<lambda>c. c \<noteq> x) (rev b @ x # r) = rev b"
  by (subst takeWhile_append2) auto

lemma split_ext_no_dot:
  assumes "0x2e \<notin> set name"
  shows "split_ext name = (name, [])"
proof -
  have "takeWhile (\<lambda>c. c \<noteq> 0x2e) (rev name) = rev name"
    unfolding takeWhile_eq_all_conv using assms by auto
  then show ?thesis by (simp only: split_ext_def Let_def length_rev if_True refl)
qed

lemma split_ext_dot:
  assumes "0x2e \<notin> set b"
  shows "split_ext (a @ 0x2e # b) =
    (if list_ex (\<lambda>c. c \<noteq> 0x2e) a then (a, 0x2e # b) else (a @ 0x2e # b, []))"
  using takeWhile_rev_no [OF assms, of "rev a"] by (simp add: split_ext_def Let_def)

lemma split_ext_cases:
  obtains (whole) "split_ext name = (name, [])"
  | (parts) a b where "name = a @ 0x2e # b" "0x2e \<notin> set b" "list_ex (\<lambda>c. c \<noteq> 0x2e) a"
      "split_ext name = (a, 0x2e # b)"
proof (cases "0x2e \<in> set name")
  case False
  then show ?thesis using whole split_ext_no_dot by blast
next
  case True
  then obtain a b where ab: "name = a @ 0x2e # b" "0x2e \<notin> set b"
    by (meson split_list_last)
  then show ?thesis using whole parts split_ext_dot [OF ab(2), of a] by (metis (full_types))
qed

lemma split_ext_append: "split_ext name = (stem, ext) \<Longrightarrow> name = stem @ ext"
  by (cases name rule: split_ext_cases) auto

lemma split_ext_stem_not_Nil: "split_ext name = (stem, ext) \<Longrightarrow> name \<noteq> [] \<Longrightarrow> stem \<noteq> []"
  by (cases name rule: split_ext_cases) auto

lemma shorten_prefix: "\<exists>t. stem = shorten stem extra @ t"
proof (induction stem extra rule: shorten.induct)
  case (1 stem extra)
  show ?case
  proof (cases "str_len stem + extra > MAX_FILE_NAME_BYTES \<and> stem \<noteq> []")
    case True
    with 1 obtain t where "butlast stem = shorten (butlast stem) extra @ t" by blast
    with True have "stem = shorten stem extra @ t @ [last stem]"
      by (metis append.assoc append_butlast_last_id shorten.simps)
    then show ?thesis by blast
  next
    case False
    then have "shorten stem extra = stem" by (subst shorten.simps) auto
    then show ?thesis by simp
  qed
qed

lemma shorten_le: "extra \<le> MAX_FILE_NAME_BYTES \<Longrightarrow> str_len (shorten stem extra) + extra \<le> MAX_FILE_NAME_BYTES"
proof (induction stem extra rule: shorten.induct)
  case (1 stem extra)
  then show ?case by (cases "str_len stem + extra > MAX_FILE_NAME_BYTES \<and> stem \<noteq> []")
      (auto simp: shorten.simps [of stem extra])
qed

lemma shorten_id: "str_len stem + extra \<le> MAX_FILE_NAME_BYTES \<Longrightarrow> shorten stem extra = stem"
  by (subst shorten.simps) simp

lemma shorten_subset: "c \<in> set (shorten stem extra) \<Longrightarrow> c \<in> set stem"
  using shorten_prefix [of stem extra] by (metis UnCI set_append)

lemma shorten_hd: "shorten stem extra \<noteq> [] \<Longrightarrow> hd (shorten stem extra) = hd stem"
  using shorten_prefix [of stem extra] by (metis hd_append2)

lemma starts_with_dot_iff: "starts_with s [x] \<longleftrightarrow> s \<noteq> [] \<and> hd s = x"
  by (cases s) auto

lemma safe_name_cases:
  "safe_name nfc name fallback = fallback
   \<or> file_name_ok (safe_name nfc name fallback)"
proof -
  define last_part where "last_part = last (split_by (\<lambda>c. c = 0x2f \<or> c = 0x5c) name)"
  define cleaned where "cleaned = filter (\<lambda>c. \<not> is_unsafe_char c) (nfc last_part)"
  define trimmed where "trimmed = dropWhile (\<lambda>c. c = 0x2e) (trim cleaned)"
  obtain stem0 ext where se: "split_ext trimmed = (stem0, ext)" by force
  define stem where "stem = shorten stem0 (str_len ext)"
  have eq: "safe_name nfc name fallback =
    (if stem = [] then fallback
     else if str_len (stem @ ext) > MAX_FILE_NAME_BYTES \<or> starts_with (stem @ ext) [0x2e] then fallback
     else stem @ ext)"
    using se unfolding safe_name_def last_part_def cleaned_def trimmed_def stem_def
    by (simp only: Let_def prod.case)
  have clean: "\<not> is_unsafe_char c" if "c \<in> set trimmed" for c
    using that unfolding trimmed_def cleaned_def by (auto dest!: set_dropWhileD set_trim)
  have "set (stem @ ext) \<subseteq> set trimmed"
    using split_ext_append [OF se] shorten_subset unfolding stem_def by fastforce
  with clean show ?thesis unfolding eq
    by (auto simp: file_name_ok_def visible_name_def starts_with_dot_iff list_all_iff)
qed

text \<open>
  C1. Whatever text a sender puts in an archive path or a link, and whatever Unicode
  normalisation does to it, \<open>safe_name\<close> returns one visible file name: not empty, no path separator,
  no NUL, control or disguising character, not starting with a dot, at most 255 bytes. The
  fallback the caller passes (\<open>file\<close> or \<open>link\<close>) has to be such a name itself.
\<close>

theorem safe_name_ok:
  assumes "file_name_ok fallback"
  shows "file_name_ok (safe_name nfc name fallback)"
  using safe_name_cases [of nfc name fallback] assms by auto

theorem safe_name_ok_witness:
  "file_name_ok (lit ''file'') \<and> safe_name id (lit ''../etc/.bash rc'') (lit ''file'') = lit ''bash rc''
   \<and> file_name_ok (lit ''bash rc'')"
proof -
  have fb: "file_name_ok (lit ''file'')" by (simp add: eval_defs shorten.simps digits.simps)
  have eq: "safe_name id (lit ''../etc/.bash rc'') (lit ''file'') = lit ''bash rc''" by (simp add: eval_defs shorten.simps digits.simps)
  from safe_name_ok [OF fb, of id "lit ''../etc/.bash rc''"] fb eq show ?thesis by simp
qed

lemma safe_of_digit: "is_ascii_digit c \<Longrightarrow> \<not> is_unsafe_char c"
  by (auto simp: is_ascii_digit_def is_unsafe_char_def)

lemma str_len_dec: "str_len (dec i) = length (dec i)"
  using dec_digit [of _ i] by (intro str_len_ascii) (force simp: is_ascii_digit_def)

lemma length_dec_candidate: "i < 10000 \<Longrightarrow> length (dec i) \<le> 4"
  using length_show_radix [of 10 i 4] by simp

lemma candidate_name_Suc:
  assumes "split_ext name = (stem, ext)" "0 < i"
  shows "candidate_name name i =
    shorten stem (Suc (str_len (dec i)) + str_len ext) @ 0x2d # dec i @ ext"
  using assms by (simp add: candidate_name_def lit_def utf8_len_def)

lemma candidate_name_visible:
  assumes ok: "visible_name name"
  shows "visible_name (candidate_name name i)"
proof (cases "i = 0")
  case True
  with ok show ?thesis by (simp add: candidate_name_def)
next
  case False
  obtain stem ext where se: "split_ext name = (stem, ext)" by force
  have name: "name = stem @ ext" by (rule split_ext_append [OF se])
  have "stem \<noteq> []" using split_ext_stem_not_Nil [OF se] ok by (simp add: visible_name_def)
  define short where "short = shorten stem (Suc (str_len (dec i)) + str_len ext)"
  have cand: "candidate_name name i = short @ 0x2d # dec i @ ext"
    using candidate_name_Suc [OF se] False by (simp add: short_def)
  have "list_all (\<lambda>c. \<not> is_unsafe_char c) (stem @ ext)" using ok by (simp add: visible_name_def name)
  then have safe: "list_all (\<lambda>c. \<not> is_unsafe_char c) (candidate_name name i)"
    using shorten_subset [of _ stem] safe_of_digit [OF dec_digit [of _ i]]
    by (auto simp: cand short_def list_all_iff is_unsafe_char_def [of 45])
  have "hd (candidate_name name i) \<noteq> 0x2e"
    using ok \<open>stem \<noteq> []\<close> shorten_hd [of stem] unfolding cand
    by (cases "short = []") (auto simp: short_def visible_name_def name)
  with safe show ?thesis by (simp add: visible_name_def cand)
qed

lemma candidate_name_len_iff:
  assumes "0 < i"
  shows "str_len (candidate_name name i) \<le> MAX_FILE_NAME_BYTES
    \<longleftrightarrow> Suc (length (dec i)) + str_len (snd (split_ext name)) \<le> MAX_FILE_NAME_BYTES"
proof -
  obtain stem ext where se: "split_ext name = (stem, ext)" by force
  define suffix where "suffix = Suc (length (dec i)) + str_len ext"
  have "str_len (candidate_name name i) = str_len (shorten stem suffix) + suffix"
    using candidate_name_Suc [OF se assms] by (simp add: str_len_dec suffix_def utf8_len_def)
  then show ?thesis using shorten_le [of suffix stem] se
    by (auto simp: suffix_def)
qed

text \<open>
  Every candidate tried for a safe name is again one visible entry of the download directory.
  It fits 255 bytes exactly when its suffix (a hyphen, the number and the extension) does, so a
  name whose extension is 254 bytes long has no further candidate that fits, although the code's
  comment says the stem is shortened so that each fits.
\<close>

lemma candidate_name_ok:
  assumes "file_name_ok name" and "0 < i"
  shows "visible_name (candidate_name name i)
    \<and> (str_len (candidate_name name i) \<le> MAX_FILE_NAME_BYTES
       \<longleftrightarrow> Suc (length (dec i)) + str_len (snd (split_ext name)) \<le> MAX_FILE_NAME_BYTES)"
  using assms candidate_name_visible [of name i] candidate_name_len_iff [of i name]
  by (simp add: file_name_ok_def)

end
