(* ===== verification/Io.thy ===== *)
theory Io
  imports Text
begin

text \<open>
  Errors and byte streams.

  \<^item> \<open>io_error\<close> is \<open>std::io::Error\<close> with what the code wraps in it: a \<open>BodyError\<close> (http.rs) or the
    two refusals of an \<open>ArchiveError\<close> (archive.rs).
  \<^item> A reader (Rust's \<open>Read\<close>) is a function from its state and the room in the caller's buffer to
    what one \<open>read\<close> call returns; \<open>Ok []\<close> is end of stream. The network is a script of such
    results (\<open>source\<close>): pieces of any size, interruptions, failures.
  \<^item> The loops of the standard library and of archive.rs over a reader (\<open>read_full\<close>, \<open>io::copy\<close>
    into a sink, \<open>read_to_end\<close>) may run forever on a reader that is interrupted forever, so they are
    partial functions; \<open>None\<close> is not returning.
  \<^item> The locale \<open>byte_reader\<close> is the contract a reader keeps: it delivers a fixed sequence of bytes
    and then a fixed ending, in pieces of any size. Its lemmas say the loops return, and that what
    they return does not depend on how the stream was cut into pieces.
\<close>

text \<open>
  A message is kept as its format pieces: literal or computed text, a number, text shown by Rust's
  \<open>Debug\<close>. \<open>render\<close> takes the \<open>Debug\<close> formatter of \<open>str\<close> as a parameter.
\<close>

datatype piece = Txt ustr | Num nat | Dbg ustr

type_synonym msg = "piece list"

abbreviation T :: "string \<Rightarrow> piece" where
  "T s \<equiv> Txt (lit s)"

definition render :: "(ustr \<Rightarrow> ustr) \<Rightarrow> msg \<Rightarrow> ustr" where [eval_defs]:
  "render debug m = concat (map (\<lambda>p. case p of Txt s \<Rightarrow> s | Num n \<Rightarrow> dec n | Dbg s \<Rightarrow> debug s) m)"

datatype stall = Idle | Rate

datatype body_error =
    BodyInvalid msg
  | BodyTooLarge msg
  | BodyTimeout stall
  | BodyComplete

datatype error_kind =
    Interrupted | WouldBlock | TimedOut | UnexpectedEof | AlreadyExists | NotFound
  | InvalidInput | InvalidData | Other

datatype io_error =
    Plain error_kind msg
  | OfBody body_error
  | OfLimit msg
  | OfInvalid msg

datatype archive_error = Limit msg | Invalid msg | Io io_error

definition error_kind_of :: "io_error \<Rightarrow> error_kind" where [eval_defs]:
  "error_kind_of e = (case e of Plain k _ \<Rightarrow> k | _ \<Rightarrow> Other)"

abbreviation is_interrupted :: "io_error \<Rightarrow> bool" where
  "is_interrupted e \<equiv> error_kind_of e = Interrupted"

definition archive_error_of_io :: "io_error \<Rightarrow> archive_error" where [eval_defs]:
  "archive_error_of_io e = (case e of OfLimit m \<Rightarrow> Limit m | OfInvalid m \<Rightarrow> Invalid m | _ \<Rightarrow> Io e)"

definition archive_error_into_io :: "archive_error \<Rightarrow> io_error" where [eval_defs]:
  "archive_error_into_io e = (case e of Limit m \<Rightarrow> OfLimit m | Invalid m \<Rightarrow> OfInvalid m | Io i \<Rightarrow> i)"

lemma archive_error_round_trip:
  "archive_error_of_io (archive_error_into_io (Limit m)) = Limit m"
  "archive_error_of_io (archive_error_into_io (Invalid m)) = Invalid m"
  by (simp_all add: archive_error_of_io_def archive_error_into_io_def)

text \<open>\<open>Display\<close> of the errors, as message pieces.\<close>

definition body_error_msg :: "body_error \<Rightarrow> msg" where [eval_defs]:
  "body_error_msg b =
     (case b of
        BodyInvalid m \<Rightarrow> m
      | BodyTooLarge m \<Rightarrow> m
      | BodyTimeout Idle \<Rightarrow> [T ''timed out'']
      | BodyTimeout Rate \<Rightarrow> [T ''request body did not meet minimum read rate'']
      | BodyComplete \<Rightarrow> [T ''the body went quiet after a complete archive''])"

definition io_error_msg :: "io_error \<Rightarrow> msg" where [eval_defs]:
  "io_error_msg e = (case e of Plain _ m \<Rightarrow> m | OfBody b \<Rightarrow> body_error_msg b | OfLimit m \<Rightarrow> m | OfInvalid m \<Rightarrow> m)"

definition archive_error_msg :: "archive_error \<Rightarrow> msg" where [eval_defs]:
  "archive_error_msg e = (case e of Limit m \<Rightarrow> m | Invalid m \<Rightarrow> m | Io i \<Rightarrow> io_error_msg i)"

subsection \<open>Readers and writers\<close>

text \<open>A writer is what \<open>write_all\<close> does; \<open>vec_write\<close> is a \<open>Vec<u8>\<close>.\<close>

type_synonym 'w writer = "'w \<Rightarrow> bytes \<Rightarrow> (unit, io_error) result \<times> 'w"

definition vec_write :: "bytes writer" where [eval_defs]:
  "vec_write w bs = (Ok (), w @ bs)"

type_synonym 's reader = "'s \<Rightarrow> nat \<Rightarrow> ((bytes, io_error) result \<times> 's) option"

datatype source_event = Data bytes | Fail io_error

type_synonym source = "source_event list"

fun source_read :: "source reader" where
  "source_read [] n = Some (Ok [], [])"
| "source_read (Data bs # es) n =
     Some (Ok (take n bs), if drop n bs = [] then es else Data (drop n bs) # es)"
| "source_read (Fail e # es) n = Some (Err e, es)"

partial_function (option) read_full_loop ::
    "'s reader \<Rightarrow> 's \<Rightarrow> nat \<Rightarrow> bytes \<Rightarrow> ((bytes, io_error) result \<times> 's) option" where
  "read_full_loop rd s want filled =
     (if length filled < want then
        (case rd s (want - length filled) of
           None \<Rightarrow> None
         | Some (Ok bs, s') \<Rightarrow>
             if bs = [] then Some (Ok filled, s') else read_full_loop rd s' want (filled @ bs)
         | Some (Err e, s') \<Rightarrow>
             if is_interrupted e then read_full_loop rd s' want filled else Some (Err e, s'))
      else Some (Ok filled, s))"

definition read_full :: "'s reader \<Rightarrow> 's \<Rightarrow> nat \<Rightarrow> ((bytes, io_error) result \<times> 's) option" where
  "read_full rd s want = read_full_loop rd s want []"

definition IO_CHUNK_BYTES :: nat where [eval_defs]:
  "IO_CHUNK_BYTES = 64 * 1024"

definition COPY_BUF :: nat where [eval_defs]:
  "COPY_BUF = 8192"

text \<open>
  \<open>io::copy(&mut r.take(limit), &mut io::sink())\<close>, and without \<open>take\<close> for \<open>limit = None\<close>: the
  number of bytes copied.
\<close>

definition take_room :: "nat option \<Rightarrow> nat \<Rightarrow> nat" where [eval_defs]:
  "take_room limit copied = (case limit of None \<Rightarrow> COPY_BUF | Some l \<Rightarrow> min COPY_BUF (l - copied))"

partial_function (option) copy_sink ::
    "'s reader \<Rightarrow> nat option \<Rightarrow> 's \<Rightarrow> nat \<Rightarrow> ((nat, io_error) result \<times> 's) option" where
  "copy_sink rd limit s copied =
     (if take_room limit copied = 0 then Some (Ok copied, s)
      else (case rd s (take_room limit copied) of
              None \<Rightarrow> None
            | Some (Ok bs, s') \<Rightarrow>
                if bs = [] then Some (Ok copied, s') else copy_sink rd limit s' (copied + length bs)
            | Some (Err e, s') \<Rightarrow>
                if is_interrupted e then copy_sink rd limit s' copied else Some (Err e, s')))"

partial_function (option) read_to_end ::
    "'s reader \<Rightarrow> 's \<Rightarrow> bytes \<Rightarrow> ((bytes, io_error) result \<times> 's) option" where
  "read_to_end rd s acc =
     (case rd s COPY_BUF of
        None \<Rightarrow> None
      | Some (Ok bs, s') \<Rightarrow> if bs = [] then Some (Ok acc, s') else read_to_end rd s' (acc @ bs)
      | Some (Err e, s') \<Rightarrow> if is_interrupted e then read_to_end rd s' acc else Some (Err e, s'))"

text \<open>Partial correctness of \<open>read_to_end\<close>: a relation between a state and what remains to be read.\<close>

lemma read_to_end_rule:
  fixes rd :: "'s reader"
  assumes "read_to_end rd s acc = Some (Ok out, d)" "ok s"
    and last: "\<And>s. ok s \<Longrightarrow> rd s COPY_BUF = Some (Ok [], d) \<Longrightarrow> R s []"
    and some: "\<And>s bs s'. ok s \<Longrightarrow> rd s COPY_BUF = Some (Ok bs, s') \<Longrightarrow> bs \<noteq> [] \<Longrightarrow>
      ok s' \<and> (\<forall>o2. R s' o2 \<longrightarrow> R s (bs @ o2))"
    and again: "\<And>s e s'. ok s \<Longrightarrow> rd s COPY_BUF = Some (Err e, s') \<Longrightarrow> is_interrupted e \<Longrightarrow>
      ok s' \<and> (\<forall>o2. R s' o2 \<longrightarrow> R s o2)"
  shows "\<exists>o2. out = acc @ o2 \<and> R s o2"
proof -
  define P where "P rd' s acc x \<longleftrightarrow> (\<forall>out. rd' = rd \<and> x = (Ok out, d) \<and> ok s \<longrightarrow> (\<exists>o2. out = acc @ o2 \<and> R s o2))"
    for rd' s acc and x :: "(bytes, io_error) result \<times> 's"
  have "P rd s acc (Ok out, d)"
  proof (rule read_to_end.raw_induct [of P, OF _ assms(1)])
    fix f rd' s acc x
    assume ih: "\<And>rd' s acc x. f rd' s acc = Some x \<Longrightarrow> P rd' s acc x"
      and x: "(case rd' s COPY_BUF of
        None \<Rightarrow> None
      | Some (Ok bs, s') \<Rightarrow> if bs = [] then Some (Ok acc, s') else f rd' s' (acc @ bs)
      | Some (Err e, s') \<Rightarrow> if is_interrupted e then f rd' s' acc else Some (Err e, s')) = Some x"
    show "P rd' s acc x" unfolding P_def
    proof (intro allI impI)
      fix out
      assume a: "rd' = rd \<and> x = (Ok out, d) \<and> ok s"
      obtain r s' where rd: "rd s COPY_BUF = Some (r, s')" using x a by (cases "rd s COPY_BUF") auto
      show "\<exists>o2. out = acc @ o2 \<and> R s o2"
      proof (cases r)
        case (Ok bs)
        show ?thesis
        proof (cases "bs = []")
          case True
          with Ok x rd a last [of s] show ?thesis by auto
        next
          case False
          with Ok x rd a ih [of rd s' "acc @ bs" "(Ok out, d)"] some [of s bs s'] show ?thesis
            by (fastforce simp: P_def)
        qed
      next
        case (Err e)
        with x rd a ih [of rd s' acc "(Ok out, d)"] again [of s e s'] show ?thesis
          by (fastforce simp: P_def split: if_splits)
      qed
    qed
  qed
  with assms(2) show ?thesis by (simp add: P_def)
qed

subsection \<open>The contract of a reader\<close>

locale byte_reader =
  fixes rd :: "'s reader"
    and good :: "'s \<Rightarrow> bool"
    and content :: "'s \<Rightarrow> bytes"
    and ending :: "'s \<Rightarrow> io_error option"
    and pending :: "'s \<Rightarrow> nat"
  assumes rd_returns: "good s \<Longrightarrow> 0 < n \<Longrightarrow> rd s n \<noteq> None"
    and rd_good: "good s \<Longrightarrow> 0 < n \<Longrightarrow> rd s n = Some (r, s') \<Longrightarrow>
      (\<And>e. r = Err e \<Longrightarrow> is_interrupted e) \<Longrightarrow> good s'"
    and rd_end: "good s \<Longrightarrow> 0 < n \<Longrightarrow> rd s n = Some (Ok [], s') \<Longrightarrow>
      content s = [] \<and> ending s = None \<and> content s' = [] \<and> ending s' = None \<and> pending s' \<le> pending s"
    and rd_some: "good s \<Longrightarrow> 0 < n \<Longrightarrow> rd s n = Some (Ok bs, s') \<Longrightarrow> bs \<noteq> [] \<Longrightarrow>
      length bs \<le> n \<and> content s = bs @ content s' \<and> ending s' = ending s \<and> pending s' \<le> pending s"
    and rd_interrupted: "good s \<Longrightarrow> 0 < n \<Longrightarrow> rd s n = Some (Err e, s') \<Longrightarrow> is_interrupted e \<Longrightarrow>
      content s' = content s \<and> ending s' = ending s \<and> pending s' < pending s"
    and rd_failed: "good s \<Longrightarrow> 0 < n \<Longrightarrow> rd s n = Some (Err e, s') \<Longrightarrow> \<not> is_interrupted e \<Longrightarrow>
      content s = [] \<and> ending s = Some e"
begin

lemma read_full_loop_spec:
  assumes "good s" "length filled \<le> want"
  shows "\<exists>r s'. read_full_loop rd s want filled = Some (r, s') \<and> (ending s = None \<or> want - length filled \<le> length (content s) \<longrightarrow> good s') \<and>
    (let k = want - length filled in
     if k \<le> length (content s)
     then r = Ok (filled @ take k (content s)) \<and> content s' = drop k (content s) \<and> ending s' = ending s
       \<and> pending s' \<le> pending s
     else (case ending s of
             None \<Rightarrow> r = Ok (filled @ content s) \<and> content s' = [] \<and> ending s' = None \<and> pending s' \<le> pending s
           | Some e \<Rightarrow> r = Err e \<and> \<not> is_interrupted e))"
  using assms
proof (induction "(want - length filled, pending s)" arbitrary: s filled
    rule: wf_induct_rule [OF wf_lex_prod [OF wf_measure [of id] wf_measure [of id]]])
  case (1 s filled)
  show ?case
  proof (cases "length filled < want")
    case False
    with 1 show ?thesis by (auto simp: read_full_loop.simps [of rd s])
  next
    case True
    define k where "k = want - length filled"
    have k: "0 < k" using True by (simp add: k_def)
    obtain r s' where rs: "rd s k = Some (r, s')" using rd_returns [OF 1(2) k] by fastforce
    have g': "(\<And>e. r = Err e \<Longrightarrow> is_interrupted e) \<Longrightarrow> good s'" by (rule rd_good [OF 1(2) k rs])
    have unf: "read_full_loop rd s want filled =
      (case (r, s') of
           (Ok bs, s') \<Rightarrow>
             if bs = [] then Some (Ok filled, s') else read_full_loop rd s' want (filled @ bs)
         | (Err e, s') \<Rightarrow>
             if is_interrupted e then read_full_loop rd s' want filled else Some (Err e, s'))"
      using True by (subst read_full_loop.simps) (simp add: rs flip: k_def)
    show ?thesis
    proof (cases r)
      case (Ok bs)
      show ?thesis
      proof (cases "bs = []")
        case True
        with Ok rs k rd_end [OF 1(2) k] g' show ?thesis unfolding unf by (auto simp flip: k_def)
      next
        case False
        have law: "length bs \<le> k" "content s = bs @ content s'" "ending s' = ending s" "pending s' \<le> pending s"
          using rd_some [OF 1(2) k, of bs s'] rs Ok False by auto
        have le: "length (filled @ bs) \<le> want" using law(1) True by (simp add: k_def)
        have "want - length (filled @ bs) < k"
          using False law(1) k by (cases bs) (auto simp: k_def)
        with 1(1) [of "filled @ bs" s'] g' Ok le obtain r2 s2 where
          ih: "read_full_loop rd s' want (filled @ bs) = Some (r2, s2)"
            "ending s' = None \<or> want - length (filled @ bs) \<le> length (content s') \<longrightarrow> good s2"
            "let j = want - length (filled @ bs) in
             if j \<le> length (content s')
             then r2 = result.Ok ((filled @ bs) @ take j (content s')) \<and> content s2 = drop j (content s')
               \<and> ending s2 = ending s' \<and> pending s2 \<le> pending s'
             else (case ending s' of
               None \<Rightarrow> r2 = result.Ok ((filled @ bs) @ content s') \<and> content s2 = [] \<and> ending s2 = None
                 \<and> pending s2 \<le> pending s'
             | Some e \<Rightarrow> r2 = Err e \<and> \<not> is_interrupted e)"
          by (auto simp: k_def)
        have j: "want - length (filled @ bs) = k - length bs" using law(1) by (simp add: k_def)
        show ?thesis using ih Ok False law unfolding unf j
          by (auto simp: Let_def split: if_splits option.splits simp flip: k_def)
      qed
    next
      case (Err e)
      show ?thesis
      proof (cases "is_interrupted e")
        case True
        have law: "content s' = content s" "ending s' = ending s" "pending s' < pending s"
          using rd_interrupted [OF 1(2) k, of e s'] rs Err True by auto
        have "read_full_loop rd s want filled = read_full_loop rd s' want filled"
          unfolding unf using True Err by simp
        moreover have "good s'" using g' Err True by simp
        ultimately show ?thesis using 1(1) [of filled s'] law(3) 1(3) unfolding law(1,2)
          by (auto simp: Let_def split: if_splits option.splits)
      next
        case False
        with Err rs rd_failed [OF 1(2) k, of e s'] g' k show ?thesis unfolding unf
          by (auto simp flip: k_def)
      qed
    qed
  qed
qed

lemma read_full_spec:
  assumes "good s"
  shows "\<exists>r s'. read_full rd s want = Some (r, s') \<and> (ending s = None \<or> want \<le> length (content s) \<longrightarrow> good s') \<and>
    (if want \<le> length (content s)
     then r = Ok (take want (content s)) \<and> content s' = drop want (content s) \<and> ending s' = ending s
       \<and> pending s' \<le> pending s
     else (case ending s of
             None \<Rightarrow> r = Ok (content s) \<and> content s' = [] \<and> ending s' = None \<and> pending s' \<le> pending s
           | Some e \<Rightarrow> r = Err e \<and> \<not> is_interrupted e))"
  using read_full_loop_spec [OF assms, of "[]" want]
  by (simp only: read_full_def Let_def append_Nil list.size diff_zero)

lemma read_full_enough:
  assumes "good s" "want \<le> length (content s)"
  obtains s' where "read_full rd s want = Some (Ok (take want (content s)), s')" "good s'"
    "content s' = drop want (content s)" "ending s' = ending s" "pending s' \<le> pending s"
  using read_full_spec [OF assms(1), of want] assms(2) by auto

lemma read_full_short:
  assumes "good s" "length (content s) < want" "ending s = None"
  obtains s' where "read_full rd s want = Some (Ok (content s), s')" "good s'"
    "content s' = []" "ending s' = None" "pending s' \<le> pending s"
  using read_full_spec [OF assms(1), of want] assms(2,3) by auto

lemma read_full_fails:
  assumes "good s" "length (content s) < want" "ending s = Some e"
  obtains s' where "read_full rd s want = Some (Err e, s')" "\<not> is_interrupted e"
  using read_full_spec [OF assms(1), of want] assms(2,3) by auto

lemma rd_cases:
  assumes "good s" "0 < n"
  obtains (eof) s' where "rd s n = Some (Ok [], s')" "good s'" "content s = []" "ending s = None"
      "content s' = []" "ending s' = None" "pending s' \<le> pending s"
  | (some) bs s' where "rd s n = Some (Ok bs, s')" "good s'" "bs \<noteq> []" "length bs \<le> n"
      "content s = bs @ content s'" "ending s' = ending s" "pending s' \<le> pending s"
  | (interrupted) e s' where "rd s n = Some (Err e, s')" "good s'" "is_interrupted e"
      "content s' = content s" "ending s' = ending s" "pending s' < pending s"
  | (failed) e s' where "rd s n = Some (Err e, s')" "\<not> is_interrupted e"
      "content s = []" "ending s = Some e"
proof -
  obtain r s' where rs: "rd s n = Some (r, s')" using rd_returns [OF assms] by fastforce
  have g: "(\<And>e. r = Err e \<Longrightarrow> is_interrupted e) \<Longrightarrow> good s'" by (rule rd_good [OF assms rs])
  show thesis
  proof (cases r)
    case (Ok bs)
    with rs g show thesis
      using eof some rd_end [OF assms] rd_some [OF assms] by (cases "bs = []") auto
  next
    case (Err e)
    with rs g show thesis
      using interrupted failed rd_interrupted [OF assms] rd_failed [OF assms] by (cases "is_interrupted e") auto
  qed
qed

lemma copy_sink_all:
  assumes "good s"
  shows "\<exists>s'. copy_sink rd None s copied =
    Some (case ending s of None \<Rightarrow> Ok (copied + length (content s)) | Some e \<Rightarrow> Err e, s') \<and> (ending s = None \<longrightarrow> good s')"
  using assms
proof (induction "(length (content s), pending s)" arbitrary: s copied
    rule: wf_induct_rule [OF wf_lex_prod [OF wf_measure [of id] wf_measure [of id]]])
  case (1 s copied)
  have room: "take_room None copied = COPY_BUF" "0 < COPY_BUF"
    by (simp_all add: take_room_def COPY_BUF_def)
  from \<open>good s\<close> room(2) show ?case
  proof (cases rule: rd_cases)
    case (some bs s')
    then have "length (content s') < length (content s)" by simp
    with 1(1) [of s' "copied + length bs"] some obtain s2 where
      "copy_sink rd None s' (copied + length bs) =
        Some (case ending s' of None \<Rightarrow> Ok (copied + length bs + length (content s')) | Some e \<Rightarrow> Err e, s2)"
      "ending s' = None \<longrightarrow> good s2" by auto
    with some room show ?thesis by (subst copy_sink.simps) (simp add: add.assoc cong: option.case_cong)
  next
    case (interrupted e s')
    with 1(1) [of s' copied] room show ?thesis
      by (subst copy_sink.simps) (simp cong: option.case_cong)
  qed (use room in \<open>subst copy_sink.simps, simp\<close>)+
qed

lemma read_to_end_spec:
  assumes "good s"
  shows "\<exists>s'. read_to_end rd s acc =
    Some (case ending s of None \<Rightarrow> Ok (acc @ content s) | Some e \<Rightarrow> Err e, s') \<and> (ending s = None \<longrightarrow> good s')"
  using assms
proof (induction "(length (content s), pending s)" arbitrary: s acc
    rule: wf_induct_rule [OF wf_lex_prod [OF wf_measure [of id] wf_measure [of id]]])
  case (1 s acc)
  have room: "0 < COPY_BUF" by (simp add: COPY_BUF_def)
  from \<open>good s\<close> room show ?case
  proof (cases rule: rd_cases)
    case (some bs s')
    then have "length (content s') < length (content s)" by simp
    with 1(1) [of s' "acc @ bs"] some obtain s2 where
      "read_to_end rd s' (acc @ bs) =
        Some (case ending s' of None \<Rightarrow> Ok ((acc @ bs) @ content s') | Some e \<Rightarrow> Err e, s2)"
      "ending s' = None \<longrightarrow> good s2" by auto
    with some show ?thesis by (subst read_to_end.simps) (simp cong: option.case_cong)
  next
    case (interrupted e s')
    with 1(1) [of s' acc] show ?thesis
      by (subst read_to_end.simps) (simp cong: option.case_cong)
  qed (subst read_to_end.simps, simp)+
qed

lemma copy_sink_take:
  assumes "good s" "copied \<le> l"
  shows "\<exists>r s'. copy_sink rd (Some l) s copied = Some (r, s') \<and> (ending s = None \<or> l - copied \<le> length (content s) \<longrightarrow> good s') \<and>
    (if l - copied \<le> length (content s)
     then r = Ok l \<and> content s' = drop (l - copied) (content s) \<and> ending s' = ending s
     else (case ending s of
             None \<Rightarrow> r = Ok (copied + length (content s)) \<and> content s' = [] \<and> ending s' = None
           | Some e \<Rightarrow> r = Err e))"
  using assms
proof (induction "(l - copied, pending s)" arbitrary: s copied
    rule: wf_induct_rule [OF wf_lex_prod [OF wf_measure [of id] wf_measure [of id]]])
  case (1 s copied)
  define room where "room = take_room (Some l) copied"
  have room: "room = min COPY_BUF (l - copied)" "0 < COPY_BUF"
    by (simp_all add: room_def take_room_def COPY_BUF_def)
  show ?case
  proof (cases "room = 0")
    case True
    with room 1(2,3) show ?thesis by (subst copy_sink.simps) (auto simp flip: room_def)
  next
    case False
    then have pos: "0 < room" by simp
    from \<open>good s\<close> pos show ?thesis
    proof (cases rule: rd_cases)
      case (some bs s')
      have le: "copied + length bs \<le> l" "length bs \<le> l - copied"
        using some room 1(3) by auto
      have "l - (copied + length bs) < l - copied" using some le False room by (cases bs) auto
      with 1(1) [of "copied + length bs" s'] some le obtain r2 s2 where
        ih: "copy_sink rd (Some l) s' (copied + length bs) = Some (r2, s2)"
          "ending s' = None \<or> l - (copied + length bs) \<le> length (content s') \<longrightarrow> good s2"
          "if l - (copied + length bs) \<le> length (content s')
           then r2 = Ok l \<and> content s2 = drop (l - (copied + length bs)) (content s') \<and> ending s2 = ending s'
           else (case ending s' of
                   None \<Rightarrow> r2 = Ok (copied + length bs + length (content s')) \<and> content s2 = [] \<and> ending s2 = None
                 | Some e \<Rightarrow> r2 = Err e)"
        by auto
      have "copy_sink rd (Some l) s copied = Some (r2, s2)"
        using False some ih(1) by (subst copy_sink.simps) (simp flip: room_def)
      moreover have "l - copied \<le> length (content s) \<longleftrightarrow> l - (copied + length bs) \<le> length (content s')"
        "drop (l - copied) (content s) = drop (l - (copied + length bs)) (content s')"
        using some le by auto
      ultimately show ?thesis using ih some by (simp add: add.assoc cong: option.case_cong if_cong)
    next
      case (interrupted e s')
      have "copy_sink rd (Some l) s copied = copy_sink rd (Some l) s' copied"
        using interrupted False by (subst copy_sink.simps) (simp flip: room_def)
      with 1(1) [of copied s'] 1(3) interrupted(6) \<open>good s'\<close> show ?thesis
        unfolding interrupted(4,5) by simp
    next
      case (eof s')
      have "copy_sink rd (Some l) s copied = Some (Ok copied, s')"
        using eof False by (subst copy_sink.simps) (simp flip: room_def)
      with eof pos room show ?thesis by simp
    next
      case (failed e s')
      have "copy_sink rd (Some l) s copied = Some (Err e, s')"
        using failed False by (subst copy_sink.simps) (simp flip: room_def)
      with failed pos room show ?thesis by simp
    qed
  qed
qed

end

text \<open>The contract from what one call may return.\<close>

definition read_outcome :: "'s reader \<Rightarrow> ('s \<Rightarrow> bool) \<Rightarrow> ('s \<Rightarrow> bytes) \<Rightarrow> ('s \<Rightarrow> io_error option) \<Rightarrow> ('s \<Rightarrow> nat) \<Rightarrow> 's \<Rightarrow> nat \<Rightarrow> bool" where
  "read_outcome rd good content ending pending s n \<longleftrightarrow>
     (\<exists>s'. rd s n = Some (Ok [], s') \<and> good s' \<and> content s = [] \<and> ending s = None \<and> content s' = [] \<and> ending s' = None
        \<and> pending s' \<le> pending s)
     \<or> (\<exists>bs s'. rd s n = Some (Ok bs, s') \<and> good s' \<and> bs \<noteq> [] \<and> length bs \<le> n \<and> content s = bs @ content s'
        \<and> ending s' = ending s \<and> pending s' \<le> pending s)
     \<or> (\<exists>e s'. rd s n = Some (Err e, s') \<and> good s' \<and> is_interrupted e \<and> content s' = content s
        \<and> ending s' = ending s \<and> pending s' < pending s)
     \<or> (\<exists>e s'. rd s n = Some (Err e, s') \<and> \<not> is_interrupted e \<and> content s = [] \<and> ending s = Some e)"

lemma byte_readerI:
  assumes "\<And>s n. good s \<Longrightarrow> 0 < n \<Longrightarrow> read_outcome rd good content ending pending s n"
  shows "byte_reader rd good content ending pending"
proof
  fix s and n :: nat
  assume "good s" "0 < n"
  from assms [OF this] have out: "read_outcome rd good content ending pending s n" .
  then show "rd s n \<noteq> None" by (auto simp: read_outcome_def)
  { fix r s'
    assume "rd s n = Some (r, s')" "\<And>e. r = Err e \<Longrightarrow> is_interrupted e"
    with out show "good s'" by (auto simp: read_outcome_def) }
  { fix s'
    assume "rd s n = Some (Ok [], s')"
    with out show "content s = [] \<and> ending s = None \<and> content s' = [] \<and> ending s' = None \<and> pending s' \<le> pending s"
      by (auto simp: read_outcome_def) }
  { fix bs s'
    assume "rd s n = Some (Ok bs, s')" "bs \<noteq> []"
    with out show "length bs \<le> n \<and> content s = bs @ content s' \<and> ending s' = ending s \<and> pending s' \<le> pending s"
      by (auto simp: read_outcome_def) }
  { fix e s'
    assume "rd s n = Some (Err e, s')" "is_interrupted e"
    with out show "content s' = content s \<and> ending s' = ending s \<and> pending s' < pending s"
      by (auto simp: read_outcome_def) }
  { fix e s'
    assume "rd s n = Some (Err e, s')" "\<not> is_interrupted e"
    with out show "content s = [] \<and> ending s = Some e" by (auto simp: read_outcome_def) }
qed

text \<open>A reader with no interruptions left is never interrupted.\<close>

lemma byte_reader_quiet:
  assumes "byte_reader rd good content ending pending"
  shows "byte_reader rd (\<lambda>s. good s \<and> pending s = 0) content ending (\<lambda>_. 0)"
proof -
  note br = byte_reader.rd_returns [OF assms] byte_reader.rd_good [OF assms] byte_reader.rd_end [OF assms]
    byte_reader.rd_some [OF assms] byte_reader.rd_interrupted [OF assms] byte_reader.rd_failed [OF assms]
  show ?thesis
  proof
    fix s and n :: nat and r s'
    assume a: "good s \<and> pending s = 0" "0 < n" "rd s n = Some (r, s')" "\<And>e. r = Err e \<Longrightarrow> is_interrupted e"
    show "good s' \<and> pending s' = 0"
    proof (cases r)
      case (Ok bs)
      with a br(2) [of s n r s'] br(3) [of s n s'] br(4) [of s n bs s'] show ?thesis by (cases "bs = []") auto
    next
      case (Err e)
      with a br(5) [of s n e s'] show ?thesis by auto
    qed
  next
    fix s and n :: nat and e s'
    assume "good s \<and> pending s = 0" "0 < n" "rd s n = Some (Err e, s')" "is_interrupted e"
    then show "content s' = content s \<and> ending s' = ending s \<and> (0 :: nat) < 0" using br(5) by fastforce
  qed (use br(1,3,4,6) in auto)
qed

text \<open>A reader that is a part of a larger state keeps its contract there.\<close>

lemma byte_reader_part:
  assumes "byte_reader rd good content ending pending"
    and rd2: "\<And>s n. rd2 s n = map_option (\<lambda>(r, t). (r, upd t s)) (rd (sel s) n)"
    and sel_upd: "\<And>s t. sel (upd t s) = t"
  shows "byte_reader rd2 (\<lambda>s. good (sel s)) (\<lambda>s. content (sel s)) (\<lambda>s. ending (sel s)) (\<lambda>s. pending (sel s))"
proof -
  note br = byte_reader.rd_returns [OF assms(1)] byte_reader.rd_end [OF assms(1)]
    byte_reader.rd_some [OF assms(1)] byte_reader.rd_interrupted [OF assms(1)] byte_reader.rd_failed [OF assms(1)]
  have part: "rd (sel s) n = Some (r, sel s')" if "rd2 s n = Some (r, s')" for s n r s'
    using that by (auto simp: rd2 sel_upd)
  show ?thesis
  proof
    fix s and n :: nat
    assume "good (sel s)" "0 < n"
    with br(1) show "rd2 s n \<noteq> None" by (auto simp: rd2)
  qed (use part in \<open>blast dest: br(2-5) byte_reader.rd_good [OF assms(1)]\<close>)+
qed

subsection \<open>The contract of a writer\<close>

text \<open>A writer that takes everything: what has been written grows by exactly what is given.\<close>

locale byte_writer =
  fixes wr :: "'w writer"
    and wok :: "'w \<Rightarrow> bool"
    and written :: "'w \<Rightarrow> bytes"
  assumes wr_takes: "wok w \<Longrightarrow> \<exists>w'. wr w bs = (Ok (), w') \<and> wok w' \<and> written w' = written w @ bs"

interpretation vec_writer: byte_writer vec_write "\<lambda>_. True" id
  by unfold_locales (simp add: vec_write_def)

subsection \<open>The network script is a reader\<close>

text \<open>What a script delivers: its data until a failure, an empty read or the end of the script.\<close>

fun source_content :: "source \<Rightarrow> bytes" where
  "source_content [] = []"
| "source_content (Data bs # es) = (if bs = [] then [] else bs @ source_content es)"
| "source_content (Fail e # es) = (if is_interrupted e then source_content es else [])"

fun source_ending :: "source \<Rightarrow> io_error option" where
  "source_ending [] = None"
| "source_ending (Data bs # es) = (if bs = [] then None else source_ending es)"
| "source_ending (Fail e # es) = (if is_interrupted e then source_ending es else Some e)"

text \<open>How often a script interrupts a read.\<close>

fun source_interrupts :: "source \<Rightarrow> nat" where
  "source_interrupts [] = 0"
| "source_interrupts (Data _ # es) = source_interrupts es"
| "source_interrupts (Fail e # es) = (if is_interrupted e then Suc (source_interrupts es) else source_interrupts es)"

text \<open>A script without empty reads: a real stream reports its end only once, at the end.\<close>

definition source_good :: "source \<Rightarrow> bool" where [eval_defs]:
  "source_good es = list_all (\<lambda>e. e \<noteq> Data []) es"

lemma source_read_some:
  assumes "source_good es" "0 < n" "source_read es n = Some (Ok bs, es')"
  shows "source_good es' \<and> length bs \<le> n \<and> source_content es = bs @ source_content es'
    \<and> source_ending es' = source_ending es \<and> source_interrupts es' \<le> source_interrupts es \<and> (bs = [] \<longrightarrow> es = [] \<and> es' = [])"
proof (cases es)
  case Nil
  with assms show ?thesis by (simp add: source_good_def)
next
  case (Cons e r)
  with assms obtain d where e: "e = Data d" by (cases e) auto
  with assms Cons show ?thesis
    by (cases "drop n d = []") (auto simp: source_good_def simp flip: append_assoc)
qed

lemma source_read_err:
  assumes "source_good es" "source_read es n = Some (Err e, es')"
  shows "es = Fail e # es' \<and> source_good es'"
proof (cases es)
  case Nil
  with assms show ?thesis by simp
next
  case (Cons x r)
  with assms show ?thesis by (cases x) (auto simp: source_good_def)
qed

interpretation source_reader: byte_reader source_read source_good source_content source_ending source_interrupts
proof
  fix s n
  show "source_read s n \<noteq> None" by (cases "(s, n)" rule: source_read.cases) auto
next
  fix s n r s'
  assume "source_good s" "0 < n" "source_read s n = Some (r, s')"
  then show "source_good s'"
    using source_read_some source_read_err by (cases r) blast+
next
  fix s n s'
  assume "source_good s" "0 < n" "source_read s n = Some (Ok [], s')"
  then show "source_content s = [] \<and> source_ending s = None \<and> source_content s' = [] \<and> source_ending s' = None
    \<and> source_interrupts s' \<le> source_interrupts s"
    using source_read_some [of s n "[]" s'] by auto
next
  fix s n bs s'
  assume "source_good s" "0 < n" "source_read s n = Some (Ok bs, s')"
  then show "length bs \<le> n \<and> source_content s = bs @ source_content s' \<and> source_ending s' = source_ending s
    \<and> source_interrupts s' \<le> source_interrupts s"
    using source_read_some by blast
next
  fix s n e s'
  assume "source_good s" "source_read s n = Some (Err e, s')" "is_interrupted e"
  then show "source_content s' = source_content s \<and> source_ending s' = source_ending s \<and> source_interrupts s' < source_interrupts s"
    using source_read_err [of s n e s'] by auto
next
  fix s n e s'
  assume "source_good s" "source_read s n = Some (Err e, s')" "\<not> is_interrupted e"
  then show "source_content s = [] \<and> source_ending s = Some e"
    using source_read_err [of s n e s'] by auto
qed

end
