(* ===== verification/Cpio.thy ===== *)
theory Cpio
  imports Names Io
begin

text \<open>
  CPIO archives (\<open>core/crates/omdrop-proto/src/archive.rs\<close>, CPIO): the reader of odc and newc
  members (\<open>CpioReader\<close>) over any byte reader, and the odc writer (\<open>CpioWriter\<close>) over any byte
  writer. The reader's operations return \<open>None\<close> only if the reader below never returns.
\<close>

definition MAX_PATH_BYTES :: nat where [eval_defs]:
  "MAX_PATH_BYTES = 4096"

definition ODC_MAGIC :: bytes where [eval_defs]:
  "ODC_MAGIC = blit ''070707''"

definition NEWC_MAGIC :: bytes where [eval_defs]:
  "NEWC_MAGIC = blit ''070701''"

definition NEWC_CRC_MAGIC :: bytes where [eval_defs]:
  "NEWC_CRC_MAGIC = blit ''070702''"

definition TRAILER :: ustr where [eval_defs]:
  "TRAILER = lit ''TRAILER!!!''"

definition ODC_MAX_SIZE :: nat where [eval_defs]:
  "ODC_MAX_SIZE = 8 ^ 11 - 1"

definition ODC_MAX_SHORT :: nat where [eval_defs]:
  "ODC_MAX_SHORT = 8 ^ 6 - 1"

record cpio_entry =
  ce_path :: ustr
  ce_mode :: u32
  ce_size :: nat

definition is_file :: "cpio_entry \<Rightarrow> bool" where [eval_defs]:
  "is_file e \<longleftrightarrow> ce_mode e AND 0xf000 = 0x8000"

record 's cpio_reader =
  cr_inner :: 's
  cr_left :: nat
  cr_pad :: nat
  cr_newc :: bool
  cr_started :: bool
  cr_done :: bool
  cr_magic :: bytes

definition cpio_new :: "'s \<Rightarrow> 's cpio_reader" where [eval_defs]:
  "cpio_new inner = \<lparr>cr_inner = inner, cr_left = 0, cr_pad = 0, cr_newc = False, cr_started = False,
     cr_done = False, cr_magic = []\<rparr>"

definition field :: "bytes \<Rightarrow> nat \<Rightarrow> string \<Rightarrow> (nat, io_error) result" where [eval_defs]:
  "field raw radix what =
     (case from_utf8 raw of
        None \<Rightarrow> Err (OfInvalid [T ''cpio '', T what, T '' field is not a number''])
      | Some text \<Rightarrow>
          (let bad = Err (OfInvalid [T ''cpio '', T what, T '' field '', Dbg text, T '' is not a number''])
           in if \<not> list_all (is_digit_in radix) text then bad
              else (case from_str_radix u64_max radix text of Some v \<Rightarrow> Ok v | None \<Rightarrow> bad)))"

text \<open>A step of the reader: it may not return, or return an error or a value, with the new state.\<close>

type_synonym ('a, 's) cpio_step = "(('a, archive_error) result \<times> 's cpio_reader) option"

definition and_then :: "('a, 's) cpio_step \<Rightarrow> ('a \<Rightarrow> 's cpio_reader \<Rightarrow> ('b, 's) cpio_step) \<Rightarrow> ('b, 's) cpio_step"
  where [eval_defs]:
  "and_then m f =
     (case m of None \<Rightarrow> None
      | Some (Err e, c) \<Rightarrow> Some (Err e, c)
      | Some (Ok x, c) \<Rightarrow> f x c)"

definition cpio_fill :: "'s reader \<Rightarrow> nat \<Rightarrow> 's cpio_reader \<Rightarrow> (bytes, 's) cpio_step" where [eval_defs]:
  "cpio_fill rd n c =
     (case read_full rd (cr_inner c) n of
        None \<Rightarrow> None
      | Some (Err e, s) \<Rightarrow> Some (Err (archive_error_of_io e), c\<lparr>cr_inner := s\<rparr>)
      | Some (Ok bs, s) \<Rightarrow> Some (Ok bs, c\<lparr>cr_inner := s\<rparr>))"

definition cpio_fields :: "(nat, io_error) result \<Rightarrow> (nat, io_error) result \<Rightarrow> (nat, io_error) result
    \<Rightarrow> 's cpio_reader \<Rightarrow> (nat \<times> nat \<times> nat, 's) cpio_step" where [eval_defs]:
  "cpio_fields mode namesize filesize c =
     (case mode of Err e \<Rightarrow> Some (Err (archive_error_of_io e), c)
      | Ok m \<Rightarrow> (case namesize of Err e \<Rightarrow> Some (Err (archive_error_of_io e), c)
      | Ok n \<Rightarrow> (case filesize of Err e \<Rightarrow> Some (Err (archive_error_of_io e), c)
      | Ok z \<Rightarrow> Some (Ok (m, n, z), c))))"

text \<open>Skip what the caller left unread of the previous member.\<close>

definition cpio_skip :: "'s reader \<Rightarrow> 's cpio_reader \<Rightarrow> (unit, 's) cpio_step" where [eval_defs]:
  "cpio_skip rd c =
     (let skip = cr_left c + cr_pad c
      in if skip > 0 then
           (case copy_sink rd (Some skip) (cr_inner c) 0 of
              None \<Rightarrow> None
            | Some (Err e, s) \<Rightarrow> Some (Err (archive_error_of_io e), c\<lparr>cr_inner := s\<rparr>)
            | Some (Ok skipped, s) \<Rightarrow>
                if skipped < skip
                then Some (Err (Invalid [T ''truncated cpio member data'']), c\<lparr>cr_inner := s\<rparr>)
                else Some (Ok (), c\<lparr>cr_inner := s, cr_left := 0, cr_pad := 0\<rparr>))
         else Some (Ok (), c))"

text \<open>The rest of the header after its six magic bytes: mode, name size and file size.\<close>

definition cpio_header :: "'s reader \<Rightarrow> bytes \<Rightarrow> 's cpio_reader \<Rightarrow> (nat \<times> nat \<times> nat, 's) cpio_step"
  where [eval_defs]:
  "cpio_header rd magic c =
     (if magic = ODC_MAGIC then
        and_then (cpio_fill rd 70 c) (\<lambda>h c.
          if length h < 70 then Some (Err (Invalid [T ''truncated cpio header'']), c)
          else (let c = c\<lparr>cr_newc := False\<rparr>
                in cpio_fields (field (take 6 (drop 12 h)) 8 ''mode'')
                     (field (take 6 (drop 53 h)) 8 ''name size'')
                     (field (take 11 (drop 59 h)) 8 ''file size'') c))
      else if magic = NEWC_MAGIC \<or> magic = NEWC_CRC_MAGIC then
        and_then (cpio_fill rd 104 c) (\<lambda>h c.
          if length h < 104 then Some (Err (Invalid [T ''truncated cpio header'']), c)
          else (let c = c\<lparr>cr_newc := True\<rparr>
                in cpio_fields (field (take 8 (drop 8 h)) 16 ''mode'')
                     (field (take 8 (drop 88 h)) 16 ''name size'')
                     (field (take 8 (drop 48 h)) 16 ''file size'') c))
      else Some (Err (Invalid [T ''not a cpio archive (magic '', Txt (py_bytes_repr magic), T '')'']), c))"

text \<open>The member's name, and the newc padding after it.\<close>

definition cpio_path :: "'s reader \<Rightarrow> nat \<Rightarrow> 's cpio_reader \<Rightarrow> (ustr, 's) cpio_step" where [eval_defs]:
  "cpio_path rd namesize c =
     (if namesize = 0 \<or> namesize > MAX_PATH_BYTES + 1
      then Some (Err (Invalid [T ''cpio member name of '', Num namesize, T '' bytes'']), c)
      else and_then (cpio_fill rd namesize c) (\<lambda>name c.
        if length name < namesize then Some (Err (Invalid [T ''truncated cpio member name'']), c)
        else if last name \<noteq> 0 then Some (Err (Invalid [T ''cpio member name is not NUL-terminated'']), c)
        else (let path = from_utf8_lossy (takeWhile (\<lambda>b. b \<noteq> 0) name)
              in if cr_newc c then
                   (let header_pad = (4 - (110 + namesize) mod 4) mod 4
                    in and_then (cpio_fill rd header_pad c) (\<lambda>pad c.
                         if length pad < header_pad then Some (Err (Invalid [T ''truncated cpio header'']), c)
                         else Some (Ok path, c)))
                 else Some (Ok path, c))))"

definition next_entry :: "'s reader \<Rightarrow> 's cpio_reader \<Rightarrow> (cpio_entry option, 's) cpio_step" where [eval_defs]:
  "next_entry rd c =
     (if cr_done c then Some (Ok None, c)
      else and_then (cpio_skip rd c) (\<lambda>_ c.
        and_then (cpio_fill rd 6 c) (\<lambda>magic c.
          if magic = [] \<and> \<not> cr_started c then Some (Ok None, c\<lparr>cr_done := True\<rparr>)
          else (let c = (if cr_started c then c else c\<lparr>cr_magic := magic, cr_started := True\<rparr>)
                in if length magic < 6 then Some (Err (Invalid [T ''truncated cpio header'']), c)
                   else and_then (cpio_header rd magic c) (\<lambda>(mode, namesize, filesize) c.
                     and_then (cpio_path rd namesize c) (\<lambda>path c.
                       if path = TRAILER then Some (Ok None, c\<lparr>cr_done := True\<rparr>)
                       else Some (Ok (Some \<lparr>ce_path = path, ce_mode = of_nat mode, ce_size = filesize\<rparr>),
                              c\<lparr>cr_left := filesize, cr_pad := (if cr_newc c then (4 - filesize mod 4) mod 4 else 0)\<rparr>)))))))"

definition read_data :: "'s reader \<Rightarrow> 's cpio_reader \<Rightarrow> nat
    \<Rightarrow> ((bytes, io_error) result \<times> 's cpio_reader) option" where [eval_defs]:
  "read_data rd c n =
     (let want = min n (cr_left c)
      in if want = 0 then Some (Ok [], c)
         else (case rd (cr_inner c) want of
                 None \<Rightarrow> None
               | Some (Err e, s) \<Rightarrow> Some (Err e, c\<lparr>cr_inner := s\<rparr>)
               | Some (Ok bs, s) \<Rightarrow>
                   if bs = [] then Some (Err (OfInvalid [T ''truncated cpio member data'']), c\<lparr>cr_inner := s\<rparr>)
                   else Some (Ok bs, c\<lparr>cr_inner := s, cr_left := cr_left c - length bs\<rparr>)))"

subsection \<open>Writing\<close>

text \<open>\<open>io::copy(&mut data.take(limit), &mut writer)\<close>: the bytes copied.\<close>

partial_function (option) copy_out ::
    "'d reader \<Rightarrow> 'w writer \<Rightarrow> nat \<Rightarrow> 'd \<Rightarrow> 'w \<Rightarrow> nat \<Rightarrow> ((nat, io_error) result \<times> 'd \<times> 'w) option" where
  "copy_out rd wr limit d w copied =
     (if take_room (Some limit) copied = 0 then Some (Ok copied, d, w)
      else (case rd d (take_room (Some limit) copied) of
              None \<Rightarrow> None
            | Some (Err e, d') \<Rightarrow>
                if is_interrupted e then copy_out rd wr limit d' w copied else Some (Err e, d', w)
            | Some (Ok bs, d') \<Rightarrow>
                if bs = [] then Some (Ok copied, d', w)
                else (case wr w bs of
                        (Err e, w') \<Rightarrow> Some (Err e, d', w')
                      | (Ok _, w') \<Rightarrow> copy_out rd wr limit d' w' (copied + length bs))))"

record odc_fields =
  od_dev :: nat
  od_mode :: nat
  od_uid :: nat
  od_gid :: nat
  od_mtime :: nat
  od_size :: nat

record 'w cpio_writer =
  cw_inner :: 'w
  cw_next_ino :: nat

definition cpio_writer_new :: "'w \<Rightarrow> 'w cpio_writer" where [eval_defs]:
  "cpio_writer_new w = \<lparr>cw_inner = w, cw_next_ino = 0\<rparr>"

abbreviation oct6 :: "nat \<Rightarrow> ustr" where
  "oct6 n \<equiv> pad0 6 (show_radix 8 n)"

abbreviation oct11 :: "nat \<Rightarrow> ustr" where
  "oct11 n \<equiv> pad0 11 (show_radix 8 n)"

definition odc_header :: "nat \<Rightarrow> nat \<Rightarrow> nat \<Rightarrow> nat \<Rightarrow> nat \<Rightarrow> nat \<Rightarrow> nat \<Rightarrow> nat \<Rightarrow> nat \<Rightarrow> nat \<Rightarrow> ustr"
  where [eval_defs]:
  "odc_header dev ino mode uid gid nlink rdev mtime namesize filesize =
     lit ''070707'' @ oct6 dev @ oct6 ino @ oct6 mode @ oct6 uid @ oct6 gid @ oct6 nlink @ oct6 rdev
     @ oct11 mtime @ oct6 namesize @ oct11 filesize"

definition odc_header_of :: "nat \<Rightarrow> odc_fields \<Rightarrow> nat \<Rightarrow> ustr" where [eval_defs]:
  "odc_header_of ino f namelen =
     (let short = (\<lambda>v. min v ODC_MAX_SHORT)
      in odc_header (short (od_dev f)) ino (od_mode f AND ODC_MAX_SHORT) (short (od_uid f))
           (short (od_gid f)) 1 0 (min (od_mtime f) ODC_MAX_SIZE) (namelen + 1) (od_size f))"

text \<open>Three \<open>write_all\<close> calls in a row, stopping at the first error.\<close>

fun write_parts :: "'w writer \<Rightarrow> 'w \<Rightarrow> bytes list \<Rightarrow> (unit, io_error) result \<times> 'w" where
  "write_parts wr w [] = (Ok (), w)"
| "write_parts wr w (p # ps) =
     (case wr w p of (Err e, w') \<Rightarrow> (Err e, w') | (Ok _, w') \<Rightarrow> write_parts wr w' ps)"

definition write_entry :: "'d reader \<Rightarrow> 'w writer \<Rightarrow> 'w cpio_writer \<Rightarrow> bytes \<Rightarrow> odc_fields \<Rightarrow> 'd
    \<Rightarrow> ((unit, io_error) result \<times> 'w cpio_writer \<times> 'd) option" where [eval_defs]:
  "write_entry rd wr cw name f d =
     (let shown = from_utf8_lossy name
      in if name = [] \<or> 0 \<in> set name \<or> length name + 1 > ODC_MAX_SHORT
         then Some (Err (Plain InvalidInput [Txt shown, T '': unusable archive member name'']), cw, d)
         else if od_size f > ODC_MAX_SIZE
         then Some (Err (Plain InvalidInput
                [Txt shown, T '': '', Num (od_size f), T '' bytes is too large for the cpio format (8 GiB limit)'']),
              cw, d)
         else (let ino = cw_next_ino cw + 1; cw = cw\<lparr>cw_next_ino := ino\<rparr>
               in if ino > ODC_MAX_SHORT
                  then Some (Err (Plain InvalidInput [T ''too many files for one cpio archive'']), cw, d)
                  else (case write_parts wr (cw_inner cw)
                               [as_bytes (odc_header_of ino f (length name)), name, [0]] of
                          (Err e, w) \<Rightarrow> Some (Err e, cw\<lparr>cw_inner := w\<rparr>, d)
                        | (Ok _, w) \<Rightarrow>
                            (case copy_out rd wr (od_size f) d w 0 of
                               None \<Rightarrow> None
                             | Some (Err e, d', w') \<Rightarrow> Some (Err e, cw\<lparr>cw_inner := w'\<rparr>, d')
                             | Some (Ok copied, d', w') \<Rightarrow>
                                 let cw = cw\<lparr>cw_inner := w'\<rparr>
                                 in if copied < od_size f
                                    then Some (Err (Plain UnexpectedEof
                                           [Txt shown, T '': file shrank while it was being sent ('', Num copied,
                                            T '' of '', Num (od_size f), T '' bytes)'']), cw, d')
                                    else (case read_full rd d' 1 of
                                            None \<Rightarrow> None
                                          | Some (Err e, d'') \<Rightarrow> Some (Err e, cw, d'')
                                          | Some (Ok probe, d'') \<Rightarrow>
                                              if probe \<noteq> []
                                              then Some (Err (Plain InvalidData
                                                     [Txt shown, T '': file grew while it was being sent'']), cw, d'')
                                              else Some (Ok (), cw, d''))))))"

record file_meta =
  fm_is_file :: bool
  fm_dev :: nat
  fm_mode :: nat
  fm_uid :: nat
  fm_gid :: nat
  fm_mtime :: int
  fm_len :: nat

definition append_file :: "'d reader \<Rightarrow> 'w writer \<Rightarrow> 'w cpio_writer \<Rightarrow> ustr \<Rightarrow> file_meta \<Rightarrow> 'd
    \<Rightarrow> ((unit, io_error) result \<times> 'w cpio_writer \<times> 'd) option" where [eval_defs]:
  "append_file rd wr cw name meta d =
     (if \<not> fm_is_file meta then Some (Err (Plain InvalidInput [Txt name, T '': not a regular file'']), cw, d)
      else write_entry rd wr cw (as_bytes name)
             \<lparr>od_dev = fm_dev meta, od_mode = fm_mode meta, od_uid = fm_uid meta, od_gid = fm_gid meta,
              od_mtime = nat (fm_mtime meta), od_size = fm_len meta\<rparr> d)"

text \<open>A byte slice as a reader, as \<open>&data[..]\<close> is.\<close>

definition slice_read :: "bytes reader" where [eval_defs]:
  "slice_read s n = Some (Ok (take n s), drop n s)"

definition append_raw :: "'w writer \<Rightarrow> 'w cpio_writer \<Rightarrow> bytes \<Rightarrow> nat \<Rightarrow> bytes
    \<Rightarrow> ((unit, io_error) result \<times> 'w cpio_writer \<times> bytes) option" where [eval_defs]:
  "append_raw wr cw name mode data =
     write_entry slice_read wr cw name
       \<lparr>od_dev = 0, od_mode = mode, od_uid = 0, od_gid = 0, od_mtime = 0, od_size = length data\<rparr> data"

definition cpio_finish :: "'w writer \<Rightarrow> ('w \<Rightarrow> (unit, io_error) result \<times> 'w) \<Rightarrow> 'w cpio_writer
    \<Rightarrow> (unit, io_error) result \<times> 'w" where [eval_defs]:
  "cpio_finish wr flush cw =
     (case write_parts wr (cw_inner cw)
             [as_bytes (odc_header 0 0 0 0 0 1 0 0 (length TRAILER + 1) 0), as_bytes TRAILER, [0]] of
        (Err e, w) \<Rightarrow> (Err e, w)
      | (Ok _, w) \<Rightarrow> flush w)"

subsection \<open>Reading back what was written\<close>

definition odc_member :: "nat \<Rightarrow> odc_fields \<Rightarrow> bytes \<Rightarrow> bytes \<Rightarrow> bytes" where
  "odc_member ino f name data = as_bytes (odc_header_of ino f (length name)) @ name @ [0] @ data"

definition odc_trailer :: bytes where
  "odc_trailer = as_bytes (odc_header 0 0 0 0 0 1 0 0 (length TRAILER + 1) 0) @ as_bytes TRAILER @ [0]"

interpretation slice_reader: byte_reader slice_read "\<lambda>_. True" id "\<lambda>_. None" "\<lambda>_. 0"
  by unfold_locales (auto simp: slice_read_def)

lemma field_show:
  assumes "1 < b" "b \<le> 36" "n \<le> u64_max"
  shows "field (as_bytes (pad0 w (show_radix b n))) b what = Ok n"
proof -
  define s where "s = pad0 w (show_radix b n)"
  have chars: "48 \<le> c \<and> c < 128" if "c \<in> set s" for c
    using that show_radix_chars [OF assms(1,2), of c n] by (auto simp: s_def pad0_def)
  have "\<forall>c \<in> set s. is_scalar c" using chars by (fastforce simp: is_scalar_def)
  then have "from_utf8 (as_bytes s) = Some s"
    by (auto simp: from_utf8_def utf8_decode_as_bytes comp_def)
  moreover have parse: "parse_digits u64_max b s = Some n"
    unfolding s_def by (rule parse_digits_pad0 [OF assms])
  moreover from parse obtain c r where s: "s = c # r"
    by (cases s) (auto simp: parse_digits_def)
  moreover have "c \<noteq> 43" using chars [of c] s by auto
  ultimately show ?thesis
    by (auto simp: field_def from_str_radix_def parse_digits_def Let_def split: if_splits
        simp flip: s_def)
qed

lemma length_oct6: "n \<le> ODC_MAX_SHORT \<Longrightarrow> length (as_bytes (oct6 n)) = 6"
proof -
  assume "n \<le> ODC_MAX_SHORT"
  then have "n < 8 ^ 6" by (simp add: ODC_MAX_SHORT_def)
  then have "length (oct6 n) = 6" using length_show_radix [of 8 n 6] by (simp add: length_pad0)
  moreover have "\<forall>c \<in> set (oct6 n). c < 0x80"
    using show_radix_chars [of 8 _ n] by (auto simp: pad0_def)
  ultimately show ?thesis using str_len_ascii [of "oct6 n"] by simp
qed

lemma length_oct11: "n \<le> ODC_MAX_SIZE \<Longrightarrow> length (as_bytes (oct11 n)) = 11"
proof -
  assume "n \<le> ODC_MAX_SIZE"
  then have "n < 8 ^ 11" by (simp add: ODC_MAX_SIZE_def)
  then have "length (oct11 n) = 11" using length_show_radix [of 8 n 11] by (simp add: length_pad0)
  moreover have "\<forall>c \<in> set (oct11 n). c < 0x80"
    using show_radix_chars [of 8 _ n] by (auto simp: pad0_def)
  ultimately show ?thesis using str_len_ascii [of "oct11 n"] by simp
qed

lemma as_bytes_magic: "as_bytes (lit ''070707'') = ODC_MAGIC"
  by (simp add: as_bytes_def utf8_char_def eval_defs)

definition odc_fits :: "nat \<Rightarrow> odc_fields \<Rightarrow> bytes \<Rightarrow> bytes \<Rightarrow> bool" where [eval_defs]:
  "odc_fits ino f name data \<longleftrightarrow>
     0 < ino \<and> ino \<le> ODC_MAX_SHORT \<and> name \<noteq> [] \<and> 0 \<notin> set name \<and> length name \<le> MAX_PATH_BYTES
     \<and> od_size f = length data \<and> length data \<le> ODC_MAX_SIZE"

text \<open>The 70 bytes after an odc magic, cut at the offsets the reader uses.\<close>

lemma odc_header_split:
  assumes "dev \<le> ODC_MAX_SHORT" "ino \<le> ODC_MAX_SHORT" "mode \<le> ODC_MAX_SHORT" "uid \<le> ODC_MAX_SHORT"
    "gid \<le> ODC_MAX_SHORT" "nlink \<le> ODC_MAX_SHORT" "rdev \<le> ODC_MAX_SHORT" "mtime \<le> ODC_MAX_SIZE"
    "namesize \<le> ODC_MAX_SHORT" "filesize \<le> ODC_MAX_SIZE"
  obtains h where "as_bytes (odc_header dev ino mode uid gid nlink rdev mtime namesize filesize) = ODC_MAGIC @ h"
    "length h = 70" "take 6 (drop 12 h) = as_bytes (oct6 mode)" "take 6 (drop 53 h) = as_bytes (oct6 namesize)"
    "take 11 (drop 59 h) = as_bytes (oct11 filesize)"
proof -
  define h where "h = as_bytes (oct6 dev) @ as_bytes (oct6 ino) @ as_bytes (oct6 mode) @ as_bytes (oct6 uid)
    @ as_bytes (oct6 gid) @ as_bytes (oct6 nlink) @ as_bytes (oct6 rdev) @ as_bytes (oct11 mtime)
    @ as_bytes (oct6 namesize) @ as_bytes (oct11 filesize)"
  note lens = assms(1-7,9) [THEN length_oct6] length_oct11 [OF assms(8)] length_oct11 [OF assms(10)]
  have "length h = 70" "take 6 (drop 12 h) = as_bytes (oct6 mode)" "take 6 (drop 53 h) = as_bytes (oct6 namesize)"
    "take 11 (drop 59 h) = as_bytes (oct11 filesize)"
    unfolding h_def by (simp_all add: lens del: length_as_bytes)
  moreover have "as_bytes (odc_header dev ino mode uid gid nlink rdev mtime namesize filesize) = ODC_MAGIC @ h"
    by (simp add: odc_header_def h_def as_bytes_magic)
  ultimately show thesis using that by blast
qed

lemma and_then_simps [simp]:
  "and_then None f = None"
  "and_then (Some (Err e, c)) f = Some (Err e, c)"
  "and_then (Some (Ok x, c)) f = f x c"
  by (simp_all add: and_then_def)

lemma takeWhile_name: "0 \<notin> set name \<Longrightarrow> takeWhile (\<lambda>b. b \<noteq> (0::u8)) (name @ [0]) = name"
  by (induction name) auto

context byte_reader
begin

lemma cpio_fill_enough:
  assumes "good (cr_inner c)" "n \<le> length (content (cr_inner c))"
  obtains s' where "cpio_fill rd n c = Some (Ok (take n (content (cr_inner c))), c\<lparr>cr_inner := s'\<rparr>)"
    "good s'" "content s' = drop n (content (cr_inner c))" "ending s' = ending (cr_inner c)"
proof -
  obtain s' where s': "read_full rd (cr_inner c) n = Some (Ok (take n (content (cr_inner c))), s')" "good s'"
    "content s' = drop n (content (cr_inner c))" "ending s' = ending (cr_inner c)"
    using read_full_enough [OF assms] by blast
  then have "cpio_fill rd n c = Some (Ok (take n (content (cr_inner c))), c\<lparr>cr_inner := s'\<rparr>)"
    by (simp add: cpio_fill_def)
  with s' that show thesis by blast
qed

lemma cpio_skip_enough:
  assumes "good (cr_inner c)" "cr_left c + cr_pad c \<le> length (content (cr_inner c))"
  obtains s' where "cpio_skip rd c = Some (Ok (), c\<lparr>cr_inner := s', cr_left := 0, cr_pad := 0\<rparr>)"
    "good s'" "content s' = drop (cr_left c + cr_pad c) (content (cr_inner c))" "ending s' = ending (cr_inner c)"
proof (cases "cr_left c + cr_pad c = 0")
  case True
  show thesis
    by (rule that [of "cr_inner c"]) (use True assms in \<open>simp_all add: cpio_skip_def\<close>)
next
  case False
  obtain s' where s': "copy_sink rd (Some (cr_left c + cr_pad c)) (cr_inner c) 0 = Some (Ok (cr_left c + cr_pad c), s')"
    "good s'" "content s' = drop (cr_left c + cr_pad c) (content (cr_inner c))" "ending s' = ending (cr_inner c)"
    using copy_sink_take [OF assms(1), of 0 "cr_left c + cr_pad c"] assms(2) by auto
  with False have "cpio_skip rd c = Some (Ok (), c\<lparr>cr_inner := s', cr_left := 0, cr_pad := 0\<rparr>)"
    by (simp add: cpio_skip_def Let_def)
  with s' that show thesis by blast
qed

lemma cpio_path_read:
  assumes g: "good (cr_inner c)" and name: "0 \<notin> set name" "length name \<le> MAX_PATH_BYTES"
    and bytes: "content (cr_inner c) = name @ [0] @ rest" and odc: "\<not> cr_newc c"
  obtains s' where "cpio_path rd (length name + 1) c = Some (Ok (from_utf8_lossy name), c\<lparr>cr_inner := s'\<rparr>)"
    "good s'" "content s' = rest" "ending s' = ending (cr_inner c)"
proof -
  obtain s' where s': "cpio_fill rd (length name + 1) c = Some (Ok (take (length name + 1) (content (cr_inner c))), c\<lparr>cr_inner := s'\<rparr>)"
    "good s'" "content s' = drop (length name + 1) (content (cr_inner c))" "ending s' = ending (cr_inner c)"
    using cpio_fill_enough [OF g, of "length name + 1"] bytes by auto
  have tk: "take (length name + 1) (content (cr_inner c)) = name @ [0]"
    "drop (length name + 1) (content (cr_inner c)) = rest" by (simp_all add: bytes)
  have "cpio_path rd (length name + 1) c = Some (Ok (from_utf8_lossy name), c\<lparr>cr_inner := s'\<rparr>)"
    using name odc s'(1) [unfolded tk] by (simp add: cpio_path_def takeWhile_name Let_def)
  with s' tk that show thesis by simp
qed

lemma next_entry_odc:
  assumes g: "good (cr_inner c)" and open_reader: "\<not> cr_done c"
    and fits: "dev \<le> ODC_MAX_SHORT" "ino \<le> ODC_MAX_SHORT" "mode \<le> ODC_MAX_SHORT" "uid \<le> ODC_MAX_SHORT"
      "gid \<le> ODC_MAX_SHORT" "nlink \<le> ODC_MAX_SHORT" "rdev \<le> ODC_MAX_SHORT" "mtime \<le> ODC_MAX_SIZE"
      "filesize \<le> ODC_MAX_SIZE"
    and name: "0 \<notin> set name" "length name \<le> MAX_PATH_BYTES"
    and bytes: "content (cr_inner c) = skipped
      @ as_bytes (odc_header dev ino mode uid gid nlink rdev mtime (length name + 1) filesize) @ name @ [0] @ rest"
      "length skipped = cr_left c + cr_pad c"
  obtains s' c' where "good s'" "content s' = rest" "ending s' = ending (cr_inner c)"
    "c' = c\<lparr>cr_inner := s', cr_left := 0, cr_pad := 0, cr_newc := False, cr_started := True,
      cr_magic := (if cr_started c then cr_magic c else ODC_MAGIC)\<rparr>"
    "next_entry rd c = Some
      (if from_utf8_lossy name = TRAILER then (Ok None, c'\<lparr>cr_done := True\<rparr>)
       else (Ok (Some \<lparr>ce_path = from_utf8_lossy name, ce_mode = of_nat mode, ce_size = filesize\<rparr>),
             c'\<lparr>cr_left := filesize\<rparr>))"
proof -
  have ns: "length name + 1 \<le> ODC_MAX_SHORT" using name(2) by (simp add: eval_defs)
  obtain h where h: "as_bytes (odc_header dev ino mode uid gid nlink rdev mtime (length name + 1) filesize) = ODC_MAGIC @ h"
    "length h = 70" "take 6 (drop 12 h) = as_bytes (oct6 mode)" "take 6 (drop 53 h) = as_bytes (oct6 (length name + 1))"
    "take 11 (drop 59 h) = as_bytes (oct11 filesize)"
    using odc_header_split [OF fits(1-8) ns fits(9)] by blast
  have magic: "length ODC_MAGIC = 6" "ODC_MAGIC \<noteq> []" by (simp_all add: eval_defs)
  obtain s1 where s1: "cpio_skip rd c = Some (Ok (), c\<lparr>cr_inner := s1, cr_left := 0, cr_pad := 0\<rparr>)"
    "good s1" "content s1 = ODC_MAGIC @ h @ name @ [0] @ rest" "ending s1 = ending (cr_inner c)"
    using cpio_skip_enough [OF g] bytes h(1) by (metis append.assoc append_eq_conv_conj le_add1 length_append)
  define c1 where "c1 = c\<lparr>cr_inner := s1, cr_left := 0, cr_pad := 0\<rparr>"
  obtain s2 where s2: "cpio_fill rd 6 c1 = Some (Ok ODC_MAGIC, c1\<lparr>cr_inner := s2\<rparr>)"
    "good s2" "content s2 = h @ name @ [0] @ rest" "ending s2 = ending (cr_inner c)"
    using cpio_fill_enough [of c1 6] s1 magic by (auto simp: c1_def)
  define c2 where "c2 = c1\<lparr>cr_inner := s2, cr_magic := (if cr_started c then cr_magic c else ODC_MAGIC), cr_started := True\<rparr>"
  obtain s3 where s3: "cpio_fill rd 70 c2 = Some (Ok h, c2\<lparr>cr_inner := s3\<rparr>)"
    "good s3" "content s3 = name @ [0] @ rest" "ending s3 = ending (cr_inner c)"
    using cpio_fill_enough [of c2 70] s2 h(2) by (auto simp: c2_def)
  define c3 where "c3 = c2\<lparr>cr_inner := s3, cr_newc := False\<rparr>"
  have num: "mode \<le> u64_max" "length name + 1 \<le> u64_max" "filesize \<le> u64_max"
    using fits(3,9) ns by (simp_all add: eval_defs)
  have hdr: "cpio_header rd ODC_MAGIC c2 = Some (Ok (mode, length name + 1, filesize), c3)"
  proof -
    have "field (take 6 (drop 12 h)) 8 ''mode'' = Ok mode"
      "field (take 6 (drop 53 h)) 8 ''name size'' = Ok (length name + 1)"
      "field (take 11 (drop 59 h)) 8 ''file size'' = Ok filesize"
      unfolding h(3-5) using num by (simp_all only: field_show one_less_numeral_iff semiring_norm numeral_le_iff)
    then show ?thesis
      using s3(1) h(2) by (simp add: cpio_header_def cpio_fields_def Let_def c3_def)
  qed
  obtain s4 where s4: "cpio_path rd (length name + 1) c3 = Some (Ok (from_utf8_lossy name), c3\<lparr>cr_inner := s4\<rparr>)"
    "good s4" "content s4 = rest" "ending s4 = ending (cr_inner c)"
    using cpio_path_read [of c3 name rest] s3 name by (auto simp: c3_def)
  define c4 where "c4 = c\<lparr>cr_inner := s4, cr_left := 0, cr_pad := 0, cr_newc := False, cr_started := True,
      cr_magic := (if cr_started c then cr_magic c else ODC_MAGIC)\<rparr>"
  have c4: "c3\<lparr>cr_inner := s4\<rparr> = c4" "cr_newc c4 = False"
    by (simp_all add: c4_def c3_def c2_def c1_def)
  have c2': "(if cr_started (c1\<lparr>cr_inner := s2\<rparr>) then c1\<lparr>cr_inner := s2\<rparr>
      else c1\<lparr>cr_inner := s2, cr_magic := ODC_MAGIC, cr_started := True\<rparr>) = c2"
    by (simp add: c2_def c1_def)
  have "next_entry rd c = Some
      (if from_utf8_lossy name = TRAILER then (Ok None, c4\<lparr>cr_done := True\<rparr>)
       else (Ok (Some \<lparr>ce_path = from_utf8_lossy name, ce_mode = of_nat mode, ce_size = filesize\<rparr>),
             c4\<lparr>cr_left := filesize\<rparr>))"
    using open_reader s1(1) s2(1) hdr s4(1) c4 c2' magic
    by (simp add: next_entry_def Let_def flip: c1_def) (simp add: c4_def)
  with s4 that show thesis using c4_def by blast
qed

end

lemma mode_bound: "m AND ODC_MAX_SHORT \<le> ODC_MAX_SHORT"
proof -
  have "ODC_MAX_SHORT = mask 18" by (simp add: ODC_MAX_SHORT_def mask_eq_exp_minus_1)
  then have "m AND ODC_MAX_SHORT < 2 ^ 18"
    using take_bit_nat_less_exp [of 18 m] by (simp add: take_bit_eq_mask)
  then show ?thesis by (simp add: ODC_MAX_SHORT_def)
qed

lemma odc_bounds:
  "min v ODC_MAX_SHORT \<le> ODC_MAX_SHORT" "min v ODC_MAX_SIZE \<le> ODC_MAX_SIZE"
  "1 \<le> ODC_MAX_SHORT" "0 \<le> ODC_MAX_SHORT" "0 \<le> ODC_MAX_SIZE"
  by (simp_all add: ODC_MAX_SHORT_def)

lemma length_odc_header:
  assumes "dev \<le> ODC_MAX_SHORT" "ino \<le> ODC_MAX_SHORT" "mode \<le> ODC_MAX_SHORT" "uid \<le> ODC_MAX_SHORT"
    "gid \<le> ODC_MAX_SHORT" "nlink \<le> ODC_MAX_SHORT" "rdev \<le> ODC_MAX_SHORT" "mtime \<le> ODC_MAX_SIZE"
    "namesize \<le> ODC_MAX_SHORT" "filesize \<le> ODC_MAX_SIZE"
  shows "length (as_bytes (odc_header dev ino mode uid gid nlink rdev mtime namesize filesize)) = 76"
proof -
  have "length ODC_MAGIC = 6" by (simp add: eval_defs)
  then show ?thesis by (rule_tac odc_header_split [OF assms]) (simp del: length_as_bytes)
qed

lemma length_odc_member:
  assumes "odc_fits ino f name data"
  shows "length (odc_member ino f name data) = 77 + length name + length data"
proof -
  have fit: "ino \<le> ODC_MAX_SHORT" "od_size f \<le> ODC_MAX_SIZE" "length name + 1 \<le> ODC_MAX_SHORT"
    using assms by (simp_all add: odc_fits_def MAX_PATH_BYTES_def ODC_MAX_SHORT_def)
  have "length (as_bytes (odc_header_of ino f (length name))) = 76"
    unfolding odc_header_of_def Let_def by (intro length_odc_header odc_bounds mode_bound fit)
  then show ?thesis by (simp add: odc_member_def del: length_as_bytes)
qed

lemma length_odc_trailer: "length odc_trailer = 87"
proof -
  have magic: "length TRAILER = 10" "length (as_bytes TRAILER) = 10" "11 \<le> ODC_MAX_SHORT"
    by (simp_all add: eval_defs)
  have "length (as_bytes (odc_header 0 0 0 0 0 1 0 0 11 0)) = 76"
    by (intro length_odc_header odc_bounds magic(3))
  then show ?thesis using magic by (simp add: odc_trailer_def del: length_as_bytes)
qed

text \<open>Copying from a reader to a writer, both keeping their contracts.\<close>

locale copying = byte_reader rd good content ending pending + byte_writer wr wok written
  for rd :: "'d reader" and good content ending pending
    and wr :: "'w writer" and wok written
begin

lemma copy_out_all:
  assumes "good d" "wok w" "copied \<le> limit" "limit - copied \<le> length (content d)"
  shows "\<exists>d' w'. copy_out rd wr limit d w copied = Some (Ok limit, d', w')
    \<and> wok w' \<and> written w' = written w @ take (limit - copied) (content d)
    \<and> good d' \<and> content d' = drop (limit - copied) (content d) \<and> ending d' = ending d"
  using assms
proof (induction "(limit - copied, pending d)" arbitrary: d w copied
    rule: wf_induct_rule [OF wf_lex_prod [OF wf_measure [of id] wf_measure [of id]]])
  case (1 d copied w)
  define room where "room = take_room (Some limit) copied"
  have room: "room = min COPY_BUF (limit - copied)" "0 < COPY_BUF"
    by (simp_all add: room_def take_room_def COPY_BUF_def)
  show ?case
  proof (cases "room = 0")
    case True
    with room 1 show ?thesis by (subst copy_out.simps) (auto simp flip: room_def)
  next
    case False
    then have pos: "0 < room" by simp
    from 1(2) pos show ?thesis
    proof (cases rule: rd_cases)
      case (some bs d')
      have le: "copied + length bs \<le> limit" "length bs \<le> limit - copied"
        using some room 1(4) by auto
      have less: "limit - (copied + length bs) < limit - copied" using some le False room by (cases bs) auto
      have enough: "limit - (copied + length bs) \<le> length (content d')" using 1(5) some by simp
      obtain w1 where w1: "wr w bs = (Ok (), w1)" "wok w1" "written w1 = written w @ bs"
        using wr_takes [OF 1(3)] by blast
      from 1(1) [of "copied + length bs" d' w1] less some(2) w1(2) le enough obtain d2 w2 where
        ih: "copy_out rd wr limit d' w1 (copied + length bs) = Some (Ok limit, d2, w2)" "wok w2"
          "written w2 = written w1 @ take (limit - (copied + length bs)) (content d')"
          "good d2" "content d2 = drop (limit - (copied + length bs)) (content d')" "ending d2 = ending d'"
        by auto
      have "copy_out rd wr limit d w copied = copy_out rd wr limit d' w1 (copied + length bs)"
        using some False w1(1) by (subst copy_out.simps) (simp flip: room_def)
      with ih some le w1(3) show ?thesis by auto
    next
      case (interrupted e d')
      have "copy_out rd wr limit d w copied = copy_out rd wr limit d' w copied"
        using interrupted False by (subst copy_out.simps) (simp flip: room_def)
      with 1(1) [of copied d' w] 1(3-5) interrupted(2,6) show ?thesis unfolding interrupted(4,5) by simp
    qed (use False 1(5) room pos in simp_all)
  qed
qed

lemma write_entry_all:
  assumes g: "good d" "wok (cw_inner cw)" and d: "content d = data" "ending d = None"
    and fits: "odc_fits (cw_next_ino cw + 1) f name data"
  shows "\<exists>w d'. write_entry rd wr cw name f d = Some (Ok (), cw\<lparr>cw_inner := w, cw_next_ino := cw_next_ino cw + 1\<rparr>, d')
    \<and> wok w \<and> written w = written (cw_inner cw) @ odc_member (cw_next_ino cw + 1) f name data"
proof -
  let ?parts = "[as_bytes (odc_header_of (cw_next_ino cw + 1) f (length name)), name, [0]]"
  have parts: "\<exists>w'. write_parts wr w ps = (Ok (), w') \<and> wok w' \<and> written w' = written w @ concat ps" if "wok w" for w ps
    using that
  proof (induction ps arbitrary: w)
    case (Cons p ps)
    obtain w1 where "wr w p = (Ok (), w1)" "wok w1" "written w1 = written w @ p" using wr_takes [OF Cons(2)] by blast
    with Cons(1) [of w1] show ?case by auto
  qed simp
  obtain w where w: "write_parts wr (cw_inner cw) ?parts = (Ok (), w)" "wok w"
    "written w = written (cw_inner cw) @ concat ?parts" using parts [OF g(2)] by blast
  have sz: "od_size f = length data" "length data \<le> ODC_MAX_SIZE" using fits by (simp_all add: odc_fits_def)
  obtain d1 w1 where d1: "copy_out rd wr (length data) d w 0 = Some (Ok (length data), d1, w1)"
    "wok w1" "written w1 = written w @ data" "good d1" "content d1 = []" "ending d1 = None"
    using copy_out_all [OF g(1) w(2), of 0 "length data"] d by auto
  obtain d2 where d2: "read_full rd d1 1 = Some (Ok [], d2)"
    using read_full_short [OF d1(4), of 1] d1(5,6) by auto
  have ok: "\<not> (name = [] \<or> 0 \<in> set name \<or> length name + 1 > ODC_MAX_SHORT)" "\<not> cw_next_ino cw + 1 > ODC_MAX_SHORT"
    using fits by (auto simp: odc_fits_def MAX_PATH_BYTES_def ODC_MAX_SHORT_def)
  have "write_entry rd wr cw name f d =
      Some (Ok (), cw\<lparr>cw_inner := w1, cw_next_ino := cw_next_ino cw + 1\<rparr>, d2)"
    unfolding write_entry_def Let_def if_not_P [OF ok(1)] using sz w(1) ok(2) d1(1) d2 by simp
  with d1 w show ?thesis by (auto simp: odc_member_def)
qed

lemma cpio_finish_all:
  assumes "wok (cw_inner cw)" "\<And>w. wok w \<Longrightarrow> flush w = (Ok (), w)"
  shows "\<exists>w. cpio_finish wr flush cw = (Ok (), w) \<and> wok w \<and> written w = written (cw_inner cw) @ odc_trailer"
proof -
  let ?h = "as_bytes (odc_header 0 0 0 0 0 1 0 0 (length TRAILER + 1) 0)"
  obtain w1 where w1: "wr (cw_inner cw) ?h = (Ok (), w1)" "wok w1" "written w1 = written (cw_inner cw) @ ?h"
    using wr_takes [OF assms(1)] by blast
  obtain w2 where w2: "wr w1 (as_bytes TRAILER) = (Ok (), w2)" "wok w2" "written w2 = written w1 @ as_bytes TRAILER"
    using wr_takes [OF w1(2)] by blast
  obtain w3 where w3: "wr w2 [0] = (Ok (), w3)" "wok w3" "written w3 = written w2 @ [0]"
    using wr_takes [OF w2(2)] by blast
  with w1 w2 assms(2) show ?thesis by (simp add: cpio_finish_def odc_trailer_def)
qed

end

interpretation slice_to_vec: copying slice_read "\<lambda>_. True" id "\<lambda>_. None" "\<lambda>_. 0" vec_write "\<lambda>_. True" id
  by unfold_locales

context byte_reader
begin

lemma next_entry_member:
  assumes g: "good (cr_inner c)" and open_reader: "\<not> cr_done c" and fits: "odc_fits ino f name data"
    and bytes: "content (cr_inner c) = skipped @ odc_member ino f name data @ rest"
      "length skipped = cr_left c + cr_pad c" and member: "from_utf8_lossy name \<noteq> TRAILER"
  obtains c' where "next_entry rd c = Some
      (Ok (Some \<lparr>ce_path = from_utf8_lossy name, ce_mode = of_nat (od_mode f AND ODC_MAX_SHORT),
                 ce_size = length data\<rparr>), c')"
    "good (cr_inner c')" "content (cr_inner c') = data @ rest" "ending (cr_inner c') = ending (cr_inner c)"
    "cr_left c' = length data" "cr_pad c' = 0" "\<not> cr_done c'" "cr_started c'"
    "cr_magic c' = (if cr_started c then cr_magic c else ODC_MAGIC)"
proof -
  note mode = mode_bound [of "od_mode f"] and le = odc_bounds
  have fit: "ino \<le> ODC_MAX_SHORT" "od_size f \<le> ODC_MAX_SIZE" "od_size f = length data" "0 \<notin> set name"
    "length name \<le> MAX_PATH_BYTES"
    using fits by (simp_all add: odc_fits_def)
  have bytes': "content (cr_inner c) = skipped
      @ as_bytes (odc_header (min (od_dev f) ODC_MAX_SHORT) ino (od_mode f AND ODC_MAX_SHORT)
          (min (od_uid f) ODC_MAX_SHORT) (min (od_gid f) ODC_MAX_SHORT) 1 0
          (min (od_mtime f) ODC_MAX_SIZE) (length name + 1) (od_size f)) @ name @ [0] @ data @ rest"
    using bytes(1) by (simp add: odc_member_def odc_header_of_def Let_def)
  obtain s' c' where sc: "good s'" "content s' = data @ rest" "ending s' = ending (cr_inner c)"
    "c' = c\<lparr>cr_inner := s', cr_left := 0, cr_pad := 0, cr_newc := False, cr_started := True,
      cr_magic := (if cr_started c then cr_magic c else ODC_MAGIC)\<rparr>"
    and ne: "next_entry rd c = Some
      (if from_utf8_lossy name = TRAILER then (Ok None, c'\<lparr>cr_done := True\<rparr>)
       else (Ok (Some \<lparr>ce_path = from_utf8_lossy name, ce_mode = of_nat (od_mode f AND ODC_MAX_SHORT),
                  ce_size = od_size f\<rparr>), c'\<lparr>cr_left := od_size f\<rparr>))"
    by (rule next_entry_odc [OF g open_reader le(1) fit(1) mode le(1) le(1) le(3) le(4) le(2) fit(2)
          fit(4,5) bytes' bytes(2)])
  from ne member fit(3) have "next_entry rd c = Some
      (Ok (Some \<lparr>ce_path = from_utf8_lossy name, ce_mode = of_nat (od_mode f AND ODC_MAX_SHORT),
                 ce_size = length data\<rparr>), c'\<lparr>cr_left := length data\<rparr>)" by simp
  then show thesis by (rule that) (use sc open_reader in simp_all)
qed

end

context byte_reader
begin

lemma next_entry_trailer:
  assumes g: "good (cr_inner c)" and open_reader: "\<not> cr_done c"
    and bytes: "content (cr_inner c) = skipped @ odc_trailer @ rest" "length skipped = cr_left c + cr_pad c"
  obtains c' where "next_entry rd c = Some (Ok None, c')" "good (cr_inner c')" "content (cr_inner c') = rest"
    "ending (cr_inner c') = ending (cr_inner c)" "cr_done c'"
    "cr_magic c' = (if cr_started c then cr_magic c else ODC_MAGIC)"
proof -
  have trailer: "length (as_bytes TRAILER) = length TRAILER" "0 \<notin> set (as_bytes TRAILER)"
    "length (as_bytes TRAILER) \<le> MAX_PATH_BYTES" "from_utf8_lossy (as_bytes TRAILER) = TRAILER"
    by (simp_all add: eval_defs from_utf8_lossy_as_bytes is_scalar_def)
  have le: "0 \<le> ODC_MAX_SHORT" "1 \<le> ODC_MAX_SHORT" "0 \<le> ODC_MAX_SIZE" by (simp_all add: ODC_MAX_SHORT_def)
  have bytes': "content (cr_inner c) = skipped
      @ as_bytes (odc_header 0 0 0 0 0 1 0 0 (length (as_bytes TRAILER) + 1) 0) @ as_bytes TRAILER @ [0] @ rest"
    using bytes(1) by (simp add: odc_trailer_def trailer(1) del: length_as_bytes)
  obtain s' c' where sc: "good s'" "content s' = rest" "ending s' = ending (cr_inner c)"
    "c' = c\<lparr>cr_inner := s', cr_left := 0, cr_pad := 0, cr_newc := False, cr_started := True,
      cr_magic := (if cr_started c then cr_magic c else ODC_MAGIC)\<rparr>"
    and ne: "next_entry rd c = Some
      (if from_utf8_lossy (as_bytes TRAILER) = TRAILER then (Ok None, c'\<lparr>cr_done := True\<rparr>)
       else (Ok (Some \<lparr>ce_path = from_utf8_lossy (as_bytes TRAILER), ce_mode = of_nat 0, ce_size = 0\<rparr>),
             c'\<lparr>cr_left := 0\<rparr>))"
    by (rule next_entry_odc [OF g open_reader le(1) le(1) le(1) le(1) le(1) le(2) le(1) le(3) le(3)
          trailer(2,3) bytes' bytes(2)])
  from ne trailer(4) have "next_entry rd c = Some (Ok None, c'\<lparr>cr_done := True\<rparr>)" by simp
  then show thesis by (rule that) (use sc in simp_all)
qed

end

lemma write_entry_Ok_fits:
  assumes "write_entry rd wr cw name f d = Some (Ok (), cw', d')" "length name \<le> MAX_PATH_BYTES"
    "od_size f = length data"
  shows "odc_fits (cw_next_ino cw + 1) f name data"
  using assms by (auto simp: write_entry_def odc_fits_def Let_def split: if_splits)

subsection \<open>Whole archives\<close>

text \<open>
  An archive is written with one \<open>append_raw\<close> a member, and read by asking for entry after entry, the data of each in
  buffers of \<open>n\<close> bytes until there is no more; with \<open>n = 0\<close> the data is passed over. An interrupted read is tried again.
\<close>

fun append_all :: "(bytes \<times> nat \<times> bytes) list \<Rightarrow> bytes cpio_writer \<Rightarrow> ((unit, io_error) result \<times> bytes cpio_writer) option" where
  "append_all [] cw = Some (Ok (), cw)"
| "append_all ((name, mode, data) # ms) cw =
     (case append_raw vec_write cw name mode data of
        None \<Rightarrow> None
      | Some (Err e, cw', _) \<Rightarrow> Some (Err e, cw')
      | Some (Ok _, cw', _) \<Rightarrow> append_all ms cw')"

partial_function (option) drain :: "'s reader \<Rightarrow> nat \<Rightarrow> 's cpio_reader \<Rightarrow> bytes \<Rightarrow> ((bytes, io_error) result \<times> 's cpio_reader) option" where
  "drain rd n c acc =
     (case read_data rd c n of
        None \<Rightarrow> None
      | Some (Err e, c') \<Rightarrow> if is_interrupted e then drain rd n c' acc else Some (Err e, c')
      | Some (Ok bs, c') \<Rightarrow> if bs = [] then Some (Ok acc, c') else drain rd n c' (acc @ bs))"

partial_function (option) read_members :: "'s reader \<Rightarrow> nat \<Rightarrow> 's cpio_reader \<Rightarrow> (cpio_entry \<times> bytes) list
    \<Rightarrow> (((cpio_entry \<times> bytes) list, archive_error) result \<times> 's cpio_reader) option" where
  "read_members rd n c acc =
     (case next_entry rd c of
        None \<Rightarrow> None
      | Some (Err e, c') \<Rightarrow> Some (Err e, c')
      | Some (Ok None, c') \<Rightarrow> Some (Ok acc, c')
      | Some (Ok (Some entry), c') \<Rightarrow>
          (case drain rd n c' [] of
             None \<Rightarrow> None
           | Some (Err e, c'') \<Rightarrow> Some (Err (archive_error_of_io e), c'')
           | Some (Ok data, c'') \<Rightarrow> read_members rd n c'' (acc @ [(entry, data)])))"

definition raw_fields :: "nat \<Rightarrow> bytes \<Rightarrow> odc_fields" where
  "raw_fields mode data = \<lparr>od_dev = 0, od_mode = mode, od_uid = 0, od_gid = 0, od_mtime = 0, od_size = length data\<rparr>"

fun raw_members :: "nat \<Rightarrow> (bytes \<times> nat \<times> bytes) list \<Rightarrow> bytes" where
  "raw_members ino [] = []"
| "raw_members ino ((name, mode, data) # ms) = odc_member (Suc ino) (raw_fields mode data) name data @ raw_members (Suc ino) ms"

fun raw_fit :: "nat \<Rightarrow> (bytes \<times> nat \<times> bytes) list \<Rightarrow> bool" where
  "raw_fit ino [] = True"
| "raw_fit ino ((name, mode, data) # ms) \<longleftrightarrow> odc_fits (Suc ino) (raw_fields mode data) name data \<and> raw_fit (Suc ino) ms"

text \<open>What a member is read back as: its name, the low 18 bits of its mode, its size and its data.\<close>

definition entry_of :: "bytes \<times> nat \<times> bytes \<Rightarrow> cpio_entry" where
  "entry_of = (\<lambda>(name, mode, data).
     \<lparr>ce_path = from_utf8_lossy name, ce_mode = of_nat (mode AND ODC_MAX_SHORT), ce_size = length data\<rparr>)"

lemma append_all_bytes:
  assumes "append_all ms cw = Some (Ok (), cw')" "\<forall>(name, mode, data) \<in> set ms. length name \<le> MAX_PATH_BYTES"
  shows "cw_inner cw' = cw_inner cw @ raw_members (cw_next_ino cw) ms \<and> raw_fit (cw_next_ino cw) ms"
  using assms
proof (induction ms arbitrary: cw)
  case (Cons m ms)
  obtain name mode data where m: "m = (name, mode, data)" by (cases m)
  from Cons(2) obtain cw1 d where a: "append_raw vec_write cw name mode data = Some (Ok (), cw1, d)" "append_all ms cw1 = Some (Ok (), cw')"
    by (auto simp: m split: option.splits result.splits)
  have w: "write_entry slice_read vec_write cw name (raw_fields mode data) data = Some (Ok (), cw1, d)"
    using a(1) by (simp add: append_raw_def raw_fields_def)
  have "length name \<le> MAX_PATH_BYTES" using Cons(3) by (simp add: m)
  then have fits: "odc_fits (cw_next_ino cw + 1) (raw_fields mode data) name data"
    using write_entry_Ok_fits [OF w] by (simp add: raw_fields_def)
  have "cw_inner cw1 = cw_inner cw @ odc_member (Suc (cw_next_ino cw)) (raw_fields mode data) name data \<and> cw_next_ino cw1 = Suc (cw_next_ino cw)"
    using w slice_to_vec.write_entry_all [where d = data and cw = cw and data = data and f = "raw_fields mode data" and name = name] fits by auto
  then show ?case using Cons(1) [OF a(2)] Cons(3) fits by (simp add: m)
qed simp

lemma append_all_Ok:
  assumes "raw_fit (cw_next_ino cw) ms"
  obtains cw' where "append_all ms cw = Some (Ok (), cw')" "cw_inner cw' = cw_inner cw @ raw_members (cw_next_ino cw) ms"
  using assms
proof (induction ms arbitrary: cw thesis)
  case (Cons m ms)
  obtain name mode data where m: "m = (name, mode, data)" by (cases m)
  have fits: "odc_fits (cw_next_ino cw + 1) (raw_fields mode data) name data" using Cons(3) by (simp add: m)
  obtain w d where w: "append_raw vec_write cw name mode data = Some (Ok (), cw\<lparr>cw_inner := w, cw_next_ino := cw_next_ino cw + 1\<rparr>, d)"
    "w = cw_inner cw @ odc_member (Suc (cw_next_ino cw)) (raw_fields mode data) name data"
    using slice_to_vec.write_entry_all [where d = data and cw = cw and data = data and f = "raw_fields mode data" and name = name] fits
    by (auto simp: append_raw_def raw_fields_def)
  obtain cw' where "append_all ms (cw\<lparr>cw_inner := w, cw_next_ino := cw_next_ino cw + 1\<rparr>) = Some (Ok (), cw')"
    "cw_inner cw' = w @ raw_members (Suc (cw_next_ino cw)) ms"
    using Cons(1) [of "cw\<lparr>cw_inner := w, cw_next_ino := cw_next_ino cw + 1\<rparr>"] Cons(3) by (auto simp: m)
  then show ?case using Cons(2) w by (simp add: m)
qed simp

context byte_reader
begin

lemma drain_all:
  assumes "good (cr_inner c)" "0 < n" "content (cr_inner c) = d @ rest" "cr_left c = length d"
  shows "\<exists>s. drain rd n c acc = Some (Ok (acc @ d), c\<lparr>cr_inner := s, cr_left := 0\<rparr>)
    \<and> good s \<and> content s = rest \<and> ending s = ending (cr_inner c)"
  using assms
proof (induction "(length d, pending (cr_inner c))" arbitrary: c d acc
    rule: wf_induct_rule [OF wf_lex_prod [OF wf_measure [of id] wf_measure [of id]]])
  case (1 c d acc)
  show ?case
  proof (cases "d = []")
    case True
    then show ?thesis using 1(2-5) by (subst drain.simps) (auto simp: read_data_def intro!: exI [of _ "cr_inner c"])
  next
    case False
    define want where "want = min n (cr_left c)"
    have want: "0 < want" "want \<le> length d" using False 1(3,5) by (simp_all add: want_def)
    from 1(2) want(1) show ?thesis
    proof (cases rule: rd_cases)
      case (some bs s')
      have take: "bs @ content s' = d @ rest" using some(5) 1(4) by simp
      have le: "length bs \<le> length d" using some(4) want(2) by simp
      have "take (length bs) (bs @ content s') = take (length bs) (d @ rest)" "drop (length bs) (bs @ content s') = drop (length bs) (d @ rest)"
        by (simp_all only: take)
      then have bs: "bs = take (length bs) d" "content s' = drop (length bs) d @ rest" using le by simp_all
      define c1 where "c1 = c\<lparr>cr_inner := s', cr_left := cr_left c - length bs\<rparr>"
      have less: "length (drop (length bs) d) < length d" using some(3) False by (cases bs) auto
      have r: "read_data rd c n = Some (Ok bs, c1)"
        using some(1,3) want(1) by (simp add: read_data_def Let_def c1_def flip: want_def)
      have pre: "good (cr_inner c1)" "content (cr_inner c1) = drop (length bs) d @ rest" "cr_left c1 = length (drop (length bs) d)"
        using some(2) bs(2) 1(5) by (simp_all add: c1_def)
      have "((length (drop (length bs) d), pending (cr_inner c1)), length d, pending (cr_inner c)) \<in> measure id <*lex*> measure id"
        using less by simp
      from 1(1) [OF this pre(1) 1(3) pre(2,3), of "acc @ bs"] obtain s where
        s: "drain rd n c1 (acc @ bs) = Some (Ok ((acc @ bs) @ drop (length bs) d), c1\<lparr>cr_inner := s, cr_left := 0\<rparr>)"
          "good s" "content s = rest" "ending s = ending (cr_inner c1)" by blast
      have "acc @ bs @ drop (length bs) d = acc @ d" using bs(1) by (metis append_take_drop_id)
      then show ?thesis using s r some(3,6) by (subst drain.simps) (auto simp: c1_def)
    next
      case (interrupted e s')
      define c1 where "c1 = c\<lparr>cr_inner := s'\<rparr>"
      have r: "read_data rd c n = Some (Err e, c1)"
        using interrupted(1) want(1) by (simp add: read_data_def Let_def c1_def flip: want_def)
      have "((length d, pending (cr_inner c1)), length d, pending (cr_inner c)) \<in> measure id <*lex*> measure id"
        using interrupted(6) by (simp add: c1_def)
      from 1(1) [OF this _ 1(3), of acc] obtain s where
        "drain rd n c1 acc = Some (Ok (acc @ d), c1\<lparr>cr_inner := s, cr_left := 0\<rparr>)" "good s" "content s = rest" "ending s = ending s'"
        using interrupted(2,4) 1(4,5) by (auto simp: c1_def)
      then show ?thesis using r interrupted(3,5) by (subst drain.simps) (auto simp: c1_def)
    qed (use 1(4) want(1,2) False in simp_all)
  qed
qed

lemma drain_nothing: "drain rd 0 c acc = Some (Ok acc, c)"
  by (subst drain.simps) (simp add: read_data_def)

lemma read_members_all:
  assumes "good (cr_inner c)" "\<not> cr_done c" "content (cr_inner c) = skipped @ raw_members ino ms @ odc_trailer @ rest"
    and "length skipped = cr_left c + cr_pad c" "raw_fit ino ms" "\<forall>m \<in> set ms. from_utf8_lossy (fst m) \<noteq> TRAILER"
  shows "\<exists>c'. read_members rd n c acc = Some (Ok (acc @ map (\<lambda>m. (entry_of m, if n = 0 then [] else snd (snd m))) ms), c')
    \<and> good (cr_inner c') \<and> content (cr_inner c') = rest \<and> cr_done c'"
  using assms
proof (induction ms arbitrary: c ino skipped acc)
  case Nil
  obtain c' where "next_entry rd c = Some (Ok None, c')" "good (cr_inner c')" "content (cr_inner c') = rest" "cr_done c'"
    using next_entry_trailer [OF Nil(1,2), of skipped rest] Nil(3,4) by auto
  then show ?case by (subst read_members.simps) simp
next
  case (Cons m ms)
  obtain name mode data where m: "m = (name, mode, data)" by (cases m)
  let ?rest = "raw_members (Suc ino) ms @ odc_trailer @ rest"
  have bytes: "content (cr_inner c) = skipped @ odc_member (Suc ino) (raw_fields mode data) name data @ ?rest"
    using Cons(4) by (simp add: m)
  have fits: "odc_fits (Suc ino) (raw_fields mode data) name data" "raw_fit (Suc ino) ms" "from_utf8_lossy name \<noteq> TRAILER"
    using Cons(6,7) by (simp_all add: m)
  obtain c1 where c1: "next_entry rd c = Some (Ok (Some (entry_of m)), c1)" "good (cr_inner c1)" "content (cr_inner c1) = data @ ?rest"
    "cr_left c1 = length data" "cr_pad c1 = 0" "\<not> cr_done c1"
    using next_entry_member [OF Cons(2,3) fits(1) bytes Cons(5) fits(3)] by (auto simp: entry_of_def m raw_fields_def)
  have "\<exists>c2 skip. drain rd n c1 [] = Some (Ok (if n = 0 then [] else data), c2) \<and> good (cr_inner c2) \<and> \<not> cr_done c2
    \<and> content (cr_inner c2) = skip @ ?rest \<and> length skip = cr_left c2 + cr_pad c2"
  proof (cases "n = 0")
    case True
    then show ?thesis using c1 drain_nothing [of c1 "[]"] by (intro exI [of _ c1] exI [of _ data]) simp
  next
    case False
    then obtain s where "drain rd n c1 [] = Some (Ok ([] @ data), c1\<lparr>cr_inner := s, cr_left := 0\<rparr>)" "good s" "content s = ?rest"
      using drain_all [OF c1(2) _ c1(3,4), of n "[]"] by blast
    then show ?thesis using c1 False by (intro exI [of _ "c1\<lparr>cr_inner := s, cr_left := 0\<rparr>"] exI [of _ "[]"]) simp
  qed
  then obtain c2 skip where c2: "drain rd n c1 [] = Some (Ok (if n = 0 then [] else data), c2)" "good (cr_inner c2)" "\<not> cr_done c2"
    "content (cr_inner c2) = skip @ ?rest" "length skip = cr_left c2 + cr_pad c2" by blast
  have "\<forall>m \<in> set ms. from_utf8_lossy (fst m) \<noteq> TRAILER" using Cons(7) by simp
  from Cons(1) [OF c2(2-5) fits(2) this, of "acc @ [(entry_of m, if n = 0 then [] else data)]"] obtain c' where
    "read_members rd n c2 (acc @ [(entry_of m, if n = 0 then [] else data)]) =
       Some (Ok (acc @ map (\<lambda>m. (entry_of m, if n = 0 then [] else snd (snd m))) (m # ms)), c')"
    "good (cr_inner c')" "content (cr_inner c') = rest" "cr_done c'" by (auto simp: m)
  then show ?case using c1(1) c2(1) by (subst read_members.simps) (auto simp: m)
qed

end

text \<open>
  C2. What \<open>CpioWriter\<close> writes, \<open>CpioReader\<close> reads back, a whole archive: after a successful \<open>append_raw\<close> of every member
  and \<open>finish\<close>, a stream that starts with the written bytes, cut into pieces and interrupted in any way, yields the members one
  after the other, each with its name, the 18 bits of its mode that the format holds, its size and its data, however large the
  buffers are; or without the data, when the caller passes it over. Then it yields the end, again and again, and the
  stream stands exactly behind the trailer. The names have at most 4096 bytes and none spells the trailer.
\<close>

theorem cpio_round_trip:
  assumes "source_good src" "source_content src = archive @ rest"
    and "append_all ms (cpio_writer_new []) = Some (Ok (), cw)" "cpio_finish vec_write (\<lambda>w. (Ok (), w)) cw = (Ok (), archive)"
    and "\<forall>(name, mode, data) \<in> set ms. length name \<le> MAX_PATH_BYTES \<and> from_utf8_lossy name \<noteq> TRAILER"
  shows "\<exists>c'. read_members source_read n (cpio_new src) [] =
      Some (Ok (map (\<lambda>(name, mode, data). (\<lparr>ce_path = from_utf8_lossy name, ce_mode = of_nat (mode AND ODC_MAX_SHORT), ce_size = length data\<rparr>,
                  if n = 0 then [] else data)) ms), c')
    \<and> source_content (cr_inner c') = rest \<and> next_entry source_read c' = Some (Ok None, c')"
proof -
  have b: "cw_inner cw = raw_members 0 ms" "raw_fit 0 ms"
    using append_all_bytes [OF assms(3)] assms(5) by (auto simp: cpio_writer_new_def)
  have "archive = raw_members 0 ms @ odc_trailer"
    using slice_to_vec.cpio_finish_all [where cw = cw and flush = "\<lambda>w. (Ok (), w)"] assms(4) b(1) by auto
  then have "source_content (cr_inner (cpio_new src)) = [] @ raw_members 0 ms @ odc_trailer @ rest"
    using assms(2) by (simp add: cpio_new_def)
  moreover have "\<forall>m \<in> set ms. from_utf8_lossy (fst m) \<noteq> TRAILER" using assms(5) by auto
  ultimately obtain c' where "read_members source_read n (cpio_new src) [] =
      Some (Ok ([] @ map (\<lambda>m. (entry_of m, if n = 0 then [] else snd (snd m))) ms), c')" "source_content (cr_inner c') = rest" "cr_done c'"
    using source_reader.read_members_all [of "cpio_new src" "[]" 0 ms rest n "[]"] assms(1) b(2) by (auto simp: cpio_new_def)
  moreover have "map (\<lambda>m. (entry_of m, if n = 0 then [] else snd (snd m))) ms =
      map (\<lambda>(name, mode, data). (\<lparr>ce_path = from_utf8_lossy name, ce_mode = of_nat (mode AND ODC_MAX_SHORT), ce_size = length data\<rparr>,
        if n = 0 then [] else data)) ms" by (simp add: entry_of_def split_beta)
  ultimately show ?thesis by (auto simp: next_entry_def)
qed

theorem cpio_round_trip_witness:
  "\<exists>cw archive c'. append_all [(blit ''a'', 33188, [7, 8]), (blit ''b'', 1048996, [9])] (cpio_writer_new []) = Some (Ok (), cw)
    \<and> cpio_finish vec_write (\<lambda>w. (Ok (), w)) cw = (Ok (), archive)
    \<and> read_members source_read 1 (cpio_new [Fail (Plain Interrupted []), Data archive]) [] =
        Some (Ok [(\<lparr>ce_path = lit ''a'', ce_mode = 33188, ce_size = 2\<rparr>, [7, 8]),
                  (\<lparr>ce_path = lit ''b'', ce_mode = 420, ce_size = 1\<rparr>, [9])], c')
    \<and> source_content (cr_inner c') = [] \<and> next_entry source_read c' = Some (Ok None, c')"
proof -
  let ?ms = "[(blit ''a'', 33188, [7, 8]), (blit ''b'', 1048996, [9])] :: (bytes \<times> nat \<times> bytes) list"
  have "raw_fit 0 ?ms" by (simp add: eval_defs raw_fields_def)
  then obtain cw where w: "append_all ?ms (cpio_writer_new []) = Some (Ok (), cw)" "cw_inner cw = raw_members 0 ?ms"
    using append_all_Ok [of "cpio_writer_new []" ?ms] by (auto simp: cpio_writer_new_def)
  obtain archive where a: "cpio_finish vec_write (\<lambda>w. (Ok (), w)) cw = (Ok (), archive)" "archive = cw_inner cw @ odc_trailer"
    using slice_to_vec.cpio_finish_all [where cw = cw and flush = "\<lambda>w. (Ok (), w)"] by auto
  have "archive \<noteq> []" using a(2) w(2) by (simp add: odc_member_def)
  then have src: "source_good [Fail (Plain Interrupted []), Data archive]"
    "source_content [Fail (Plain Interrupted []), Data archive] = archive @ []"
    by (simp_all add: source_good_def error_kind_of_def)
  have names: "\<forall>(name, mode, data) \<in> set ?ms. length name \<le> MAX_PATH_BYTES \<and> from_utf8_lossy name \<noteq> TRAILER"
    "from_utf8_lossy (blit ''a'') = lit ''a''" "from_utf8_lossy (blit ''b'') = lit ''b''"
    by (simp_all add: eval_defs utf8_step_def)
  from cpio_round_trip [OF src w(1) a(1) names(1), of 1] w(1) a(1) names(2,3) show ?thesis
    by (auto simp: ODC_MAX_SHORT_def)
qed

end
