(* ===== verification/Dvzip.thy ===== *)
theory Dvzip
  imports Io
begin

text \<open>
  DVZip bodies (\<open>core/crates/omdrop-proto/src/archive.rs\<close>, DVZip): the streaming decoder
  (\<open>DvzipDecoder\<close>, \<open>read_blocks\<close>) over a buffered, sniffed source, and the encoder.

  zlib and gzip (the \<open>flate2\<close> crate) are parameters, fields of \<open>dv_env\<close>: one call of
  \<open>Decompress::decompress\<close> (status, bytes consumed, bytes produced, new state), one \<open>read\<close> of a
  \<open>GzDecoder\<close>, and the compression of a block. The clean-end flag is a cell shared with the layers
  below and above; it lives in the source's state and is set through \<open>ev_clean\<close>.
\<close>

definition DVZIP_BLOCK_BYTES :: nat where [eval_defs]:
  "DVZIP_BLOCK_BYTES = 65536"

definition DVZIP_STORED :: u32 where [eval_defs]:
  "DVZIP_STORED = 0x80000000"

definition GZIP_MAGIC :: bytes where [eval_defs]:
  "GZIP_MAGIC = [0x1f, 0x8b]"

datatype zstatus = ZOk | ZBufError | ZStreamEnd

record 's dv_source =
  ds_inner :: 's
  ds_failed :: bool

record 's sniffed =
  sn_buf :: bytes
  sn_prefix :: bytes
  sn_source :: "'s dv_source"

datatype 'z block = Header | Stored nat | Compressed nat 'z | Done

record ('s, 'z, 'g) dv_env =
  ev_read :: "'s reader"
  ev_clean :: "bool \<Rightarrow> 's \<Rightarrow> 's"
  ev_zinit :: 'z
  ev_zstep :: "'z \<Rightarrow> bytes \<Rightarrow> nat \<Rightarrow> (zstatus \<times> nat \<times> bytes \<times> 'z, msg) result"
  ev_ginit :: 'g
  ev_gread :: "'g \<Rightarrow> 's sniffed \<Rightarrow> nat \<Rightarrow> ((bytes, io_error) result \<times> 'g \<times> 's sniffed) option"

datatype ('s, 'z, 'g) dv_body = Gzip 'g "'s sniffed" | Blocks "'s sniffed" "'z block"

text \<open>\<open>Source::read\<close>: any byte it delivers clears the clean-end flag; it remembers a failure.\<close>

definition dv_source_read :: "('s, 'z, 'g) dv_env \<Rightarrow> 's dv_source reader" where [eval_defs]:
  "dv_source_read env d n =
     (case ev_read env (ds_inner d) n of
        None \<Rightarrow> None
      | Some (Ok bs, s) \<Rightarrow>
          Some (Ok bs, d\<lparr>ds_inner := (if bs \<noteq> [] then ev_clean env False s else s)\<rparr>)
      | Some (Err e, s) \<Rightarrow>
          Some (Err e, d\<lparr>ds_inner := s, ds_failed := (if is_interrupted e then ds_failed d else True)\<rparr>))"

text \<open>The two sniffed bytes chained before the source, and the \<open>BufReader\<close> over both.\<close>

definition chain_read :: "('s, 'z, 'g) dv_env \<Rightarrow> 's sniffed reader" where [eval_defs]:
  "chain_read env sn n =
     (if sn_prefix sn \<noteq> [] then Some (Ok (take n (sn_prefix sn)), sn\<lparr>sn_prefix := drop n (sn_prefix sn)\<rparr>)
      else (case dv_source_read env (sn_source sn) n of
              None \<Rightarrow> None
            | Some (r, d) \<Rightarrow> Some (r, sn\<lparr>sn_source := d\<rparr>)))"

definition fill_buf :: "('s, 'z, 'g) dv_env \<Rightarrow> 's sniffed \<Rightarrow> ((bytes, io_error) result \<times> 's sniffed) option"
  where [eval_defs]:
  "fill_buf env sn =
     (if sn_buf sn \<noteq> [] then Some (Ok (sn_buf sn), sn)
      else (case chain_read env sn IO_CHUNK_BYTES of
              None \<Rightarrow> None
            | Some (Err e, sn') \<Rightarrow> Some (Err e, sn')
            | Some (Ok bs, sn') \<Rightarrow> Some (Ok bs, sn'\<lparr>sn_buf := bs\<rparr>)))"

definition consume :: "nat \<Rightarrow> 's sniffed \<Rightarrow> 's sniffed" where [eval_defs]:
  "consume k sn = sn\<lparr>sn_buf := drop k (sn_buf sn)\<rparr>"

definition buf_read :: "('s, 'z, 'g) dv_env \<Rightarrow> 's sniffed reader" where [eval_defs]:
  "buf_read env sn n =
     (if sn_buf sn = [] \<and> n \<ge> IO_CHUNK_BYTES then chain_read env sn n
      else (case fill_buf env sn of
              None \<Rightarrow> None
            | Some (Err e, sn') \<Rightarrow> Some (Err e, sn')
            | Some (Ok bs, sn') \<Rightarrow> Some (Ok (take n bs), consume n sn')))"

definition set_clean :: "('s, 'z, 'g) dv_env \<Rightarrow> bool \<Rightarrow> 's sniffed \<Rightarrow> 's sniffed" where [eval_defs]:
  "set_clean env b sn =
     sn\<lparr>sn_source := (sn_source sn)\<lparr>ds_inner := ev_clean env b (ds_inner (sn_source sn))\<rparr>\<rparr>"

definition block_of_header :: "'z \<Rightarrow> bytes \<Rightarrow> 'z block" where [eval_defs]:
  "block_of_header zinit header =
     (let v = u32_of_be header; left = unat (v AND NOT DVZIP_STORED)
      in if v AND DVZIP_STORED \<noteq> 0 then Stored left else Compressed left zinit)"

text \<open>\<open>read_blocks\<close>: the loop over the block states until some output, the end or an error.\<close>

partial_function (option) read_blocks :: "('s, 'z, 'g) dv_env \<Rightarrow> 's sniffed \<Rightarrow> 'z block \<Rightarrow> nat
    \<Rightarrow> ((bytes, io_error) result \<times> 's sniffed \<times> 'z block) option" where
  "read_blocks env sn block n =
     (case block of
        Done \<Rightarrow> Some (Ok [], sn, Done)
      | Header \<Rightarrow>
          (case read_full (buf_read env) (set_clean env (sn_buf sn = []) sn) 4 of
             None \<Rightarrow> None
           | Some (Err e, sn') \<Rightarrow> Some (Err e, sn', Header)
           | Some (Ok header, sn') \<Rightarrow>
               if header = [] then Some (Ok [], sn', Done)
               else if length header \<noteq> 4
               then Some (Err (OfInvalid [T ''truncated DVZip block header: '', Num (length header), T '' bytes'']),
                          sn', Header)
               else read_blocks env sn' (block_of_header (ev_zinit env) header) n)
      | Stored left \<Rightarrow>
          if left = 0 then read_blocks env sn Header n
          else (case buf_read env sn (min n left) of
                  None \<Rightarrow> None
                | Some (Err e, sn') \<Rightarrow> Some (Err e, sn', Stored left)
                | Some (Ok bs, sn') \<Rightarrow>
                    if bs = []
                    then Some (Err (OfInvalid [T ''truncated stored block: '', Num left, T '' bytes missing'']),
                               sn', Stored left)
                    else Some (Ok bs, sn', Stored (left - length bs)))
      | Compressed left z \<Rightarrow>
          (case (if left > 0 then fill_buf env sn else Some (Ok [], sn)) of
             None \<Rightarrow> None
           | Some (Err e, sn') \<Rightarrow> Some (Err e, sn', Compressed left z)
           | Some (Ok buffer, sn') \<Rightarrow>
               if left > 0 \<and> buffer = []
               then Some (Err (OfInvalid [T ''truncated compressed block: '', Num left, T '' bytes missing'']),
                          sn', Compressed left z)
               else (case ev_zstep env z (take left buffer) n of
                       Err m \<Rightarrow> Some (Err (OfInvalid (T ''invalid compressed block: '' # m)), sn', Compressed left z)
                     | Ok (status, consumed, out, z') \<Rightarrow>
                         if status = ZStreamEnd \<and> left - consumed > 0
                         then Some (Err (OfInvalid [T ''compressed block has trailing data'']),
                                    consume consumed sn', Compressed (left - consumed) z')
                         else if status \<noteq> ZStreamEnd \<and> out = [] \<and> consumed = 0
                         then Some (Err (OfInvalid [T ''truncated compressed block'']),
                                    consume consumed sn', Compressed (left - consumed) z')
                         else if out \<noteq> []
                         then Some (Ok out, consume consumed sn',
                                    if status = ZStreamEnd then Header else Compressed (left - consumed) z')
                         else read_blocks env (consume consumed sn')
                                (if status = ZStreamEnd then Header else Compressed (left - consumed) z') n)))"

text \<open>\<open>DvzipDecoder::with_clean_end\<close>: sniff the first two bytes to tell gzip from DVZip.\<close>

definition dv_new :: "('s, 'z, 'g) dv_env \<Rightarrow> 's \<Rightarrow> ((('s, 'z, 'g) dv_body, io_error) result \<times> 's) option"
  where [eval_defs]:
  "dv_new env source =
     (case read_full (ev_read env) source 2 of
        None \<Rightarrow> None
      | Some (Err e, s) \<Rightarrow> Some (Err e, s)
      | Some (Ok magic, s) \<Rightarrow>
          let inner = \<lparr>sn_buf = [], sn_prefix = magic, sn_source = \<lparr>ds_inner = s, ds_failed = False\<rparr>\<rparr>
          in Some (Ok (if magic = GZIP_MAGIC then Gzip (ev_ginit env) inner else Blocks inner Header), s))"

definition dv_read :: "('s, 'z, 'g) dv_env \<Rightarrow> ('s, 'z, 'g) dv_body reader" where [eval_defs]:
  "dv_read env body n =
     (if n = 0 then Some (Ok [], body)
      else (case body of
              Gzip g sn \<Rightarrow>
                (case ev_gread env g sn n of
                   None \<Rightarrow> None
                 | Some (Ok bs, g', sn') \<Rightarrow>
                     if bs = [] then
                       (case fill_buf env (set_clean env (sn_buf sn' = []) sn') of
                          None \<Rightarrow> None
                        | Some (Err e, sn'') \<Rightarrow> Some (Err e, Gzip g' sn'')
                        | Some (Ok buffer, sn'') \<Rightarrow>
                            if buffer = [] then Some (Ok [], Gzip g' sn'')
                            else Some (Err (OfInvalid [T ''gzip body has trailing data'']), Gzip g' sn''))
                     else Some (Ok bs, Gzip g' sn')
                 | Some (Err e, g', sn') \<Rightarrow>
                     if ds_failed (sn_source sn') then Some (Err e, Gzip g' sn')
                     else if error_kind_of e = UnexpectedEof
                     then Some (Err (OfInvalid [T ''truncated gzip body'']), Gzip g' sn')
                     else Some (Err (OfInvalid (T ''invalid gzip body: '' # io_error_msg e)), Gzip g' sn'))
            | Blocks sn block \<Rightarrow>
                (case read_blocks env sn block n of
                   None \<Rightarrow> None
                 | Some (r, sn', block') \<Rightarrow> Some (r, Blocks sn' block'))))"

subsection \<open>Encoding\<close>

record 'w dv_encoder =
  de_inner :: 'w
  de_block :: bytes

definition dv_encoder_new :: "'w \<Rightarrow> 'w dv_encoder" where [eval_defs]:
  "dv_encoder_new w = \<lparr>de_inner = w, de_block = []\<rparr>"

text \<open>
  \<open>emit\<close>: the current block, compressed when that is shorter and stored otherwise. The loop that
  drives \<open>Compress::compress_vec\<close> to the end of the stream is the parameter \<open>deflate\<close>.
\<close>

definition dv_emit :: "(bytes \<Rightarrow> (bytes, io_error) result) \<Rightarrow> 'w writer \<Rightarrow> 'w dv_encoder
    \<Rightarrow> (unit, io_error) result \<times> 'w dv_encoder" where [eval_defs]:
  "dv_emit deflate wr de =
     (if de_block de = [] then (Ok (), de)
      else (case deflate (de_block de) of
              Err e \<Rightarrow> (Err e, de)
            | Ok compressed \<Rightarrow>
                (let payload = (if length compressed < length (de_block de) then compressed else de_block de);
                     head = (if length compressed < length (de_block de) then of_nat (length compressed)
                             else DVZIP_STORED OR of_nat (length (de_block de)))
                 in (case wr (de_inner de) (u32_to_be head) of
                       (Err e, w) \<Rightarrow> (Err e, de\<lparr>de_inner := w\<rparr>)
                     | (Ok _, w) \<Rightarrow>
                         (case wr w payload of
                            (Err e, w') \<Rightarrow> (Err e, de\<lparr>de_inner := w'\<rparr>)
                          | (Ok _, w') \<Rightarrow> (Ok (), de\<lparr>de_inner := w', de_block := []\<rparr>))))))"

definition dv_write :: "(bytes \<Rightarrow> (bytes, io_error) result) \<Rightarrow> 'w writer \<Rightarrow> 'w dv_encoder \<Rightarrow> bytes
    \<Rightarrow> (nat, io_error) result \<times> 'w dv_encoder" where [eval_defs]:
  "dv_write deflate wr de data =
     (let room = DVZIP_BLOCK_BYTES - length (de_block de); taken = min (length data) room;
          de' = de\<lparr>de_block := de_block de @ take taken data\<rparr>
      in if length (de_block de') = DVZIP_BLOCK_BYTES
         then (case dv_emit deflate wr de' of (Err e, de'') \<Rightarrow> (Err e, de'') | (Ok _, de'') \<Rightarrow> (Ok taken, de''))
         else (Ok taken, de'))"

text \<open>
  \<open>write_all\<close> of the standard library over \<open>write\<close>: until the data is written, with \<open>WriteZero\<close> as
  the error of a write that takes nothing.
\<close>

function dv_write_all :: "(bytes \<Rightarrow> (bytes, io_error) result) \<Rightarrow> 'w writer \<Rightarrow> 'w dv_encoder \<Rightarrow> bytes
    \<Rightarrow> (unit, io_error) result \<times> 'w dv_encoder" where
  "dv_write_all deflate wr de data =
     (if data = [] then (Ok (), de)
      else (case dv_write deflate wr de data of
              (Err e, de') \<Rightarrow> (Err e, de')
            | (Ok k, de') \<Rightarrow>
                if k = 0 then (Err (Plain Other [T ''failed to write whole buffer'']), de')
                else dv_write_all deflate wr de' (drop k data)))"
  by pat_completeness auto
termination
  by (relation "measure (\<lambda>(deflate, wr, de, data). length data)") auto

declare dv_write_all.simps [simp del]

definition dv_finish :: "(bytes \<Rightarrow> (bytes, io_error) result) \<Rightarrow> 'w writer
    \<Rightarrow> ('w \<Rightarrow> (unit, io_error) result \<times> 'w) \<Rightarrow> 'w dv_encoder \<Rightarrow> (unit, io_error) result \<times> 'w" where [eval_defs]:
  "dv_finish deflate wr flush de =
     (case dv_emit deflate wr de of
        (Err e, de') \<Rightarrow> (Err e, de_inner de')
      | (Ok _, de') \<Rightarrow> flush (de_inner de'))"

subsection \<open>The buffered, sniffed source is a reader\<close>

text \<open>
  What the decoder needs of the stream below it: a reader that keeps the contract, whose content
  does not depend on the clean-end flag.
\<close>

locale dv_input = byte_reader "ev_read env" good content ending pending
  for env :: "('s, 'z, 'g) dv_env"
    and good :: "'s \<Rightarrow> bool"
    and content :: "'s \<Rightarrow> bytes"
    and ending :: "'s \<Rightarrow> io_error option"
    and pending :: "'s \<Rightarrow> nat" +
  assumes clean_good [simp]: "good (ev_clean env b s) = good s"
    and clean_content [simp]: "content (ev_clean env b s) = content s"
    and clean_ending [simp]: "ending (ev_clean env b s) = ending s"
    and clean_pending [simp]: "pending (ev_clean env b s) = pending s"
begin

definition sn_good :: "'s sniffed \<Rightarrow> bool" where
  "sn_good sn \<longleftrightarrow> good (ds_inner (sn_source sn))"

definition sn_content :: "'s sniffed \<Rightarrow> bytes" where
  "sn_content sn = sn_buf sn @ sn_prefix sn @ content (ds_inner (sn_source sn))"

definition sn_ending :: "'s sniffed \<Rightarrow> io_error option" where
  "sn_ending sn = ending (ds_inner (sn_source sn))"

definition sn_pending :: "'s sniffed \<Rightarrow> nat" where
  "sn_pending sn = pending (ds_inner (sn_source sn))"

lemmas sn_defs = sn_good_def sn_content_def sn_ending_def sn_pending_def

lemma set_clean_same [simp]:
  "sn_good (set_clean env b sn) = sn_good sn"
  "sn_content (set_clean env b sn) = sn_content sn"
  "sn_ending (set_clean env b sn) = sn_ending sn"
  "sn_pending (set_clean env b sn) = sn_pending sn"
  by (simp_all add: sn_defs set_clean_def)

lemma chain_read_cases:
  assumes "sn_good sn" "0 < n" "sn_buf sn = []"
  obtains (eof) sn' where "chain_read env sn n = Some (Ok [], sn')" "sn_good sn'" "sn_content sn = []"
      "sn_ending sn = None" "sn_content sn' = []" "sn_ending sn' = None" "sn_pending sn' \<le> sn_pending sn" "sn_buf sn' = []"
  | (some) bs sn' where "chain_read env sn n = Some (Ok bs, sn')" "sn_good sn'" "bs \<noteq> []" "length bs \<le> n"
      "sn_content sn = bs @ sn_content sn'" "sn_ending sn' = sn_ending sn" "sn_pending sn' \<le> sn_pending sn" "sn_buf sn' = []"
  | (interrupted) e sn' where "chain_read env sn n = Some (Err e, sn')" "sn_good sn'" "is_interrupted e"
      "sn_content sn' = sn_content sn" "sn_ending sn' = sn_ending sn" "sn_pending sn' < sn_pending sn"
      "sn_buf sn' = []"
  | (failed) e sn' where "chain_read env sn n = Some (Err e, sn')" "\<not> is_interrupted e"
      "sn_content sn = []" "sn_ending sn = Some e" "sn_buf sn' = []"
proof (cases "sn_prefix sn = []")
  case False
  show thesis
    by (rule some [of "take n (sn_prefix sn)" "sn\<lparr>sn_prefix := drop n (sn_prefix sn)\<rparr>"])
      (use False assms in \<open>auto simp: chain_read_def sn_defs\<close>)
next
  case True
  have "good (ds_inner (sn_source sn))" using assms by (simp add: sn_good_def)
  from this assms(2) show thesis
  proof (cases rule: rd_cases)
    case (eof s')
    show thesis
      by (rule that(1) [of "sn\<lparr>sn_source := (sn_source sn)\<lparr>ds_inner := s'\<rparr>\<rparr>"])
        (use eof True assms in \<open>auto simp: chain_read_def dv_source_read_def sn_defs\<close>)
  next
    case (some bs s')
    show thesis
      by (rule that(2) [of bs "sn\<lparr>sn_source := (sn_source sn)\<lparr>ds_inner := ev_clean env False s'\<rparr>\<rparr>"])
        (use some True assms in \<open>auto simp: chain_read_def dv_source_read_def sn_defs\<close>)
  next
    case (interrupted e s')
    show thesis
      by (rule that(3) [of e "sn\<lparr>sn_source := (sn_source sn)\<lparr>ds_inner := s', ds_failed := ds_failed (sn_source sn)\<rparr>\<rparr>"])
        (use interrupted True assms in \<open>auto simp: chain_read_def dv_source_read_def sn_defs\<close>)
  next
    case (failed e s')
    show thesis
      by (rule that(4) [of e "sn\<lparr>sn_source := (sn_source sn)\<lparr>ds_inner := s', ds_failed := True\<rparr>\<rparr>"])
        (use failed True assms in \<open>auto simp: chain_read_def dv_source_read_def sn_defs\<close>)
  qed
qed

lemma fill_buf_cases:
  assumes "sn_good sn"
  obtains (eof) sn' where "fill_buf env sn = Some (Ok [], sn')" "sn_good sn'" "sn_content sn = []"
      "sn_ending sn = None" "sn_content sn' = []" "sn_ending sn' = None" "sn_pending sn' \<le> sn_pending sn"
  | (some) bs sn' where "fill_buf env sn = Some (Ok bs, sn')" "sn_good sn'" "bs \<noteq> []" "sn_buf sn' = bs"
      "sn_content sn' = sn_content sn" "sn_ending sn' = sn_ending sn" "sn_pending sn' \<le> sn_pending sn"
  | (interrupted) e sn' where "fill_buf env sn = Some (Err e, sn')" "sn_good sn'" "is_interrupted e"
      "sn_content sn' = sn_content sn" "sn_ending sn' = sn_ending sn" "sn_pending sn' < sn_pending sn"
  | (failed) e sn' where "fill_buf env sn = Some (Err e, sn')" "\<not> is_interrupted e"
      "sn_content sn = []" "sn_ending sn = Some e"
proof (cases "sn_buf sn = []")
  case False
  then show thesis using some [of "sn_buf sn" sn] assms by (auto simp: fill_buf_def)
next
  case True
  have pos: "0 < IO_CHUNK_BYTES" by (simp add: IO_CHUNK_BYTES_def)
  from assms pos True show thesis
  proof (cases rule: chain_read_cases)
    case (eof sn')
    then show thesis using that(1) [of sn'] True by (auto simp: fill_buf_def sn_defs)
  next
    case (some bs sn')
    then show thesis using that(2) [of bs "sn'\<lparr>sn_buf := bs\<rparr>"] True
      by (auto simp: fill_buf_def sn_defs)
  next
    case (interrupted e sn')
    then show thesis using that(3) [of e sn'] True by (auto simp: fill_buf_def)
  next
    case (failed e sn')
    then show thesis using that(4) [of e sn'] True by (auto simp: fill_buf_def)
  qed
qed

lemma consume_same [simp]:
  "sn_good (consume k sn) = sn_good sn" "sn_ending (consume k sn) = sn_ending sn"
  "sn_pending (consume k sn) = sn_pending sn"
  by (simp_all add: consume_def sn_defs)

lemma consume_content: "k \<le> length (sn_buf sn) \<Longrightarrow> sn_content (consume k sn) = drop k (sn_content sn)"
  by (simp add: consume_def sn_defs)

lemma consume_content_le: "sn_buf sn = bs \<Longrightarrow> sn_content sn = take n bs @ sn_content (consume n sn)"
  by (auto simp: consume_def sn_defs simp flip: append_assoc)

end

context dv_input
begin

lemma buf_read_cases:
  assumes "sn_good sn" "0 < n"
  obtains (eof) sn' where "buf_read env sn n = Some (Ok [], sn')" "sn_good sn'" "sn_content sn = []"
      "sn_ending sn = None" "sn_content sn' = []" "sn_ending sn' = None" "sn_pending sn' \<le> sn_pending sn"
  | (some) bs sn' where "buf_read env sn n = Some (Ok bs, sn')" "sn_good sn'" "bs \<noteq> []" "length bs \<le> n"
      "sn_content sn = bs @ sn_content sn'" "sn_ending sn' = sn_ending sn" "sn_pending sn' \<le> sn_pending sn"
  | (interrupted) e sn' where "buf_read env sn n = Some (Err e, sn')" "sn_good sn'" "is_interrupted e"
      "sn_content sn' = sn_content sn" "sn_ending sn' = sn_ending sn" "sn_pending sn' < sn_pending sn"
  | (failed) e sn' where "buf_read env sn n = Some (Err e, sn')" "\<not> is_interrupted e"
      "sn_content sn = []" "sn_ending sn = Some e"
proof (cases "sn_buf sn = [] \<and> n \<ge> IO_CHUNK_BYTES")
  case True
  then have eq: "buf_read env sn n = chain_read env sn n" by (simp add: buf_read_def)
  from True have empty: "sn_buf sn = []" by simp
  from assms empty show thesis by (rule chain_read_cases) (use that eq in auto)
next
  case False
  from assms(1) show thesis
  proof (cases rule: fill_buf_cases)
    case (eof sn')
    then have "sn_content (consume n sn') = []" by (auto simp: consume_def sn_defs)
    with eof show thesis using that(1) [of "consume n sn'"] False by (auto simp: buf_read_def)
  next
    case (some bs sn')
    then show thesis using that(2) [of "take n bs" "consume n sn'"] False assms(2)
        consume_content_le [of sn' bs n] by (auto simp: buf_read_def)
  next
    case (interrupted e sn')
    then show thesis using that(3) [of e sn'] False by (auto simp: buf_read_def)
  next
    case (failed e sn')
    then show thesis using that(4) [of e sn'] False by (auto simp: buf_read_def)
  qed
qed

end

sublocale dv_input \<subseteq> buffered: byte_reader "buf_read env" sn_good sn_content sn_ending sn_pending
proof
  fix s and n :: nat
  assume "sn_good s" "0 < n"
  then show "buf_read env s n \<noteq> None" by (rule buf_read_cases) auto
next
  fix s and n :: nat and r s'
  assume "sn_good s" "0 < n" and r: "buf_read env s n = Some (r, s')" "\<And>e. r = Err e \<Longrightarrow> is_interrupted e"
  then show "sn_good s'" by (rule_tac buf_read_cases [of s n]) auto
next
  fix s and n :: nat and s'
  assume "sn_good s" "0 < n" and r: "buf_read env s n = Some (Ok [], s')"
  then show "sn_content s = [] \<and> sn_ending s = None \<and> sn_content s' = [] \<and> sn_ending s' = None
    \<and> sn_pending s' \<le> sn_pending s"
    by (rule_tac buf_read_cases [of s n]) auto
next
  fix s and n :: nat and bs s'
  assume "sn_good s" "0 < n" and r: "buf_read env s n = Some (Ok bs, s')" "bs \<noteq> []"
  then show "length bs \<le> n \<and> sn_content s = bs @ sn_content s' \<and> sn_ending s' = sn_ending s
    \<and> sn_pending s' \<le> sn_pending s"
    by (rule_tac buf_read_cases [of s n]) auto
next
  fix s and n :: nat and e s'
  assume "sn_good s" "0 < n" and r: "buf_read env s n = Some (Err e, s')" "is_interrupted e"
  then show "sn_content s' = sn_content s \<and> sn_ending s' = sn_ending s \<and> sn_pending s' < sn_pending s"
    by (rule_tac buf_read_cases [of s n]) auto
next
  fix s and n :: nat and e s'
  assume "sn_good s" "0 < n" and r: "buf_read env s n = Some (Err e, s')" "\<not> is_interrupted e"
  then show "sn_content s = [] \<and> sn_ending s = Some e"
    by (rule_tac buf_read_cases [of s n]) auto
qed

subsection \<open>Well-formed bodies\<close>

text \<open>
  \<open>inflates zstep z p out\<close>: some run of the decompressor from state \<open>z\<close>, fed the bytes \<open>p\<close> in pieces,
  uses them all, produces \<open>out\<close> and ends the stream. \<open>dv_blocks\<close> is the DVZip format: a sequence
  of blocks, each a length with the stored bit and that many bytes.
\<close>

inductive inflates :: "('z \<Rightarrow> bytes \<Rightarrow> nat \<Rightarrow> (zstatus \<times> nat \<times> bytes \<times> 'z, msg) result) \<Rightarrow> 'z \<Rightarrow> bytes \<Rightarrow> bytes \<Rightarrow> bool"
  for zstep where
  finish: "p = avail @ q \<Longrightarrow> zstep z avail n = Ok (ZStreamEnd, length p, out, z') \<Longrightarrow> inflates zstep z p out"
| more: "p = avail @ q \<Longrightarrow> zstep z avail n = Ok (st, c, o1, z') \<Longrightarrow> st \<noteq> ZStreamEnd \<Longrightarrow>
    inflates zstep z' (drop c p) o2 \<Longrightarrow> inflates zstep z p (o1 @ o2)"

inductive dv_blocks :: "(bytes \<Rightarrow> bytes \<Rightarrow> bool) \<Rightarrow> bytes \<Rightarrow> bytes \<Rightarrow> bool" for zl where
  nil: "dv_blocks zl [] []"
| stored: "length p < 2 ^ 31 \<Longrightarrow> dv_blocks zl rest out \<Longrightarrow>
    dv_blocks zl (u32_to_be (DVZIP_STORED OR of_nat (length p)) @ p @ rest) (p @ out)"
| compressed: "length p < 2 ^ 31 \<Longrightarrow> zl p o1 \<Longrightarrow> dv_blocks zl rest o2 \<Longrightarrow>
    dv_blocks zl (u32_to_be (of_nat (length p)) @ p @ rest) (o1 @ o2)"

definition zlib_bounded :: "('z \<Rightarrow> bytes \<Rightarrow> nat \<Rightarrow> (zstatus \<times> nat \<times> bytes \<times> 'z, msg) result) \<Rightarrow> bool" where
  "zlib_bounded zstep \<longleftrightarrow>
     (\<forall>z avail n st c out z'. zstep z avail n = Ok (st, c, out, z') \<longrightarrow> c \<le> length avail \<and> length out \<le> n)"

text \<open>What remains of a well-formed body in the middle of a block.\<close>

definition dv_left :: "('z \<Rightarrow> bytes \<Rightarrow> bytes \<Rightarrow> bool) \<Rightarrow> 'z \<Rightarrow> 'z block \<Rightarrow> bytes \<Rightarrow> bytes \<Rightarrow> bool" where
  "dv_left zl zinit b body out =
     (case b of
        Done \<Rightarrow> out = []
      | Header \<Rightarrow> dv_blocks (zl zinit) body out
      | Stored left \<Rightarrow> left \<le> length body \<and> (\<exists>o2. out = take left body @ o2 \<and> dv_blocks (zl zinit) (drop left body) o2)
      | Compressed left z \<Rightarrow> left \<le> length body \<and>
          (\<exists>o1 o2. out = o1 @ o2 \<and> zl z (take left body) o1 \<and> dv_blocks (zl zinit) (drop left body) o2))"

lemma DVZIP_STORED_alt: "DVZIP_STORED = 2 ^ 31" "NOT DVZIP_STORED = mask 31"
  by (simp_all add: DVZIP_STORED_def mask_numeral)

lemma unat_not_stored: "unat (v AND NOT DVZIP_STORED) < 2 ^ 31"
proof -
  have "unat (take_bit 31 v) = take_bit 31 (unat v)" by (simp add: unsigned_take_bit_eq)
  also have "\<dots> < 2 ^ 31" by (rule take_bit_nat_less_exp)
  finally show ?thesis by (simp only: DVZIP_STORED_alt(2) take_bit_eq_mask)
qed

lemma header_stored:
  assumes "length h = 4" "u32_of_be h AND DVZIP_STORED \<noteq> 0"
  shows "h = u32_to_be (DVZIP_STORED OR of_nat (unat (u32_of_be h AND NOT DVZIP_STORED)))"
proof -
  have "bit (u32_of_be h) 31" using assms(2) unfolding DVZIP_STORED_alt(1) and_exp_eq_0_iff_not_bit by simp
  then have "DVZIP_STORED OR (u32_of_be h AND NOT DVZIP_STORED) = u32_of_be h"
    by (intro bit_word_eqI) (auto simp: DVZIP_STORED_alt bit_simps less_Suc_eq numeral_eq_Suc)
  with u32_to_be_of_be [OF assms(1)] show ?thesis by simp
qed

lemma header_compressed:
  assumes "length h = 4" "u32_of_be h AND DVZIP_STORED = 0"
  shows "h = u32_to_be (of_nat (unat (u32_of_be h AND NOT DVZIP_STORED)))"
proof -
  have "\<not> bit (u32_of_be h) 31" using assms(2) unfolding DVZIP_STORED_alt(1) and_exp_eq_0_iff_not_bit by simp
  then have "u32_of_be h AND NOT DVZIP_STORED = u32_of_be h"
    by (intro bit_word_eqI) (auto simp: DVZIP_STORED_alt bit_simps less_Suc_eq numeral_eq_Suc)
  with u32_to_be_of_be [OF assms(1)] show ?thesis by simp
qed

lemma dv_left_header:
  assumes "length h = 4" "dv_left zl zinit (block_of_header zinit h) rest out"
  shows "dv_blocks (zl zinit) (h @ rest) out"
proof -
  define left where "left = unat (u32_of_be h AND NOT DVZIP_STORED)"
  have lt: "left < 2 ^ 31" unfolding left_def by (rule unat_not_stored)
  show ?thesis
  proof (cases "u32_of_be h AND DVZIP_STORED = 0")
    case True
    with assms(2) obtain o1 o2 where "left \<le> length rest" "out = o1 @ o2" "zl zinit (take left rest) o1"
      "dv_blocks (zl zinit) (drop left rest) o2"
      by (auto simp: block_of_header_def dv_left_def Let_def left_def)
    with dv_blocks.compressed [of "take left rest" "zl zinit" o1 "drop left rest" o2] lt
      header_compressed [OF assms(1) True, folded left_def]
    show ?thesis by (simp add: min_absorb2)
  next
    case False
    with assms(2) obtain o2 where "left \<le> length rest" "out = take left rest @ o2"
      "dv_blocks (zl zinit) (drop left rest) o2"
      by (auto simp: block_of_header_def dv_left_def Let_def left_def)
    with dv_blocks.stored [of "take left rest" "zl zinit" "drop left rest" o2] lt
      header_stored [OF assms(1) False, folded left_def]
    show ?thesis by (simp add: min_absorb2)
  qed
qed

subsection \<open>The decoder accepts only well-formed bodies\<close>

context dv_input
begin

abbreviation rest_ok :: "'z block \<Rightarrow> 's sniffed \<Rightarrow> bytes \<Rightarrow> bool" where
  "rest_ok b sn out \<equiv> dv_left (inflates (ev_zstep env)) (ev_zinit env) b (sn_content sn) out"

text \<open>
  What a call of \<open>read_blocks\<close> may do: deliver bytes that extend whatever well-formed rest is left to
  a well-formed body, report the end only at the end, or fail; an interruption loses nothing.
\<close>

definition sound_call :: "'s sniffed \<Rightarrow> 'z block \<Rightarrow> (bytes, io_error) result \<Rightarrow> 's sniffed \<Rightarrow> 'z block \<Rightarrow> bool" where
  "sound_call sn b r sn' b' \<longleftrightarrow> ((\<forall>e. r = Err e \<longrightarrow> is_interrupted e) \<longrightarrow> sn_good sn') \<and>
     (case r of
        Ok bs \<Rightarrow> sn_ending sn' = sn_ending sn \<and> (\<forall>out. rest_ok b' sn' out \<longrightarrow> rest_ok b sn (bs @ out))
          \<and> (b' = Done \<longleftrightarrow> bs = []) \<and> (bs = [] \<longrightarrow> (b = Done \<or> sn_content sn' = [] \<and> sn_ending sn = None))
          \<and> sn_pending sn' \<le> sn_pending sn
      | Err e \<Rightarrow> is_interrupted e \<longrightarrow> b' \<noteq> Done \<and> sn_ending sn' = sn_ending sn \<and> (\<forall>out. rest_ok b' sn' out \<longrightarrow> rest_ok b sn out)
          \<and> sn_pending sn' < sn_pending sn)"

lemma sound_call_after:
  assumes "sound_call sn1 b1 r sn' b'" "sn_ending sn1 = sn_ending sn" "b1 \<noteq> Done"
    "sn_pending sn1 \<le> sn_pending sn"
    "\<And>out. rest_ok b1 sn1 out \<Longrightarrow> rest_ok b sn out"
  shows "sound_call sn b r sn' b'"
  using assms by (auto simp: sound_call_def split: result.splits)

fun block_rank :: "'z block \<Rightarrow> nat" where
  "block_rank Header = 0"
| "block_rank _ = 1"

text \<open>One turn of the loop: it returns, or goes on closer to the end of the body.\<close>

definition sound_turn :: "'s sniffed \<Rightarrow> 'z block \<Rightarrow> nat \<Rightarrow> bool" where
  "sound_turn sn b n \<longleftrightarrow>
     (\<exists>r sn' b'. read_blocks env sn b n = Some (r, sn', b') \<and> sound_call sn b r sn' b') \<or>
     (\<exists>sn1 b1. read_blocks env sn b n = read_blocks env sn1 b1 n \<and> sn_good sn1 \<and> sn_ending sn1 = sn_ending sn
        \<and> b1 \<noteq> Done \<and> sn_pending sn1 \<le> sn_pending sn
        \<and> (length (sn_content sn1) < length (sn_content sn)
           \<or> length (sn_content sn1) = length (sn_content sn) \<and> block_rank b1 < block_rank b)
        \<and> (\<forall>out. rest_ok b1 sn1 out \<longrightarrow> rest_ok b sn out))"

lemma sound_turn_returns:
  "read_blocks env sn b n = Some (r, sn', b') \<Longrightarrow> sound_call sn b r sn' b' \<Longrightarrow> sound_turn sn b n"
  by (auto simp: sound_turn_def)

lemma sound_turn_goes_on:
  assumes "read_blocks env sn b n = read_blocks env sn1 b1 n" "sn_good sn1" "sn_ending sn1 = sn_ending sn"
    "b1 \<noteq> Done" "sn_pending sn1 \<le> sn_pending sn"
    "length (sn_content sn1) < length (sn_content sn)
     \<or> length (sn_content sn1) = length (sn_content sn) \<and> block_rank b1 < block_rank b"
    "\<And>out. rest_ok b1 sn1 out \<Longrightarrow> rest_ok b sn out"
  shows "sound_turn sn b n"
  unfolding sound_turn_def using assms by blast

lemma sound_turn_Header:
  assumes "sn_good sn"
  shows "sound_turn sn Header n"
proof -
  define sn0 where "sn0 = set_clean env (sn_buf sn = []) sn"
  have sn0: "sn_good sn0" "sn_content sn0 = sn_content sn" "sn_ending sn0 = sn_ending sn" "sn_pending sn0 = sn_pending sn"
    using assms by (simp_all add: sn0_def)
  note unf = read_blocks.simps [of env sn Header n, folded sn0_def]
  show ?thesis
  proof (cases "4 \<le> length (sn_content sn)")
    case True
    with sn0 obtain sn1 where sn1: "read_full (buf_read env) sn0 4 = Some (Ok (take 4 (sn_content sn)), sn1)"
      "sn_good sn1" "sn_content sn1 = drop 4 (sn_content sn)" "sn_ending sn1 = sn_ending sn" "sn_pending sn1 \<le> sn_pending sn"
      using buffered.read_full_enough [of sn0 4] by metis
    define h where "h = take 4 (sn_content sn)"
    have h: "length h = 4" "sn_content sn = h @ sn_content sn1" "h \<noteq> []" using True sn1 by (auto simp: h_def)
    have "read_blocks env sn Header n = read_blocks env sn1 (block_of_header (ev_zinit env) h) n"
      using sn1(1) h by (simp add: unf flip: h_def)
    moreover have "rest_ok (block_of_header (ev_zinit env) h) sn1 out \<Longrightarrow> rest_ok Header sn out" for out
      using dv_left_header [OF h(1)] h(2) by (simp add: dv_left_def)
    moreover have "block_of_header (ev_zinit env) h \<noteq> Done" by (simp add: block_of_header_def Let_def)
    moreover have "length (sn_content sn1) < length (sn_content sn)" using True by (simp add: sn1(3))
    ultimately show ?thesis using sn1(2,4,5) sound_turn_goes_on by blast
  next
    case False
    show ?thesis
    proof (cases "sn_ending sn")
      case None
      with sn0 False obtain sn1 where sn1: "read_full (buf_read env) sn0 4 = Some (Ok (sn_content sn), sn1)"
        "sn_good sn1" "sn_content sn1 = []" "sn_ending sn1 = None" "sn_pending sn1 \<le> sn_pending sn"
        using buffered.read_full_short [of sn0 4] by (metis not_le)
      show ?thesis
      proof (cases "sn_content sn = []")
        case True
        with sn1 None show ?thesis
          by (auto simp: sound_turn_def sound_call_def unf dv_left_def intro: dv_blocks.nil)
      next
        case ne: False
        with sn1 False show ?thesis by (auto simp: sound_turn_def sound_call_def unf error_kind_of_def)
      qed
    next
      case (Some e)
      with sn0 False obtain sn1 where sn1: "read_full (buf_read env) sn0 4 = Some (Err e, sn1)"
        "\<not> is_interrupted e"
        using buffered.read_full_fails [of sn0 4 e] by (metis not_le)
      then show ?thesis by (auto simp: sound_turn_def sound_call_def unf)
    qed
  qed
qed

lemma sound_turn_Stored:
  assumes "sn_good sn" "0 < n"
  shows "sound_turn sn (Stored left) n"
proof (cases "left = 0")
  case True
  then show ?thesis using assms
    by (intro sound_turn_goes_on [where ?b1.0 = Header and ?sn1.0 = sn])
      (auto simp: read_blocks.simps [of env sn "Stored 0"] dv_left_def)
next
  case False
  note unf = read_blocks.simps [of env sn "Stored left" n]
  from assms False have "0 < min n left" by simp
  with assms(1) show ?thesis
  proof (cases rule: buf_read_cases)
    case (some bs sn')
    have "rest_ok (Stored (left - length bs)) sn' out \<Longrightarrow> rest_ok (Stored left) sn (bs @ out)" for out
      using some by (auto simp: dv_left_def)
    with some False show ?thesis
      by (intro sound_turn_returns) (auto simp: unf sound_call_def)
  qed (use False in \<open>auto intro!: sound_turn_returns simp: unf sound_call_def error_kind_of_def\<close>)
qed

lemma rest_ok_inflate:
  assumes "ev_zstep env z (take left buffer) n = Ok (st, c, out, z')" "c \<le> length (take left buffer)"
    "sn_content sn = buffer @ after" "st \<noteq> ZStreamEnd"
    "sn_content sn' = drop c (sn_content sn)" "rest_ok (Compressed (left - c) z') sn' o2"
  shows "rest_ok (Compressed left z) sn (out @ o2)"
proof -
  let ?p = "take left (sn_content sn)"
  have le: "c \<le> left" using assms(2) by simp
  from assms(5,6) le obtain o3 o4 where o: "left \<le> length (sn_content sn)" "o2 = o3 @ o4"
    "inflates (ev_zstep env) z' (take (left - c) (drop c (sn_content sn))) o3"
    "dv_blocks (inflates (ev_zstep env) (ev_zinit env)) (drop left (sn_content sn)) o4"
    using assms(2,3) by (auto simp: dv_left_def)
  have "?p = take left buffer @ take (left - length buffer) after" by (simp add: assms(3))
  from inflates.more [OF this, of "ev_zstep env" z n st c out z' o3] assms(1,4) o(3) have "inflates (ev_zstep env) z ?p (out @ o3)"
    by (simp add: drop_take)
  with o show ?thesis unfolding dv_left_def by (simp flip: append_assoc) blast
qed

lemma rest_ok_inflate_end:
  assumes "ev_zstep env z (take left buffer) n = Ok (ZStreamEnd, c, out, z')" "c \<le> length (take left buffer)"
    "sn_content sn = buffer @ after" "\<not> left - c > 0"
    "sn_content sn' = drop c (sn_content sn)" "rest_ok Header sn' o2"
  shows "rest_ok (Compressed left z) sn (out @ o2)"
proof -
  let ?p = "take left (sn_content sn)"
  have c: "c = left" "left \<le> length (sn_content sn)" using assms(2-4) by auto
  have "?p = take left buffer @ take (left - length buffer) after" by (simp add: assms(3))
  from inflates.finish [OF this, of "ev_zstep env" z n out z'] assms(1) c
  have "inflates (ev_zstep env) z ?p out" by (simp add: min_absorb2)
  with assms(5,6) c show ?thesis unfolding dv_left_def by auto
qed

lemma sound_turn_inflate:
  assumes bounded: "zlib_bounded (ev_zstep env)"
    and sn1: "sn_good sn1" "sn_content sn1 = sn_content sn" "sn_ending sn1 = sn_ending sn" "sn_pending sn1 \<le> sn_pending sn"
    and buf: "length buffer \<le> length (sn_buf sn1)" "sn_content sn = buffer @ after"
    and eq: "read_blocks env sn (Compressed left z) n =
      (case ev_zstep env z (take left buffer) n of
         Err m \<Rightarrow> Some (Err (OfInvalid (T ''invalid compressed block: '' # m)), sn1, Compressed left z)
       | Ok (status, consumed, out, z') \<Rightarrow>
           if status = ZStreamEnd \<and> left - consumed > 0
           then Some (Err (OfInvalid [T ''compressed block has trailing data'']),
                      consume consumed sn1, Compressed (left - consumed) z')
           else if status \<noteq> ZStreamEnd \<and> out = [] \<and> consumed = 0
           then Some (Err (OfInvalid [T ''truncated compressed block'']),
                      consume consumed sn1, Compressed (left - consumed) z')
           else if out \<noteq> []
           then Some (Ok out, consume consumed sn1,
                      if status = ZStreamEnd then Header else Compressed (left - consumed) z')
           else read_blocks env (consume consumed sn1)
                  (if status = ZStreamEnd then Header else Compressed (left - consumed) z') n)"
  shows "sound_turn sn (Compressed left z) n"
proof (cases "ev_zstep env z (take left buffer) n")
  case (Err m)
  with eq sn1 show ?thesis by (auto intro!: sound_turn_returns simp: sound_call_def error_kind_of_def)
next
  case (Ok x)
  obtain st c out z' where x: "x = (st, c, out, z')" by (cases x)
  note step = Ok [unfolded x]
  define sn' where "sn' = consume c sn1"
  define b' where "b' = (if st = ZStreamEnd then Header else Compressed (left - c) z')"
  have c: "c \<le> length (take left buffer)" using bounded step unfolding zlib_bounded_def by blast
  have len: "c \<le> length (sn_buf sn1)" "c \<le> length (sn_content sn)" using c buf by auto
  have sn': "sn_good sn'" "sn_content sn' = drop c (sn_content sn)" "sn_ending sn' = sn_ending sn"
    "sn_pending sn' \<le> sn_pending sn"
    using sn1 len(1) by (simp_all add: sn'_def consume_content)
  have b': "b' \<noteq> Done" by (simp add: b'_def)
  have rest: "rest_ok (Compressed left z) sn (out @ o2)"
    if "rest_ok b' sn' o2" "st = ZStreamEnd \<longrightarrow> \<not> left - c > 0" for o2
    using that rest_ok_inflate [OF step c buf(2) _ sn'(2)] rest_ok_inflate_end [OF _ c buf(2) _ sn'(2)] step
    by (cases "st = ZStreamEnd") (auto simp: b'_def)
  consider (trailing) "st = ZStreamEnd" "left - c > 0" | (stuck) "st \<noteq> ZStreamEnd" "out = []" "c = 0"
    | (out) "st = ZStreamEnd \<longrightarrow> \<not> left - c > 0" "out \<noteq> []"
    | (go) "st = ZStreamEnd \<longrightarrow> \<not> left - c > 0" "out = []" "st = ZStreamEnd \<or> c > 0"
    by blast
  then show ?thesis
  proof cases
    case out
    then have "read_blocks env sn (Compressed left z) n = Some (Ok out, sn', b')"
      unfolding eq step by (auto simp: sn'_def b'_def)
    moreover have "sn_pending sn' \<le> sn_pending sn"
      using sn'(2,4) by simp
    ultimately show ?thesis using rest [OF _ out(1)] sn'(1,3) out(2) b'
      by (intro sound_turn_returns) (auto simp: sound_call_def)
  next
    case go
    then have "read_blocks env sn (Compressed left z) n = read_blocks env sn' b' n"
      unfolding eq step by (auto simp: sn'_def b'_def)
    moreover have "length (sn_content sn') < length (sn_content sn)
      \<or> length (sn_content sn') = length (sn_content sn) \<and> block_rank b' < block_rank (Compressed left z)"
      using go(3) len(2) by (cases "c = 0") (auto simp: sn'(2) b'_def)
    ultimately show ?thesis using rest [OF _ go(1)] go(2) sn'(1,3,4) b'
      by (intro sound_turn_goes_on [of _ _ _ sn' b']) auto
  qed (use eq step sn1 in \<open>auto intro!: sound_turn_returns simp: sound_call_def error_kind_of_def\<close>)
qed

lemma sound_turn_Compressed:
  assumes "zlib_bounded (ev_zstep env)" "sn_good sn"
  shows "sound_turn sn (Compressed left z) n"
proof (cases "left > 0")
  case False
  then show ?thesis using assms
    by (intro sound_turn_inflate [of sn sn "[]" "sn_content sn" left z n])
      (auto simp: read_blocks.simps [of env sn "Compressed 0 z" n])
next
  case True
  note unf = read_blocks.simps [of env sn "Compressed left z" n]
  from assms(2) show ?thesis
  proof (cases rule: fill_buf_cases)
    case (some bs sn1)
    define after where "after = sn_prefix sn1 @ content (ds_inner (sn_source sn1))"
    have "sn_content sn = bs @ after" using some by (simp add: after_def sn_content_def)
    with some True assms(1) show ?thesis
      by (intro sound_turn_inflate [of sn1 sn bs after left z n]) (auto simp: unf)
  qed (use True in \<open>auto intro!: sound_turn_returns simp: unf sound_call_def error_kind_of_def\<close>)
qed

lemma read_blocks_sound:
  assumes "zlib_bounded (ev_zstep env)" "sn_good sn" "0 < n"
  shows "\<exists>r sn' b'. read_blocks env sn b n = Some (r, sn', b') \<and> sound_call sn b r sn' b'"
  using assms(2)
proof (induction "(length (sn_content sn), block_rank b)" arbitrary: sn b
    rule: wf_induct_rule [OF wf_lex_prod [OF wf_measure [of id] wf_measure [of id]]])
  case (1 sn b)
  have "b = Done \<or> sound_turn sn b n"
    using 1(2) assms(1,3) by (cases b) (auto intro: sound_turn_Header sound_turn_Stored sound_turn_Compressed)
  then consider "b = Done" | r sn' b' where "read_blocks env sn b n = Some (r, sn', b')" "sound_call sn b r sn' b'"
    | sn1 b1 where "read_blocks env sn b n = read_blocks env sn1 b1 n" "sn_good sn1" "sn_ending sn1 = sn_ending sn"
        "b1 \<noteq> Done" "sn_pending sn1 \<le> sn_pending sn"
        "length (sn_content sn1) < length (sn_content sn)
           \<or> length (sn_content sn1) = length (sn_content sn) \<and> block_rank b1 < block_rank b"
        "\<And>out. rest_ok b1 sn1 out \<Longrightarrow> rest_ok b sn out"
    unfolding sound_turn_def by blast
  then show ?case
  proof cases
    case 1
    then show ?thesis using \<open>sn_good sn\<close> by (simp add: read_blocks.simps [of env sn] sound_call_def dv_left_def)
  next
    case 2
    then show ?thesis by blast
  next
    case (3 sn1 b1)
    with 1(1) [of sn1 b1] obtain r sn' b' where "read_blocks env sn1 b1 n = Some (r, sn', b')"
      "sound_call sn1 b1 r sn' b'" by auto
    moreover from 3(5,6) have "sn_pending sn1 \<le> sn_pending sn"
      by auto
    ultimately show ?thesis using sound_call_after [of sn1 b1 r sn' b' sn b] 3(1,3,4,7) by auto
  qed
qed

lemma dv_read_sound:
  assumes "zlib_bounded (ev_zstep env)" "sn_good sn" "dv_read env (Blocks sn b) COPY_BUF = Some (r, d')"
  obtains sn' b' where "d' = Blocks sn' b'" "sound_call sn b r sn' b'"
  using read_blocks_sound [OF assms(1,2), of COPY_BUF b] assms(3) that by (auto simp: dv_read_def COPY_BUF_def)

lemma dv_read_to_end_sound:
  assumes "zlib_bounded (ev_zstep env)"
    and "read_to_end (dv_read env) (Blocks sn b) acc = Some (Ok out, d)" "sn_good sn"
  shows "\<exists>o2. out = acc @ o2 \<and> rest_ok b sn o2 \<and> (b = Done \<or> sn_ending sn = None)"
proof -
  define R where "R body o2 \<longleftrightarrow> (\<forall>sn b. body = Blocks sn b \<longrightarrow> rest_ok b sn o2 \<and> (b = Done \<or> sn_ending sn = None))"
    for body :: "('s, 'z, 'g) dv_body" and o2
  define ok where "ok body \<longleftrightarrow> (\<exists>sn b. body = Blocks sn b \<and> sn_good sn)" for body :: "('s, 'z, 'g) dv_body"
  have "\<exists>o2. out = acc @ o2 \<and> R (Blocks sn b) o2"
  proof (rule read_to_end_rule [OF assms(2), of ok])
    show "ok (Blocks sn b)" using assms(3) by (simp add: ok_def)
  next
    fix s s'
    assume "ok s" and rd: "dv_read env s COPY_BUF = Some (Ok [], s')"
    then obtain sn b where s: "s = Blocks sn b" "sn_good sn" by (auto simp: ok_def)
    obtain sn' b' where "sound_call sn b (Ok []) sn' b'"
      by (rule dv_read_sound [OF assms(1) s(2) rd [unfolded s(1)]])
    then show "R s []"
      by (auto simp: s R_def sound_call_def dv_left_def)
  next
    fix s bs s'
    assume "ok s" and rd: "dv_read env s COPY_BUF = Some (Ok bs, s')" and "bs \<noteq> []"
    then obtain sn b where s: "s = Blocks sn b" "sn_good sn" by (auto simp: ok_def)
    obtain sn' b' where "s' = Blocks sn' b'" "sound_call sn b (Ok bs) sn' b'"
      by (rule dv_read_sound [OF assms(1) s(2) rd [unfolded s(1)]])
    then show "ok s' \<and> (\<forall>o2. R s' o2 \<longrightarrow> R s (bs @ o2))"
      by (auto simp: s ok_def R_def sound_call_def)
  next
    fix s e s'
    assume "ok s" and rd: "dv_read env s COPY_BUF = Some (Err e, s')" and "is_interrupted e"
    then obtain sn b where s: "s = Blocks sn b" "sn_good sn" by (auto simp: ok_def)
    obtain sn' b' where "s' = Blocks sn' b'" "sound_call sn b (Err e) sn' b'"
      by (rule dv_read_sound [OF assms(1) s(2) rd [unfolded s(1)]])
    with \<open>is_interrupted e\<close> show "ok s' \<and> (\<forall>o2. R s' o2 \<longrightarrow> R s o2)"
      by (auto simp: s ok_def R_def sound_call_def)
  qed
  then show ?thesis by (auto simp: R_def)
qed

end

subsection \<open>The decoder decodes every well-formed body\<close>

text \<open>
  The reference decoder works on the whole body at once, with \<open>inflate\<close> a whole zlib stream. What
  the streaming decoder relies on in zlib: from a state that still has to inflate \<open>p\<close> to \<open>out\<close>, a call
  on a piece of \<open>p\<close> makes progress, stays within the piece and the room it is given, and leaves a state
  that has to inflate the rest.
\<close>

function dv_decode :: "(bytes \<Rightarrow> bytes option) \<Rightarrow> bytes \<Rightarrow> bytes option" where
  "dv_decode inflate body =
     (if body = [] then Some []
      else if length body < 4 then None
      else (let v = u32_of_be (take 4 body); left = unat (v AND NOT DVZIP_STORED); rest = drop 4 body
            in if length rest < left then None
               else (case (if v AND DVZIP_STORED \<noteq> 0 then Some (take left rest) else inflate (take left rest)) of
                       None \<Rightarrow> None
                     | Some o1 \<Rightarrow> map_option (append o1) (dv_decode inflate (drop left rest)))))"
  by pat_completeness auto
termination
  by (relation "measure (\<lambda>(inflate, body). length body)") auto

declare dv_decode.simps [simp del]

definition zlib_streams :: "('z \<Rightarrow> bytes \<Rightarrow> nat \<Rightarrow> (zstatus \<times> nat \<times> bytes \<times> 'z, msg) result)
    \<Rightarrow> ('z \<Rightarrow> bytes \<Rightarrow> bytes option) \<Rightarrow> bool" where
  "zlib_streams zstep inflate \<longleftrightarrow>
     (\<forall>z avail q out n. inflate z (avail @ q) = Some out \<and> (avail = [] \<longrightarrow> q = []) \<and> 0 < n \<longrightarrow>
        (\<exists>st c o1 o2 z'. zstep z avail n = Ok (st, c, o1, z') \<and> c \<le> length avail \<and> length o1 \<le> n \<and> out = o1 @ o2 \<and>
           (if st = ZStreamEnd then c = length (avail @ q) \<and> o2 = []
            else (0 < c \<or> o1 \<noteq> []) \<and> inflate z' (drop c (avail @ q)) = Some o2)))"

text \<open>What the rest of the body decodes to in the middle of a block.\<close>

definition dv_rest :: "('z \<Rightarrow> bytes \<Rightarrow> bytes option) \<Rightarrow> 'z \<Rightarrow> 'z block \<Rightarrow> bytes \<Rightarrow> bytes option" where
  "dv_rest inflate zinit b body =
     (case b of
        Done \<Rightarrow> if body = [] then Some [] else None
      | Header \<Rightarrow> dv_decode (inflate zinit) body
      | Stored left \<Rightarrow>
          if length body < left then None
          else map_option (append (take left body)) (dv_decode (inflate zinit) (drop left body))
      | Compressed left z \<Rightarrow>
          if length body < left then None
          else (case inflate z (take left body) of
                  None \<Rightarrow> None
                | Some o1 \<Rightarrow> map_option (append o1) (dv_decode (inflate zinit) (drop left body))))"

lemma dv_rest_Header:
  assumes "dv_rest inflate zinit Header body = Some out" "body \<noteq> []"
  shows "4 \<le> length body \<and> dv_rest inflate zinit (block_of_header zinit (take 4 body)) (drop 4 body) = Some out"
  using assms by (auto simp: dv_rest_def dv_decode.simps [of _ body] block_of_header_def Let_def
      split: if_splits option.splits)

context dv_input
begin

definition exact_call :: "('z \<Rightarrow> bytes \<Rightarrow> bytes option) \<Rightarrow> nat \<Rightarrow> bytes \<Rightarrow> 's sniffed \<Rightarrow> 'z block
    \<Rightarrow> (bytes, io_error) result \<Rightarrow> 's sniffed \<Rightarrow> 'z block \<Rightarrow> bool" where
  "exact_call inflate n out sn b r sn' b' \<longleftrightarrow> ((\<forall>e. r = Err e \<longrightarrow> is_interrupted e) \<longrightarrow> sn_good sn') \<and>
     (case r of
        Ok bs \<Rightarrow> length bs \<le> n \<and> sn_ending sn' = sn_ending sn
          \<and> (\<exists>out'. out = bs @ out' \<and> dv_rest inflate (ev_zinit env) b' (sn_content sn') = Some out')
          \<and> (b' = Done \<longleftrightarrow> bs = []) \<and> (bs = [] \<longrightarrow> sn_ending sn = None)
          \<and> sn_pending sn' \<le> sn_pending sn
      | Err e \<Rightarrow>
          if is_interrupted e
          then sn_ending sn' = sn_ending sn \<and> dv_rest inflate (ev_zinit env) b' (sn_content sn') = Some out
            \<and> b' \<noteq> Done \<and> sn_pending sn' < sn_pending sn
          else out = [] \<and> sn_ending sn = Some e)"

lemma exact_call_after:
  assumes "exact_call inflate n out sn1 b1 r sn' b'" "sn_ending sn1 = sn_ending sn"
    "sn_pending sn1 \<le> sn_pending sn"
  shows "exact_call inflate n out sn b r sn' b'"
  using assms by (auto simp: exact_call_def split: result.splits)

definition exact_turn :: "('z \<Rightarrow> bytes \<Rightarrow> bytes option) \<Rightarrow> nat \<Rightarrow> bytes \<Rightarrow> 's sniffed \<Rightarrow> 'z block \<Rightarrow> bool" where
  "exact_turn inflate n out sn b \<longleftrightarrow>
     (\<exists>r sn' b'. read_blocks env sn b n = Some (r, sn', b') \<and> exact_call inflate n out sn b r sn' b') \<or>
     (\<exists>sn1 b1. read_blocks env sn b n = read_blocks env sn1 b1 n \<and> sn_good sn1 \<and> sn_ending sn1 = sn_ending sn
        \<and> b1 \<noteq> Done \<and> sn_pending sn1 \<le> sn_pending sn
        \<and> (length (sn_content sn1) < length (sn_content sn)
           \<or> length (sn_content sn1) = length (sn_content sn) \<and> block_rank b1 < block_rank b)
        \<and> dv_rest inflate (ev_zinit env) b1 (sn_content sn1) = Some out)"

lemma exact_turn_returns:
  "read_blocks env sn b n = Some (r, sn', b') \<Longrightarrow> exact_call inflate n out sn b r sn' b' \<Longrightarrow> exact_turn inflate n out sn b"
  by (auto simp: exact_turn_def)

lemma exact_turn_goes_on:
  assumes "read_blocks env sn b n = read_blocks env sn1 b1 n" "sn_good sn1" "sn_ending sn1 = sn_ending sn"
    "b1 \<noteq> Done" "sn_pending sn1 \<le> sn_pending sn"
    "length (sn_content sn1) < length (sn_content sn)
     \<or> length (sn_content sn1) = length (sn_content sn) \<and> block_rank b1 < block_rank b"
    "dv_rest inflate (ev_zinit env) b1 (sn_content sn1) = Some out"
  shows "exact_turn inflate n out sn b"
  unfolding exact_turn_def using assms by blast

lemma exact_turn_Header:
  assumes "sn_good sn" "dv_rest inflate (ev_zinit env) Header (sn_content sn) = Some out"
  shows "exact_turn inflate n out sn Header"
proof -
  define sn0 where "sn0 = set_clean env (sn_buf sn = []) sn"
  have sn0: "sn_good sn0" "sn_content sn0 = sn_content sn" "sn_ending sn0 = sn_ending sn" "sn_pending sn0 = sn_pending sn"
    using assms by (simp_all add: sn0_def)
  note unf = read_blocks.simps [of env sn Header n, folded sn0_def]
  show ?thesis
  proof (cases "sn_content sn = []")
    case False
    define h where "h = take 4 (sn_content sn)"
    have h: "4 \<le> length (sn_content sn)"
      "dv_rest inflate (ev_zinit env) (block_of_header (ev_zinit env) h) (drop 4 (sn_content sn)) = Some out"
      using dv_rest_Header [OF assms(2) False] by (auto simp: h_def)
    with sn0 obtain sn1 where sn1: "read_full (buf_read env) sn0 4 = Some (Ok h, sn1)"
      "sn_good sn1" "sn_content sn1 = drop 4 (sn_content sn)" "sn_ending sn1 = sn_ending sn" "sn_pending sn1 \<le> sn_pending sn"
      using buffered.read_full_enough [of sn0 4] unfolding h_def by metis
    have "read_blocks env sn Header n = read_blocks env sn1 (block_of_header (ev_zinit env) h) n"
      using sn1(1) h False by (auto simp: unf h_def)
    moreover have "block_of_header (ev_zinit env) h \<noteq> Done" by (simp add: block_of_header_def Let_def)
    ultimately show ?thesis using h sn1 by (intro exact_turn_goes_on) auto
  next
    case True
    have out: "out = []" using assms(2) True by (simp add: dv_rest_def dv_decode.simps)
    show ?thesis
    proof (cases "sn_ending sn")
      case None
      with sn0 True obtain sn1 where "read_full (buf_read env) sn0 4 = Some (Ok [], sn1)"
        "sn_good sn1" "sn_content sn1 = []" "sn_ending sn1 = None" "sn_pending sn1 \<le> sn_pending sn"
        using buffered.read_full_short [of sn0 4] by (metis list.size(3) zero_less_numeral)
      with None out show ?thesis
        by (intro exact_turn_returns) (auto simp: unf exact_call_def dv_rest_def)
    next
      case (Some e)
      with sn0 True obtain sn1 where "read_full (buf_read env) sn0 4 = Some (Err e, sn1)"
        "\<not> is_interrupted e"
        using buffered.read_full_fails [of sn0 4 e] by (metis list.size(3) zero_less_numeral)
      with Some out show ?thesis by (intro exact_turn_returns) (auto simp: unf exact_call_def)
    qed
  qed
qed

lemma exact_turn_Stored:
  assumes "sn_good sn" "0 < n" "dv_rest inflate (ev_zinit env) (Stored left) (sn_content sn) = Some out"
  shows "exact_turn inflate n out sn (Stored left)"
proof (cases "left = 0")
  case True
  then show ?thesis using assms
    by (intro exact_turn_goes_on [where ?b1.0 = Header and ?sn1.0 = sn])
      (auto simp: read_blocks.simps [of env sn "Stored 0"] dv_rest_def)
next
  case False
  note unf = read_blocks.simps [of env sn "Stored left" n]
  have ne: "sn_content sn \<noteq> []" using assms(3) False by (auto simp: dv_rest_def)
  from assms False have "0 < min n left" by simp
  with assms(1) show ?thesis
  proof (cases rule: buf_read_cases)
    case (some bs sn')
    have "\<exists>out'. out = bs @ out' \<and> dv_rest inflate (ev_zinit env) (Stored (left - length bs)) (sn_content sn') = Some out'"
      using some assms(3) by (auto simp: dv_rest_def split: if_splits)
    with some False show ?thesis
      by (intro exact_turn_returns) (auto simp: unf exact_call_def)
  next
    case (interrupted e sn')
    with False assms(3) show ?thesis by (intro exact_turn_returns) (auto simp: unf exact_call_def)
  qed (use ne in auto)
qed

lemma exact_inflate:
  assumes "zlib_streams (ev_zstep env) inflate"
    "dv_rest inflate (ev_zinit env) (Compressed left z) (buffer @ after) = Some out"
    "0 < n" "left > 0 \<longrightarrow> buffer \<noteq> []"
  obtains st c o1 o2 z' where "ev_zstep env z (take left buffer) n = Ok (st, c, o1, z')"
    "c \<le> length (take left buffer)" "length o1 \<le> n" "out = o1 @ o2"
    "st = ZStreamEnd \<longrightarrow> left = c" "st \<noteq> ZStreamEnd \<longrightarrow> 0 < c \<or> o1 \<noteq> []"
    "dv_rest inflate (ev_zinit env) (if st = ZStreamEnd then Header else Compressed (left - c) z')
       (drop c (buffer @ after)) = Some o2"
proof -
  let ?p = "take left buffer @ take (left - length buffer) after"
  from assms(2) obtain oa ob where o: "left \<le> length (buffer @ after)" "inflate z ?p = Some oa"
    "dv_decode (inflate (ev_zinit env)) (drop left (buffer @ after)) = Some ob" "out = oa @ ob"
    by (auto simp: dv_rest_def split: if_splits option.splits)
  have "take left buffer = [] \<longrightarrow> take (left - length buffer) after = []" using assms(4) by auto
  with assms(1,3) o(2) obtain st c o1 o2 z' where
    s: "ev_zstep env z (take left buffer) n = Ok (st, c, o1, z')" "c \<le> length (take left buffer)" "length o1 \<le> n"
      "oa = o1 @ o2" "if st = ZStreamEnd then c = length ?p \<and> o2 = []
        else (0 < c \<or> o1 \<noteq> []) \<and> inflate z' (drop c ?p) = Some o2"
    unfolding zlib_streams_def by blast
  have len: "length ?p = left" using o(1) by auto
  have "take (left - c) (drop c (buffer @ after)) = drop c ?p" using s(2) by (simp add: drop_take)
  then have "dv_rest inflate (ev_zinit env) (if st = ZStreamEnd then Header else Compressed (left - c) z')
       (drop c (buffer @ after)) = Some (o2 @ ob)"
    using s(2,5) len o(1,3) by (auto simp: dv_rest_def)
  with s len o(4) show thesis by (intro that [of st c o1 z' "o2 @ ob"]) (auto split: if_splits)
qed

lemma exact_turn_inflate:
  assumes zl: "zlib_streams (ev_zstep env) inflate"
    and rest: "dv_rest inflate (ev_zinit env) (Compressed left z) (sn_content sn) = Some out"
    and n: "0 < n" "left > 0 \<longrightarrow> buffer \<noteq> []"
    and sn1: "sn_good sn1" "sn_content sn1 = sn_content sn" "sn_ending sn1 = sn_ending sn" "sn_pending sn1 \<le> sn_pending sn"
    and buf: "length buffer \<le> length (sn_buf sn1)" "sn_content sn = buffer @ after"
    and eq: "\<And>st c o1 z'. ev_zstep env z (take left buffer) n = Ok (st, c, o1, z') \<Longrightarrow>
      st = ZStreamEnd \<longrightarrow> left = c \<Longrightarrow> st \<noteq> ZStreamEnd \<longrightarrow> 0 < c \<or> o1 \<noteq> [] \<Longrightarrow>
      read_blocks env sn (Compressed left z) n =
        (let b' = (if st = ZStreamEnd then Header else Compressed (left - c) z')
         in if o1 \<noteq> [] then Some (Ok o1, consume c sn1, b') else read_blocks env (consume c sn1) b' n)"
  shows "exact_turn inflate n out sn (Compressed left z)"
proof -
  obtain st c o1 o2 z' where s: "ev_zstep env z (take left buffer) n = Ok (st, c, o1, z')"
    "c \<le> length (take left buffer)" "length o1 \<le> n" "out = o1 @ o2"
    "st = ZStreamEnd \<longrightarrow> left = c" "st \<noteq> ZStreamEnd \<longrightarrow> 0 < c \<or> o1 \<noteq> []"
    "dv_rest inflate (ev_zinit env) (if st = ZStreamEnd then Header else Compressed (left - c) z')
       (drop c (buffer @ after)) = Some o2"
    using exact_inflate [OF zl rest [unfolded buf(2)] n] by metis
  define b' where "b' = (if st = ZStreamEnd then Header else Compressed (left - c) z')"
  define sn' where "sn' = consume c sn1"
  have len: "c \<le> length (sn_buf sn1)" "c \<le> length (sn_content sn)" using s(2) buf by auto
  have sn': "sn_good sn'" "sn_content sn' = drop c (sn_content sn)" "sn_ending sn' = sn_ending sn"
    "sn_pending sn' \<le> sn_pending sn"
    using sn1 len(1) by (simp_all add: sn'_def consume_content)
  have le: "sn_pending sn' \<le> sn_pending sn"
    using sn'(2,4) by simp
  have rest': "dv_rest inflate (ev_zinit env) b' (sn_content sn') = Some o2" "b' \<noteq> Done"
    using s(7) by (simp_all add: b'_def sn'(2) buf(2))
  have eq': "read_blocks env sn (Compressed left z) n =
    (if o1 \<noteq> [] then Some (Ok o1, sn', b') else read_blocks env sn' b' n)"
    using eq [OF s(1,5,6)] by (simp add: b'_def sn'_def Let_def)
  show ?thesis
  proof (cases "o1 = []")
    case False
    then show ?thesis using eq' rest' s(3,4) sn'(1,3) le
      by (intro exact_turn_returns) (auto simp: exact_call_def)
  next
    case True
    have "length (sn_content sn') < length (sn_content sn)
      \<or> length (sn_content sn') = length (sn_content sn) \<and> block_rank b' < block_rank (Compressed left z)"
      using s(6) True len(2) by (cases "c = 0") (auto simp: sn'(2) b'_def)
    with True show ?thesis using eq' rest' s(4) sn'(1,3,4)
      by (intro exact_turn_goes_on [of _ _ _ sn' b']) auto
  qed
qed

lemma exact_turn_Compressed:
  assumes "zlib_streams (ev_zstep env) inflate" "sn_good sn" "0 < n"
    "dv_rest inflate (ev_zinit env) (Compressed left z) (sn_content sn) = Some out"
  shows "exact_turn inflate n out sn (Compressed left z)"
proof (cases "left > 0")
  case False
  then show ?thesis using assms
    by (intro exact_turn_inflate [of inflate left z sn out n "[]" sn "sn_content sn"])
      (auto simp: read_blocks.simps [of env sn "Compressed 0 z" n])
next
  case True
  note unf = read_blocks.simps [of env sn "Compressed left z" n]
  have ne: "sn_content sn \<noteq> []" using assms(4) True by (auto simp: dv_rest_def)
  from assms(2) show ?thesis
  proof (cases rule: fill_buf_cases)
    case (some bs sn1)
    define after where "after = sn_prefix sn1 @ content (ds_inner (sn_source sn1))"
    have "sn_content sn = bs @ after" using some by (simp add: after_def sn_content_def)
    with some True assms show ?thesis
      by (intro exact_turn_inflate [of inflate left z sn out n bs sn1 after]) (auto simp: unf)
  next
    case (interrupted e sn1)
    with True assms(4) show ?thesis by (intro exact_turn_returns) (auto simp: unf exact_call_def)
  qed (use ne in auto)
qed

lemma read_blocks_exact:
  assumes "zlib_streams (ev_zstep env) inflate" "sn_good sn" "0 < n"
    "dv_rest inflate (ev_zinit env) b (sn_content sn) = Some out" "b = Done \<longrightarrow> sn_ending sn = None"
  shows "\<exists>r sn' b'. read_blocks env sn b n = Some (r, sn', b') \<and> exact_call inflate n out sn b r sn' b'"
  using assms(2,4,5)
proof (induction "(length (sn_content sn), block_rank b)" arbitrary: sn b
    rule: wf_induct_rule [OF wf_lex_prod [OF wf_measure [of id] wf_measure [of id]]])
  case (1 sn b)
  have "b = Done \<or> exact_turn inflate n out sn b"
    using 1(2,3) assms(1,3) by (cases b) (auto intro: exact_turn_Header exact_turn_Stored exact_turn_Compressed)
  then consider "b = Done" | r sn' b' where "read_blocks env sn b n = Some (r, sn', b')"
      "exact_call inflate n out sn b r sn' b'"
    | sn1 b1 where "read_blocks env sn b n = read_blocks env sn1 b1 n" "sn_good sn1" "sn_ending sn1 = sn_ending sn"
        "b1 \<noteq> Done" "sn_pending sn1 \<le> sn_pending sn"
        "length (sn_content sn1) < length (sn_content sn)
           \<or> length (sn_content sn1) = length (sn_content sn) \<and> block_rank b1 < block_rank b"
        "dv_rest inflate (ev_zinit env) b1 (sn_content sn1) = Some out"
    unfolding exact_turn_def by blast
  then show ?case
  proof cases
    case 1
    then show ?thesis using \<open>sn_good sn\<close> \<open>dv_rest inflate (ev_zinit env) b (sn_content sn) = Some out\<close>
        \<open>b = Done \<longrightarrow> sn_ending sn = None\<close>
      by (auto simp: read_blocks.simps [of env sn] exact_call_def dv_rest_def split: if_splits)
  next
    case 2
    then show ?thesis by blast
  next
    case (3 sn1 b1)
    with 1(1) [of sn1 b1] obtain r sn' b' where "read_blocks env sn1 b1 n = Some (r, sn', b')"
      "exact_call inflate n out sn1 b1 r sn' b'" by auto
    moreover from 3(5,6) have "sn_pending sn1 \<le> sn_pending sn"
      by auto
    ultimately show ?thesis using exact_call_after [of inflate n out sn1 b1 r sn' b' sn b] 3(1,3) by auto
  qed
qed

text \<open>On the bodies the reference decodes, the decoder keeps the contract of a reader itself.\<close>

definition dv_good :: "('z \<Rightarrow> bytes \<Rightarrow> bytes option) \<Rightarrow> ('s, 'z, 'g) dv_body \<Rightarrow> bool" where
  "dv_good inflate d \<longleftrightarrow>
     (\<exists>sn b. d = Blocks sn b \<and> sn_good sn \<and> dv_rest inflate (ev_zinit env) b (sn_content sn) \<noteq> None
        \<and> (b = Done \<longrightarrow> sn_ending sn = None))"

definition dv_content :: "('z \<Rightarrow> bytes \<Rightarrow> bytes option) \<Rightarrow> ('s, 'z, 'g) dv_body \<Rightarrow> bytes" where
  "dv_content inflate d = (case d of Blocks sn b \<Rightarrow> the (dv_rest inflate (ev_zinit env) b (sn_content sn)) | _ \<Rightarrow> [])"

definition dv_ending :: "('s, 'z, 'g) dv_body \<Rightarrow> io_error option" where
  "dv_ending d = (case d of Blocks sn b \<Rightarrow> sn_ending sn | _ \<Rightarrow> None)"

definition dv_pending :: "('s, 'z, 'g) dv_body \<Rightarrow> nat" where
  "dv_pending d = (case d of Blocks sn b \<Rightarrow> sn_pending sn | _ \<Rightarrow> 0)"

lemmas dv_defs = dv_good_def dv_content_def dv_ending_def dv_pending_def

lemma dv_read_exact:
  assumes "zlib_streams (ev_zstep env) inflate" "dv_good inflate d" "0 < n"
  obtains sn b r sn' b' where "d = Blocks sn b" "dv_read env d n = Some (r, Blocks sn' b')"
    "exact_call inflate n (dv_content inflate d) sn b r sn' b'"
proof -
  obtain sn b out where d: "d = Blocks sn b" "sn_good sn" "b = Done \<longrightarrow> sn_ending sn = None"
    "dv_rest inflate (ev_zinit env) b (sn_content sn) = Some out" using assms(2) by (auto simp: dv_good_def)
  from read_blocks_exact [OF assms(1) d(2) assms(3) d(4,3)] d show thesis
    using assms(3) by (auto simp: dv_read_def dv_content_def intro: that)
qed

lemma dv_byte_reader:
  assumes zl: "zlib_streams (ev_zstep env) inflate"
  shows "byte_reader (dv_read env) (dv_good inflate) (dv_content inflate) dv_ending dv_pending"
proof
  fix s and n :: nat
  assume "dv_good inflate s" "0 < n"
  then show "dv_read env s n \<noteq> None" by (rule dv_read_exact [OF zl]) auto
next
  fix s and n :: nat and r s'
  assume g: "dv_good inflate s" "0 < n" and eq: "dv_read env s n = Some (r, s')"
    and "\<And>e. r = Err e \<Longrightarrow> is_interrupted e"
  then show "dv_good inflate s'"
    by (rule_tac dv_read_exact [OF zl g]) (cases r; auto simp: exact_call_def dv_defs split: result.splits)
next
  fix s and n :: nat and s'
  assume g: "dv_good inflate s" "0 < n" and eq: "dv_read env s n = Some (Ok [], s')"
  then show "dv_content inflate s = [] \<and> dv_ending s = None \<and> dv_content inflate s' = [] \<and> dv_ending s' = None
    \<and> dv_pending s' \<le> dv_pending s"
    by (rule_tac dv_read_exact [OF zl g]) (auto simp: exact_call_def dv_defs dv_rest_def split: if_splits)
next
  fix s and n :: nat and bs s'
  assume g: "dv_good inflate s" "0 < n" and eq: "dv_read env s n = Some (Ok bs, s')" "bs \<noteq> []"
  then show "length bs \<le> n \<and> dv_content inflate s = bs @ dv_content inflate s' \<and> dv_ending s' = dv_ending s
    \<and> dv_pending s' \<le> dv_pending s"
    by (rule_tac dv_read_exact [OF zl g]) (auto simp: exact_call_def dv_defs)
next
  fix s and n :: nat and e s'
  assume g: "dv_good inflate s" "0 < n" and eq: "dv_read env s n = Some (Err e, s')" "is_interrupted e"
  then show "dv_content inflate s' = dv_content inflate s \<and> dv_ending s' = dv_ending s \<and> dv_pending s' < dv_pending s"
    by (rule_tac dv_read_exact [OF zl g]) (auto simp: exact_call_def dv_defs)
next
  fix s and n :: nat and e s'
  assume g: "dv_good inflate s" "0 < n" and eq: "dv_read env s n = Some (Err e, s')" "\<not> is_interrupted e"
  then show "dv_content inflate s = [] \<and> dv_ending s = Some e"
    by (rule_tac dv_read_exact [OF zl g]) (auto simp: exact_call_def dv_defs)
qed

end

subsection \<open>The encoder\<close>

definition deflates :: "(bytes \<Rightarrow> (bytes, io_error) result) \<Rightarrow> (bytes \<Rightarrow> bytes option) \<Rightarrow> bool" where
  "deflates deflate inflate \<longleftrightarrow>
     (\<forall>b. b \<noteq> [] \<and> length b \<le> DVZIP_BLOCK_BYTES \<longrightarrow> (\<exists>z. deflate b = Ok z \<and> inflate z = Some b))"

text \<open>What the encoder has written so far decodes, and with the current block is all the data.\<close>

definition encoded :: "(bytes \<Rightarrow> bytes option) \<Rightarrow> bytes \<Rightarrow> bytes \<Rightarrow> bool" where
  "encoded inflate written data \<longleftrightarrow>
     (\<forall>rest out. dv_decode inflate rest = Some out \<longrightarrow> dv_decode inflate (written @ rest) = Some (data @ out))
     \<and> (written = [] \<or> 4 \<le> length written \<and> hd written \<noteq> 0x1f)"

definition encoder_ok :: "(bytes \<Rightarrow> bytes option) \<Rightarrow> bytes \<Rightarrow> bytes dv_encoder \<Rightarrow> bool" where
  "encoder_ok inflate data de \<longleftrightarrow> length (de_block de) < DVZIP_BLOCK_BYTES
     \<and> (\<exists>sent. data = sent @ de_block de \<and> encoded inflate (de_inner de) sent)"

lemma header_word:
  assumes "k < 2 ^ 31"
  shows "unat ((of_nat k :: u32) AND NOT DVZIP_STORED) = k" "(of_nat k :: u32) AND DVZIP_STORED = 0"
    "unat ((DVZIP_STORED OR of_nat k) AND NOT DVZIP_STORED) = k" "(DVZIP_STORED OR of_nat k) AND DVZIP_STORED \<noteq> 0"
proof -
  have tb: "take_bit 31 (of_nat k :: u32) = of_nat k"
    using assms by (simp add: take_bit_of_nat take_bit_nat_eq_self)
  have un: "unat (of_nat k :: u32) = k" using assms by (simp add: unat_of_nat)
  have no: "\<not> bit (of_nat k :: u32) 31"
    using tb by (metis bit_take_bit_iff less_irrefl)
  show "unat ((of_nat k :: u32) AND NOT DVZIP_STORED) = k"
    by (simp only: DVZIP_STORED_alt(2) flip: take_bit_eq_mask) (simp add: tb un)
  show "(of_nat k :: u32) AND DVZIP_STORED = 0"
    using no unfolding DVZIP_STORED_alt(1) and_exp_eq_0_iff_not_bit .
  have "(DVZIP_STORED OR of_nat k) AND NOT DVZIP_STORED = of_nat k AND NOT DVZIP_STORED"
    by (rule bit_word_eqI) (auto simp: bit_simps)
  then show "unat ((DVZIP_STORED OR of_nat k) AND NOT DVZIP_STORED) = k"
    by (simp only: DVZIP_STORED_alt(2) flip: take_bit_eq_mask) (simp add: tb un)
  show "(DVZIP_STORED OR of_nat k) AND DVZIP_STORED \<noteq> 0"
    by (simp add: DVZIP_STORED_alt(1) and_exp_eq_0_iff_not_bit bit_simps del: power_numeral)
qed

lemma dv_decode_block:
  assumes "length p < 2 ^ 31" "dv_decode inflate rest = Some out"
  shows "inflate p = Some o1 \<Longrightarrow> dv_decode inflate (u32_to_be (of_nat (length p)) @ p @ rest) = Some (o1 @ out)"
    and "dv_decode inflate (u32_to_be (DVZIP_STORED OR of_nat (length p)) @ p @ rest) = Some (p @ out)"
proof -
  have hd: "u32_to_be h @ t \<noteq> []" "take 4 (u32_to_be h @ t) = u32_to_be h" "drop 4 (u32_to_be h @ t) = t" for h t
    by (simp_all add: u32_to_be_def)
  show "inflate p = Some o1 \<Longrightarrow> dv_decode inflate (u32_to_be (of_nat (length p)) @ p @ rest) = Some (o1 @ out)"
    using header_word [OF assms(1)] assms(2)
    by (subst dv_decode.simps) (simp only: hd u32_of_be_to_be Let_def, simp add: hd(1))
  show "dv_decode inflate (u32_to_be (DVZIP_STORED OR of_nat (length p)) @ p @ rest) = Some (p @ out)"
    using header_word [OF assms(1)] assms(2)
    by (subst dv_decode.simps) (simp only: hd u32_of_be_to_be Let_def, simp add: hd(1))
qed

lemma encoded_append:
  assumes "encoded inflate w1 d1" "encoded inflate w2 d2"
  shows "encoded inflate (w1 @ w2) (d1 @ d2)"
  using assms unfolding encoded_def by (cases "w1 = []") auto

lemma hd_header:
  assumes "k \<le> DVZIP_BLOCK_BYTES"
  shows "hd (u32_to_be (of_nat k)) \<noteq> 0x1f" "hd (u32_to_be (DVZIP_STORED OR of_nat k)) \<noteq> 0x1f"
proof -
  have "bit (of_nat k :: u32) i \<longleftrightarrow> False" if "17 \<le> i" for i
  proof -
    have "take_bit 17 (of_nat k :: u32) = of_nat k"
      using assms by (simp add: take_bit_of_nat take_bit_nat_eq_self DVZIP_BLOCK_BYTES_def)
    then show ?thesis using that by (metis bit_take_bit_iff not_le)
  qed
  then have "\<not> bit (ucast (drop_bit 24 (of_nat k :: u32)) :: u8) 0"
    "\<not> bit (ucast (drop_bit 24 (DVZIP_STORED OR of_nat k :: u32)) :: u8) 0"
    by (simp_all add: DVZIP_STORED_alt(1) bit_simps del: power_numeral)
  moreover have "bit (0x1f :: u8) 0" by simp
  ultimately show "hd (u32_to_be (of_nat k)) \<noteq> 0x1f" "hd (u32_to_be (DVZIP_STORED OR of_nat k)) \<noteq> 0x1f"
    unfolding u32_to_be_def list.sel by metis+
qed

lemma encoded_block:
  assumes "length p \<le> DVZIP_BLOCK_BYTES"
  shows "inflate p = Some b \<Longrightarrow> encoded inflate (u32_to_be (of_nat (length p)) @ p) b"
    and "encoded inflate (u32_to_be (DVZIP_STORED OR of_nat (length p)) @ p) p"
proof -
  have lt: "length p < 2 ^ 31" using assms by (simp add: DVZIP_BLOCK_BYTES_def)
  have hd: "hd (u32_to_be h @ t) = hd (u32_to_be h)" for h t by (simp add: u32_to_be_def)
  show "inflate p = Some b \<Longrightarrow> encoded inflate (u32_to_be (of_nat (length p)) @ p) b"
    using dv_decode_block(1) [OF lt] hd_header(1) [OF assms] by (simp add: encoded_def hd)
  show "encoded inflate (u32_to_be (DVZIP_STORED OR of_nat (length p)) @ p) p"
    using dv_decode_block(2) [OF lt] hd_header(2) [OF assms] by (simp add: encoded_def hd)
qed

lemma dv_emit_vec:
  assumes "deflates deflate inflate" "length (de_block de) \<le> DVZIP_BLOCK_BYTES" "encoded inflate (de_inner de) sent"
  shows "\<exists>w. dv_emit deflate vec_write de = (Ok (), \<lparr>de_inner = w, de_block = []\<rparr>)
    \<and> encoded inflate w (sent @ de_block de)"
proof (cases "de_block de = []")
  case True
  with assms(3) show ?thesis by (intro exI [of _ "de_inner de"]) (simp add: dv_emit_def)
next
  case False
  let ?b = "de_block de"
  from False assms(1,2) obtain z where z: "deflate ?b = Ok z" "inflate z = Some ?b" by (auto simp: deflates_def)
  define w where "w = (if length z < length ?b then u32_to_be (of_nat (length z)) @ z
    else u32_to_be (DVZIP_STORED OR of_nat (length ?b)) @ ?b)"
  have "encoded inflate w ?b"
    using encoded_block(1) [of z inflate ?b] encoded_block(2) [of ?b inflate] z(2) assms(2)
    by (auto simp: w_def)
  moreover have "dv_emit deflate vec_write de = (Ok (), \<lparr>de_inner = de_inner de @ w, de_block = []\<rparr>)"
    using False z(1) by (simp add: dv_emit_def vec_write_def w_def Let_def)
  ultimately show ?thesis using encoded_append [OF assms(3)] by blast
qed

lemma dv_write_vec:
  assumes "deflates deflate inflate" "encoder_ok inflate data de" "bs \<noteq> []"
  shows "\<exists>k de'. dv_write deflate vec_write de bs = (Ok k, de') \<and> 0 < k \<and> k \<le> length bs
    \<and> encoder_ok inflate (data @ take k bs) de'"
proof -
  from assms(2) obtain sent where sent: "data = sent @ de_block de" "encoded inflate (de_inner de) sent"
    and room: "length (de_block de) < DVZIP_BLOCK_BYTES" by (auto simp: encoder_ok_def)
  define k where "k = min (length bs) (DVZIP_BLOCK_BYTES - length (de_block de))"
  define de' where "de' = de\<lparr>de_block := de_block de @ take k bs\<rparr>"
  have k: "0 < k" "k \<le> length bs" using room assms(3) by (auto simp: k_def)
  have len: "length (de_block de') \<le> DVZIP_BLOCK_BYTES" using room by (simp add: de'_def k_def)
  have eq: "dv_write deflate vec_write de bs =
    (if length (de_block de') = DVZIP_BLOCK_BYTES
     then (case dv_emit deflate vec_write de' of (Err e, de'') \<Rightarrow> (Err e, de'') | (Ok _, de'') \<Rightarrow> (Ok k, de''))
     else (Ok k, de'))"
    by (simp only: dv_write_def Let_def de'_def k_def)
  show ?thesis
  proof (cases "length (de_block de') = DVZIP_BLOCK_BYTES")
    case True
    obtain w where "dv_emit deflate vec_write de' = (Ok (), \<lparr>de_inner = w, de_block = []\<rparr>)"
      "encoded inflate w (sent @ de_block de')"
      using dv_emit_vec [OF assms(1) len, of sent] sent(2) by (auto simp: de'_def)
    with True k show ?thesis
      unfolding eq by (auto simp: encoder_ok_def sent(1) DVZIP_BLOCK_BYTES_def de'_def)
  next
    case False
    with k len sent show ?thesis
      unfolding eq by (auto simp: encoder_ok_def de'_def)
  qed
qed

lemma dv_write_all_vec:
  assumes "deflates deflate inflate" "encoder_ok inflate data de"
  shows "\<exists>de'. dv_write_all deflate vec_write de bs = (Ok (), de') \<and> encoder_ok inflate (data @ bs) de'"
  using assms(2)
proof (induction "length bs" arbitrary: bs data de rule: less_induct)
  case less
  show ?case
  proof (cases "bs = []")
    case True
    with less(2) show ?thesis by (simp add: dv_write_all.simps)
  next
    case False
    obtain k de' where k: "dv_write deflate vec_write de bs = (Ok k, de')" "0 < k" "k \<le> length bs"
      "encoder_ok inflate (data @ take k bs) de'"
      using dv_write_vec [OF assms(1) less(2) False] by blast
    with less(1) [of "drop k bs" "data @ take k bs" de'] show ?thesis
      by (subst dv_write_all.simps) (auto simp: False)
  qed
qed

lemma dv_finish_vec:
  assumes "deflates deflate inflate" "encoder_ok inflate data de"
  shows "\<exists>body. dv_finish deflate vec_write (\<lambda>w. (Ok (), w)) de = (Ok (), body)
    \<and> dv_decode inflate body = Some data \<and> (body = [] \<or> 4 \<le> length body \<and> hd body \<noteq> 0x1f)"
proof -
  from assms(2) obtain sent where sent: "data = sent @ de_block de" "encoded inflate (de_inner de) sent"
    "length (de_block de) \<le> DVZIP_BLOCK_BYTES" by (auto simp: encoder_ok_def)
  from dv_emit_vec [OF assms(1) sent(3,2)] obtain w where
    w: "dv_emit deflate vec_write de = (Ok (), \<lparr>de_inner = w, de_block = []\<rparr>)" "encoded inflate w data"
    using sent(1) by auto
  have "dv_decode inflate [] = Some []" by (simp add: dv_decode.simps)
  with w(2) have "dv_decode inflate (w @ []) = Some (data @ [])" unfolding encoded_def by blast
  with w show ?thesis by (auto simp: dv_finish_def encoded_def)
qed

subsection \<open>Over the network\<close>

context dv_input
begin

lemma dv_new_blocks:
  assumes "good s" "take 2 (content s) \<noteq> GZIP_MAGIC" "2 \<le> length (content s) \<or> ending s = None"
  shows "\<exists>sn s'. dv_new env s = Some (Ok (Blocks sn Header), s') \<and> sn_good sn \<and> sn_content sn = content s
    \<and> sn_ending sn = ending s"
proof -
  have "\<exists>s'. read_full (ev_read env) s 2 = Some (Ok (take 2 (content s)), s') \<and> good s'
    \<and> content s' = drop 2 (content s) \<and> ending s' = ending s"
    using read_full_spec [OF assms(1), of 2] assms(3) by (auto split: if_splits)
  then show ?thesis using assms(2) by (auto simp: dv_new_def sn_defs Let_def)
qed

lemma dv_new_OkE:
  assumes "good s" "dv_new env s = Some (Ok (Blocks sn b), s')"
  shows "sn_good sn" "sn_content sn = content s" "sn_ending sn = ending s" "b = Header"
  using read_full_spec [OF assms(1), of 2] assms(2)
  by (auto simp: dv_new_def sn_defs Let_def split: if_splits option.splits)

lemma dv_stream_exact:
  assumes "zlib_streams (ev_zstep env) inflate" "good s" "ending s = None"
    "dv_decode (inflate (ev_zinit env)) (content s) = Some out" "content s = [] \<or> hd (content s) \<noteq> 0x1f"
  shows "\<exists>d s' d'. dv_new env s = Some (Ok d, s') \<and> read_to_end (dv_read env) d [] = Some (Ok out, d')"
proof -
  have "take 2 (content s) \<noteq> GZIP_MAGIC" using assms(5) by (cases "content s") (auto simp: GZIP_MAGIC_def)
  with assms(2,3) obtain sn s' where sn: "dv_new env s = Some (Ok (Blocks sn Header), s')" "sn_good sn"
    "sn_content sn = content s" "sn_ending sn = None" using dv_new_blocks [of s] by auto
  have "dv_good inflate (Blocks sn Header)" "dv_content inflate (Blocks sn Header) = out"
    "dv_ending (Blocks sn Header) = None"
    using sn assms(4) by (simp_all add: dv_defs dv_rest_def)
  with byte_reader.read_to_end_spec [OF dv_byte_reader [OF assms(1)], of "Blocks sn Header" "[]"] sn(1)
  show ?thesis by auto
qed

end

text \<open>The network script with the clean-end flag beside it.\<close>

definition flag_env :: "'z \<Rightarrow> ('z \<Rightarrow> bytes \<Rightarrow> nat \<Rightarrow> (zstatus \<times> nat \<times> bytes \<times> 'z, msg) result) \<Rightarrow> 'g
    \<Rightarrow> ('g \<Rightarrow> (source \<times> bool) sniffed \<Rightarrow> nat \<Rightarrow> ((bytes, io_error) result \<times> 'g \<times> (source \<times> bool) sniffed) option)
    \<Rightarrow> (source \<times> bool, 'z, 'g) dv_env" where
  "flag_env zinit zstep ginit gread =
     \<lparr>ev_read = (\<lambda>(s, clean) n. map_option (\<lambda>(r, s'). (r, s', clean)) (source_read s n)),
      ev_clean = (\<lambda>b (s, _). (s, b)), ev_zinit = zinit, ev_zstep = zstep, ev_ginit = ginit, ev_gread = gread\<rparr>"

lemma flag_env_simps [simp]:
  "ev_zinit (flag_env zi zs gi gr) = zi" "ev_zstep (flag_env zi zs gi gr) = zs"
  "ev_clean (flag_env zi zs gi gr) b s = (fst s, b)"
  "ev_read (flag_env zi zs gi gr) s n = map_option (\<lambda>(r, s'). (r, s', snd s)) (source_read (fst s) n)"
  by (simp_all add: flag_env_def split_beta)

interpretation flagged: dv_input "flag_env zi zs gi gr" "\<lambda>s. source_good (fst s)" "\<lambda>s. source_content (fst s)"
  "\<lambda>s. source_ending (fst s)" "\<lambda>s. source_interrupts (fst s)" for zi zs gi gr
proof -
  have "byte_reader (ev_read (flag_env zi zs gi gr)) (\<lambda>s. source_good (fst s)) (\<lambda>s. source_content (fst s))
    (\<lambda>s. source_ending (fst s)) (\<lambda>s. source_interrupts (fst s))"
    by (rule byte_reader_part [OF source_reader.byte_reader_axioms, where upd = "\<lambda>t s. (t, snd s)"]) simp_all
  then show "dv_input (flag_env zi zs gi gr) (\<lambda>s. source_good (fst s)) (\<lambda>s. source_content (fst s))
    (\<lambda>s. source_ending (fst s)) (\<lambda>s. source_interrupts (fst s))"
    by (simp add: dv_input_def dv_input_axioms_def)
qed

text \<open>
  A small compression format that meets the hypotheses on zlib: each byte is written after a mark,
  and a zero ends the stream. It is used only to evaluate the theorems below.
\<close>

fun pair_zstep :: "bool \<Rightarrow> bytes \<Rightarrow> nat \<Rightarrow> (zstatus \<times> nat \<times> bytes \<times> bool, msg) result" where
  "pair_zstep marked [] n = Ok (ZBufError, 0, [], marked)"
| "pair_zstep False (m # _) n = (if m = 0 then Ok (ZStreamEnd, 1, [], False) else Ok (ZOk, 1, [], True))"
| "pair_zstep True (b # _) n = (if n = 0 then Ok (ZBufError, 0, [], True) else Ok (ZOk, 1, [b], False))"

fun pair_inflate :: "bool \<Rightarrow> bytes \<Rightarrow> bytes option" where
  "pair_inflate marked [] = None"
| "pair_inflate False (m # bs) = (if m = 0 then (if bs = [] then Some [] else None) else pair_inflate True bs)"
| "pair_inflate True (b # bs) = map_option (Cons b) (pair_inflate False bs)"

definition pair_deflate :: "bytes \<Rightarrow> (bytes, io_error) result" where [eval_defs]:
  "pair_deflate bs = Ok (concat (map (\<lambda>b. [1, b]) bs) @ [0])"

lemma pair_zlib_bounded: "zlib_bounded pair_zstep"
  unfolding zlib_bounded_def
proof (intro allI impI)
  fix z avail n st c out z'
  show "pair_zstep z avail n = Ok (st, c, out, z') \<Longrightarrow> c \<le> length avail \<and> length out \<le> n"
    by (cases "(z, avail, n)" rule: pair_zstep.cases) (auto split: if_splits)
qed

lemma pair_zlib_streams: "zlib_streams pair_zstep pair_inflate"
  unfolding zlib_streams_def
proof (intro allI impI)
  fix z avail q out and n :: nat
  assume a: "pair_inflate z (avail @ q) = Some out \<and> (avail = [] \<longrightarrow> q = []) \<and> 0 < n"
  then obtain b bs where "avail = b # bs" by (cases avail) auto
  with a show "\<exists>st c o1 o2 z'. pair_zstep z avail n = Ok (st, c, o1, z') \<and> c \<le> length avail \<and> length o1 \<le> n \<and> out = o1 @ o2 \<and>
      (if st = ZStreamEnd then c = length (avail @ q) \<and> o2 = []
       else (0 < c \<or> o1 \<noteq> []) \<and> pair_inflate z' (drop c (avail @ q)) = Some o2)"
    by (cases z) (auto split: if_splits)
qed

lemma pair_deflates: "deflates pair_deflate (pair_inflate False)"
proof -
  have "pair_inflate False (concat (map (\<lambda>b. [1, b]) bs) @ [0]) = Some bs" for bs
    by (induction bs) auto
  then show ?thesis by (simp add: deflates_def pair_deflate_def)
qed

text \<open>
  C3. The decoder never takes a truncated or malformed DVZip body for a short archive: if reading it
  to the end succeeds, however the network cut the stream into pieces and interrupted it, then the
  stream ended without an error and is, byte for byte, a sequence of whole blocks: stored blocks with
  all their bytes, and compressed blocks whose zlib stream ends exactly at the end of the block. The
  bytes delivered are the blocks' contents in order. Of zlib it is only used that a call consumes no
  more than it is given.
\<close>

theorem dvzip_only_whole_bodies:
  assumes "zlib_bounded zs" "source_good src"
    and "dv_new (flag_env zi zs gi gr) (src, clean) = Some (Ok (Blocks sn b), s')"
    and "read_to_end (dv_read (flag_env zi zs gi gr)) (Blocks sn b) [] = Some (Ok out, d)"
  shows "source_ending src = None \<and> dv_blocks (inflates zs zi) (source_content src) out"
  using flagged.dv_new_OkE [OF _ assms(3)] flagged.dv_read_to_end_sound [OF _ assms(4)] assms(1,2)
  by (auto simp: dv_left_def)

theorem dvzip_only_whole_bodies_witness:
  "\<exists>sn b s' d. dv_new (flag_env False pair_zstep () undefined) ([Data [0x80, 0, 0], Data [2, 7], Data [8]], False)
      = Some (Ok (Blocks sn b), s')
    \<and> read_to_end (dv_read (flag_env False pair_zstep () undefined)) (Blocks sn b) [] = Some (Ok [7, 8], d)
    \<and> dv_blocks (inflates pair_zstep False) [0x80, 0, 0, 2, 7, 8] [7, 8]"
proof -
  let ?src = "[Data [0x80, 0, 0], Data [2, 7], Data [8]]"
  have good: "source_good ?src" "source_ending ?src = None" "source_content ?src = [0x80, 0, 0, 2, 7, 8]"
    by (simp_all add: eval_defs)
  have "dv_decode (pair_inflate False) [0x80, 0, 0, 2, 7, 8] = Some [7, 8]"
    by (simp add: dv_decode.simps u32_of_be_def DVZIP_STORED_def push_bit_eq_mult)
  then obtain d s' d' where d: "dv_new (flag_env False pair_zstep () undefined) (?src, False) = Some (Ok d, s')"
    "read_to_end (dv_read (flag_env False pair_zstep () undefined)) d [] = Some (Ok [7, 8], d')"
    using flagged.dv_stream_exact [where zs = pair_zstep and inflate = pair_inflate and s = "(?src, False)"
        and zi = False and out = "[7, 8]" and gi = "()" and gr = undefined]
      pair_zlib_streams good by auto
  moreover obtain sn b where "d = Blocks sn b"
    using flagged.dv_new_blocks [of "(?src, False)" False pair_zstep "()" undefined] d(1) good by (auto simp: GZIP_MAGIC_def)
  ultimately show ?thesis
    using dvzip_only_whole_bodies [OF pair_zlib_bounded good(1)] good(3) by metis
qed

text \<open>
  DVZip round trip: whatever is written to the encoder, in one \<open>write_all\<close>, comes back from the
  decoder whole and in order, from a stream cut into pieces of any size and interrupted any number of
  times. The hypotheses are on zlib: \<open>deflate\<close> makes a stream that inflates to the block, and
  inflating proceeds piece by piece.
\<close>

lemma dvzip_round_trip:
  assumes "zlib_streams zs inflate" "deflates deflate (inflate zi)"
  shows "\<exists>de body. dv_write_all deflate vec_write (dv_encoder_new []) data = (Ok (), de)
    \<and> dv_finish deflate vec_write (\<lambda>w. (Ok (), w)) de = (Ok (), body)
    \<and> (\<forall>src clean. source_good src \<and> source_ending src = None \<and> source_content src = body \<longrightarrow>
         (\<exists>d s' d'. dv_new (flag_env zi zs gi gr) (src, clean) = Some (Ok d, s')
           \<and> read_to_end (dv_read (flag_env zi zs gi gr)) d [] = Some (Ok data, d')))"
proof -
  have "encoder_ok (inflate zi) [] (dv_encoder_new [])"
    by (simp add: encoder_ok_def encoded_def dv_encoder_new_def DVZIP_BLOCK_BYTES_def)
  from dv_write_all_vec [OF assms(2) this, of data] obtain de where
    de: "dv_write_all deflate vec_write (dv_encoder_new []) data = (Ok (), de)" "encoder_ok (inflate zi) data de"
    by auto
  from dv_finish_vec [OF assms(2) de(2)] obtain body where
    body: "dv_finish deflate vec_write (\<lambda>w. (Ok (), w)) de = (Ok (), body)"
      "dv_decode (inflate zi) body = Some data" "body = [] \<or> 4 \<le> length body \<and> hd body \<noteq> 0x1f" by blast
  show ?thesis
    using de(1) body flagged.dv_stream_exact [where zs = zs and inflate = inflate and zi = zi
        and out = data and gi = gi and gr = gr] assms(1) by auto
qed

end
