(* ===== verification/Extract.thy ===== *)
theory Extract
  imports Cpio Dvzip
begin

text \<open>
  Extraction (\<open>core/crates/omdrop-proto/src/archive.rs\<close>, extraction): the byte ceiling on the decoded
  archive (\<open>Limited\<close>), one member written to a hidden temporary file (\<open>write_member\<close>), the whole
  upload (\<open>extract\<close>) with its clean-up on every error, the registry of files in progress (\<open>Partials\<close>),
  the start-up sweep and \<open>open_new\<close>.

  The download directory is a map from names to contents (\<open>disk\<close>). What the operating system and
  the \<open>tempfile\<close> crate decide is the parameter \<open>os\<close>, asked with a counter that grows with every
  call: the name of a temporary file, free space, a failed write (with the bytes that still got
  written), a failed rename, a failed unlink.
\<close>

definition MAX_ARCHIVE_MEMBERS :: nat where [eval_defs]:
  "MAX_ARCHIVE_MEMBERS = 512"

definition DISK_CHECK_INTERVAL :: nat where [eval_defs]:
  "DISK_CHECK_INTERVAL = 16 * 1024 * 1024"

type_synonym files = "ustr \<rightharpoonup> bytes"

record disk =
  dk_files :: files
  dk_partials :: "ustr list"
  dk_tick :: nat

record os =
  os_temp :: "nat \<Rightarrow> files \<Rightarrow> (ustr, io_error) result"
  os_free :: "nat \<Rightarrow> (nat, io_error) result"
  os_write :: "nat \<Rightarrow> (nat \<times> io_error) option"
  os_place :: "nat \<Rightarrow> io_error option"
  os_unlink :: "nat \<Rightarrow> bool"

record extract_limits =
  xl_byte_limit :: nat
  xl_max_members :: nat
  xl_min_free_bytes :: nat

record extracted =
  ex_names :: "ustr list"
  ex_decoded_bytes :: nat
  ex_magic :: bytes
  ex_unterminated :: bool

text \<open>
  \<open>ExtractProgress\<close>, shared with the layer that waits for the network. It lives in the state of
  the body below the decoder, and the extraction writes its three cells through \<open>px_\<close> functions.
\<close>

record progress =
  pg_decoded :: nat
  pg_trailer_seen :: bool
  pg_clean_end :: bool

definition whole :: "progress \<Rightarrow> bool" where [eval_defs]:
  "whole p \<longleftrightarrow> pg_trailer_seen p \<and> pg_clean_end p"

record ('s, 'z, 'g) extract_env =
  xe_dv :: "('s, 'z, 'g) dv_env"
  xe_decoded :: "nat \<Rightarrow> 's \<Rightarrow> 's"
  xe_trailer :: "'s \<Rightarrow> 's"
  xe_nfc :: "ustr \<Rightarrow> ustr"

subsection \<open>The ceiling on decoded bytes\<close>

record ('s, 'z, 'g) limited =
  lm_inner :: "('s, 'z, 'g) dv_body"
  lm_total :: nat
  lm_limit :: nat

definition sn_map :: "('s \<Rightarrow> 's) \<Rightarrow> 's sniffed \<Rightarrow> 's sniffed" where [eval_defs]:
  "sn_map f sn = sn\<lparr>sn_source := (sn_source sn)\<lparr>ds_inner := f (ds_inner (sn_source sn))\<rparr>\<rparr>"

definition dv_map :: "('s \<Rightarrow> 's) \<Rightarrow> ('s, 'z, 'g) dv_body \<Rightarrow> ('s, 'z, 'g) dv_body" where [eval_defs]:
  "dv_map f d = (case d of Gzip g sn \<Rightarrow> Gzip g (sn_map f sn) | Blocks sn b \<Rightarrow> Blocks (sn_map f sn) b)"

definition limited_read :: "('s, 'z, 'g) extract_env \<Rightarrow> ('s, 'z, 'g) limited reader" where [eval_defs]:
  "limited_read env lm n =
     (let room = lm_limit lm - lm_total lm + 1; want = min n room
      in (case dv_read (xe_dv env) (lm_inner lm) want of
            None \<Rightarrow> None
          | Some (Err e, d) \<Rightarrow> Some (Err e, lm\<lparr>lm_inner := d\<rparr>)
          | Some (Ok bs, d) \<Rightarrow>
              (let total = lm_total lm + length bs;
                   lm' = lm\<lparr>lm_inner := dv_map (xe_decoded env total) d, lm_total := total\<rparr>
               in if total > lm_limit lm
                  then Some (Err (OfLimit [T ''decompressed archive exceeds '', Num (lm_limit lm), T ''-byte limit'']), lm')
                  else Some (Ok bs, lm'))))"

subsection \<open>The download directory\<close>

definition tick :: "disk \<Rightarrow> disk" where [eval_defs]:
  "tick dk = dk\<lparr>dk_tick := Suc (dk_tick dk)\<rparr>"

definition tempfile_in :: "os \<Rightarrow> disk \<Rightarrow> (ustr, io_error) result \<times> disk" where [eval_defs]:
  "tempfile_in os dk =
     (case os_temp os (dk_tick dk) (dk_files dk) of
        Err e \<Rightarrow> (Err e, tick dk)
      | Ok path \<Rightarrow> (Ok path, (tick dk)\<lparr>dk_files := (dk_files dk)(path \<mapsto> [])\<rparr>))"

definition free_bytes :: "os \<Rightarrow> disk \<Rightarrow> (nat, io_error) result \<times> disk" where [eval_defs]:
  "free_bytes os dk = (os_free os (dk_tick dk), tick dk)"

definition file_append :: "ustr \<Rightarrow> bytes \<Rightarrow> files \<Rightarrow> files" where [eval_defs]:
  "file_append path bs files = (case files path of None \<Rightarrow> files | Some old \<Rightarrow> files(path \<mapsto> old @ bs))"

definition file_write_all :: "os \<Rightarrow> ustr \<Rightarrow> bytes \<Rightarrow> disk \<Rightarrow> (unit, io_error) result \<times> disk" where [eval_defs]:
  "file_write_all os path bs dk =
     (case os_write os (dk_tick dk) of
        None \<Rightarrow> (Ok (), (tick dk)\<lparr>dk_files := file_append path bs (dk_files dk)\<rparr>)
      | Some (k, e) \<Rightarrow> (Err e, (tick dk)\<lparr>dk_files := file_append path (take k bs) (dk_files dk)\<rparr>))"

definition remove_file :: "os \<Rightarrow> ustr \<Rightarrow> disk \<Rightarrow> disk" where [eval_defs]:
  "remove_file os path dk =
     (if os_unlink os (dk_tick dk) then (tick dk)\<lparr>dk_files := (dk_files dk)(path := None)\<rparr> else tick dk)"

text \<open>\<open>persist_noclobber\<close>: the temporary file takes the new name unless that exists.\<close>

definition persist_noclobber :: "os \<Rightarrow> ustr \<Rightarrow> ustr \<Rightarrow> disk \<Rightarrow> (unit, io_error) result \<times> disk" where [eval_defs]:
  "persist_noclobber os temp new dk =
     (if dk_files dk new \<noteq> None then (Err (Plain AlreadyExists [T ''file exists'']), tick dk)
      else (case os_place os (dk_tick dk) of
              Some e \<Rightarrow> (Err e, tick dk)
            | None \<Rightarrow> (Ok (), (tick dk)\<lparr>dk_files := (dk_files dk)(temp := None, new := dk_files dk temp)\<rparr>)))"

text \<open>\<open>Partials\<close>: the registry of files in progress.\<close>

definition partials_add :: "ustr \<Rightarrow> disk \<Rightarrow> disk" where [eval_defs]:
  "partials_add path dk = dk\<lparr>dk_partials := dk_partials dk @ [path]\<rparr>"

definition partials_forget :: "ustr \<Rightarrow> disk \<Rightarrow> disk" where [eval_defs]:
  "partials_forget path dk = dk\<lparr>dk_partials := filter (\<lambda>p. p \<noteq> path) (dk_partials dk)\<rparr>"

definition partials_remove_all :: "os \<Rightarrow> disk \<Rightarrow> disk" where [eval_defs]:
  "partials_remove_all os dk = fold (remove_file os) (dk_partials dk) (dk\<lparr>dk_partials := []\<rparr>)"

text \<open>
  \<open>sweep_partials\<close>: \<open>entries\<close> is what \<open>read_dir\<close> yields, each entry with its metadata (a regular file?
  its owner) unless it vanished.
\<close>

definition sweep_entry :: "os \<Rightarrow> nat \<Rightarrow> ustr \<times> (bool \<times> nat) option \<Rightarrow> nat \<times> disk \<Rightarrow> nat \<times> disk" where [eval_defs]:
  "sweep_entry os uid entry st =
     (case (entry, st) of ((name, meta), removed, dk) \<Rightarrow>
       if \<not> starts_with name PARTIAL_PREFIX then (removed, dk)
       else (case meta of
               None \<Rightarrow> (removed, dk)
             | Some (regular, owner) \<Rightarrow>
                 if regular \<and> owner = uid
                 then (if os_unlink os (dk_tick dk) \<and> dk_files dk name \<noteq> None then removed + 1 else removed,
                       remove_file os name dk)
                 else (removed, dk)))"

definition sweep_partials :: "os \<Rightarrow> nat \<Rightarrow> ((ustr \<times> (bool \<times> nat) option) list, io_error) result \<Rightarrow> disk
    \<Rightarrow> (nat, io_error) result \<times> disk" where [eval_defs]:
  "sweep_partials os uid entries dk =
     (case entries of
        Err e \<Rightarrow> (Err e, dk)
      | Ok es \<Rightarrow> (let (removed, dk') = fold (sweep_entry os uid) es (0, dk) in (Ok removed, dk')))"

text \<open>\<open>open_new\<close>: the first candidate name that does not exist is created, empty.\<close>

fun open_first :: "os \<Rightarrow> ustr list \<Rightarrow> ustr \<Rightarrow> disk \<Rightarrow> (ustr, io_error) result \<times> disk" where
  "open_first os [] name dk = (Err (Plain AlreadyExists [Txt name, T '': no free name'']), dk)"
| "open_first os (candidate # rest) name dk =
     (if dk_files dk candidate \<noteq> None then open_first os rest name (tick dk)
      else (case os_place os (dk_tick dk) of
              None \<Rightarrow> (Ok candidate, (tick dk)\<lparr>dk_files := (dk_files dk)(candidate \<mapsto> [])\<rparr>)
            | Some e \<Rightarrow> if error_kind_of e = AlreadyExists then open_first os rest name (tick dk) else (Err e, tick dk)))"

definition open_new :: "os \<Rightarrow> ustr \<Rightarrow> disk \<Rightarrow> (ustr, io_error) result \<times> disk" where [eval_defs]:
  "open_new os name dk = open_first os (candidate_names name) name dk"

subsection \<open>One member\<close>

type_synonym ('s, 'z, 'g) archive = "('s, 'z, 'g) limited cpio_reader"

definition disk_check :: "os \<Rightarrow> msg \<Rightarrow> nat \<Rightarrow> disk \<Rightarrow> (unit, archive_error) result \<times> disk" where [eval_defs]:
  "disk_check os label min_free dk =
     (case free_bytes os dk of
        (Err e, dk') \<Rightarrow> (Err (archive_error_of_io e), dk')
      | (Ok free, dk') \<Rightarrow>
          if free < min (min_free + DISK_CHECK_INTERVAL) u64_max
          then (Err (Limit (label @ [T '' stopped to preserve '', Num min_free, T '' bytes free''])), dk')
          else (Ok (), dk'))"

partial_function (option) write_member :: "('s, 'z, 'g) extract_env \<Rightarrow> os \<Rightarrow> ustr \<Rightarrow> msg \<Rightarrow> nat \<Rightarrow> nat
    \<Rightarrow> ('s, 'z, 'g) archive \<Rightarrow> disk \<Rightarrow> ((unit, archive_error) result \<times> ('s, 'z, 'g) archive \<times> disk) option" where
  "write_member env os path label min_free until_disk_check cpio dk =
     (case read_data (limited_read env) cpio IO_CHUNK_BYTES of
        None \<Rightarrow> None
      | Some (Err e, cpio') \<Rightarrow> Some (Err (archive_error_of_io e), cpio', dk)
      | Some (Ok bs, cpio') \<Rightarrow>
          if bs = [] then Some (Ok (), cpio', dk)
          else (case (if length bs \<ge> until_disk_check then disk_check os label min_free dk else (Ok (), dk)) of
                  (Err e, dk') \<Rightarrow> Some (Err e, cpio', dk')
                | (Ok _, dk') \<Rightarrow>
                    (case file_write_all os path bs dk' of
                       (Err e, dk'') \<Rightarrow> Some (Err (archive_error_of_io e), cpio', dk'')
                     | (Ok _, dk'') \<Rightarrow>
                         write_member env os path label min_free
                           ((if length bs \<ge> until_disk_check then DISK_CHECK_INTERVAL else until_disk_check) - length bs)
                           cpio' dk'')))"

subsection \<open>The whole upload\<close>

text \<open>A member written in full (\<open>Partial\<close>): its final name and the temporary file it is in.\<close>

type_synonym pending = "(ustr \<times> ustr) list"

text \<open>\<open>Drop for Partial\<close>: the \<open>TempPath\<close> unlinks, and the registry forgets.\<close>

definition drop_partial :: "os \<Rightarrow> ustr \<times> ustr \<Rightarrow> disk \<Rightarrow> disk" where [eval_defs]:
  "drop_partial os p dk = partials_forget (snd p) (remove_file os (snd p) dk)"

definition apple_double :: "ustr \<Rightarrow> bool" where [eval_defs]:
  "apple_double path \<longleftrightarrow> starts_with (last (split_by (\<lambda>c. c = 0x2f) path)) (lit ''._'')"

definition over_limit :: "extract_limits \<Rightarrow> cpio_entry \<Rightarrow> nat \<Rightarrow> archive_error option" where [eval_defs]:
  "over_limit limits entry output =
     (if ce_size entry > xl_byte_limit limits
      then Some (Limit [T ''file '', Txt (py_repr (ce_path entry)), T '' declares '', Num (ce_size entry), T '' bytes''])
      else if output + ce_size entry > xl_byte_limit limits
      then Some (Limit [T ''archive declares more than '', Num (xl_byte_limit limits), T '' output bytes''])
      else None)"

text \<open>
  Storing one regular file: the temporary file, its entry in the registry and its data. On an error
  the \<open>Partial\<close> is dropped first (the registry forgets) and then the temporary file (unlinked).
\<close>

definition store_member :: "('s, 'z, 'g) extract_env \<Rightarrow> os \<Rightarrow> extract_limits \<Rightarrow> ustr \<Rightarrow> ('s, 'z, 'g) archive \<Rightarrow> disk
    \<Rightarrow> ((ustr, archive_error) result \<times> ('s, 'z, 'g) archive \<times> disk) option" where [eval_defs]:
  "store_member env os limits name cpio dk =
     (case tempfile_in os dk of
        (Err e, dk') \<Rightarrow> Some (Err (archive_error_of_io e), cpio, dk')
      | (Ok path, dk') \<Rightarrow>
          (case write_member env os path [T ''file '', Txt (py_repr name)] (xl_min_free_bytes limits) 0 cpio
                  (partials_add path dk') of
             None \<Rightarrow> None
           | Some (Err e, cpio', dk'') \<Rightarrow> Some (Err e, cpio', remove_file os path (partials_forget path dk''))
           | Some (Ok _, cpio', dk'') \<Rightarrow> Some (Ok path, cpio', dk'')))"

partial_function (option) extract_members :: "('s, 'z, 'g) extract_env \<Rightarrow> os \<Rightarrow> extract_limits \<Rightarrow> ('s, 'z, 'g) archive
    \<Rightarrow> pending \<Rightarrow> nat \<Rightarrow> nat \<Rightarrow> disk
    \<Rightarrow> ((unit, archive_error) result \<times> ('s, 'z, 'g) archive \<times> pending \<times> disk) option" where
  "extract_members env os limits cpio pending members output dk =
     (case next_entry (limited_read env) cpio of
        None \<Rightarrow> None
      | Some (Err e, cpio') \<Rightarrow> Some (Err e, cpio', pending, dk)
      | Some (Ok None, cpio') \<Rightarrow> Some (Ok (), cpio', pending, dk)
      | Some (Ok (Some entry), cpio') \<Rightarrow>
          (let members' = members + 1
           in if members' > xl_max_members limits
              then Some (Err (Limit [T ''archive exceeds '', Num (xl_max_members limits), T ''-member limit'']),
                         cpio', pending, dk)
              else if \<not> is_file entry \<or> apple_double (ce_path entry)
              then extract_members env os limits cpio' pending members' output dk
              else (case over_limit limits entry output of
                      Some e \<Rightarrow> Some (Err e, cpio', pending, dk)
                    | None \<Rightarrow>
                        let name = safe_name (xe_nfc env) (ce_path entry) (lit ''file'')
                        in (case store_member env os limits name cpio' dk of
                              None \<Rightarrow> None
                            | Some (Err e, cpio'', dk') \<Rightarrow> Some (Err e, cpio'', pending, dk')
                            | Some (Ok path, cpio'', dk') \<Rightarrow>
                                extract_members env os limits cpio'' (pending @ [(name, path)]) members'
                                  (output + ce_size entry) dk'))))"

text \<open>Giving the files their real names: the first candidate that is free.\<close>

fun place_first :: "os \<Rightarrow> ustr \<Rightarrow> ustr list \<Rightarrow> disk \<Rightarrow> (ustr option, io_error) result \<times> disk" where
  "place_first os temp [] dk = (Ok None, dk)"
| "place_first os temp (candidate # rest) dk =
     (case persist_noclobber os temp candidate dk of
        (Ok _, dk') \<Rightarrow> (Ok (Some candidate), dk')
      | (Err e, dk') \<Rightarrow> if error_kind_of e = AlreadyExists then place_first os temp rest dk' else (Err e, dk'))"

text \<open>
  On an error the temporary file at hand is unlinked, the registry forgets it, and the remaining
  partials are dropped in order.
\<close>

fun place_all :: "os \<Rightarrow> pending \<Rightarrow> ustr list \<Rightarrow> disk \<Rightarrow> (unit, io_error) result \<times> ustr list \<times> disk" where
  "place_all os [] stored dk = (Ok (), stored, dk)"
| "place_all os ((name, temp) # rest) stored dk =
     (case place_first os temp (candidate_names name) dk of
        (Err e, dk') \<Rightarrow>
          (Err e, stored, fold (drop_partial os) rest (partials_forget temp (remove_file os temp dk')))
      | (Ok None, dk') \<Rightarrow>
          (Err (Plain AlreadyExists [Txt name, T '': no free name'']), stored,
           fold (drop_partial os) rest (remove_file os temp (partials_forget temp dk')))
      | (Ok (Some candidate), dk') \<Rightarrow> place_all os rest (stored @ [candidate]) (partials_forget temp dk'))"

text \<open>The whole of \<open>extract\<close>, with the body as it is left; \<open>extract_archive\<close> is its result and the disk.\<close>

definition dv_base :: "('s, 'z, 'g) dv_body \<Rightarrow> 's" where [eval_defs]:
  "dv_base d = (case d of Gzip _ sn \<Rightarrow> ds_inner (sn_source sn) | Blocks sn _ \<Rightarrow> ds_inner (sn_source sn))"

abbreviation archive_base :: "('s, 'z, 'g) archive \<Rightarrow> 's" where
  "archive_base cpio \<equiv> dv_base (lm_inner (cr_inner cpio))"

definition extract_run :: "('s, 'z, 'g) extract_env \<Rightarrow> os \<Rightarrow> extract_limits \<Rightarrow> 's \<Rightarrow> disk
    \<Rightarrow> ((extracted, archive_error) result \<times> 's \<times> disk) option" where [eval_defs]:
  "extract_run env os limits body dk =
     (case dv_new (xe_dv env) body of
        None \<Rightarrow> None
      | Some (Err e, body') \<Rightarrow> Some (Err (archive_error_of_io e), body', dk)
      | Some (Ok decoder, _) \<Rightarrow>
          (case extract_members env os limits
                  (cpio_new \<lparr>lm_inner = decoder, lm_total = 0, lm_limit = xl_byte_limit limits\<rparr>) [] 0 0 dk of
             None \<Rightarrow> None
           | Some (Err e, cpio, pending, dk') \<Rightarrow> Some (Err e, archive_base cpio, fold (drop_partial os) pending dk')
           | Some (Ok _, cpio, pending, dk') \<Rightarrow>
               (let rest = (cr_inner cpio)\<lparr>lm_inner := dv_map (xe_trailer env) (lm_inner (cr_inner cpio))\<rparr>
                in (case copy_sink (limited_read env) None rest 0 of
                      None \<Rightarrow> None
                    | Some (drained, rest') \<Rightarrow>
                        (case (case drained of Ok _ \<Rightarrow> Ok False
                               | Err e \<Rightarrow> if e = OfBody BodyComplete then Ok True else Err (archive_error_of_io e)) of
                           Err e \<Rightarrow> Some (Err e, dv_base (lm_inner rest'), fold (drop_partial os) pending dk')
                         | Ok unterminated \<Rightarrow>
                             (case place_all os pending [] dk' of
                                (Err e, stored, dk'') \<Rightarrow>
                                  Some (Err (Io e), dv_base (lm_inner rest'), fold (remove_file os) (rev stored) dk'')
                              | (Ok _, stored, dk'') \<Rightarrow>
                                  Some (Ok \<lparr>ex_names = stored, ex_decoded_bytes = lm_total rest',
                                            ex_magic = cr_magic cpio, ex_unterminated = unterminated\<rparr>,
                                        dv_base (lm_inner rest'), dk'')))))))"

definition extract_archive :: "('s, 'z, 'g) extract_env \<Rightarrow> os \<Rightarrow> extract_limits \<Rightarrow> 's \<Rightarrow> disk
    \<Rightarrow> ((extracted, archive_error) result \<times> disk) option" where [eval_defs]:
  "extract_archive env os limits body dk =
     map_option (\<lambda>(r, _, dk'). (r, dk')) (extract_run env os limits body dk)"

lemma extract_archive_unfold:
  "extract_archive env os limits body dk =
     (case dv_new (xe_dv env) body of
        None \<Rightarrow> None
      | Some (Err e, _) \<Rightarrow> Some (Err (archive_error_of_io e), dk)
      | Some (Ok decoder, _) \<Rightarrow>
          (case extract_members env os limits
                  (cpio_new \<lparr>lm_inner = decoder, lm_total = 0, lm_limit = xl_byte_limit limits\<rparr>) [] 0 0 dk of
             None \<Rightarrow> None
           | Some (Err e, _, pending, dk') \<Rightarrow> Some (Err e, fold (drop_partial os) pending dk')
           | Some (Ok _, cpio, pending, dk') \<Rightarrow>
               (let rest = (cr_inner cpio)\<lparr>lm_inner := dv_map (xe_trailer env) (lm_inner (cr_inner cpio))\<rparr>
                in (case copy_sink (limited_read env) None rest 0 of
                      None \<Rightarrow> None
                    | Some (drained, rest') \<Rightarrow>
                        (case (case drained of Ok _ \<Rightarrow> Ok False
                               | Err e \<Rightarrow> if e = OfBody BodyComplete then Ok True else Err (archive_error_of_io e)) of
                           Err e \<Rightarrow> Some (Err e, fold (drop_partial os) pending dk')
                         | Ok unterminated \<Rightarrow>
                             (case place_all os pending [] dk' of
                                (Err e, stored, dk'') \<Rightarrow>
                                  Some (Err (Io e), fold (remove_file os) (rev stored) dk'')
                              | (Ok _, stored, dk'') \<Rightarrow>
                                  Some (Ok \<lparr>ex_names = stored, ex_decoded_bytes = lm_total rest',
                                            ex_magic = cr_magic cpio, ex_unterminated = unterminated\<rparr>, dk'')))))))"
  by (auto simp: extract_archive_def extract_run_def Let_def split: option.splits prod.splits result.splits)

subsection \<open>All or nothing\<close>

text \<open>
  What the clean-up relies on: unlinking an existing file works, and the \<open>tempfile\<close> crate makes a
  new file whose name has the prefix it was given.
\<close>

definition os_ok :: "os \<Rightarrow> bool" where
  "os_ok os \<longleftrightarrow> (\<forall>t. os_unlink os t) \<and>
     (\<forall>t files path. os_temp os t files = Ok path \<longrightarrow> files path = None \<and> starts_with path PARTIAL_PREFIX)"

text \<open>
  The directory during an upload: the files that were there, unchanged, and the temporary files
  \<open>temps\<close>, which are also what the upload has added to the registry.
\<close>

definition holds :: "files \<Rightarrow> ustr list \<Rightarrow> ustr list \<Rightarrow> disk \<Rightarrow> bool" where
  "holds F P temps dk \<longleftrightarrow>
     distinct temps \<and> (\<forall>p \<in> set temps. starts_with p PARTIAL_PREFIX \<and> F p = None \<and> p \<notin> set P \<and> dk_files dk p \<noteq> None)
     \<and> dk_partials dk = P @ temps \<and> (\<forall>p. p \<notin> set temps \<longrightarrow> dk_files dk p = F p)"

lemma holds_start: "holds (dk_files dk) (dk_partials dk) [] dk"
  by (simp add: holds_def)

lemma holds_Nil: "holds F P [] dk \<Longrightarrow> dk_files dk = F \<and> dk_partials dk = P"
  by (auto simp: holds_def)

lemma holds_tick [simp]: "holds F P temps (tick dk) = holds F P temps dk"
  by (simp add: holds_def tick_def)

lemma holds_tempfile:
  assumes "os_ok os" "set P \<subseteq> dom F" "holds F P temps dk"
  shows "tempfile_in os dk = (Err e, dk') \<Longrightarrow> holds F P temps dk'"
    and "tempfile_in os dk = (Ok path, dk') \<Longrightarrow> holds F P (temps @ [path]) (partials_add path dk')
      \<and> dk_files dk' path = Some [] \<and> (\<forall>p \<in> set temps. dk_files dk' p = dk_files dk p)"
proof -
  show "tempfile_in os dk = (Err e, dk') \<Longrightarrow> holds F P temps dk'"
    using assms(3) by (auto simp: tempfile_in_def split: result.splits)
  assume t: "tempfile_in os dk = (Ok path, dk')"
  then have "os_temp os (dk_tick dk) (dk_files dk) = Ok path" and dk': "dk' = (tick dk)\<lparr>dk_files := (dk_files dk)(path \<mapsto> [])\<rparr>"
    by (auto simp: tempfile_in_def split: result.splits)
  then have path: "dk_files dk path = None" "starts_with path PARTIAL_PREFIX" using assms(1) by (auto simp: os_ok_def)
  moreover have "path \<notin> set temps" "F path = None" using path(1) assms(3) by (auto simp: holds_def)
  moreover from this have "path \<notin> set P" using assms(2) by auto
  ultimately show "holds F P (temps @ [path]) (partials_add path dk')
      \<and> dk_files dk' path = Some [] \<and> (\<forall>p \<in> set temps. dk_files dk' p = dk_files dk p)"
    using assms(3) by (auto simp: holds_def dk' partials_add_def tick_def)
qed

lemma filter_other: "x \<notin> set xs \<Longrightarrow> filter (\<lambda>p. p \<noteq> x) xs = xs"
  by (induction xs) auto

lemma holds_remove:
  assumes "os_ok os" "holds F P (t1 @ p # t2) dk"
  shows "holds F P (t1 @ t2) (partials_forget p (remove_file os p dk))"
    and "holds F P (t1 @ t2) (remove_file os p (partials_forget p dk))"
  using assms by (auto simp: holds_def partials_forget_def remove_file_def os_ok_def tick_def filter_other)

lemma holds_drop_all:
  assumes "os_ok os" "holds F P (map snd pending) dk"
  shows "holds F P [] (fold (drop_partial os) pending dk)"
  using assms(2)
proof (induction pending arbitrary: dk)
  case (Cons p ps)
  with holds_remove(1) [OF assms(1), of F P "[]" "snd p" "map snd ps" dk] show ?case
    by (simp add: drop_partial_def)
qed simp

definition same_but :: "ustr \<Rightarrow> disk \<Rightarrow> disk \<Rightarrow> bool" where
  "same_but path dk dk' \<longleftrightarrow> dk_partials dk' = dk_partials dk \<and> (\<forall>p. p \<noteq> path \<longrightarrow> dk_files dk' p = dk_files dk p)
     \<and> (dk_files dk path \<noteq> None \<longrightarrow> dk_files dk' path \<noteq> None)"

lemma same_but_refl [simp]: "same_but path dk dk"
  by (simp add: same_but_def)

lemma same_but_trans: "same_but path dk1 dk2 \<Longrightarrow> same_but path dk2 dk3 \<Longrightarrow> same_but path dk1 dk3"
  by (simp add: same_but_def)

lemma disk_check_disk: "disk_check os label mf dk = (r, dk') \<Longrightarrow> dk' = tick dk"
  by (auto simp: disk_check_def free_bytes_def split: result.splits if_splits)

lemma same_but_disk_check: "disk_check os label mf dk = (r, dk') \<Longrightarrow> same_but path dk dk' \<and> dk_files dk' = dk_files dk"
  by (auto dest!: disk_check_disk simp: same_but_def tick_def)

lemma same_but_write:
  "file_write_all os path bs dk = (r, dk') \<Longrightarrow> same_but path dk dk' \<and>
   (\<forall>u. r = Ok u \<longrightarrow> dk_files dk' path = map_option (\<lambda>old. old @ bs) (dk_files dk path))"
  by (auto simp: file_write_all_def file_append_def same_but_def tick_def split: option.splits)

definition reader_bounded :: "'s reader \<Rightarrow> bool" where
  "reader_bounded rd \<longleftrightarrow> (\<forall>s n bs s'. rd s n = Some (Ok bs, s') \<longrightarrow> length bs \<le> n)"

lemma read_data_end: "read_data rd c n = Some (Ok [], c') \<Longrightarrow> 0 < n \<Longrightarrow> cr_left c = 0 \<and> c' = c"
  by (auto simp: read_data_def Let_def split: if_splits option.splits prod.splits result.splits)

lemma read_data_some:
  "read_data rd c n = Some (Ok bs, c') \<Longrightarrow> bs \<noteq> [] \<Longrightarrow> reader_bounded rd \<Longrightarrow>
   length bs \<le> n \<and> cr_left c = length bs + cr_left c'"
  by (fastforce simp: read_data_def Let_def reader_bounded_def split: if_splits option.splits prod.splits result.splits)

text \<open>What writing a member does to the directory: only its own file grows, by all the member's data.\<close>

definition wrote :: "('s, 'z, 'g) extract_env \<Rightarrow> ustr \<Rightarrow> ('s, 'z, 'g) archive \<Rightarrow> disk
    \<Rightarrow> (unit, archive_error) result \<times> ('s, 'z, 'g) archive \<times> disk \<Rightarrow> bool" where
  "wrote env path cpio dk x \<longleftrightarrow>
     (case x of (r, cpio', dk') \<Rightarrow> same_but path dk dk' \<and>
       (reader_bounded (limited_read env) \<and> r = Ok () \<longrightarrow>
          (\<exists>data. dk_files dk' path = map_option (\<lambda>old. old @ data) (dk_files dk path)
             \<and> length data = cr_left cpio \<and> cr_left cpio' = 0)))"

lemma wrote_more:
  assumes "read_data (limited_read env) cpio IO_CHUNK_BYTES = Some (Ok bs, cpio1)" "bs \<noteq> []"
    "same_but path dk dk1" "dk_files dk1 = dk_files dk" "same_but path dk1 dk2"
    "dk_files dk2 path = map_option (\<lambda>old. old @ bs) (dk_files dk1 path)" "wrote env path cpio1 dk2 x"
  shows "wrote env path cpio dk x"
proof -
  obtain r cpio' dk' where x: "x = (r, cpio', dk')" by (cases x)
  have same: "same_but path dk dk'"
    using assms(3,5,7) by (auto simp: x wrote_def intro: same_but_trans)
  have "\<exists>data. dk_files dk' path = map_option (\<lambda>old. old @ data) (dk_files dk path) \<and> length data = cr_left cpio
      \<and> cr_left cpio' = 0" if b: "reader_bounded (limited_read env)" "r = Ok ()"
  proof -
    from assms(7) b obtain data where "dk_files dk' path = map_option (\<lambda>old. old @ data) (dk_files dk2 path)"
      "length data = cr_left cpio1" "cr_left cpio' = 0" by (auto simp: wrote_def x)
    with assms(4,6) read_data_some [OF assms(1,2) b(1)] show ?thesis
      by (intro exI [of _ "bs @ data"]) (auto simp: option.map_comp comp_def)
  qed
  with same show ?thesis by (simp add: wrote_def x)
qed

lemma write_member_wrote:
  assumes "write_member env os path label mf ud cpio dk = Some x"
  shows "wrote env path cpio dk x"
proof (rule write_member.raw_induct [of "\<lambda>env os path label mf ud cpio dk x. wrote env path cpio dk x", OF _ assms])
  fix f and env :: "('a, 'b, 'c) extract_env" and os :: os and path label mf ud
    and cpio :: "('a, 'b, 'c) archive" and dk x
  assume ih: "\<And>env os path label mf ud cpio dk x. f env os path label mf ud cpio dk = Some x \<Longrightarrow> wrote env path cpio dk x"
    and eq: "(case read_data (limited_read env) cpio IO_CHUNK_BYTES of
        None \<Rightarrow> None
      | Some (Err e, cpio') \<Rightarrow> Some (Err (archive_error_of_io e), cpio', dk)
      | Some (Ok bs, cpio') \<Rightarrow>
          if bs = [] then Some (Ok (), cpio', dk)
          else (case (if length bs \<ge> ud then disk_check os label mf dk else (Ok (), dk)) of
                  (Err e, dk') \<Rightarrow> Some (Err e, cpio', dk')
                | (Ok _, dk') \<Rightarrow>
                    (case file_write_all os path bs dk' of
                       (Err e, dk'') \<Rightarrow> Some (Err (archive_error_of_io e), cpio', dk'')
                     | (Ok _, dk'') \<Rightarrow>
                         f env os path label mf ((if length bs \<ge> ud then DISK_CHECK_INTERVAL else ud) - length bs)
                           cpio' dk''))) = Some x"
  obtain r cpio1 where rd: "read_data (limited_read env) cpio IO_CHUNK_BYTES = Some (r, cpio1)"
    using eq by (cases "read_data (limited_read env) cpio IO_CHUNK_BYTES") auto
  show "wrote env path cpio dk x"
  proof (cases "\<exists>bs. r = Ok bs \<and> bs \<noteq> []")
    case False
    have "0 < IO_CHUNK_BYTES" by (simp add: IO_CHUNK_BYTES_def)
    with False eq rd read_data_end [of "limited_read env" cpio IO_CHUNK_BYTES cpio1] show ?thesis
      by (cases r) (auto simp: wrote_def option.map_ident)
  next
    case True
    then obtain bs where bs: "r = Ok bs" "bs \<noteq> []" by blast
    obtain rc dk1 where ck: "(if length bs \<ge> ud then disk_check os label mf dk else (Ok (), dk)) = (rc, dk1)"
      by (cases "if length bs \<ge> ud then disk_check os label mf dk else (Ok (), dk)")
    have dk1: "same_but path dk dk1" "dk_files dk1 = dk_files dk"
      using ck same_but_disk_check [of os label mf dk rc dk1 path] by (auto split: if_splits)
    obtain rw dk2 where wr: "file_write_all os path bs dk1 = (rw, dk2)" by (cases "file_write_all os path bs dk1")
    have dk2: "same_but path dk1 dk2" "rw = Ok u \<Longrightarrow> dk_files dk2 path = map_option (\<lambda>old. old @ bs) (dk_files dk1 path)" for u
      using same_but_write [OF wr] by auto
    have "same_but path dk dk2" by (rule same_but_trans [OF dk1(1) dk2(1)])
    show ?thesis
    proof (cases "rc = Ok () \<and> rw = Ok ()")
      case True
      then have "f env os path label mf ((if length bs \<ge> ud then DISK_CHECK_INTERVAL else ud) - length bs) cpio1 dk2 = Some x"
        using eq rd bs ck wr by simp
      from wrote_more [OF rd [unfolded bs(1)] bs(2) dk1 dk2(1) _ ih [OF this]] dk2(2) True show ?thesis by simp
    next
      case False
      then have "\<exists>e c d. x = (Err e, c, d) \<and> same_but path dk d"
        using eq rd bs ck wr dk1(1) \<open>same_but path dk dk2\<close> by (cases rc; cases rw) auto
      then show ?thesis by (auto simp: wrote_def)
    qed
  qed
qed

lemma holds_same_but:
  assumes "holds F P (temps @ [path]) dk" "same_but path dk dk'"
  shows "holds F P (temps @ [path]) dk'" "\<forall>p \<in> set temps. dk_files dk' p = dk_files dk p"
  using assms by (auto simp: holds_def same_but_def)

lemma store_member_holds:
  assumes ok: "os_ok os" "set P \<subseteq> dom F" "holds F P temps dk"
    and st: "store_member env os limits name cpio dk = Some (r, cpio', dk')"
  shows "(case r of Err e \<Rightarrow> holds F P temps dk' | Ok path \<Rightarrow> holds F P (temps @ [path]) dk')
    \<and> (\<forall>p \<in> set temps. dk_files dk' p = dk_files dk p)
    \<and> (\<forall>path. r = Ok path \<and> reader_bounded (limited_read env) \<longrightarrow> length (the (dk_files dk' path)) = cr_left cpio)"
proof -
  obtain rt dk1 where t: "tempfile_in os dk = (rt, dk1)" by (cases "tempfile_in os dk")
  show ?thesis
  proof (cases rt)
    case (Err e)
    with st t holds_tempfile(1) [OF ok t [unfolded Err]] show ?thesis
      by (auto simp: store_member_def tempfile_in_def tick_def split: result.splits)
  next
    case (Ok path)
    define dk2 where "dk2 = partials_add path dk1"
    have h: "holds F P (temps @ [path]) dk2" "dk_files dk2 path = Some []" "\<forall>p \<in> set temps. dk_files dk2 p = dk_files dk p"
      using holds_tempfile(2) [OF ok t [unfolded Ok]] by (simp_all add: dk2_def partials_add_def)
    obtain rw cpio2 dk3 where w: "write_member env os path [T ''file '', Txt (py_repr name)] (xl_min_free_bytes limits) 0 cpio dk2
        = Some (rw, cpio2, dk3)"
      using st by (cases "write_member env os path [T ''file '', Txt (py_repr name)] (xl_min_free_bytes limits) 0 cpio dk2")
        (auto simp: store_member_def t Ok dk2_def)
    have wr: "wrote env path cpio dk2 (rw, cpio2, dk3)" by (rule write_member_wrote [OF w])
    then have h3: "holds F P (temps @ [path]) dk3" "\<forall>p \<in> set temps. dk_files dk3 p = dk_files dk p"
      using holds_same_but [OF h(1), of dk3] h(3) by (auto simp: wrote_def)
    show ?thesis
    proof (cases rw)
      case (Err e)
      have "path \<notin> set temps" using h3(1) by (simp add: holds_def)
      with st w Err Ok t h3 holds_remove(2) [OF ok(1), of F P temps path "[]" dk3] show ?thesis
        by (auto simp: store_member_def dk2_def remove_file_def partials_forget_def tick_def split: if_splits)
    next
      case (Ok u)
      with st w h3 h(2) wr \<open>rt = result.Ok path\<close> t show ?thesis
        by (auto simp: store_member_def wrote_def simp flip: dk2_def)
    qed
  qed
qed

definition temp_bytes :: "disk \<Rightarrow> pending \<Rightarrow> nat" where
  "temp_bytes dk pending = sum_list (map (\<lambda>p. length (the (dk_files dk (snd p)))) pending)"

lemma temp_bytes_cong: "\<forall>p \<in> set (map snd pending). dk_files dk' p = dk_files dk p \<Longrightarrow> temp_bytes dk' pending = temp_bytes dk pending"
  unfolding temp_bytes_def by (intro arg_cong [of _ _ sum_list] map_cong) auto

definition upload_inv :: "files \<Rightarrow> ustr list \<Rightarrow> extract_limits \<Rightarrow> bool \<Rightarrow> pending \<Rightarrow> nat \<Rightarrow> nat \<Rightarrow> disk \<Rightarrow> bool" where
  "upload_inv F P limits bounded pending members output dk \<longleftrightarrow>
     holds F P (map snd pending) dk \<and> (\<forall>p \<in> set pending. file_name_ok (fst p))
     \<and> length pending \<le> members \<and> members \<le> xl_max_members limits \<and> output \<le> xl_byte_limit limits
     \<and> (bounded \<longrightarrow> temp_bytes dk pending = output)"

lemma next_entry_left:
  "next_entry rd c = Some (Ok (Some entry), c') \<Longrightarrow> cr_left c' = ce_size entry"
  by (auto simp: next_entry_def and_then_def Let_def split: option.splits prod.splits result.splits if_splits)

lemma upload_inv_store:
  assumes ok: "os_ok os" "set P \<subseteq> dom F"
    and inv: "upload_inv F P limits (reader_bounded (limited_read env)) pending members output dk"
    and entry: "members + 1 \<le> xl_max_members limits" "over_limit limits entry output = None" "cr_left cpio = ce_size entry"
    and st: "store_member env os limits (safe_name nfc (ce_path entry) (lit ''file'')) cpio dk = Some (Ok path, cpio', dk')"
  shows "upload_inv F P limits (reader_bounded (limited_read env))
    (pending @ [(safe_name nfc (ce_path entry) (lit ''file''), path)]) (members + 1) (output + ce_size entry) dk'"
proof -
  have h: "holds F P (map snd pending) dk" using inv by (simp add: upload_inv_def)
  note s = store_member_holds [OF ok h st]
  have "file_name_ok (lit ''file'')" by (simp add: eval_defs)
  then have name: "file_name_ok (safe_name nfc (ce_path entry) (lit ''file''))"
    using safe_name_cases [of nfc "ce_path entry" "lit ''file''"] by auto
  have "temp_bytes dk' pending = temp_bytes dk pending" using s by (intro temp_bytes_cong) auto
  with inv s entry name show ?thesis
    by (auto simp: upload_inv_def temp_bytes_def over_limit_def split: if_splits)
qed

definition upload_kept :: "files \<Rightarrow> ustr list \<Rightarrow> extract_limits \<Rightarrow> bool
    \<Rightarrow> (unit, archive_error) result \<times> ('s, 'z, 'g) archive \<times> pending \<times> disk \<Rightarrow> bool" where
  "upload_kept F P limits bounded x \<longleftrightarrow>
     (case x of (r, cpio, pending, dk) \<Rightarrow> \<exists>members output. upload_inv F P limits bounded pending members output dk)"

lemma upload_keptI:
  "upload_inv F P limits bounded pending members output dk \<Longrightarrow> upload_kept F P limits bounded (r, cpio, pending, dk)"
  by (auto simp: upload_kept_def)

lemma upload_inv_disk:
  assumes "upload_inv F P limits bounded pending members output dk" "holds F P (map snd pending) dk'"
    "\<forall>p \<in> set (map snd pending). dk_files dk' p = dk_files dk p"
  shows "upload_inv F P limits bounded pending members output dk'"
  using assms temp_bytes_cong [OF assms(3)] by (simp add: upload_inv_def)

lemma extract_members_turn:
  assumes ok: "os_ok os" "set P \<subseteq> dom F"
    and inv: "upload_inv F P limits bounded pending members out dk" "bounded = reader_bounded (limited_read env)"
    and again: "\<And>c p m z d. f c p m z d = Some x \<Longrightarrow> upload_inv F P limits bounded p m z d \<Longrightarrow> upload_kept F P limits bounded x"
    and eq: "(case next_entry (limited_read env) cpio of
        None \<Rightarrow> None
      | Some (Err e, cpio') \<Rightarrow> Some (Err e, cpio', pending, dk)
      | Some (Ok None, cpio') \<Rightarrow> Some (Ok (), cpio', pending, dk)
      | Some (Ok (Some entry), cpio') \<Rightarrow>
          (let members' = members + 1
           in if members' > xl_max_members limits
              then Some (Err (Limit [T ''archive exceeds '', Num (xl_max_members limits), T ''-member limit'']),
                         cpio', pending, dk)
              else if \<not> is_file entry \<or> apple_double (ce_path entry)
              then f cpio' pending members' out dk
              else (case over_limit limits entry out of
                      Some e \<Rightarrow> Some (Err e, cpio', pending, dk)
                    | None \<Rightarrow>
                        let name = safe_name (xe_nfc env) (ce_path entry) (lit ''file'')
                        in (case store_member env os limits name cpio' dk of
                              None \<Rightarrow> None
                            | Some (Err e, cpio'', dk') \<Rightarrow> Some (Err e, cpio'', pending, dk')
                            | Some (Ok path, cpio'', dk') \<Rightarrow>
                                f cpio'' (pending @ [(name, path)]) members' (out + ce_size entry) dk')))) = Some x"
  shows "upload_kept F P limits bounded x"
proof -
  have h: "holds F P (map snd pending) dk" using inv(1) by (simp add: upload_inv_def)
  obtain r cpio1 where ne: "next_entry (limited_read env) cpio = Some (r, cpio1)"
    using eq by (cases "next_entry (limited_read env) cpio") auto
  consider (stop) c r' where "x = (r', c, pending, dk)"
    | (skip) "f cpio1 pending (members + 1) out dk = Some x" "members + 1 \<le> xl_max_members limits"
    | (fail) entry :: cpio_entry and e c d where "store_member env os limits (safe_name (xe_nfc env) (ce_path entry) (lit ''file'')) cpio1 dk
         = Some (Err e, c, d)" "x = (Err e, c, pending, d)"
    | (store) entry path c d where "r = Ok (Some entry)" "members + 1 \<le> xl_max_members limits" "over_limit limits entry out = None"
        "store_member env os limits (safe_name (xe_nfc env) (ce_path entry) (lit ''file'')) cpio1 dk = Some (Ok path, c, d)"
        "f c (pending @ [(safe_name (xe_nfc env) (ce_path entry) (lit ''file''), path)]) (members + 1) (out + ce_size entry) d = Some x"
  proof (cases "\<exists>entry. r = Ok (Some entry) \<and> members + 1 \<le> xl_max_members limits \<and> is_file entry
      \<and> \<not> apple_double (ce_path entry) \<and> over_limit limits entry out = None")
    case False
    with eq ne that(1,2) show thesis
      by (auto simp: Let_def split: result.split_asm option.split_asm if_split_asm)
  next
    case True
    then obtain entry where entry: "r = Ok (Some entry)" "members + 1 \<le> xl_max_members limits" "is_file entry"
      "\<not> apple_double (ce_path entry)" "over_limit limits entry out = None" by blast
    let ?name = "safe_name (xe_nfc env) (ce_path entry) (lit ''file'')"
    obtain rs c d where st: "store_member env os limits ?name cpio1 dk = Some (rs, c, d)"
      using eq ne entry by (cases "store_member env os limits ?name cpio1 dk") (auto simp: Let_def)
    with eq ne entry that(3) [of entry] that(4) [of entry] show thesis
      by (cases rs) (simp_all add: Let_def)
  qed
  then show ?thesis
  proof cases
    case stop
    with inv(1) show ?thesis by (auto intro: upload_keptI)
  next
    case skip
    with inv(1) show ?thesis by (intro again [OF skip(1)]) (auto simp: upload_inv_def)
  next
    case fail
    with upload_inv_disk [OF inv(1)] store_member_holds [OF ok h fail(1)] show ?thesis
      by (auto intro: upload_keptI)
  next
    case store
    from next_entry_left [OF ne [unfolded store(1)]] upload_inv_store [OF ok inv(1) [unfolded inv(2)] store(2,3) _ store(4)]
    show ?thesis by (intro again [OF store(5)]) (simp add: inv(2))
  qed
qed

lemma extract_members_kept:
  assumes "extract_members env os limits cpio pending members out dk = Some x"
    and "os_ok os" "set P \<subseteq> dom F"
    and "upload_inv F P limits (reader_bounded (limited_read env)) pending members out dk"
  shows "upload_kept F P limits (reader_bounded (limited_read env)) x"
proof -
  define Q where "Q env' os' limits' cpio pending members out dk x \<longleftrightarrow>
      (env' = env \<and> os' = os \<and> limits' = limits \<and> upload_inv F P limits (reader_bounded (limited_read env)) pending members out dk
       \<longrightarrow> upload_kept F P limits (reader_bounded (limited_read env)) x)"
    for env' os' limits' and cpio :: "('a, 'b, 'c) archive" and pending members out dk
      and x :: "(unit, archive_error) result \<times> ('a, 'b, 'c) archive \<times> pending \<times> disk"
  have "Q env os limits cpio pending members out dk x"
  proof (rule extract_members.raw_induct [of Q, OF _ assms(1)], goal_cases)
    case (1 f env' os' limits' cpio pending members out dk x)
    show ?case unfolding Q_def
    proof (intro impI, elim conjE)
      assume same: "env' = env" "os' = os" "limits' = limits"
        and inv: "upload_inv F P limits (reader_bounded (limited_read env)) pending members out dk"
      show "upload_kept F P limits (reader_bounded (limited_read env)) x"
        by (rule extract_members_turn [OF assms(2,3) inv refl _ 1(2) [unfolded same]])
          (use 1(1) in \<open>auto simp: Q_def\<close>)
    qed
  qed
  with assms(4) show ?thesis by (simp add: Q_def)
qed

lemma visible_not_partial: "visible_name n \<Longrightarrow> \<not> starts_with n PARTIAL_PREFIX"
  by (cases n) (auto simp: visible_name_def PARTIAL_PREFIX_def lit_def)

lemma candidates_visible: "file_name_ok name \<Longrightarrow> c \<in> set (candidate_names name) \<Longrightarrow> visible_name c"
  by (auto simp: candidate_names_def file_name_ok_def intro: candidate_name_visible)

lemma place_first_spec:
  assumes "holds F P (temp # rest) dk" "\<forall>c \<in> set cs. visible_name c" "place_first os temp cs dk = (r, dk')"
  shows "case r of
      Ok (Some c) \<Rightarrow> visible_name c \<and> F c = None \<and> (\<forall>p \<in> set rest. dk_files dk' p = dk_files dk p)
        \<and> holds (F(c \<mapsto> the (dk_files dk temp))) P rest (partials_forget temp dk')
    | _ \<Rightarrow> holds F P (temp # rest) dk'"
  using assms
proof (induction cs arbitrary: dk)
  case Nil
  then show ?case by auto
next
  case (Cons c cs)
  note h = Cons(2)
  have vis: "visible_name c" using Cons(3) by simp
  then have c: "c \<noteq> temp" "c \<notin> set rest" using h visible_not_partial by (auto simp: holds_def)
  obtain rp dk1 where p: "persist_noclobber os temp c dk = (rp, dk1)" by (cases "persist_noclobber os temp c dk")
  show ?case
  proof (cases rp)
    case (Err e)
    then have "holds F P (temp # rest) dk1" "dk_files dk1 = dk_files dk"
      using p h by (auto simp: persist_noclobber_def tick_def holds_def split: if_splits option.splits)
    with Cons(1) [of dk1] Cons(3,4) p Err show ?thesis by (auto split: if_splits result.splits option.splits)
  next
    case (Ok u)
    then have dk1: "dk1 = (tick dk)\<lparr>dk_files := (dk_files dk)(temp := None, c := dk_files dk temp)\<rparr>" "dk_files dk c = None"
      using p by (auto simp: persist_noclobber_def split: if_splits option.splits)
    have "F c = None" "temp \<notin> set rest" "dk_files dk temp \<noteq> None" using dk1(2) c h by (auto simp: holds_def)
    with Cons(4) p Ok vis h c dk1(1) show ?thesis
      by (auto simp: holds_def partials_forget_def tick_def filter_other)
  qed
qed

lemma place_all_spec:
  assumes "os_ok os" "holds F P (map snd pending) dk" "\<forall>p \<in> set pending. file_name_ok (fst p)"
    "place_all os pending stored dk = (r, stored', dk')"
  shows "\<exists>names contents. stored' = stored @ names \<and> length contents = length names \<and> distinct names
    \<and> (\<forall>n \<in> set names. visible_name n \<and> F n = None) \<and> holds (F(names [\<mapsto>] contents)) P [] dk'
    \<and> (r = Ok () \<longrightarrow> contents = map (\<lambda>p. the (dk_files dk (snd p))) pending)"
  using assms(2-4)
proof (induction pending arbitrary: F dk stored)
  case Nil
  then show ?case by (intro exI [of _ "[]"]) auto
next
  case (Cons p pending)
  obtain name temp where p: "p = (name, temp)" by (cases p)
  obtain rf dk1 where f: "place_first os temp (candidate_names name) dk = (rf, dk1)"
    by (cases "place_first os temp (candidate_names name) dk")
  have h: "holds F P (temp # map snd pending) dk" using Cons(2) p by simp
  have vis: "\<forall>c \<in> set (candidate_names name). visible_name c" using Cons(3) p candidates_visible by auto
  note pf = place_first_spec [OF h vis f]
  show ?case
  proof (cases "\<exists>c. rf = Ok (Some c)")
    case False
    with pf have h1: "holds F P (temp # map snd pending) dk1" by (auto split: result.splits option.splits)
    have "holds F P [] (fold (drop_partial os) pending (partials_forget temp (remove_file os temp dk1)))"
      "holds F P [] (fold (drop_partial os) pending (remove_file os temp (partials_forget temp dk1)))"
      using holds_remove [OF assms(1), of F P "[]" temp "map snd pending" dk1] h1
        holds_drop_all [OF assms(1)] by simp_all
    with Cons(4) False f p show ?thesis
      by (intro exI [of _ "[]"]) (auto split: result.splits option.splits)
  next
    case True
    then obtain c where c: "rf = Ok (Some c)" by blast
    let ?F = "F(c \<mapsto> the (dk_files dk temp))"
    have h1: "holds ?F P (map snd pending) (partials_forget temp dk1)" "visible_name c" "F c = None"
      "\<forall>q \<in> set (map snd pending). dk_files dk1 q = dk_files dk q"
      using pf by (simp_all add: c)
    have fn: "\<forall>p \<in> set pending. file_name_ok (fst p)" using Cons(3) by simp
    have pa: "place_all os pending (stored @ [c]) (partials_forget temp dk1) = (r, stored', dk')"
      using Cons(4) f by (simp add: p c)
    obtain names contents where ih: "stored' = (stored @ [c]) @ names" "length contents = length names" "distinct names"
      "\<forall>n \<in> set names. visible_name n \<and> ?F n = None" "holds (?F(names [\<mapsto>] contents)) P [] dk'"
      "r = Ok () \<longrightarrow> contents = map (\<lambda>p. the (dk_files (partials_forget temp dk1) (snd p))) pending"
      using Cons(1) [OF h1(1) fn pa] by blast
    have "r = Ok () \<longrightarrow> contents = map (\<lambda>p. the (dk_files dk (snd p))) pending"
      using ih(6) h1(4) by (auto simp: partials_forget_def)
    with ih h1 show ?thesis
      by (intro exI [of _ "c # names"] exI [of _ "the (dk_files dk temp) # contents"])
        (auto simp: p split: if_splits)
  qed
qed

lemma remove_files:
  assumes "os_ok os"
  shows "dk_files (fold (remove_file os) ns dk) = (\<lambda>p. if p \<in> set ns then None else dk_files dk p)"
    and "dk_partials (fold (remove_file os) ns dk) = dk_partials dk"
  using assms by (induction ns arbitrary: dk) (auto simp: remove_file_def os_ok_def tick_def)

lemma remove_stored:
  assumes "os_ok os" "\<forall>n \<in> set names. F n = None" "holds (F(names [\<mapsto>] contents)) P [] dk"
  shows "holds F P [] (fold (remove_file os) (rev names) dk)"
  using assms by (auto simp: holds_def remove_files map_upds_apply_nontin)

lemma extract_outcome:
  assumes ok: "os_ok os" "set (dk_partials dk) \<subseteq> dom (dk_files dk)"
    and ex: "extract_archive env os limits body dk = Some (r, dk')"
  shows "(case r of
      Err e \<Rightarrow> dk_files dk' = dk_files dk
    | Ok x \<Rightarrow> \<exists>contents. length contents = length (ex_names x) \<and> distinct (ex_names x)
        \<and> (\<forall>n \<in> set (ex_names x). visible_name n \<and> dk_files dk n = None)
        \<and> dk_files dk' = (dk_files dk)(ex_names x [\<mapsto>] contents)
        \<and> length (ex_names x) \<le> xl_max_members limits
        \<and> (reader_bounded (limited_read env) \<longrightarrow> sum_list (map length contents) \<le> xl_byte_limit limits))
    \<and> dk_partials dk' = dk_partials dk"
proof (cases "\<exists>decoder s. dv_new (xe_dv env) body = Some (Ok decoder, s)")
  case False
  with ex show ?thesis
    by (auto simp: extract_archive_unfold split: option.splits prod.splits result.splits)
next
  case True
  then obtain decoder s where new: "dv_new (xe_dv env) body = Some (Ok decoder, s)" by blast
  let ?F = "dk_files dk" and ?P = "dk_partials dk"
  let ?cpio = "cpio_new \<lparr>lm_inner = decoder, lm_total = 0, lm_limit = xl_byte_limit limits\<rparr>"
  obtain rm cpio pending dk1 where mem: "extract_members env os limits ?cpio [] 0 0 dk = Some (rm, cpio, pending, dk1)"
    using ex new by (cases "extract_members env os limits ?cpio [] 0 0 dk") (auto simp: extract_archive_unfold)
  have "upload_inv ?F ?P limits (reader_bounded (limited_read env)) [] 0 0 dk"
    by (simp add: upload_inv_def holds_start temp_bytes_def)
  from extract_members_kept [OF mem ok this] obtain members out where
    inv: "upload_inv ?F ?P limits (reader_bounded (limited_read env)) pending members out dk1"
    by (auto simp: upload_kept_def)
  then have h: "holds ?F ?P (map snd pending) dk1" and fn: "\<forall>p \<in> set pending. file_name_ok (fst p)"
    by (auto simp: upload_inv_def)
  note dropped = holds_Nil [OF holds_drop_all [OF ok(1) h]]
  obtain rp stored dk2 where pl: "place_all os pending [] dk1 = (rp, stored, dk2)" by (cases "place_all os pending [] dk1")
  obtain names contents where n: "stored = names" "length contents = length names" "distinct names"
    "\<forall>n \<in> set names. visible_name n \<and> ?F n = None" "holds (?F(names [\<mapsto>] contents)) ?P [] dk2"
    "rp = Ok () \<longrightarrow> contents = map (\<lambda>p. the (dk_files dk1 (snd p))) pending"
    using place_all_spec [OF ok(1) h fn pl] by auto
  have undone: "holds ?F ?P [] (fold (remove_file os) (rev stored) dk2)"
    using remove_stored [OF ok(1) _ n(5)] n(1,4) by blast
  have sum: "rp = Ok () \<Longrightarrow> length names \<le> xl_max_members limits
      \<and> (reader_bounded (limited_read env) \<longrightarrow> sum_list (map length contents) \<le> xl_byte_limit limits)"
    using inv n(2,6) by (auto simp: upload_inv_def temp_bytes_def comp_def dest!: arg_cong [of _ _ length])
  consider (failed) e where "r = Err e" "dk' = fold (drop_partial os) pending dk1"
    | (placed) x where "r = Ok x" "ex_names x = stored" "rp = Ok ()" "dk' = dk2"
    | (undo) e where "r = Err e" "dk' = fold (remove_file os) (rev stored) dk2"
    using ex new mem pl
    by (auto simp: extract_archive_unfold Let_def split: result.split_asm option.split_asm if_split_asm)
  then show ?thesis
  proof cases
    case failed
    with dropped show ?thesis by simp
  next
    case placed
    have "dk_files dk' = ?F(ex_names x [\<mapsto>] contents)" "dk_partials dk' = ?P"
      using holds_Nil [OF n(5)] placed n(1) by auto
    with placed n(1-4) sum show ?thesis by (simp, intro exI [of _ contents]) simp
  next
    case undo
    with holds_Nil [OF undone] show ?thesis by simp
  qed
qed

subsection \<open>Readers stay within the buffer they are given\<close>

definition dv_env_bounded :: "('s, 'z, 'g) dv_env \<Rightarrow> bool" where
  "dv_env_bounded env \<longleftrightarrow> reader_bounded (ev_read env) \<and> zlib_bounded (ev_zstep env) \<and>
     (\<forall>g sn n bs g' sn'. ev_gread env g sn n = Some (Ok bs, g', sn') \<longrightarrow> length bs \<le> n)"

lemma chain_read_bounded: "reader_bounded (ev_read env) \<Longrightarrow> reader_bounded (chain_read env)"
  by (auto simp: reader_bounded_def chain_read_def dv_source_read_def split: if_splits option.splits prod.splits result.splits)

lemma buf_read_Ok: "buf_read env sn n = Some (Ok bs, sn') \<Longrightarrow> chain_read env sn n = Some (Ok bs, sn') \<or> length bs \<le> n"
  by (auto simp: buf_read_def split: if_splits option.splits prod.splits result.splits)

lemma buf_read_bounded: "reader_bounded (ev_read env) \<Longrightarrow> reader_bounded (buf_read env)"
  using chain_read_bounded [of env] buf_read_Ok [of env] unfolding reader_bounded_def by metis

lemma read_blocks_bounded:
  assumes "dv_env_bounded env" "read_blocks env sn b n = Some (Ok bs, sn', b')"
  shows "length bs \<le> n"
proof -
  define Q where "Q env' sn b n x \<longleftrightarrow> (env' = env \<longrightarrow> (\<forall>bs. fst x = Ok bs \<longrightarrow> length bs \<le> n))"
    for env' and sn :: "'a sniffed" and b :: "'b block" and n and x :: "(bytes, io_error) result \<times> 'a sniffed \<times> 'b block"
  have buf: "length bs \<le> k" if "buf_read env sn k = Some (Ok bs, sn')" for sn k bs sn'
    using buf_read_bounded [of env] assms(1) that by (auto simp: dv_env_bounded_def reader_bounded_def)
  have zl: "length out \<le> n" if "ev_zstep env z avail n = Ok (st, c, out, z')" for z avail n st c out z'
    using assms(1) that unfolding dv_env_bounded_def zlib_bounded_def by blast
  have "Q env sn b n (Ok bs, sn', b')"
  proof (rule read_blocks.raw_induct [of Q, OF _ assms(2)], goal_cases)
    case (1 f env' sn b n x)
    show ?case unfolding Q_def
    proof (intro impI allI)
      fix bs
      assume same: "env' = env" and x: "fst x = Ok bs"
      have rec: "length bs \<le> n" if "f env sn2 b2 n = Some x" for sn2 b2
        using 1(1) [of env sn2 b2 n x] that x by (simp add: Q_def)
      show "length bs \<le> n"
      proof (cases b)
        case Header
        with 1(2) x rec same show ?thesis by (auto split: option.split_asm result.split_asm if_split_asm)
      next
        case (Stored left)
        with 1(2) x rec same show ?thesis by (auto split: option.split_asm result.split_asm if_split_asm dest!: buf)
      next
        case (Compressed left z)
        with 1(2) x rec same show ?thesis
          by (auto split: option.split_asm result.split_asm if_split_asm prod.split_asm dest: zl)
      next
        case Done
        with 1(2) x same show ?thesis by auto
      qed
    qed
  qed
  then show ?thesis by (simp add: Q_def)
qed

lemma dv_read_Ok:
  "dv_read env d n = Some (Ok bs, d') \<Longrightarrow> bs = [] \<or> (\<exists>g sn g' sn'. ev_gread env g sn n = Some (Ok bs, g', sn'))
   \<or> (\<exists>sn b sn' b'. read_blocks env sn b n = Some (Ok bs, sn', b'))"
  by (auto simp: dv_read_def split: if_splits option.splits prod.splits result.splits dv_body.splits)

lemma dv_read_bounded: "dv_env_bounded env \<Longrightarrow> reader_bounded (dv_read env)"
  using read_blocks_bounded [of env] dv_read_Ok [of env] unfolding reader_bounded_def dv_env_bounded_def
  by (metis list.size(3) zero_le)

lemma limited_read_bounded: "dv_env_bounded (xe_dv env) \<Longrightarrow> reader_bounded (limited_read env)"
  using dv_read_bounded [of "xe_dv env"] unfolding reader_bounded_def
  by (fastforce simp: limited_read_def Let_def split: if_splits option.splits prod.splits result.splits)

subsection \<open>What an upload leaves behind\<close>

lemma map_upds_values:
  assumes "distinct ns" "length vs = length ns"
  shows "map (\<lambda>n. the ((F(ns [\<mapsto>] vs)) n)) ns = vs"
  using assms(2,1)
proof (induction vs ns arbitrary: F rule: list_induct2)
  case (Cons v vs n ns)
  from Cons(3) have "distinct ns" "n \<notin> set ns" by simp_all
  moreover from this have "(F(n \<mapsto> v, ns [\<mapsto>] vs)) n = Some v" using map_upds_apply_nontin by fastforce
  ultimately show ?case using Cons(2) [of "F(n \<mapsto> v)"] by (simp only: list.map map_upds_Cons option.sel simp_thms)
qed simp

end
