(* ===== verification/Delivery.thy ===== *)
theory Delivery
  imports Extract
begin

text \<open>
  A whole transfer: the sender's archive (\<open>core/crates/omdrop-send/src/client.rs\<close>, the closure
  \<open>produce\<close> of \<open>upload\<close>: every file through \<open>CpioWriter\<close> into \<open>DvzipEncoder\<close>) and the receiver's
  extraction of it. The writers that only count bytes for a log line (\<open>Counting\<close>, \<open>Tee\<close>) are left out.

  The locale \<open>extract_input\<close> is what extraction relies on in the body reader below it. In it, the
  decoder under the byte ceiling keeps the contract of a reader, and extraction of an archive that
  fits the limits is shown to return and to store every file.
\<close>

definition produce :: "(bytes \<Rightarrow> (bytes, io_error) result) \<Rightarrow> 'd reader \<Rightarrow> 'w writer \<Rightarrow> ('w \<Rightarrow> (unit, io_error) result \<times> 'w)
    \<Rightarrow> (ustr \<times> file_meta \<times> 'd) list \<Rightarrow> 'w \<Rightarrow> ((unit, io_error) result \<times> 'w) option" where
  "produce deflate rd wr flush files w =
     (let put = dv_write_all deflate wr;
          append = (\<lambda>(name, meta, d) st.
            (case st of
               Some (Ok _, cw) \<Rightarrow>
                 (case append_file rd put cw name meta d of
                    None \<Rightarrow> None
                  | Some (r, cw', _) \<Rightarrow> Some (r, cw'))
             | _ \<Rightarrow> st))
      in (case fold append files (Some (Ok (), cpio_writer_new (dv_encoder_new w))) of
            None \<Rightarrow> None
          | Some (Err e, cw) \<Rightarrow> Some (Err e, de_inner (cw_inner cw))
          | Some (Ok _, cw) \<Rightarrow>
              (case cpio_finish put (\<lambda>de. case flush (de_inner de) of (r, w') \<Rightarrow> (r, de\<lparr>de_inner := w'\<rparr>)) cw of
                 (Err e, de) \<Rightarrow> Some (Err e, de_inner de)
               | (Ok _, de) \<Rightarrow> Some (dv_finish deflate wr flush de))))"

subsection \<open>The encoder is a writer\<close>

definition dv_written :: "(bytes \<Rightarrow> bytes option) \<Rightarrow> bytes dv_encoder \<Rightarrow> bytes" where
  "dv_written inflate de = the (dv_decode inflate (de_inner de)) @ de_block de"

lemma encoder_ok_written: "encoder_ok inflate data de \<Longrightarrow> dv_written inflate de = data"
proof -
  assume "encoder_ok inflate data de"
  then obtain sent where sent: "data = sent @ de_block de" "encoded inflate (de_inner de) sent"
    by (auto simp: encoder_ok_def)
  have "dv_decode inflate [] = Some []" by (simp add: dv_decode.simps)
  with sent(2) have "dv_decode inflate (de_inner de @ []) = Some (sent @ [])" unfolding encoded_def by blast
  with sent(1) show ?thesis by (simp add: dv_written_def)
qed

lemma dv_byte_writer:
  assumes "deflates deflate inflate"
  shows "byte_writer (dv_write_all deflate vec_write) (\<lambda>de. encoder_ok inflate (dv_written inflate de) de) (dv_written inflate)"
proof
  fix de bs
  assume "encoder_ok inflate (dv_written inflate de) de"
  from dv_write_all_vec [OF assms this, of bs] show "\<exists>de'. dv_write_all deflate vec_write de bs = (Ok (), de')
      \<and> encoder_ok inflate (dv_written inflate de') de' \<and> dv_written inflate de' = dv_written inflate de @ bs"
    using encoder_ok_written by fastforce
qed

subsection \<open>Extraction of an archive that fits\<close>

locale extract_input = dv_input "xe_dv env" good content ending pending
  for env :: "('s, 'z, 'g) extract_env"
    and good :: "'s \<Rightarrow> bool"
    and content :: "'s \<Rightarrow> bytes"
    and ending :: "'s \<Rightarrow> io_error option"
    and pending :: "'s \<Rightarrow> nat" +
  assumes decoded_same [simp]: "good (xe_decoded env k s) = good s" "content (xe_decoded env k s) = content s"
      "ending (xe_decoded env k s) = ending s" "pending (xe_decoded env k s) = pending s"
    and trailer_same [simp]: "good (xe_trailer env s) = good s" "content (xe_trailer env s) = content s"
      "ending (xe_trailer env s) = ending s" "pending (xe_trailer env s) = pending s"
begin

lemma dv_map_same:
  assumes "\<And>s. good (f s) = good s" "\<And>s. content (f s) = content s" "\<And>s. ending (f s) = ending s" "\<And>s. pending (f s) = pending s"
  shows "dv_good inflate (dv_map f d) = dv_good inflate d" "dv_content inflate (dv_map f d) = dv_content inflate d"
    "dv_ending (dv_map f d) = dv_ending d" "dv_pending (dv_map f d) = dv_pending d"
  using assms by (cases d; simp add: dv_map_def sn_map_def dv_defs sn_defs)+

lemmas dv_map_decoded [simp] = dv_map_same [of "xe_decoded env k" for k, OF decoded_same]
lemmas dv_map_trailer [simp] = dv_map_same [of "xe_trailer env", OF trailer_same]

definition lm_good :: "('z \<Rightarrow> bytes \<Rightarrow> bytes option) \<Rightarrow> ('s, 'z, 'g) limited \<Rightarrow> bool" where
  "lm_good inflate lm \<longleftrightarrow> dv_good inflate (lm_inner lm)
     \<and> lm_total lm + length (dv_content inflate (lm_inner lm)) \<le> lm_limit lm"

lemma limited_byte_reader:
  assumes zl: "zlib_streams (ev_zstep (xe_dv env)) inflate"
  shows "byte_reader (limited_read env) (lm_good inflate) (\<lambda>lm. dv_content inflate (lm_inner lm))
    (\<lambda>lm. dv_ending (lm_inner lm)) (\<lambda>lm. dv_pending (lm_inner lm))"
proof -
  have "read_outcome (limited_read env) (lm_good inflate) (\<lambda>lm. dv_content inflate (lm_inner lm))
      (\<lambda>lm. dv_ending (lm_inner lm)) (\<lambda>lm. dv_pending (lm_inner lm)) lm n"
    if g: "lm_good inflate lm" "0 < n" for lm n
  proof -
    define want where "want = min n (lm_limit lm - lm_total lm + 1)"
    have want: "0 < want" "want \<le> n" using g(2) by (simp_all add: want_def)
    have d: "dv_good inflate (lm_inner lm)" using g(1) by (simp add: lm_good_def)
    note eq = limited_read_def [of env lm n, unfolded Let_def, folded want_def]
    from byte_reader.rd_cases [OF dv_byte_reader [OF zl] d want(1)] show ?thesis
    proof cases
      case (1 d')
      with g(1) show ?thesis
        unfolding read_outcome_def by (intro disjI1) (simp add: eq lm_good_def)
    next
      case (2 bs d')
      with g(1) want(2) show ?thesis
        unfolding read_outcome_def by (intro disjI2 disjI1) (simp add: eq lm_good_def)
    next
      case (3 e d')
      with g(1) show ?thesis
        unfolding read_outcome_def by - (rule disjI2, rule disjI2, rule disjI1, simp add: eq lm_good_def)
    next
      case (4 e d')
      then show ?thesis
        unfolding read_outcome_def by (intro disjI2) (simp add: eq)
    qed
  qed
  then show ?thesis by (rule byte_readerI)
qed

end

text \<open>An operating system on which nothing goes wrong: room on the disk, names for temporary files.\<close>

definition os_works :: "os \<Rightarrow> nat \<Rightarrow> bool" where
  "os_works os min_free \<longleftrightarrow> os_ok os \<and>
     (\<forall>t. os_write os t = None \<and> os_place os t = None
        \<and> (\<exists>k. os_free os t = Ok k \<and> min_free + DISK_CHECK_INTERVAL \<le> k))
     \<and> (\<forall>t files. finite (dom files) \<longrightarrow> (\<exists>path. os_temp os t files = Ok path))"

lemma disk_check_works: "os_works os min_free \<Longrightarrow> disk_check os label min_free dk = (Ok (), tick dk)"
proof -
  assume "os_works os min_free"
  then obtain k where "os_free os (dk_tick dk) = Ok k" "min_free + DISK_CHECK_INTERVAL \<le> k"
    unfolding os_works_def by blast
  then show ?thesis by (simp add: disk_check_def free_bytes_def)
qed

lemma write_member_all:
  assumes br: "byte_reader (limited_read env) G C E (\<lambda>_. 0)" and os: "os_works os min_free"
    and c: "G (cr_inner c)" "cr_left c \<le> length (C (cr_inner c))" and fd: "dk_files dk path = Some old"
  shows "\<exists>s dk'. write_member env os path label min_free until c dk = Some (Ok (), c\<lparr>cr_inner := s, cr_left := 0\<rparr>, dk')
    \<and> G s \<and> C s = drop (cr_left c) (C (cr_inner c)) \<and> E s = E (cr_inner c)
    \<and> dk_files dk' = (dk_files dk)(path \<mapsto> old @ take (cr_left c) (C (cr_inner c))) \<and> dk_partials dk' = dk_partials dk"
  using c fd
proof (induction "cr_left c" arbitrary: c dk old until rule: less_induct)
  case less
  show ?case
  proof (cases "cr_left c = 0")
    case True
    then have "write_member env os path label min_free until c dk = Some (Ok (), c, dk)"
      by (subst write_member.simps) (simp add: read_data_def)
    moreover have "(dk_files dk)(path \<mapsto> old) = dk_files dk" using less(4) by auto
    ultimately show ?thesis using True less(2) by (intro exI [of _ "cr_inner c"] exI [of _ dk]) simp
  next
    case False
    define want where "want = min IO_CHUNK_BYTES (cr_left c)"
    have want: "0 < want" "want \<noteq> 0" "want \<le> cr_left c" using False by (simp_all add: want_def IO_CHUNK_BYTES_def)
    have ne: "C (cr_inner c) \<noteq> []" using less(3) False by auto
    from byte_reader.rd_cases [OF br less(2) want(1)] obtain bs s where
      s: "limited_read env (cr_inner c) want = Some (Ok bs, s)" "G s" "bs \<noteq> []" "length bs \<le> want"
        "C (cr_inner c) = bs @ C s" "E s = E (cr_inner c)"
      using ne by cases auto
    define c1 where "c1 = c\<lparr>cr_inner := s, cr_left := cr_left c - length bs\<rparr>"
    have rd: "read_data (limited_read env) c IO_CHUNK_BYTES = Some (Ok bs, c1)"
      using s(1,3) want(2) by (simp add: read_data_def Let_def c1_def flip: want_def)
    define dk1 where "dk1 = (if length bs \<ge> until then tick dk else dk)"
    define dk2 where "dk2 = (tick dk1)\<lparr>dk_files := (dk_files dk)(path \<mapsto> old @ bs)\<rparr>"
    have ck: "(if length bs \<ge> until then disk_check os label min_free dk else (Ok (), dk)) = (Ok (), dk1)"
      using disk_check_works [OF os] by (simp add: dk1_def)
    have wr: "file_write_all os path bs dk1 = (Ok (), dk2)"
      using os less(4) by (simp add: os_works_def file_write_all_def file_append_def dk1_def dk2_def tick_def)
    have "0 < length bs" using s(3) by simp
    then have pre: "cr_left c1 < cr_left c" "G (cr_inner c1)" "cr_left c1 \<le> length (C (cr_inner c1))"
      "dk_files dk2 path = Some (old @ bs)" "cr_inner c1 = s"
      using s(2,4,5) want(3) less(3) False by (auto simp: c1_def dk2_def)
    obtain s' dk' where ih: "write_member env os path label min_free
        ((if length bs \<ge> until then DISK_CHECK_INTERVAL else until) - length bs) c1 dk2 =
        Some (Ok (), c1\<lparr>cr_inner := s', cr_left := 0\<rparr>, dk')" "G s'" "C s' = drop (cr_left c1) (C s)" "E s' = E s"
      "dk_files dk' = (dk_files dk2)(path \<mapsto> (old @ bs) @ take (cr_left c1) (C s))" "dk_partials dk' = dk_partials dk2"
      using less(1) [of c1 dk2 "old @ bs" "(if length bs \<ge> until then DISK_CHECK_INTERVAL else until) - length bs"] pre
      by auto
    have "write_member env os path label min_free until c dk = Some (Ok (), c\<lparr>cr_inner := s', cr_left := 0\<rparr>, dk')"
      using ih(1) s(3) by (subst write_member.simps) (simp add: rd ck wr, simp add: c1_def)
    with ih s(4-6) want(3) show ?thesis
      by (auto simp: c1_def dk2_def dk1_def tick_def)
  qed
qed

lemma store_member_all:
  assumes br: "byte_reader (limited_read env) G C E (\<lambda>_. 0)" and os: "os_works os (xl_min_free_bytes limits)"
    and c: "G (cr_inner c)" "cr_left c \<le> length (C (cr_inner c))" and fin: "finite (dom (dk_files dk))"
  shows "\<exists>path s dk'. store_member env os limits name c dk = Some (Ok path, c\<lparr>cr_inner := s, cr_left := 0\<rparr>, dk')
    \<and> G s \<and> C s = drop (cr_left c) (C (cr_inner c)) \<and> E s = E (cr_inner c)
    \<and> dk_files dk path = None \<and> dk_files dk' = (dk_files dk)(path \<mapsto> take (cr_left c) (C (cr_inner c)))"
proof -
  obtain path where temp: "os_temp os (dk_tick dk) (dk_files dk) = Ok path" using os fin unfolding os_works_def by blast
  have new: "dk_files dk path = None" using os temp by (auto simp: os_works_def os_ok_def)
  define dk1 where "dk1 = (tick dk)\<lparr>dk_files := (dk_files dk)(path \<mapsto> [])\<rparr>"
  have t: "tempfile_in os dk = (Ok path, dk1)" using temp by (simp add: tempfile_in_def dk1_def)
  have "dk_files (partials_add path dk1) path = Some []" by (simp add: dk1_def partials_add_def)
  from write_member_all [OF br os c this, of "[T ''file '', Txt (py_repr name)]" 0] show ?thesis
    using t new by (auto simp: store_member_def partials_add_def dk1_def)
qed

text \<open>An archive of regular files: names, header fields and data, and the bytes \<open>CpioWriter\<close> makes of them.\<close>

type_synonym member = "bytes \<times> odc_fields \<times> bytes"

fun odc_members :: "nat \<Rightarrow> member list \<Rightarrow> bytes" where
  "odc_members ino [] = []"
| "odc_members ino ((name, f, data) # ms) = odc_member (Suc ino) f name data @ odc_members (Suc ino) ms"

fun members_ok :: "nat \<Rightarrow> member list \<Rightarrow> bool" where
  "members_ok ino [] = True"
| "members_ok ino ((name, f, data) # ms) \<longleftrightarrow>
     odc_fits (Suc ino) f name data \<and> from_utf8_lossy name \<noteq> TRAILER \<and> \<not> apple_double (from_utf8_lossy name)
     \<and> (of_nat (od_mode f AND ODC_MAX_SHORT) :: u32) AND 0xf000 = 0x8000 \<and> members_ok (Suc ino) ms"

definition member_name :: "('s, 'z, 'g) extract_env \<Rightarrow> member \<Rightarrow> ustr" where [eval_defs]:
  "member_name env m = safe_name (xe_nfc env) (from_utf8_lossy (fst m)) (lit ''file'')"

abbreviation member_data :: "member \<Rightarrow> bytes" where
  "member_data m \<equiv> snd (snd m)"

lemma extract_members_all:
  assumes br: "byte_reader (limited_read env) G C E (\<lambda>_. 0)" and os: "os_works os (xl_min_free_bytes limits)"
    and c: "G (cr_inner c)" "\<not> cr_done c" "cr_left c = 0" "cr_pad c = 0"
    and ms: "C (cr_inner c) = odc_members ino ms @ odc_trailer @ rest" "members_ok ino ms"
    and lim: "members + length ms \<le> xl_max_members limits" "out + (\<Sum>m \<leftarrow> ms. length (member_data m)) \<le> xl_byte_limit limits"
    and fin: "finite (dom (dk_files dk))"
  shows "\<exists>c' ps dk'. extract_members env os limits c pending members out dk = Some (Ok (), c', pending @ ps, dk')
    \<and> map fst ps = map (member_name env) ms \<and> map (\<lambda>p. dk_files dk' (snd p)) ps = map (\<lambda>m. Some (member_data m)) ms
    \<and> (\<forall>p. dk_files dk p \<noteq> None \<longrightarrow> dk_files dk' p = dk_files dk p)
    \<and> G (cr_inner c') \<and> C (cr_inner c') = rest \<and> E (cr_inner c') = E (cr_inner c)"
  using c ms lim fin
proof (induction ms arbitrary: ino c pending members out dk)
  case Nil
  obtain c' where "next_entry (limited_read env) c = Some (Ok None, c')" "G (cr_inner c')" "C (cr_inner c') = rest"
    "E (cr_inner c') = E (cr_inner c)"
    using byte_reader.next_entry_trailer [OF br Nil(1,2), of "[]" rest] Nil by auto
  then show ?case by (subst extract_members.simps) simp
next
  case (Cons m ms)
  obtain name f data where m: "m = (name, f, data)" by (cases m)
  have ok: "odc_fits (Suc ino) f name data" "from_utf8_lossy name \<noteq> TRAILER" "\<not> apple_double (from_utf8_lossy name)"
    "(of_nat (od_mode f AND ODC_MAX_SHORT) :: u32) AND 0xf000 = 0x8000" "members_ok (Suc ino) ms"
    using Cons(7) by (simp_all add: m)
  let ?rest = "odc_members (Suc ino) ms @ odc_trailer @ rest"
  define entry where "entry = \<lparr>ce_path = from_utf8_lossy name, ce_mode = (of_nat (od_mode f AND ODC_MAX_SHORT) :: u32),
    ce_size = length data\<rparr>"
  have bytes: "C (cr_inner c) = [] @ odc_member (Suc ino) f name data @ ?rest" "length [] = cr_left c + cr_pad c"
    using Cons(4-6) by (simp_all add: m)
  obtain c1 where c1: "next_entry (limited_read env) c = Some (Ok (Some entry), c1)" "G (cr_inner c1)"
    "C (cr_inner c1) = data @ ?rest" "E (cr_inner c1) = E (cr_inner c)" "cr_left c1 = length data" "cr_pad c1 = 0" "\<not> cr_done c1"
    using byte_reader.next_entry_member [OF br Cons(2,3) ok(1) bytes ok(2)] unfolding entry_def by metis
  have le: "cr_left c1 \<le> length (C (cr_inner c1))" by (simp add: c1)
  obtain path s dk1 where st: "store_member env os limits (member_name env m) c1 dk = Some (Ok path, c1\<lparr>cr_inner := s, cr_left := 0\<rparr>, dk1)"
    "G s" "C s = ?rest" "E s = E (cr_inner c)" "dk_files dk path = None" "dk_files dk1 = (dk_files dk)(path \<mapsto> data)"
    using store_member_all [OF br os c1(2) le Cons(10), of "member_name env m"] c1 by auto
  define c2 where "c2 = c1\<lparr>cr_inner := s, cr_left := 0\<rparr>"
  have pre: "G (cr_inner c2)" "\<not> cr_done c2" "cr_left c2 = 0" "cr_pad c2 = 0" "C (cr_inner c2) = ?rest"
    "(members + 1) + length ms \<le> xl_max_members limits"
    "(out + length data) + (\<Sum>m \<leftarrow> ms. length (member_data m)) \<le> xl_byte_limit limits" "finite (dom (dk_files dk1))"
    using st c1 Cons(8-10) by (simp_all add: c2_def m)
  obtain c' ps dk' where ih: "extract_members env os limits c2 (pending @ [(member_name env m, path)])
      (members + 1) (out + length data) dk1 = Some (Ok (), c', (pending @ [(member_name env m, path)]) @ ps, dk')"
    "map fst ps = map (member_name env) ms" "map (\<lambda>p. dk_files dk' (snd p)) ps = map (\<lambda>m. Some (member_data m)) ms"
    "\<forall>p. dk_files dk1 p \<noteq> None \<longrightarrow> dk_files dk' p = dk_files dk1 p"
    "G (cr_inner c')" "C (cr_inner c') = rest" "E (cr_inner c') = E (cr_inner c2)"
    using Cons(1) [OF pre(1-5) ok(5) pre(6-8), of "pending @ [(member_name env m, path)]"] by blast
  have "E (cr_inner c2) = E (cr_inner c)" by (simp add: c2_def st(4))
  have "over_limit limits entry out = None" "\<not> members + 1 > xl_max_members limits"
    using Cons(8,9) by (auto simp: over_limit_def entry_def m)
  then have "extract_members env os limits c pending members out dk = Some (Ok (), c', pending @ (member_name env m, path) # ps, dk')"
    using c1(1) ok(3,4) st(1) ih(1) [unfolded c2_def]
    by (subst extract_members.simps) (simp add: entry_def is_file_def Let_def member_name_def m)
  moreover have "dk_files dk' path = Some data" "\<forall>p. dk_files dk p \<noteq> None \<longrightarrow> dk_files dk' p = dk_files dk p"
    using ih(4) st(5,6) by auto
  ultimately show ?case using ih(2,3,5-7) \<open>E (cr_inner c2) = E (cr_inner c)\<close>
    by (intro exI [of _ c'] exI [of _ "(member_name env m, path) # ps"] exI [of _ dk']) (simp add: m)
qed

lemma candidate_names_Cons: "\<exists>rest. candidate_names name = name # rest"
proof -
  have "[0..<10000] = 0 # [Suc 0..<10000]" by (rule upt_conv_Cons) simp
  then have "candidate_names name = candidate_name name 0 # map (candidate_name name) [Suc 0..<10000]"
    by (simp only: candidate_names_def list.map)
  then show ?thesis by (simp add: candidate_name_def)
qed

text \<open>The names files get, one after the other: the first of the candidates that is not taken. \<open>None\<close> when all 10,000 are.\<close>

fun free_names :: "ustr set \<Rightarrow> ustr list \<Rightarrow> ustr list option" where
  "free_names taken [] = Some []"
| "free_names taken (n # ns) =
     (case find (\<lambda>c. c \<notin> taken) (candidate_names n) of
        None \<Rightarrow> None
      | Some c \<Rightarrow> map_option ((#) c) (free_names (insert c taken) ns))"

text \<open>Different names that are not taken stay as they are.\<close>

lemma free_names_distinct:
  "distinct ns \<Longrightarrow> set ns \<inter> taken = {} \<Longrightarrow> free_names taken ns = Some ns"
proof (induction ns arbitrary: taken)
  case (Cons n ns)
  obtain rest where "candidate_names n = n # rest" using candidate_names_Cons by blast
  then show ?case using Cons by simp
qed simp

lemma place_first_free:
  assumes "\<And>t. os_place os t = None" "holds F P (temp # rest) dk" "\<forall>c \<in> set cs. visible_name c" "find (\<lambda>c. c \<notin> dom F) cs = Some c"
  shows "\<exists>dk'. place_first os temp cs dk = (Ok (Some c), dk')"
  using assms(2-4)
proof (induction cs arbitrary: dk)
  case (Cons d cs)
  then have "d \<notin> set (temp # rest)" using visible_not_partial by (auto simp: holds_def)
  then have d: "dk_files dk d = F d" using Cons(2) by (simp add: holds_def)
  show ?case
  proof (cases "F d")
    case None
    then show ?thesis using Cons(4) d assms(1) by (simp add: persist_noclobber_def domIff)
  next
    case (Some f)
    then have "find (\<lambda>c. c \<notin> dom F) cs = Some c" using Cons(4) by (simp add: domIff split: if_splits)
    with Cons(1) [of "tick dk"] Cons(2,3) show ?thesis using Some d by (auto simp: persist_noclobber_def error_kind_of_def)
  qed
qed simp

lemma place_all_free:
  assumes "\<And>t. os_place os t = None" "holds F P (map snd pending) dk" "\<forall>p \<in> set pending. file_name_ok (fst p)"
    and "free_names (dom F) (map fst pending) = Some names"
  shows "\<exists>dk'. place_all os pending stored dk = (Ok (), stored @ names, dk')"
  using assms(2-4)
proof (induction pending arbitrary: stored dk F names)
  case (Cons p pending)
  obtain name temp where p: "p = (name, temp)" by (cases p)
  obtain c ns where c: "find (\<lambda>c. c \<notin> dom F) (candidate_names name) = Some c" "free_names (insert c (dom F)) (map fst pending) = Some ns"
    "names = c # ns" using Cons(4) by (auto simp: p split: option.splits)
  have h: "holds F P (temp # map snd pending) dk" using Cons(2) by (simp add: p)
  have vis: "\<forall>c \<in> set (candidate_names name). visible_name c" using Cons(3) p candidates_visible by auto
  obtain dk1 where f: "place_first os temp (candidate_names name) dk = (Ok (Some c), dk1)"
    using place_first_free [OF assms(1) h vis c(1)] by blast
  from place_first_spec [OF h vis f] have h1: "holds (F(c \<mapsto> the (dk_files dk temp))) P (map snd pending) (partials_forget temp dk1)" by simp
  have "free_names (dom (F(c \<mapsto> the (dk_files dk temp)))) (map fst pending) = Some ns" using c(2) by simp
  from Cons(1) [OF h1 _ this, of "stored @ [c]"] Cons(3) obtain dk' where
    "place_all os pending (stored @ [c]) (partials_forget temp dk1) = (Ok (), (stored @ [c]) @ ns, dk')" by auto
  then show ?case using f c(3) by (simp add: p)
qed simp

lemma odc_members_data: "(\<Sum>m \<leftarrow> ms. length (member_data m)) \<le> length (odc_members ino ms)"
  by (induction ino ms rule: odc_members.induct) (auto simp: odc_member_def intro: le_trans)

context extract_input
begin

lemma extract_start:
  assumes "zlib_streams (ev_zstep (xe_dv env)) inflate" "good body" "pending body = 0"
    "dv_decode (inflate (ev_zinit (xe_dv env))) (content body) = Some bytes" "content body \<noteq> []" "hd (content body) \<noteq> 0x1f"
    "length bytes \<le> limit"
  shows "\<exists>decoder s. dv_new (xe_dv env) body = Some (Ok decoder, s)
    \<and> lm_good inflate \<lparr>lm_inner = decoder, lm_total = 0, lm_limit = limit\<rparr>
    \<and> dv_content inflate decoder = bytes \<and> dv_ending decoder = ending body \<and> dv_pending decoder = 0"
proof -
  have long: "4 \<le> length (content body)" using assms(4,5) by (auto simp: dv_decode.simps [of _ "content body"] split: if_splits)
  have magic: "take 2 (content body) \<noteq> GZIP_MAGIC" using assms(5,6) by (cases "content body") (auto simp: GZIP_MAGIC_def)
  obtain s' where s': "read_full (ev_read (xe_dv env)) body 2 = Some (Ok (take 2 (content body)), s')" "good s'"
    "content s' = drop 2 (content body)" "ending s' = ending body" "pending s' \<le> pending body"
    by (rule read_full_enough [OF assms(2), of 2]) (use long in auto)
  with magic assms(3,4,7) show ?thesis
    by (auto simp: dv_new_def Let_def lm_good_def dv_defs sn_defs dv_rest_def)
qed

lemma extract_delivers:
  assumes zl: "zlib_streams (ev_zstep (xe_dv env)) inflate" and os: "os_works os (xl_min_free_bytes limits)"
    and body: "good body" "pending body = 0" "ending body = None \<or> ending body = Some (OfBody BodyComplete)"
      "dv_decode (inflate (ev_zinit (xe_dv env))) (content body) = Some (odc_members 0 ms @ odc_trailer)"
      "content body \<noteq> []" "hd (content body) \<noteq> 0x1f"
    and ms: "members_ok 0 ms" "length ms \<le> xl_max_members limits"
      "length (odc_members 0 ms @ odc_trailer) \<le> xl_byte_limit limits"
    and free: "free_names (dom (dk_files dk)) (map (member_name env) ms) = Some names"
    and dk: "finite (dom (dk_files dk))" "set (dk_partials dk) \<subseteq> dom (dk_files dk)"
  shows "\<exists>x dk'. extract_archive env os limits body dk = Some (Ok x, dk') \<and> ex_names x = names
    \<and> ex_unterminated x = (ending body \<noteq> None)
    \<and> dk_files dk' = (dk_files dk)(names [\<mapsto>] map member_data ms) \<and> dk_partials dk' = dk_partials dk"
proof -
  let ?limit = "xl_byte_limit limits"
  let ?G = "\<lambda>lm. lm_good inflate lm \<and> dv_pending (lm_inner lm) = 0"
  note br = byte_reader_quiet [OF limited_byte_reader [OF zl]]
  obtain decoder s where new: "dv_new (xe_dv env) body = Some (Ok decoder, s)"
    "?G \<lparr>lm_inner = decoder, lm_total = 0, lm_limit = ?limit\<rparr>"
    "dv_content inflate decoder = odc_members 0 ms @ odc_trailer" "dv_ending decoder = ending body"
    using extract_start [OF zl body(1,2,4-6) ms(3)] by auto
  let ?c = "cpio_new \<lparr>lm_inner = decoder, lm_total = 0, lm_limit = ?limit\<rparr>"
  have sum: "0 + (\<Sum>m \<leftarrow> ms. length (member_data m)) \<le> ?limit" using odc_members_data [of ms 0] ms(3) by simp
  obtain c ps dk1 where mem: "extract_members env os limits ?c [] 0 0 dk = Some (Ok (), c, ps, dk1)"
    "map fst ps = map (member_name env) ms" "map (\<lambda>p. dk_files dk1 (snd p)) ps = map (\<lambda>m. Some (member_data m)) ms"
    "?G (cr_inner c)" "dv_ending (lm_inner (cr_inner c)) = ending body"
    using extract_members_all [OF br os, where c = ?c and ino = 0 and ms = ms and rest = "[]" and members = 0
        and out = 0 and dk = dk and pending = "[]"] new ms(1,2) sum dk(1)
    by (auto simp: cpio_new_def)
  let ?F = "dk_files dk" and ?P = "dk_partials dk"
  have ok: "os_ok os" using os by (simp add: os_works_def)
  have "upload_inv ?F ?P limits (reader_bounded (limited_read env)) [] 0 0 dk"
    by (simp add: upload_inv_def holds_start temp_bytes_def)
  from extract_members_kept [OF mem(1) ok dk(2) this] have h: "holds ?F ?P (map snd ps) dk1"
    and fn: "\<forall>p \<in> set ps. file_name_ok (fst p)" by (auto simp: upload_kept_def upload_inv_def)
  have "os_place os t = None" for t using os by (simp add: os_works_def)
  then obtain dk2 where pl: "place_all os ps [] dk1 = (Ok (), names, dk2)"
    using place_all_free [OF _ h fn, of os names "[]"] free mem(2) by auto
  have "map (\<lambda>p. the (dk_files dk1 (snd p))) ps = map member_data ms"
    using arg_cong [OF mem(3), of "map the"] by (simp add: comp_def)
  with place_all_spec [OF ok h fn pl] have dk2: "dk_files dk2 = ?F(names [\<mapsto>] map member_data ms)"
    "dk_partials dk2 = ?P" by (auto simp: mem(2) dest: holds_Nil)
  define lm where "lm = (cr_inner c)\<lparr>lm_inner := dv_map (xe_trailer env) (lm_inner (cr_inner c))\<rparr>"
  have "?G lm" using mem(4) by (simp add: lm_def lm_good_def)
  from byte_reader.copy_sink_all [OF br this, of 0] obtain lm' where
    drain: "copy_sink (limited_read env) None lm 0 =
      Some (case ending body of None \<Rightarrow> Ok (0 + length (dv_content inflate (lm_inner lm))) | Some e \<Rightarrow> Err e, lm')"
    using mem(5) by (auto simp: lm_def)
  show ?thesis
    using new(1) mem(1) pl drain body(3) dk2 mem(2)
    by (auto simp: extract_archive_unfold Let_def simp flip: lm_def)
qed

end

subsection \<open>From the sender's files to the receiver's directory\<close>

text \<open>The network script with the extraction's progress beside it.\<close>

definition net_env :: "'z \<Rightarrow> ('z \<Rightarrow> bytes \<Rightarrow> nat \<Rightarrow> (zstatus \<times> nat \<times> bytes \<times> 'z, msg) result) \<Rightarrow> 'g
    \<Rightarrow> ('g \<Rightarrow> (source \<times> progress) sniffed \<Rightarrow> nat
          \<Rightarrow> ((bytes, io_error) result \<times> 'g \<times> (source \<times> progress) sniffed) option)
    \<Rightarrow> (ustr \<Rightarrow> ustr) \<Rightarrow> (source \<times> progress, 'z, 'g) extract_env" where
  "net_env zinit zstep ginit gread nfc =
     \<lparr>xe_dv = \<lparr>ev_read = (\<lambda>(s, p) n. map_option (\<lambda>(r, s'). (r, s', p)) (source_read s n)),
               ev_clean = (\<lambda>b (s, p). (s, p\<lparr>pg_clean_end := b\<rparr>)), ev_zinit = zinit, ev_zstep = zstep,
               ev_ginit = ginit, ev_gread = gread\<rparr>,
      xe_decoded = (\<lambda>k (s, p). (s, p\<lparr>pg_decoded := k\<rparr>)),
      xe_trailer = (\<lambda>(s, p). (s, p\<lparr>pg_trailer_seen := True\<rparr>)), xe_nfc = nfc\<rparr>"

lemma net_env_simps [simp]:
  "ev_zinit (xe_dv (net_env zi zs gi gr nfc)) = zi" "ev_zstep (xe_dv (net_env zi zs gi gr nfc)) = zs"
  "ev_clean (xe_dv (net_env zi zs gi gr nfc)) b s = (fst s, (snd s)\<lparr>pg_clean_end := b\<rparr>)"
  "ev_read (xe_dv (net_env zi zs gi gr nfc)) s n = map_option (\<lambda>(r, s'). (r, s', snd s)) (source_read (fst s) n)"
  "xe_decoded (net_env zi zs gi gr nfc) k s = (fst s, (snd s)\<lparr>pg_decoded := k\<rparr>)"
  "xe_trailer (net_env zi zs gi gr nfc) s = (fst s, (snd s)\<lparr>pg_trailer_seen := True\<rparr>)"
  "xe_nfc (net_env zi zs gi gr nfc) = nfc"
  by (simp_all add: net_env_def split_beta)

interpretation net: extract_input "net_env zi zs gi gr nfc" "\<lambda>s. source_good (fst s)" "\<lambda>s. source_content (fst s)"
  "\<lambda>s. source_ending (fst s)" "\<lambda>s. source_interrupts (fst s)" for zi zs gi gr nfc
proof -
  have "byte_reader (ev_read (xe_dv (net_env zi zs gi gr nfc))) (\<lambda>s. source_good (fst s)) (\<lambda>s. source_content (fst s))
    (\<lambda>s. source_ending (fst s)) (\<lambda>s. source_interrupts (fst s))"
    by (rule byte_reader_part [OF source_reader.byte_reader_axioms, where upd = "\<lambda>t s. (t, snd s)"]) simp_all
  then show "extract_input (net_env zi zs gi gr nfc) (\<lambda>s. source_good (fst s)) (\<lambda>s. source_content (fst s))
    (\<lambda>s. source_ending (fst s)) (\<lambda>s. source_interrupts (fst s))"
    by (simp add: dv_input_def dv_input_axioms_def extract_input_def extract_input_axioms_def)
qed

text \<open>The files of a transfer, each with the metadata \<open>fstat\<close> reports, as archive members.\<close>

definition sent_member :: "ustr \<times> file_meta \<times> bytes \<Rightarrow> member" where [eval_defs]:
  "sent_member = (\<lambda>(name, meta, data). (as_bytes name,
     \<lparr>od_dev = fm_dev meta, od_mode = fm_mode meta, od_uid = fm_uid meta, od_gid = fm_gid meta,
      od_mtime = nat (fm_mtime meta), od_size = fm_len meta\<rparr>, data))"

lemma produce_files:
  assumes "deflates deflate inflate" "members_ok ino (map sent_member files)" "\<forall>f \<in> set files. fm_is_file (fst (snd f))"
    and cw: "cw_next_ino cw = ino" "encoder_ok inflate (dv_written inflate (cw_inner cw)) (cw_inner cw)"
  shows "\<exists>de. fold (\<lambda>(name, meta, d) st. (case st of
               Some (Ok _, cw) \<Rightarrow> (case append_file slice_read (dv_write_all deflate vec_write) cw name meta d of
                    None \<Rightarrow> None | Some (r, cw', _) \<Rightarrow> Some (r, cw')) | _ \<Rightarrow> st)) files (Some (Ok (), cw))
      = Some (Ok (), cw\<lparr>cw_inner := de, cw_next_ino := ino + length files\<rparr>)
    \<and> encoder_ok inflate (dv_written inflate de) de
    \<and> dv_written inflate de = dv_written inflate (cw_inner cw) @ odc_members ino (map sent_member files)"
  using assms(2-5)
proof (induction files arbitrary: ino cw)
  case Nil
  then show ?case by (intro exI [of _ "cw_inner cw"]) simp
next
  case (Cons x files)
  obtain name meta data where x: "x = (name, meta, data)" by (cases x)
  define f where "f = fst (snd (sent_member x))"
  have m: "sent_member x = (as_bytes name, f, data)" by (simp add: f_def x sent_member_def)
  have ok: "odc_fits (cw_next_ino cw + 1) f (as_bytes name) data" "members_ok (Suc ino) (map sent_member files)"
    using Cons(2,4) by (simp_all add: m)
  have fields: "fm_is_file meta" "f = \<lparr>od_dev = fm_dev meta, od_mode = fm_mode meta, od_uid = fm_uid meta,
      od_gid = fm_gid meta, od_mtime = nat (fm_mtime meta), od_size = fm_len meta\<rparr>"
    using Cons(3) by (simp_all add: x f_def sent_member_def)
  note copy = copying.intro [OF slice_reader.byte_reader_axioms dv_byte_writer [OF assms(1)]]
  obtain de d' where de: "write_entry slice_read (dv_write_all deflate vec_write) cw (as_bytes name) f data
      = Some (Ok (), cw\<lparr>cw_inner := de, cw_next_ino := cw_next_ino cw + 1\<rparr>, d')"
    "encoder_ok inflate (dv_written inflate de) de"
    "dv_written inflate de = dv_written inflate (cw_inner cw) @ odc_member (Suc ino) f (as_bytes name) data"
    using copying.write_entry_all [OF copy TrueI Cons(5) _ _ ok(1), of data] Cons(4) by auto
  define cw1 where "cw1 = cw\<lparr>cw_inner := de, cw_next_ino := Suc ino\<rparr>"
  have ap: "append_file slice_read (dv_write_all deflate vec_write) cw name meta data = Some (Ok (), cw1, d')"
    using de(1) fields Cons(4) by (simp add: append_file_def cw1_def)
  from Cons(1) [of "Suc ino" cw1] ok(2) Cons(3) de(2,3) ap show ?case
    by (fastforce simp: cw1_def x m [unfolded x])
qed

lemma produce_all:
  assumes "deflates deflate inflate" "members_ok 0 (map sent_member files)" "\<forall>f \<in> set files. fm_is_file (fst (snd f))"
  shows "\<exists>body. produce deflate slice_read vec_write (\<lambda>w. (Ok (), w)) files [] = Some (Ok (), body)
    \<and> dv_decode inflate body = Some (odc_members 0 (map sent_member files) @ odc_trailer)
    \<and> body \<noteq> [] \<and> hd body \<noteq> 0x1f"
proof -
  let ?cw = "cpio_writer_new (dv_encoder_new [])"
  have start: "encoder_ok inflate [] (dv_encoder_new [])"
    by (simp add: encoder_ok_def encoded_def dv_encoder_new_def DVZIP_BLOCK_BYTES_def)
  have start': "encoder_ok inflate (dv_written inflate (dv_encoder_new [])) (dv_encoder_new [])"
    using start encoder_ok_written [OF start] by simp
  obtain de where de: "fold (\<lambda>(name, meta, d) st. (case st of
               Some (Ok _, cw) \<Rightarrow> (case append_file slice_read (dv_write_all deflate vec_write) cw name meta d of
                    None \<Rightarrow> None | Some (r, cw', _) \<Rightarrow> Some (r, cw')) | _ \<Rightarrow> st)) files (Some (Ok (), ?cw))
      = Some (Ok (), ?cw\<lparr>cw_inner := de, cw_next_ino := 0 + length files\<rparr>)"
    "encoder_ok inflate (dv_written inflate de) de" "dv_written inflate de = odc_members 0 (map sent_member files)"
    using produce_files [OF assms, of ?cw] start' encoder_ok_written [OF start] by (auto simp: cpio_writer_new_def)
  note copy = copying.intro [OF slice_reader.byte_reader_axioms dv_byte_writer [OF assms(1)]]
  obtain de2 where de2: "cpio_finish (dv_write_all deflate vec_write) (\<lambda>de. (Ok (), de))
      (?cw\<lparr>cw_inner := de, cw_next_ino := 0 + length files\<rparr>) = (Ok (), de2)"
    "encoder_ok inflate (odc_members 0 (map sent_member files) @ odc_trailer) de2"
    using copying.cpio_finish_all [OF copy, of "?cw\<lparr>cw_inner := de, cw_next_ino := 0 + length files\<rparr>" "\<lambda>de. (Ok (), de)"] de(2,3)
    by auto
  obtain body where body: "dv_finish deflate vec_write (\<lambda>w. (Ok (), w)) de2 = (Ok (), body)"
    "dv_decode inflate body = Some (odc_members 0 (map sent_member files) @ odc_trailer)"
    "body = [] \<or> 4 \<le> length body \<and> hd body \<noteq> 0x1f"
    using dv_finish_vec [OF assms(1) de2(2)] by blast
  have "odc_trailer \<noteq> []" by (simp add: odc_trailer_def)
  then have "body \<noteq> []" using body(2) by (auto simp: dv_decode.simps)
  with body de(1) de2(1) show ?thesis by (auto simp: produce_def Let_def)
qed

text \<open>A disk with room and names to spare, on which the theorems can be evaluated.\<close>

definition spare_name :: "files \<Rightarrow> ustr" where
  "spare_name files = PARTIAL_PREFIX @ replicate (LEAST k. files (PARTIAL_PREFIX @ replicate k 120) = None) 120"

definition roomy_os :: os where
  "roomy_os = \<lparr>os_temp = (\<lambda>t files. if finite (dom files) then Ok (spare_name files) else Err (Plain Other [])),
     os_free = (\<lambda>t. Ok (2 ^ 40)), os_write = (\<lambda>t. None), os_place = (\<lambda>t. None), os_unlink = (\<lambda>t. True)\<rparr>"

lemma spare_name_free:
  assumes "finite (dom files)"
  shows "files (spare_name files) = None"
proof -
  have "inj (\<lambda>k. PARTIAL_PREFIX @ replicate k (120 :: uchar))" by (auto simp: inj_def)
  then have "infinite (range (\<lambda>k. PARTIAL_PREFIX @ replicate k (120 :: uchar)))" by (simp add: finite_image_iff)
  with assms have "\<not> range (\<lambda>k. PARTIAL_PREFIX @ replicate k (120 :: uchar)) \<subseteq> dom files"
    using finite_subset by blast
  then obtain k where "files (PARTIAL_PREFIX @ replicate k 120) = None" by auto
  then show ?thesis unfolding spare_name_def by (rule LeastI)
qed

lemma roomy_os_works: "os_works roomy_os 1000"
  using spare_name_free
  by (auto simp: os_works_def os_ok_def roomy_os_def DISK_CHECK_INTERVAL_def spare_name_def)

abbreviation one_file :: "(ustr \<times> file_meta \<times> bytes) list" where
  "one_file \<equiv> [(lit ''a'', \<lparr>fm_is_file = True, fm_dev = 0, fm_mode = 33188, fm_uid = 0, fm_gid = 0, fm_mtime = 0, fm_len = 2\<rparr>, [7, 8])]"

abbreviation small_limits :: extract_limits where
  "small_limits \<equiv> \<lparr>xl_byte_limit = 4096, xl_max_members = 512, xl_min_free_bytes = 1000\<rparr>"

abbreviation new_disk :: disk where
  "new_disk \<equiv> \<lparr>dk_files = Map.empty, dk_partials = [], dk_tick = 0\<rparr>"

abbreviation new_progress :: progress where
  "new_progress \<equiv> \<lparr>pg_decoded = 0, pg_trailer_seen = False, pg_clean_end = False\<rparr>"

abbreviation pair_env :: "(source \<times> progress, bool, unit) extract_env" where
  "pair_env \<equiv> net_env False pair_zstep () (\<lambda>_ _ _. None) id"

lemma one_file_ok:
  "members_ok 0 (map sent_member one_file)" "\<forall>f \<in> set one_file. fm_is_file (fst (snd f))"
  "length one_file \<le> xl_max_members small_limits"
  "length (odc_members 0 (map sent_member one_file) @ odc_trailer) \<le> xl_byte_limit small_limits"
  "[lit ''a''] = map (\<lambda>f. safe_name id (from_utf8_lossy (as_bytes (fst f))) (lit ''file'')) one_file"
  "os_works roomy_os (xl_min_free_bytes small_limits)"
  "finite (dom (dk_files new_disk))" "set (dk_partials new_disk) \<subseteq> dom (dk_files new_disk)"
proof -
  have name: "from_utf8_lossy (as_bytes (lit ''a'')) = lit ''a''" by (simp add: eval_defs utf8_step_def)
  show ok: "members_ok 0 (map sent_member one_file)"
    by (simp add: sent_member_def name) (simp add: eval_defs)
  show "length (odc_members 0 (map sent_member one_file) @ odc_trailer) \<le> xl_byte_limit small_limits"
    using ok by (simp add: sent_member_def length_odc_member length_odc_trailer lit_def utf8_len_def)
  show "[lit ''a''] = map (\<lambda>f. safe_name id (from_utf8_lossy (as_bytes (fst f))) (lit ''file'')) one_file"
    by (simp add: name) (simp add: eval_defs shorten.simps)
qed (simp_all add: roomy_os_works)

lemma one_file_extracted:
  "\<exists>src x dk'. extract_archive pair_env roomy_os small_limits (src, new_progress) new_disk = Some (Ok x, dk')
    \<and> ex_names x = [lit ''a''] \<and> dk_files dk' = [lit ''a'' \<mapsto> [7, 8]]"
proof -
  let ?ms = "map sent_member one_file"
  obtain body where body: "dv_decode (pair_inflate False) body = Some (odc_members 0 ?ms @ odc_trailer)" "body \<noteq> []" "hd body \<noteq> 0x1f"
    using produce_all [OF pair_deflates one_file_ok(1,2)] by blast
  have ms: "map (member_name pair_env) ?ms = [lit ''a'']" "map member_data ?ms = [[7, 8]]"
    unfolding one_file_ok(5) by (simp_all add: member_name_def sent_member_def)
  have src: "source_good [Data body]" "source_interrupts [Data body] = 0" "source_content [Data body] = body"
    "source_ending [Data body] = None" using body(2) by (simp_all add: source_good_def)
  have "free_names (dom (dk_files new_disk)) (map (member_name pair_env) ?ms) = Some [lit ''a'']"
    unfolding ms by (rule free_names_distinct) simp_all
  with net.extract_delivers [where zi = False and zs = pair_zstep and gi = "()" and gr = "\<lambda>_ _ _. None" and nfc = id
      and inflate = pair_inflate and os = roomy_os and limits = small_limits and body = "([Data body], new_progress)"
      and ms = ?ms and dk = new_disk]
    one_file_ok pair_zlib_streams src body
  have "\<exists>x dk'. extract_archive pair_env roomy_os small_limits ([Data body], new_progress) new_disk = Some (Ok x, dk')
    \<and> ex_names x = [lit ''a''] \<and> dk_files dk' = (dk_files new_disk)([lit ''a''] [\<mapsto>] [[7, 8]])"
    by (simp only: net_env_simps fst_conv length_map ms simp_thms) blast
  then show ?thesis by auto
qed

text \<open>
  C4. An upload is all or nothing. Whatever the body holds, whatever the network, the disk and the
  decompressors do, and wherever it fails: if extraction returns an error, the download directory is
  exactly as it was, and the registry of files in progress too. If it succeeds, the directory is what
  it was plus the reported names; each of them is new (no file was replaced), they are distinct, and
  each is one visible entry of the directory. The hypotheses: unlinking works, temporary names are
  fresh and have the prefix, and files other uploads have in progress exist.
\<close>

theorem extract_all_or_nothing:
  assumes "os_ok os" "set (dk_partials dk) \<subseteq> dom (dk_files dk)"
    and "extract_archive env os limits body dk = Some (r, dk')"
  shows "dk_partials dk' = dk_partials dk \<and>
    (case r of
       Err e \<Rightarrow> dk_files dk' = dk_files dk
     | Ok x \<Rightarrow> distinct (ex_names x) \<and> (\<forall>n \<in> set (ex_names x). visible_name n \<and> dk_files dk n = None)
         \<and> (\<exists>contents. length contents = length (ex_names x)
              \<and> dk_files dk' = (dk_files dk)(ex_names x [\<mapsto>] contents)))"
  using extract_outcome [OF assms] by (auto split: result.splits)

text \<open>
  C5. A successful upload stays within its ceilings: no more files than the member limit, and all
  the stored files together no larger than the byte limit.
\<close>

theorem extract_within_limits:
  assumes "os_ok os" "set (dk_partials dk) \<subseteq> dom (dk_files dk)" "dv_env_bounded (xe_dv env)"
    and "extract_archive env os limits body dk = Some (Ok x, dk')"
  shows "length (ex_names x) \<le> xl_max_members limits
    \<and> (\<Sum>n \<leftarrow> ex_names x. length (the (dk_files dk' n))) \<le> xl_byte_limit limits"
proof -
  obtain contents where c: "length contents = length (ex_names x)" "distinct (ex_names x)"
    "dk_files dk' = (dk_files dk)(ex_names x [\<mapsto>] contents)" "length (ex_names x) \<le> xl_max_members limits"
    "sum_list (map length contents) \<le> xl_byte_limit limits"
    using extract_outcome [OF assms(1,2,4)] limited_read_bounded [OF assms(3)] by auto
  have "map (\<lambda>n. length (the (dk_files dk' n))) (ex_names x) = map length contents"
    using arg_cong [OF map_upds_values [OF c(2,1), of "dk_files dk"], of "map length"]
    by (simp add: c(3) comp_def)
  with c show ?thesis by metis
qed

theorem extract_all_or_nothing_witness:
  "\<exists>src x dk'. extract_archive pair_env roomy_os small_limits (src, new_progress) new_disk = Some (Ok x, dk')
    \<and> ex_names x = [lit ''a''] \<and> (\<forall>n \<in> set (ex_names x). visible_name n)"
proof -
  have ok: "os_ok roomy_os" using one_file_ok(6) by (simp add: os_works_def)
  obtain src x dk' where x: "extract_archive pair_env roomy_os small_limits (src, new_progress) new_disk = Some (Ok x, dk')"
    "ex_names x = [lit ''a'']" using one_file_extracted by blast
  from extract_all_or_nothing [OF ok one_file_ok(8) x(1)] x show ?thesis
    by (intro exI [of _ src] exI [of _ x] exI [of _ dk']) simp
qed

theorem extract_within_limits_witness:
  "\<exists>src x dk'. extract_archive pair_env roomy_os small_limits (src, new_progress) new_disk = Some (Ok x, dk')
    \<and> ex_names x = [lit ''a''] \<and> (\<Sum>n \<leftarrow> ex_names x. length (the (dk_files dk' n))) \<le> 4096"
proof -
  have ok: "os_ok roomy_os" using one_file_ok(6) by (simp add: os_works_def)
  have "reader_bounded (ev_read (xe_dv pair_env))"
    unfolding reader_bounded_def net_env_simps
  proof (intro allI impI)
    fix s :: "source \<times> progress" and n bs s'
    assume "map_option (\<lambda>(r, s'). (r, s', snd s)) (source_read (fst s) n) = Some (Ok bs, s')"
    then show "length bs \<le> n" by (cases "(fst s, n)" rule: source_read.cases) auto
  qed
  then have bounded: "dv_env_bounded (xe_dv pair_env)"
    using pair_zlib_bounded by (simp add: dv_env_bounded_def net_env_def)
  obtain src x dk' where x: "extract_archive pair_env roomy_os small_limits (src, new_progress) new_disk = Some (Ok x, dk')"
    "ex_names x = [lit ''a'']" using one_file_extracted by blast
  from extract_within_limits [OF ok one_file_ok(8) bounded x(1)] x show ?thesis
    by (intro exI [of _ src] exI [of _ x] exI [of _ dk']) simp
qed



end
