(* ===== verification/Buffered.thy ===== *)
theory Buffered
  imports Io
begin

text \<open>
  Rust's \<open>BufReader\<close> over a reader, and the bounded \<open>read_line\<close> of http.rs on it. A \<open>BufReader\<close> over
  a reader that keeps the \<open>byte_reader\<close> contract keeps it too, with the buffered bytes first; and
  \<open>read_line\<close> then returns the first line of what the stream holds, cut at the maximum length,
  however the stream arrives.
\<close>

record 's buf_reader =
  bf_buf :: bytes
  bf_inner :: 's

abbreviation buf_new :: "'s \<Rightarrow> 's buf_reader" where
  "buf_new s \<equiv> \<lparr>bf_buf = [], bf_inner = s\<rparr>"

definition bf_fill :: "'s reader \<Rightarrow> 's buf_reader \<Rightarrow> ((bytes, io_error) result \<times> 's buf_reader) option" where [eval_defs]:
  "bf_fill rd b =
     (if bf_buf b \<noteq> [] then Some (Ok (bf_buf b), b)
      else (case rd (bf_inner b) IO_CHUNK_BYTES of
              None \<Rightarrow> None
            | Some (Err e, s) \<Rightarrow> Some (Err e, b\<lparr>bf_inner := s\<rparr>)
            | Some (Ok bs, s) \<Rightarrow> Some (Ok bs, b\<lparr>bf_inner := s, bf_buf := bs\<rparr>)))"

definition bf_consume :: "nat \<Rightarrow> 's buf_reader \<Rightarrow> 's buf_reader" where [eval_defs]:
  "bf_consume k b = b\<lparr>bf_buf := drop k (bf_buf b)\<rparr>"

text \<open>A read at least as large as the buffer goes past it when it is empty.\<close>

definition bf_read :: "'s reader \<Rightarrow> 's buf_reader reader" where [eval_defs]:
  "bf_read rd b n =
     (if bf_buf b = [] \<and> n \<ge> IO_CHUNK_BYTES then
        (case rd (bf_inner b) n of None \<Rightarrow> None | Some (r, s) \<Rightarrow> Some (r, b\<lparr>bf_inner := s\<rparr>))
      else (case bf_fill rd b of
              None \<Rightarrow> None
            | Some (Err e, b') \<Rightarrow> Some (Err e, b')
            | Some (Ok bs, b') \<Rightarrow> Some (Ok (take n bs), bf_consume n b')))"

definition NEWLINE :: u8 where [eval_defs]:
  "NEWLINE = 10"

definition through_newline :: "bytes \<Rightarrow> bytes" where [eval_defs]:
  "through_newline w = takeWhile (\<lambda>b. b \<noteq> NEWLINE) w @ [NEWLINE]"

partial_function (option) read_line_loop ::
    "'s reader \<Rightarrow> 's buf_reader \<Rightarrow> nat \<Rightarrow> bytes \<Rightarrow> ((bytes, io_error) result \<times> 's buf_reader) option" where
  "read_line_loop rd b mx line =
     (if length line < mx then
        (case bf_fill rd b of
           None \<Rightarrow> None
         | Some (Err e, b') \<Rightarrow>
             if is_interrupted e then read_line_loop rd b' mx line else Some (Err e, b')
         | Some (Ok available, b') \<Rightarrow>
             if available = [] then Some (Ok line, b')
             else (let window = take (mx - length line) available
                   in if NEWLINE \<in> set window
                      then Some (Ok (line @ through_newline window),
                                 bf_consume (length (through_newline window)) b')
                      else read_line_loop rd (bf_consume (length window) b') mx (line @ window)))
      else Some (Ok line, b))"

definition read_line :: "'s reader \<Rightarrow> 's buf_reader \<Rightarrow> nat \<Rightarrow> ((bytes, io_error) result \<times> 's buf_reader) option" where [eval_defs]:
  "read_line rd b mx = read_line_loop rd b mx []"

text \<open>The line a stream starts with, at most \<open>mx\<close> bytes of it.\<close>

definition first_line :: "nat \<Rightarrow> bytes \<Rightarrow> bytes" where [eval_defs]:
  "first_line mx bs = (let w = take mx bs in if NEWLINE \<in> set w then through_newline w else w)"

lemma through_newline_append: "NEWLINE \<in> set w \<Longrightarrow> through_newline (w @ v) = through_newline w"
  by (simp add: through_newline_def)

lemma through_newline_prefix:
  assumes "NEWLINE \<in> set w"
  shows "w = through_newline w @ drop (length (through_newline w)) w"
proof -
  obtain a c where w: "w = a @ NEWLINE # c" "NEWLINE \<notin> set a" using split_list_first [OF assms] by blast
  moreover from this have "takeWhile (\<lambda>b. b \<noteq> NEWLINE) w = a"
    by (simp add: takeWhile_append2 takeWhile_tail) (metis takeWhile_eq_all_conv)
  ultimately show ?thesis by (simp add: through_newline_def)
qed

lemma length_first_line: "length (first_line mx bs) \<le> mx"
proof (cases "NEWLINE \<in> set (take mx bs)")
  case True
  then have "length (through_newline (take mx bs)) \<le> length (take mx bs)"
    by (metis through_newline_prefix length_append le_add1)
  with True show ?thesis by (simp add: first_line_def)
qed (simp add: first_line_def)

lemma first_line_prefix: "first_line mx bs @ drop (length (first_line mx bs)) bs = bs"
proof -
  have "\<exists>r. bs = first_line mx bs @ r"
  proof (cases "NEWLINE \<in> set (take mx bs)")
    case True
    from through_newline_prefix [OF this] have "bs = through_newline (take mx bs) @
        drop (length (through_newline (take mx bs))) (take mx bs) @ drop mx bs"
      by (metis append_assoc append_take_drop_id)
    with True show ?thesis by (auto simp: first_line_def)
  next
    case False
    then show ?thesis by (auto simp: first_line_def intro: exI [of _ "drop mx bs"])
  qed
  then obtain r where "bs = first_line mx bs @ r" by blast
  then show ?thesis by (metis append_eq_conv_conj)
qed

lemma first_line_Nil_iff: "0 < mx \<Longrightarrow> first_line mx bs = [] \<longleftrightarrow> bs = []"
  by (auto simp: first_line_def Let_def through_newline_def)

lemma first_line_cut:
  assumes "NEWLINE \<notin> set w" "length w \<le> mx"
  shows "first_line mx (w @ v) = w @ first_line (mx - length w) v"
  using assms by (auto simp: first_line_def Let_def through_newline_def takeWhile_append)

lemma first_line_found:
  "NEWLINE \<in> set (take mx w) \<Longrightarrow> first_line mx (w @ v) = through_newline (take mx w)"
  by (auto simp: first_line_def Let_def through_newline_append)

text \<open>A line that is complete, when the stream starts with it.\<close>

lemma first_line_whole:
  assumes "NEWLINE \<notin> set l" "length l < mx"
  shows "first_line mx (l @ NEWLINE # rest) = l @ [NEWLINE]"
proof -
  have "0 < mx - length l" using assms(2) by simp
  then have "first_line (mx - length l) (NEWLINE # rest) = [NEWLINE]"
    by (cases "mx - length l") (auto simp: first_line_def through_newline_def)
  with first_line_cut [OF assms(1), of mx "NEWLINE # rest"] assms(2) show ?thesis by simp
qed

subsection \<open>The contract\<close>

locale buffered_input = byte_reader rd good content ending pending
  for rd :: "'s reader" and good content ending pending
begin

definition bf_good :: "'s buf_reader \<Rightarrow> bool" where
  "bf_good b \<longleftrightarrow> good (bf_inner b)"

definition bf_content :: "'s buf_reader \<Rightarrow> bytes" where
  "bf_content b = bf_buf b @ content (bf_inner b)"

definition bf_ending :: "'s buf_reader \<Rightarrow> io_error option" where
  "bf_ending b = ending (bf_inner b)"

definition bf_pending :: "'s buf_reader \<Rightarrow> nat" where
  "bf_pending b = pending (bf_inner b)"

lemmas bf_defs = bf_good_def bf_content_def bf_ending_def bf_pending_def

lemma bf_fill_cases:
  assumes "bf_good b"
  obtains (eof) b' where "bf_fill rd b = Some (Ok [], b')" "bf_good b'" "bf_content b = []"
      "bf_ending b = None" "bf_content b' = []" "bf_ending b' = None" "bf_pending b' \<le> bf_pending b"
      "bf_buf b' = []"
  | (some) bs b' where "bf_fill rd b = Some (Ok bs, b')" "bf_good b'" "bs \<noteq> []" "bf_buf b' = bs"
      "bf_content b' = bf_content b" "bf_ending b' = bf_ending b" "bf_pending b' \<le> bf_pending b"
  | (interrupted) e b' where "bf_fill rd b = Some (Err e, b')" "bf_good b'" "is_interrupted e"
      "bf_content b' = bf_content b" "bf_ending b' = bf_ending b" "bf_pending b' < bf_pending b"
  | (failed) e b' where "bf_fill rd b = Some (Err e, b')" "\<not> is_interrupted e"
      "bf_content b = []" "bf_ending b = Some e"
proof (cases "bf_buf b = []")
  case False
  then show thesis using some [of "bf_buf b" b] assms by (auto simp: bf_fill_def)
next
  case True
  have "good (bf_inner b)" "0 < IO_CHUNK_BYTES" using assms by (simp_all add: bf_defs IO_CHUNK_BYTES_def)
  then show thesis
  proof (cases rule: rd_cases)
    case (eof s')
    then show thesis using that(1) [of "b\<lparr>bf_inner := s', bf_buf := []\<rparr>"] True
      by (auto simp: bf_fill_def bf_defs)
  next
    case (some bs s')
    then show thesis using that(2) [of bs "b\<lparr>bf_inner := s', bf_buf := bs\<rparr>"] True
      by (auto simp: bf_fill_def bf_defs)
  next
    case (interrupted e s')
    then show thesis using that(3) [of e "b\<lparr>bf_inner := s'\<rparr>"] True by (auto simp: bf_fill_def bf_defs)
  next
    case (failed e s')
    then show thesis using that(4) [of e "b\<lparr>bf_inner := s'\<rparr>"] True by (auto simp: bf_fill_def bf_defs)
  qed
qed

lemma bf_consume_same [simp]:
  "bf_good (bf_consume k b) = bf_good b" "bf_ending (bf_consume k b) = bf_ending b"
  "bf_pending (bf_consume k b) = bf_pending b"
  by (simp_all add: bf_consume_def bf_defs)

lemma bf_consume_content: "k \<le> length (bf_buf b) \<Longrightarrow> bf_content (bf_consume k b) = drop k (bf_content b)"
  by (simp add: bf_consume_def bf_defs)

lemma bf_consume_content_take: "bf_content b = take n (bf_buf b) @ bf_content (bf_consume n b)"
  by (simp add: bf_consume_def bf_defs flip: append_assoc)

lemma bf_read_outcome:
  assumes "bf_good b" "0 < n"
  shows "read_outcome (bf_read rd) bf_good bf_content bf_ending bf_pending b n"
proof (cases "bf_buf b = [] \<and> n \<ge> IO_CHUNK_BYTES")
  case True
  from assms(1) have "good (bf_inner b)" by (simp add: bf_defs)
  from this assms(2) show ?thesis
    by (cases rule: rd_cases) (use True in \<open>auto simp: read_outcome_def bf_read_def bf_defs\<close>)
next
  case False
  then have eq: "bf_read rd b n = (case bf_fill rd b of
              None \<Rightarrow> None
            | Some (Err e, b') \<Rightarrow> Some (Err e, b')
            | Some (Ok bs, b') \<Rightarrow> Some (Ok (take n bs), bf_consume n b'))" by (auto simp: bf_read_def)
  from assms(1) show ?thesis
  proof (cases rule: bf_fill_cases)
    case (eof b')
    then have "bf_content (bf_consume n b') = []" by (auto simp: bf_consume_def bf_defs)
    with eof show ?thesis by (simp add: read_outcome_def eq)
  next
    case (some bs b')
    then show ?thesis using assms(2) bf_consume_content_take [of b' n] by (auto simp: read_outcome_def eq)
  qed (auto simp: read_outcome_def eq)
qed

end

sublocale buffered_input \<subseteq> bf: byte_reader "bf_read rd" bf_good bf_content bf_ending bf_pending
  by (rule byte_readerI) (rule bf_read_outcome)

context buffered_input
begin

text \<open>
  Whether the stream decides the line: a newline or the maximum is reached, or the stream ends
  without a failure.
\<close>

definition line_decided :: "nat \<Rightarrow> 's buf_reader \<Rightarrow> bool" where
  "line_decided mx b \<longleftrightarrow> bf_ending b = None \<or> NEWLINE \<in> set (take mx (bf_content b)) \<or> mx \<le> length (bf_content b)"

lemma read_line_loop_spec:
  assumes "bf_good b" "length line \<le> mx"
  shows "\<exists>r b'. read_line_loop rd b mx line = Some (r, b') \<and>
    (let l = first_line (mx - length line) (bf_content b) in
     if line_decided (mx - length line) b
     then r = Ok (line @ l) \<and> bf_good b' \<and> bf_content b' = drop (length l) (bf_content b)
       \<and> bf_ending b' = bf_ending b \<and> bf_pending b' \<le> bf_pending b
     else (\<exists>e. bf_ending b = Some e \<and> r = Err e))"
  using assms
proof (induction "(mx - length line, bf_pending b)" arbitrary: b line
    rule: wf_induct_rule [OF wf_lex_prod [OF wf_measure [of id] wf_measure [of id]]])
  case (1 b line)
  show ?case
  proof (cases "length line < mx")
    case False
    with 1 show ?thesis by (simp add: read_line_loop.simps [of rd b] first_line_def line_decided_def)
  next
    case True
    define k where "k = mx - length line"
    have k: "0 < k" using True by (simp add: k_def)
    from 1(2) show ?thesis
    proof (cases rule: bf_fill_cases)
      case (eof b')
      then show ?thesis using True
        by (subst read_line_loop.simps) (simp add: first_line_def line_decided_def)
    next
      case (interrupted e b')
      then have eq: "read_line_loop rd b mx line = read_line_loop rd b' mx line"
        using True by (subst read_line_loop.simps) simp
      from interrupted 1(1) [of line b'] 1(3) show ?thesis
        unfolding eq line_decided_def Let_def by (auto split: if_splits)
    next
      case (failed e b')
      then show ?thesis using True k
        by (subst read_line_loop.simps) (auto simp: line_decided_def)
    next
      case (some bs b')
      define w where "w = take k bs"
      have c: "bf_content b = bs @ content (bf_inner b')" using some by (simp add: bf_content_def)
      have wlen: "length w \<le> length (bf_buf b')" "length w \<le> k" using some by (simp_all add: w_def)
      show ?thesis
      proof (cases "NEWLINE \<in> set w")
        case nl: True
        let ?t = "through_newline w"
        have t: "length ?t \<le> length w" using through_newline_prefix [OF nl] by (metis length_append le_add1)
        have run: "read_line_loop rd b mx line = Some (Ok (line @ ?t), bf_consume (length ?t) b')"
          using some True nl by (subst read_line_loop.simps) (simp add: w_def k_def Let_def)
        have fl: "first_line k (bf_content b) = ?t"
          unfolding c using nl by (simp add: first_line_found w_def)
        have "NEWLINE \<in> set (take k (bf_content b))" unfolding c using nl by (simp add: w_def)
        then have "line_decided k b" by (simp add: line_decided_def)
        with run fl some t wlen show ?thesis
          by (simp add: bf_consume_content flip: k_def)
      next
        case no: False
        let ?b2 = "bf_consume (length w) b'" and ?l2 = "line @ w"
        have eq: "read_line_loop rd b mx line = read_line_loop rd ?b2 mx ?l2"
          using some True no by (subst read_line_loop.simps) (simp add: w_def k_def Let_def)
        have w0: "w \<noteq> []" using some k by (simp add: w_def)
        have c2: "bf_content ?b2 = drop (length w) (bf_content b)"
          using some wlen by (simp add: bf_consume_content)
        have "take (length w) (bf_content b) = w" by (simp add: c w_def min_def)
        then have cw: "bf_content b = w @ bf_content ?b2" unfolding c2 by (metis append_take_drop_id)
        have le: "length ?l2 \<le> mx" using wlen True by (simp add: k_def)
        have less: "mx - length ?l2 < mx - length line" using w0 wlen True by (cases w) (auto simp: k_def)
        have k2: "mx - length ?l2 = k - length w" by (simp add: k_def)
        from less 1(1) [of ?l2 ?b2] some(2) le obtain r b3 where
          ih: "read_line_loop rd ?b2 mx ?l2 = Some (r, b3)"
            "let l = first_line (k - length w) (bf_content ?b2) in
             if line_decided (k - length w) ?b2
             then r = Ok (?l2 @ l) \<and> bf_good b3 \<and> bf_content b3 = drop (length l) (bf_content ?b2)
               \<and> bf_ending b3 = bf_ending ?b2 \<and> bf_pending b3 \<le> bf_pending ?b2
             else (\<exists>e. bf_ending ?b2 = Some e \<and> r = Err e)"
          unfolding k2 by auto
        have fl: "first_line k (bf_content b) = w @ first_line (k - length w) (bf_content ?b2)"
          unfolding cw by (rule first_line_cut [OF no wlen(2)])
        have "NEWLINE \<in> set (take k (bf_content b)) \<longleftrightarrow> NEWLINE \<in> set (take (k - length w) (bf_content ?b2))"
          using no wlen by (subst cw) auto
        moreover have "k \<le> length (bf_content b) \<longleftrightarrow> k - length w \<le> length (bf_content ?b2)"
          using wlen by (subst cw) auto
        ultimately have dec: "line_decided (k - length w) ?b2 = line_decided k b"
          using some by (simp add: line_decided_def)
        show ?thesis using ih some(5-7) fl dec c2 unfolding eq k_def [symmetric] 
          by (auto simp: Let_def add.commute split: if_splits)
      qed
    qed
  qed
qed

lemma read_line_ok:
  assumes "bf_good b" "line_decided mx b"
  obtains b' where "read_line rd b mx = Some (Ok (first_line mx (bf_content b)), b')" "bf_good b'"
    "bf_content b' = drop (length (first_line mx (bf_content b))) (bf_content b)"
    "bf_ending b' = bf_ending b" "bf_pending b' \<le> bf_pending b"
  using read_line_loop_spec [OF assms(1), of "[]" mx] assms(2) by (auto simp: read_line_def Let_def)

lemma read_line_fails:
  assumes "bf_good b" "\<not> line_decided mx b"
  obtains e b' where "read_line rd b mx = Some (Err e, b')" "bf_ending b = Some e"
  using read_line_loop_spec [OF assms(1), of "[]" mx] assms(2) by (auto simp: read_line_def Let_def)

end

interpretation buffered_source: buffered_input source_read source_good source_content source_ending source_interrupts
  by unfold_locales

end
