(* ===== verification/Http.thy ===== *)
theory Http
  imports Names Buffered
begin

text \<open>
  The receiver's HTTP/1.1 (omdrop-proto/src/http.rs): framing headers, the bounded body reader with
  its progress deadline and its patience at chunk boundaries, request heads and responses.

  \<^item> A connection is a \<open>BufReader\<close> over a reader. The clock, the closures of \<open>Patience\<close> and the
    parser of request heads (httparse) are parameters: \<open>be_now\<close> is the time in nanoseconds as the
    connection's state has it, \<open>be_set_wait\<close> changes the socket's read timeout, \<open>be_whole\<close> is
    \<open>Patience::is_complete\<close>.
  \<^item> Durations are nanoseconds. The rate check, which the code does in \<open>f64\<close>, is the comparison
    of the exact values.
\<close>

definition NANOS :: nat where [eval_defs]:
  "NANOS = 1000000000"

definition READ_IDLE_TIMEOUT :: nat where [eval_defs]:
  "READ_IDLE_TIMEOUT = 30 * NANOS"

definition INITIAL_READ_SECONDS :: nat where [eval_defs]:
  "INITIAL_READ_SECONDS = 60"

definition MIN_READ_BYTES_PER_SECOND :: nat where [eval_defs]:
  "MIN_READ_BYTES_PER_SECOND = 64 * 1024"

definition MAX_METADATA_BYTES :: nat where [eval_defs]:
  "MAX_METADATA_BYTES = 1024 * 1024"

definition MAX_CHUNK_LINE_BYTES :: nat where [eval_defs]:
  "MAX_CHUNK_LINE_BYTES = 128"

definition MAX_TRAILER_BYTES :: nat where [eval_defs]:
  "MAX_TRAILER_BYTES = 8 * 1024"

definition MAX_LINE_BYTES :: nat where [eval_defs]:
  "MAX_LINE_BYTES = 65536"

definition MAX_HEADERS :: nat where [eval_defs]:
  "MAX_HEADERS = 100"

subsection \<open>Body errors\<close>

definition body_status :: "body_error \<Rightarrow> nat" where [eval_defs]:
  "body_status b =
     (case b of BodyInvalid _ \<Rightarrow> 400 | BodyTooLarge _ \<Rightarrow> 413 | BodyTimeout _ \<Rightarrow> 408 | BodyComplete \<Rightarrow> 408)"

definition is_timeout :: "io_error \<Rightarrow> bool" where [eval_defs]:
  "is_timeout e \<longleftrightarrow> error_kind_of e = WouldBlock \<or> error_kind_of e = TimedOut"

definition classify :: "io_error \<Rightarrow> (body_error, io_error) result" where [eval_defs]:
  "classify e =
     (case e of OfBody b \<Rightarrow> Ok b | _ \<Rightarrow> if is_timeout e then Ok (BodyTimeout Idle) else Err e)"

definition is_complete :: "io_error \<Rightarrow> bool" where [eval_defs]:
  "is_complete e \<longleftrightarrow> e = OfBody BodyComplete"

subsection \<open>The progress deadline\<close>

record deadline =
  dl_started :: nat
  dl_transferred :: nat

definition deadline_new :: "nat \<Rightarrow> deadline" where [eval_defs]:
  "deadline_new now = \<lparr>dl_started = now, dl_transferred = 0\<rparr>"

definition behind :: "nat \<Rightarrow> deadline \<Rightarrow> bool" where [eval_defs]:
  "behind now d \<longleftrightarrow>
     (now - dl_started d) * MIN_READ_BYTES_PER_SECOND
       > (INITIAL_READ_SECONDS * MIN_READ_BYTES_PER_SECOND + dl_transferred d) * NANOS"

definition note_read :: "nat \<Rightarrow> nat \<Rightarrow> deadline \<Rightarrow> (unit, body_error) result \<times> deadline" where [eval_defs]:
  "note_read now k d =
     (let d' = d\<lparr>dl_transferred := dl_transferred d + k\<rparr>
      in (if behind now d' then Err (BodyTimeout Rate) else Ok (), d'))"

subsection \<open>Headers and framing\<close>

type_synonym headers = "(ustr \<times> ustr) list"

definition header_get :: "headers \<Rightarrow> ustr \<Rightarrow> ustr option" where [eval_defs]:
  "header_get hs name = map_option snd (find (\<lambda>(k, _). eq_ignore_ascii_case k name) hs)"

definition header_count :: "headers \<Rightarrow> ustr \<Rightarrow> nat" where [eval_defs]:
  "header_count hs name = length (filter (\<lambda>(k, _). eq_ignore_ascii_case k name) hs)"

definition show_headers :: "headers \<Rightarrow> ustr" where [eval_defs]:
  "show_headers hs = join (lit ''; '') (map (\<lambda>(k, v). k @ lit '': '' @ v) hs)"

datatype body_plan = Chunked | Length nat

definition expected :: "body_plan \<Rightarrow> nat option" where [eval_defs]:
  "expected p = (case p of Chunked \<Rightarrow> None | Length n \<Rightarrow> Some n)"

abbreviation TRANSFER_ENCODING :: ustr where
  "TRANSFER_ENCODING \<equiv> lit ''Transfer-Encoding''"

abbreviation CONTENT_LENGTH :: ustr where
  "CONTENT_LENGTH \<equiv> lit ''Content-Length''"

definition too_large :: "nat \<Rightarrow> body_error" where [eval_defs]:
  "too_large limit = BodyTooLarge [T ''request body exceeds '', Num limit, T ''-byte limit'']"

definition content_length_plan :: "ustr \<Rightarrow> nat \<Rightarrow> (body_plan, body_error) result" where [eval_defs]:
  "content_length_plan value limit =
     (let ds = trim value
      in if ds = [] \<or> \<not> list_all is_ascii_digit ds
         then Err (BodyInvalid [T ''invalid Content-Length: '', Txt (py_repr value)])
         else (case from_str_radix u64_max 10 ds of
                 None \<Rightarrow> Err (too_large limit)
               | Some len \<Rightarrow> if len > limit then Err (too_large limit) else Ok (Length len)))"

definition plan_of :: "headers \<Rightarrow> nat \<Rightarrow> (body_plan, body_error) result" where [eval_defs]:
  "plan_of hs limit =
     (if header_count hs TRANSFER_ENCODING > 1
      then Err (BodyInvalid [T ''repeated '', Txt TRANSFER_ENCODING, T '' header''])
      else if header_count hs CONTENT_LENGTH > 1
      then Err (BodyInvalid [T ''repeated '', Txt CONTENT_LENGTH, T '' header''])
      else (let transfer = (case header_get hs TRANSFER_ENCODING of None \<Rightarrow> [] | Some v \<Rightarrow> v)
            in if transfer \<noteq> []
               then (let encodings = map (\<lambda>p. map to_ascii_lower (trim p)) (split_by (\<lambda>c. c = 0x2c) transfer)
                     in if encodings \<noteq> [lit ''chunked'']
                        then Err (BodyInvalid [T ''unsupported Transfer-Encoding: '', Txt (py_repr transfer)])
                        else Ok Chunked)
               else (case header_get hs CONTENT_LENGTH of
                       None \<Rightarrow> Err (BodyInvalid [T ''request body needs Content-Length or chunked encoding''])
                     | Some value \<Rightarrow> content_length_plan value limit)))"

subsection \<open>The body reader\<close>

datatype chunk = ChunkSize | ChunkData nat | ChunkEnd | ChunkDone

record patience =
  pt_step :: nat
  pt_limit :: nat

record 's body_env =
  be_rd :: "'s reader"
  be_now :: "'s \<Rightarrow> nat"
  be_set_wait :: "nat option \<Rightarrow> 's \<Rightarrow> 's"
  be_whole :: "'s \<Rightarrow> bool"

record 's body_reader =
  bd_r :: "'s buf_reader"
  bd_limit :: nat
  bd_total :: nat
  bd_deadline :: deadline
  bd_length_left :: nat
  bd_chunk :: "chunk option"
  bd_patience :: "patience option"

definition body_new :: "'s buf_reader \<Rightarrow> body_plan \<Rightarrow> nat \<Rightarrow> deadline \<Rightarrow> 's body_reader" where [eval_defs]:
  "body_new r plan limit d =
     \<lparr>bd_r = r, bd_limit = limit, bd_total = 0, bd_deadline = d,
      bd_length_left = (case plan of Length n \<Rightarrow> n | Chunked \<Rightarrow> 0),
      bd_chunk = (case plan of Length _ \<Rightarrow> None | Chunked \<Rightarrow> Some ChunkSize),
      bd_patience = None\<rparr>"

definition with_patience :: "patience \<Rightarrow> 's body_reader \<Rightarrow> 's body_reader" where [eval_defs]:
  "with_patience p b = b\<lparr>bd_patience := Some p\<rparr>"

definition body_now :: "'s body_env \<Rightarrow> 's body_reader \<Rightarrow> nat" where [eval_defs]:
  "body_now env b = be_now env (bf_inner (bd_r b))"

text \<open>\<open>self.deadline.note(n)\<close>, with its error wrapped for \<open>Read\<close>.\<close>

definition body_note :: "'s body_env \<Rightarrow> nat \<Rightarrow> 's body_reader \<Rightarrow> (unit, io_error) result \<times> 's body_reader" where [eval_defs]:
  "body_note env k b =
     (case note_read (body_now env b) k (bd_deadline b) of
        (Ok u, d) \<Rightarrow> (Ok u, b\<lparr>bd_deadline := d\<rparr>)
      | (Err e, d) \<Rightarrow> (Err (OfBody e), b\<lparr>bd_deadline := d\<rparr>))"

definition body_line :: "'s body_env \<Rightarrow> 's body_reader \<Rightarrow> ((bytes, io_error) result \<times> 's body_reader) option" where [eval_defs]:
  "body_line env b =
     (case read_line (be_rd env) (bd_r b) (MAX_CHUNK_LINE_BYTES + 1) of
        None \<Rightarrow> None
      | Some (Err e, r) \<Rightarrow> Some (Err e, b\<lparr>bd_r := r\<rparr>)
      | Some (Ok line, r) \<Rightarrow>
          (case body_note env (length line) (b\<lparr>bd_r := r\<rparr>) of
             (Ok _, b') \<Rightarrow> Some (Ok line, b')
           | (Err e, b') \<Rightarrow> Some (Err e, b')))"

partial_function (option) await_loop :: "'s body_env \<Rightarrow> patience \<Rightarrow> 's buf_reader \<Rightarrow> nat
    \<Rightarrow> ((unit, io_error) result \<times> 's buf_reader) option" where
  "await_loop env p r idle =
     (case bf_fill (be_rd env) r of
        None \<Rightarrow> None
      | Some (Ok _, r') \<Rightarrow> Some (Ok (), r')
      | Some (Err e, r') \<Rightarrow>
          if is_interrupted e then await_loop env p r' idle
          else if is_timeout e then
            (if be_whole env (bf_inner r') then Some (Err (OfBody BodyComplete), r')
             else if idle + pt_step p \<ge> pt_limit p then Some (Err e, r')
             else await_loop env p r' (idle + pt_step p))
          else Some (Err e, r'))"

definition set_wait :: "'s body_env \<Rightarrow> nat option \<Rightarrow> 's buf_reader \<Rightarrow> 's buf_reader" where [eval_defs]:
  "set_wait env w r = r\<lparr>bf_inner := be_set_wait env w (bf_inner r)\<rparr>"

definition await_boundary :: "'s body_env \<Rightarrow> 's body_reader \<Rightarrow> ((unit, io_error) result \<times> 's body_reader) option" where [eval_defs]:
  "await_boundary env b =
     (case bd_patience b of
        None \<Rightarrow> Some (Ok (), b)
      | Some p \<Rightarrow>
          (case await_loop env p (set_wait env (Some (pt_step p)) (bd_r b)) 0 of
             None \<Rightarrow> None
           | Some (waited, r) \<Rightarrow> Some (waited, b\<lparr>bd_r := set_wait env None r\<rparr>)))"

partial_function (option) read_again :: "'s reader \<Rightarrow> 's buf_reader \<Rightarrow> nat
    \<Rightarrow> ((bytes, io_error) result \<times> 's buf_reader) option" where
  "read_again rd r want =
     (case bf_read rd r want of
        None \<Rightarrow> None
      | Some (Ok bs, r') \<Rightarrow> Some (Ok bs, r')
      | Some (Err e, r') \<Rightarrow> if is_interrupted e then read_again rd r' want else Some (Err e, r'))"

definition body_data :: "'s body_env \<Rightarrow> 's body_reader \<Rightarrow> nat \<Rightarrow> nat \<Rightarrow> string
    \<Rightarrow> ((bytes, io_error) result \<times> 's body_reader) option" where [eval_defs]:
  "body_data env b room left truncated =
     (case read_again (be_rd env) (bd_r b) (min (min room IO_CHUNK_BYTES) left) of
        None \<Rightarrow> None
      | Some (Err e, r) \<Rightarrow> Some (Err e, b\<lparr>bd_r := r\<rparr>)
      | Some (Ok bs, r) \<Rightarrow>
          if bs = [] then Some (Err (OfBody (BodyInvalid [T truncated])), b\<lparr>bd_r := r\<rparr>)
          else (case body_note env (length bs) (b\<lparr>bd_r := r\<rparr>) of
                  (Err e, b') \<Rightarrow> Some (Err e, b')
                | (Ok _, b') \<Rightarrow> Some (Ok bs, b'\<lparr>bd_total := bd_total b' + length bs\<rparr>)))"

text \<open>The size on a chunk-size line, before any extension.\<close>

definition trim_ascii_bytes :: "bytes \<Rightarrow> bytes" where [eval_defs]:
  "trim_ascii_bytes bs =
     trim_end_matches (\<lambda>b. is_ascii_whitespace (unat b)) (dropWhile (\<lambda>b. is_ascii_whitespace (unat b)) bs)"

definition SEMICOLON :: u8 where [eval_defs]:
  "SEMICOLON = 0x3b"

definition chunk_token :: "bytes \<Rightarrow> bytes" where [eval_defs]:
  "chunk_token line = trim_ascii_bytes (takeWhile (\<lambda>b. b \<noteq> SEMICOLON) line)"

definition is_hexdigit :: "u8 \<Rightarrow> bool" where [eval_defs]:
  "is_hexdigit b \<longleftrightarrow> is_digit_in 16 (unat b)"

definition chunk_size :: "nat \<Rightarrow> bytes \<Rightarrow> (nat, body_error) result" where [eval_defs]:
  "chunk_size limit line =
     (if line = [] \<or> length line > MAX_CHUNK_LINE_BYTES \<or> last line \<noteq> NEWLINE
      then Err (BodyInvalid [T ''invalid or overlong chunk-size line''])
      else (let token = chunk_token line
            in if token = [] \<or> \<not> list_all is_hexdigit token
               then Err (BodyInvalid [T ''invalid chunk size: '', Txt (py_bytes_repr (take 40 token))])
               else (case Option.bind (from_utf8 token) (from_str_radix u64_max 16) of
                       None \<Rightarrow> Err (too_large limit)
                     | Some n \<Rightarrow> Ok n)))"

definition CRLF :: bytes where [eval_defs]:
  "CRLF = [13, 10]"

partial_function (option) read_trailers :: "'s body_env \<Rightarrow> 's body_reader \<Rightarrow> nat
    \<Rightarrow> ((unit, io_error) result \<times> 's body_reader) option" where
  "read_trailers env b trailers =
     (case body_line env b of
        None \<Rightarrow> None
      | Some (Err e, b') \<Rightarrow> Some (Err e, b')
      | Some (Ok line, b') \<Rightarrow>
          if line = [] \<or> length line > MAX_CHUNK_LINE_BYTES \<or> trailers + length line > MAX_TRAILER_BYTES
          then Some (Err (OfBody (BodyInvalid [T ''invalid or overlong chunk trailers''])), b')
          else if line = CRLF \<or> line = [NEWLINE] then Some (Ok (), b')
          else read_trailers env b' (trailers + length line))"

text \<open>
  One turn of the loop in \<open>chunked\<close>: what the call returns, or that the loop goes on. The state is
  taken out first, so an error other than one of the boundary wait leaves the reader with none.
\<close>

datatype 'a turn = Return 'a | Continue

definition size_turn :: "'s body_env \<Rightarrow> 's body_reader \<Rightarrow> ((bytes, io_error) result turn \<times> 's body_reader) option" where [eval_defs]:
  "size_turn env b =
     (case await_boundary env b of
        None \<Rightarrow> None
      | Some (Err e, b1) \<Rightarrow> Some (Return (Err e), b1\<lparr>bd_chunk := Some ChunkSize\<rparr>)
      | Some (Ok _, b1) \<Rightarrow>
          (case body_line env b1 of
             None \<Rightarrow> None
           | Some (Err e, b2) \<Rightarrow> Some (Return (Err e), b2)
           | Some (Ok line, b2) \<Rightarrow>
               (case chunk_size (bd_limit b2) line of
                  Err e \<Rightarrow> Some (Return (Err (OfBody e)), b2)
                | Ok n \<Rightarrow>
                    if n = 0 then
                      (case read_trailers env b2 0 of
                         None \<Rightarrow> None
                       | Some (Err e, b3) \<Rightarrow> Some (Return (Err e), b3)
                       | Some (Ok _, b3) \<Rightarrow> Some (Return (Ok []), b3\<lparr>bd_chunk := Some ChunkDone\<rparr>))
                    else if n > bd_limit b2 - bd_total b2
                    then Some (Return (Err (OfBody (too_large (bd_limit b2)))), b2)
                    else Some (Continue, b2\<lparr>bd_chunk := Some (ChunkData n)\<rparr>))))"

definition data_turn :: "'s body_env \<Rightarrow> 's body_reader \<Rightarrow> nat \<Rightarrow> nat
    \<Rightarrow> ((bytes, io_error) result turn \<times> 's body_reader) option" where [eval_defs]:
  "data_turn env b room left =
     (case body_data env b room left ''truncated chunk data'' of
        None \<Rightarrow> None
      | Some (Err e, b') \<Rightarrow> Some (Return (Err e), b')
      | Some (Ok bs, b') \<Rightarrow>
          Some (Return (Ok bs), b'\<lparr>bd_chunk := Some (if left - length bs = 0 then ChunkEnd
                                                     else ChunkData (left - length bs))\<rparr>))"

definition end_turn :: "'s body_env \<Rightarrow> 's body_reader \<Rightarrow> ((bytes, io_error) result turn \<times> 's body_reader) option" where [eval_defs]:
  "end_turn env b =
     (case read_full (bf_read (be_rd env)) (bd_r b) 2 of
        None \<Rightarrow> None
      | Some (Err e, r) \<Rightarrow> Some (Return (Err e), b\<lparr>bd_r := r\<rparr>)
      | Some (Ok ending, r) \<Rightarrow>
          (case body_note env (length ending) (b\<lparr>bd_r := r\<rparr>) of
             (Err e, b') \<Rightarrow> Some (Return (Err e), b')
           | (Ok _, b') \<Rightarrow>
               if ending \<noteq> CRLF
               then Some (Return (Err (OfBody (BodyInvalid [T ''chunk data missing CRLF'']))), b')
               else Some (Continue, b'\<lparr>bd_chunk := Some ChunkSize\<rparr>)))"

definition chunk_turn :: "'s body_env \<Rightarrow> 's body_reader \<Rightarrow> nat
    \<Rightarrow> ((bytes, io_error) result turn \<times> 's body_reader) option" where [eval_defs]:
  "chunk_turn env b room =
     (let b0 = b\<lparr>bd_chunk := None\<rparr>
      in (case bd_chunk b of
            None \<Rightarrow> Some (Return (Ok []), b\<lparr>bd_chunk := Some ChunkDone\<rparr>)
          | Some ChunkDone \<Rightarrow> Some (Return (Ok []), b\<lparr>bd_chunk := Some ChunkDone\<rparr>)
          | Some ChunkSize \<Rightarrow> size_turn env b0
          | Some (ChunkData left) \<Rightarrow> data_turn env b0 room left
          | Some ChunkEnd \<Rightarrow> end_turn env b0))"

partial_function (option) chunked :: "'s body_env \<Rightarrow> 's body_reader \<Rightarrow> nat
    \<Rightarrow> ((bytes, io_error) result \<times> 's body_reader) option" where
  "chunked env b room =
     (case chunk_turn env b room of
        None \<Rightarrow> None
      | Some (Return r, b') \<Rightarrow> Some (r, b')
      | Some (Continue, b') \<Rightarrow> chunked env b' room)"

definition body_read :: "'s body_env \<Rightarrow> 's body_reader reader" where [eval_defs]:
  "body_read env b room =
     (if room = 0 then Some (Ok [], b)
      else if bd_chunk b \<noteq> None then chunked env b room
      else if bd_length_left b = 0 then Some (Ok [], b)
      else (case body_data env b room (bd_length_left b) ''truncated request body'' of
              None \<Rightarrow> None
            | Some (Err e, b') \<Rightarrow> Some (Err e, b')
            | Some (Ok bs, b') \<Rightarrow> Some (Ok bs, b'\<lparr>bd_length_left := bd_length_left b' - length bs\<rparr>)))"

definition read_small_body :: "'s body_env \<Rightarrow> 's buf_reader \<Rightarrow> headers \<Rightarrow> nat
    \<Rightarrow> ((bytes, body_error) result \<times> 's buf_reader) option" where [eval_defs]:
  "read_small_body env r hs limit =
     (case plan_of hs limit of
        Err e \<Rightarrow> Some (Err e, r)
      | Ok plan \<Rightarrow>
          (case read_to_end (body_read env) (body_new r plan limit (deadline_new (be_now env (bf_inner r)))) [] of
             None \<Rightarrow> None
           | Some (Ok body, b) \<Rightarrow> Some (Ok body, bd_r b)
           | Some (Err e, b) \<Rightarrow>
               (case classify e of
                  Ok err \<Rightarrow> Some (Err err, bd_r b)
                | Err e \<Rightarrow> Some (Err (BodyInvalid (T ''request body read failed: '' # io_error_msg e)), bd_r b))))"

end
