(* ===== verification/Body.thy ===== *)
theory Body
  imports Http
begin

text \<open>
  What the body reader of http.rs delivers. \<open>dechunk\<close> is the chunked format as a function on the
  bytes of the connection; the reader is shown to agree with it, whatever the connection does
  between the bytes: every body it accepts is what \<open>dechunk\<close> gives, the connection is left exactly
  behind it, and it accepts every body \<open>dechunk\<close> accepts when the connection keeps up.
\<close>

definition chunk_line :: "bytes \<Rightarrow> bytes" where
  "chunk_line bs = first_line (MAX_CHUNK_LINE_BYTES + 1) bs"

lemma chunk_line_Nil_iff [simp]: "chunk_line bs = [] \<longleftrightarrow> bs = []"
  by (simp add: chunk_line_def first_line_Nil_iff)

function skip_trailers :: "nat \<Rightarrow> bytes \<Rightarrow> bytes option" where
  "skip_trailers n bs =
     (let line = chunk_line bs; rest = drop (length line) bs
      in if bs = [] \<or> length line > MAX_CHUNK_LINE_BYTES \<or> n + length line > MAX_TRAILER_BYTES then None
         else if line = CRLF \<or> line = [NEWLINE] then Some rest
         else skip_trailers (n + length line) rest)"
  by pat_completeness auto
termination
  by (relation "measure (\<lambda>(n, bs). length bs)") auto

declare skip_trailers.simps [simp del]

function dechunk :: "nat \<Rightarrow> bytes \<Rightarrow> (bytes \<times> bytes) option" where
  "dechunk limit bs =
     (let line = chunk_line bs; r = drop (length line) bs
      in (case chunk_size limit line of
            Err _ \<Rightarrow> None
          | Ok n \<Rightarrow>
              if n = 0 then map_option (\<lambda>rest. ([], rest)) (skip_trailers 0 r)
              else if n > limit \<or> length r < n \<or> take 2 (drop n r) \<noteq> CRLF then None
              else map_option (\<lambda>(out, rest). (take n r @ out, rest)) (dechunk (limit - n) (drop (n + 2) r))))"
  by pat_completeness auto
termination
  by (relation "measure (\<lambda>(l, bs). l)") auto

declare dechunk.simps [simp del]

definition deframe :: "body_plan \<Rightarrow> nat \<Rightarrow> bytes \<Rightarrow> (bytes \<times> bytes) option" where
  "deframe plan limit bs =
     (case plan of
        Chunked \<Rightarrow> dechunk limit bs
      | Length n \<Rightarrow> if n \<le> length bs then Some (take n bs, drop n bs) else None)"

lemma chunk_size_limit: "chunk_size l line = Ok n \<longleftrightarrow> chunk_size l' line = Ok n"
  by (auto simp: chunk_size_def Let_def split: if_splits option.splits)

lemma dechunk_bound:
  "dechunk limit bs = Some (out, rest) \<Longrightarrow> length out \<le> limit"
proof (induction limit bs arbitrary: out rest rule: dechunk.induct)
  case (1 limit bs)
  define line where "line = chunk_line bs"
  define r where "r = drop (length line) bs"
  from 1(2) obtain n where n: "chunk_size limit line = Ok n"
    by (auto simp: dechunk.simps [of limit bs] Let_def line_def split: result.splits)
  show ?case
  proof (cases "n = 0")
    case True
    with 1(2) n show ?thesis by (auto simp: dechunk.simps [of limit bs] line_def)
  next
    case False
    with 1(2) n obtain o2 where d: "\<not> n > limit" "length r \<ge> n" "take 2 (drop n r) = CRLF"
      "dechunk (limit - n) (drop (n + 2) r) = Some (o2, rest)" "out = take n r @ o2"
      by (auto simp: dechunk.simps [of limit bs] line_def r_def Let_def split: if_splits)
    from 1(1) [OF line_def r_def n False] d have "length o2 \<le> limit - n" by simp
    with d show ?thesis by simp
  qed
qed

subsection \<open>Streams as tapes\<close>

text \<open>
  What is always true of a stream, whatever fails on the way: a read takes bytes from the front and
  an error takes none, timeouts included.
\<close>

locale tape_reader =
  fixes rd :: "'s reader" and tgood :: "'s \<Rightarrow> bool" and tape :: "'s \<Rightarrow> bytes"
  assumes tape_good: "tgood s \<Longrightarrow> rd s n = Some (r, s') \<Longrightarrow> tgood s'"
    and tape_ok: "tgood s \<Longrightarrow> rd s n = Some (Ok bs, s') \<Longrightarrow> tape s = bs @ tape s' \<and> length bs \<le> n"
    and tape_end: "tgood s \<Longrightarrow> 0 < n \<Longrightarrow> rd s n = Some (Ok [], s') \<Longrightarrow> tape s = []"
    and tape_err: "tgood s \<Longrightarrow> rd s n = Some (Err e, s') \<Longrightarrow> tape s' = tape s"
begin

definition bf_tape :: "'s buf_reader \<Rightarrow> bytes" where
  "bf_tape b = bf_buf b @ tape (bf_inner b)"

definition bf_tgood :: "'s buf_reader \<Rightarrow> bool" where
  "bf_tgood b \<longleftrightarrow> tgood (bf_inner b)"

lemma bf_fill_tape:
  assumes "bf_tgood b" "bf_fill rd b = Some (r, b')"
  shows "bf_tgood b' \<and> bf_tape b' = bf_tape b \<and> (\<forall>bs. r = Ok bs \<longrightarrow> bf_buf b' = bs \<and> (bs = [] \<longrightarrow> bf_tape b = []))"
proof -
  have pos: "0 < IO_CHUNK_BYTES" by (simp add: IO_CHUNK_BYTES_def)
  show ?thesis
  proof (cases "bf_buf b = []")
    case False
    with assms show ?thesis by (auto simp: bf_fill_def)
  next
    case True
    with assms(2) obtain r1 s where rd: "rd (bf_inner b) IO_CHUNK_BYTES = Some (r1, s)"
      by (auto simp: bf_fill_def split: option.splits)
    have g: "tgood (bf_inner b)" "tgood s" using assms(1) tape_good [OF _ rd] by (simp_all add: bf_tgood_def)
    show ?thesis
    proof (cases r1)
      case (Ok bs)
      with assms True rd have "r = Ok bs" "b' = b\<lparr>bf_inner := s, bf_buf := bs\<rparr>" by (simp_all add: bf_fill_def)
      with True g tape_ok [OF g(1), of IO_CHUNK_BYTES bs s] tape_end [OF g(1) pos, of s] rd Ok show ?thesis
        by (simp add: bf_tape_def bf_tgood_def)
    next
      case (Err e)
      with assms True rd have "r = Err e" "b' = b\<lparr>bf_inner := s\<rparr>" by (simp_all add: bf_fill_def)
      with g tape_err [OF g(1), of IO_CHUNK_BYTES e s] rd Err show ?thesis by (simp add: bf_tape_def bf_tgood_def)
    qed
  qed
qed

lemma bf_consume_tape: "bf_tape b = take k (bf_buf b) @ bf_tape (bf_consume k b)"
  by (simp add: bf_tape_def bf_consume_def flip: append_assoc)

lemma bf_consume_tgood [simp]: "bf_tgood (bf_consume k b) = bf_tgood b"
  by (simp add: bf_tgood_def bf_consume_def)

lemma bf_read_tape:
  assumes "bf_tgood b" "bf_read rd b n = Some (r, b')"
  shows "bf_tgood b' \<and> (case r of Ok bs \<Rightarrow> bf_tape b = bs @ bf_tape b' \<and> length bs \<le> n \<and> (bs = [] \<and> 0 < n \<longrightarrow> bf_tape b = [])
    | Err e \<Rightarrow> bf_tape b' = bf_tape b)"
proof (cases "bf_buf b = [] \<and> n \<ge> IO_CHUNK_BYTES")
  case True
  with assms(2) obtain s where rd: "rd (bf_inner b) n = Some (r, s)" "b' = b\<lparr>bf_inner := s\<rparr>"
    by (auto simp: bf_read_def split: option.splits)
  have g: "tgood (bf_inner b)" using assms(1) by (simp add: bf_tgood_def)
  show ?thesis
  proof (cases r)
    case (Ok bs)
    with rd True tape_good [OF g rd(1)] tape_ok [OF g, of n bs s] tape_end [OF g, of n s] show ?thesis
      by (auto simp: bf_tape_def bf_tgood_def)
  next
    case (Err e)
    with rd True tape_good [OF g rd(1)] tape_err [OF g, of n e s] show ?thesis
      by (simp add: bf_tape_def bf_tgood_def)
  qed
next
  case False
  with assms(2) obtain r1 b1 where f: "bf_fill rd b = Some (r1, b1)"
    by (auto simp: bf_read_def split: option.splits)
  show ?thesis
  proof (cases r1)
    case (Ok bs)
    then have "r = Ok (take n bs)" "b' = bf_consume n b1" using assms(2) False f by (auto simp: bf_read_def)
    then show ?thesis using bf_fill_tape [OF assms(1) f] Ok bf_consume_tape [of b1 n] by auto
  next
    case (Err e)
    then show ?thesis using assms False f bf_fill_tape [OF assms(1) f] by (auto simp: bf_read_def)
  qed
qed

lemma bf_tape_reader: "tape_reader (bf_read rd) bf_tgood bf_tape"
proof
  fix s n r s'
  assume "bf_tgood s" "bf_read rd s n = Some (r, s')"
  then show "bf_tgood s'" using bf_read_tape by blast
next
  fix s n bs s'
  assume "bf_tgood s" "bf_read rd s n = Some (Ok bs, s')"
  then show "bf_tape s = bs @ bf_tape s' \<and> length bs \<le> n" using bf_read_tape [of s n "Ok bs" s'] by simp
next
  fix s and n :: nat and s'
  assume "bf_tgood s" "0 < n" "bf_read rd s n = Some (Ok [], s')"
  then show "bf_tape s = []" using bf_read_tape [of s n "Ok []" s'] by (auto split: result.splits)
next
  fix s n e s'
  assume "bf_tgood s" "bf_read rd s n = Some (Err e, s')"
  then show "bf_tape s' = bf_tape s" using bf_read_tape [of s n "Err e" s'] by simp
qed

text \<open>The loops over a reader, when they return.\<close>

lemma read_full_tape:
  assumes "read_full rd s want = Some (r, s')" "tgood s"
  shows "tgood s' \<and> (case r of Ok bs \<Rightarrow> tape s = bs @ tape s' \<and> length bs \<le> want \<and> (length bs < want \<longrightarrow> tape s' = [])
    | Err e \<Rightarrow> \<not> is_interrupted e)"
proof -
  define P where "P rd' s want filled x \<longleftrightarrow> (rd' = rd \<and> tgood s \<and> length filled \<le> want \<longrightarrow>
      tgood (snd x) \<and> (case fst x of Ok bs \<Rightarrow> \<exists>b2. bs = filled @ b2 \<and> tape s = b2 @ tape (snd x) \<and> length bs \<le> want
          \<and> (length bs < want \<longrightarrow> tape (snd x) = [])
        | Err e \<Rightarrow> \<not> is_interrupted e))"
    for rd' :: "'s reader" and s want filled and x :: "(bytes, io_error) result \<times> 's"
  have "P rd s want [] (r, s')"
  proof (rule read_full_loop.raw_induct [of P, OF _ assms(1) [unfolded read_full_def]], goal_cases)
    case (1 f rd' s want filled x)
    show ?case unfolding P_def
    proof
      assume a: "rd' = rd \<and> tgood s \<and> length filled \<le> want"
      show "tgood (snd x) \<and> (case fst x of Ok bs \<Rightarrow> \<exists>b2. bs = filled @ b2 \<and> tape s = b2 @ tape (snd x) \<and> length bs \<le> want
          \<and> (length bs < want \<longrightarrow> tape (snd x) = [])
        | Err e \<Rightarrow> \<not> is_interrupted e)"
      proof (cases "length filled < want")
        case False
        with 1(2) a show ?thesis by auto
      next
        case True
        with 1(2) a obtain r s' where rd: "rd s (want - length filled) = Some (r, s')"
          by (auto split: option.splits)
        have g: "tgood s'" using a rd tape_good by blast
        show ?thesis
        proof (cases r)
          case (Ok bs)
          have t: "tape s = bs @ tape s'" "length bs \<le> want - length filled" using tape_ok a rd Ok by blast+
          show ?thesis
          proof (cases "bs = []")
            case nil: True
            then have "tape s = []" using tape_end [of s "want - length filled" s'] rd Ok a True by simp
            with 1(2) a rd True Ok g nil t show ?thesis by auto
          next
            case False
            with 1(2) a rd True Ok have "f rd s' want (filled @ bs) = Some x" by auto
            from 1(1) [OF this] g t True show ?thesis
              by (auto simp: P_def split: result.splits)
          qed
        next
          case (Err e)
          have t: "tape s' = tape s" using tape_err a rd Err by blast
          show ?thesis
          proof (cases "is_interrupted e")
            case i: True
            with 1(2) a rd True Err have "f rd s' want filled = Some x" by auto
            from 1(1) [OF this] g t True show ?thesis by (auto simp: P_def split: result.splits)
          next
            case False
            with 1(2) a rd True Err g show ?thesis by auto
          qed
        qed
      qed
    qed
  qed
  with assms(2) show ?thesis by (auto simp: P_def split: result.splits)
qed

lemma read_line_tape:
  assumes "read_line rd b mx = Some (r, b')" "bf_tgood b"
  shows "bf_tgood b' \<and> (case r of Ok line \<Rightarrow> line = first_line mx (bf_tape b) \<and> bf_tape b' = drop (length line) (bf_tape b)
    | Err e \<Rightarrow> \<not> is_interrupted e)"
proof -
  define P where "P rd' b mx line x \<longleftrightarrow> (rd' = rd \<and> bf_tgood b \<and> length line \<le> mx \<longrightarrow>
      bf_tgood (snd x) \<and> (case fst x of Ok bs \<Rightarrow> bs = line @ first_line (mx - length line) (bf_tape b)
          \<and> bf_tape (snd x) = drop (length (first_line (mx - length line) (bf_tape b))) (bf_tape b)
        | Err e \<Rightarrow> \<not> is_interrupted e))"
    for rd' :: "'s reader" and b mx line and x :: "(bytes, io_error) result \<times> 's buf_reader"
  have "P rd b mx [] (r, b')"
  proof (rule read_line_loop.raw_induct [of P, OF _ assms(1) [unfolded read_line_def]], goal_cases)
    case (1 f rd' b mx line x)
    show ?case unfolding P_def
    proof
      assume a: "rd' = rd \<and> bf_tgood b \<and> length line \<le> mx"
      show "bf_tgood (snd x) \<and> (case fst x of Ok bs \<Rightarrow> bs = line @ first_line (mx - length line) (bf_tape b)
          \<and> bf_tape (snd x) = drop (length (first_line (mx - length line) (bf_tape b))) (bf_tape b)
        | Err e \<Rightarrow> \<not> is_interrupted e)"
      proof (cases "length line < mx")
        case False
        with 1(2) a show ?thesis by (auto simp: first_line_def)
      next
        case True
        with 1(2) a obtain r b' where rd: "bf_fill rd b = Some (r, b')"
          by (auto split: option.splits)
        have g: "bf_tgood b'" "bf_tape b' = bf_tape b" using bf_fill_tape [OF _ rd] a by auto
        show ?thesis
        proof (cases r)
          case (Err e)
          show ?thesis
          proof (cases "is_interrupted e")
            case i: True
            with 1(2) a rd True Err have "f rd b' mx line = Some x" by simp
            from 1(1) [OF this] g(1) True show ?thesis unfolding P_def g(2) by simp
          next
            case False
            with 1(2) a rd True Err g show ?thesis by auto
          qed
        next
          case (Ok av)
          have av: "bf_buf b' = av" "av = [] \<Longrightarrow> bf_tape b = []" using bf_fill_tape [OF _ rd] a Ok by auto
          show ?thesis
          proof (cases "av = []")
            case nil: True
            with 1(2) a rd True Ok g av show ?thesis by (auto simp: first_line_def)
          next
            case False
            define w where "w = take (mx - length line) av"
            have c: "bf_tape b = av @ tape (bf_inner b')" using g av by (simp add: bf_tape_def)
            have w: "length w \<le> mx - length line" "w \<noteq> []" using False True by (simp_all add: w_def)
            have cons: "bf_tape b = take k av @ bf_tape (bf_consume k b')" for k
              using bf_consume_tape [of b' k] g av by simp
            show ?thesis
            proof (cases "NEWLINE \<in> set w")
              case nl: True
              let ?t = "through_newline w"
              have x: "x = (Ok (line @ ?t), bf_consume (length ?t) b')"
                using 1(2) a rd True Ok False nl by (auto simp: Let_def w_def)
              have fl: "first_line (mx - length line) (bf_tape b) = ?t"
                unfolding c w_def by (rule first_line_found) (use nl in \<open>simp add: w_def\<close>)
              have "take (length ?t) av = ?t"
                using through_newline_prefix [OF nl] w_def by (metis append_assoc append_eq_conv_conj append_take_drop_id)
              with cons [of "length ?t"] have "bf_tape b = ?t @ bf_tape (bf_consume (length ?t) b')" by simp
              then have "bf_tape (bf_consume (length ?t) b') = drop (length ?t) (bf_tape b)" by (metis append_eq_conv_conj)
              with x fl g show ?thesis by simp
            next
              case no: False
              have f: "f rd (bf_consume (length w) b') mx (line @ w) = Some x"
                using 1(2) a rd True Ok False no by (auto simp: Let_def w_def)
              have "take (length w) av = w" by (simp add: w_def min_def)
              with cons [of "length w"] have t2: "bf_tape b = w @ bf_tape (bf_consume (length w) b')" by simp
              then have t3: "bf_tape (bf_consume (length w) b') = drop (length w) (bf_tape b)" by (metis append_eq_conv_conj)
              have fl: "first_line (mx - length line) (bf_tape b)
                = w @ first_line (mx - length line - length w) (drop (length w) (bf_tape b))"
                by (metis first_line_cut [OF no w(1)] t2 t3)
              have le: "length (line @ w) \<le> mx" using w True by simp
              from 1(1) [OF f] g(1) le show ?thesis unfolding fl P_def t3
                by (auto simp: add.commute split: result.splits)
            qed
          qed
        qed
      qed
    qed
  qed
  with assms(2) show ?thesis by (auto simp: P_def split: result.splits)
qed

end

subsection \<open>The reader against the format\<close>

definition refused :: "io_error \<Rightarrow> bool" where
  "refused e \<longleftrightarrow> (\<exists>m. e = OfBody (BodyInvalid m) \<or> e = OfBody (BodyTooLarge m))"

definition prepend :: "bytes \<Rightarrow> (bytes \<times> bytes) option \<Rightarrow> (bytes \<times> bytes) option" where
  "prepend bs = map_option (\<lambda>(out, rest). (bs @ out, rest))"

lemma prepend_simps [simp]:
  "prepend bs None = None" "prepend bs (Some (out, rest)) = Some (bs @ out, rest)"
  "prepend [] x = x" "prepend a (prepend b x) = prepend (a @ b) x"
  by (cases x; simp add: prepend_def split_def)+

lemma prepend_Some: "prepend bs x = Some (out, rest) \<longleftrightarrow> (\<exists>o2. x = Some (o2, rest) \<and> out = bs @ o2)"
  by (cases x) (auto simp: prepend_def)

lemma dechunk_line:
  assumes "line = chunk_line bs" "r = drop (length line) bs"
  shows "dechunk limit bs =
    (case chunk_size limit line of
            Err _ \<Rightarrow> None
          | Ok n \<Rightarrow>
              if n = 0 then map_option (\<lambda>rest. ([], rest)) (skip_trailers 0 r)
              else if n > limit \<or> length r < n \<or> take 2 (drop n r) \<noteq> CRLF then None
              else prepend (take n r) (dechunk (limit - n) (drop (n + 2) r)))"
  unfolding dechunk.simps [of limit bs] assms prepend_def Let_def ..

locale body_tape = tape_reader rd tgood tape
  for rd :: "'s reader" and tgood tape +
  fixes env :: "'s body_env"
  assumes env_rd [simp]: "be_rd env = rd"
    and stream_err: "tgood s \<Longrightarrow> rd s n = Some (Err e, s') \<Longrightarrow> \<exists>k m. e = Plain k m"
    and wait_tape [simp]: "tape (be_set_wait env w s) = tape s"
    and wait_good [simp]: "tgood (be_set_wait env w s) = tgood s"
begin

lemma fill_err:
  assumes "bf_tgood b" "bf_fill rd b = Some (Err e, b')"
  shows "\<exists>k m. e = Plain k m"
  using assms stream_err [of "bf_inner b" IO_CHUNK_BYTES]
  by (auto simp: bf_fill_def bf_tgood_def split: if_splits option.splits result.splits)

lemma bf_read_err:
  assumes "bf_tgood b" "bf_read rd b n = Some (Err e, b')"
  shows "\<exists>k m. e = Plain k m"
proof (cases "bf_buf b = [] \<and> n \<ge> IO_CHUNK_BYTES")
  case True
  with assms stream_err [of "bf_inner b" n] show ?thesis
    by (auto simp: bf_read_def bf_tgood_def split: option.splits)
next
  case False
  with assms fill_err [of b] show ?thesis
    by (auto simp: bf_read_def split: if_splits option.splits result.splits)
qed

lemma plain_not_refused: "\<exists>k m. e = Plain k m \<Longrightarrow> \<not> refused e"
  by (auto simp: refused_def)

lemma note_cases:
  assumes "body_note env k b = (r, b')"
  obtains (ok) d where "b' = b\<lparr>bd_deadline := d\<rparr>" "r = Ok ()"
  | (slow) d where "b' = b\<lparr>bd_deadline := d\<rparr>" "r = Err (OfBody (BodyTimeout Rate))"
  using assms by (auto simp: body_note_def note_read_def Let_def split: if_splits)

lemma slow_simps [simp]:
  "\<not> refused (OfBody (BodyTimeout s))" "error_kind_of (OfBody x) = Other" "\<not> refused (OfBody BodyComplete)"
  by (simp_all add: refused_def error_kind_of_def)

lemma read_line_err:
  assumes "read_line rd b mx = Some (Err e, b')" "bf_tgood b"
  shows "\<exists>k m. e = Plain k m"
proof -
  define P where "P rd' b mx line x \<longleftrightarrow> (rd' = rd \<and> bf_tgood b \<longrightarrow> (\<forall>e. fst x = Err e \<longrightarrow> (\<exists>k m. e = Plain k m)))"
    for rd' :: "'s reader" and b :: "'s buf_reader" and mx :: nat and line :: bytes
      and x :: "(bytes, io_error) result \<times> 's buf_reader"
  have "P rd b mx [] (Err e, b')"
  proof (rule read_line_loop.raw_induct [of P, OF _ assms(1) [unfolded read_line_def]], goal_cases)
    case (1 f rd' b mx line x)
    show ?case
    proof (cases "bf_fill rd b")
      case (Some y)
      obtain r b1 where y: "y = (r, b1)" by fastforce
      have g: "bf_tgood b \<Longrightarrow> bf_tgood b1" using bf_fill_tape Some y by blast
      show ?thesis using 1 fill_err [of b] Some y g
        by (cases x; cases r) (auto simp: P_def Let_def split: if_splits)
    qed (use 1 in \<open>auto simp: P_def split: if_splits\<close>)
  qed
  with assms(2) show ?thesis by (simp add: P_def)
qed

lemma read_full_err:
  assumes "read_full (bf_read rd) b want = Some (Err e, b')" "bf_tgood b"
  shows "\<exists>k m. e = Plain k m"
proof -
  define P where "P rd' b want filled x \<longleftrightarrow>
      (rd' = bf_read rd \<and> bf_tgood b \<longrightarrow> (\<forall>e. fst x = Err e \<longrightarrow> (\<exists>k m. e = Plain k m)))"
    for rd' :: "'s buf_reader reader" and b :: "'s buf_reader" and want :: nat and filled :: bytes
      and x :: "(bytes, io_error) result \<times> 's buf_reader"
  have "P (bf_read rd) b want [] (Err e, b')"
  proof (rule read_full_loop.raw_induct [of P, OF _ assms(1) [unfolded read_full_def]], goal_cases)
    case (1 f rd' b want filled x)
    show ?case
    proof (cases "bf_read rd b (want - length filled)")
      case (Some y)
      obtain r b1 where y: "y = (r, b1)" by fastforce
      have g: "bf_tgood b \<Longrightarrow> bf_tgood b1" using bf_read_tape Some y by blast
      show ?thesis using 1 bf_read_err [of b "want - length filled"] Some y g
        by (cases x; cases r) (auto simp: P_def split: if_splits)
    qed (use 1 in \<open>auto simp: P_def split: if_splits\<close>)
  qed
  with assms(2) show ?thesis by (simp add: P_def)
qed

definition bd_tape :: "'s body_reader \<Rightarrow> bytes" where
  "bd_tape b = bf_tape (bd_r b)"

definition bd_tgood :: "'s body_reader \<Rightarrow> bool" where
  "bd_tgood b = bf_tgood (bd_r b)"

lemmas bd_tape_defs = bd_tape_def bd_tgood_def

lemma body_line_tape:
  assumes "body_line env b = Some (r, b')" "bd_tgood b"
  obtains (ok) d and br :: "'s buf_reader" and line where "b' = b\<lparr>bd_r := br, bd_deadline := d\<rparr>" "bd_tgood b'" "r = Ok line"
      "line = chunk_line (bd_tape b)" "bd_tape b' = drop (length line) (bd_tape b)"
  | (err) e where "r = Err e" "\<not> is_interrupted e" "\<not> refused e"
proof -
  from assms(1) obtain rl br where rl: "read_line rd (bd_r b) (MAX_CHUNK_LINE_BYTES + 1) = Some (rl, br)"
    by (auto simp: body_line_def split: option.splits)
  have t: "bf_tgood br" "case rl of Ok line \<Rightarrow> line = first_line (MAX_CHUNK_LINE_BYTES + 1) (bf_tape (bd_r b)) \<and> bf_tape br = drop (length line) (bf_tape (bd_r b))
    | Err e \<Rightarrow> \<not> is_interrupted e" using read_line_tape [OF rl] assms(2) by (auto simp: bd_tgood_def)
  show thesis
  proof (cases rl)
    case (Err e)
    with assms rl t read_line_err [of "bd_r b" _ e br] plain_not_refused [of e] err [of e] show thesis
      by (auto simp: body_line_def bd_tgood_def)
  next
    case (Ok line)
    obtain rn b2 where n: "body_note env (length line) (b\<lparr>bd_r := br\<rparr>) = (rn, b2)" by fastforce
    from n show thesis
    proof (cases rule: note_cases)
      case (ok d)
      with assms(1) rl Ok t n show thesis
        by (auto simp: body_line_def bd_tape_defs chunk_line_def intro!: that(1) [of d br line])
    next
      case (slow d)
      with assms(1) rl Ok n show thesis by (auto simp: body_line_def intro!: err)
    qed
  qed
qed

lemma set_wait_tape [simp]:
  "bf_tape (set_wait env w r) = bf_tape r" "bf_tgood (set_wait env w r) = bf_tgood r"
  by (simp_all add: set_wait_def bf_tape_def bf_tgood_def)

lemma await_loop_tape:
  assumes "await_loop env p r idle = Some (x, r')" "bf_tgood r"
  shows "bf_tgood r' \<and> bf_tape r' = bf_tape r \<and> (\<forall>e. x = Err e \<longrightarrow> \<not> is_interrupted e \<and> \<not> refused e)"
proof -
  define P where "P env' p r idle x \<longleftrightarrow> (env' = env \<and> bf_tgood r \<longrightarrow> bf_tgood (snd x) \<and> bf_tape (snd x) = bf_tape r
      \<and> (\<forall>e. fst x = Err e \<longrightarrow> \<not> is_interrupted e \<and> \<not> refused e))"
    for env' and p :: patience and r and idle :: nat and x :: "(unit, io_error) result \<times> 's buf_reader"
  have "P env p r idle (x, r')"
  proof (rule await_loop.raw_induct [of P, OF _ assms(1)], goal_cases)
    case (1 f env' p r idle x)
    show ?case unfolding P_def
    proof
      assume a: "env' = env \<and> bf_tgood r"
      with 1(2) obtain y r1 where fl: "bf_fill rd r = Some (y, r1)" by (cases "bf_fill rd r") auto
      have g: "bf_tgood r1" "bf_tape r1 = bf_tape r" using bf_fill_tape [OF _ fl] a by auto
      show "bf_tgood (snd x) \<and> bf_tape (snd x) = bf_tape r
        \<and> (\<forall>e. fst x = Err e \<longrightarrow> \<not> is_interrupted e \<and> \<not> refused e)"
      proof (cases y)
        case (Ok bs)
        with 1(2) fl a g show ?thesis by auto
      next
        case (Err e)
        have e: "\<not> refused e" using fill_err [of r e r1] fl Err a plain_not_refused by blast
        show ?thesis using 1(2) fl a g e Err 1(1) [of env p r1 _ x]
          by (auto simp: P_def split: if_splits)
      qed
    qed
  qed
  with assms(2) show ?thesis by (simp add: P_def)
qed

lemma await_boundary_tape:
  assumes "await_boundary env b = Some (x, b')" "bd_tgood b"
  obtains br where "b' = b\<lparr>bd_r := br\<rparr>" "bd_tgood b'" "bd_tape b' = bd_tape b"
    "\<And>e. x = Err e \<Longrightarrow> \<not> is_interrupted e \<and> \<not> refused e"
proof (cases "bd_patience b")
  case None
  with assms show thesis using that [of "bd_r b"] by (auto simp: await_boundary_def)
next
  case (Some p)
  with assms(1) obtain r where r: "await_loop env p (set_wait env (Some (pt_step p)) (bd_r b)) 0 = Some (x, r)"
    "b' = b\<lparr>bd_r := set_wait env None r\<rparr>" by (auto simp: await_boundary_def split: option.splits)
  with await_loop_tape [OF r(1)] assms(2) show thesis
    using that [of "set_wait env None r"] by (auto simp: bd_tape_defs)
qed

lemma read_again_tape:
  assumes "read_again rd r want = Some (x, r')" "bf_tgood r" "0 < want"
  shows "bf_tgood r' \<and> (case x of Ok bs \<Rightarrow> bf_tape r = bs @ bf_tape r' \<and> length bs \<le> want \<and> (bs = [] \<longrightarrow> bf_tape r = [])
    | Err e \<Rightarrow> \<not> is_interrupted e \<and> \<not> refused e)"
proof -
  define P where "P rd' r want x \<longleftrightarrow> (rd' = rd \<and> bf_tgood r \<and> 0 < want \<longrightarrow> bf_tgood (snd x) \<and>
      (case fst x of Ok bs \<Rightarrow> bf_tape r = bs @ bf_tape (snd x) \<and> length bs \<le> want \<and> (bs = [] \<longrightarrow> bf_tape r = [])
        | Err e \<Rightarrow> \<not> is_interrupted e \<and> \<not> refused e))"
    for rd' :: "'s reader" and r and want :: nat and x :: "(bytes, io_error) result \<times> 's buf_reader"
  have "P rd r want (x, r')"
  proof (rule read_again.raw_induct [of P, OF _ assms(1)], goal_cases)
    case (1 f rd' r want x)
    show ?case unfolding P_def
    proof
      assume a: "rd' = rd \<and> bf_tgood r \<and> 0 < want"
      with 1(2) obtain y r1 where fl: "bf_read rd r want = Some (y, r1)" by (cases "bf_read rd r want") auto
      note g = bf_read_tape [OF _ fl]
      show "bf_tgood (snd x) \<and>
        (case fst x of Ok bs \<Rightarrow> bf_tape r = bs @ bf_tape (snd x) \<and> length bs \<le> want \<and> (bs = [] \<longrightarrow> bf_tape r = [])
        | Err e \<Rightarrow> \<not> is_interrupted e \<and> \<not> refused e)"
      proof (cases y)
        case (Ok bs)
        with 1(2) fl a have "x = (Ok bs, r1)" by simp
        with g Ok a show ?thesis by (auto split: result.splits)
      next
        case (Err e)
        have e: "\<not> refused e" using bf_read_err [of r want e r1] fl Err a plain_not_refused by blast
        show ?thesis
        proof (cases "is_interrupted e")
          case True
          with 1(2) fl a Err have "f rd r1 want = Some x" by simp
          from 1(1) [OF this] have "P rd r1 want x" .
          with g Err a show ?thesis by (auto simp: P_def split: result.splits)
        next
          case False
          with 1(2) fl a Err have "x = (Err e, r1)" by simp
          with g Err a e False show ?thesis by auto
        qed
      qed
    qed
  qed
  with assms(2,3) show ?thesis by (auto simp: P_def split: result.splits)
qed

lemma body_data_tape:
  assumes "body_data env b room left tr = Some (x, b')" "bd_tgood b" "0 < room" "0 < left"
  obtains (ok) d and br :: "'s buf_reader" and bs where "x = Ok bs"
      "b' = b\<lparr>bd_r := br, bd_deadline := d, bd_total := bd_total b + length bs\<rparr>" "bd_tgood b'"
      "bs \<noteq> []" "length bs \<le> left" "bd_tape b = bs @ bd_tape b'"
  | (err) e where "x = Err e" "\<not> is_interrupted e" "refused e \<longrightarrow> bd_tape b = []"
proof -
  define want where "want = min (min room IO_CHUNK_BYTES) left"
  have want: "0 < want" "want \<le> left" using assms(3,4) by (auto simp: want_def IO_CHUNK_BYTES_def)
  from assms(1) obtain y r where y: "read_again rd (bd_r b) want = Some (y, r)"
    by (auto simp: body_data_def want_def split: option.splits)
  note t = read_again_tape [OF y assms(2) [unfolded bd_tgood_def] want(1)]
  show thesis
  proof (cases y)
    case (Err e)
    with assms(1) y t err [of e] show thesis by (auto simp: body_data_def want_def)
  next
    case (Ok bs)
    show thesis
    proof (cases "bs = []")
      case True
      with assms(1) y Ok t show thesis
        by (intro err [of "OfBody (BodyInvalid [T tr])"]) (auto simp: body_data_def want_def bd_tape_def)
    next
      case False
      obtain rn b2 where n: "body_note env (length bs) (b\<lparr>bd_r := r\<rparr>) = (rn, b2)" by fastforce
      from n show thesis
      proof (cases rule: note_cases)
        case (ok d)
        have eq: "x = result.Ok bs" "b' = b\<lparr>bd_r := r, bd_deadline := d, bd_total := bd_total b + length bs\<rparr>"
          using assms(1) y Ok False n ok by (auto simp: body_data_def want_def)
        then show thesis
          by (rule that(1)) (use t Ok False want eq in \<open>auto simp: bd_tape_defs\<close>)
      next
        case (slow d)
        with assms(1) y Ok False n show thesis by (auto simp: body_data_def want_def intro!: err)
      qed
    qed
  qed
qed

lemma read_trailers_tape:
  assumes "read_trailers env b n = Some (x, b')" "bd_tgood b"
  shows "case x of
      Ok _ \<Rightarrow> bd_tgood b' \<and> skip_trailers n (bd_tape b) = Some (bd_tape b') \<and> bd_limit b' = bd_limit b \<and> bd_total b' = bd_total b
    | Err e \<Rightarrow> \<not> is_interrupted e \<and> (refused e \<longrightarrow> skip_trailers n (bd_tape b) = None)"
proof -
  define P where "P env' b n x \<longleftrightarrow> (env' = env \<and> bd_tgood b \<longrightarrow> (case fst x of
      Ok _ \<Rightarrow> bd_tgood (snd x) \<and> skip_trailers n (bd_tape b) = Some (bd_tape (snd x)) \<and> bd_limit (snd x) = bd_limit b \<and> bd_total (snd x) = bd_total b
    | Err e \<Rightarrow> \<not> is_interrupted e \<and> (refused e \<longrightarrow> skip_trailers n (bd_tape b) = None)))"
    for env' and b and n :: nat and x :: "(unit, io_error) result \<times> 's body_reader"
  have "P env b n (x, b')"
  proof (rule read_trailers.raw_induct [of P, OF _ assms(1)], goal_cases)
    case (1 f env' b n x)
    show ?case unfolding P_def
    proof
      assume a: "env' = env \<and> bd_tgood b"
      with 1(2) obtain y b1 where y: "body_line env b = Some (y, b1)" by (cases "body_line env b") auto
      from y a have "bd_tgood b" by simp
      from y this show "case fst x of
        Ok _ \<Rightarrow> bd_tgood (snd x) \<and> skip_trailers n (bd_tape b) = Some (bd_tape (snd x)) \<and> bd_limit (snd x) = bd_limit b \<and> bd_total (snd x) = bd_total b
      | Err e \<Rightarrow> \<not> is_interrupted e \<and> (refused e \<longrightarrow> skip_trailers n (bd_tape b) = None)"
      proof (cases rule: body_line_tape)
        case (err e)
        with 1(2) a y have "x = (Err e, b1)" by simp
        with err show ?thesis by simp
      next
        case (ok d br line)
        have nil: "line = [] \<longleftrightarrow> bd_tape b = []" using ok by simp
        note st = skip_trailers.simps [of n "bd_tape b", folded ok(4), unfolded Let_def, folded ok(5)]
        show ?thesis
        proof (cases "line = [] \<or> length line > MAX_CHUNK_LINE_BYTES \<or> n + length line > MAX_TRAILER_BYTES")
          case True
          with 1(2) a y ok(3) have "x = (Err (OfBody (BodyInvalid [T ''invalid or overlong chunk trailers''])), b1)" by simp
          with True st nil show ?thesis by auto
        next
          case False
          with nil st have st2: "skip_trailers n (bd_tape b) = (if line = CRLF \<or> line = [NEWLINE] then Some (bd_tape b1)
            else skip_trailers (n + length line) (bd_tape b1))" by auto
          show ?thesis
          proof (cases "line = CRLF \<or> line = [NEWLINE]")
            case True
            with 1(2) a y ok(3) False have "x = (Ok (), b1)" by simp
            with st2 True ok show ?thesis by simp
          next
            case no: False
            with 1(2) a y ok(3) False have "f env b1 (n + length line) = Some x" by simp
            from 1(1) [OF this] ok(1,2) st2 no show ?thesis by (cases "fst x") (auto simp: P_def)
          qed
        qed
      qed
    qed
  qed
  with assms(2) show ?thesis by (simp add: P_def split: result.splits)
qed

lemma read_trailers_patience:
  assumes "read_trailers env b n = Some (Ok u, b')" "bd_tgood b"
  shows "bd_patience b' = bd_patience b"
proof -
  define P where "P env' b n x \<longleftrightarrow> (env' = env \<and> bd_tgood b \<and> fst x = Ok () \<longrightarrow> bd_patience (snd x) = bd_patience b)"
    for env' and b :: "'s body_reader" and n :: nat and x :: "(unit, io_error) result \<times> 's body_reader"
  have "P env b n (Ok u, b')"
  proof (rule read_trailers.raw_induct [of P, OF _ assms(1)], goal_cases)
    case (1 f env' b n x)
    show ?case unfolding P_def
    proof
      assume a: "env' = env \<and> bd_tgood b \<and> fst x = Ok ()"
      with 1(2) obtain y b1 where y: "body_line env b = Some (y, b1)" by (cases "body_line env b") auto
      from a have "bd_tgood b" by simp
      from y this show "bd_patience (snd x) = bd_patience b"
      proof (cases rule: body_line_tape)
        case (err e)
        with 1(2) a y show ?thesis by auto
      next
        case (ok d br line)
        then have "bd_patience b1 = bd_patience b" "bd_tgood b1" by simp_all
        with 1 a y ok(3) show ?thesis by (auto simp: P_def split: if_splits)
      qed
    qed
  qed
  with assms(2) show ?thesis by (simp add: P_def)
qed

text \<open>What the format says the reader still owes, from each of its states.\<close>

definition rest_of :: "'s body_reader \<Rightarrow> (bytes \<times> bytes) option" where
  "rest_of b =
     (let t = bd_tape b; room = bd_limit b - bd_total b
      in (case bd_chunk b of
            None \<Rightarrow> if bd_length_left b \<le> length t then Some (take (bd_length_left b) t, drop (bd_length_left b) t) else None
          | Some ChunkSize \<Rightarrow> dechunk room t
          | Some (ChunkData n) \<Rightarrow>
              if length t < n \<or> take 2 (drop n t) \<noteq> CRLF then None
              else prepend (take n t) (dechunk (room - n) (drop (n + 2) t))
          | Some ChunkEnd \<Rightarrow> if take 2 t \<noteq> CRLF then None else dechunk room (drop 2 t)
          | Some ChunkDone \<Rightarrow> Some ([], t)))"

definition bd_inv :: "'s body_reader \<Rightarrow> bool" where
  "bd_inv b \<longleftrightarrow> bd_tgood b \<and> bd_total b \<le> bd_limit b \<and>
     (bd_chunk b = None \<longrightarrow> bd_length_left b \<le> bd_limit b - bd_total b) \<and>
     (\<forall>n. bd_chunk b = Some (ChunkData n) \<longrightarrow> 0 < n \<and> n \<le> bd_limit b - bd_total b)"

definition turn_ok :: "'s body_reader \<Rightarrow> (bytes, io_error) result turn \<Rightarrow> 's body_reader \<Rightarrow> bool" where
  "turn_ok b t b' \<longleftrightarrow>
     (case t of
        Continue \<Rightarrow> bd_inv b' \<and> bd_chunk b' \<noteq> None \<and> rest_of b = rest_of b'
      | Return (Ok bs) \<Rightarrow> bd_inv b' \<and> bd_chunk b' \<noteq> None \<and>
          (if bs = [] then rest_of b = Some ([], bd_tape b') else rest_of b = prepend bs (rest_of b'))
      | Return (Err e) \<Rightarrow> \<not> is_interrupted e \<and> (refused e \<longrightarrow> rest_of b = None))"

lemma bd_upd [simp]:
  "bd_tape (b\<lparr>bd_chunk := c\<rparr>) = bd_tape b" "bd_tgood (b\<lparr>bd_chunk := c\<rparr>) = bd_tgood b"
  "bd_tape (b\<lparr>bd_length_left := l\<rparr>) = bd_tape b" "bd_tgood (b\<lparr>bd_length_left := l\<rparr>) = bd_tgood b"
  by (simp_all add: bd_tape_defs)

lemma size_turn_ok:
  assumes "size_turn env (b\<lparr>bd_chunk := None\<rparr>) = Some (t, b')" "bd_inv b" "bd_chunk b = Some ChunkSize"
  shows "turn_ok b t b'"
proof -
  from assms(1) obtain x b1 where x: "await_boundary env (b\<lparr>bd_chunk := None\<rparr>) = Some (x, b1)"
    by (auto simp: size_turn_def split: option.splits)
  have "bd_tgood (b\<lparr>bd_chunk := None\<rparr>)" using assms(2) by (simp add: bd_inv_def)
  from x this obtain br1 where b1: "b1 = b\<lparr>bd_chunk := None, bd_r := br1\<rparr>" "bd_tgood b1" "bd_tape b1 = bd_tape b"
    "\<And>e. x = Err e \<Longrightarrow> \<not> is_interrupted e \<and> \<not> refused e" by (rule await_boundary_tape) auto
  show ?thesis
  proof (cases x)
    case (Err e)
    with assms(1) x have "t = Return (Err e)" by (simp add: size_turn_def)
    with b1(4) Err show ?thesis by (simp add: turn_ok_def)
  next
    case (Ok u)
    with assms(1) x obtain y b2 where y: "body_line env b1 = Some (y, b2)"
      by (auto simp: size_turn_def split: option.splits)
    from y b1(2) show ?thesis
    proof (cases rule: body_line_tape)
      case (err e)
      with assms(1) x Ok y have "t = Return (Err e)" by (simp add: size_turn_def)
      with err show ?thesis by (simp add: turn_ok_def)
    next
      case (ok d br line)
      let ?room = "bd_limit b - bd_total b"
      have same: "bd_limit b2 = bd_limit b" "bd_total b2 = bd_total b" "bd_limit b1 = bd_limit b" using ok b1 by simp_all
      have l: "line = chunk_line (bd_tape b)" "bd_tape b2 = drop (length line) (bd_tape b)" using ok b1(3) by simp_all
      have rest: "rest_of b = (case chunk_size ?room line of
            Err _ \<Rightarrow> None
          | Ok n \<Rightarrow>
              if n = 0 then map_option (\<lambda>rest. ([], rest)) (skip_trailers 0 (bd_tape b2))
              else if n > ?room \<or> length (bd_tape b2) < n \<or> take 2 (drop n (bd_tape b2)) \<noteq> CRLF then None
              else prepend (take n (bd_tape b2)) (dechunk (?room - n) (drop (n + 2) (bd_tape b2))))"
        using dechunk_line [OF l, of ?room] assms(3) by (simp add: rest_of_def)
      show ?thesis
      proof (cases "chunk_size (bd_limit b) line")
        case (Err e)
        with assms(1) x Ok y ok(3) same have "t = Return (Err (OfBody e))" by (simp add: size_turn_def)
        moreover have "rest_of b = None" using rest Err chunk_size_limit [of ?room line _ "bd_limit b"]
          by (auto split: result.splits)
        ultimately show ?thesis by (simp add: turn_ok_def)
      next
        case n: (Ok n)
        then have n2: "chunk_size ?room line = result.Ok n" using chunk_size_limit by blast
        show ?thesis
        proof (cases "n = 0")
          case True
          with assms(1) x Ok y ok(3) same n obtain z b3 where z: "read_trailers env b2 0 = Some (z, b3)"
            by (auto simp: size_turn_def split: option.splits)
          note tr = read_trailers_tape [OF z ok(2)]
          show ?thesis
          proof (cases z)
            case (Err e)
            with assms(1) x Ok y ok(3) same n True z have "t = Return (Err e)" by (simp add: size_turn_def)
            with tr Err rest n2 True show ?thesis by (auto simp: turn_ok_def)
          next
            case zok: (Ok v)
            with assms(1) x Ok y ok(3) same n True z
            have "t = Return (result.Ok [])" "b' = b3\<lparr>bd_chunk := Some ChunkDone\<rparr>" by (simp_all add: size_turn_def)
            with tr zok rest n2 True assms(2) same show ?thesis by (simp add: turn_ok_def bd_inv_def)
          qed
        next
          case False
          show ?thesis
          proof (cases "n > ?room")
            case True
            with assms(1) x Ok y ok(3) same n False have "t = Return (Err (OfBody (too_large (bd_limit b))))"
              by (simp add: size_turn_def)
            with rest n2 True False show ?thesis by (simp add: turn_ok_def)
          next
            case fits: False
            with assms(1) x Ok y ok(3) same n False
            have eq: "t = Continue" "b' = b2\<lparr>bd_chunk := Some (ChunkData n)\<rparr>" by (simp_all add: size_turn_def)
            with rest n2 fits False same ok(2) assms(2) show ?thesis
              by (simp add: turn_ok_def bd_inv_def rest_of_def Let_def)
          qed
        qed
      qed
    qed
  qed
qed

lemma data_turn_ok:
  assumes "data_turn env (b\<lparr>bd_chunk := None\<rparr>) room left = Some (t, b')" "bd_inv b"
    "bd_chunk b = Some (ChunkData left)" "0 < room"
  shows "turn_ok b t b'"
proof -
  from assms(1) obtain x b1 where x: "body_data env (b\<lparr>bd_chunk := None\<rparr>) room left ''truncated chunk data'' = Some (x, b1)"
    by (auto simp: data_turn_def split: option.splits)
  have inv: "bd_tgood (b\<lparr>bd_chunk := None\<rparr>)" "0 < left" "left \<le> bd_limit b - bd_total b"
    using assms(2,3) by (simp_all add: bd_inv_def)
  from x inv(1) assms(4) inv(2) show ?thesis
  proof (cases rule: body_data_tape)
    case (err e)
    with assms(1) x have "t = Return (Err e)" by (simp add: data_turn_def)
    with err assms(3) inv(2) show ?thesis by (auto simp: turn_ok_def rest_of_def)
  next
    case (ok d br bs)
    define c where "c = (if left - length bs = 0 then ChunkEnd else ChunkData (left - length bs))"
    have eq: "t = Return (Ok bs)" "b' = b1\<lparr>bd_chunk := Some c\<rparr>"
      using assms(1) x ok by (simp_all add: data_turn_def c_def)
    have tp: "bd_tape b = bs @ bd_tape b1" using ok by simp
    have same: "bd_limit b1 = bd_limit b" "bd_total b1 = bd_total b + length bs" using ok by simp_all
    have rooms: "bd_limit b - (bd_total b + length bs) - (left - length bs) = bd_limit b - bd_total b - left"
      using ok(5) by simp
    have "bd_inv b'" using eq same ok(3,5) inv(3) assms(2) by (auto simp: bd_inv_def c_def)
    moreover have "rest_of b = prepend bs (rest_of b')"
    proof (cases "length bs = left")
      case True
      then have "rest_of b' = (if take 2 (bd_tape b1) \<noteq> CRLF then None
          else dechunk (bd_limit b - bd_total b - left) (drop 2 (bd_tape b1)))"
        using eq same rooms by (simp add: rest_of_def c_def)
      moreover have "rest_of b = (if take 2 (bd_tape b1) \<noteq> CRLF then None
          else prepend bs (dechunk (bd_limit b - bd_total b - left) (drop 2 (bd_tape b1))))"
        using True assms(3) by (simp add: rest_of_def tp)
      ultimately show ?thesis by simp
    next
      case False
      have less: "length bs < left" using ok(5) False by simp
      then have c: "c = ChunkData (left - length bs)" by (simp add: c_def)
      have d: "drop left (bd_tape b) = drop (left - length bs) (bd_tape b1)"
        "drop (left + 2) (bd_tape b) = drop (left - length bs + 2) (bd_tape b1)"
        "take left (bd_tape b) = bs @ take (left - length bs) (bd_tape b1)"
        "length (bd_tape b) < left \<longleftrightarrow> length (bd_tape b1) < left - length bs"
        using less by (auto simp: tp Suc_diff_le)
      have "rest_of b = (if length (bd_tape b) < left \<or> take 2 (drop left (bd_tape b)) \<noteq> CRLF then None
          else prepend (take left (bd_tape b)) (dechunk (bd_limit b - bd_total b - left) (drop (left + 2) (bd_tape b))))"
        using assms(3) by (simp only: rest_of_def Let_def option.case chunk.case)
      then show ?thesis unfolding d using eq(2) same rooms by (simp add: rest_of_def c Let_def)
    qed
    ultimately show ?thesis using eq ok(4) by (simp add: turn_ok_def)
  qed
qed

lemma end_turn_ok:
  assumes "end_turn env (b\<lparr>bd_chunk := None\<rparr>) = Some (t, b')" "bd_inv b" "bd_chunk b = Some ChunkEnd"
  shows "turn_ok b t b'"
proof -
  from assms(1) obtain x r where x: "read_full (bf_read rd) (bd_r b) 2 = Some (x, r)"
    by (auto simp: end_turn_def split: option.splits)
  have g: "bf_tgood (bd_r b)" using assms(2) by (simp add: bd_inv_def bd_tgood_def)
  note t = tape_reader.read_full_tape [OF bf_tape_reader x g]
  show ?thesis
  proof (cases x)
    case (Err e)
    with assms(1) x have "t = Return (Err e)" by (simp add: end_turn_def)
    moreover have "\<not> refused e" using read_full_err [of "bd_r b" 2 e r] x Err g plain_not_refused by blast
    ultimately show ?thesis using t Err by (simp add: turn_ok_def)
  next
    case (Ok bs)
    have tp: "bd_tape b = bs @ bf_tape r" "length bs \<le> 2" "length bs < 2 \<longrightarrow> bf_tape r = []" "bf_tgood r"
      using t Ok by (simp_all add: bd_tape_def)
    obtain rn b2 where n: "body_note env (length bs) (b\<lparr>bd_chunk := None, bd_r := r\<rparr>) = (rn, b2)" by fastforce
    have tk: "take 2 (bd_tape b) = bs" using tp by (cases "length bs = 2") auto
    from n show ?thesis
    proof (cases rule: note_cases)
      case (slow d)
      with assms(1) x Ok n have "t = Return (Err (OfBody (BodyTimeout Rate)))" by (simp add: end_turn_def)
      then show ?thesis by (simp add: turn_ok_def)
    next
      case (ok d)
      show ?thesis
      proof (cases "bs = CRLF")
        case True
        with assms(1) x Ok n ok have eq: "t = Continue" "b' = b2\<lparr>bd_chunk := Some ChunkSize\<rparr>"
          by (simp_all add: end_turn_def)
        have d2: "drop 2 (bd_tape b) = bf_tape r" using tp True by (simp add: CRLF_def)
        have "rest_of b = rest_of b'" using assms(3) eq ok True tk d2 by (simp add: rest_of_def Let_def bd_tape_def)
        moreover have "bd_inv b'" using eq ok assms(2) tp(4) by (simp add: bd_inv_def bd_tgood_def)
        ultimately show ?thesis using eq by (simp add: turn_ok_def)
      next
        case False
        with assms(1) x Ok n ok have "t = Return (Err (OfBody (BodyInvalid [T ''chunk data missing CRLF''])))"
          by (simp add: end_turn_def)
        with False tk assms(3) show ?thesis by (simp add: turn_ok_def rest_of_def)
      qed
    qed
  qed
qed

lemma chunk_turn_ok:
  assumes "chunk_turn env b room = Some (t, b')" "bd_inv b" "bd_chunk b \<noteq> None" "0 < room"
  shows "turn_ok b t b'"
proof -
  from assms(3) obtain c where c: "bd_chunk b = Some c" by blast
  show ?thesis
  proof (cases c)
    case ChunkDone
    with assms(1) c have "t = Return (Ok [])" "b' = b\<lparr>bd_chunk := Some ChunkDone\<rparr>" by (simp_all add: chunk_turn_def)
    with ChunkDone c assms(2) show ?thesis by (simp add: turn_ok_def rest_of_def bd_inv_def)
  next
    case ChunkSize
    with size_turn_ok [of b t b'] assms(1,2) c show ?thesis by (simp add: chunk_turn_def)
  next
    case (ChunkData left)
    with data_turn_ok [of b room left t b'] assms c show ?thesis by (simp add: chunk_turn_def)
  next
    case ChunkEnd
    with end_turn_ok [of b t b'] assms(1,2) c show ?thesis by (simp add: chunk_turn_def)
  qed
qed

lemma chunked_ok:
  assumes "chunked env b room = Some (x, b')" "bd_inv b" "bd_chunk b \<noteq> None" "0 < room"
  shows "turn_ok b (Return x) b'"
proof -
  define P where "P env' b room x \<longleftrightarrow>
      (env' = env \<and> bd_inv b \<and> bd_chunk b \<noteq> None \<and> 0 < room \<longrightarrow> turn_ok b (Return (fst x)) (snd x))"
    for env' and b and room :: nat and x :: "(bytes, io_error) result \<times> 's body_reader"
  have "P env b room (x, b')"
  proof (rule chunked.raw_induct [of P, OF _ assms(1)], goal_cases)
    case (1 f env' b room x)
    show ?case unfolding P_def
    proof
      assume a: "env' = env \<and> bd_inv b \<and> bd_chunk b \<noteq> None \<and> 0 < room"
      with 1(2) obtain t b1 where t: "chunk_turn env b room = Some (t, b1)" by (cases "chunk_turn env b room") auto
      have ok: "turn_ok b t b1" using chunk_turn_ok [OF t] a by blast
      show "turn_ok b (Return (fst x)) (snd x)"
      proof (cases t)
        case (Return r)
        with 1(2) a t ok show ?thesis by auto
      next
        case Continue
        with 1(2) a t have "f env b1 room = Some x" by simp
        from 1(1) [OF this] ok Continue a have "turn_ok b1 (Return (fst x)) (snd x)" by (simp add: P_def turn_ok_def)
        moreover have "rest_of b = rest_of b1" using ok Continue by (simp add: turn_ok_def)
        ultimately show ?thesis by (cases "fst x") (simp_all add: turn_ok_def)
      qed
    qed
  qed
  with assms(2-4) show ?thesis by (simp add: P_def)
qed

text \<open>One \<open>read\<close>, whichever the framing.\<close>

lemma body_read_ok:
  assumes "body_read env b room = Some (x, b')" "bd_inv b" "0 < room"
  shows "case x of
      Ok bs \<Rightarrow> bd_inv b' \<and> (if bs = [] then rest_of b = Some ([], bd_tape b') else rest_of b = prepend bs (rest_of b'))
    | Err e \<Rightarrow> \<not> is_interrupted e \<and> (refused e \<longrightarrow> rest_of b = None)"
proof (cases "bd_chunk b")
  case (Some c)
  with assms have "chunked env b room = Some (x, b')" by (simp add: body_read_def)
  from chunked_ok [OF this assms(2)] Some assms(3) show ?thesis by (cases x) (simp_all add: turn_ok_def)
next
  case None
  show ?thesis
  proof (cases "bd_length_left b = 0")
    case True
    with None assms have "x = Ok []" "b' = b" by (simp_all add: body_read_def)
    with None True assms(2) show ?thesis by (simp add: rest_of_def Let_def)
  next
    case False
    let ?l = "bd_length_left b"
    from None False assms obtain y b1 where y: "body_data env b room ?l ''truncated request body'' = Some (y, b1)"
      by (auto simp: body_read_def split: option.splits)
    have "bd_tgood b" "0 < ?l" using assms(2) False by (simp_all add: bd_inv_def)
    from y this(1) assms(3) this(2) show ?thesis
    proof (cases rule: body_data_tape)
      case (err e)
      with None False assms y have "x = Err e" by (simp add: body_read_def)
      with err None False show ?thesis by (auto simp: rest_of_def)
    next
      case (ok d br bs)
      with None False assms y have eq: "x = Ok bs" "b' = b1\<lparr>bd_length_left := bd_length_left b1 - length bs\<rparr>"
        by (simp_all add: body_read_def)
      have l: "bd_length_left b1 = ?l" "bd_chunk b1 = None" using ok None by simp_all
      have "rest_of b = prepend bs (rest_of b')"
        using ok(5) None l eq unfolding rest_of_def ok(6) by (auto simp: Let_def)
      moreover have "bd_inv b'" using assms(2) None ok(1-3,5) eq l by (auto simp: bd_inv_def)
      ultimately show ?thesis using eq ok(4) by simp
    qed
  qed
qed

lemma body_to_end:
  assumes "read_to_end (body_read env) b acc = Some (x, d)" "bd_inv b"
  shows "case x of
      Ok out \<Rightarrow> \<exists>o2. out = acc @ o2 \<and> rest_of b = Some (o2, bd_tape d)
    | Err e \<Rightarrow> \<not> is_interrupted e \<and> (refused e \<longrightarrow> rest_of b = None)"
proof -
  define Q where "Q acc b x \<longleftrightarrow> (case fst x of
      Ok out \<Rightarrow> \<exists>o2. out = acc @ o2 \<and> rest_of b = Some (o2, bd_tape (snd x))
    | Err e \<Rightarrow> \<not> is_interrupted e \<and> (refused e \<longrightarrow> rest_of b = None))"
    for acc b and x :: "(bytes, io_error) result \<times> 's body_reader"
  define P where "P rd' b acc x \<longleftrightarrow> (rd' = body_read env \<and> bd_inv b \<longrightarrow> Q acc b x)" for rd' b acc x
  have room: "0 < COPY_BUF" by (simp add: COPY_BUF_def)
  have "P (body_read env) b acc (x, d)"
  proof (rule read_to_end.raw_induct [of P, OF _ assms(1)], goal_cases)
    case (1 f rd' b acc x)
    show ?case unfolding P_def
    proof
      assume a: "rd' = body_read env \<and> bd_inv b"
      with 1(2) obtain y b1 where y: "body_read env b COPY_BUF = Some (y, b1)"
        by (cases "body_read env b COPY_BUF") auto
      from a have inv: "bd_inv b" by simp
      note ok = body_read_ok [OF y inv room]
      show "Q acc b x"
      proof (cases y)
        case (Err e)
        with 1(2) a y ok show ?thesis by (auto simp: Q_def)
      next
        case (Ok bs)
        show ?thesis
        proof (cases "bs = []")
          case True
          with 1(2) a y Ok ok show ?thesis by (auto simp: Q_def)
        next
          case False
          with 1(2) a y Ok have "f (body_read env) b1 (acc @ bs) = Some x" by simp
          from 1(1) [OF this] ok Ok False have q: "Q (acc @ bs) b1 x" by (simp add: P_def)
          have "rest_of b = prepend bs (rest_of b1)" using ok Ok False by simp
          with q show ?thesis by (cases "fst x") (auto simp: Q_def)
        qed
      qed
    qed
  qed
  with assms(2) show ?thesis by (cases x) (simp_all add: P_def Q_def)
qed

lemma body_new_inv:
  assumes "bf_tgood r" "\<And>n. plan = Length n \<Longrightarrow> n \<le> limit"
  shows "bd_inv (body_new r plan limit d)" "rest_of (body_new r plan limit d) = deframe plan limit (bf_tape r)"
  using assms by (auto simp: bd_inv_def body_new_def bd_tape_defs rest_of_def deframe_def Let_def split: body_plan.splits)

end

subsection \<open>Bodies that arrive in time are accepted\<close>

text \<open>
  A connection that delivers its bytes and then ends without failing, within the grace period: every
  call then returns, and with nothing but bytes or a refusal of the framing.
\<close>

definition settled :: "('a, io_error) result \<Rightarrow> bool" where
  "settled x \<longleftrightarrow> (\<forall>e. x = Err e \<longrightarrow> refused e)"

lemma settled_simps [simp]: "settled (Ok v)" "settled (Err e) = refused e"
  by (simp_all add: settled_def)

definition GRACE :: nat where
  "GRACE = INITIAL_READ_SECONDS * NANOS"

lemma not_behind: "now - dl_started d \<le> GRACE \<Longrightarrow> \<not> behind now d"
  by (auto simp: behind_def GRACE_def NANOS_def INITIAL_READ_SECONDS_def MIN_READ_BYTES_PER_SECOND_def)

locale body_live = body_tape rd good content env + buffered_input rd good content "\<lambda>_. None" pending
  for rd :: "'s reader" and good content env pending +
  assumes in_time: "good s \<Longrightarrow> be_now env s \<le> GRACE"
begin

lemma bf_same: "bf_tgood = bf_good" "bf_tape = bf_content"
  by (auto simp: bf_tgood_def bf_good_def bf_tape_def bf_content_def fun_eq_iff)

lemma note_in_time:
  assumes "bd_tgood b"
  obtains d where "body_note env k b = (Ok (), b\<lparr>bd_deadline := d\<rparr>)"
proof -
  have "be_now env (bf_inner (bd_r b)) \<le> GRACE" using assms in_time by (simp add: bd_tgood_def bf_tgood_def)
  then have "\<not> behind (body_now env b) d" for d
    by (intro not_behind) (simp add: body_now_def)
  then show thesis using that by (simp add: body_note_def note_read_def Let_def)
qed

lemma body_line_returns:
  assumes "bd_tgood b"
  obtains line b' where "body_line env b = Some (Ok line, b')"
proof -
  have g: "bf_good (bd_r b)" "line_decided mx (bd_r b)" for mx
    using assms by (simp_all add: bd_tgood_def bf_same line_decided_def bf_ending_def)
  from g obtain r where r: "read_line rd (bd_r b) (MAX_CHUNK_LINE_BYTES + 1) =
      Some (Ok (first_line (MAX_CHUNK_LINE_BYTES + 1) (bf_content (bd_r b))), r)" "bf_good r"
    by (rule read_line_ok)
  have "bd_tgood (b\<lparr>bd_r := r\<rparr>)" using r(2) by (simp add: bd_tgood_def bf_same)
  from note_in_time [OF this, of "length (first_line (MAX_CHUNK_LINE_BYTES + 1) (bf_content (bd_r b)))"]
  obtain d where n: "body_note env (length (first_line (MAX_CHUNK_LINE_BYTES + 1) (bf_content (bd_r b)))) (b\<lparr>bd_r := r\<rparr>)
      = (Ok (), b\<lparr>bd_r := r, bd_deadline := d\<rparr>)" by blast
  show thesis by (rule that) (simp only: body_line_def env_rd r(1) n option.case result.case prod.case)
qed

lemma read_again_returns:
  assumes "bf_good r" "0 < want"
  shows "\<exists>bs r'. read_again rd r want = Some (Ok bs, r') \<and> bf_good r'"
  using assms(1)
proof (induction "bf_pending r" arbitrary: r rule: less_induct)
  case less
  from less(2) assms(2) show ?case
  proof (cases rule: bf.rd_cases)
    case (interrupted e r')
    then show ?thesis using less(1) [of r'] by (subst read_again.simps) simp
  next
    case (failed e r')
    then show ?thesis by (simp add: bf_ending_def)
  qed (subst read_again.simps, simp)+
qed

lemma body_data_returns:
  assumes "bd_tgood b" "0 < room" "0 < left"
  obtains x b' where "body_data env b room left tr = Some (x, b')" "settled x"
proof -
  define want where "want = min (min room IO_CHUNK_BYTES) left"
  have "0 < want" using assms(2,3) by (simp add: want_def IO_CHUNK_BYTES_def)
  with read_again_returns [of "bd_r b" want] assms(1) obtain bs r where
    r: "read_again rd (bd_r b) want = Some (Ok bs, r)" "bf_good r" by (auto simp: bd_tgood_def bf_same)
  show thesis
  proof (cases "bs = []")
    case True
    with r that show thesis by (auto simp: body_data_def want_def refused_def)
  next
    case False
    have "bd_tgood (b\<lparr>bd_r := r\<rparr>)" using r(2) by (simp add: bd_tgood_def bf_same)
    from note_in_time [OF this, of "length bs"] obtain d where
      n: "body_note env (length bs) (b\<lparr>bd_r := r\<rparr>) = (Ok (), b\<lparr>bd_r := r, bd_deadline := d\<rparr>)" by blast
    show thesis
      by (rule that [of "Ok bs" "b\<lparr>bd_r := r, bd_deadline := d, bd_total := bd_total b + length bs\<rparr>"])
        (use r False n in \<open>simp_all add: body_data_def want_def\<close>)
  qed
qed

lemma read_trailers_returns:
  assumes "bd_tgood b"
  shows "\<exists>x b'. read_trailers env b n = Some (x, b') \<and> settled x"
  using assms
proof (induction "length (bd_tape b)" arbitrary: b n rule: less_induct)
  case less
  obtain line b1 where l: "body_line env b = Some (Ok line, b1)" using body_line_returns [OF less(2)] .
  from l less(2) have bt: "bd_tgood b1" "line = chunk_line (bd_tape b)" "bd_tape b1 = drop (length line) (bd_tape b)"
    by (cases rule: body_line_tape; simp)+
  show ?case
  proof (cases "line = [] \<or> length line > MAX_CHUNK_LINE_BYTES \<or> n + length line > MAX_TRAILER_BYTES")
    case True
    with l show ?thesis by (subst read_trailers.simps) (auto simp: refused_def)
  next
    case False
    then have "length (bd_tape b1) < length (bd_tape b)" using bt by (cases "bd_tape b") auto
    with less(1) [of b1 "n + length line"] bt(1) l False show ?thesis
      by (subst read_trailers.simps) auto
  qed
qed

text \<open>A turn returns; the loop is at most three turns, since data follows a size and a size an end.\<close>

definition turns_left :: "'s body_reader \<Rightarrow> nat" where
  "turns_left b = (case bd_chunk b of Some ChunkEnd \<Rightarrow> 2 | Some ChunkSize \<Rightarrow> 1 | _ \<Rightarrow> 0)"

lemma chunk_turn_returns:
  assumes "bd_inv b" "bd_chunk b = Some c" "0 < room" "bd_patience b = None"
  obtains (stop) x b' where "chunk_turn env b room = Some (Return x, b')" "settled x"
      "\<And>bs. x = Ok bs \<Longrightarrow> bd_patience b' = None"
  | (go) b' where "chunk_turn env b room = Some (Continue, b')" "turns_left b' < turns_left b" "bd_patience b' = None"
proof -
  let ?b = "b\<lparr>bd_chunk := None\<rparr>"
  have g: "bd_tgood ?b" using assms(1) by (simp add: bd_inv_def)
  show thesis
  proof (cases c)
    case ChunkDone
    with assms show thesis by (intro stop [of "Ok []" "b\<lparr>bd_chunk := Some ChunkDone\<rparr>"]) (simp_all add: chunk_turn_def)
  next
    case (ChunkData left)
    then have left: "0 < left" using assms(1,2) by (simp add: bd_inv_def)
    from body_data_returns [OF g assms(3) left, of "''truncated chunk data''"] obtain x b1 where
      x: "body_data env ?b room left ''truncated chunk data'' = Some (x, b1)" "settled x" .
    show thesis
    proof (cases x)
      case (Err e)
      with x ChunkData assms(2) show thesis
        by (intro stop [of x b1]) (simp_all add: chunk_turn_def data_turn_def)
    next
      case (Ok bs)
      from x(1) g assms(3) left have "bd_patience b1 = None"
        using assms(4) Ok by (cases rule: body_data_tape) simp_all
      with x Ok ChunkData assms(2) show thesis
        by (intro stop [of x "b1\<lparr>bd_chunk := Some (if left - length bs = 0 then ChunkEnd else ChunkData (left - length bs))\<rparr>"])
          (simp_all add: chunk_turn_def data_turn_def)
    qed
  next
    case ChunkEnd
    have "bf_good (bd_r b)" using g by (simp add: bd_tgood_def bf_same)
    from bf.read_full_spec [OF this, of 2] obtain bs r where
      r: "read_full (bf_read rd) (bd_r b) 2 = Some (Ok bs, r)" "bf_good r"
      by (auto simp: bf_ending_def split: if_splits)
    have "bd_tgood (?b\<lparr>bd_r := r\<rparr>)" using r(2) by (simp add: bd_tgood_def bf_same)
    from note_in_time [OF this, of "length bs"] obtain d where
      n: "body_note env (length bs) (?b\<lparr>bd_r := r\<rparr>) = (Ok (), ?b\<lparr>bd_r := r, bd_deadline := d\<rparr>)" by blast
    let ?b1 = "?b\<lparr>bd_r := r, bd_deadline := d\<rparr>"
    show thesis
    proof (cases "bs = CRLF")
      case True
      with r n ChunkEnd assms(2,4) show thesis
        by (intro go [of "?b1\<lparr>bd_chunk := Some ChunkSize\<rparr>"])
          (simp_all add: chunk_turn_def end_turn_def turns_left_def)
    next
      case False
      with r n ChunkEnd assms(2) show thesis
        by (intro stop [of "Err (OfBody (BodyInvalid [T ''chunk data missing CRLF'']))" ?b1])
          (simp_all add: chunk_turn_def end_turn_def refused_def)
    qed
  next
    case ChunkSize
    have aw: "await_boundary env ?b = Some (Ok (), ?b)" using assms(4) by (simp add: await_boundary_def)
    from body_line_returns [OF g] obtain line b1 where l: "body_line env ?b = Some (Ok line, b1)" .
    from l g have b1: "bd_tgood b1" "bd_patience b1 = None" using assms(4) by (cases rule: body_line_tape; simp)+
    have tn: "chunk_turn env b room = size_turn env ?b" using ChunkSize assms(2) by (simp add: chunk_turn_def)
    show thesis
    proof (cases "chunk_size (bd_limit b1) line")
      case (Err e)
      then have "refused (OfBody e)"
        by (auto simp: chunk_size_def too_large_def refused_def Let_def split: if_splits option.splits)
      with Err aw l show thesis
        by (intro stop [of "Err (OfBody e)" b1]) (simp_all add: tn size_turn_def)
    next
      case (Ok n)
      show thesis
      proof (cases "n = 0")
        case True
        from read_trailers_returns [OF b1(1), of 0] obtain z b3 where
          z: "read_trailers env b1 0 = Some (z, b3)" "settled z" by blast
        show thesis
        proof (cases z)
          case (Err e)
          with z aw l Ok True show thesis
            by (intro stop [of "Err e" b3]) (simp_all add: tn size_turn_def)
        next
          case zok: (Ok u)
          then have "read_trailers env b1 0 = Some (result.Ok u, b3)" using z by simp
          from read_trailers_patience [OF this b1(1)] have "bd_patience b3 = None" using b1 by simp
          with z zok aw l Ok True show thesis
            by (intro stop [of "result.Ok []" "b3\<lparr>bd_chunk := Some ChunkDone\<rparr>"]) (simp_all add: tn size_turn_def)
        qed
      next
        case False
        show thesis
        proof (cases "n > bd_limit b1 - bd_total b1")
          case True
          with aw l Ok False show thesis
            by (intro stop [of "Err (OfBody (too_large (bd_limit b1)))" b1])
              (simp_all add: tn size_turn_def refused_def too_large_def)
        next
          case fits: False
          with aw l Ok False b1 assms(2) ChunkSize show thesis
            by (intro go [of "b1\<lparr>bd_chunk := Some (ChunkData n)\<rparr>"]) (simp_all add: tn size_turn_def turns_left_def)
        qed
      qed
    qed
  qed
qed

lemma chunked_returns:
  assumes "bd_inv b" "bd_chunk b \<noteq> None" "0 < room" "bd_patience b = None"
  shows "\<exists>x b'. chunked env b room = Some (x, b') \<and> settled x \<and> (\<forall>bs. x = Ok bs \<longrightarrow> bd_patience b' = None)"
  using assms
proof (induction "turns_left b" arbitrary: b rule: less_induct)
  case less
  then obtain c where c: "bd_chunk b = Some c" by blast
  from less(2) c less(4,5) show ?case
  proof (cases rule: chunk_turn_returns)
    case (stop x b')
    then show ?thesis by (subst chunked.simps) auto
  next
    case (go b')
    have "turn_ok b Continue b'" using chunk_turn_ok [OF go(1) less(2,3,4)] .
    then have "bd_inv b'" "bd_chunk b' \<noteq> None" by (simp_all add: turn_ok_def)
    from less(1) [OF go(2) this less(4) go(3)] go(1) show ?thesis by (subst chunked.simps) simp
  qed
qed

lemma body_read_returns:
  assumes "bd_inv b" "0 < room" "bd_patience b = None"
  shows "\<exists>x b'. body_read env b room = Some (x, b') \<and> settled x \<and> (\<forall>bs. x = Ok bs \<longrightarrow> bd_patience b' = None)"
proof (cases "bd_chunk b")
  case (Some c)
  with chunked_returns [of b room] assms show ?thesis by (simp add: body_read_def)
next
  case None
  show ?thesis
  proof (cases "bd_length_left b = 0")
    case True
    with None assms show ?thesis by (simp add: body_read_def)
  next
    case False
    have g: "bd_tgood b" "0 < bd_length_left b" using assms(1) False by (simp_all add: bd_inv_def)
    from body_data_returns [OF g(1) assms(2) g(2), of "''truncated request body''"] obtain x b1 where
      x: "body_data env b room (bd_length_left b) ''truncated request body'' = Some (x, b1)" "settled x" .
    show ?thesis
    proof (cases x)
      case (Err e)
      with x None False assms(2) show ?thesis by (simp add: body_read_def)
    next
      case (Ok bs)
      from x(1) g(1) assms(2) g(2) have "bd_patience b1 = None"
        using assms(3) Ok by (cases rule: body_data_tape) simp_all
      with x Ok None False assms(2) show ?thesis by (simp add: body_read_def)
    qed
  qed
qed

text \<open>What is still to come shrinks with every read that gives bytes.\<close>

lemma body_to_end_returns:
  assumes "bd_inv b" "bd_patience b = None" "rest_of b = Some (out, rest)"
  shows "\<exists>d. read_to_end (body_read env) b acc = Some (Ok (acc @ out), d) \<and> bd_tape d = rest"
  using assms
proof (induction "length out" arbitrary: b out acc rule: less_induct)
  case less
  have room: "0 < COPY_BUF" by (simp add: COPY_BUF_def)
  from body_read_returns [OF less(2) room less(3)] obtain x b' where
    x: "body_read env b COPY_BUF = Some (x, b')" "settled x" "\<And>bs. x = Ok bs \<Longrightarrow> bd_patience b' = None" by blast
  note ok = body_read_ok [OF x(1) less(2) room]
  show ?case
  proof (cases x)
    case (Err e)
    with x(2) ok less(4) show ?thesis by simp
  next
    case (Ok bs)
    show ?thesis
    proof (cases "bs = []")
      case True
      with Ok ok x less(4) show ?thesis by (subst read_to_end.simps) simp
    next
      case False
      with Ok ok less(4) have "rest_of b = prepend bs (rest_of b')" "bd_inv b'" by simp_all
      with less(4) obtain o2 where o2: "rest_of b' = Some (o2, rest)" "out = bs @ o2" by (auto simp: prepend_Some)
      then have "length o2 < length out" using False by simp
      from less(1) [OF this \<open>bd_inv b'\<close> x(3) [OF Ok] o2(1), of "acc @ bs"] o2(2) Ok x(1) False show ?thesis
        by (subst read_to_end.simps) simp
    qed
  qed
qed

end

subsection \<open>A connection as a script\<close>

text \<open>
  The wire: pieces of data and failures of the operating system in any order; \<open>wire_clean\<close> when
  the only failures are interruptions.
\<close>

definition wire_ok :: "source \<Rightarrow> bool" where [eval_defs]:
  "wire_ok es \<longleftrightarrow> list_all (\<lambda>e. case e of Data bs \<Rightarrow> bs \<noteq> [] | Fail (Plain _ _) \<Rightarrow> True | Fail _ \<Rightarrow> False) es"

definition wire_clean :: "source \<Rightarrow> bool" where [eval_defs]:
  "wire_clean es \<longleftrightarrow> list_all (\<lambda>e. case e of Data bs \<Rightarrow> bs \<noteq> [] | Fail (Plain k _) \<Rightarrow> k = Interrupted | Fail _ \<Rightarrow> False) es"

definition wire_bytes :: "source \<Rightarrow> bytes" where [eval_defs]:
  "wire_bytes es = concat (map (\<lambda>e. case e of Data bs \<Rightarrow> bs | Fail _ \<Rightarrow> []) es)"

definition wire_env :: "(source \<Rightarrow> nat) \<Rightarrow> (source \<Rightarrow> bool) \<Rightarrow> source body_env" where [eval_defs]:
  "wire_env now whole = \<lparr>be_rd = source_read, be_now = now, be_set_wait = (\<lambda>_ s. s), be_whole = whole\<rparr>"

definition unread :: "source buf_reader \<Rightarrow> bytes" where [eval_defs]:
  "unread r = bf_buf r @ wire_bytes (bf_inner r)"

lemma wire_simps [simp]:
  "wire_ok []" "wire_ok (Data bs # es) = (bs \<noteq> [] \<and> wire_ok es)"
  "wire_ok (Fail e # es) = ((\<exists>k m. e = Plain k m) \<and> wire_ok es)"
  "wire_clean []" "wire_clean (Data bs # es) = (bs \<noteq> [] \<and> wire_clean es)"
  "wire_clean (Fail e # es) = ((\<exists>m. e = Plain Interrupted m) \<and> wire_clean es)"
  "wire_bytes [] = []" "wire_bytes (Data bs # es) = bs @ wire_bytes es" "wire_bytes (Fail e # es) = wire_bytes es"
  by (auto simp: wire_ok_def wire_clean_def wire_bytes_def split: io_error.splits)

lemma wire_clean_ok: "wire_clean es \<Longrightarrow> wire_ok es"
proof (induction es)
  case (Cons e es)
  then show ?case by (cases e) auto
qed simp

lemma source_read_wire:
  assumes "wire_ok es" "source_read es n = Some (r, es')"
  shows "wire_ok es' \<and> (wire_clean es \<longrightarrow> wire_clean es')"
    "case r of Ok bs \<Rightarrow> wire_bytes es = bs @ wire_bytes es' \<and> length bs \<le> n \<and> (bs = [] \<and> 0 < n \<longrightarrow> es = [] \<and> es' = [])
      | Err e \<Rightarrow> wire_bytes es' = wire_bytes es \<and> (\<exists>k m. e = Plain k m) \<and> (wire_clean es \<longrightarrow> is_interrupted e)
        \<and> source_interrupts es' \<le> source_interrupts es \<and> (is_interrupted e \<longrightarrow> source_interrupts es' < source_interrupts es)"
  using assms
  by (cases "(es, n)" rule: source_read.cases; auto simp: error_kind_of_def simp flip: append_assoc)+

interpretation wire: body_tape source_read wire_ok wire_bytes "wire_env now whole"
  for now whole
proof
  fix s n r s'
  assume "wire_ok s" "source_read s n = Some (r, s')"
  then show "wire_ok s'" using source_read_wire(1) by blast
next
  fix s n bs s'
  assume "wire_ok s" "source_read s n = Some (Ok bs, s')"
  then show "wire_bytes s = bs @ wire_bytes s' \<and> length bs \<le> n" using source_read_wire(2) by fastforce
next
  fix s and n :: nat and s'
  assume "wire_ok s" "0 < n" "source_read s n = Some (Ok [], s')"
  then show "wire_bytes s = []" using source_read_wire(2) [of s n "Ok []" s'] by auto
next
  fix s n e s'
  assume "wire_ok s" "source_read s n = Some (Err e, s')"
  then show "wire_bytes s' = wire_bytes s" "\<exists>k m. e = Plain k m"
    using source_read_wire(2) [of s n "Err e" s'] by auto
qed (simp_all add: wire_env_def)

lemma wire_tape_eq: "wire.bf_tape = unread" "wire.bf_tgood r = wire_ok (bf_inner r)"
  by (auto simp: wire.bf_tape_def unread_def wire.bf_tgood_def)

lemma wire_reader: "byte_reader source_read wire_clean wire_bytes (\<lambda>_. None) source_interrupts"
proof (rule byte_readerI)
  fix s and n :: nat
  assume s: "wire_clean s" "0 < n"
  show "read_outcome source_read wire_clean wire_bytes (\<lambda>_. None) source_interrupts s n"
  proof (cases "(s, n)" rule: source_read.cases)
    case (1 n)
    then show ?thesis by (simp add: read_outcome_def)
  next
    case (2 bs es n)
    with s show ?thesis by (cases "drop n bs = []") (auto simp: read_outcome_def simp flip: append_assoc)
  next
    case (3 e es n)
    with s show ?thesis by (auto simp: read_outcome_def error_kind_of_def)
  qed
qed

text \<open>A connection whose clock stays within the grace period.\<close>

abbreviation timely :: "(source \<Rightarrow> nat) \<Rightarrow> source \<Rightarrow> nat" where
  "timely now \<equiv> \<lambda>s. min GRACE (now s)"

interpretation live: body_live source_read wire_clean wire_bytes "wire_env (timely now) whole" source_interrupts
  for now whole
proof (intro body_live.intro body_tape.intro body_tape_axioms.intro buffered_input.intro tape_reader.intro
    body_live_axioms.intro wire_reader)
  fix s n r s'
  assume "wire_clean s" "source_read s n = Some (r, s')"
  then show "wire_clean s'" using source_read_wire(1) wire_clean_ok by blast
next
  fix s n bs s'
  assume "wire_clean s" "source_read s n = Some (Ok bs, s')"
  then show "wire_bytes s = bs @ wire_bytes s' \<and> length bs \<le> n" using source_read_wire(2) wire_clean_ok by fastforce
next
  fix s and n :: nat and s'
  assume "wire_clean s" "0 < n" "source_read s n = Some (Ok [], s')"
  then show "wire_bytes s = []" using source_read_wire(2) [of s n "Ok []" s'] wire_clean_ok by auto
next
  fix s n e s'
  assume "wire_clean s" "source_read s n = Some (Err e, s')"
  then show "wire_bytes s' = wire_bytes s" "\<exists>k m. e = Plain k m"
    using source_read_wire(2) [of s n "Err e" s'] wire_clean_ok by auto
qed (simp_all add: wire_env_def)

lemma live_tape_eq: "live.bf_tape = unread" "live.bf_tgood r = wire_clean (bf_inner r)"
  by (auto simp: live.bf_tape_def unread_def live.bf_tgood_def)

lemma timely_eq: "\<forall>s. now s \<le> GRACE \<Longrightarrow> timely now = now"
  by (auto simp: fun_eq_iff)

subsection \<open>Framing headers\<close>

lemma from_str_radix_bound: "from_str_radix mx b s = Some n \<Longrightarrow> n \<le> mx"
  by (auto simp: from_str_radix_def parse_digits_def Let_def split: list.splits if_splits)

lemma plan_of_length: "plan_of hs limit = Ok (Length n) \<Longrightarrow> n \<le> limit"
  by (auto simp: plan_of_def content_length_plan_def Let_def split: if_splits option.splits)

text \<open>
  C7. A small body (\<open>/Discover\<close>, \<open>/Ask\<close>) that is accepted is framed by the request's headers, has no
  more bytes than the limit, is what its framing says it is, and leaves the connection exactly
  behind it, so the next request on the connection starts where this one ended; whatever pieces
  and failures the network delivers it in.
\<close>

theorem small_body_exact:
  assumes "wire_ok (bf_inner r)"
    and "read_small_body (wire_env now whole) r hs limit = Some (Ok body, r')"
  shows "\<exists>plan. plan_of hs limit = Ok plan \<and> deframe plan limit (unread r) = Some (body, unread r')
    \<and> length body \<le> limit"
proof -
  let ?env = "wire_env now whole"
  from assms(2) obtain plan where p: "plan_of hs limit = Ok plan"
    by (auto simp: read_small_body_def split: result.splits)
  let ?b = "body_new r plan limit (deadline_new (be_now ?env (bf_inner r)))"
  from assms(2) p obtain b where b: "read_to_end (body_read ?env) ?b [] = Some (Ok body, b)" "bd_r b = r'"
    by (auto simp: read_small_body_def split: option.splits result.splits)
  have len: "plan = Length n \<Longrightarrow> n \<le> limit" for n using plan_of_length p by blast
  have g: "wire.bf_tgood r" using assms(1) by (simp add: wire_tape_eq)
  note inv = wire.body_new_inv [of r plan limit "deadline_new (be_now ?env (bf_inner r))", OF g len]
  from wire.body_to_end [OF b(1)] inv have d: "deframe plan limit (unread r) = Some (body, unread r')"
    by (simp add: wire_tape_eq wire.bd_tape_def b(2))
  moreover have "length body \<le> limit"
    using d dechunk_bound len by (cases plan) (auto simp: deframe_def split: if_splits)
  ultimately show ?thesis using p by blast
qed

text \<open>
  C8. Every small body the framing allows is accepted: when the connection delivers its bytes without
  failing, interruptions and cuts apart, within the grace period, reading it returns exactly the
  body, and the rest of the stream stays unread.
\<close>

theorem small_body_delivered:
  assumes "wire_clean (bf_inner r)" "\<forall>s. now s \<le> GRACE"
    and "plan_of hs limit = Ok plan" "deframe plan limit (unread r) = Some (body, rest)"
  shows "\<exists>r'. read_small_body (wire_env now whole) r hs limit = Some (Ok body, r') \<and> unread r' = rest"
proof -
  let ?env = "wire_env (timely now) whole"
  let ?d = "deadline_new (be_now ?env (bf_inner r))"
  let ?b = "body_new r plan limit ?d"
  have len: "plan = Length n \<Longrightarrow> n \<le> limit" for n using plan_of_length assms(3) by blast
  have g: "live.bf_tgood r" using assms(1) by (simp add: live_tape_eq)
  note inv = live.body_new_inv [of r plan limit ?d, OF g len]
  have "bd_patience ?b = None" by (simp add: body_new_def)
  from live.body_to_end_returns [where now = now and whole = whole and acc = "[]", OF inv(1) this] inv(2) assms(4) obtain d where
    "read_to_end (body_read ?env) ?b [] = Some (Ok body, d)" "unread (bd_r d) = rest"
    by (auto simp: live_tape_eq live.bd_tape_def)
  then show ?thesis using assms(3) unfolding timely_eq [OF assms(2)]
    by (auto simp: read_small_body_def)
qed

text \<open>A chunked body of two bytes, cut and interrupted, with the next request behind it.\<close>

definition chunked_header :: headers where [eval_defs]:
  "chunked_header = [(lit ''transfer-encoding'', lit ''Chunked'')]"

definition two_byte_wire :: source where [eval_defs]:
  "two_byte_wire = [Data (blit ''2;x''), Fail (Plain Interrupted []), Data (CRLF @ blit ''h''),
     Data (blit ''i'' @ CRLF @ blit ''0'' @ CRLF), Data (CRLF @ blit ''POST'')]"

lemmas read_loops = read_to_end.simps read_line_loop.simps read_again.simps chunked.simps read_trailers.simps
  read_full_loop.simps

lemma two_byte_body:
  "read_small_body (wire_env (\<lambda>_. 0) (\<lambda>_. False)) (buf_new two_byte_wire) chunked_header 10
    = Some (Ok (blit ''hi''), \<lparr>bf_buf = blit ''POST'', bf_inner = []\<rparr>)"
  by (simp add: eval_defs read_loops read_full_def)

lemma two_byte_wire_good: "wire_clean two_byte_wire" "wire_ok two_byte_wire"
  by (simp_all add: two_byte_wire_def CRLF_def blit_def)

lemma two_byte_format:
  "plan_of chunked_header 10 = Ok Chunked"
  "deframe Chunked 10 (unread (buf_new two_byte_wire)) = Some (blit ''hi'', blit ''POST'')"
  by (simp add: eval_defs)
    (simp add: eval_defs deframe_def dechunk.simps skip_trailers.simps chunk_line_def)

theorem small_body_exact_witness:
  "deframe Chunked 10 (unread (buf_new two_byte_wire)) = Some (blit ''hi'', blit ''POST'')
    \<and> length (blit ''hi'') \<le> 10"
  using small_body_exact [OF _ two_byte_body] two_byte_wire_good(2) two_byte_format(1)
  by (simp add: unread_def)

theorem small_body_delivered_witness:
  "\<exists>r'. read_small_body (wire_env (\<lambda>_. 0) (\<lambda>_. False)) (buf_new two_byte_wire) chunked_header 10
    = Some (Ok (blit ''hi''), r') \<and> unread r' = blit ''POST''"
  by (rule small_body_delivered [OF _ _ two_byte_format]) (simp_all add: two_byte_wire_good)

end
