(* ===== verification/Head.thy ===== *)
theory Head
  imports Body
begin

text \<open>
  Request heads and responses (omdrop-proto/src/http.rs): reading one head under the limits of
  Python's \<open>http.server\<close>, keep-alive, status lines and the \<open>Date\<close> header. The parser of a complete
  head (httparse) is a parameter, given the number of header slots; \<open>None\<close> is any answer but
  \<open>Complete\<close>.
\<close>

record parsed_head =
  hp_method :: "ustr option"
  hp_path :: "ustr option"
  hp_version :: "nat option"
  hp_headers :: "(ustr \<times> bytes) list"

type_synonym head_parser = "nat \<Rightarrow> bytes \<Rightarrow> parsed_head option"

record request =
  rq_method :: ustr
  rq_path :: ustr
  rq_minor :: nat
  rq_line :: ustr
  rq_headers :: headers

definition keep_alive :: "request \<Rightarrow> bool" where [eval_defs]:
  "keep_alive req =
     (case map_option (map to_ascii_lower) (header_get (rq_headers req) (lit ''Connection'')) of
        None \<Rightarrow> rq_minor req \<ge> 1
      | Some v \<Rightarrow> if v = lit ''close'' then False else if v = lit ''keep-alive'' then True else rq_minor req \<ge> 1)"

datatype head_error =
    HeadClosed
  | HeadIo io_error
  | HeadBad nat msg ustr

definition latin1 :: "bytes \<Rightarrow> ustr" where [eval_defs]:
  "latin1 bs = map unat bs"

definition strip_newline :: "bytes \<Rightarrow> bytes" where [eval_defs]:
  "strip_newline bs = (if bs \<noteq> [] \<and> last bs = NEWLINE then butlast bs else bs)"

definition request_line_of :: "bytes \<Rightarrow> ustr" where [eval_defs]:
  "request_line_of first = trim_end_matches (\<lambda>c. c = 13) (latin1 (strip_newline first))"

partial_function (option) head_lines :: "'s reader \<Rightarrow> 's buf_reader \<Rightarrow> bytes \<Rightarrow> nat \<Rightarrow> ustr
    \<Rightarrow> ((bytes, head_error) result \<times> 's buf_reader) option" where
  "head_lines rd b head n request_line =
     (case read_line rd b (MAX_LINE_BYTES + 1) of
        None \<Rightarrow> None
      | Some (Err e, b') \<Rightarrow> Some (Err (HeadIo e), b')
      | Some (Ok line, b') \<Rightarrow>
          if length line > MAX_LINE_BYTES
          then Some (Err (HeadBad 431 [T ''Line too long''] request_line), b')
          else if line = [] \<or> line = CRLF \<or> line = [NEWLINE] then Some (Ok (head @ line), b')
          else if n + 1 > MAX_HEADERS
          then Some (Err (HeadBad 431 [T ''Too many headers''] request_line), b')
          else head_lines rd b' (head @ line) (n + 1) request_line)"

definition bad_syntax :: "ustr \<Rightarrow> head_error" where [eval_defs]:
  "bad_syntax request_line = HeadBad 400 [T ''Bad request syntax ('', Txt (py_repr request_line), T '')''] request_line"

definition SLASH :: uchar where [eval_defs]:
  "SLASH = 0x2f"

definition collapse_slashes :: "ustr \<Rightarrow> ustr" where [eval_defs]:
  "collapse_slashes target =
     (if starts_with target [SLASH, SLASH] then SLASH # dropWhile (\<lambda>c. c = SLASH) target else target)"

definition request_of_head :: "head_parser \<Rightarrow> bytes \<Rightarrow> ustr \<Rightarrow> (request, head_error) result" where [eval_defs]:
  "request_of_head parse head request_line =
     (if \<not> ends_with head [NEWLINE, NEWLINE] \<and> \<not> ends_with head (NEWLINE # CRLF) then Err HeadClosed
      else (case parse (MAX_HEADERS + 1) head of
              None \<Rightarrow> Err (bad_syntax request_line)
            | Some p \<Rightarrow>
                (case (hp_method p, hp_path p, hp_version p) of
                   (Some meth, Some target, Some minor) \<Rightarrow>
                     Ok \<lparr>rq_method = meth, rq_path = collapse_slashes target, rq_minor = minor, rq_line = request_line,
                         rq_headers = map (\<lambda>(k, v). (k, latin1 v)) (hp_headers p)\<rparr>
                 | _ \<Rightarrow> Err (bad_syntax request_line))))"

definition read_request :: "head_parser \<Rightarrow> 's reader \<Rightarrow> 's buf_reader
    \<Rightarrow> ((request, head_error) result \<times> 's buf_reader) option" where [eval_defs]:
  "read_request parse rd b =
     (case read_line rd b (MAX_LINE_BYTES + 1) of
        None \<Rightarrow> None
      | Some (Err e, b1) \<Rightarrow> Some (Err (HeadIo e), b1)
      | Some (Ok first, b1) \<Rightarrow>
          (let request_line = request_line_of first
           in if first = [] then Some (Err HeadClosed, b1)
              else if length first > MAX_LINE_BYTES
              then Some (Err (HeadBad 414 [T ''Request-URI Too Long''] []), b1)
              else if trim request_line = [] then Some (Err HeadClosed, b1)
              else (case head_lines rd b1 first 0 request_line of
                      None \<Rightarrow> None
                    | Some (Err e, b2) \<Rightarrow> Some (Err e, b2)
                    | Some (Ok head, b2) \<Rightarrow> Some (request_of_head parse head request_line, b2))))"

subsection \<open>Responses\<close>

definition reason :: "nat \<Rightarrow> string" where [eval_defs]:
  "reason status =
     (if status = 100 then ''Continue''
      else if status = 200 then ''OK''
      else if status = 400 then ''Bad Request''
      else if status = 401 then ''Unauthorized''
      else if status = 403 then ''Forbidden''
      else if status = 408 then ''Request Timeout''
      else if status = 413 then ''Content Too Large''
      else if status = 414 then ''URI Too Long''
      else if status = 415 then ''Unsupported Media Type''
      else if status = 422 then ''Unprocessable Content''
      else if status = 431 then ''Request Header Fields Too Large''
      else if status = 501 then ''Not Implemented''
      else if status = 503 then ''Service Unavailable''
      else if status = 505 then ''HTTP Version Not Supported''
      else if status = 507 then ''Insufficient Storage''
      else [])"

text \<open>Howard Hinnant's \<open>civil_from_days\<close>, as (year, month, day).\<close>

definition civil_from_days :: "int \<Rightarrow> int \<times> int \<times> int" where [eval_defs]:
  "civil_from_days days =
     (let z = days + 719468;
          era = z div 146097;
          doe = z - era * 146097;
          yoe = (doe - doe div 1460 + doe div 36524 - doe div 146096) div 365;
          doy = doe - (365 * yoe + yoe div 4 - yoe div 100);
          mp = (5 * doy + 2) div 153;
          day = doy - (153 * mp + 2) div 5 + 1;
          month = (if mp < 10 then mp + 3 else mp - 9);
          year = yoe + era * 400 + (if month \<le> 2 then 1 else 0)
      in (year, month, day))"

definition WEEKDAYS :: "string list" where [eval_defs]:
  "WEEKDAYS = [''Thu'', ''Fri'', ''Sat'', ''Sun'', ''Mon'', ''Tue'', ''Wed'']"

definition MONTHS :: "string list" where [eval_defs]:
  "MONTHS = [''Jan'', ''Feb'', ''Mar'', ''Apr'', ''May'', ''Jun'', ''Jul'', ''Aug'', ''Sep'', ''Oct'', ''Nov'', ''Dec'']"

definition get_or :: "'a list \<Rightarrow> nat \<Rightarrow> 'a \<Rightarrow> 'a" where [eval_defs]:
  "get_or xs i d = (if i < length xs then xs ! i else d)"

definition show_int :: "int \<Rightarrow> ustr" where [eval_defs]:
  "show_int i = (if i < 0 then lit ''-'' @ dec (nat (- i)) else dec (nat i))"

text \<open>The time is in seconds since the epoch; one before it counts as the epoch.\<close>

definition http_date :: "int \<Rightarrow> ustr" where [eval_defs]:
  "http_date t =
     (let secs = nat t; days = int (secs div 86400); rem = secs mod 86400
      in (case civil_from_days days of
            (year, month, day) \<Rightarrow>
              lit (get_or WEEKDAYS (nat (days mod 7)) ''Thu'') @ lit '', '' @ pad0 2 (show_int day) @ lit '' ''
              @ lit (get_or MONTHS (nat (month - 1)) ''Jan'') @ lit '' '' @ show_int year @ lit '' ''
              @ pad0 2 (dec (rem div 3600)) @ lit '':'' @ pad0 2 (dec (rem mod 3600 div 60)) @ lit '':''
              @ pad0 2 (dec (rem mod 60)) @ lit '' GMT''))"

definition response_bytes :: "int \<Rightarrow> nat \<Rightarrow> headers \<Rightarrow> bytes \<Rightarrow> bytes" where [eval_defs]:
  "response_bytes now status hs body =
     as_bytes (lit ''HTTP/1.1 '' @ dec status @ lit '' '' @ lit (reason status) @ [13, 10]
       @ (if status \<ge> 200 then lit ''Date: '' @ http_date now @ [13, 10] else [])
       @ concat (map (\<lambda>(k, v). k @ lit '': '' @ v @ [13, 10]) hs) @ [13, 10]) @ body"

definition write_response :: "int \<Rightarrow> 'w writer \<Rightarrow> ('w \<Rightarrow> (unit, io_error) result \<times> 'w) \<Rightarrow> 'w \<Rightarrow> nat \<Rightarrow> headers \<Rightarrow> bytes
    \<Rightarrow> (unit, io_error) result \<times> 'w" where [eval_defs]:
  "write_response now wr fl w status hs body =
     (case wr w (response_bytes now status hs body) of
        (Err e, w') \<Rightarrow> (Err e, w')
      | (Ok _, w') \<Rightarrow> fl w')"

subsection \<open>Reading a head\<close>

text \<open>A line of a stream: it has at most one line break, at its end, or, when it is whole, exactly that one.\<close>

definition one_line :: "bytes \<Rightarrow> bool" where
  "one_line l \<longleftrightarrow> l \<noteq> [] \<and> NEWLINE \<notin> set (butlast l)"

definition whole_line :: "bytes \<Rightarrow> bool" where
  "whole_line l \<longleftrightarrow> one_line l \<and> last l = NEWLINE"

definition blank_line :: "bytes \<Rightarrow> bool" where
  "blank_line l \<longleftrightarrow> l = [NEWLINE] \<or> l = CRLF"

lemma first_line_one:
  assumes "0 < mx" "bs \<noteq> []"
  shows "one_line (first_line mx bs)"
proof (cases "NEWLINE \<in> set (take mx bs)")
  case True
  then show ?thesis by (auto simp: first_line_def one_line_def through_newline_def dest: set_takeWhileD)
next
  case False
  then show ?thesis using assms by (auto simp: first_line_def one_line_def dest: in_set_butlastD)
qed

lemma first_line_cut_whole:
  assumes "length (first_line mx bs) < mx" "drop (length (first_line mx bs)) bs \<noteq> []"
  shows "last (first_line mx bs) = NEWLINE"
proof (cases "NEWLINE \<in> set (take mx bs)")
  case True
  then show ?thesis by (simp add: first_line_def through_newline_def)
next
  case False
  then show ?thesis using assms by (simp add: first_line_def)
qed

lemma one_line_end:
  assumes "one_line l" "\<not> blank_line l"
  shows "\<not> ends_with (pre @ l) [NEWLINE, NEWLINE]" "\<not> ends_with (pre @ l) (NEWLINE # CRLF)"
proof -
  obtain l' c where l: "l = l' @ [c]" "NEWLINE \<notin> set l'" using assms(1) by (cases l rule: rev_cases) (auto simp: one_line_def)
  show "\<not> ends_with (pre @ l) [NEWLINE, NEWLINE]"
    using l assms(2) by (cases l' rule: rev_cases) (auto simp: ends_with_def blank_line_def)
  show "\<not> ends_with (pre @ l) (NEWLINE # CRLF)"
  proof (cases l' rule: rev_cases)
    case Nil
    then show ?thesis using l assms(2) by (auto simp: ends_with_def blank_line_def CRLF_def NEWLINE_def)
  next
    case (snoc l'' d)
    then show ?thesis using l assms(2)
      by (cases l'' rule: rev_cases) (auto simp: ends_with_def blank_line_def CRLF_def NEWLINE_def)
  qed
qed

context tape_reader
begin

lemma head_lines_tape:
  assumes "head_lines rd b head n rl = Some (Ok h, b')" "bf_tgood b" "n \<le> MAX_HEADERS"
  shows "bf_tgood b' \<and> (\<exists>ls e. h = head @ concat ls @ e \<and> bf_tape b = concat ls @ e @ bf_tape b' \<and> n + length ls \<le> MAX_HEADERS
    \<and> (\<forall>l \<in> set ls. one_line l \<and> \<not> blank_line l \<and> length l \<le> MAX_LINE_BYTES \<and> (e = [] \<or> last l = NEWLINE)) \<and> (e = [] \<or> blank_line e))"
proof -
  define Q where "Q b (head :: bytes) n h b' \<longleftrightarrow> bf_tgood b' \<and> (\<exists>ls e. h = head @ concat ls @ e \<and> bf_tape b = concat ls @ e @ bf_tape b'
      \<and> n + length ls \<le> MAX_HEADERS
      \<and> (\<forall>l \<in> set ls. one_line l \<and> \<not> blank_line l \<and> length l \<le> MAX_LINE_BYTES \<and> (e = [] \<or> last l = NEWLINE)) \<and> (e = [] \<or> blank_line e))"
    for b head n h b'
  define P where "P rd' b head n (rl :: ustr) x \<longleftrightarrow> (\<forall>h. rd' = rd \<and> fst x = Ok h \<and> bf_tgood b \<and> n \<le> MAX_HEADERS \<longrightarrow> Q b head n h (snd x))"
    for rd' :: "'s reader" and b head n rl and x :: "(bytes, head_error) result \<times> 's buf_reader"
  have "P rd b head n rl (Ok h, b')"
  proof (rule head_lines.raw_induct [of P, OF _ assms(1)], goal_cases)
    case (1 f rd' b head n rl x)
    show ?case unfolding P_def
    proof (intro allI impI)
      fix h
      assume a: "rd' = rd \<and> fst x = Ok h \<and> bf_tgood b \<and> n \<le> MAX_HEADERS"
      with 1(2) obtain y b1 where y: "read_line rd b (MAX_LINE_BYTES + 1) = Some (y, b1)"
        by (cases "read_line rd b (MAX_LINE_BYTES + 1)") auto
      with 1(2) a obtain line where l: "y = Ok line" by (cases y) auto
      have t: "bf_tgood b1" "line = first_line (MAX_LINE_BYTES + 1) (bf_tape b)" "bf_tape b1 = drop (length line) (bf_tape b)"
        using read_line_tape [OF y] a l by auto
      have tp: "bf_tape b = line @ bf_tape b1" unfolding t(3) t(2) by (rule first_line_prefix [symmetric])
      have short: "length line \<le> MAX_LINE_BYTES" using 1(2) a y l by (auto split: if_splits)
      show "Q b head n h (snd x)"
      proof (cases "line = [] \<or> line = CRLF \<or> line = [NEWLINE]")
        case True
        with 1(2) a y l short have "x = (Ok (head @ line), b1)" by simp
        then show ?thesis using a t(1) tp True
          unfolding Q_def by (auto simp: blank_line_def intro!: exI [of _ "[]"] exI [of _ line])
      next
        case False
        with 1(2) a y l short have "f rd b1 (head @ line) (n + 1) rl = Some x" and n: "n + 1 \<le> MAX_HEADERS"
          by (auto split: if_splits)
        from 1(1) [OF this(1)] a t(1) n have "Q b1 (head @ line) (n + 1) h (snd x)" by (simp add: P_def)
        then obtain ls e where q: "bf_tgood (snd x)" "h = (head @ line) @ concat ls @ e" "bf_tape b1 = concat ls @ e @ bf_tape (snd x)"
          "n + 1 + length ls \<le> MAX_HEADERS" "e = [] \<or> blank_line e"
          "\<forall>l \<in> set ls. one_line l \<and> \<not> blank_line l \<and> length l \<le> MAX_LINE_BYTES \<and> (e = [] \<or> last l = NEWLINE)"
          unfolding Q_def by blast
        have "bf_tape b \<noteq> []" using tp False by auto
        then have "one_line line" unfolding t(2) by (intro first_line_one) simp_all
        moreover have "last line = NEWLINE" if "e \<noteq> []"
        proof -
          have "drop (length line) (bf_tape b) \<noteq> []" using q(3) t(3) that by simp
          then show ?thesis using first_line_cut_whole [of "MAX_LINE_BYTES + 1" "bf_tape b"] short unfolding t(2) by simp
        qed
        ultimately have "\<forall>l \<in> set (line # ls). one_line l \<and> \<not> blank_line l \<and> length l \<le> MAX_LINE_BYTES \<and> (e = [] \<or> last l = NEWLINE)"
          using q(6) False short by (auto simp: blank_line_def)
        then show ?thesis unfolding Q_def using q(1-5) tp by (intro conjI exI [of _ "line # ls"] exI [of _ e]) simp_all
      qed
    qed
  qed
  with assms(2,3) show ?thesis by (simp add: P_def Q_def)
qed

end

lemma collapse_slashes_single: "\<not> starts_with (collapse_slashes s) [SLASH, SLASH]"
proof (cases "starts_with s [SLASH, SLASH]")
  case True
  have "\<not> starts_with (SLASH # d) [SLASH, SLASH]" if "d = dropWhile (\<lambda>c. c = SLASH) s" for d
  proof (cases d)
    case (Cons c cs)
    then have "c \<noteq> SLASH" using dropWhile_hd [of "\<lambda>c. c = SLASH" s c cs] that by simp
    then show ?thesis by (simp add: Cons)
  qed simp
  with True show ?thesis by (simp add: collapse_slashes_def)
qed (simp add: collapse_slashes_def)

text \<open>
  C9. A request is read only from a complete, bounded head, and the connection is left exactly behind its first blank line,
  at the body: the connection's bytes begin with the request line, at most 100 header lines and a blank line, each a
  whole line (one line break, at its end), all but the last not blank and of at most 65536 bytes; what is left unread is what follows. The
  request is what the parser makes of exactly these bytes, and its path never starts with two slashes.
\<close>

theorem request_head_bounded:
  assumes "wire_ok (bf_inner r)" "read_request parse source_read r = Some (Ok req, r')"
  shows "\<exists>lines blank p target. unread r = concat lines @ blank @ unread r' \<and> lines \<noteq> [] \<and> length lines \<le> 101 \<and> blank_line blank \<and>
    list_all (\<lambda>l. whole_line l \<and> \<not> blank_line l \<and> length l \<le> 65536) lines \<and>
    parse 101 (concat lines @ blank) = Some p \<and> hp_method p = Some (rq_method req) \<and> hp_version p = Some (rq_minor req) \<and>
    hp_path p = Some target \<and> rq_path req = collapse_slashes target \<and> \<not> starts_with (rq_path req) [SLASH, SLASH] \<and>
    rq_headers req = map (\<lambda>(k, v). (k, latin1 v)) (hp_headers p)"
proof -
  have g: "wire.bf_tgood r" using assms(1) by (simp add: wire.bf_tgood_def)
  from assms(2) obtain first b1 where f: "read_line source_read r (MAX_LINE_BYTES + 1) = Some (Ok first, b1)"
    by (auto simp: read_request_def split: option.splits result.splits)
  note t = wire.read_line_tape [OF f g]
  have first: "first = first_line (MAX_LINE_BYTES + 1) (unread r)" "unread b1 = drop (length first) (unread r)"
    using t by (simp_all add: wire_tape_eq)
  have tp: "unread r = first @ unread b1" using first_line_prefix [of "MAX_LINE_BYTES + 1" "unread r"] first by simp
  have short: "length first \<le> MAX_LINE_BYTES" "first \<noteq> []" "trim (request_line_of first) \<noteq> []"
    using assms(2) f by (auto simp: read_request_def Let_def split: if_splits)
  have "trim (request_line_of [NEWLINE]) = []" "trim (request_line_of CRLF) = []" by (simp_all add: eval_defs)
  then have f1: "\<not> blank_line first" using short(3) by (auto simp: blank_line_def)
  have "unread r \<noteq> []" using tp short(2) by auto
  then have f2: "one_line first" unfolding first(1) by (intro first_line_one) simp_all
  from assms(2) f obtain head where h: "head_lines source_read b1 first 0 (request_line_of first) = Some (Ok head, r')"
    "request_of_head parse head (request_line_of first) = Ok req"
    by (auto simp: read_request_def Let_def split: if_splits option.splits result.splits)
  from wire.head_lines_tape [OF h(1)] t obtain ls e where
    ls: "head = first @ concat ls @ e" "unread b1 = concat ls @ e @ unread r'" "length ls \<le> MAX_HEADERS" "e = [] \<or> blank_line e"
      "\<forall>l \<in> set ls. one_line l \<and> \<not> blank_line l \<and> length l \<le> MAX_LINE_BYTES \<and> (e = [] \<or> last l = NEWLINE)"
    by (auto simp: wire_tape_eq)
  have all: "\<forall>l \<in> set (first # ls). one_line l \<and> \<not> blank_line l \<and> length l \<le> MAX_LINE_BYTES" using f1 f2 short ls(5) by auto
  have e: "e \<noteq> []"
  proof
    assume "e = []"
    then have "head = concat (butlast (first # ls)) @ last (first # ls)"
      unfolding ls(1) by (metis append_Nil2 append_butlast_last_id concat.simps concat_append list.distinct(1))
    moreover have "last (first # ls) \<in> set (first # ls)" by (rule last_in_set) simp
    ultimately have "\<not> ends_with head [NEWLINE, NEWLINE] \<and> \<not> ends_with head (NEWLINE # CRLF)"
      using all one_line_end by metis
    then show False using h(2) by (simp add: request_of_head_def)
  qed
  have "drop (length first) (unread r) \<noteq> []" unfolding first(2) [symmetric] ls(2) using e by simp
  then have "last first = NEWLINE"
    using first_line_cut_whole [of "MAX_LINE_BYTES + 1" "unread r"] short(1) unfolding first(1) [symmetric] by simp
  then have whole: "list_all (\<lambda>l. whole_line l \<and> \<not> blank_line l \<and> length l \<le> 65536) (first # ls)"
    using all ls(5) e by (auto simp: list_all_iff whole_line_def MAX_LINE_BYTES_def)
  have "unread r = concat (first # ls) @ e @ unread r'" "head = concat (first # ls) @ e" "blank_line e" "length (first # ls) \<le> 101"
    using tp ls e by (simp_all add: MAX_HEADERS_def)
  with h(2) collapse_slashes_single whole show ?thesis
    by (intro exI [of _ "first # ls"] exI [of _ e])
      (auto simp: request_of_head_def MAX_HEADERS_def split: if_splits option.splits)
qed

definition tiny_parser :: head_parser where [eval_defs]:
  "tiny_parser slots head =
     (if starts_with head (blit ''GET //x HTTP/1.1'')
      then Some \<lparr>hp_method = Some (lit ''GET''), hp_path = Some (lit ''//x''), hp_version = Some 1, hp_headers = []\<rparr>
      else None)"

definition get_wire :: source where [eval_defs]:
  "get_wire = [Data (blit ''GET //x HT''), Data (blit ''TP/1.1'' @ CRLF @ CRLF @ blit ''B'')]"

lemma get_request:
  "read_request tiny_parser source_read (buf_new get_wire)
    = Some (Ok \<lparr>rq_method = lit ''GET'', rq_path = lit ''/x'', rq_minor = 1, rq_line = lit ''GET //x HTTP/1.1'', rq_headers = []\<rparr>,
        \<lparr>bf_buf = blit ''B'', bf_inner = []\<rparr>)"
  by (simp add: eval_defs read_line_loop.simps head_lines.simps)

theorem request_head_bounded_witness:
  "\<exists>lines blank. unread (buf_new get_wire) = concat lines @ blank @ blit ''B'' \<and> lines \<noteq> [] \<and> blank_line blank
    \<and> list_all (\<lambda>l. whole_line l \<and> \<not> blank_line l) lines"
proof -
  have "wire_ok (bf_inner (buf_new get_wire))" by (simp add: get_wire_def blit_def)
  from request_head_bounded [OF this get_request] show ?thesis
    by (auto simp: unread_def list_all_iff)
qed

end
