(* ===== verification/Calendar.thy ===== *)
theory Calendar
  imports Head
begin

text \<open>
  The date of a response against the Gregorian calendar: \<open>civil_from_days\<close> computes with divisions
  what counting the days one by one from 1 January 1970 gives.
\<close>

type_synonym date = "int \<times> int \<times> int"

definition leap_year :: "int \<Rightarrow> bool" where [eval_defs]:
  "leap_year y \<longleftrightarrow> y mod 4 = 0 \<and> (y mod 100 \<noteq> 0 \<or> y mod 400 = 0)"

definition month_length :: "int \<Rightarrow> int \<Rightarrow> int" where [eval_defs]:
  "month_length y m = (if m = 2 then (if leap_year y then 29 else 28) else if m \<in> {4, 6, 9, 11} then 30 else 31)"

fun next_day :: "date \<Rightarrow> date" where
  "next_day (y, m, d) =
     (if d < month_length y m then (y, m, d + 1) else if m < 12 then (y, m + 1, 1) else (y + 1, 1, 1))"

fun calendar :: "nat \<Rightarrow> date" where
  "calendar 0 = (1970, 1, 1)"
| "calendar (Suc n) = next_day (calendar n)"

text \<open>Years start in March here: \<open>leap_march y\<close> when the February that ends year \<open>y\<close> has 29 days.\<close>

definition leap_march :: "int \<Rightarrow> bool" where [eval_defs]:
  "leap_march y \<longleftrightarrow> leap_year (y + 1)"

definition last_doy :: "int \<Rightarrow> int" where [eval_defs]:
  "last_doy y = (if leap_march y then 365 else 364)"

definition year_start :: "int \<Rightarrow> int" where [eval_defs]:
  "year_start y = 365 * y + y div 4 - y div 100"

definition flat :: "int \<Rightarrow> int" where [eval_defs]:
  "flat doe = doe - doe div 1460 + doe div 36524 - doe div 146096"

definition month_day :: "int \<Rightarrow> int \<times> int" where [eval_defs]:
  "month_day doy =
     (let mp = (5 * doy + 2) div 153 in (if mp < 10 then mp + 3 else mp - 9, doy - (153 * mp + 2) div 5 + 1))"

lemma div_diff_mono:
  assumes "(0::int) < k" "x \<le> y"
  shows "x - x div k \<le> y - y div k"
proof -
  have "y div k \<le> x div k + (y - x)"
  proof -
    have "(y - x) * 1 \<le> (y - x) * k" using assms by (intro mult_left_mono) auto
    then have "y \<le> x + (y - x) * k" by simp
    then have "y div k \<le> (x + (y - x) * k) div k" using assms(1) by (rule zdiv_mono1)
    then show ?thesis using assms(1) by simp
  qed
  then show ?thesis by simp
qed

lemma flat_mono: "x \<le> y \<Longrightarrow> flat x \<le> flat y"
proof -
  assume xy: "x \<le> y"
  have q: "z div 146096 = z div 36524 div 4" for z :: int by (simp add: zdiv_zmult2_eq [symmetric])
  have "x - x div 1460 \<le> y - y div 1460" using xy by (intro div_diff_mono) simp_all
  moreover have "x div 36524 - x div 36524 div 4 \<le> y div 36524 - y div 36524 div 4"
    using xy by (intro div_diff_mono zdiv_mono1) simp_all
  ultimately show ?thesis by (simp only: flat_def q)
qed

lemma year_ends:
  "\<forall>y \<in> set [0..399]. 365 * y \<le> flat (year_start y) \<and> flat (year_start y + last_doy y) \<le> 365 * y + 364"
  by code_simp

lemma yoe_ok:
  assumes "0 \<le> y" "y < 400" "0 \<le> doy" "doy \<le> last_doy y"
  shows "flat (year_start y + doy) div 365 = y"
proof -
  have y: "y \<in> set [0..399]" using assms by simp
  from year_ends y have e: "365 * y \<le> flat (year_start y)" "flat (year_start y + last_doy y) \<le> 365 * y + 364" by blast+
  have "flat (year_start y) \<le> flat (year_start y + doy)" "flat (year_start y + doy) \<le> flat (year_start y + last_doy y)"
    using assms by (auto intro: flat_mono)
  with e have "365 * y \<le> flat (year_start y + doy)" "flat (year_start y + doy) \<le> 365 * y + 364" by auto
  then show ?thesis by (intro int_div_pos_eq [of _ 365 y "flat (year_start y + doy) - 365 * y"]) simp_all
qed

definition march_days :: "int \<Rightarrow> int \<Rightarrow> int \<Rightarrow> int" where
  "march_days era y doy = era * 146097 + year_start y + doy - 719468"

definition march_date :: "int \<Rightarrow> int \<Rightarrow> int \<Rightarrow> date" where
  "march_date era y doy =
     (let (m, d) = month_day doy in (y + era * 400 + (if m \<le> 2 then 1 else 0), m, d))"

definition march_ok :: "int \<Rightarrow> int \<Rightarrow> bool" where
  "march_ok y doy \<longleftrightarrow> 0 \<le> y \<and> y < 400 \<and> 0 \<le> doy \<and> doy \<le> last_doy y"

lemma year_start_bound:
  assumes "march_ok y doy"
  shows "0 \<le> year_start y + doy" "year_start y + doy < 146097"
proof -
  have "\<forall>y \<in> set [0..399]. 0 \<le> year_start y \<and> year_start y + last_doy y < 146097" by code_simp
  moreover have "y \<in> set [0..399]" "0 \<le> doy" "doy \<le> last_doy y" using assms by (auto simp: march_ok_def)
  ultimately show "0 \<le> year_start y + doy" "year_start y + doy < 146097" by force+
qed

lemma civil_march:
  assumes "march_ok y doy"
  shows "civil_from_days (march_days era y doy) = march_date era y doy"
proof -
  let ?s = "year_start y + doy"
  note b = year_start_bound [OF assms]
  have era: "(era * 146097 + ?s) div 146097 = era" using b by (intro int_div_pos_eq [of _ _ era ?s]) auto
  have z: "march_days era y doy + 719468 = era * 146097 + ?s" by (simp add: march_days_def)
  have yoe: "flat ?s div 365 = y" using assms by (intro yoe_ok) (simp_all add: march_ok_def)
  have doy: "?s - (365 * y + y div 4 - y div 100) = doy" by (simp add: year_start_def)
  show ?thesis
    unfolding civil_from_days_def z era Let_def
    by (simp only: add_diff_cancel_left' yoe [unfolded flat_def] doy)
      (simp add: march_date_def month_day_def Let_def)
qed

text \<open>Within a year the months and days follow each other as in the calendar.\<close>

definition step_ok :: "int \<Rightarrow> bool" where [eval_defs]:
  "step_ok doy =
     (case (month_day doy, month_day (doy + 1)) of
        ((m, d), (m', d')) \<Rightarrow>
          1 \<le> m \<and> m \<le> 12 \<and>
          (if doy = 364 then (m, d, m', d') = (2, 28, 2, 29)
           else if doy = 365 then (m, d) = (2, 29)
           else if d < month_length 1 m then (m', d') = (m, d + 1)
           else m' = (if m < 12 then m + 1 else 1) \<and> d' = 1 \<and> m \<noteq> 2))"

lemma steps_ok: "\<forall>doy \<in> set [0..365]. step_ok doy"
  by code_simp

lemma leap_shift: "leap_year (y + era * 400 + 1) = leap_march y"
proof -
  have "(y + era * 400 + 1) mod 400 = (y + 1 + era * 400) mod 400"
    "(y + era * 400 + 1) mod 100 = (y + 1 + (era * 4) * 100) mod 100"
    "(y + era * 400 + 1) mod 4 = (y + 1 + (era * 100) * 4) mod 4" by (simp_all add: algebra_simps)
  then have "(y + era * 400 + 1) mod 400 = (y + 1) mod 400" "(y + era * 400 + 1) mod 100 = (y + 1) mod 100"
    "(y + era * 400 + 1) mod 4 = (y + 1) mod 4" by (simp_all only: mod_mult_self1)
  then show ?thesis by (simp add: leap_year_def leap_march_def)
qed

lemma month_length_other: "m \<noteq> 2 \<Longrightarrow> month_length y m = month_length y' m"
  by (simp add: month_length_def)

lemma next_in_year:
  assumes "march_ok y doy" "doy < last_doy y"
  shows "next_day (march_date era y doy) = march_date era y (doy + 1)"
proof -
  obtain m d m' d' where md: "month_day doy = (m, d)" "month_day (doy + 1) = (m', d')" by fastforce
  have "step_ok doy" using steps_ok assms by (auto simp: march_ok_def last_doy_def split: if_splits)
  note st0 = this [unfolded step_ok_def md prod.case]
  have n365: "doy \<noteq> 365" using assms(2) by (auto simp: last_doy_def split: if_splits)
  from st0 have st: "1 \<le> m" "m \<le> 12" "doy = 364 \<Longrightarrow> m = 2 \<and> d = 28 \<and> m' = 2 \<and> d' = 29"
    "doy \<noteq> 364 \<Longrightarrow> d < month_length 1 m \<Longrightarrow> m' = m \<and> d' = d + 1"
    "doy \<noteq> 364 \<Longrightarrow> \<not> d < month_length 1 m \<Longrightarrow> m' = (if m < 12 then m + 1 else 1) \<and> d' = 1 \<and> m \<noteq> 2"
    using n365 by (simp_all split: if_splits)
  show ?thesis
  proof (cases "doy = 364")
    case True
    with assms(2) have "leap_march y" by (auto simp: last_doy_def split: if_splits)
    with st(3) True md show ?thesis by (simp add: march_date_def month_length_def leap_shift)
  next
    case False
    show ?thesis
    proof (cases "d < month_length 1 m")
      case True
      then have "d < month_length Y m" for Y by (auto simp: month_length_def leap_year_def split: if_splits)
      with st(4) False True md show ?thesis by (simp add: march_date_def)
    next
      case no: False
      with st(5) False have m: "m' = (if m < 12 then m + 1 else 1)" "d' = 1" "m \<noteq> 2" by simp_all
      then have "\<not> d < month_length Y m" for Y using no month_length_other by metis
      with m md st(1,2) show ?thesis by (auto simp: march_date_def)
    qed
  qed
qed

lemma next_year:
  assumes "march_ok y doy" "doy = last_doy y"
  shows "next_day (march_date era y doy) = (if y < 399 then march_date era (y + 1) 0 else march_date (era + 1) 0 0)"
proof -
  have start: "month_day 0 = (3, 1)" by (simp add: month_day_def)
  have last: "month_day 364 = (2, 28)" "month_day 365 = (2, 29)" by (simp_all add: month_day_def)
  have y: "y < 399 \<or> y = 399" using assms(1) by (auto simp: march_ok_def)
  show ?thesis
  proof (cases "leap_march y")
    case True
    with y assms(2) start last show ?thesis
      by (auto simp: march_date_def last_doy_def month_length_def leap_shift)
  next
    case False
    with y assms(2) start last leap_shift [of y era] show ?thesis
      by (auto simp: march_date_def last_doy_def month_length_def)
  qed
qed

lemma year_lengths:
  "\<forall>y \<in> set [0..398]. year_start (y + 1) = year_start y + last_doy y + 1" "year_start 399 + last_doy 399 + 1 = 146097"
  by code_simp+

lemma march_succ:
  assumes "march_ok y doy"
  obtains era' y' doy' where "march_ok y' doy'" "march_days era' y' doy' = march_days era y doy + 1"
    "march_date era' y' doy' = next_day (march_date era y doy)"
proof -
  consider (day) "doy < last_doy y" | (year) "doy = last_doy y" "y < 399" | (era) "doy = last_doy y" "y = 399"
    using assms unfolding march_ok_def by linarith
  then show thesis
  proof cases
    case day
    show thesis
      by (rule that [of y "doy + 1" era])
        (use assms day next_in_year in \<open>auto simp: march_ok_def march_days_def\<close>)
  next
    case year
    have "year_start (y + 1) = year_start y + last_doy y + 1"
      using year_lengths(1) year assms by (auto simp: march_ok_def)
    then show thesis
      by (intro that [of "y + 1" 0 era])
        (use assms year next_year in \<open>auto simp: march_ok_def march_days_def last_doy_def\<close>)
  next
    case era
    have "march_days (era + 1) 0 0 = march_days era y doy + 1"
      using year_lengths(2) era by (simp add: march_days_def year_start_def)
    then show thesis
      by (intro that [of 0 0 "era + 1"])
        (use assms era next_year in \<open>auto simp: march_ok_def last_doy_def\<close>)
  qed
qed

lemma calendar_march: "\<exists>era y doy. march_ok y doy \<and> march_days era y doy = int n \<and> march_date era y doy = calendar n"
proof (induction n)
  case 0
  have "march_ok 369 306 \<and> march_days 4 369 306 = int 0 \<and> march_date 4 369 306 = calendar 0"
    by (simp add: march_ok_def last_doy_def march_days_def year_start_def march_date_def month_day_def)
  then show ?case by blast
next
  case (Suc n)
  then obtain era y doy where m: "march_ok y doy" "march_days era y doy = int n" "march_date era y doy = calendar n" by blast
  from m(1) obtain era' y' doy' where "march_ok y' doy'" "march_days era' y' doy' = march_days era y doy + 1"
    "march_date era' y' doy' = next_day (march_date era y doy)" by (rule march_succ)
  with m(2,3) show ?case by (intro exI [of _ era'] exI [of _ y'] exI [of _ doy']) simp
qed

text \<open>
  C10. The date the \<open>Date\<close> header computes with divisions is the date the Gregorian calendar reaches by
  counting days from 1 January 1970, leap years and centuries included, for every day from then on.
\<close>

theorem civil_from_days_calendar: "civil_from_days (int n) = calendar n"
  using calendar_march [of n] civil_march by metis

end
