(* ===== verification/SendHttp.thy ===== *)
theory SendHttp
  imports Body
begin

text \<open>
  The sender's HTTP/1.1 (omdrop-send/src/http.rs): the request head, the chunked writer, and reading
  one bounded response from a keep-alive connection. The TLS stream is a reader and a writer on one
  state; the parser of response heads (httparse) is a parameter. A failure is the error class and
  text Python's client reported, or an error of the stream.
\<close>

definition MAX_RESPONSE_BYTES :: nat where [eval_defs]:
  "MAX_RESPONSE_BYTES = 4 * 1024 * 1024"

definition MAX_HEAD_BYTES :: nat where [eval_defs]:
  "MAX_HEAD_BYTES = 64 * 1024"

definition CHUNK_BYTES :: nat where [eval_defs]:
  "CHUNK_BYTES = 64 * 1024"

definition FILL_BYTES :: nat where [eval_defs]:
  "FILL_BYTES = 16 * 1024"

datatype conn_error = Py string msg | Stream io_error

subsection \<open>The chunked writer\<close>

record 'w chunker =
  ck_inner :: 'w
  ck_buf :: bytes

definition ck_frame :: "bytes \<Rightarrow> bytes" where [eval_defs]:
  "ck_frame d = as_bytes (show_radix 16 (length d)) @ CRLF @ d @ CRLF"

definition ck_emit :: "'w writer \<Rightarrow> 'w chunker \<Rightarrow> (unit, io_error) result \<times> 'w chunker" where [eval_defs]:
  "ck_emit wr c =
     (if ck_buf c = [] then (Ok (), c)
      else (case wr (ck_inner c) (ck_frame (ck_buf c)) of
              (Err e, w) \<Rightarrow> (Err e, c\<lparr>ck_inner := w\<rparr>)
            | (Ok _, w) \<Rightarrow> (Ok (), c\<lparr>ck_inner := w, ck_buf := []\<rparr>)))"

definition ck_write :: "'w writer \<Rightarrow> 'w chunker \<Rightarrow> bytes \<Rightarrow> (nat, io_error) result \<times> 'w chunker" where [eval_defs]:
  "ck_write wr c data =
     (let n = min (CHUNK_BYTES - length (ck_buf c)) (length data);
          c1 = c\<lparr>ck_buf := ck_buf c @ take n data\<rparr>
      in if length (ck_buf c1) \<ge> CHUNK_BYTES
         then (case ck_emit wr c1 of (Err e, c2) \<Rightarrow> (Err e, c2) | (Ok _, c2) \<Rightarrow> (Ok n, c2))
         else (Ok n, c1))"

text \<open>\<open>Write::write_all\<close>; a write that takes nothing is an error.\<close>

function ck_write_all :: "'w writer \<Rightarrow> 'w chunker \<Rightarrow> bytes \<Rightarrow> (unit, io_error) result \<times> 'w chunker" where
  "ck_write_all wr c data =
     (if data = [] then (Ok (), c)
      else (case ck_write wr c data of
              (Err e, c') \<Rightarrow> (Err e, c')
            | (Ok n, c') \<Rightarrow>
                if n = 0 then (Err (Plain Other [T ''failed to write whole buffer'']), c')
                else ck_write_all wr c' (drop n data)))"
  by pat_completeness auto
termination
  by (relation "measure (\<lambda>(wr, c, data). length data)") auto

declare ck_write_all.simps [simp del]

definition LAST_CHUNK :: bytes where [eval_defs]:
  "LAST_CHUNK = blit ''0'' @ CRLF @ CRLF"

definition ck_finish :: "'w writer \<Rightarrow> 'w chunker \<Rightarrow> (unit, io_error) result \<times> 'w" where [eval_defs]:
  "ck_finish wr c =
     (case ck_emit wr c of
        (Err e, c') \<Rightarrow> (Err e, ck_inner c')
      | (Ok _, c') \<Rightarrow> wr (ck_inner c') LAST_CHUNK)"

subsection \<open>Requests\<close>

datatype 'p send_body = Bytes bytes | Produce 'p

definition post_head :: "ustr \<Rightarrow> ustr \<Rightarrow> (ustr \<times> ustr) list \<Rightarrow> 'p send_body \<Rightarrow> ustr" where [eval_defs]:
  "post_head path host hs body =
     lit ''POST '' @ path @ lit '' HTTP/1.1'' @ [13, 10] @ lit ''Host: '' @ host @ [13, 10]
     @ (case body of
          Bytes b \<Rightarrow> lit ''Content-Length: '' @ dec (length b) @ [13, 10]
        | Produce _ \<Rightarrow> lit ''Transfer-Encoding: chunked'' @ [13, 10])
     @ concat (map (\<lambda>(k, v). k @ lit '': '' @ v @ [13, 10]) hs) @ [13, 10]"

text \<open>The closure of a streamed body writes to the chunked writer; what it decides to write is its result.\<close>

definition send_request :: "'w writer \<Rightarrow> 'w \<Rightarrow> ustr \<Rightarrow> ustr \<Rightarrow> (ustr \<times> ustr) list
    \<Rightarrow> ('w chunker \<Rightarrow> (unit, io_error) result \<times> 'w chunker) send_body \<Rightarrow> (unit, io_error) result \<times> 'w" where [eval_defs]:
  "send_request wr w path host hs body =
     (let head = as_bytes (post_head path host hs body)
      in (case body of
            Bytes b \<Rightarrow> wr w (head @ b)
          | Produce p \<Rightarrow>
              (case wr w head of
                 (Err e, w1) \<Rightarrow> (Err e, w1)
               | (Ok _, w1) \<Rightarrow>
                   (case p \<lparr>ck_inner = w1, ck_buf = []\<rparr> of
                      (Err e, c) \<Rightarrow> (Err e, ck_inner c)
                    | (Ok _, c) \<Rightarrow> ck_finish wr c))))"

subsection \<open>Responses\<close>

record resp_head =
  rh_code :: "nat option"
  rh_reason :: "ustr option"
  rh_version :: "nat option"
  rh_headers :: "(ustr \<times> bytes) list"

datatype resp_parse = Complete nat resp_head | Partial | Malformed msg

type_synonym resp_parser = "nat \<Rightarrow> bytes \<Rightarrow> resp_parse"

record 's conn =
  cn_stream :: 's
  cn_rbuf :: bytes
  cn_closed :: bool

record response =
  rs_status :: nat
  rs_reason :: ustr
  rs_body :: bytes

datatype framing = FNone | FLength nat | FChunked | FUntilClose

type_synonym ('a, 's) conn_result = "(('a, conn_error) result \<times> 's conn) option"

definition cn_fill :: "'s reader \<Rightarrow> 's conn \<Rightarrow> ((nat, io_error) result \<times> 's conn) option" where [eval_defs]:
  "cn_fill rd c =
     (case rd (cn_stream c) FILL_BYTES of
        None \<Rightarrow> None
      | Some (Err e, s) \<Rightarrow> Some (Err e, c\<lparr>cn_stream := s\<rparr>)
      | Some (Ok bs, s) \<Rightarrow> Some (Ok (length bs), c\<lparr>cn_stream := s, cn_rbuf := cn_rbuf c @ bs\<rparr>))"

definition fill_or_eof :: "'s reader \<Rightarrow> 's conn \<Rightarrow> ((nat, io_error) result \<times> 's conn) option" where [eval_defs]:
  "fill_or_eof rd c =
     (case cn_fill rd c of
        None \<Rightarrow> None
      | Some (Err e, c') \<Rightarrow> if error_kind_of e = UnexpectedEof then Some (Ok 0, c') else Some (Err e, c')
      | Some (Ok n, c') \<Rightarrow> Some (Ok n, c'))"

abbreviation bad_status :: "msg \<Rightarrow> conn_error" where
  "bad_status why \<equiv> Py ''BadStatusLine'' why"

record head_fields =
  hf_length :: "nat option"
  hf_chunked :: bool
  hf_close :: bool

definition close_token :: "bool \<Rightarrow> ustr \<Rightarrow> bool \<Rightarrow> bool" where [eval_defs]:
  "close_token http10 token close =
     (if eq_ignore_ascii_case (trim token) (lit ''close'') then True
      else if eq_ignore_ascii_case (trim token) (lit ''keep-alive'') \<and> http10 then False
      else close)"

fun fold_headers :: "bool \<Rightarrow> (ustr \<times> bytes) list \<Rightarrow> head_fields \<Rightarrow> (head_fields, conn_error) result" where
  "fold_headers http10 [] hf = Ok hf"
| "fold_headers http10 ((name, raw) # hs) hf =
     (let value = from_utf8_lossy raw
      in if eq_ignore_ascii_case name (lit ''content-length'')
         then (case from_str_radix u64_max 10 (trim value) of
                 None \<Rightarrow> Err (bad_status [T ''invalid Content-Length''])
               | Some n \<Rightarrow> fold_headers http10 hs (hf\<lparr>hf_length := Some n\<rparr>))
         else if eq_ignore_ascii_case name (lit ''transfer-encoding'')
         then fold_headers http10 hs
                (hf\<lparr>hf_chunked := eq_ignore_ascii_case (trim (last (split_by (\<lambda>c. c = 0x2c) value))) (lit ''chunked'')\<rparr>)
         else if eq_ignore_ascii_case name (lit ''connection'')
         then fold_headers http10 hs
                (hf\<lparr>hf_close := fold (close_token http10) (split_by (\<lambda>c. c = 0x2c) value) (hf_close hf)\<rparr>)
         else fold_headers http10 hs hf)"

definition framing_of :: "nat \<Rightarrow> head_fields \<Rightarrow> (framing, conn_error) result" where [eval_defs]:
  "framing_of status hf =
     (if status = 204 \<or> status = 304 \<or> (100 \<le> status \<and> status < 200) then Ok FNone
      else if hf_chunked hf then Ok FChunked
      else (case hf_length hf of
              Some n \<Rightarrow>
                if n > MAX_RESPONSE_BYTES
                then Err (Py ''HTTPException'' [T ''response of '', Num n, T '' bytes is too large''])
                else Ok (FLength n)
            | None \<Rightarrow> Ok FUntilClose))"

record head_info =
  hi_status :: nat
  hi_reason :: ustr
  hi_length :: nat
  hi_framing :: framing
  hi_close :: bool

definition head_info_of :: "nat \<Rightarrow> resp_head \<Rightarrow> (head_info, conn_error) result" where [eval_defs]:
  "head_info_of n rh =
     (let status = (case rh_code rh of None \<Rightarrow> 0 | Some s \<Rightarrow> s);
          http10 = (rh_version rh = Some 0)
      in (case fold_headers http10 (rh_headers rh) \<lparr>hf_length = None, hf_chunked = False, hf_close = http10\<rparr> of
            Err e \<Rightarrow> Err e
          | Ok hf \<Rightarrow>
              (case framing_of status hf of
                 Err e \<Rightarrow> Err e
               | Ok fr \<Rightarrow> Ok \<lparr>hi_status = status, hi_reason = (case rh_reason rh of None \<Rightarrow> [] | Some r \<Rightarrow> r),
                              hi_length = n, hi_framing = fr, hi_close = hf_close hf\<rparr>)))"

partial_function (option) read_head :: "resp_parser \<Rightarrow> 's reader \<Rightarrow> 's conn \<Rightarrow> (head_info, 's) conn_result" where
  "read_head parse rd c =
     (case parse 64 (cn_rbuf c) of
        Complete n rh \<Rightarrow> Some (head_info_of n rh, c)
      | Malformed why \<Rightarrow> Some (Err (bad_status why), c)
      | Partial \<Rightarrow>
          if length (cn_rbuf c) > MAX_HEAD_BYTES
          then Some (Err (Py ''LineTooLong'' [T ''response head too long'']), c)
          else (case fill_or_eof rd c of
                  None \<Rightarrow> None
                | Some (Err e, c') \<Rightarrow> Some (Err (Stream e), c')
                | Some (Ok n, c') \<Rightarrow>
                    if n = 0
                    then Some (Err (if cn_rbuf c = []
                                    then Py ''RemoteDisconnected'' [T ''Remote end closed connection without response'']
                                    else Py ''IncompleteRead'' [T ''connection closed inside the response head'']),
                               c'\<lparr>cn_closed := True\<rparr>)
                    else read_head parse rd c'))"

partial_function (option) read_exact_body :: "'s reader \<Rightarrow> 's conn \<Rightarrow> nat \<Rightarrow> (bytes, 's) conn_result" where
  "read_exact_body rd c n =
     (if length (cn_rbuf c) < n then
        (case fill_or_eof rd c of
           None \<Rightarrow> None
         | Some (Err e, c') \<Rightarrow> Some (Err (Stream e), c')
         | Some (Ok k, c') \<Rightarrow>
             if k = 0
             then Some (Err (Py ''IncompleteRead'' [Num (length (cn_rbuf c')), T '' bytes read, '',
                               Num (n - length (cn_rbuf c')), T '' more expected'']),
                        c'\<lparr>cn_closed := True\<rparr>)
             else read_exact_body rd c' n)
      else Some (Ok (take n (cn_rbuf c)), c\<lparr>cn_rbuf := drop n (cn_rbuf c)\<rparr>))"

fun find_crlf :: "bytes \<Rightarrow> nat option" where
  "find_crlf (a # b # r) = (if a = 13 \<and> b = 10 then Some 0 else map_option Suc (find_crlf (b # r)))"
| "find_crlf _ = None"

partial_function (option) cn_read_line :: "'s reader \<Rightarrow> 's conn \<Rightarrow> (ustr, 's) conn_result" where
  "cn_read_line rd c =
     (case find_crlf (cn_rbuf c) of
        Some i \<Rightarrow> Some (Ok (from_utf8_lossy (take i (cn_rbuf c))), c\<lparr>cn_rbuf := drop (i + 2) (cn_rbuf c)\<rparr>)
      | None \<Rightarrow>
          if length (cn_rbuf c) > MAX_HEAD_BYTES
          then Some (Err (Py ''LineTooLong'' [T ''chunk line too long'']), c)
          else (case fill_or_eof rd c of
                  None \<Rightarrow> None
                | Some (Err e, c') \<Rightarrow> Some (Err (Stream e), c')
                | Some (Ok k, c') \<Rightarrow>
                    if k = 0
                    then Some (Err (Py ''IncompleteRead'' [T ''connection closed inside a chunked body'']),
                               c'\<lparr>cn_closed := True\<rparr>)
                    else cn_read_line rd c'))"

partial_function (option) resp_trailers :: "'s reader \<Rightarrow> 's conn \<Rightarrow> (unit, 's) conn_result" where
  "resp_trailers rd c =
     (case cn_read_line rd c of
        None \<Rightarrow> None
      | Some (Err e, c') \<Rightarrow> Some (Err e, c')
      | Some (Ok line, c') \<Rightarrow> if line = [] then Some (Ok (), c') else resp_trailers rd c')"

partial_function (option) read_chunked :: "'s reader \<Rightarrow> 's conn \<Rightarrow> bytes \<Rightarrow> (bytes, 's) conn_result" where
  "read_chunked rd c body =
     (case cn_read_line rd c of
        None \<Rightarrow> None
      | Some (Err e, c1) \<Rightarrow> Some (Err e, c1)
      | Some (Ok line, c1) \<Rightarrow>
          (case from_str_radix u64_max 16 (trim (hd (split_by (\<lambda>x. x = 0x3b) line))) of
             None \<Rightarrow> Some (Err (Py ''IncompleteRead'' [T ''invalid chunk size'']), c1)
           | Some k \<Rightarrow>
               if k = 0 then
                 (case resp_trailers rd c1 of
                    None \<Rightarrow> None
                  | Some (Err e, c2) \<Rightarrow> Some (Err e, c2)
                  | Some (Ok _, c2) \<Rightarrow> Some (Ok body, c2))
               else if min u64_max (length body + k) > MAX_RESPONSE_BYTES
               then Some (Err (Py ''HTTPException'' [T ''chunked response is too large'']), c1)
               else (case read_exact_body rd c1 k of
                       None \<Rightarrow> None
                     | Some (Err e, c2) \<Rightarrow> Some (Err e, c2)
                     | Some (Ok data, c2) \<Rightarrow>
                         (case cn_read_line rd c2 of
                            None \<Rightarrow> None
                          | Some (Err e, c3) \<Rightarrow> Some (Err e, c3)
                          | Some (Ok line2, c3) \<Rightarrow>
                              if line2 \<noteq> []
                              then Some (Err (Py ''IncompleteRead'' [T ''chunk not followed by CRLF'']), c3)
                              else read_chunked rd c3 (body @ data)))))"

partial_function (option) read_to_close :: "'s reader \<Rightarrow> 's conn \<Rightarrow> (bytes, 's) conn_result" where
  "read_to_close rd c =
     (case fill_or_eof rd c of
        None \<Rightarrow> None
      | Some (Err e, c') \<Rightarrow> Some (Err (Stream e), c')
      | Some (Ok n, c') \<Rightarrow>
          if n = 0 then Some (Ok (cn_rbuf c'), c'\<lparr>cn_rbuf := []\<rparr>)
          else if length (cn_rbuf c') > MAX_RESPONSE_BYTES
          then Some (Err (Py ''HTTPException'' [T ''response is too large'']), c')
          else read_to_close rd c')"

definition read_body :: "'s reader \<Rightarrow> 's conn \<Rightarrow> framing \<Rightarrow> (bytes, 's) conn_result" where [eval_defs]:
  "read_body rd c fr =
     (case fr of
        FNone \<Rightarrow> Some (Ok [], c)
      | FLength n \<Rightarrow> read_exact_body rd c n
      | FChunked \<Rightarrow> read_chunked rd c []
      | FUntilClose \<Rightarrow> read_to_close rd (c\<lparr>cn_closed := True\<rparr>))"

partial_function (option) read_response :: "resp_parser \<Rightarrow> 's reader \<Rightarrow> 's conn \<Rightarrow> (response, 's) conn_result" where
  "read_response parse rd c =
     (case read_head parse rd c of
        None \<Rightarrow> None
      | Some (Err e, c1) \<Rightarrow> Some (Err e, c1)
      | Some (Ok hi, c1) \<Rightarrow>
          (let c2 = c1\<lparr>cn_rbuf := drop (hi_length hi) (cn_rbuf c1)\<rparr>
           in if 100 \<le> hi_status hi \<and> hi_status hi < 200 then read_response parse rd c2
              else (case read_body rd c2 (hi_framing hi) of
                      None \<Rightarrow> None
                    | Some (Err e, c3) \<Rightarrow> Some (Err e, c3)
                    | Some (Ok body, c3) \<Rightarrow>
                        Some (Ok \<lparr>rs_status = hi_status hi, rs_reason = hi_reason hi, rs_body = body\<rparr>,
                              if hi_close hi then c3\<lparr>cn_closed := True\<rparr> else c3))))"

text \<open>One \<open>post\<close>: the request, then the answer, on the same stream.\<close>

definition conn_post :: "resp_parser \<Rightarrow> 's reader \<Rightarrow> 's writer \<Rightarrow> 's conn \<Rightarrow> ustr \<Rightarrow> ustr \<Rightarrow> (ustr \<times> ustr) list
    \<Rightarrow> ('s chunker \<Rightarrow> (unit, io_error) result \<times> 's chunker) send_body \<Rightarrow> (response, 's) conn_result" where [eval_defs]:
  "conn_post parse rd wr c path host hs body =
     (case send_request wr (cn_stream c) path host hs body of
        (Err e, s) \<Rightarrow> Some (Err (Stream e), c\<lparr>cn_stream := s\<rparr>)
      | (Ok _, s) \<Rightarrow> read_response parse rd (c\<lparr>cn_stream := s\<rparr>))"

subsection \<open>What the chunked writer sends is what the receiver reads\<close>

lemma hex_chars:
  assumes "c \<in> set (show_radix 16 n)"
  shows "is_digit_in 16 c" "c < 128" "48 \<le> c" "c \<noteq> 59"
proof -
  from assms obtain d where d: "d \<in> set (digits 16 n)" "c = digit_char d" by (auto simp: show_radix_def)
  then have "d < 16" using digits_less [of 16 d n] by simp
  then show "is_digit_in 16 c" "c < 128" "48 \<le> c" "c \<noteq> 59"
    using d(2) to_digit_digit_char [of 16 d] by (auto simp: is_digit_in_def digit_char_def)
qed

lemma as_bytes_ascii: "\<forall>c \<in> set s. c < 128 \<Longrightarrow> as_bytes s = map of_nat s"
  by (induction s) (auto simp: as_bytes_def utf8_char_def)

lemma from_utf8_as_bytes:
  "\<forall>c \<in> set s. is_scalar c \<Longrightarrow> from_utf8 (as_bytes s) = Some s"
  by (auto simp: from_utf8_def utf8_decode_as_bytes Let_def)

lemma unat_ascii: "c < 128 \<Longrightarrow> unat (of_nat c :: u8) = c"
  by (simp add: unat_of_nat)

lemma hex_bytes:
  "as_bytes (show_radix 16 n) = map of_nat (show_radix 16 n)"
  "b \<in> set (as_bytes (show_radix 16 n)) \<Longrightarrow> 48 \<le> unat b \<and> unat b < 128 \<and> b \<noteq> SEMICOLON \<and> is_hexdigit b"
proof -
  show eq: "as_bytes (show_radix 16 n) = map of_nat (show_radix 16 n)"
    by (rule as_bytes_ascii) (use hex_chars(2) in blast)
  assume "b \<in> set (as_bytes (show_radix 16 n))"
  then obtain c where c: "c \<in> set (show_radix 16 n)" "b = of_nat c" by (auto simp: eq)
  have u: "unat b = c" using hex_chars(2) [OF c(1)] c(2) unat_ascii by simp
  moreover have "b \<noteq> SEMICOLON" using u hex_chars(4) [OF c(1)] by (auto simp: SEMICOLON_def)
  ultimately show "48 \<le> unat b \<and> unat b < 128 \<and> b \<noteq> SEMICOLON \<and> is_hexdigit b"
    using hex_chars [OF c(1)] by (simp add: is_hexdigit_def)
qed

lemma trim_ascii_bytes_id:
  assumes "\<forall>b \<in> set bs. \<not> is_ascii_whitespace (unat b)"
  shows "trim_ascii_bytes (bs @ CRLF) = bs"
proof -
  have d: "dropWhile (\<lambda>b. is_ascii_whitespace (unat b)) (bs @ CRLF) = (if bs = [] then [] else bs @ CRLF)"
    using assms by (cases bs) (auto simp: CRLF_def is_ascii_whitespace_def)
  have r: "dropWhile (\<lambda>b. is_ascii_whitespace (unat b)) (rev CRLF @ rev bs) = rev bs"
    using assms by (cases "rev bs") (auto simp: CRLF_def is_ascii_whitespace_def set_rev [of bs, symmetric] simp del: set_rev)
  show ?thesis unfolding trim_ascii_bytes_def d trim_end_matches_def using r by auto
qed

lemma chunk_size_frame:
  assumes "n \<le> u64_max" "length (show_radix 16 n) \<le> 16"
  shows "chunk_size limit (as_bytes (show_radix 16 n) @ CRLF) = Ok n"
proof -
  let ?h = "as_bytes (show_radix 16 n)"
  have h: "\<forall>b \<in> set ?h. 48 \<le> unat b \<and> unat b < 128 \<and> b \<noteq> SEMICOLON \<and> is_hexdigit b" using hex_bytes(2) by blast
  have tw: "takeWhile (\<lambda>b. b \<noteq> SEMICOLON) (?h @ CRLF) = ?h @ CRLF"
    using h by (simp add: takeWhile_append2) (simp add: CRLF_def SEMICOLON_def)
  have tok: "chunk_token (?h @ CRLF) = ?h"
    unfolding chunk_token_def tw by (rule trim_ascii_bytes_id) (use h in \<open>auto simp: is_ascii_whitespace_def\<close>)
  have len: "length ?h \<le> 16" using assms(2) by (simp add: hex_bytes(1))
  have "show_radix 16 n \<noteq> []" by (simp add: show_radix_def)
  then have ne: "?h \<noteq> []" unfolding hex_bytes(1) by simp
  have "from_utf8 ?h = Some (show_radix 16 n)"
    by (rule from_utf8_as_bytes) (use hex_chars(2) in \<open>fastforce simp: is_scalar_def\<close>)
  moreover have "from_str_radix u64_max 16 (show_radix 16 n) = Some n"
    using assms(1) by (intro from_str_radix_show) simp_all
  ultimately show ?thesis using len ne h
    by (simp add: chunk_size_def tok MAX_CHUNK_LINE_BYTES_def list_all_iff) (simp add: CRLF_def NEWLINE_def)
qed

lemma chunk_line_frame:
  assumes "length (show_radix 16 n) \<le> 16"
  shows "chunk_line (as_bytes (show_radix 16 n) @ CRLF @ rest) = as_bytes (show_radix 16 n) @ CRLF"
proof -
  let ?h = "as_bytes (show_radix 16 n)"
  have "NEWLINE \<notin> set (?h @ [13])" using hex_bytes(2) [of NEWLINE n] by (auto simp: NEWLINE_def)
  moreover have "length (?h @ [13]) < MAX_CHUNK_LINE_BYTES + 1"
    using assms by (simp add: hex_bytes(1) MAX_CHUNK_LINE_BYTES_def)
  ultimately have "first_line (MAX_CHUNK_LINE_BYTES + 1) ((?h @ [13]) @ NEWLINE # rest) = (?h @ [13]) @ [NEWLINE]"
    by (rule first_line_whole)
  then show ?thesis by (simp add: chunk_line_def CRLF_def NEWLINE_def)
qed

definition chunk_ok :: "bytes \<Rightarrow> bool" where
  "chunk_ok d \<longleftrightarrow> d \<noteq> [] \<and> length d \<le> CHUNK_BYTES"

lemma dechunk_frame:
  assumes "chunk_ok d" "length d \<le> limit"
  shows "dechunk limit (ck_frame d @ rest) = prepend d (dechunk (limit - length d) rest)"
proof -
  let ?n = "length d" and ?r = "d @ CRLF @ rest"
  have n: "?n < 16 ^ 5" "?n \<le> u64_max" using assms(1) by (simp_all add: chunk_ok_def CHUNK_BYTES_def u64_max_def)
  have hl: "length (show_radix 16 ?n) \<le> 16" using length_show_radix [of 16 ?n 5] n(1) by simp
  let ?l = "as_bytes (show_radix 16 ?n) @ CRLF"
  have eq: "ck_frame d @ rest = ?l @ ?r" by (simp add: ck_frame_def)
  have line: "?l = chunk_line (?l @ ?r)" using chunk_line_frame [OF hl, of ?r] by simp
  have r: "?r = drop (length ?l) (?l @ ?r)" by simp
  have "chunk_size limit ?l = Ok ?n" using chunk_size_frame n(2) hl by blast
  moreover have "take 2 (drop ?n ?r) = CRLF" "drop (?n + 2) ?r = rest" by (simp_all add: CRLF_def)
  ultimately show ?thesis unfolding eq dechunk_line [OF line r] using assms by (simp add: chunk_ok_def)
qed

lemma dechunk_last: "dechunk limit (LAST_CHUNK @ rest) = Some ([], rest)"
proof -
  have s: "show_radix 16 0 = lit ''0''" by (simp add: show_radix_def digits.simps digit_char_def lit_def)
  let ?l = "as_bytes (show_radix 16 0) @ CRLF"
  have z: "as_bytes (show_radix 16 0) = blit ''0''" by (simp add: s lit_def blit_def as_bytes_def utf8_char_def)
  have eq: "LAST_CHUNK @ rest = ?l @ CRLF @ rest" by (simp add: LAST_CHUNK_def z)
  have line: "?l = chunk_line (?l @ CRLF @ rest)" using chunk_line_frame [of 0 "CRLF @ rest"] by (simp add: s lit_def)
  have "chunk_size limit ?l = Ok 0" by (rule chunk_size_frame) (simp_all add: s lit_def)
  moreover have "skip_trailers 0 (CRLF @ rest) = Some rest"
  proof -
    have "chunk_line (CRLF @ rest) = CRLF"
      using first_line_whole [of "[13]" "MAX_CHUNK_LINE_BYTES + 1" rest]
      by (simp add: chunk_line_def CRLF_def NEWLINE_def MAX_CHUNK_LINE_BYTES_def)
    then show ?thesis
      by (subst skip_trailers.simps) (simp add: Let_def MAX_CHUNK_LINE_BYTES_def MAX_TRAILER_BYTES_def CRLF_def)
  qed
  ultimately show ?thesis unfolding eq dechunk_line [OF line refl] by simp
qed

lemma dechunk_frames:
  assumes "\<forall>d \<in> set ds. chunk_ok d" "length (concat ds) \<le> limit"
  shows "dechunk limit (concat (map ck_frame ds) @ LAST_CHUNK @ rest) = Some (concat ds, rest)"
  using assms
proof (induction ds arbitrary: limit)
  case Nil
  then show ?case by (simp add: dechunk_last)
next
  case (Cons d ds)
  then have "dechunk (limit - length d) (concat (map ck_frame ds) @ LAST_CHUNK @ rest) = Some (concat ds, rest)" by simp
  with Cons.prems dechunk_frame [of d limit "concat (map ck_frame ds) @ LAST_CHUNK @ rest"] show ?case by simp
qed

text \<open>A body written in any number of calls, as the frames it becomes.\<close>

lemma ck_write_vec:
  assumes "length (ck_buf c) < CHUNK_BYTES" "data \<noteq> []"
  obtains n ds b where "ck_write vec_write c data = (Ok n, \<lparr>ck_inner = ck_inner c @ concat (map ck_frame ds), ck_buf = b\<rparr>)"
    "0 < n" "n \<le> length data" "concat ds @ b = ck_buf c @ take n data" "\<forall>d \<in> set ds. chunk_ok d" "length b < CHUNK_BYTES"
proof -
  define n where "n = min (CHUNK_BYTES - length (ck_buf c)) (length data)"
  have n: "0 < n" "n \<le> length data" using assms by (auto simp: n_def)
  have len: "length (ck_buf c @ take n data) \<le> CHUNK_BYTES" using n assms by (auto simp: n_def)
  show thesis
  proof (cases "length (ck_buf c @ take n data) \<ge> CHUNK_BYTES")
    case True
    then have "ck_buf c @ take n data \<noteq> []" by (auto simp: CHUNK_BYTES_def)
    with True have w: "ck_write vec_write c data = (Ok n, \<lparr>ck_inner = ck_inner c @ ck_frame (ck_buf c @ take n data), ck_buf = []\<rparr>)"
      by (auto simp: ck_write_def Let_def ck_emit_def vec_write_def n_def [symmetric])
    show thesis
      by (rule that [of n "[ck_buf c @ take n data]" "[]"])
        (use w n len True in \<open>auto simp: chunk_ok_def CHUNK_BYTES_def\<close>)
  next
    case False
    then have w: "ck_write vec_write c data = (Ok n, \<lparr>ck_inner = ck_inner c, ck_buf = ck_buf c @ take n data\<rparr>)"
      by (simp add: ck_write_def Let_def n_def [symmetric])
    show thesis by (rule that [of n "[]" "ck_buf c @ take n data"]) (use w n False in auto)
  qed
qed

lemma ck_write_all_vec:
  assumes "length (ck_buf c) < CHUNK_BYTES"
  shows "\<exists>ds b. ck_write_all vec_write c data = (Ok (), \<lparr>ck_inner = ck_inner c @ concat (map ck_frame ds), ck_buf = b\<rparr>)
    \<and> concat ds @ b = ck_buf c @ data \<and> (\<forall>d \<in> set ds. chunk_ok d) \<and> length b < CHUNK_BYTES"
  using assms
proof (induction "length data" arbitrary: c data rule: less_induct)
  case less
  show ?case
  proof (cases "data = []")
    case True
    with less show ?thesis
      by (subst ck_write_all.simps) (auto intro!: exI [of _ "[]"] exI [of _ "ck_buf c"])
  next
    case False
    from less(2) False obtain n ds b where w:
      "ck_write vec_write c data = (Ok n, \<lparr>ck_inner = ck_inner c @ concat (map ck_frame ds), ck_buf = b\<rparr>)"
      "0 < n" "n \<le> length data" "concat ds @ b = ck_buf c @ take n data" "\<forall>d \<in> set ds. chunk_ok d" "length b < CHUNK_BYTES"
      by (rule ck_write_vec)
    let ?c = "\<lparr>ck_inner = ck_inner c @ concat (map ck_frame ds), ck_buf = b\<rparr>"
    have "length (drop n data) < length data" using w False by simp
    with less(1) [of "drop n data" ?c] w(6) obtain ds2 b2 where ih:
      "ck_write_all vec_write ?c (drop n data) = (Ok (), \<lparr>ck_inner = ck_inner ?c @ concat (map ck_frame ds2), ck_buf = b2\<rparr>)"
      "concat ds2 @ b2 = b @ drop n data" "\<forall>d \<in> set ds2. chunk_ok d" "length b2 < CHUNK_BYTES" by auto
    have "concat (ds @ ds2) @ b2 = ck_buf c @ data"
      using ih(2) w(4) by (metis append.assoc append_take_drop_id concat_append)
    with ih w False show ?thesis
      by (subst ck_write_all.simps) (auto intro!: exI [of _ "ds @ ds2"] exI [of _ b2])
  qed
qed

fun ck_write_each :: "'w writer \<Rightarrow> 'w chunker \<Rightarrow> bytes list \<Rightarrow> (unit, io_error) result \<times> 'w chunker" where
  "ck_write_each wr c [] = (Ok (), c)"
| "ck_write_each wr c (d # ds) =
     (case ck_write_all wr c d of (Err e, c') \<Rightarrow> (Err e, c') | (Ok _, c') \<Rightarrow> ck_write_each wr c' ds)"

lemma ck_write_each_vec:
  assumes "length (ck_buf c) < CHUNK_BYTES"
  shows "\<exists>ds b. ck_write_each vec_write c datas = (Ok (), \<lparr>ck_inner = ck_inner c @ concat (map ck_frame ds), ck_buf = b\<rparr>)
    \<and> concat ds @ b = ck_buf c @ concat datas \<and> (\<forall>d \<in> set ds. chunk_ok d) \<and> length b < CHUNK_BYTES"
  using assms
proof (induction datas arbitrary: c)
  case Nil
  then show ?case by (auto intro!: exI [of _ "[]"] exI [of _ "ck_buf c"])
next
  case (Cons data datas)
  from ck_write_all_vec [OF Cons.prems, of data] obtain ds b where w:
    "ck_write_all vec_write c data = (Ok (), \<lparr>ck_inner = ck_inner c @ concat (map ck_frame ds), ck_buf = b\<rparr>)"
    "concat ds @ b = ck_buf c @ data" "\<forall>d \<in> set ds. chunk_ok d" "length b < CHUNK_BYTES" by blast
  from Cons.IH [of "\<lparr>ck_inner = ck_inner c @ concat (map ck_frame ds), ck_buf = b\<rparr>"] w(4) obtain ds2 b2 where ih:
    "ck_write_each vec_write \<lparr>ck_inner = ck_inner c @ concat (map ck_frame ds), ck_buf = b\<rparr> datas
      = (Ok (), \<lparr>ck_inner = (ck_inner c @ concat (map ck_frame ds)) @ concat (map ck_frame ds2), ck_buf = b2\<rparr>)"
    "concat ds2 @ b2 = b @ concat datas" "\<forall>d \<in> set ds2. chunk_ok d" "length b2 < CHUNK_BYTES" by auto
  have "concat (ds @ ds2) @ b2 = ck_buf c @ concat (data # datas)"
    using ih(2) w(2) by (metis append.assoc concat.simps(2) concat_append)
  with ih w show ?case by (auto intro!: exI [of _ "ds @ ds2"] exI [of _ b2])
qed

lemma ck_finish_vec:
  assumes "length (ck_buf c) < CHUNK_BYTES"
  shows "ck_finish vec_write c = (Ok (), ck_inner c @ concat (map ck_frame (if ck_buf c = [] then [] else [ck_buf c])) @ LAST_CHUNK)"
  using assms by (simp add: ck_finish_def ck_emit_def vec_write_def)

definition chunk_all :: "bytes \<Rightarrow> bytes list \<Rightarrow> (unit, io_error) result \<times> bytes" where [eval_defs]:
  "chunk_all w datas =
     (case ck_write_each vec_write \<lparr>ck_inner = w, ck_buf = []\<rparr> datas of
        (Err e, c) \<Rightarrow> (Err e, ck_inner c)
      | (Ok _, c) \<Rightarrow> ck_finish vec_write c)"

lemma chunk_all_frames:
  obtains ds where "chunk_all w datas = (Ok (), w @ concat (map ck_frame ds) @ LAST_CHUNK)"
    "concat ds = concat datas" "\<forall>d \<in> set ds. chunk_ok d"
proof -
  let ?c = "\<lparr>ck_inner = w, ck_buf = []\<rparr>"
  have "length (ck_buf ?c) < CHUNK_BYTES" by (simp add: CHUNK_BYTES_def)
  from ck_write_each_vec [OF this, of datas] obtain ds b where w:
    "ck_write_each vec_write ?c datas = (Ok (), \<lparr>ck_inner = w @ concat (map ck_frame ds), ck_buf = b\<rparr>)"
    "concat ds @ b = concat datas" "\<forall>d \<in> set ds. chunk_ok d" "length b < CHUNK_BYTES" by auto
  show thesis
    by (rule that [of "ds @ (if b = [] then [] else [b])"])
      (use w ck_finish_vec [of "\<lparr>ck_inner = w @ concat (map ck_frame ds), ck_buf = b\<rparr>"] in
        \<open>auto simp: chunk_all_def chunk_ok_def\<close>)
qed

text \<open>
  C11. A streamed upload comes back: whatever the sender writes to its chunked body, in any number of
  calls of any size, the receiver's body reader delivers the same bytes and stops exactly behind
  the closing chunk, whatever pieces and interruptions the network makes of it, as long as the
  body is within the limit and the grace period.
\<close>

theorem chunked_round_trip:
  assumes "chunk_all [] datas = (Ok (), sent)" "wire_clean es" "wire_bytes es = sent @ rest"
    and "length (concat datas) \<le> limit" "\<forall>s. now s \<le> GRACE"
  shows "\<exists>d. read_to_end (body_read (wire_env now whole)) (body_new (buf_new es) Chunked limit (deadline_new 0)) []
    = Some (Ok (concat datas), d) \<and> unread (bd_r d) = rest"
proof -
  let ?env = "wire_env (timely now) whole" and ?b = "body_new (buf_new es) Chunked limit (deadline_new 0)"
  obtain ds where ds: "chunk_all [] datas = (Ok (), concat (map ck_frame ds) @ LAST_CHUNK)"
    "concat ds = concat datas" "\<forall>d \<in> set ds. chunk_ok d" using chunk_all_frames [of "[]" datas] by auto
  with assms(1,3) have wb: "unread (buf_new es) = concat (map ck_frame ds) @ LAST_CHUNK @ rest"
    by (simp add: unread_def)
  have d: "deframe Chunked limit (unread (buf_new es)) = Some (concat datas, rest)"
    unfolding wb deframe_def using dechunk_frames [OF ds(3)] assms(4) ds(2) by simp
  have g: "live.bf_tgood (buf_new es)" using assms(2) by (simp add: live_tape_eq)
  have inv: "live.bd_inv ?b" "live.rest_of ?b = Some (concat datas, rest)"
    using live.body_new_inv [of "buf_new es" Chunked limit "deadline_new 0", OF g] d by (simp_all add: live_tape_eq)
  have "bd_patience ?b = None" by (simp add: body_new_def)
  from live.body_to_end_returns [where now = now and whole = whole and acc = "[]", OF inv(1) this inv(2)] show ?thesis
    unfolding timely_eq [OF assms(5)] by (auto simp: live_tape_eq live.bd_tape_def)
qed

theorem chunked_round_trip_witness:
  "\<exists>d. read_to_end (body_read (wire_env (\<lambda>_. 7) (\<lambda>_. True)))
      (body_new (buf_new [Data (blit ''3'' @ CRLF @ blit ''ab''), Fail (Plain Interrupted []), Data (blit ''c'' @ CRLF @ LAST_CHUNK @ blit ''x'')])
        Chunked 3 (deadline_new 0)) []
    = Some (Ok (blit ''abc''), d) \<and> unread (bd_r d) = blit ''x''"
proof -
  have "chunk_all [] [blit ''a'', blit ''bc''] = (Ok (), blit ''3'' @ CRLF @ blit ''abc'' @ CRLF @ LAST_CHUNK)"
    by (simp add: eval_defs ck_write_all.simps digits.simps)
  from chunked_round_trip [OF this, of _ "blit ''x''" 3 "\<lambda>_. 7" "\<lambda>_. True"] show ?thesis
    by (simp add: blit_def CRLF_def GRACE_def INITIAL_READ_SECONDS_def NANOS_def LAST_CHUNK_def)
qed

subsection \<open>Responses are bounded\<close>

lemma source_read_length: "source_read s n = Some (Ok bs, s') \<Longrightarrow> length bs \<le> n"
  by (cases "(s, n)" rule: source_read.cases) auto

lemma fill_bound:
  assumes "fill_or_eof source_read c = Some (Ok n, c')"
  shows "length (cn_rbuf c') \<le> length (cn_rbuf c) + FILL_BYTES" "n = 0 \<Longrightarrow> cn_rbuf c' = cn_rbuf c"
  using assms source_read_length [of "cn_stream c" FILL_BYTES]
  by (auto simp: fill_or_eof_def cn_fill_def split: option.splits result.splits if_splits)

lemma read_head_bound:
  assumes "read_head parse source_read c = Some (Ok hi, c')" "length (cn_rbuf c) \<le> MAX_RESPONSE_BYTES"
  shows "length (cn_rbuf c') \<le> MAX_RESPONSE_BYTES"
    "\<exists>n rh. head_info_of n rh = Ok hi"
proof -
  define P where "P (p :: resp_parser) rd c x \<longleftrightarrow> (\<forall>hi. rd = source_read \<and> fst x = Ok hi \<and> length (cn_rbuf c) \<le> MAX_RESPONSE_BYTES \<longrightarrow>
      length (cn_rbuf (snd x)) \<le> MAX_RESPONSE_BYTES \<and> (\<exists>n rh. head_info_of n rh = Ok hi))"
    for p rd and c :: "source conn" and x :: "(head_info, conn_error) result \<times> source conn"
  have fits: "MAX_HEAD_BYTES + FILL_BYTES \<le> MAX_RESPONSE_BYTES"
    by (simp add: MAX_HEAD_BYTES_def FILL_BYTES_def MAX_RESPONSE_BYTES_def)
  have "P parse source_read c (Ok hi, c')"
  proof (rule read_head.raw_induct [of P, OF _ assms(1)], goal_cases)
    case (1 f p rd c x)
    show ?case unfolding P_def
    proof (intro allI impI)
      fix hi
      assume a: "rd = source_read \<and> fst x = Ok hi \<and> length (cn_rbuf c) \<le> MAX_RESPONSE_BYTES"
      show "length (cn_rbuf (snd x)) \<le> MAX_RESPONSE_BYTES \<and> (\<exists>n rh. head_info_of n rh = Ok hi)"
      proof (cases "p 64 (cn_rbuf c)")
        case (Complete n rh)
        with 1(2) a show ?thesis by (auto intro!: exI [of _ n] exI [of _ rh])
      next
        case (Malformed m)
        with 1(2) a show ?thesis by auto
      next
        case Partial
        with 1(2) a obtain y c1 where y: "fill_or_eof source_read c = Some (y, c1)" and small: "length (cn_rbuf c) \<le> MAX_HEAD_BYTES"
          by (auto split: if_splits option.splits)
        from 1(2) a Partial y small obtain n where n: "y = Ok n" "n \<noteq> 0" "f p source_read c1 = Some x"
          by (cases y) (auto split: if_splits)
        have "length (cn_rbuf c1) \<le> MAX_RESPONSE_BYTES" using fill_bound(1) [of c n c1] y n small fits by simp
        with 1(1) [OF n(3)] a show ?thesis by (simp add: P_def)
      qed
    qed
  qed
  with assms(2) show "length (cn_rbuf c') \<le> MAX_RESPONSE_BYTES" "\<exists>n rh. head_info_of n rh = Ok hi"
    by (simp_all add: P_def)
qed

lemma read_exact_body_length:
  assumes "read_exact_body rd c n = Some (Ok body, c')"
  shows "length body = n"
proof -
  define P where "P rd' (c :: 'a conn) n x \<longleftrightarrow> (\<forall>b. fst x = Ok b \<longrightarrow> length b = n)"
    for rd' :: "'a reader" and c n and x :: "(bytes, conn_error) result \<times> 'a conn"
  have "P rd c n (Ok body, c')"
    by (rule read_exact_body.raw_induct [of P, OF _ assms])
      (fastforce simp: P_def split: if_splits option.splits result.splits)
  then show ?thesis by (simp add: P_def)
qed

lemma read_chunked_length:
  assumes "read_chunked rd c acc = Some (Ok body, c')" "length acc \<le> MAX_RESPONSE_BYTES"
  shows "length body \<le> MAX_RESPONSE_BYTES"
proof -
  define P where "P rd' (c :: 'a conn) acc x \<longleftrightarrow>
      (\<forall>b. fst x = Ok b \<and> length acc \<le> MAX_RESPONSE_BYTES \<longrightarrow> length b \<le> MAX_RESPONSE_BYTES)"
    for rd' :: "'a reader" and c and acc :: bytes and x :: "(bytes, conn_error) result \<times> 'a conn"
  have "P rd c acc (Ok body, c')"
  proof (rule read_chunked.raw_induct [of P, OF _ assms(1)], goal_cases)
    case (1 f rd c acc x)
    show ?case unfolding P_def
    proof (intro allI impI)
      fix b
      assume a: "fst x = Ok b \<and> length acc \<le> MAX_RESPONSE_BYTES"
      from 1(2) a obtain line c1 where l: "cn_read_line rd c = Some (Ok line, c1)"
        by (auto split: option.splits result.splits)
      from 1(2) a l obtain k where k: "from_str_radix u64_max 16 (trim (hd (split_by (\<lambda>x. x = 0x3b) line))) = Some k"
        by (auto split: option.splits)
      show "length b \<le> MAX_RESPONSE_BYTES"
      proof (cases "k = 0")
        case True
        with 1(2) a l k show ?thesis by (auto split: option.splits result.splits)
      next
        case False
        with 1(2) a l k have fits: "length acc + k \<le> MAX_RESPONSE_BYTES"
          by (auto simp: u64_max_def MAX_RESPONSE_BYTES_def min_def split: if_splits)
        then have nf: "\<not> min u64_max (length acc + k) > MAX_RESPONSE_BYTES" by simp
        from 1(2) a l k False nf obtain data c2 where d: "read_exact_body rd c1 k = Some (Ok data, c2)"
          by (auto split: option.splits result.splits)
        from 1(2) a l k False nf d obtain c3 where "cn_read_line rd c2 = Some (Ok [], c3)" "f rd c3 (acc @ data) = Some x"
          by (auto split: option.splits result.splits if_splits)
        with 1(1) [of rd c3 "acc @ data" x] a fits read_exact_body_length [OF d] show ?thesis by (simp add: P_def)
      qed
    qed
  qed
  with assms(2) show ?thesis by (simp add: P_def)
qed

lemma read_to_close_length:
  assumes "read_to_close source_read c = Some (Ok body, c')" "length (cn_rbuf c) \<le> MAX_RESPONSE_BYTES"
  shows "length body \<le> MAX_RESPONSE_BYTES"
proof -
  define P where "P rd c x \<longleftrightarrow> (\<forall>b. rd = source_read \<and> fst x = Ok b \<and> length (cn_rbuf c) \<le> MAX_RESPONSE_BYTES \<longrightarrow>
      length b \<le> MAX_RESPONSE_BYTES)"
    for rd and c :: "source conn" and x :: "(bytes, conn_error) result \<times> source conn"
  have "P source_read c (Ok body, c')"
  proof (rule read_to_close.raw_induct [of P, OF _ assms(1)], goal_cases)
    case (1 f rd c x)
    show ?case unfolding P_def
    proof (intro allI impI)
      fix b
      assume a: "rd = source_read \<and> fst x = Ok b \<and> length (cn_rbuf c) \<le> MAX_RESPONSE_BYTES"
      with 1(2) obtain n c1 where y: "fill_or_eof source_read c = Some (Ok n, c1)"
        by (auto split: option.splits result.splits)
      show "length b \<le> MAX_RESPONSE_BYTES"
      proof (cases "n = 0")
        case True
        with 1(2) a y fill_bound(2) [OF y] show ?thesis by auto
      next
        case False
        with 1(2) a y have "f source_read c1 = Some x" "length (cn_rbuf c1) \<le> MAX_RESPONSE_BYTES"
          by (auto split: if_splits)
        with 1(1) [of source_read c1 x] a show ?thesis by (simp add: P_def)
      qed
    qed
  qed
  with assms(2) show ?thesis by (simp add: P_def)
qed

lemma head_info_length: "head_info_of n rh = Ok hi \<Longrightarrow> hi_framing hi = FLength k \<Longrightarrow> k \<le> MAX_RESPONSE_BYTES"
  by (auto simp: head_info_of_def framing_of_def Let_def split: result.splits if_splits option.splits)

lemma read_body_length:
  assumes "read_body source_read c fr = Some (Ok body, c')" "length (cn_rbuf c) \<le> MAX_RESPONSE_BYTES"
    "\<And>k. fr = FLength k \<Longrightarrow> k \<le> MAX_RESPONSE_BYTES"
  shows "length body \<le> MAX_RESPONSE_BYTES"
proof (cases fr)
  case (FLength k)
  with assms read_exact_body_length [of source_read c k body c'] show ?thesis by (simp add: read_body_def)
next
  case FChunked
  with assms(1) read_chunked_length [of source_read c "[]" body c'] show ?thesis by (simp add: read_body_def)
next
  case FUntilClose
  with assms(1,2) read_to_close_length [of "c\<lparr>cn_closed := True\<rparr>" body c'] show ?thesis by (simp add: read_body_def)
qed (use assms in \<open>simp add: read_body_def\<close>)

text \<open>
  A response the sender accepts has at most 4 MiB of body, whatever its framing (a length, chunks,
  or running until the connection closes), whatever head the parser reports and however many
  interim answers precede it.
\<close>

lemma response_bounded:
  assumes "read_response parse source_read c = Some (Ok resp, c')" "length (cn_rbuf c) \<le> MAX_RESPONSE_BYTES"
  shows "length (rs_body resp) \<le> 4 * 1024 * 1024"
proof -
  define P where "P (p :: resp_parser) rd c x \<longleftrightarrow> (\<forall>r. rd = source_read \<and> fst x = Ok r \<and> length (cn_rbuf c) \<le> MAX_RESPONSE_BYTES \<longrightarrow>
      length (rs_body r) \<le> MAX_RESPONSE_BYTES)"
    for p rd and c :: "source conn" and x :: "(response, conn_error) result \<times> source conn"
  have "P parse source_read c (Ok resp, c')"
  proof (rule read_response.raw_induct [of P, OF _ assms(1)], goal_cases)
    case (1 f p rd c x)
    show ?case unfolding P_def
    proof (intro allI impI)
      fix r
      assume a: "rd = source_read \<and> fst x = Ok r \<and> length (cn_rbuf c) \<le> MAX_RESPONSE_BYTES"
      with 1(2) obtain hi c1 where h: "read_head p source_read c = Some (Ok hi, c1)"
        by (auto split: option.splits result.splits)
      let ?c2 = "c1\<lparr>cn_rbuf := drop (hi_length hi) (cn_rbuf c1)\<rparr>"
      from read_head_bound [OF h] a obtain n rh where b: "length (cn_rbuf ?c2) \<le> MAX_RESPONSE_BYTES" "head_info_of n rh = Ok hi"
        by auto
      show "length (rs_body r) \<le> MAX_RESPONSE_BYTES"
      proof (cases "100 \<le> hi_status hi \<and> hi_status hi < 200")
        case True
        with 1(2) a h have "f p source_read ?c2 = Some x" by (simp add: Let_def)
        from 1(1) [OF this] a b show ?thesis by (simp add: P_def)
      next
        case False
        with 1(2) a h obtain body c3 where bd: "read_body source_read ?c2 (hi_framing hi) = Some (Ok body, c3)"
          by (auto simp: Let_def split: option.splits result.splits)
        with 1(2) a h False have "r = \<lparr>rs_status = hi_status hi, rs_reason = hi_reason hi, rs_body = body\<rparr>"
          by (auto simp: Let_def)
        with read_body_length [OF bd b(1)] head_info_length [OF b(2)] show ?thesis by simp
      qed
    qed
  qed
  with assms(2) show ?thesis by (simp add: P_def MAX_RESPONSE_BYTES_def)
qed

definition ok_parser :: resp_parser where [eval_defs]:
  "ok_parser slots bs =
     (if starts_with bs (blit ''HTTP/1.1 200 OK'' @ CRLF @ CRLF)
      then Complete 19 \<lparr>rh_code = Some 200, rh_reason = Some (lit ''OK''), rh_version = Some 1,
             rh_headers = [(lit ''Transfer-Encoding'', blit ''chunked'')]\<rparr>
      else Partial)"

definition ok_conn :: "source conn" where [eval_defs]:
  "ok_conn = \<lparr>cn_stream = [Data (blit ''HTTP/1.1 200 OK'' @ CRLF), Data (CRLF @ blit ''2'' @ CRLF @ blit ''hi'' @ CRLF @ LAST_CHUNK)],
     cn_rbuf = [], cn_closed = False\<rparr>"

lemma ok_response:
  "\<exists>c'. read_response ok_parser source_read ok_conn = Some (Ok \<lparr>rs_status = 200, rs_reason = lit ''OK'', rs_body = blit ''hi''\<rparr>, c')"
  by (simp add: eval_defs read_response.simps read_head.simps read_chunked.simps cn_read_line.simps
      read_exact_body.simps resp_trailers.simps)

end
