(* ===== verification/Contacts.thy ===== *)
theory Contacts
  imports Text
begin

text \<open>
  Contacts Only (omdrop-proto/src/contacts.rs): is a sender someone this machine knows? The policy is
  modelled whole; what it rests on is a parameter: Apple's signature and certificate checks
  (\<open>apple_checks\<close>, the trait \<open>AppleChecks\<close>), SHA-256 in hex, and Unicode lowercasing. The
  configuration files are what reading them gave.
\<close>

datatype outcome = Accept | NoRecord | BadRecord | NoCertificate | Unbound | Unknown

definition outcome_str :: "outcome \<Rightarrow> string" where [eval_defs]:
  "outcome_str oc =
     (case oc of
        Accept \<Rightarrow> ''accept'' | NoRecord \<Rightarrow> ''no-record'' | BadRecord \<Rightarrow> ''bad-record''
      | NoCertificate \<Rightarrow> ''no-certificate'' | Unbound \<Rightarrow> ''record-not-bound-to-certificate''
      | Unknown \<Rightarrow> ''not-a-known-sender'')"

definition why :: "outcome \<Rightarrow> string" where [eval_defs]:
  "why oc =
     (case oc of
        Accept \<Rightarrow> ''sender is a known contact''
      | NoRecord \<Rightarrow> ''sender sent no Apple ID validation record''
      | BadRecord \<Rightarrow> ''the validation record is not signed by Apple, or has expired''
      | NoCertificate \<Rightarrow> ''sender presented no client certificate''
      | Unbound \<Rightarrow> ''the validation record does not belong to the presented certificate''
      | Unknown \<Rightarrow> ''sender is not in the known-senders list'')"

datatype detail = NoDetail | Expired bool | AppleIssued bool | KnownSenders nat | Identified bool

definition py_bool :: "bool \<Rightarrow> string" where [eval_defs]:
  "py_bool b = (if b then ''True'' else ''False'')"

abbreviation quoted_key :: "string \<Rightarrow> ustr" where
  "quoted_key k \<equiv> lit ''{'' @ [39] @ lit k @ [39] @ lit '': ''"

definition show_detail :: "detail \<Rightarrow> ustr" where [eval_defs]:
  "show_detail d =
     (case d of
        NoDetail \<Rightarrow> lit ''{}''
      | Expired b \<Rightarrow> quoted_key ''expired'' @ lit (py_bool b) @ lit ''}''
      | AppleIssued b \<Rightarrow> quoted_key ''apple_issued_certificate'' @ lit (py_bool b) @ lit ''}''
      | KnownSenders n \<Rightarrow> quoted_key ''known_senders'' @ dec n @ lit ''}''
      | Identified b \<Rightarrow> quoted_key ''identified'' @ lit (py_bool b) @ lit ''}'')"

record apple_record =
  ar_account :: ustr
  ar_hashes :: "ustr list"
  ar_expired :: bool

record apple_checks =
  ac_verify_record :: "bytes \<Rightarrow> apple_record option"
  ac_certificate_account :: "bytes \<Rightarrow> ustr"

definition normalize :: "(ustr \<Rightarrow> ustr) \<Rightarrow> ustr \<Rightarrow> ustr option" where [eval_defs]:
  "normalize lower raw =
     (let entry = trim raw
      in if entry = [] \<or> hd entry = 0x23 then None
         else if 0x40 \<in> set entry then Some (lower entry)
         else (let ds = filter is_ascii_digit entry in if ds = [] then None else Some ds))"

text \<open>\<open>str::lines\<close>: cut at newlines, a carriage return before one dropped, no last empty line.\<close>

definition strip_cr :: "ustr \<Rightarrow> ustr" where [eval_defs]:
  "strip_cr l = (if l \<noteq> [] \<and> last l = 13 then butlast l else l)"

definition lines :: "ustr \<Rightarrow> ustr list" where [eval_defs]:
  "lines s =
     (let ls = split_by (\<lambda>c. c = 10) s
      in map strip_cr (butlast ls) @ (if last ls = [] then [] else [last ls]))"

definition known_hashes :: "(ustr \<Rightarrow> ustr) \<Rightarrow> (bytes \<Rightarrow> ustr) \<Rightarrow> bytes option \<Rightarrow> ustr set" where [eval_defs]:
  "known_hashes lower hash_hex file_bytes =
     (case file_bytes of
        None \<Rightarrow> {}
      | Some bs \<Rightarrow> set (map (\<lambda>e. hash_hex (as_bytes e)) (List.map_filter (normalize lower) (lines (from_utf8_lossy bs)))))"

datatype visibility = Everyone | ContactsOnly

definition visibility_str :: "visibility \<Rightarrow> string" where [eval_defs]:
  "visibility_str v = (case v of Everyone \<Rightarrow> ''everyone'' | ContactsOnly \<Rightarrow> ''contacts'')"

definition visibility_of :: "(ustr \<Rightarrow> ustr) \<Rightarrow> bytes option \<Rightarrow> visibility" where [eval_defs]:
  "visibility_of lower file_bytes =
     (case Option.bind file_bytes from_utf8 of
        Some text \<Rightarrow> if lower (trim text) = lit ''contacts'' then ContactsOnly else Everyone
      | None \<Rightarrow> Everyone)"

definition nonempty :: "bytes option \<Rightarrow> bytes option" where [eval_defs]:
  "nonempty b = (case b of Some bs \<Rightarrow> if bs = [] then None else Some bs | None \<Rightarrow> None)"

definition decide :: "bytes option \<Rightarrow> bytes option \<Rightarrow> ustr set \<Rightarrow> apple_checks \<Rightarrow> outcome \<times> detail" where [eval_defs]:
  "decide rec cert known apple =
     (case nonempty rec of
        None \<Rightarrow> (NoRecord, NoDetail)
      | Some r \<Rightarrow>
          (case ac_verify_record apple r of
             None \<Rightarrow> (BadRecord, Expired False)
           | Some info \<Rightarrow>
               if ar_expired info then (BadRecord, Expired True)
               else (case nonempty cert of
                       None \<Rightarrow> (NoCertificate, NoDetail)
                     | Some c \<Rightarrow>
                         (let account = ac_certificate_account apple c
                          in if account = [] \<or> account \<noteq> ar_account info then (Unbound, AppleIssued (account \<noteq> []))
                             else if known = {} then (Unknown, KnownSenders 0)
                             else if \<exists>h \<in> set (ar_hashes info). h \<in> known then (Accept, KnownSenders (card known))
                             else (Unknown, KnownSenders (card known))))))"

definition decide_discovery :: "bytes option \<Rightarrow> ustr set \<Rightarrow> apple_checks \<Rightarrow> outcome \<times> detail" where [eval_defs]:
  "decide_discovery rec known apple =
     (case nonempty rec of
        None \<Rightarrow> (Accept, Identified False)
      | Some r \<Rightarrow>
          (case ac_verify_record apple r of
             Some info \<Rightarrow>
               if ar_expired info then (Accept, Identified False)
               else if known \<noteq> {} \<and> (\<exists>h \<in> set (ar_hashes info). h \<in> known) then (Accept, Identified True)
               else (Unknown, KnownSenders (card known))
           | None \<Rightarrow> (Accept, Identified False)))"

subsection \<open>What the policy accepts\<close>

lemma nonempty_Some [simp]: "nonempty b = Some bs \<longleftrightarrow> b = Some bs \<and> bs \<noteq> []"
  by (auto simp: nonempty_def split: option.splits)

text \<open>
  C14. A transfer is accepted exactly when all three checks hold: the sender sent a record Apple
  signed that has not expired, it presented a certificate that chains to Apple and names the
  record's account, and one of the record's identifiers is of a known sender.
\<close>

theorem decide_accept_iff:
  "fst (decide rec cert known apple) = Accept \<longleftrightarrow>
    (\<exists>r info c h. rec = Some r \<and> r \<noteq> [] \<and> ac_verify_record apple r = Some info \<and> \<not> ar_expired info \<and>
      cert = Some c \<and> c \<noteq> [] \<and> ac_certificate_account apple c \<noteq> [] \<and>
      ac_certificate_account apple c = ar_account info \<and> h \<in> set (ar_hashes info) \<and> h \<in> known)"
proof
  assume a: "fst (decide rec cert known apple) = Accept"
  from a obtain r where r: "nonempty rec = Some r" by (auto simp: decide_def split: option.splits)
  from a r obtain info where info: "ac_verify_record apple r = Some info" "\<not> ar_expired info"
    by (auto simp: decide_def split: option.splits if_splits)
  from a r info obtain c where c: "nonempty cert = Some c" by (auto simp: decide_def split: option.splits if_splits)
  from a r info c have "ac_certificate_account apple c \<noteq> []" "ac_certificate_account apple c = ar_account info"
    "\<exists>h \<in> set (ar_hashes info). h \<in> known"
    by (auto simp: decide_def Let_def split: if_splits)
  with r info c show "\<exists>r info c h. rec = Some r \<and> r \<noteq> [] \<and> ac_verify_record apple r = Some info \<and> \<not> ar_expired info \<and>
      cert = Some c \<and> c \<noteq> [] \<and> ac_certificate_account apple c \<noteq> [] \<and>
      ac_certificate_account apple c = ar_account info \<and> h \<in> set (ar_hashes info) \<and> h \<in> known" by auto
next
  assume "\<exists>r info c h. rec = Some r \<and> r \<noteq> [] \<and> ac_verify_record apple r = Some info \<and> \<not> ar_expired info \<and>
      cert = Some c \<and> c \<noteq> [] \<and> ac_certificate_account apple c \<noteq> [] \<and>
      ac_certificate_account apple c = ar_account info \<and> h \<in> set (ar_hashes info) \<and> h \<in> known"
  then obtain r info c h where x: "nonempty rec = Some r" "ac_verify_record apple r = Some info" "\<not> ar_expired info"
    "nonempty cert = Some c" "ac_certificate_account apple c \<noteq> []" "ac_certificate_account apple c = ar_account info"
    "h \<in> set (ar_hashes info)" "h \<in> known" by auto
  then have "known \<noteq> {}" by blast
  with x show "fst (decide rec cert known apple) = Accept" unfolding decide_def by (auto simp: Let_def nonempty_def)
qed

text \<open>
  Discovery never hides this machine from a sender it would accept a transfer from: it is
  weaker than the transfer policy, and it hides only from a sender whose valid record names nobody
  known.
\<close>

lemma discovery_weaker:
  "(fst (decide rec cert known apple) = Accept \<longrightarrow> fst (decide_discovery rec known apple) = Accept) \<and>
   (fst (decide_discovery rec known apple) \<noteq> Accept \<longleftrightarrow>
     (\<exists>r info. rec = Some r \<and> r \<noteq> [] \<and> ac_verify_record apple r = Some info \<and> \<not> ar_expired info \<and>
       set (ar_hashes info) \<inter> known = {}))"
proof -
  have hid: "fst (decide_discovery rec known apple) \<noteq> Accept \<longleftrightarrow>
     (\<exists>r info. rec = Some r \<and> r \<noteq> [] \<and> ac_verify_record apple r = Some info \<and> \<not> ar_expired info \<and>
       set (ar_hashes info) \<inter> known = {})"
    by (cases "nonempty rec") (auto simp: decide_discovery_def nonempty_def split: option.splits if_splits)
  moreover have "fst (decide_discovery rec known apple) = Accept" if "fst (decide rec cert known apple) = Accept"
  proof (rule ccontr)
    assume "fst (decide_discovery rec known apple) \<noteq> Accept"
    with hid that show False
      by (auto simp: decide_def Let_def nonempty_def split: option.splits if_splits)
  qed
  ultimately show ?thesis by blast
qed

definition fake_apple :: apple_checks where [eval_defs]:
  "fake_apple = \<lparr>ac_verify_record = (\<lambda>r. if r = [1] then Some \<lparr>ar_account = lit ''me'', ar_hashes = [lit ''aa''], ar_expired = False\<rparr> else None),
     ac_certificate_account = (\<lambda>c. if c = [2] then lit ''me'' else [])\<rparr>"

text \<open>The identifiers a user lists are compared by their normal form: digits alone for a number.\<close>

lemma normalize_number:
  assumes "0x40 \<notin> set raw" "normalize lower raw = Some n"
  shows "list_all is_ascii_digit n \<and> n \<noteq> [] \<and> normalize lower n = Some n"
proof -
  from assms have n: "n = filter is_ascii_digit (trim raw)" "n \<noteq> []"
    using set_trim [of "0x40" raw] by (auto simp: normalize_def Let_def split: if_splits)
  have dig: "\<forall>c \<in> set n. is_ascii_digit c" using n(1) by simp
  then have ws: "\<forall>c \<in> set n. \<not> is_whitespace c \<and> c \<noteq> 0x40 \<and> c \<noteq> 0x23"
    by (auto simp: is_ascii_digit_def is_whitespace_def)
  then have d1: "dropWhile is_whitespace n = n" using n(2) by (cases n) auto
  have d2: "dropWhile is_whitespace (rev n) = rev n" using ws n(2) by (cases "rev n") (auto simp: set_rev [of n, symmetric] simp del: set_rev)
  have "trim n = n" by (simp add: trim_def d1 trim_end_matches_def d2)
  then show ?thesis using dig ws n(2) by (auto simp: normalize_def Let_def list_all_iff filter_id_conv)
qed

end
