(* ===== verification/Plist.thy ===== *)
theory Plist
  imports Io
begin

text \<open>
  Property lists from untrusted peers (omdrop-proto/src/safeplist.rs): building a value from the
  event stream of the \<open>plist\<close> crate under limits on the number of events, the nesting and the decoded
  bytes. The crate's reader is a parameter, from bytes to its events, each of which may be an
  error. A real number is the bits of its \<open>f64\<close>, a date nanoseconds from the Unix epoch. A
  dictionary is its entries in insertion order, and inserting a key it has replaces the value in
  place, as the crate's \<open>Dictionary\<close> does.
\<close>

definition MAX_EVENTS :: nat where [eval_defs]:
  "MAX_EVENTS = 200000"

definition MAX_DEPTH :: nat where [eval_defs]:
  "MAX_DEPTH = 32"

definition VALUE_OVERHEAD :: nat where [eval_defs]:
  "VALUE_OVERHEAD = 16"

definition MIN_BYTE_BUDGET :: nat where [eval_defs]:
  "MIN_BYTE_BUDGET = 4 * 1024 * 1024"

definition byte_budget :: "nat \<Rightarrow> nat" where [eval_defs]:
  "byte_budget input_len = max (min u64_max (input_len * 4)) MIN_BYTE_BUDGET"

datatype plist_error = PlistInvalid msg | TooComplex

datatype pvalue =
    PArray "pvalue list"
  | PDict "(ustr \<times> pvalue) list"
  | PBool bool
  | PData bytes
  | PDate int
  | PInt int
  | PReal nat
  | PString ustr
  | PUid nat

datatype event =
    StartArray
  | StartDictionary
  | EndCollection
  | EBoolean bool
  | EData bytes
  | EDate int
  | EInteger int
  | EReal nat
  | EString ustr
  | EUid nat
  | EOther

datatype frame =
    FArray "pvalue list"
  | FDict "(ustr \<times> pvalue) list" "ustr option"

fun dict_insert :: "ustr \<Rightarrow> pvalue \<Rightarrow> (ustr \<times> pvalue) list \<Rightarrow> (ustr \<times> pvalue) list" where
  "dict_insert k v [] = [(k, v)]"
| "dict_insert k v ((k', v') # d) = (if k' = k then (k', v) # d else (k', v') # dict_insert k v d)"

definition DATE_MIN_BEFORE_EPOCH :: int where [eval_defs]:
  "DATE_MIN_BEFORE_EPOCH = 62135596800 * 1000000000"

definition DATE_END_AFTER_EPOCH :: int where [eval_defs]:
  "DATE_END_AFTER_EPOCH = 253402300800 * 1000000000"

definition in_range :: "int \<Rightarrow> (int, plist_error) result" where [eval_defs]:
  "in_range d =
     (if (if 0 \<le> d then d < DATE_END_AFTER_EPOCH else - d \<le> DATE_MIN_BEFORE_EPOCH) then Ok d
      else Err (PlistInvalid [T ''date outside years 0001-9999'']))"

definition event_cost :: "event \<Rightarrow> nat" where [eval_defs]:
  "event_cost e = (case e of EData d \<Rightarrow> length d | EString s \<Rightarrow> str_len s | _ \<Rightarrow> VALUE_OVERHEAD)"

text \<open>The value an event completes, given the stack it may close a collection of.\<close>

definition event_value :: "event \<Rightarrow> frame list \<Rightarrow> (pvalue \<times> frame list, plist_error) result" where [eval_defs]:
  "event_value e stack =
     (case e of
        EndCollection \<Rightarrow>
          (case stack of
             FArray items # st \<Rightarrow> Ok (PArray items, st)
           | FDict d None # st \<Rightarrow> Ok (PDict d, st)
           | _ \<Rightarrow> Err (PlistInvalid [T ''unbalanced collection'']))
      | EBoolean b \<Rightarrow> Ok (PBool b, stack)
      | EData d \<Rightarrow> Ok (PData d, stack)
      | EDate d \<Rightarrow> (case in_range d of Ok d \<Rightarrow> Ok (PDate d, stack) | Err x \<Rightarrow> Err x)
      | EInteger i \<Rightarrow> Ok (PInt i, stack)
      | EReal r \<Rightarrow> Ok (PReal r, stack)
      | EString s \<Rightarrow> Ok (PString s, stack)
      | EUid u \<Rightarrow> Ok (PUid u, stack)
      | _ \<Rightarrow> Err (PlistInvalid [T ''unknown plist event'']))"

definition put_value :: "pvalue \<Rightarrow> frame list \<Rightarrow> pvalue option \<Rightarrow> (frame list \<times> pvalue option, plist_error) result" where [eval_defs]:
  "put_value v stack root =
     (case stack of
        [] \<Rightarrow> if root = None then Ok ([], Some v) else Err (PlistInvalid [T ''more than one root value''])
      | FArray items # st \<Rightarrow> Ok (FArray (items @ [v]) # st, root)
      | FDict d None # st \<Rightarrow>
          (case v of
             PString k \<Rightarrow> Ok (FDict d (Some k) # st, root)
           | _ \<Rightarrow> Err (PlistInvalid [T ''dictionary key is not a string'']))
      | FDict d (Some k) # st \<Rightarrow> Ok (FDict (dict_insert k v d) None # st, root))"

fun parse_events :: "nat \<Rightarrow> nat \<Rightarrow> nat \<Rightarrow> frame list \<Rightarrow> pvalue option \<Rightarrow> (event, msg) result list
    \<Rightarrow> (pvalue, plist_error) result" where
  "parse_events budget count decoded stack root [] =
     (case root of
        Some v \<Rightarrow> if stack = [] then Ok v else Err (PlistInvalid [T ''truncated property list''])
      | None \<Rightarrow> Err (PlistInvalid [T ''truncated property list'']))"
| "parse_events budget count decoded stack root (ev # evs) =
     (if count \<ge> MAX_EVENTS then Err TooComplex
      else (case ev of
              Err m \<Rightarrow> Err (PlistInvalid m)
            | Ok e \<Rightarrow>
                (let decoded' = min u64_max (decoded + event_cost e)
                 in if decoded' > budget then Err TooComplex
                    else if e = StartArray \<or> e = StartDictionary
                    then (if length stack \<ge> MAX_DEPTH then Err TooComplex
                          else parse_events budget (count + 1) decoded'
                                 ((if e = StartArray then FArray [] else FDict [] None) # stack) root evs)
                    else (case event_value e stack of
                            Err x \<Rightarrow> Err x
                          | Ok (v, st) \<Rightarrow>
                              (case put_value v st root of
                                 Err x \<Rightarrow> Err x
                               | Ok (st', root') \<Rightarrow> parse_events budget (count + 1) decoded' st' root' evs)))))"

type_synonym plist_reader = "bytes \<Rightarrow> (event, msg) result list"

definition parse_plist :: "plist_reader \<Rightarrow> bytes \<Rightarrow> (pvalue, plist_error) result" where [eval_defs]:
  "parse_plist reader data = parse_events (byte_budget (length data)) 0 0 [] None (reader data)"

definition parse_dict :: "plist_reader \<Rightarrow> bytes \<Rightarrow> (ustr \<times> pvalue) list option" where [eval_defs]:
  "parse_dict reader data = (case parse_plist reader data of Ok (PDict d) \<Rightarrow> Some d | _ \<Rightarrow> None)"

definition dict_get :: "(ustr \<times> pvalue) list \<Rightarrow> ustr \<Rightarrow> pvalue option" where [eval_defs]:
  "dict_get d k = map_of d k"

lemma dict_get_insert: "dict_get (dict_insert k v d) k' = (if k' = k then Some v else dict_get d k')"
  by (induction d) (auto simp: dict_get_def)

subsection \<open>Limits\<close>

fun value_weight :: "pvalue \<Rightarrow> nat" where
  "value_weight (PArray vs) = 2 * VALUE_OVERHEAD + sum_list (map value_weight vs)"
| "value_weight (PDict d) = 2 * VALUE_OVERHEAD + sum_list (map (\<lambda>(k, v). str_len k + value_weight v) d)"
| "value_weight (PData d) = length d"
| "value_weight (PString s) = str_len s"
| "value_weight _ = VALUE_OVERHEAD"

fun value_count :: "pvalue \<Rightarrow> nat" where
  "value_count (PArray vs) = 1 + sum_list (map value_count vs)"
| "value_count (PDict d) = 1 + sum_list (map (\<lambda>(k, v). value_count v) d)"
| "value_count _ = 1"

fun value_depth :: "pvalue \<Rightarrow> nat" where
  "value_depth (PArray vs) = 1 + Max (insert 0 (set (map value_depth vs)))"
| "value_depth (PDict d) = 1 + Max (insert 0 (set (map (\<lambda>(k, v). value_depth v) d)))"
| "value_depth _ = 0"

definition entry_weight :: "ustr \<times> pvalue \<Rightarrow> nat" where
  "entry_weight e = str_len (fst e) + value_weight (snd e)"

fun frame_weight :: "frame \<Rightarrow> nat" where
  "frame_weight (FArray vs) = VALUE_OVERHEAD + sum_list (map value_weight vs)"
| "frame_weight (FDict d k) = VALUE_OVERHEAD + sum_list (map entry_weight d) + (case k of None \<Rightarrow> 0 | Some s \<Rightarrow> str_len s)"

fun frame_count :: "frame \<Rightarrow> nat" where
  "frame_count (FArray vs) = 1 + sum_list (map value_count vs)"
| "frame_count (FDict d k) = 1 + sum_list (map (value_count \<circ> snd) d)"

fun frame_values :: "frame \<Rightarrow> pvalue set" where
  "frame_values (FArray vs) = set vs"
| "frame_values (FDict d k) = snd ` set d"

fun stack_depth_ok :: "frame list \<Rightarrow> bool" where
  "stack_depth_ok [] = True"
| "stack_depth_ok (f # st) \<longleftrightarrow> (\<forall>v \<in> frame_values f. value_depth v + length (f # st) \<le> MAX_DEPTH) \<and> stack_depth_ok st"

lemma entry_weight_sum: "sum_list (map (\<lambda>(k, v). str_len k + value_weight v) d) = sum_list (map entry_weight d)"
  by (induction d) (auto simp: entry_weight_def)

lemma value_count_sum: "sum_list (map (\<lambda>(k, v). value_count v) d) = sum_list (map (value_count \<circ> snd) d)"
  by (simp add: split_def o_def)

lemma dict_insert_weight:
  "sum_list (map entry_weight (dict_insert k v d)) \<le> sum_list (map entry_weight d) + str_len k + value_weight v"
  by (induction d) (auto simp: entry_weight_def)

lemma dict_insert_count:
  "sum_list (map (value_count \<circ> snd) (dict_insert k v d)) \<le> sum_list (map (value_count \<circ> snd) d) + value_count v"
  by (induction d) auto

lemma dict_insert_values: "x \<in> set (dict_insert k v d) \<Longrightarrow> snd x = v \<or> x \<in> set d"
  by (induction d) (auto split: if_splits)

lemma value_count_pos: "0 < value_count v"
  by (cases v) auto

definition held :: "(pvalue \<Rightarrow> nat) \<Rightarrow> (frame \<Rightarrow> nat) \<Rightarrow> frame list \<Rightarrow> pvalue option \<Rightarrow> nat" where
  "held vf ff stack root = sum_list (map ff stack) + (case root of None \<Rightarrow> 0 | Some v \<Rightarrow> vf v)"

definition parse_inv :: "nat \<Rightarrow> nat \<Rightarrow> frame list \<Rightarrow> pvalue option \<Rightarrow> bool" where
  "parse_inv count decoded stack root \<longleftrightarrow>
     held value_weight frame_weight stack root \<le> decoded \<and> held value_count frame_count stack root \<le> count \<and>
     length stack \<le> MAX_DEPTH \<and> stack_depth_ok stack \<and> (\<forall>v. root = Some v \<longrightarrow> value_depth v \<le> MAX_DEPTH)"

text \<open>A completed value carries what its event costs and what its collection held.\<close>

lemma event_value_held:
  assumes "event_value e stack = Ok (v, st)" "stack_depth_ok stack" "length stack \<le> MAX_DEPTH"
  shows "sum_list (map frame_weight st) + value_weight v = sum_list (map frame_weight stack) + event_cost e"
    "sum_list (map frame_count st) + value_count v \<le> sum_list (map frame_count stack) + 1"
    "stack_depth_ok st" "length st \<le> MAX_DEPTH" "value_depth v + length st \<le> MAX_DEPTH"
proof -
  have "sum_list (map frame_weight st) + value_weight v = sum_list (map frame_weight stack) + event_cost e \<and>
    sum_list (map frame_count st) + value_count v \<le> sum_list (map frame_count stack) + 1 \<and>
    stack_depth_ok st \<and> length st \<le> MAX_DEPTH \<and> value_depth v + length st \<le> MAX_DEPTH"
  proof (cases "e = EndCollection")
    case False
    with assms show ?thesis
      by (cases e) (auto simp: event_value_def event_cost_def split: result.splits)
  next
    case True
    with assms(1) obtain f where st: "stack = f # st" and f: "(\<exists>vs. f = FArray vs \<and> v = PArray vs) \<or> (\<exists>d. f = FDict d None \<and> v = PDict d)"
      by (auto simp: event_value_def split: list.splits frame.splits option.splits)
    have "value_depth v \<le> 1 + Max (insert 0 (value_depth ` frame_values f))"
      using f by (auto simp: image_image split_def)
    moreover have "Max (insert 0 (value_depth ` frame_values f)) + length stack \<le> MAX_DEPTH"
    proof -
      have "finite (frame_values f)" by (cases f) auto
      then have "Max (insert 0 (value_depth ` frame_values f)) \<in> insert 0 (value_depth ` frame_values f)"
        by (intro Max_in) auto
      then show ?thesis using assms(2,3) st by auto
    qed
    ultimately have "value_depth v + length st \<le> MAX_DEPTH" using st by simp
    moreover have "value_weight v = frame_weight f + VALUE_OVERHEAD" "value_count v = frame_count f"
      using f by (auto simp: entry_weight_sum value_count_sum)
    ultimately show ?thesis using assms st True by (simp add: event_cost_def)
  qed
  then show "sum_list (map frame_weight st) + value_weight v = sum_list (map frame_weight stack) + event_cost e"
    "sum_list (map frame_count st) + value_count v \<le> sum_list (map frame_count stack) + 1"
    "stack_depth_ok st" "length st \<le> MAX_DEPTH" "value_depth v + length st \<le> MAX_DEPTH" by auto
qed

lemma put_value_held:
  assumes "put_value v st root = Ok (st', root')" "stack_depth_ok st" "value_depth v + length st \<le> MAX_DEPTH"
    "\<forall>v. root = Some v \<longrightarrow> value_depth v \<le> MAX_DEPTH"
  shows "held value_weight frame_weight st' root' \<le> held value_weight frame_weight st root + value_weight v"
    "held value_count frame_count st' root' \<le> held value_count frame_count st root + value_count v"
    "stack_depth_ok st'" "length st' = length st" "\<forall>v. root' = Some v \<longrightarrow> value_depth v \<le> MAX_DEPTH"
proof -
  note s = dict_insert_weight dict_insert_count dict_insert_values
  have "held value_weight frame_weight st' root' \<le> held value_weight frame_weight st root + value_weight v \<and>
    held value_count frame_count st' root' \<le> held value_count frame_count st root + value_count v \<and>
    stack_depth_ok st' \<and> length st' = length st \<and> (\<forall>v. root' = Some v \<longrightarrow> value_depth v \<le> MAX_DEPTH)"
  proof (cases st)
    case Nil
    with assms show ?thesis by (auto simp: put_value_def held_def split: if_splits)
  next
    case (Cons f r)
    show ?thesis
    proof (cases f)
      case (FArray vs)
      with Cons assms show ?thesis by (auto simp: put_value_def held_def)
    next
      case (FDict d k)
      show ?thesis
      proof (cases k)
        case None
        with FDict Cons assms show ?thesis by (cases v) (auto simp: put_value_def held_def)
      next
        case (Some key)
        with FDict Cons assms(1) have eq: "st' = FDict (dict_insert key v d) None # r" "root' = root"
          by (auto simp: put_value_def)
        have "\<forall>x \<in> frame_values (FDict (dict_insert key v d) None). value_depth x + length st \<le> MAX_DEPTH"
          using s(3) [of _ key v d] assms(2,3) Cons FDict by fastforce
        with eq Some FDict Cons assms s(1) [of key v d] s(2) [of key v d] show ?thesis
          by (auto simp: held_def)
      qed
    qed
  qed
  then show "held value_weight frame_weight st' root' \<le> held value_weight frame_weight st root + value_weight v"
    "held value_count frame_count st' root' \<le> held value_count frame_count st root + value_count v"
    "stack_depth_ok st'" "length st' = length st" "\<forall>v. root' = Some v \<longrightarrow> value_depth v \<le> MAX_DEPTH" by auto
qed

lemma parse_events_bounded:
  assumes "parse_events budget count decoded stack root evs = Ok v" "parse_inv count decoded stack root"
    "decoded \<le> budget" "budget < u64_max" "count \<le> MAX_EVENTS"
  shows "value_weight v \<le> budget \<and> value_count v \<le> MAX_EVENTS \<and> value_depth v \<le> MAX_DEPTH"
  using assms(1-3,5)
proof (induction evs arbitrary: count decoded stack root)
  case Nil
  then show ?case by (auto simp: parse_inv_def held_def split: option.splits if_splits)
next
  case (Cons ev evs)
  define d' where "d' e = min u64_max (decoded + event_cost e)" for e
  from Cons.prems(1) have c: "count < MAX_EVENTS" by (auto split: if_splits)
  from Cons.prems(1) obtain e where e: "ev = Ok e" by (auto split: if_splits result.splits)
  have fits: "d' e \<le> budget" using Cons.prems(1) c e by (auto simp: d'_def Let_def split: if_splits)
  then have eq: "d' e = decoded + event_cost e" using assms(4) by (simp add: d'_def min_def split: if_splits)
  show ?case
  proof (cases "e = StartArray \<or> e = StartDictionary")
    case True
    let ?f = "if e = StartArray then FArray [] else FDict [] None"
    have run: "parse_events budget (count + 1) (d' e) (?f # stack) root evs = Ok v" "length stack < MAX_DEPTH"
      using Cons.prems(1) c e fits True by (auto simp: Let_def d'_def split: if_splits)
    have "parse_inv (count + 1) (d' e) (?f # stack) root"
      using Cons.prems(2) run(2) True by (auto simp: parse_inv_def held_def eq event_cost_def)
    from Cons.IH [OF run(1) this fits] c show ?thesis by simp
  next
    case False
    from Cons.prems(1) c e fits False obtain x st where x: "event_value e stack = Ok (x, st)"
      by (cases "event_value e stack") (auto simp: Let_def d'_def split: if_splits)
    from Cons.prems(1) c e fits False x obtain st' root' where p: "put_value x st root = Ok (st', root')"
      by (cases "put_value x st root") (auto simp: Let_def d'_def split: if_splits)
    have run: "parse_events budget (count + 1) (d' e) st' root' evs = Ok v"
      using Cons.prems(1) c e fits False x p by (auto simp: Let_def d'_def split: if_splits)
    have inv: "stack_depth_ok stack" "length stack \<le> MAX_DEPTH" "\<forall>v. root = Some v \<longrightarrow> value_depth v \<le> MAX_DEPTH"
      using Cons.prems(2) by (simp_all add: parse_inv_def)
    note ev = event_value_held [OF x inv(1,2)]
    note pv = put_value_held [OF p ev(3,5) inv(3)]
    have "parse_inv (count + 1) (d' e) st' root'"
      using Cons.prems(2) ev pv by (auto simp: parse_inv_def held_def eq)
    from Cons.IH [OF run this fits] c show ?thesis by simp
  qed
qed

lemma parse_inv_start: "parse_inv 0 0 [] None"
  by (simp add: parse_inv_def held_def)

text \<open>
  C12. A property list a peer sends is refused or small: whatever the events of the parser, an accepted
  value has at most 200000 values, collections at most 32 deep, and decodes to no more than four
  times the bytes received, or 4 MiB.
\<close>

theorem parse_plist_bounded:
  assumes "parse_plist reader data = Ok v" "length data < 2 ^ 61"
  shows "value_count v \<le> 200000 \<and> value_depth v \<le> 32 \<and> value_weight v \<le> max (4 * length data) (4 * 1024 * 1024)"
proof -
  have b: "byte_budget (length data) = max (4 * length data) (4 * 1024 * 1024)" "byte_budget (length data) < u64_max"
    using assms(2) by (auto simp: byte_budget_def u64_max_def MIN_BYTE_BUDGET_def min_def max_def)
  from parse_events_bounded [OF assms(1) [unfolded parse_plist_def] parse_inv_start _ b(2)] show ?thesis
    unfolding b(1) by (simp add: MAX_EVENTS_def MAX_DEPTH_def)
qed

subsection \<open>Exactness\<close>

text \<open>The events of a value, as the crate's reader gives them.\<close>

fun value_events :: "pvalue \<Rightarrow> event list" where
  "value_events (PArray vs) = StartArray # concat (map value_events vs) @ [EndCollection]"
| "value_events (PDict d) = StartDictionary # concat (map (\<lambda>(k, v). EString k # value_events v) d) @ [EndCollection]"
| "value_events (PBool b) = [EBoolean b]"
| "value_events (PData x) = [EData x]"
| "value_events (PDate x) = [EDate x]"
| "value_events (PInt i) = [EInteger i]"
| "value_events (PReal r) = [EReal r]"
| "value_events (PString s) = [EString s]"
| "value_events (PUid u) = [EUid u]"

fun value_ok :: "pvalue \<Rightarrow> bool" where
  "value_ok (PArray vs) \<longleftrightarrow> (\<forall>v \<in> set vs. value_ok v)"
| "value_ok (PDict d) \<longleftrightarrow> distinct (map fst d) \<and> (\<forall>(k, v) \<in> set d. value_ok v)"
| "value_ok (PDate x) \<longleftrightarrow> in_range x = Ok x"
| "value_ok _ \<longleftrightarrow> True"

definition cost_of :: "event list \<Rightarrow> nat" where
  "cost_of es = sum_list (map event_cost es)"

lemma cost_of_simps [simp]: "cost_of [] = 0" "cost_of (e # es) = event_cost e + cost_of es" "cost_of (a @ b) = cost_of a + cost_of b"
  by (simp_all add: cost_of_def)

text \<open>Running a value's events is putting the value, when the limits leave room for them.\<close>

definition room_for :: "nat \<Rightarrow> nat \<Rightarrow> nat \<Rightarrow> frame list \<Rightarrow> event list \<Rightarrow> nat \<Rightarrow> bool" where
  "room_for budget count decoded stack es depth \<longleftrightarrow>
     budget < u64_max \<and> count + length es \<le> MAX_EVENTS \<and> decoded + cost_of es \<le> budget \<and> length stack + depth \<le> MAX_DEPTH"

lemma parse_scalar:
  assumes "event_value e stack = Ok (v, stack)" "e \<noteq> StartArray" "e \<noteq> StartDictionary" "room_for budget count decoded stack [e] d"
  shows "parse_events budget count decoded stack root (Ok e # evs) =
    (case put_value v stack root of Err x \<Rightarrow> Err x
      | Ok (st', root') \<Rightarrow> parse_events budget (count + 1) (decoded + event_cost e) st' root' evs)"
proof -
  have "min u64_max (decoded + event_cost e) = decoded + event_cost e" "decoded + event_cost e \<le> budget" "count < MAX_EVENTS"
    using assms(4) by (auto simp: room_for_def min_def)
  then show ?thesis using assms by (simp add: Let_def)
qed

lemma parse_start:
  assumes "room_for budget count decoded stack [e] 1" "e = StartArray \<and> f = FArray [] \<or> e = StartDictionary \<and> f = FDict [] None"
  shows "parse_events budget count decoded stack root (Ok e # evs) =
    parse_events budget (count + 1) (decoded + event_cost e) (f # stack) root evs"
proof -
  have "min u64_max (decoded + event_cost e) = decoded + event_cost e" "decoded + event_cost e \<le> budget" "count < MAX_EVENTS"
    "length stack < MAX_DEPTH"
    using assms(1) by (auto simp: room_for_def min_def)
  then show ?thesis using assms(2) by (auto simp: Let_def)
qed

lemma parse_end:
  assumes "room_for budget count decoded (f # stack) [EndCollection] 0"
    "event_value EndCollection (f # stack) = Ok (v, stack)"
  shows "parse_events budget count decoded (f # stack) root (Ok EndCollection # evs) =
    (case put_value v stack root of Err x \<Rightarrow> Err x
      | Ok (st', root') \<Rightarrow> parse_events budget (count + 1) (decoded + event_cost EndCollection) st' root' evs)"
proof -
  have "min u64_max (decoded + event_cost EndCollection) = decoded + event_cost EndCollection"
    "decoded + event_cost EndCollection \<le> budget" "count < MAX_EVENTS"
    using assms(1) by (auto simp: room_for_def min_def)
  then show ?thesis using assms(2) by (simp add: Let_def)
qed

definition runs :: "pvalue \<Rightarrow> bool" where
  "runs v \<longleftrightarrow> (\<forall>budget count decoded stack root evs.
     value_ok v \<and> room_for budget count decoded stack (value_events v) (value_depth v) \<longrightarrow>
     parse_events budget count decoded stack root (map Ok (value_events v) @ evs) =
       (case put_value v stack root of Err x \<Rightarrow> Err x
        | Ok (st', root') \<Rightarrow> parse_events budget (count + length (value_events v)) (decoded + cost_of (value_events v)) st' root' evs))"

lemma runs_items:
  assumes "\<forall>v \<in> set vs. runs v \<and> value_ok v \<and> value_depth v \<le> depth"
    "room_for budget count decoded (FArray items # stack) (concat (map value_events vs)) depth"
  shows "parse_events budget count decoded (FArray items # stack) root (map Ok (concat (map value_events vs)) @ evs) =
    parse_events budget (count + length (concat (map value_events vs))) (decoded + cost_of (concat (map value_events vs)))
      (FArray (items @ vs) # stack) root evs"
  using assms
proof (induction vs arbitrary: count decoded items)
  case Nil
  then show ?case by simp
next
  case (Cons v vs)
  let ?e = "value_events v" and ?r = "concat (map value_events vs)"
  have r1: "room_for budget count decoded (FArray items # stack) ?e (value_depth v)"
    using Cons.prems by (auto simp: room_for_def)
  have r2: "room_for budget (count + length ?e) (decoded + cost_of ?e) (FArray (items @ [v]) # stack) ?r depth"
    using Cons.prems by (auto simp: room_for_def)
  have "parse_events budget count decoded (FArray items # stack) root (map Ok ?e @ (map Ok ?r @ evs)) =
    parse_events budget (count + length ?e) (decoded + cost_of ?e) (FArray (items @ [v]) # stack) root (map Ok ?r @ evs)"
    using Cons.prems(1) r1 by (simp add: runs_def put_value_def)
  with Cons.IH [OF _ r2] Cons.prems(1) show ?case by (simp add: add.assoc)
qed

lemma dict_insert_new: "k \<notin> fst ` set d \<Longrightarrow> dict_insert k v d = d @ [(k, v)]"
  by (induction d) auto

lemma runs_entries:
  fixes d :: "(ustr \<times> pvalue) list"
  defines "evs_of \<equiv> \<lambda>d. concat (map (\<lambda>(k, v). EString k # value_events v) d)"
  assumes "\<forall>(k, v) \<in> set d. runs v \<and> value_ok v \<and> value_depth v \<le> depth"
    "room_for budget count decoded (FDict done None # stack) (evs_of d) depth" "distinct (map fst (done @ d))"
  shows "parse_events budget count decoded (FDict done None # stack) root (map Ok (evs_of d) @ evs) =
    parse_events budget (count + length (evs_of d)) (decoded + cost_of (evs_of d)) (FDict (done @ d) None # stack) root evs"
  using assms(2-)
proof (induction d arbitrary: count decoded "done")
  case Nil
  then show ?case by (simp add: evs_of_def)
next
  case (Cons kv d)
  obtain k v where kv: "kv = (k, v)" by fastforce
  let ?e = "value_events v" and ?st = "FDict done (Some k) # stack"
  have split: "evs_of (kv # d) = EString k # ?e @ evs_of d" by (simp add: evs_of_def kv)
  have r0: "room_for budget count decoded (FDict done None # stack) [EString k] depth"
    and r1: "room_for budget (count + 1) (decoded + event_cost (EString k)) ?st ?e (value_depth v)"
    and r2: "room_for budget (count + 1 + length ?e) (decoded + event_cost (EString k) + cost_of ?e) (FDict (done @ [kv]) None # stack) (evs_of d) depth"
    using Cons.prems(1,2) unfolding split by (auto simp: room_for_def kv)
  have new: "dict_insert k v done = done @ [kv]" using Cons.prems(3) by (simp add: kv dict_insert_new)
  have "parse_events budget count decoded (FDict done None # stack) root (Ok (EString k) # (map Ok ?e @ (map Ok (evs_of d) @ evs))) =
    parse_events budget (count + 1) (decoded + event_cost (EString k)) ?st root (map Ok ?e @ (map Ok (evs_of d) @ evs))"
    by (subst parse_scalar [OF _ _ _ r0, of "PString k"]) (simp_all add: event_value_def put_value_def)
  also have "\<dots> = parse_events budget (count + 1 + length ?e) (decoded + event_cost (EString k) + cost_of ?e)
      (FDict (done @ [kv]) None # stack) root (map Ok (evs_of d) @ evs)"
    using Cons.prems(1) r1 by (simp add: kv runs_def put_value_def new)
  also have "\<dots> = parse_events budget (count + length (evs_of (kv # d))) (decoded + cost_of (evs_of (kv # d)))
      (FDict (done @ kv # d) None # stack) root evs"
    using Cons.IH [OF _ r2] Cons.prems(1,3) by (simp add: split add.assoc)
  finally show ?case by (simp add: split)
qed

lemma room_for_Cons:
  "room_for budget count decoded stack (e # es) d \<Longrightarrow>
    room_for budget count decoded stack [e] d \<and> room_for budget (count + 1) (decoded + event_cost e) stack es d"
  by (auto simp: room_for_def)

lemma Max_depth_le: "finite A \<Longrightarrow> x \<in> A \<Longrightarrow> (f x :: nat) \<le> Max (insert 0 (f ` A))"
  by (intro Max_ge) auto

lemma runs_scalar:
  assumes "value_events v = [e]" "\<And>stack. value_ok v \<Longrightarrow> event_value e stack = Ok (v, stack)" "e \<noteq> StartArray" "e \<noteq> StartDictionary"
  shows "runs v"
  unfolding runs_def
proof (intro allI impI)
  fix budget count decoded stack root evs
  assume a: "value_ok v \<and> room_for budget count decoded stack (value_events v) (value_depth v)"
  then have r: "room_for budget count decoded stack [e] (value_depth v)" using assms(1) by simp
  show "parse_events budget count decoded stack root (map Ok (value_events v) @ evs) =
       (case put_value v stack root of Err x \<Rightarrow> Err x
        | Ok (st', root') \<Rightarrow> parse_events budget (count + length (value_events v)) (decoded + cost_of (value_events v)) st' root' evs)"
    using parse_scalar [OF assms(2) assms(3,4) r] a by (simp add: assms(1) cong: result.case_cong)
qed

lemma runs_all: "runs v"
proof (induction v)
  case (PArray vs)
  show ?case unfolding runs_def
  proof (intro allI impI)
    fix budget count decoded stack root evs
    assume a: "value_ok (PArray vs) \<and> room_for budget count decoded stack (value_events (PArray vs)) (value_depth (PArray vs))"
    let ?es = "concat (map value_events vs)" and ?d = "Max (insert 0 (value_depth ` set vs))"
    have vs: "\<forall>v \<in> set vs. runs v \<and> value_ok v \<and> value_depth v \<le> ?d"
      using PArray a Max_depth_le by auto
    have r0: "room_for budget count decoded stack [StartArray] 1"
      and r1: "room_for budget (count + 1) (decoded + event_cost StartArray) (FArray [] # stack) ?es ?d"
      and r2: "room_for budget (count + 1 + length ?es) (decoded + event_cost StartArray + cost_of ?es) (FArray vs # stack) [EndCollection] 0"
      using a by (auto simp: room_for_def)
    have "parse_events budget count decoded stack root (Ok StartArray # (map Ok ?es @ (Ok EndCollection # evs))) =
        parse_events budget (count + 1) (decoded + event_cost StartArray) (FArray [] # stack) root (map Ok ?es @ (Ok EndCollection # evs))"
      using r0 by (intro parse_start) auto
    also have "\<dots> = parse_events budget (count + 1 + length ?es) (decoded + event_cost StartArray + cost_of ?es)
        (FArray vs # stack) root (Ok EndCollection # evs)"
      using runs_items [OF vs r1] by simp
    also have "\<dots> = (case put_value (PArray vs) stack root of Err x \<Rightarrow> Err x
      | Ok (st', root') \<Rightarrow> parse_events budget (count + 1 + length ?es + 1)
          (decoded + event_cost StartArray + cost_of ?es + event_cost EndCollection) st' root' evs)"
      by (rule parse_end [OF r2]) (simp add: event_value_def)
    finally show "parse_events budget count decoded stack root (map Ok (value_events (PArray vs)) @ evs) =
       (case put_value (PArray vs) stack root of Err x \<Rightarrow> Err x
        | Ok (st', root') \<Rightarrow> parse_events budget (count + length (value_events (PArray vs))) (decoded + cost_of (value_events (PArray vs))) st' root' evs)"
      by (simp add: add.assoc cong: result.case_cong)
  qed
next
  case (PDict d)
  show ?case unfolding runs_def
  proof (intro allI impI)
    fix budget count decoded stack root evs
    assume a: "value_ok (PDict d) \<and> room_for budget count decoded stack (value_events (PDict d)) (value_depth (PDict d))"
    let ?es = "concat (map (\<lambda>(k, v). EString k # value_events v) d)" and ?d = "Max (insert 0 ((\<lambda>(k, v). value_depth v) ` set d))"
    have vs: "\<forall>(k, v) \<in> set d. runs v \<and> value_ok v \<and> value_depth v \<le> ?d"
    proof (clarify)
      fix k v
      assume kv: "(k, v) \<in> set d"
      then have "value_depth v \<le> ?d" using Max_depth_le [of "set d" "(k, v)" "\<lambda>(k, v). value_depth v"] by simp
      with kv PDict [of "(k, v)" v] a show "runs v \<and> value_ok v \<and> value_depth v \<le> ?d" by auto
    qed
    have r0: "room_for budget count decoded stack [StartDictionary] 1"
      and r1: "room_for budget (count + 1) (decoded + event_cost StartDictionary) (FDict [] None # stack) ?es ?d"
      and r2: "room_for budget (count + 1 + length ?es) (decoded + event_cost StartDictionary + cost_of ?es) (FDict d None # stack) [EndCollection] 0"
      using a by (auto simp: room_for_def)
    have "parse_events budget count decoded stack root (Ok StartDictionary # (map Ok ?es @ (Ok EndCollection # evs))) =
        parse_events budget (count + 1) (decoded + event_cost StartDictionary) (FDict [] None # stack) root (map Ok ?es @ (Ok EndCollection # evs))"
      using r0 by (intro parse_start) auto
    also have "\<dots> = parse_events budget (count + 1 + length ?es) (decoded + event_cost StartDictionary + cost_of ?es)
        (FDict d None # stack) root (Ok EndCollection # evs)"
      using runs_entries [OF vs r1] a by simp
    also have "\<dots> = (case put_value (PDict d) stack root of Err x \<Rightarrow> Err x
      | Ok (st', root') \<Rightarrow> parse_events budget (count + 1 + length ?es + 1)
          (decoded + event_cost StartDictionary + cost_of ?es + event_cost EndCollection) st' root' evs)"
      by (rule parse_end [OF r2]) (simp add: event_value_def)
    finally show "parse_events budget count decoded stack root (map Ok (value_events (PDict d)) @ evs) =
       (case put_value (PDict d) stack root of Err x \<Rightarrow> Err x
        | Ok (st', root') \<Rightarrow> parse_events budget (count + length (value_events (PDict d))) (decoded + cost_of (value_events (PDict d))) st' root' evs)"
      by (simp add: add.assoc cong: result.case_cong)
  qed
qed (rule runs_scalar, simp, simp_all add: event_value_def)+

lemma plist_read_back:
  assumes "reader data = map Ok (value_events v)" "value_ok v"
    "length (value_events v) \<le> 200000" "value_depth v \<le> 32" "cost_of (value_events v) \<le> 4 * 1024 * 1024"
    "length data < 2 ^ 61"
  shows "parse_plist reader data = Ok v"
proof -
  have "room_for (byte_budget (length data)) 0 0 [] (value_events v) (value_depth v)"
    using assms(3-6) by (auto simp: room_for_def MAX_EVENTS_def MAX_DEPTH_def byte_budget_def u64_max_def
        MIN_BYTE_BUDGET_def min_def max_def)
  with runs_all [of v, unfolded runs_def, rule_format, of "byte_budget (length data)" 0 0 "[]" None "[]"] assms(1,2)
  show ?thesis by (simp add: parse_plist_def put_value_def)
qed

text \<open>
  C13. An honest property list is read back exactly: for every value with distinct dictionary keys and
  dates in the years 1 to 9999 whose events fit the limits, parsing its events gives the value.
\<close>

theorem parse_plist_exact:
  assumes "reader data = map Ok (value_events v)" "value_ok v"
    "length (value_events v) \<le> 200000" "value_depth v \<le> 32" "cost_of (value_events v) \<le> 4 * 1024 * 1024"
    "length data < 2 ^ 61"
  shows "parse_plist reader data = Ok v"
  using assms by (rule plist_read_back)

definition ask_value :: pvalue where [eval_defs]:
  "ask_value = PDict [(lit ''Files'', PArray [PDict [(lit ''FileName'', PString (lit ''a''))]]), (lit ''Size'', PInt 3)]"

lemma ask_events: "parse_plist (\<lambda>_. map Ok (value_events ask_value)) [] = Ok ask_value"
  by (simp add: eval_defs)

theorem parse_plist_bounded_witness:
  "value_count ask_value \<le> 200000 \<and> value_depth ask_value \<le> 32"
  using parse_plist_bounded [OF ask_events] by simp

theorem parse_plist_exact_witness:
  "parse_plist (\<lambda>_. map Ok (value_events ask_value)) [] = Ok ask_value"
  by (rule parse_plist_exact) (simp_all add: eval_defs)

end
