(* ===== verification/Connections.thy ===== *)
theory Connections
  imports Extract Plist
begin

text \<open>
  What the receiver's connections share (omdrop-receiver/src/server.rs): the table of open connections
  with its caps, the upload slots taken by compare-and-exchange from several threads, the byte
  budget of an upload, stored links, and the texts of its log lines.

  The table is an association list from connection numbers; an address is a number. Times are
  nanoseconds. Each operation on the table runs under its lock, so it is one step; the two atomic
  accesses of \<open>try_slot\<close> are separate steps of the relation \<open>slot_step\<close>.
\<close>

definition MIN_FREE_BYTES :: nat where [eval_defs]:
  "MIN_FREE_BYTES = 2 ^ 30"

definition MAX_CONCURRENT_UPLOADS :: nat where [eval_defs]:
  "MAX_CONCURRENT_UPLOADS = 2"

definition MAX_CONNECTIONS :: nat where [eval_defs]:
  "MAX_CONNECTIONS = 64"

definition MAX_CONNECTIONS_PER_PEER :: nat where [eval_defs]:
  "MAX_CONNECTIONS_PER_PEER = 8"

definition SECS :: nat where [eval_defs]:
  "SECS = 1000000000"

definition MILLIS :: nat where [eval_defs]:
  "MILLIS = 1000000"

record conn_limits =
  cl_max_connections :: nat
  cl_max_per_peer :: nat
  cl_head_deadline :: nat
  cl_idle_timeout :: nat
  cl_upload_wait :: nat
  cl_upload_step :: nat
  cl_drain_quiet :: nat
  cl_drain_limit :: nat

definition default_limits :: conn_limits where [eval_defs]:
  "default_limits =
     \<lparr>cl_max_connections = MAX_CONNECTIONS, cl_max_per_peer = MAX_CONNECTIONS_PER_PEER,
      cl_head_deadline = 30 * SECS, cl_idle_timeout = 30 * SECS, cl_upload_wait = 60 * SECS,
      cl_upload_step = 3 * SECS, cl_drain_quiet = 1 * SECS, cl_drain_limit = 10 * SECS\<rparr>"

subsection \<open>The socket's wait\<close>

text \<open>
  \<open>set_wait\<close> stores milliseconds, 0 for none; \<open>Sock::read\<close> waits for what \<open>sock_wait\<close> says, and
  \<open>None\<close> is its timeout before reading.
\<close>

definition wait_cell :: "nat option \<Rightarrow> nat" where [eval_defs]:
  "wait_cell w = (case w of None \<Rightarrow> 0 | Some d \<Rightarrow> max 1 (min u64_max (d div MILLIS)))"

definition sock_wait :: "nat \<Rightarrow> nat \<Rightarrow> nat option \<Rightarrow> nat \<Rightarrow> nat option" where [eval_defs]:
  "sock_wait idle cell deadline now =
     (let base = (if cell = 0 then idle else cell * MILLIS)
      in (case deadline of
            None \<Rightarrow> Some base
          | Some d \<Rightarrow> if d - now = 0 then None else Some (min base (max MILLIS (d - now)))))"

subsection \<open>Open connections\<close>

record live =
  lv_ip :: nat
  lv_since :: "nat option"

record server =
  sv_live :: "(nat \<times> live) list"
  sv_next :: nat

definition earlier :: "nat \<times> nat \<Rightarrow> nat \<times> nat \<Rightarrow> bool" where [eval_defs]:
  "earlier a b \<longleftrightarrow> fst a < fst b \<or> (fst a = fst b \<and> snd a \<le> snd b)"

fun min_waiting :: "(nat \<times> live) list \<Rightarrow> (nat \<times> nat) option" where
  "min_waiting [] = None"
| "min_waiting ((i, l) # ls) =
     (case lv_since l of
        None \<Rightarrow> min_waiting ls
      | Some since \<Rightarrow>
          (case min_waiting ls of
             None \<Rightarrow> Some (since, i)
           | Some best \<Rightarrow> if earlier (since, i) best then Some (since, i) else Some best))"

definition forget :: "nat \<Rightarrow> server \<Rightarrow> server" where [eval_defs]:
  "forget i st = st\<lparr>sv_live := filter (\<lambda>(j, _). j \<noteq> i) (sv_live st)\<rparr>"

definition set_waiting :: "nat \<Rightarrow> nat \<Rightarrow> bool \<Rightarrow> server \<Rightarrow> server" where [eval_defs]:
  "set_waiting now i waiting st =
     st\<lparr>sv_live := map (\<lambda>(j, l). if j = i then (j, l\<lparr>lv_since := (if waiting then Some now else None)\<rparr>) else (j, l)) (sv_live st)\<rparr>"

definition from_peer :: "nat \<Rightarrow> server \<Rightarrow> nat" where [eval_defs]:
  "from_peer ip st = length (filter (\<lambda>(_, l). lv_ip l = ip) (sv_live st))"

definition register :: "nat \<Rightarrow> nat \<Rightarrow> server \<Rightarrow> nat option \<times> server" where [eval_defs]:
  "register now ip st =
     (Some (sv_next st), st\<lparr>sv_next := sv_next st + 1, sv_live := (sv_next st, \<lparr>lv_ip = ip, lv_since = Some now\<rparr>) # sv_live st\<rparr>)"

text \<open>\<open>admit\<close>, with whether cloning the socket worked; the connection it closes is the one it forgets.\<close>

definition admit :: "conn_limits \<Rightarrow> bool \<Rightarrow> nat \<Rightarrow> nat \<Rightarrow> server \<Rightarrow> nat option \<times> server" where [eval_defs]:
  "admit limits cloned now ip st =
     (if \<not> cloned then (None, st)
      else if from_peer ip st \<ge> cl_max_per_peer limits then (None, st)
      else if length (sv_live st) \<ge> cl_max_connections limits
      then (case min_waiting (sv_live st) of
              None \<Rightarrow> (None, st)
            | Some (_, victim) \<Rightarrow> register now ip (forget victim st))
      else register now ip st)"

definition reset_sessions :: "server \<Rightarrow> server" where [eval_defs]:
  "reset_sessions st = st\<lparr>sv_live := []\<rparr>"

text \<open>The table over the life of the receiver.\<close>

inductive serves :: "conn_limits \<Rightarrow> server \<Rightarrow> bool" for limits where
  start: "serves limits \<lparr>sv_live = [], sv_next = 0\<rparr>"
| accept: "serves limits st \<Longrightarrow> serves limits (snd (admit limits cloned now ip st))"
| finish: "serves limits st \<Longrightarrow> serves limits (forget i st)"
| request: "serves limits st \<Longrightarrow> serves limits (set_waiting now i w st)"
| stop: "serves limits st \<Longrightarrow> serves limits (reset_sessions st)"

definition table_ok :: "conn_limits \<Rightarrow> server \<Rightarrow> bool" where
  "table_ok limits st \<longleftrightarrow>
     length (sv_live st) \<le> cl_max_connections limits \<and> (\<forall>ip. from_peer ip st \<le> cl_max_per_peer limits)
     \<and> distinct (map fst (sv_live st)) \<and> (\<forall>(i, _) \<in> set (sv_live st). i < sv_next st)"

lemma length_filter_filter_le: "length (filter P (filter Q xs)) \<le> length (filter P xs)"
  by (induction xs) auto

lemma forget_from_peer: "from_peer ip (forget i st) \<le> from_peer ip st"
  unfolding from_peer_def forget_def by (simp del: filter_filter add: length_filter_filter_le)

lemma forget_shorter:
  assumes "(i, l) \<in> set (sv_live st)"
  shows "length (sv_live (forget i st)) < length (sv_live st)"
  using assms by (auto simp: forget_def intro!: length_filter_less)

lemma forget_ok: "table_ok limits st \<Longrightarrow> table_ok limits (forget i st)"
proof -
  assume a: "table_ok limits st"
  have "length (sv_live (forget i st)) \<le> length (sv_live st)" by (simp add: forget_def)
  then have "length (sv_live (forget i st)) \<le> cl_max_connections limits" using a by (simp add: table_ok_def)
  moreover have "distinct (map fst (sv_live (forget i st)))"
    using a by (auto simp: forget_def table_ok_def intro: distinct_map_filter)
  moreover have "from_peer ip (forget i st) \<le> cl_max_per_peer limits" for ip
    using a forget_from_peer [of ip i st] by (meson order_trans table_ok_def)
  moreover have "\<forall>(j, _) \<in> set (sv_live (forget i st)). j < sv_next (forget i st)"
    using a by (auto simp: table_ok_def forget_def)
  ultimately show ?thesis by (simp add: table_ok_def)
qed

lemma set_waiting_keys:
  "map fst (sv_live (set_waiting now i w st)) = map fst (sv_live st)" "from_peer ip (set_waiting now i w st) = from_peer ip st"
proof -
  show "map fst (sv_live (set_waiting now i w st)) = map fst (sv_live st)" by (auto simp: set_waiting_def)
  have "length (filter (\<lambda>(_, l). lv_ip l = ip) (map (\<lambda>(j, l). if j = i then (j, l\<lparr>lv_since := x\<rparr>) else (j, l)) ls))
      = length (filter (\<lambda>(_, l). lv_ip l = ip) ls)" for ls :: "(nat \<times> live) list" and x
    by (induction ls) (auto split: if_splits)
  then show "from_peer ip (set_waiting now i w st) = from_peer ip st" by (simp add: from_peer_def set_waiting_def)
qed

lemma set_waiting_ok: "table_ok limits st \<Longrightarrow> table_ok limits (set_waiting now i w st)"
proof -
  assume a: "table_ok limits st"
  have "length (sv_live (set_waiting now i w st)) = length (sv_live st)" "sv_next (set_waiting now i w st) = sv_next st"
    by (simp_all add: set_waiting_def)
  moreover have "\<forall>(j, _) \<in> set (sv_live (set_waiting now i w st)). j < sv_next st"
    using a by (auto simp: set_waiting_def table_ok_def split: if_splits)
  ultimately show ?thesis using a by (simp add: table_ok_def set_waiting_keys)
qed

lemma min_waiting_in:
  "min_waiting ls = Some (since, i) \<Longrightarrow> \<exists>l. (i, l) \<in> set ls \<and> lv_since l = Some since"
proof (induction ls arbitrary: since i)
  case (Cons x ls)
  obtain j l where x: "x = (j, l)" by fastforce
  with Cons show ?case by (auto split: option.splits if_splits)
qed simp

lemma min_waiting_least:
  "min_waiting ls = Some best \<Longrightarrow> (j, l) \<in> set ls \<Longrightarrow> lv_since l = Some t \<Longrightarrow> earlier best (t, j)"
proof (induction ls arbitrary: best)
  case (Cons x ls)
  obtain i k where x: "x = (i, k)" by fastforce
  show ?case
  proof (cases "min_waiting ls")
    case None
    then have "(j, l) \<notin> set ls"
    proof (induction ls)
      case (Cons y ys)
      then show ?case using \<open>lv_since l = Some t\<close> by (cases y) (auto split: option.splits if_splits)
    qed simp
    with Cons.prems x None show ?thesis by (auto simp: earlier_def split: option.splits)
  next
    case (Some b)
    with Cons x show ?thesis
      by (fastforce simp: earlier_def split: option.splits if_splits)
  qed
qed simp

lemma register_ok:
  assumes "table_ok limits st" "length (sv_live st) < cl_max_connections limits" "from_peer ip st < cl_max_per_peer limits"
  shows "table_ok limits (snd (register now ip st))"
  using assms by (auto simp: table_ok_def register_def from_peer_def)

lemma admit_ok:
  assumes "table_ok limits st" "0 < cl_max_connections limits"
  shows "table_ok limits (snd (admit limits cloned now ip st))"
proof (cases "cloned \<and> from_peer ip st < cl_max_per_peer limits \<and> length (sv_live st) \<ge> cl_max_connections limits")
  case False
  with assms register_ok [OF assms(1)] show ?thesis by (auto simp: admit_def)
next
  case True
  show ?thesis
  proof (cases "min_waiting (sv_live st)")
    case None
    with True assms show ?thesis by (simp add: admit_def)
  next
    case (Some p)
    obtain since victim where p: "p = (since, victim)" by fastforce
    with Some obtain l where l: "(victim, l) \<in> set (sv_live st)" using min_waiting_in by blast
    have "length (sv_live (forget victim st)) < cl_max_connections limits"
      using forget_shorter [OF l] assms(1) by (simp add: table_ok_def)
    moreover have "from_peer ip (forget victim st) < cl_max_per_peer limits"
      using forget_from_peer [of ip victim st] True by simp
    ultimately show ?thesis
      using register_ok [OF forget_ok [OF assms(1)]] True Some p by (simp add: admit_def)
  qed
qed

text \<open>
  C15. However connections come, finish and wait, the receiver never holds more than its cap of
  connections, nor more than the cap of one peer, and every connection has its own number.
\<close>

theorem connections_capped:
  assumes "serves limits st" "0 < cl_max_connections limits"
  shows "length (sv_live st) \<le> cl_max_connections limits \<and> from_peer ip st \<le> cl_max_per_peer limits
    \<and> distinct (map fst (sv_live st))"
proof -
  from assms have "table_ok limits st"
  proof (induction rule: serves.induct)
    case start
    then show ?case by (simp add: table_ok_def from_peer_def)
  next
    case (stop st)
    then show ?case by (simp add: table_ok_def from_peer_def reset_sessions_def)
  qed (simp_all add: admit_ok forget_ok set_waiting_ok)
  then show ?thesis by (simp add: table_ok_def)
qed

theorem connections_capped_witness:
  "from_peer 7 (snd (admit default_limits True 5 7 \<lparr>sv_live = [], sv_next = 0\<rparr>)) \<le> 8"
  using connections_capped [OF serves.accept [OF serves.start, of default_limits True 5 7], of 7]
  by (simp add: default_limits_def MAX_CONNECTIONS_def MAX_CONNECTIONS_PER_PEER_def)

text \<open>
  A new peer is locked out only by connections in the middle of a request: when its own cap leaves
  room, it is refused only if the table is full and nobody in it is waiting; otherwise it is let in,
  and whoever is closed for it had waited at least as long as anyone else still waiting.
\<close>

lemma admit_fair:
  assumes "from_peer ip st < cl_max_per_peer limits" "distinct (map fst (sv_live st))"
  shows "case fst (admit limits True now ip st) of
      None \<Rightarrow> cl_max_connections limits \<le> length (sv_live st) \<and> (\<forall>(i, l) \<in> set (sv_live st). lv_since l = None)
    | Some new \<Rightarrow>
        \<forall>(i, l) \<in> set (sv_live st). (i, l) \<notin> set (sv_live (snd (admit limits True now ip st))) \<longrightarrow>
          (\<exists>t. lv_since l = Some t \<and> (\<forall>(j, k) \<in> set (sv_live st). \<forall>u. lv_since k = Some u \<longrightarrow> t \<le> u))"
proof (cases "length (sv_live st) \<ge> cl_max_connections limits")
  case False
  with assms show ?thesis by (auto simp: admit_def register_def)
next
  case True
  show ?thesis
  proof (cases "min_waiting (sv_live st)")
    case None
    have "lv_since l = None" if "(i, l) \<in> set ls" "min_waiting ls = None" for i l ls
      using that by (induction ls) (auto split: option.splits if_splits)
    with None True assms show ?thesis by (auto simp: admit_def)
  next
    case (Some p)
    obtain since victim where p: "p = (since, victim)" by fastforce
    from Some p obtain v where v: "(victim, v) \<in> set (sv_live st)" "lv_since v = Some since" using min_waiting_in by blast
    have only: "(i, l) \<in> set (sv_live st) \<Longrightarrow> (i, l) \<notin> set (sv_live (snd (admit limits True now ip st))) \<Longrightarrow> l = v" for i l
      using True assms Some p v(1)
      by (auto simp: admit_def register_def forget_def dest: eq_key_imp_eq_value [OF assms(2)])
    have "(j, k) \<in> set (sv_live st) \<Longrightarrow> lv_since k = Some u \<Longrightarrow> since \<le> u" for j k u
      using min_waiting_least [OF Some, of j k u] p by (auto simp: earlier_def)
    then have "\<forall>(i, l) \<in> set (sv_live st). (i, l) \<notin> set (sv_live (snd (admit limits True now ip st))) \<longrightarrow>
          (\<exists>t. lv_since l = Some t \<and> (\<forall>(j, k) \<in> set (sv_live st). \<forall>u. lv_since k = Some u \<longrightarrow> t \<le> u))"
      using only v(2) by fastforce
    moreover have "fst (admit limits True now ip st) \<noteq> None" using True assms Some p by (simp add: admit_def register_def)
    ultimately show ?thesis by auto
  qed
qed

subsection \<open>Upload slots\<close>

text \<open>
  Each thread is idle, has read the counter inside \<open>try_slot\<close>, or holds a slot. A weak
  compare-exchange may fail though the counter is the expected one; \<open>Drop\<close> gives the slot back.
\<close>

datatype slot_pc = SlotIdle | SlotRead nat | SlotHeld

record slots =
  sl_counter :: nat
  sl_pc :: "nat \<Rightarrow> slot_pc"

inductive slot_step :: "nat \<Rightarrow> slots \<Rightarrow> slots \<Rightarrow> bool" for mx where
  load: "sl_pc s t = SlotIdle \<Longrightarrow> slot_step mx s (s\<lparr>sl_pc := (sl_pc s)(t := SlotRead (sl_counter s))\<rparr>)"
| full: "sl_pc s t = SlotRead n \<Longrightarrow> \<not> n < mx \<Longrightarrow> slot_step mx s (s\<lparr>sl_pc := (sl_pc s)(t := SlotIdle)\<rparr>)"
| taken: "sl_pc s t = SlotRead n \<Longrightarrow> n < mx \<Longrightarrow> sl_counter s = n \<Longrightarrow>
    slot_step mx s \<lparr>sl_counter = n + 1, sl_pc = (sl_pc s)(t := SlotHeld)\<rparr>"
| retry: "sl_pc s t = SlotRead n \<Longrightarrow> n < mx \<Longrightarrow>
    slot_step mx s (s\<lparr>sl_pc := (sl_pc s)(t := SlotRead (sl_counter s))\<rparr>)"
| drop_slot: "sl_pc s t = SlotHeld \<Longrightarrow>
    slot_step mx s \<lparr>sl_counter = sl_counter s - 1, sl_pc = (sl_pc s)(t := SlotIdle)\<rparr>"

inductive_cases slot_step_cases: "slot_step mx s s'"

definition no_slots :: slots where [eval_defs]:
  "no_slots = \<lparr>sl_counter = 0, sl_pc = (\<lambda>_. SlotIdle)\<rparr>"

definition holders :: "slots \<Rightarrow> nat set" where
  "holders s = {t. sl_pc s t = SlotHeld}"

definition slots_ok :: "nat \<Rightarrow> slots \<Rightarrow> bool" where
  "slots_ok mx s \<longleftrightarrow> finite (holders s) \<and> card (holders s) = sl_counter s \<and> sl_counter s \<le> mx"

lemma holders_upd:
  "holders (s\<lparr>sl_pc := (sl_pc s)(t := p)\<rparr>) = (if p = SlotHeld then insert t (holders s) else holders s - {t})"
  "holders \<lparr>sl_counter = c, sl_pc = (sl_pc s)(t := p)\<rparr> = (if p = SlotHeld then insert t (holders s) else holders s - {t})"
  by (auto simp: holders_def)

lemma not_held [simp]: "sl_pc s t \<noteq> SlotHeld \<Longrightarrow> holders s - {t} = holders s"
  by (auto simp: holders_def)

lemma slot_step_ok: "slot_step mx s s' \<Longrightarrow> slots_ok mx s \<Longrightarrow> slots_ok mx s'"
proof (induction rule: slot_step.induct)
  case (taken s t n)
  then have "t \<notin> holders s" by (simp add: holders_def)
  with taken show ?case by (simp add: slots_ok_def holders_upd)
next
  case (drop_slot s t)
  then have "t \<in> holders s" by (simp add: holders_def)
  with drop_slot show ?case by (auto simp: slots_ok_def holders_upd card_Diff_singleton)
qed (simp_all add: slots_ok_def holders_upd)

text \<open>
  C16. No interleaving of connections, lost exchanges or dropped slots lets more uploads run at once
  than the maximum, and the counter is always the number of uploads running.
\<close>

theorem uploads_capped:
  assumes "(slot_step MAX_CONCURRENT_UPLOADS)\<^sup>*\<^sup>* no_slots s"
  shows "card (holders s) = sl_counter s \<and> card (holders s) \<le> 2"
proof -
  from assms have "slots_ok MAX_CONCURRENT_UPLOADS s"
  proof (induction rule: rtranclp_induct)
    case base
    then show ?case by (simp add: slots_ok_def no_slots_def holders_def)
  next
    case (step s s')
    then show ?case using slot_step_ok by blast
  qed
  then show ?thesis by (simp add: slots_ok_def MAX_CONCURRENT_UPLOADS_def)
qed

theorem uploads_capped_witness:
  "card (holders (no_slots\<lparr>sl_pc := (sl_pc no_slots)(4 := SlotRead (sl_counter no_slots))\<rparr>)) \<le> 2"
proof -
  have "slot_step MAX_CONCURRENT_UPLOADS no_slots (no_slots\<lparr>sl_pc := (sl_pc no_slots)(4 := SlotRead (sl_counter no_slots))\<rparr>)"
    by (rule slot_step.load) (simp add: no_slots_def)
  then have "(slot_step MAX_CONCURRENT_UPLOADS)\<^sup>*\<^sup>* no_slots (no_slots\<lparr>sl_pc := (sl_pc no_slots)(4 := SlotRead (sl_counter no_slots))\<rparr>)"
    by (rule r_into_rtranclp)
  from uploads_capped [OF this] show ?thesis by simp
qed

text \<open>\<open>try_slot\<close> and \<open>Drop\<close> for a thread that nobody disturbs.\<close>

definition try_slot :: "nat \<Rightarrow> nat \<Rightarrow> nat option" where [eval_defs]:
  "try_slot counter mx = (if counter < mx then Some (counter + 1) else None)"

subsection \<open>The byte budget of an upload\<close>

record receive_budget =
  rb_free_bytes :: nat
  rb_byte_limit :: nat
  rb_percent :: nat

definition budget_compute :: "nat \<Rightarrow> nat \<Rightarrow> nat \<Rightarrow> (receive_budget, msg) result" where [eval_defs]:
  "budget_compute free percent min_free =
     (let percent_bytes = (free * percent div 100) mod 2 ^ 64;
          byte_limit = min percent_bytes (free - min_free)
      in if byte_limit = 0
         then Err [T ''not enough free space while preserving '', Num min_free, T '' bytes'']
         else Ok \<lparr>rb_free_bytes = free, rb_byte_limit = byte_limit, rb_percent = percent\<rparr>)"

definition budget_of :: "os \<Rightarrow> nat \<Rightarrow> nat \<Rightarrow> disk \<Rightarrow> ((receive_budget, msg) result, io_error) result \<times> disk" where [eval_defs]:
  "budget_of os percent min_free dk =
     (case free_bytes os dk of
        (Err e, dk') \<Rightarrow> (Err e, dk')
      | (Ok free, dk') \<Rightarrow> (Ok (budget_compute free percent min_free), dk'))"

text \<open>
  An upload's byte limit is positive, leaves the minimum free, and is the given percentage of the
  free space or less, rounded down; with a percentage of at most 100 the 128-bit product never
  loses bits when it is cut to 64. An upload is refused exactly when that leaves nothing.
\<close>

lemma budget_sound:
  assumes "percent \<le> 100" "free < 2 ^ 64"
  shows "case budget_compute free percent min_free of
      Ok b \<Rightarrow> 0 < rb_byte_limit b \<and> rb_byte_limit b + min_free \<le> free \<and>
        rb_byte_limit b = min (free * percent div 100) (free - min_free)
    | Err _ \<Rightarrow> free \<le> min_free \<or> free * percent < 100"
proof -
  have "free * percent div 100 \<le> free"
    using assms(1) by (metis div_le_mono mult_le_mono2 nonzero_mult_div_cancel_right zero_neq_numeral)
  with assms(2) have "(free * percent div 100) mod 2 ^ 64 = free * percent div 100" by simp
  then show ?thesis by (auto simp: budget_compute_def Let_def div_eq_0_iff)
qed

subsection \<open>Log texts\<close>

definition transfer_label :: "ustr \<Rightarrow> ustr" where [eval_defs]:
  "transfer_label header =
     (let label = dropWhile (\<lambda>c. c = 0x2e)
            (take 64 (filter (\<lambda>c. is_ascii_alphanumeric c \<or> c = 0x2d \<or> c = 0x5f \<or> c = 0x2e) header))
      in if label = [] then lit ''upload'' else label)"

definition MAX_STORED_LINE_BYTES :: nat where [eval_defs]:
  "MAX_STORED_LINE_BYTES = 16 * 1024"

fun stored_loop :: "ustr list \<Rightarrow> ustr list \<Rightarrow> ustr \<Rightarrow> ustr list" where
  "stored_loop [] ls line = (if line \<noteq> [] \<or> ls = [] then ls @ [line] else ls)"
| "stored_loop (name # names) ls line =
     (if line \<noteq> [] \<and> str_len line + 2 + str_len name > MAX_STORED_LINE_BYTES
      then stored_loop names (ls @ [line]) name
      else stored_loop names ls (if line \<noteq> [] then line @ lit '', '' @ name else name))"

definition stored_lines :: "ustr list \<Rightarrow> ustr list" where [eval_defs]:
  "stored_lines names = stored_loop names [] []"

abbreviation comma :: ustr where
  "comma \<equiv> lit '', ''"

lemma join_snoc: "acc \<noteq> [] \<Longrightarrow> join sep (acc @ [n]) = join sep acc @ sep @ n"
  by (induction acc rule: induct_list012) auto

lemma join_not_Nil: "acc \<noteq> [] \<Longrightarrow> \<forall>n \<in> set acc. n \<noteq> [] \<Longrightarrow> join sep acc \<noteq> []"
  by (induction acc rule: induct_list012) auto

definition line_ok :: "ustr list \<Rightarrow> bool" where
  "line_ok part \<longleftrightarrow> part \<noteq> [] \<and> (length part = 1 \<or> str_len (join comma part) \<le> MAX_STORED_LINE_BYTES)"

lemma str_len_comma [simp]: "str_len comma = 2"
  by (simp add: lit_def utf8_len_def)

lemma stored_loop_parts:
  assumes "\<forall>n \<in> set (acc @ names). n \<noteq> []" "line_ok acc"
  shows "\<exists>parts. stored_loop names ls (join comma acc) = ls @ map (join comma) parts \<and> concat parts = acc @ names
    \<and> (\<forall>part \<in> set parts. line_ok part)"
  using assms
proof (induction names arbitrary: acc ls)
  case Nil
  then have "join comma acc \<noteq> []" by (intro join_not_Nil) (auto simp: line_ok_def)
  with Nil show ?case by (intro exI [of _ "[acc]"]) simp
next
  case (Cons n names)
  have "acc \<noteq> []" using Cons.prems by (simp add: line_ok_def)
  then have ne: "join comma acc \<noteq> []" "acc \<noteq> []" using Cons.prems(1) by (simp_all add: join_not_Nil)
  show ?case
  proof (cases "str_len (join comma acc) + 2 + str_len n > MAX_STORED_LINE_BYTES")
    case True
    have "line_ok [n]" by (simp add: line_ok_def)
    with Cons.IH [of "[n]" "ls @ [join comma acc]"] Cons.prems obtain parts where
      "stored_loop names (ls @ [join comma acc]) n = (ls @ [join comma acc]) @ map (join comma) parts"
      "concat parts = n # names" "\<forall>part \<in> set parts. line_ok part" by auto
    with True ne Cons.prems(2) show ?thesis by (intro exI [of _ "acc # parts"]) simp
  next
    case False
    have eq: "join comma (acc @ [n]) = join comma acc @ comma @ n" using ne(2) by (rule join_snoc)
    have "line_ok (acc @ [n])" using False unfolding line_ok_def eq by simp
    with Cons.IH [of "acc @ [n]" ls] Cons.prems obtain parts where
      "stored_loop names ls (join comma acc @ comma @ n) = ls @ map (join comma) parts"
      "concat parts = acc @ n # names" "\<forall>part \<in> set parts. line_ok part" by (auto simp: eq)
    with False ne show ?thesis by (intro exI [of _ parts]) simp
  qed
qed

text \<open>
  The stored names reach the log complete and in order: the lines are the names cut into
  consecutive groups, each joined with a comma, and a line longer than 16 KiB is a single name.
\<close>

lemma stored_lines_complete:
  assumes "names \<noteq> []" "\<forall>n \<in> set names. n \<noteq> []"
  shows "\<exists>parts. stored_lines names = map (join comma) parts \<and> concat parts = names \<and>
    (\<forall>part \<in> set parts. part \<noteq> [] \<and> (length part = 1 \<or> str_len (join comma part) \<le> 16384))"
proof (cases names)
  case (Cons n ns)
  have "line_ok [n]" by (simp add: line_ok_def)
  from stored_loop_parts [OF _ this, of ns "[]"] assms(2) Cons show ?thesis
    by (auto simp: stored_lines_def line_ok_def MAX_STORED_LINE_BYTES_def)
qed (use assms in simp)

text \<open>
  A transfer's label in the log is 1 to 64 letters, digits, hyphens, underscores and full stops, so
  neither a space nor a colon from the sender can imitate the receiver's own words.
\<close>

lemma transfer_label_ok:
  "transfer_label header \<noteq> [] \<and> length (transfer_label header) \<le> 64 \<and>
   list_all (\<lambda>c. is_ascii_alphanumeric c \<or> c = 0x2d \<or> c = 0x5f \<or> c = 0x2e) (transfer_label header)"
proof -
  let ?ok = "\<lambda>c. is_ascii_alphanumeric c \<or> c = 0x2d \<or> c = 0x5f \<or> c = 0x2e"
  let ?t = "take 64 (filter ?ok header)" and ?l = "dropWhile (\<lambda>c. c = 0x2e) (take 64 (filter ?ok header))"
  have len: "length ?l \<le> 64" using length_dropWhile_le [of "\<lambda>c. c = 0x2e" ?t] by simp
  have ok: "list_all ?ok ?l"
    by (auto simp only: list_all_iff set_filter dest!: set_dropWhileD in_set_takeD)
  show ?thesis
  proof (cases "?l = []")
    case True
    then have "transfer_label header = lit ''upload''" by (simp only: transfer_label_def Let_def if_True simp_thms)
    then show ?thesis by (simp add: lit_def is_ascii_alphanumeric_def is_ascii_alphabetic_def)
  next
    case False
    then have "transfer_label header = ?l" by (simp only: transfer_label_def Let_def if_False simp_thms)
    with len ok False show ?thesis by (simp only: simp_thms)
  qed
qed

text \<open>\<open>str()\<close> and \<open>repr()\<close> of a value; how Rust shows an \<open>f64\<close>, a date or a UID is a parameter.\<close>

fun py_value_repr :: "(pvalue \<Rightarrow> ustr) \<Rightarrow> pvalue \<Rightarrow> ustr" where
  "py_value_repr shown (PString s) = py_repr s"
| "py_value_repr shown (PInt i) = (if i < 0 then lit ''-'' @ dec (nat (- i)) else dec (nat i))"
| "py_value_repr shown (PBool b) = lit (if b then ''True'' else ''False'')"
| "py_value_repr shown (PData d) = py_bytes_repr d"
| "py_value_repr shown (PArray items) = lit ''['' @ join comma (map (py_value_repr shown) items) @ lit '']''"
| "py_value_repr shown (PDict d) =
     lit ''{'' @ join comma (map (\<lambda>(k, v). py_repr k @ lit '': '' @ py_value_repr shown v) d) @ lit ''}''"
| "py_value_repr shown v = shown v"

definition py_str :: "(pvalue \<Rightarrow> ustr) \<Rightarrow> pvalue option \<Rightarrow> ustr" where [eval_defs]:
  "py_str shown value =
     (case value of None \<Rightarrow> lit ''None'' | Some (PString s) \<Rightarrow> s | Some v \<Rightarrow> py_value_repr shown v)"

definition transfer_types :: "(ustr \<times> pvalue) list \<Rightarrow> ustr list" where [eval_defs]:
  "transfer_types ask =
     (case dict_get ask (lit ''TransferType'') of
        Some (PDict d) \<Rightarrow> map fst d
      | Some (PArray a) \<Rightarrow> List.map_filter (\<lambda>v. case v of PString s \<Rightarrow> Some s | _ \<Rightarrow> None) a
      | _ \<Rightarrow> [])"

subsection \<open>Stored links\<close>

definition split_once :: "ustr \<Rightarrow> ustr \<Rightarrow> (ustr \<times> ustr) option" where [eval_defs]:
  "split_once sep s =
     map_option (\<lambda>i. (take i s, drop (i + length sep) s)) (find (\<lambda>i. starts_with (drop i s) sep) [0..<length s])"

definition link_parts :: "ustr \<Rightarrow> ustr \<times> ustr" where [eval_defs]:
  "link_parts url =
     (let rest = (case split_once (lit ''://'') url of Some (_, r) \<Rightarrow> r | None \<Rightarrow> url);
          netloc = takeWhile (\<lambda>c. c \<noteq> 0x2f \<and> c \<noteq> 0x3f \<and> c \<noteq> 0x23) rest;
          tail = drop (length netloc) rest;
          path = takeWhile (\<lambda>c. c \<noteq> 0x3f \<and> c \<noteq> 0x23) tail;
          segment = last (split_by (\<lambda>c. c = 0x2f) (trim_end_matches (\<lambda>c. c = 0x2f) path))
      in (netloc, segment))"

definition link_name :: "(ustr \<Rightarrow> ustr) \<Rightarrow> ustr \<Rightarrow> ustr" where [eval_defs]:
  "link_name nfc url =
     (let (netloc, segment) = link_parts url;
          base = safe_name nfc (join (lit ''-'') (filter (\<lambda>p. p \<noteq> []) [netloc, segment])) (lit ''link'')
      in shorten base 4 @ lit ''.url'')"

definition link_file :: "ustr \<Rightarrow> bytes" where [eval_defs]:
  "link_file url = as_bytes (lit ''[InternetShortcut]'' @ [10] @ lit ''URL='' @ url @ [10])"

definition store_link :: "os \<Rightarrow> (ustr \<Rightarrow> ustr) \<Rightarrow> ustr \<Rightarrow> disk \<Rightarrow> (ustr, io_error) result \<times> disk" where [eval_defs]:
  "store_link os nfc url dk =
     (case open_new os (link_name nfc url) dk of
        (Err e, dk') \<Rightarrow> (Err e, dk')
      | (Ok name, dk') \<Rightarrow>
          (case file_write_all os name (link_file url) dk' of
             (Err e, dk'') \<Rightarrow> (Err e, dk'')
           | (Ok _, dk'') \<Rightarrow> (Ok name, dk'')))"

lemma open_first_new:
  "open_first os cs name dk = (Ok n, dk') \<Longrightarrow> n \<in> set cs \<and> dk_files dk n = None \<and> dk_files dk' = (dk_files dk)(n \<mapsto> [])
    \<and> dk_partials dk' = dk_partials dk"
proof (induction cs arbitrary: dk)
  case (Cons c cs)
  show ?case
  proof (cases "dk_files dk c \<noteq> None")
    case True
    with Cons.prems have "open_first os cs name (tick dk) = (Ok n, dk')" by simp
    from Cons.IH [OF this] show ?thesis by (auto simp: tick_def)
  next
    case False
    show ?thesis
    proof (cases "os_place os (dk_tick dk)")
      case None
      with False Cons.prems show ?thesis by (auto simp: tick_def)
    next
      case (Some e)
      with False Cons.prems have "open_first os cs name (tick dk) = (Ok n, dk')" by (simp split: if_splits)
      from Cons.IH [OF this] show ?thesis by (auto simp: tick_def)
    qed
  qed
qed simp

lemma shorten_not_Nil:
  assumes "stem \<noteq> []" "extra \<le> 251"
  shows "shorten stem extra \<noteq> []"
  using assms
proof (induction stem extra rule: shorten.induct)
  case (1 stem extra)
  show ?case
  proof (cases "str_len stem + extra > MAX_FILE_NAME_BYTES")
    case True
    have "butlast stem \<noteq> []"
    proof
      assume "butlast stem = []"
      with 1(2) obtain c where "stem = [c]" by (cases stem) (auto split: if_splits)
      with True 1(3) utf8_len_le_4 [of c] show False by (simp add: MAX_FILE_NAME_BYTES_def)
    qed
    with 1 True show ?thesis by (simp add: shorten.simps [of stem])
  next
    case False
    with 1 show ?thesis by (simp add: shorten.simps [of stem])
  qed
qed

lemma link_name_ok: "file_name_ok (link_name nfc url)"
proof -
  obtain netloc segment where p: "link_parts url = (netloc, segment)" by fastforce
  define base where "base = safe_name nfc (join (lit ''-'') (filter (\<lambda>p. p \<noteq> []) [netloc, segment])) (lit ''link'')"
  have "file_name_ok (lit ''link'')" by (simp add: eval_defs)
  then have b: "file_name_ok base" using safe_name_cases unfolding base_def by metis
  define short where "short = shorten base 4"
  have n: "link_name nfc url = short @ lit ''.url''"
    by (simp only: link_name_def p base_def short_def Let_def prod.case)
  have ne: "short \<noteq> []" using b unfolding short_def by (intro shorten_not_Nil) (auto simp: file_name_ok_def visible_name_def)
  have "hd short \<noteq> 0x2e" "list_all (\<lambda>c. \<not> is_unsafe_char c) short"
    using b ne shorten_hd [of base 4] shorten_subset [of _ base 4]
    by (auto simp: short_def file_name_ok_def visible_name_def list_all_iff)
  moreover have "str_len short + 4 \<le> MAX_FILE_NAME_BYTES"
    unfolding short_def by (rule shorten_le) (simp add: MAX_FILE_NAME_BYTES_def)
  moreover have "str_len (lit ''.url'') = 4" "list_all (\<lambda>c. \<not> is_unsafe_char c) (lit ''.url'')"
    by (simp_all add: lit_def utf8_len_def is_unsafe_char_def)
  ultimately show ?thesis using ne unfolding n by (simp add: file_name_ok_def visible_name_def)
qed

lemma store_link_new:
  assumes "store_link os nfc url dk = (Ok name, dk')"
  shows "name \<in> set (candidate_names (link_name nfc url))" "visible_name name" "dk_files dk name = None"
    and "dk_files dk' = (dk_files dk)(name \<mapsto> link_file url)" "dk_partials dk' = dk_partials dk"
proof -
  from assms(1) obtain dk1 where o: "open_new os (link_name nfc url) dk = (Ok name, dk1)"
    "file_write_all os name (link_file url) dk1 = (Ok (), dk')"
    by (auto simp: store_link_def split: prod.splits result.splits)
  from open_first_new [OF o(1) [unfolded open_new_def]] have n: "name \<in> set (candidate_names (link_name nfc url))"
    "dk_files dk name = None" "dk_files dk1 = (dk_files dk)(name \<mapsto> [])" "dk_partials dk1 = dk_partials dk" by auto
  then show "name \<in> set (candidate_names (link_name nfc url))" "dk_files dk name = None" by simp_all
  have "visible_name (link_name nfc url)" using link_name_ok by (simp add: file_name_ok_def)
  with n(1) show "visible_name name" using candidate_name_visible by (auto simp: candidate_names_def)
  show "dk_files dk' = (dk_files dk)(name \<mapsto> link_file url)" "dk_partials dk' = dk_partials dk"
    using o(2) n by (auto simp: file_write_all_def file_append_def tick_def split: option.splits)
qed

text \<open>
  A stored link is a new, visible file in the download directory and nothing else changes; when the
  URL has no control character or white space, as \<open>/Ask\<close> requires, the file is exactly two lines, and
  the second is \<open>URL=\<close> followed by the URL.
\<close>

lemma store_link_safe:
  assumes "store_link os nfc url dk = (Ok name, dk')" "\<forall>c \<in> set url. \<not> is_control c \<and> \<not> is_whitespace c"
  shows "visible_name name \<and> dk_files dk name = None \<and> dk_partials dk' = dk_partials dk \<and>
    (\<exists>text. dk_files dk' = (dk_files dk)(name \<mapsto> as_bytes text) \<and>
      split_by (\<lambda>c. c = 10) text = [lit ''[InternetShortcut]'', lit ''URL='' @ url, []])"
proof -
  let ?t = "lit ''[InternetShortcut]'' @ [10] @ lit ''URL='' @ url @ [10]"
  have "10 \<notin> set url" using assms(2) by (auto simp: is_control_def)
  then have "\<forall>c \<in> set (lit ''URL='' @ url). \<not> c = 10" by (auto simp: lit_def)
  moreover have "\<forall>c \<in> set (lit ''[InternetShortcut]''). \<not> c = (10::nat)" by (simp add: lit_def)
  ultimately have "split_by (\<lambda>c. c = 10) (lit ''[InternetShortcut]'' @ 10 # (lit ''URL='' @ url) @ 10 # []) =
      [lit ''[InternetShortcut]'', lit ''URL='' @ url, []]"
    by (simp only: split_by_append_sep split_by.simps refl)
  then show ?thesis using store_link_new [OF assms(1)] by (intro conjI exI [of _ ?t]) (auto simp: link_file_def)
qed

definition plain_os :: os where [eval_defs]:
  "plain_os = \<lparr>os_temp = (\<lambda>_ _. Err (Plain Other [])), os_free = (\<lambda>_. Ok 0), os_write = (\<lambda>_. None), os_place = (\<lambda>_. None), os_unlink = (\<lambda>_. True)\<rparr>"

end
