(* ===== verification/Session.thy ===== *)
theory Session
  imports Head Contacts Connections
begin

text \<open>
  One connection of the receiver (omdrop-receiver/src/server.rs, \<open>Conn\<close> and \<open>Server::session\<close>): reading
  requests and serving \<open>/Discover\<close>, \<open>/Ask\<close> and \<open>/Upload\<close>. The TLS stream is a reader and a writer on one
  state, which also answers what time it is and what the two configuration files hold when they
  are read; the handshake, the log lines and the debug and certificate dumps are left out. The
  statuses answered are kept in \<open>ss_sent\<close>. Rust's \<open>Err\<close> of a handler, which ends the session, is the
  failed write.
\<close>

record settings =
  st_name :: ustr
  st_model :: ustr
  st_media :: bytes
  st_percent :: nat
  st_record :: "bytes option"
  st_min_free :: nat
  st_limits :: conn_limits

record ('s, 'z, 'g) session_env =
  se_rd :: "'s reader"
  se_wr :: "'s writer"
  se_flush :: "'s \<Rightarrow> (unit, io_error) result \<times> 's"
  se_now :: "'s \<Rightarrow> nat"
  se_wall :: "'s \<Rightarrow> int"
  se_set_wait :: "nat option \<Rightarrow> 's \<Rightarrow> 's"
  se_set_deadline :: "nat option \<Rightarrow> 's \<Rightarrow> 's"
  se_visibility_file :: "'s \<Rightarrow> bytes option"
  se_known_file :: "'s \<Rightarrow> bytes option"
  se_lower :: "ustr \<Rightarrow> ustr"
  se_hash :: "bytes \<Rightarrow> ustr"
  se_apple :: apple_checks
  se_chain :: "bytes list"
  se_head :: head_parser
  se_plist :: plist_reader
  se_binary :: "pvalue \<Rightarrow> bytes"
  se_os :: os
  se_nfc :: "ustr \<Rightarrow> ustr"
  se_zinit :: 'z
  se_zstep :: "'z \<Rightarrow> bytes \<Rightarrow> nat \<Rightarrow> (zstatus \<times> nat \<times> bytes \<times> 'z, msg) result"
  se_ginit :: 'g
  se_gread :: "'g \<Rightarrow> ('s \<times> progress) body_reader sniffed \<Rightarrow> nat
    \<Rightarrow> ((bytes, io_error) result \<times> 'g \<times> ('s \<times> progress) body_reader sniffed) option"
  se_settings :: settings

record 's session =
  ss_io :: "'s buf_reader"
  ss_disk :: disk
  ss_uploads :: nat
  ss_slot :: bool
  ss_waiting :: bool
  ss_contacts_ok :: bool
  ss_awaiting :: bool
  ss_sent :: "nat list"

datatype flow = Keep | Close

type_synonym 's handled = "(flow, io_error) result \<times> 's session"

abbreviation stream :: "'s session \<Rightarrow> 's" where
  "stream ss \<equiv> bf_inner (ss_io ss)"

definition has_body :: "request \<Rightarrow> bool" where [eval_defs]:
  "has_body req \<longleftrightarrow>
     header_get (rq_headers req) TRANSFER_ENCODING \<noteq> None \<or>
     (case header_get (rq_headers req) CONTENT_LENGTH of None \<Rightarrow> False | Some v \<Rightarrow> trim v \<noteq> lit ''0'')"

subsection \<open>Answers\<close>

definition send_response :: "('s, 'z, 'g) session_env \<Rightarrow> nat \<Rightarrow> headers \<Rightarrow> bytes \<Rightarrow> 's session
    \<Rightarrow> (unit, io_error) result \<times> 's session" where [eval_defs]:
  "send_response env status hs body ss =
     (case write_response (se_wall env (stream ss)) (se_wr env) (se_flush env) (stream ss) status hs body of
        (r, s) \<Rightarrow> (r, ss\<lparr>ss_io := (ss_io ss)\<lparr>bf_inner := s\<rparr>, ss_sent := ss_sent ss @ [status]\<rparr>))"

definition then_flow :: "flow \<Rightarrow> (unit, io_error) result \<times> 's session \<Rightarrow> 's handled" where [eval_defs]:
  "then_flow fl x = (case x of (Ok _, ss) \<Rightarrow> (Ok fl, ss) | (Err e, ss) \<Rightarrow> (Err e, ss))"

definition keep_or_close :: "request \<Rightarrow> flow" where [eval_defs]:
  "keep_or_close req = (if keep_alive req then Keep else Close)"

abbreviation length_header :: "ustr \<Rightarrow> ustr \<times> ustr" where
  "length_header n \<equiv> (lit ''Content-Length'', n)"

abbreviation close_header :: "ustr \<times> ustr" where
  "close_header \<equiv> (lit ''Connection'', lit ''close'')"

definition answer :: "('s, 'z, 'g) session_env \<Rightarrow> request \<Rightarrow> bytes \<Rightarrow> 's session \<Rightarrow> 's handled" where [eval_defs]:
  "answer env req body ss =
     then_flow (keep_or_close req) (send_response env 200 [length_header (dec (length body))] body ss)"

definition status_only :: "('s, 'z, 'g) session_env \<Rightarrow> request \<Rightarrow> nat \<Rightarrow> 's session \<Rightarrow> 's handled" where [eval_defs]:
  "status_only env req status ss =
     then_flow (keep_or_close req) (send_response env status [length_header (lit ''0'')] [] ss)"

definition reject :: "('s, 'z, 'g) session_env \<Rightarrow> nat \<Rightarrow> 's session \<Rightarrow> 's handled" where [eval_defs]:
  "reject env status ss = then_flow Close (send_response env status [length_header (lit ''0''), close_header] [] ss)"

definition send_error :: "('s, 'z, 'g) session_env \<Rightarrow> nat \<Rightarrow> 's session \<Rightarrow> (unit, io_error) result \<times> 's session" where [eval_defs]:
  "send_error env status ss = send_response env status [close_header, length_header (lit ''0'')] [] ss"

partial_function (option) drain_loop :: "('s, 'z, 'g) session_env \<Rightarrow> nat \<Rightarrow> 's buf_reader \<Rightarrow> 's buf_reader option" where
  "drain_loop env until_time io =
     (let left = until_time - se_now env (bf_inner io)
      in if left = 0 then Some io
         else (let quiet = min (cl_drain_quiet (st_limits (se_settings env))) left
               in (case bf_read (se_rd env) (io\<lparr>bf_inner := se_set_wait env (Some quiet) (bf_inner io)\<rparr>) IO_CHUNK_BYTES of
                     None \<Rightarrow> None
                   | Some (Ok bs, io') \<Rightarrow> if bs = [] then Some io' else drain_loop env until_time io'
                   | Some (Err e, io') \<Rightarrow> Some io')))"

definition drain_before_close :: "('s, 'z, 'g) session_env \<Rightarrow> 's session \<Rightarrow> 's session option" where [eval_defs]:
  "drain_before_close env ss =
     (case se_flush env (stream ss) of
        (Err e, s) \<Rightarrow> Some (ss\<lparr>ss_io := (ss_io ss)\<lparr>bf_inner := s\<rparr>\<rparr>)
      | (Ok _, s) \<Rightarrow>
          map_option (\<lambda>io. ss\<lparr>ss_io := io\<lparr>bf_inner := se_set_wait env None (bf_inner io)\<rparr>\<rparr>)
            (drain_loop env (se_now env s + cl_drain_limit (st_limits (se_settings env))) ((ss_io ss)\<lparr>bf_inner := s\<rparr>)))"

definition visibility_now :: "('s, 'z, 'g) session_env \<Rightarrow> 's session \<Rightarrow> visibility" where [eval_defs]:
  "visibility_now env ss = visibility_of (se_lower env) (se_visibility_file env (stream ss))"

definition known_now :: "('s, 'z, 'g) session_env \<Rightarrow> 's session \<Rightarrow> ustr set" where [eval_defs]:
  "known_now env ss = known_hashes (se_lower env) (se_hash env) (se_known_file env (stream ss))"

subsection \<open>/Discover and /Ask\<close>

definition as_data :: "pvalue option \<Rightarrow> bytes option" where [eval_defs]:
  "as_data v = (case v of Some (PData d) \<Rightarrow> Some d | _ \<Rightarrow> None)"

definition as_array :: "pvalue option \<Rightarrow> pvalue list" where [eval_defs]:
  "as_array v = (case v of Some (PArray vs) \<Rightarrow> vs | _ \<Rightarrow> [])"

definition base_answer :: "settings \<Rightarrow> (ustr \<times> pvalue) list" where [eval_defs]:
  "base_answer st =
     [(lit ''ReceiverComputerName'', PString (st_name st)), (lit ''ReceiverMediaCapabilities'', PData (st_media st)),
      (lit ''ReceiverModelName'', PString (st_model st)), (lit ''IsAirDropable'', PBool True)]"

definition discover_answer :: "settings \<Rightarrow> (ustr \<times> pvalue) list" where [eval_defs]:
  "discover_answer st =
     base_answer st @ (case st_record st of None \<Rightarrow> [] | Some r \<Rightarrow> [(lit ''ReceiverRecordData'', PData r)])"

definition discover :: "('s, 'z, 'g) session_env \<Rightarrow> request \<Rightarrow> bytes \<Rightarrow> 's session \<Rightarrow> 's handled" where [eval_defs]:
  "discover env req body ss =
     (let rec = Option.bind (parse_dict (se_plist env) body) (\<lambda>d. as_data (dict_get d (lit ''SenderRecordData'')))
      in if visibility_now env ss = ContactsOnly \<and> fst (decide_discovery rec (known_now env ss) (se_apple env)) \<noteq> Accept
         then status_only env req 401 ss
         else answer env req (se_binary env (PDict (discover_answer (se_settings env)))) ss)"

definition is_link :: "pvalue \<Rightarrow> ustr option" where [eval_defs]:
  "is_link item =
     (case item of
        PString u \<Rightarrow>
          if (starts_with u (lit ''http://'') \<or> starts_with u (lit ''https://''))
             \<and> \<not> list_ex (\<lambda>c. is_control c \<or> is_whitespace c) u
          then Some u else None
      | _ \<Rightarrow> None)"

fun store_links :: "os \<Rightarrow> (ustr \<Rightarrow> ustr) \<Rightarrow> pvalue list \<Rightarrow> disk \<Rightarrow> (unit, io_error) result \<times> disk" where
  "store_links os nfc [] dk = (Ok (), dk)"
| "store_links os nfc (item # items) dk =
     (case is_link item of
        None \<Rightarrow> store_links os nfc items dk
      | Some url \<Rightarrow>
          (case store_link os nfc url dk of
             (Err e, dk') \<Rightarrow> (Err e, dk')
           | (Ok _, dk') \<Rightarrow> store_links os nfc items dk'))"

definition ask_dict :: "('s, 'z, 'g) session_env \<Rightarrow> bytes \<Rightarrow> (ustr \<times> pvalue) list" where [eval_defs]:
  "ask_dict env body = (case parse_plist (se_plist env) body of Ok (PDict d) \<Rightarrow> d | _ \<Rightarrow> [])"

definition ask_decision :: "('s, 'z, 'g) session_env \<Rightarrow> bytes \<Rightarrow> 's session \<Rightarrow> outcome" where [eval_defs]:
  "ask_decision env body ss =
     fst (decide (as_data (dict_get (ask_dict env body) (lit ''SenderRecordData'')))
            (case se_chain env of [] \<Rightarrow> None | leaf # _ \<Rightarrow> Some leaf) (known_now env ss) (se_apple env))"

text \<open>An accepted Ask: its links are stored, and it is answered.\<close>

definition ask_accepted :: "('s, 'z, 'g) session_env \<Rightarrow> request \<Rightarrow> (ustr \<times> pvalue) list \<Rightarrow> 's session \<Rightarrow> 's handled" where [eval_defs]:
  "ask_accepted env req ask ss =
     (let links = (lit ''links'' \<in> set (transfer_types ask))
      in (case (if links then store_links (se_os env) (se_nfc env) (as_array (dict_get ask (lit ''Items''))) (ss_disk ss)
                else (Ok (), ss_disk ss)) of
            (Err e, dk) \<Rightarrow> reject env 507 (ss\<lparr>ss_disk := dk\<rparr>)
          | (Ok _, dk) \<Rightarrow>
              (case answer env req (se_binary env (PDict (base_answer (se_settings env)))) (ss\<lparr>ss_disk := dk\<rparr>) of
                 (Err e, ss') \<Rightarrow> (Err e, ss')
               | (Ok fl, ss') \<Rightarrow> (Ok fl, if links then ss' else ss'\<lparr>ss_awaiting := True\<rparr>))))"

definition ask :: "('s, 'z, 'g) session_env \<Rightarrow> request \<Rightarrow> bytes \<Rightarrow> 's session \<Rightarrow> 's handled" where [eval_defs]:
  "ask env req body ss =
     (let d = ask_dict env body
      in if length (as_array (dict_get d (lit ''Items''))) > MAX_ARCHIVE_MEMBERS then reject env 413 ss
         else if visibility_now env ss = ContactsOnly
         then (if ask_decision env body ss \<noteq> Accept then status_only env req 403 ss
               else ask_accepted env req d (ss\<lparr>ss_contacts_ok := True\<rparr>))
         else ask_accepted env req d ss)"

subsection \<open>/Upload\<close>

text \<open>
  During an upload the stream's state carries the progress cells next to it: the body reader's
  patience reads them, the extraction writes them.
\<close>

definition up_rd :: "'s reader \<Rightarrow> ('s \<times> progress) reader" where [eval_defs]:
  "up_rd rd sp n = map_option (\<lambda>(r, s). (r, (s, snd sp))) (rd (fst sp) n)"

definition upload_body_env :: "('s, 'z, 'g) session_env \<Rightarrow> ('s \<times> progress) body_env" where [eval_defs]:
  "upload_body_env env =
     \<lparr>be_rd = up_rd (se_rd env), be_now = (\<lambda>sp. se_now env (fst sp)),
      be_set_wait = (\<lambda>w sp. (se_set_wait env w (fst sp), snd sp)), be_whole = (\<lambda>sp. whole (snd sp))\<rparr>"

definition with_progress :: "(progress \<Rightarrow> progress) \<Rightarrow> ('s \<times> progress) body_reader \<Rightarrow> ('s \<times> progress) body_reader" where [eval_defs]:
  "with_progress f b = b\<lparr>bd_r := (bd_r b)\<lparr>bf_inner := (fst (bf_inner (bd_r b)), f (snd (bf_inner (bd_r b))))\<rparr>\<rparr>"

definition upload_env :: "('s, 'z, 'g) session_env \<Rightarrow> (('s \<times> progress) body_reader, 'z, 'g) extract_env" where [eval_defs]:
  "upload_env env =
     \<lparr>xe_dv = \<lparr>ev_read = body_read (upload_body_env env), ev_clean = (\<lambda>c. with_progress (\<lambda>p. p\<lparr>pg_clean_end := c\<rparr>)),
               ev_zinit = se_zinit env, ev_zstep = se_zstep env, ev_ginit = se_ginit env, ev_gread = se_gread env\<rparr>,
      xe_decoded = (\<lambda>k. with_progress (\<lambda>p. p\<lparr>pg_decoded := k\<rparr>)),
      xe_trailer = with_progress (\<lambda>p. p\<lparr>pg_trailer_seen := True\<rparr>),
      xe_nfc = se_nfc env\<rparr>"

definition new_upload_progress :: progress where [eval_defs]:
  "new_upload_progress = \<lparr>pg_decoded = 0, pg_trailer_seen = False, pg_clean_end = False\<rparr>"

definition upload_body :: "('s, 'z, 'g) session_env \<Rightarrow> body_plan \<Rightarrow> nat \<Rightarrow> 's session \<Rightarrow> ('s \<times> progress) body_reader" where [eval_defs]:
  "upload_body env plan limit ss =
     with_patience \<lparr>pt_step = cl_upload_step (st_limits (se_settings env)), pt_limit = cl_idle_timeout (st_limits (se_settings env))\<rparr>
       (body_new \<lparr>bf_buf = bf_buf (ss_io ss), bf_inner = (stream ss, new_upload_progress)\<rparr> plan limit
         (deadline_new (se_now env (stream ss))))"

definition io_after :: "('s \<times> progress) body_reader \<Rightarrow> 's buf_reader" where [eval_defs]:
  "io_after b = \<lparr>bf_buf = bf_buf (bd_r b), bf_inner = fst (bf_inner (bd_r b))\<rparr>"

definition failure_status :: "archive_error \<Rightarrow> nat" where [eval_defs]:
  "failure_status e =
     (case e of
        Limit _ \<Rightarrow> 413
      | Invalid _ \<Rightarrow> 422
      | Io i \<Rightarrow> (case classify i of Ok (BodyTimeout _) \<Rightarrow> 408 | Ok b \<Rightarrow> body_status b | Err _ \<Rightarrow> 507))"

text \<open>The slot guard, dropped early or when the handler returns.\<close>

definition drop_slot :: "'s session \<Rightarrow> 's session" where [eval_defs]:
  "drop_slot ss = (if ss_slot ss then ss\<lparr>ss_uploads := ss_uploads ss - 1, ss_slot := False\<rparr> else ss)"

definition finish_upload :: "('s, 'z, 'g) session_env \<Rightarrow> (extracted, archive_error) result \<Rightarrow> 's session \<Rightarrow> 's handled option" where [eval_defs]:
  "finish_upload env result ss =
     (case result of
        Err e \<Rightarrow> Some (reject env (failure_status e) ss)
      | Ok x \<Rightarrow>
          (let hs = [length_header (lit ''0''), close_header]
           in if \<not> ex_unterminated x then Some (then_flow Close (send_response env 200 hs [] ss))
              else (case send_response env 200 hs [] (drop_slot ss) of
                      (Err e, ss') \<Rightarrow> Some (Err e, ss')
                    | (Ok _, ss') \<Rightarrow> map_option (\<lambda>ss''. (Ok Close, ss'')) (drain_before_close env ss'))))"

definition receive_upload :: "('s, 'z, 'g) session_env \<Rightarrow> body_plan \<Rightarrow> nat \<Rightarrow> 's session \<Rightarrow> 's handled option" where [eval_defs]:
  "receive_upload env plan limit ss =
     (case extract_run (upload_env env) (se_os env)
             \<lparr>xl_byte_limit = limit, xl_max_members = MAX_ARCHIVE_MEMBERS, xl_min_free_bytes = st_min_free (se_settings env)\<rparr>
             (upload_body env plan limit ss) (ss_disk ss) of
        None \<Rightarrow> None
      | Some (result, body, dk) \<Rightarrow>
          (let drained = (case result of
                            Err (Limit _) \<Rightarrow> map_option snd (copy_sink (body_read (upload_body_env env)) None body 0)
                          | Err (Invalid _) \<Rightarrow> map_option snd (copy_sink (body_read (upload_body_env env)) None body 0)
                          | _ \<Rightarrow> Some body)
           in (case drained of
                 None \<Rightarrow> None
               | Some body' \<Rightarrow> finish_upload env result (ss\<lparr>ss_io := io_after body', ss_disk := dk\<rparr>))))"

definition is_expect :: "request \<Rightarrow> bool" where [eval_defs]:
  "is_expect req =
     (case header_get (rq_headers req) (lit ''Expect'') of None \<Rightarrow> False | Some v \<Rightarrow> eq_ignore_ascii_case v (lit ''100-continue''))"

definition upload_slotted :: "('s, 'z, 'g) session_env \<Rightarrow> request \<Rightarrow> 's session \<Rightarrow> 's handled option" where [eval_defs]:
  "upload_slotted env req ss =
     (case budget_of (se_os env) (st_percent (se_settings env)) (st_min_free (se_settings env)) (ss_disk ss) of
        (Err e, dk) \<Rightarrow> Some (reject env 507 (ss\<lparr>ss_disk := dk\<rparr>))
      | (Ok (Err m), dk) \<Rightarrow> Some (reject env 413 (ss\<lparr>ss_disk := dk\<rparr>))
      | (Ok (Ok b), dk) \<Rightarrow>
          (case plan_of (rq_headers req) (rb_byte_limit b) of
             Err e \<Rightarrow> Some (reject env (body_status e) (ss\<lparr>ss_disk := dk\<rparr>))
           | Ok plan \<Rightarrow>
               (case (if is_expect req then send_response env 100 [] [] (ss\<lparr>ss_disk := dk\<rparr>) else (Ok (), ss\<lparr>ss_disk := dk\<rparr>)) of
                  (Err e, ss') \<Rightarrow> Some (Err e, ss')
                | (Ok _, ss') \<Rightarrow> receive_upload env plan (rb_byte_limit b) ss')))"

definition content_type :: "('s, 'z, 'g) session_env \<Rightarrow> request \<Rightarrow> ustr" where [eval_defs]:
  "content_type env req =
     se_lower env (trim (hd (split_by (\<lambda>c. c = 0x3b)
       (case header_get (rq_headers req) (lit ''Content-Type'') of None \<Rightarrow> [] | Some v \<Rightarrow> v))))"

definition upload :: "('s, 'z, 'g) session_env \<Rightarrow> request \<Rightarrow> 's session \<Rightarrow> 's handled option" where [eval_defs]:
  "upload env req ss =
     (if visibility_now env ss = ContactsOnly \<and> \<not> ss_contacts_ok ss then Some (reject env 403 ss)
      else if content_type env req \<noteq> lit ''application/x-dvzip'' then Some (reject env 415 ss)
      else (case try_slot (ss_uploads ss) MAX_CONCURRENT_UPLOADS of
              None \<Rightarrow> Some (reject env 503 ss)
            | Some n \<Rightarrow>
                map_option (\<lambda>(r, ss'). (r, drop_slot ss'))
                  (upload_slotted env req (ss\<lparr>ss_uploads := n, ss_slot := True, ss_waiting := False\<rparr>))))"

subsection \<open>Requests\<close>

definition plain_body_env :: "('s, 'z, 'g) session_env \<Rightarrow> 's body_env" where [eval_defs]:
  "plain_body_env env =
     \<lparr>be_rd = se_rd env, be_now = se_now env, be_set_wait = se_set_wait env, be_whole = (\<lambda>_. False)\<rparr>"

definition post :: "('s, 'z, 'g) session_env \<Rightarrow> request \<Rightarrow> 's session \<Rightarrow> 's handled option" where [eval_defs]:
  "post env req ss =
     (if rq_path req = lit ''/Upload'' then upload env req ss
      else if rq_path req \<noteq> lit ''/Discover'' \<and> rq_path req \<noteq> lit ''/Ask''
      then (let close = has_body req
            in Some (then_flow (if close then Close else keep_or_close req)
                      (send_response env 400 ([length_header (lit ''0'')] @ (if close then [close_header] else [])) [] ss)))
      else (case read_small_body (plain_body_env env) (ss_io ss) (rq_headers req) MAX_METADATA_BYTES of
              None \<Rightarrow> None
            | Some (Err (BodyTimeout _), io) \<Rightarrow> Some (reject env 408 (ss\<lparr>ss_io := io\<rparr>))
            | Some (Err e, io) \<Rightarrow> Some (reject env (body_status e) (ss\<lparr>ss_io := io\<rparr>))
            | Some (Ok body, io) \<Rightarrow>
                Some ((if rq_path req = lit ''/Discover'' then discover else ask) env req body (ss\<lparr>ss_io := io\<rparr>))))"

definition handle_method :: "('s, 'z, 'g) session_env \<Rightarrow> request \<Rightarrow> 's session \<Rightarrow> 's handled option" where [eval_defs]:
  "handle_method env req ss =
     (if rq_method req = lit ''POST'' then post env req ss
      else if rq_method req = lit ''GET'' then Some (answer env req [10] ss)
      else if rq_method req = lit ''HEAD''
      then Some (then_flow (keep_or_close req) (send_response env 200 [(lit ''Content-type'', lit ''text/html'')] [] ss))
      else Some (then_flow Close (send_error env 501 ss)))"

definition handle :: "('s, 'z, 'g) session_env \<Rightarrow> request \<Rightarrow> 's session \<Rightarrow> 's handled option" where [eval_defs]:
  "handle env req ss =
     (case (if is_expect req \<and> rq_minor req \<ge> 1 \<and> rq_path req \<noteq> lit ''/Upload'' then send_response env 100 [] [] ss
            else (Ok (), ss)) of
        (Err e, ss') \<Rightarrow> Some (Err e, ss')
      | (Ok _, ss') \<Rightarrow>
          (case handle_method env req ss' of
             None \<Rightarrow> None
           | Some (Err e, ss'') \<Rightarrow> Some (Err e, ss'')
           | Some (Ok fl, ss'') \<Rightarrow> Some (Ok (if rq_method req \<noteq> lit ''POST'' \<and> has_body req then Close else fl), ss'')))"

text \<open>The wait for an upload's first byte; \<open>True\<close> when the session goes on.\<close>

definition await_upload :: "('s, 'z, 'g) session_env \<Rightarrow> 's session \<Rightarrow> (bool \<times> 's session) option" where [eval_defs]:
  "await_upload env ss =
     (if \<not> ss_awaiting ss then Some (True, ss)
      else (let wait = cl_upload_wait (st_limits (se_settings env));
                io = (ss_io ss)\<lparr>bf_inner := se_set_wait env (Some wait) (stream ss)\<rparr>
            in (case bf_fill (se_rd env) io of
                  None \<Rightarrow> None
                | Some (r, io') \<Rightarrow>
                    Some (case r of Ok bs \<Rightarrow> bs \<noteq> [] | Err _ \<Rightarrow> False,
                          ss\<lparr>ss_io := io'\<lparr>bf_inner := se_set_wait env None (bf_inner io')\<rparr>, ss_awaiting := False\<rparr>))))"

text \<open>One turn of the session's loop: the wait, a request's head, its handler. \<open>Close\<close> ends the loop.\<close>

definition serve_head :: "('s, 'z, 'g) session_env \<Rightarrow> (request, head_error) result \<Rightarrow> 's session \<Rightarrow> (flow \<times> 's session) option" where [eval_defs]:
  "serve_head env head ss =
     (case head of
        Err (HeadBad status m line) \<Rightarrow> Some (Close, snd (send_error env status ss))
      | Err _ \<Rightarrow> Some (Close, ss)
      | Ok req \<Rightarrow> map_option (\<lambda>(r, ss'). (case r of Ok fl \<Rightarrow> fl | Err _ \<Rightarrow> Close, ss')) (handle env req ss))"

definition session_turn :: "('s, 'z, 'g) session_env \<Rightarrow> 's session \<Rightarrow> (flow \<times> 's session) option" where [eval_defs]:
  "session_turn env ss0 =
     (case await_upload env (ss0\<lparr>ss_waiting := True\<rparr>) of
        None \<Rightarrow> None
      | Some (goes_on, ss) \<Rightarrow>
          if \<not> goes_on then Some (Close, ss)
          else (let deadline = se_now env (stream ss) + cl_head_deadline (st_limits (se_settings env));
                    io = (ss_io ss)\<lparr>bf_inner := se_set_deadline env (Some deadline) (stream ss)\<rparr>
                in (case read_request (se_head env) (se_rd env) io of
                      None \<Rightarrow> None
                    | Some (head, io') \<Rightarrow>
                        serve_head env head (ss\<lparr>ss_io := io'\<lparr>bf_inner := se_set_deadline env None (bf_inner io')\<rparr>\<rparr>))))"

partial_function (option) session_loop :: "('s, 'z, 'g) session_env \<Rightarrow> 's session \<Rightarrow> 's session option" where
  "session_loop env ss =
     (case session_turn env ss of
        None \<Rightarrow> None
      | Some x \<Rightarrow> if fst x = Keep then session_loop env (snd x) else Some (snd x))"

definition session_start :: "'s buf_reader \<Rightarrow> disk \<Rightarrow> nat \<Rightarrow> 's session" where [eval_defs]:
  "session_start io dk uploads =
     \<lparr>ss_io = io, ss_disk = dk, ss_uploads = uploads, ss_slot = False, ss_waiting = True, ss_contacts_ok = False,
      ss_awaiting = False, ss_sent = []\<rparr>"

subsection \<open>What every session keeps\<close>

lemma head_lines_status:
  fixes rd :: "'s reader"
  assumes "head_lines rd b head n rl = Some (Err (HeadBad status m line), b')"
  shows "status = 431"
proof -
  define P where "P rd b head n rl x \<longleftrightarrow> (\<forall>status m line. fst x = Err (HeadBad status m line) \<longrightarrow> status = 431)"
    for rd :: "'s reader" and b :: "'s buf_reader" and head :: bytes and n :: nat and rl :: ustr
      and x :: "(bytes, head_error) result \<times> 's buf_reader"
  have "P rd b head n rl (Err (HeadBad status m line), b')"
  proof (rule head_lines.raw_induct [OF _ assms])
    fix hl rd b head n rl y
    assume IH: "\<And>rd b head n rl y. hl rd b head n rl = Some y \<Longrightarrow> P rd b head n rl y"
      and b: "(case read_line rd b (MAX_LINE_BYTES + 1) of
          None \<Rightarrow> None
        | Some (Err e, b') \<Rightarrow> Some (Err (HeadIo e), b')
        | Some (Ok line, b') \<Rightarrow>
            if length line > MAX_LINE_BYTES
            then Some (Err (HeadBad 431 [T ''Line too long''] rl), b')
            else if line = [] \<or> line = CRLF \<or> line = [NEWLINE] then Some (Ok (head @ line), b')
            else if n + 1 > MAX_HEADERS
            then Some (Err (HeadBad 431 [T ''Too many headers''] rl), b')
            else hl rd b' (head @ line) (n + 1) rl) = Some y"
    from b obtain x b' where x: "read_line rd b (MAX_LINE_BYTES + 1) = Some (x, b')" by (auto split: option.splits)
    show "P rd b head n rl y"
    proof (cases x)
      case (Ok line)
      with b x IH [of rd b' "head @ line" "n + 1" rl y] show ?thesis by (auto simp: P_def split: if_splits)
    qed (use b x in \<open>auto simp: P_def\<close>)
  qed
  then show ?thesis by (simp add: P_def)
qed

lemma read_request_status:
  assumes "read_request parse rd b = Some (Err (HeadBad status m line), b')"
  shows "reason status \<noteq> []"
proof -
  have "status = 431 \<or> status = 414 \<or> status = 400"
    using assms
    by (auto simp: read_request_def request_of_head_def bad_syntax_def Let_def dest!: head_lines_status
        split: option.splits result.splits if_splits)
  then show ?thesis by (auto simp: reason_def)
qed

lemma body_status_reason [simp]: "reason (body_status e) \<noteq> []"
  by (auto simp: body_status_def reason_def split: body_error.splits)

lemma failure_status_reason [simp]: "reason (failure_status e) \<noteq> []"
  by (auto simp: failure_status_def body_status_def reason_def split: body_error.splits archive_error.splits result.splits)

lemma snd_then_flow [simp]: "snd (then_flow fl x) = snd x"
  by (auto simp: then_flow_def split: prod.splits result.splits)

text \<open>
  A session's state is kept by every request if it is kept by the stream moving, by an answer with a
  status the server has a reason for, and by the two handlers that store something.
\<close>

locale session_invariant =
  fixes env :: "('s, 'z, 'g) session_env" and inv :: "'s session \<Rightarrow> bool"
  assumes stream_moves: "inv ss \<Longrightarrow> inv (ss\<lparr>ss_io := io\<rparr>)"
    and answered: "inv ss \<Longrightarrow> reason status \<noteq> [] \<Longrightarrow> inv (ss\<lparr>ss_sent := ss_sent ss @ [status]\<rparr>)"
    and waits: "inv ss \<Longrightarrow> inv (ss\<lparr>ss_waiting := w\<rparr>)"
    and awaits: "inv ss \<Longrightarrow> inv (ss\<lparr>ss_awaiting := w\<rparr>)"
    and allowed: "inv ss \<Longrightarrow> visibility_now env ss = ContactsOnly \<Longrightarrow> ask_decision env body ss = Accept
        \<Longrightarrow> inv (ss\<lparr>ss_contacts_ok := True\<rparr>)"
    and links_stored: "inv ss \<Longrightarrow> visibility_now env ss \<noteq> ContactsOnly \<or> ss_contacts_ok ss
        \<Longrightarrow> inv (ss\<lparr>ss_disk := snd (store_links (se_os env) (se_nfc env) items (ss_disk ss))\<rparr>)"
    and uploaded: "inv ss \<Longrightarrow> visibility_now env ss \<noteq> ContactsOnly \<or> ss_contacts_ok ss
        \<Longrightarrow> upload_slotted env req (ss\<lparr>ss_uploads := Suc (ss_uploads ss), ss_slot := True, ss_waiting := False\<rparr>) = Some (r, ss')
        \<Longrightarrow> inv (drop_slot ss')"
begin

lemma inv_send: "inv ss \<Longrightarrow> reason status \<noteq> [] \<Longrightarrow> inv (snd (send_response env status hs body ss))"
proof -
  assume a: "inv ss" "reason status \<noteq> []"
  obtain r s where w: "write_response (se_wall env (stream ss)) (se_wr env) (se_flush env) (stream ss) status hs body = (r, s)"
    by fastforce
  from answered [OF stream_moves [OF a(1), of "(ss_io ss)\<lparr>bf_inner := s\<rparr>"] a(2)] w show ?thesis
    by (simp add: send_response_def)
qed

lemma inv_reject: "inv ss \<Longrightarrow> reason status \<noteq> [] \<Longrightarrow> inv (snd (reject env status ss))"
  and inv_status_only: "inv ss \<Longrightarrow> reason status \<noteq> [] \<Longrightarrow> inv (snd (status_only env req status ss))"
  and inv_answer: "inv ss \<Longrightarrow> inv (snd (answer env req body ss))"
  and inv_send_error: "inv ss \<Longrightarrow> reason status \<noteq> [] \<Longrightarrow> inv (snd (send_error env status ss))"
  by (auto simp: reject_def status_only_def answer_def send_error_def intro!: inv_send) (simp add: reason_def)

lemma inv_discover: "inv ss \<Longrightarrow> inv (snd (discover env req body ss))"
  by (auto simp: discover_def Let_def reason_def intro!: inv_status_only inv_answer)

lemma inv_ask_accepted:
  assumes "inv ss" "visibility_now env ss \<noteq> ContactsOnly \<or> ss_contacts_ok ss"
  shows "inv (snd (ask_accepted env req d ss))"
proof -
  obtain r dk where st: "(if lit ''links'' \<in> set (transfer_types d)
      then store_links (se_os env) (se_nfc env) (as_array (dict_get d (lit ''Items''))) (ss_disk ss)
      else (Ok (), ss_disk ss)) = (r, dk)" by fastforce
  have "inv (ss\<lparr>ss_disk := dk\<rparr>)"
    using links_stored [OF assms, of "as_array (dict_get d (lit ''Items''))"] assms(1) st by (auto split: if_splits)
  from inv_reject [OF this, of 507] inv_answer [OF this, of req "se_binary env (PDict (base_answer (se_settings env)))"]
  show ?thesis unfolding ask_accepted_def Let_def st
    by (auto simp: reason_def intro: awaits split: result.splits prod.splits)
qed

lemma inv_ask: "inv ss \<Longrightarrow> inv (snd (ask env req body ss))"
  unfolding ask_def Let_def
  by (auto simp: reason_def intro!: inv_reject inv_status_only inv_ask_accepted allowed [of _ body])

lemma inv_upload:
  assumes "inv ss" "upload env req ss = Some (r, ss')"
  shows "inv ss'"
proof (cases "visibility_now env ss = ContactsOnly \<and> \<not> ss_contacts_ok ss")
  case True
  with assms inv_reject [of ss 403] show ?thesis by (auto simp: upload_def reason_def dest!: arg_cong [of _ _ snd])
next
  case False
  then have ok: "visibility_now env ss \<noteq> ContactsOnly \<or> ss_contacts_ok ss" by blast
  show ?thesis
  proof (cases "content_type env req = lit ''application/x-dvzip'' \<and> try_slot (ss_uploads ss) MAX_CONCURRENT_UPLOADS \<noteq> None")
    case True
    then have "try_slot (ss_uploads ss) MAX_CONCURRENT_UPLOADS = Some (Suc (ss_uploads ss))"
      by (auto simp: try_slot_def split: if_splits)
    with assms(2) True ok obtain ss1
      where "upload_slotted env req (ss\<lparr>ss_uploads := Suc (ss_uploads ss), ss_slot := True, ss_waiting := False\<rparr>) = Some (r, ss1)"
        "ss' = drop_slot ss1" by (auto simp: upload_def)
    with uploaded [OF assms(1) ok] show ?thesis by blast
  next
    case False
    with assms(2) ok have "Some (r, ss') = Some (reject env 415 ss) \<or> Some (r, ss') = Some (reject env 503 ss)"
      by (auto simp: upload_def split: if_splits)
    with inv_reject [OF assms(1), of 415] inv_reject [OF assms(1), of 503] show ?thesis
      by (auto simp: reason_def dest!: arg_cong [of _ _ snd])
  qed
qed

lemma inv_post:
  assumes "inv ss" "post env req ss = Some (r, ss')"
  shows "inv ss'"
proof -
  consider (up) "upload env req ss = Some (r, ss')"
    | (other) hs where "ss' = snd (send_response env 400 hs [] ss)"
    | (bad) io status where "ss' = snd (reject env status (ss\<lparr>ss_io := io\<rparr>))" "reason status \<noteq> []"
    | (small) io body where "ss' = snd (discover env req body (ss\<lparr>ss_io := io\<rparr>)) \<or> ss' = snd (ask env req body (ss\<lparr>ss_io := io\<rparr>))"
  proof (cases "rq_path req = lit ''/Upload'' \<or> rq_path req \<noteq> lit ''/Discover'' \<and> rq_path req \<noteq> lit ''/Ask''")
    case True
    with assms(2) that(1,2) show thesis by (force simp: post_def Let_def split: if_splits dest!: arg_cong [of _ _ snd])
  next
    case False
    with assms(2) obtain x io where x: "read_small_body (plain_body_env env) (ss_io ss) (rq_headers req) MAX_METADATA_BYTES = Some (x, io)"
      by (auto simp: post_def split: option.splits if_splits)
    show thesis
    proof (cases x)
      case (Ok body)
      with assms(2) False x that(4) [of body io] show thesis
        by (auto simp: post_def split: if_splits dest!: arg_cong [of _ _ snd])
    next
      case (Err e)
      with assms(2) False x have "Some (r, ss') = Some (reject env (body_status e) (ss\<lparr>ss_io := io\<rparr>))"
        by (auto simp: post_def body_status_def split: if_splits body_error.splits)
      then show thesis using that(3) [of "body_status e" io] by (simp flip: snd_conv) (metis snd_conv)
    qed
  qed
  then show ?thesis
  proof cases
    case up then show ?thesis by (rule inv_upload [OF assms(1)])
  next
    case other then show ?thesis using inv_send [OF assms(1), of 400] by (simp add: reason_def)
  next
    case bad then show ?thesis using inv_reject [OF stream_moves [OF assms(1)]] by blast
  next
    case small then show ?thesis using inv_discover [OF stream_moves [OF assms(1)]] inv_ask [OF stream_moves [OF assms(1)]] by blast
  qed
qed

end

context session_invariant
begin

lemma inv_method:
  assumes "inv ss" "handle_method env req ss = Some (r, ss')"
  shows "inv ss'"
proof (cases "rq_method req = lit ''POST''")
  case True
  with assms inv_post show ?thesis by (auto simp: handle_method_def)
next
  case False
  with assms(2) consider "ss' = snd (answer env req [10] ss)"
    | "ss' = snd (send_response env 200 [(lit ''Content-type'', lit ''text/html'')] [] ss)"
    | "ss' = snd (send_error env 501 ss)"
    by (auto simp: handle_method_def split: if_splits dest!: arg_cong [of _ _ snd])
  then show ?thesis
    using inv_answer [OF assms(1)] inv_send [OF assms(1), of 200] inv_send_error [OF assms(1), of 501]
    by cases (simp_all add: reason_def)
qed

lemma inv_handle:
  assumes "inv ss" "handle env req ss = Some (r, ss')"
  shows "inv ss'"
proof -
  obtain x ss1 where s: "(if is_expect req \<and> rq_minor req \<ge> 1 \<and> rq_path req \<noteq> lit ''/Upload''
      then send_response env 100 [] [] ss else (Ok (), ss)) = (x, ss1)" by fastforce
  then have i: "inv ss1"
    using assms(1) inv_send [OF assms(1), of 100 "[]" "[]"] by (auto simp: reason_def split: if_splits)
  show ?thesis
  proof (cases x)
    case (Ok u)
    with assms(2) s obtain y where "handle_method env req ss1 = Some (y, ss')"
      by (auto simp: handle_def split: option.splits result.splits)
    with i show ?thesis by (rule inv_method)
  next
    case (Err e)
    with assms(2) s i show ?thesis by (auto simp: handle_def)
  qed
qed

lemma inv_await:
  assumes "inv ss" "await_upload env ss = Some (b, ss')"
  shows "inv ss'"
proof -
  have "\<exists>io. ss' = ss \<or> ss' = ss\<lparr>ss_io := io\<rparr>\<lparr>ss_awaiting := False\<rparr>"
    using assms(2) by (force simp: await_upload_def Let_def split: if_splits option.splits prod.splits)
  with awaits [OF stream_moves [OF assms(1)], of False] assms(1) show ?thesis by auto
qed

lemma inv_turn:
  assumes "inv ss0" "session_turn env ss0 = Some (fl, ss')"
  shows "inv ss'"
proof -
  obtain b ss where a: "await_upload env (ss0\<lparr>ss_waiting := True\<rparr>) = Some (b, ss)"
    using assms(2) by (cases "await_upload env (ss0\<lparr>ss_waiting := True\<rparr>)") (auto simp: session_turn_def)
  from inv_await [OF waits [OF assms(1)] a] have i: "inv ss" .
  show ?thesis
  proof (cases b)
    case False
    with a assms(2) i show ?thesis by (simp add: session_turn_def)
  next
    case True
    let ?io = "(ss_io ss)\<lparr>bf_inner := se_set_deadline env (Some (se_now env (stream ss) + cl_head_deadline (st_limits (se_settings env)))) (stream ss)\<rparr>"
    obtain head io where h: "read_request (se_head env) (se_rd env) ?io = Some (head, io)"
      using assms(2) a True by (cases "read_request (se_head env) (se_rd env) ?io") (auto simp: session_turn_def Let_def)
    define ss1 where "ss1 = ss\<lparr>ss_io := io\<lparr>bf_inner := se_set_deadline env None (bf_inner io)\<rparr>\<rparr>"
    have i1: "inv ss1" unfolding ss1_def by (rule stream_moves [OF i])
    have sh: "serve_head env head ss1 = Some (fl, ss')"
      using assms(2) a True h by (simp add: session_turn_def Let_def ss1_def)
    show ?thesis
    proof (cases head)
      case (Ok req)
      with sh inv_handle [OF i1] show ?thesis by (auto simp: serve_head_def)
    next
      case (Err e)
      show ?thesis
      proof (cases e)
        case (HeadBad status m line)
        with sh Err inv_send_error [OF i1 read_request_status [OF h [unfolded Err HeadBad]]] show ?thesis
          by (auto simp: serve_head_def)
      qed (use sh Err i1 in \<open>auto simp: serve_head_def\<close>)
    qed
  qed
qed

lemma inv_session:
  assumes "session_loop env ss = Some ss'" "inv ss"
  shows "inv ss'"
proof -
  define P where "P e ss x \<longleftrightarrow> (e = env \<and> inv ss \<longrightarrow> inv x)" for e :: "('s, 'z, 'g) session_env" and ss x
  have "P env ss ss'"
  proof (rule session_loop.raw_induct [OF _ assms(1)])
    fix sl e ss y
    assume IH: "\<And>e ss y. sl e ss = Some y \<Longrightarrow> P e ss y"
      and b: "(case session_turn e ss of None \<Rightarrow> None | Some x \<Rightarrow> if fst x = Keep then sl e (snd x) else Some (snd x)) = Some y"
    then obtain x where x: "session_turn e ss = Some x" "(if fst x = Keep then sl e (snd x) else Some (snd x)) = Some y"
      by (auto split: option.splits)
    with IH [of e "snd x" y] inv_turn [of ss "fst x" "snd x"] show "P e ss y" by (auto simp: P_def split: if_splits)
  qed
  with assms(2) show ?thesis by (simp add: P_def)
qed

end

subsection \<open>Uploads inside a session\<close>

text \<open>How a slotted upload leaves the session: what of its state it can change.\<close>

lemma reject_fields [simp]:
  "ss_disk (snd (reject env status ss)) = ss_disk ss" "ss_contacts_ok (snd (reject env status ss)) = ss_contacts_ok ss"
  "ss_uploads (snd (reject env status ss)) = ss_uploads ss" "ss_slot (snd (reject env status ss)) = ss_slot ss"
  "ss_sent (snd (reject env status ss)) = ss_sent ss @ [status]"
  by (simp_all add: reject_def then_flow_def send_response_def split: prod.splits result.splits)

lemma send_response_fields [simp]:
  "ss_disk (snd (send_response env status hs body ss)) = ss_disk ss"
  "ss_contacts_ok (snd (send_response env status hs body ss)) = ss_contacts_ok ss"
  "ss_uploads (snd (send_response env status hs body ss)) = ss_uploads ss"
  "ss_slot (snd (send_response env status hs body ss)) = ss_slot ss"
  "ss_sent (snd (send_response env status hs body ss)) = ss_sent ss @ [status]"
  by (simp_all add: send_response_def split: prod.splits)

lemma drain_fields:
  "drain_before_close env ss = Some ss' \<Longrightarrow>
     ss_disk ss' = ss_disk ss \<and> ss_contacts_ok ss' = ss_contacts_ok ss \<and> ss_uploads ss' = ss_uploads ss
     \<and> ss_slot ss' = ss_slot ss \<and> ss_sent ss' = ss_sent ss"
  by (auto simp: drain_before_close_def split: prod.splits result.splits)

lemma drop_slot_fields [simp]:
  "ss_disk (drop_slot ss) = ss_disk ss" "ss_contacts_ok (drop_slot ss) = ss_contacts_ok ss" "ss_sent (drop_slot ss) = ss_sent ss"
  "\<not> ss_slot (drop_slot ss)" "drop_slot (drop_slot ss) = drop_slot ss"
  "ss_uploads (drop_slot ss) = ss_uploads ss - (if ss_slot ss then 1 else 0)"
  by (simp_all add: drop_slot_def)

lemma finish_upload_fields:
  assumes "finish_upload env result ss = Some (r, ss')"
  shows "ss_disk ss' = ss_disk ss" "ss_contacts_ok ss' = ss_contacts_ok ss"
    "ss_uploads (drop_slot ss') = ss_uploads (drop_slot ss)"
    "ss_sent ss' = ss_sent ss @ [case result of Ok _ \<Rightarrow> 200 | Err e \<Rightarrow> failure_status e]"
proof -
  let ?hs = "[length_header (lit ''0''), close_header]"
  consider (fails) e where "result = Err e" "ss' = snd (reject env (failure_status e) ss)"
    | (plain) x where "result = Ok x" "ss' = snd (send_response env 200 ?hs [] ss)"
    | (early) x where "result = Ok x" "ss' = snd (send_response env 200 ?hs [] (drop_slot ss))"
    | (drained) x where "result = Ok x" "drain_before_close env (snd (send_response env 200 ?hs [] (drop_slot ss))) = Some ss'"
  proof (cases result)
    case (Err e)
    with assms have "ss' = snd (reject env (failure_status e) ss)" by (simp add: finish_upload_def flip: snd_conv)
    with Err that(1) show thesis by blast
  next
    case (Ok x)
    show thesis
    proof (cases "ex_unterminated x")
      case False
      with Ok assms have "then_flow Close (send_response env 200 ?hs [] ss) = (r, ss')" by (simp add: finish_upload_def Let_def)
      then have "ss' = snd (send_response env 200 ?hs [] ss)" by (metis snd_conv snd_then_flow)
      with Ok that(2) show thesis by blast
    next
      case True
      obtain y ss1 where y: "send_response env 200 ?hs [] (drop_slot ss) = (y, ss1)" by fastforce
      show thesis
      proof (cases y)
        case (Ok u)
        with True y assms \<open>result = Ok x\<close> have "drain_before_close env ss1 = Some ss'"
          by (auto simp: finish_upload_def Let_def)
        with y \<open>result = Ok x\<close> that(4) show thesis by simp
      next
        case (Err e)
        with True y assms \<open>result = Ok x\<close> have "ss1 = ss'" by (auto simp: finish_upload_def Let_def)
        with y \<open>result = Ok x\<close> that(3) show thesis by simp
      qed
    qed
  qed
  then have "ss_disk ss' = ss_disk ss \<and> ss_contacts_ok ss' = ss_contacts_ok ss \<and>
    ss_uploads (drop_slot ss') = ss_uploads (drop_slot ss) \<and>
    ss_sent ss' = ss_sent ss @ [case result of Ok _ \<Rightarrow> 200 | Err e \<Rightarrow> failure_status e]"
  proof cases
    case fails then show ?thesis by simp
  next
    case plain then show ?thesis by simp
  next
    case early then show ?thesis by simp
  next
    case drained
    from drained(1) drain_fields [OF drained(2)] show ?thesis by simp
  qed
  then show "ss_disk ss' = ss_disk ss" "ss_contacts_ok ss' = ss_contacts_ok ss"
    "ss_uploads (drop_slot ss') = ss_uploads (drop_slot ss)"
    "ss_sent ss' = ss_sent ss @ [case result of Ok _ \<Rightarrow> 200 | Err e \<Rightarrow> failure_status e]"
    by blast+
qed

text \<open>
  An upload with a slot is refused before anything is read, or it is one run of the extraction,
  answered 200 if and only if that succeeded. The free space is looked up first; \<open>dk0\<close> is the
  directory then.
\<close>

lemma budget_of_files: "budget_of os p m dk = (r, dk') \<Longrightarrow> dk_files dk' = dk_files dk \<and> dk_partials dk' = dk_partials dk"
  by (auto simp: budget_of_def free_bytes_def tick_def split: prod.splits result.splits)

text \<open>The body of a request: what its headers frame, as it is read from the connection, after the 100 if there is one.\<close>

definition body_of_request :: "('s, 'z, 'g) session_env \<Rightarrow> request \<Rightarrow> 's session \<Rightarrow> nat \<Rightarrow> ('s \<times> progress) body_reader \<Rightarrow> bool" where
  "body_of_request env req ss limit body \<longleftrightarrow>
     (\<exists>plan. plan_of (rq_headers req) limit = Ok plan
        \<and> body = upload_body env plan limit (if is_expect req then snd (send_response env 100 [] [] ss) else ss))"

lemma send_response_io: "ss_io ss = ss_io ss' \<Longrightarrow> ss_io (snd (send_response env st hs bs ss)) = ss_io (snd (send_response env st hs bs ss'))"
  by (simp add: send_response_def split: prod.splits)

lemma body_of_request_cong: "ss_io ss = ss_io ss' \<Longrightarrow> body_of_request env req ss limit body = body_of_request env req ss' limit body"
  using send_response_io [of ss ss' env 100 "[]" "[]"] by (simp add: body_of_request_def upload_body_def)

definition extraction_of :: "('s, 'z, 'g) session_env \<Rightarrow> nat \<Rightarrow> ('s \<times> progress) body_reader \<Rightarrow> disk \<Rightarrow> (extracted, archive_error) result \<Rightarrow> disk \<Rightarrow> bool" where
  "extraction_of env limit body dk result dk' \<longleftrightarrow>
     (\<exists>limits b. extract_run (upload_env env) (se_os env) limits body dk = Some (result, b, dk')
        \<and> xl_byte_limit limits = limit \<and> xl_max_members limits = MAX_ARCHIVE_MEMBERS)"

lemma receive_upload_cases:
  assumes "receive_upload env plan limit ss = Some (r, ss')"
  obtains result where "extraction_of env limit (upload_body env plan limit ss) (ss_disk ss) result (ss_disk ss')"
    "ss_sent ss' = ss_sent ss @ [case result of Ok _ \<Rightarrow> 200 | Err e \<Rightarrow> failure_status e]"
    "ss_contacts_ok ss' = ss_contacts_ok ss" "ss_uploads (drop_slot ss') = ss_uploads (drop_slot ss)"
proof -
  let ?l = "\<lparr>xl_byte_limit = limit, xl_max_members = MAX_ARCHIVE_MEMBERS, xl_min_free_bytes = st_min_free (se_settings env)\<rparr>"
  obtain result body dk where x: "extract_run (upload_env env) (se_os env) ?l (upload_body env plan limit ss) (ss_disk ss) = Some (result, body, dk)"
    using assms by (cases "extract_run (upload_env env) (se_os env) ?l (upload_body env plan limit ss) (ss_disk ss)")
      (auto simp: receive_upload_def)
  obtain body' where f: "finish_upload env result (ss\<lparr>ss_io := io_after body', ss_disk := dk\<rparr>) = Some (r, ss')"
    using assms x by (auto simp: receive_upload_def Let_def split: option.splits)
  note fs = finish_upload_fields [OF f]
  have "extraction_of env limit (upload_body env plan limit ss) (ss_disk ss) result (ss_disk ss')"
    using x fs(1) unfolding extraction_of_def by (intro exI [of _ ?l] exI conjI) auto
  moreover have "ss_uploads (drop_slot ss') = ss_uploads (drop_slot ss)" using fs(3) by simp
  ultimately show thesis using that fs(2,4) by simp
qed

lemma upload_slotted_cases:
  assumes "upload_slotted env req ss = Some (r, ss')"
  obtains (refused) status where "dk_files (ss_disk ss') = dk_files (ss_disk ss)" "dk_partials (ss_disk ss') = dk_partials (ss_disk ss)"
      "ss_sent ss' = ss_sent ss @ [status]" "status \<noteq> 200" "reason status \<noteq> []"
      "ss_contacts_ok ss' = ss_contacts_ok ss" "ss_uploads (drop_slot ss') = ss_uploads (drop_slot ss)"
    | (ran) dk0 result pre limit body where "dk_files dk0 = dk_files (ss_disk ss)" "dk_partials dk0 = dk_partials (ss_disk ss)"
      "extraction_of env limit body dk0 result (ss_disk ss')" "set pre \<subseteq> {100}"
      "ss_sent ss' = ss_sent ss @ pre @ [case result of Ok _ \<Rightarrow> 200 | Err e \<Rightarrow> failure_status e]"
      "ss_contacts_ok ss' = ss_contacts_ok ss" "ss_uploads (drop_slot ss') = ss_uploads (drop_slot ss)"
      "body_of_request env req ss limit body"
proof -
  obtain br dk where b: "budget_of (se_os env) (st_percent (se_settings env)) (st_min_free (se_settings env)) (ss_disk ss) = (br, dk)"
    by fastforce
  note dk = budget_of_files [OF b]
  let ?ss = "ss\<lparr>ss_disk := dk\<rparr>"
  have rej: thesis if s: "ss' = snd (reject env status ?ss)" "status \<noteq> 200" "reason status \<noteq> []" for status
    unfolding drop_slot_fields using refused [of status] s dk by simp
  show thesis
  proof (cases "\<exists>bg plan. br = Ok (Ok bg) \<and> plan_of (rq_headers req) (rb_byte_limit bg) = Ok plan")
    case False
    with assms b consider "reject env 507 ?ss = (r, ss')" | "reject env 413 ?ss = (r, ss')"
      | e where "reject env (body_status e) ?ss = (r, ss')"
      by (auto simp: upload_slotted_def split: result.splits)
    then show thesis
    proof cases
      case 1 then show thesis using rej [of 507] by (simp add: reason_def)
    next
      case 2 then show thesis using rej [of 413] by (simp add: reason_def)
    next
      case 3
      moreover have "body_status e \<noteq> 200" by (simp add: body_status_def split: body_error.splits)
      ultimately show thesis using rej [of "body_status e"] by simp
    qed
  next
    case True
    then obtain bg plan where p: "br = Ok (Ok bg)" "plan_of (rq_headers req) (rb_byte_limit bg) = Ok plan" by blast
    obtain x ss1 where s: "(if is_expect req then send_response env 100 [] [] ?ss else (Ok (), ?ss)) = (x, ss1)" by fastforce
    then have is1: "ss1 = (if is_expect req then snd (send_response env 100 [] [] ?ss) else ?ss)" by (auto split: if_splits)
    have ss1: "ss_disk ss1 = dk" "ss_contacts_ok ss1 = ss_contacts_ok ss" "ss_uploads ss1 = ss_uploads ss" "ss_slot ss1 = ss_slot ss"
      unfolding is1 by simp_all
    define pre where "pre = (if is_expect req then [100::nat] else [])"
    have pre: "ss_sent ss1 = ss_sent ss @ pre" "set pre \<subseteq> {100}" "is_expect req \<Longrightarrow> pre = [100]"
      unfolding is1 pre_def by auto
    show thesis
    proof (cases x)
      case (Ok u)
      with assms b p s have ru: "receive_upload env plan (rb_byte_limit bg) ss1 = Some (r, ss')" by (simp add: upload_slotted_def)
      have "ss_io ss1 = ss_io (if is_expect req then snd (send_response env 100 [] [] ss) else ss)"
        unfolding is1 using send_response_io [of ?ss ss env 100 "[]" "[]"] by simp
      then have "body_of_request env req ss (rb_byte_limit bg) (upload_body env plan (rb_byte_limit bg) ss1)"
        using p(2) by (simp add: body_of_request_def upload_body_def)
      with ru show thesis
        by (elim receive_upload_cases) (rule ran [of dk "rb_byte_limit bg" "upload_body env plan (rb_byte_limit bg) ss1" _ pre], use dk ss1 pre in auto)
    next
      case (Err e)
      with s have "is_expect req" by (auto split: if_splits)
      moreover from Err assms b p s have "ss' = ss1" by (simp add: upload_slotted_def)
      ultimately show thesis using refused [of 100] ss1 pre dk by (simp add: reason_def)
    qed
  qed
qed

end
