(* ===== verification/Members.thy ===== *)
theory Members
  imports Extract
begin

text \<open>
  What an upload holds and what of it is stored. The first is said with no store in mind, over the reader of the CPIO archive alone:
  \<open>archive_holds\<close> is the list of its files, \<open>whole_archive\<close> that of an upload which is read to its end. The second is
  \<open>stored_members\<close>. A successful \<open>extract\<close> stores exactly what the upload holds.
\<close>

section \<open>What an archive holds\<close>

text \<open>The data of the member a reader stands at, to its end, in pieces of any size.\<close>

inductive member_data :: "'s reader \<Rightarrow> 's cpio_reader \<Rightarrow> bytes \<Rightarrow> 's cpio_reader \<Rightarrow> bool" for rd where
  data_end: "cr_left c = 0 \<Longrightarrow> member_data rd c [] c"
| data_piece: "read_data rd c n = Some (Ok bs, c1) \<Longrightarrow> bs \<noteq> [] \<Longrightarrow> member_data rd c1 data c2 \<Longrightarrow> member_data rd c (bs @ data) c2"

text \<open>
  The files of an archive, in order, each with its path and its data, up to the trailer. What is no regular file, and the AppleDouble
  files a Mac sends beside its files, do not count.
\<close>

inductive archive_holds :: "'s reader \<Rightarrow> 's cpio_reader \<Rightarrow> (ustr \<times> bytes) list \<Rightarrow> 's cpio_reader \<Rightarrow> bool" for rd where
  holds_end: "next_entry rd c = Some (Ok None, c') \<Longrightarrow> archive_holds rd c [] c'"
| holds_other: "next_entry rd c = Some (Ok (Some entry), c1) \<Longrightarrow> \<not> is_file entry \<or> apple_double (ce_path entry)
    \<Longrightarrow> archive_holds rd c1 ms c' \<Longrightarrow> archive_holds rd c ms c'"
| holds_file: "next_entry rd c = Some (Ok (Some entry), c1) \<Longrightarrow> is_file entry \<Longrightarrow> \<not> apple_double (ce_path entry)
    \<Longrightarrow> member_data rd c1 data c2 \<Longrightarrow> archive_holds rd c2 ms c' \<Longrightarrow> archive_holds rd c ((ce_path entry, data) # ms) c'"

text \<open>An upload read to its end: the archive's files, and behind the trailer nothing that fails, but that the body may have gone quiet.\<close>

definition whole_archive :: "('s, 'z, 'g) extract_env \<Rightarrow> nat \<Rightarrow> 's \<Rightarrow> (ustr \<times> bytes) list \<Rightarrow> bool" where
  "whole_archive env limit body ms \<longleftrightarrow>
     (\<exists>decoder s cpio r rest. dv_new (xe_dv env) body = Some (Ok decoder, s)
        \<and> archive_holds (limited_read env) (cpio_new \<lparr>lm_inner = decoder, lm_total = 0, lm_limit = limit\<rparr>) ms cpio
        \<and> copy_sink (limited_read env) None ((cr_inner cpio)\<lparr>lm_inner := dv_map (xe_trailer env) (lm_inner (cr_inner cpio))\<rparr>) 0
            = Some (r, rest) \<and> (case r of Ok _ \<Rightarrow> True | Err e \<Rightarrow> e = OfBody BodyComplete))"

text \<open>
  What is stored of it: one new visible file for each, with exactly its data, under the sanitised name of its path or that name
  with a number; nothing else changes.
\<close>

definition stored_members :: "(ustr \<Rightarrow> ustr) \<Rightarrow> files \<Rightarrow> (ustr \<times> bytes) list \<Rightarrow> ustr list \<Rightarrow> files \<Rightarrow> bool" where
  "stored_members nfc F ms names G \<longleftrightarrow>
     list_all2 (\<lambda>n m. n \<in> set (candidate_names (safe_name nfc (fst m) (lit ''file'')))) names ms
     \<and> distinct names \<and> (\<forall>n \<in> set names. visible_name n \<and> F n = None) \<and> G = F(names [\<mapsto>] map snd ms)"

section \<open>Extraction stores what the archive holds\<close>

lemma write_member_data:
  assumes "write_member env os path label mf ud cpio dk = Some (Ok (), cpio', dk')"
  shows "\<exists>data. member_data (limited_read env) cpio data cpio' \<and> dk_files dk' path = map_option (\<lambda>old. old @ data) (dk_files dk path)"
proof -
  define P where "P env os path label mf ud cpio dk x \<longleftrightarrow> (fst x = Ok () \<longrightarrow>
      (\<exists>data. member_data (limited_read env) cpio data (fst (snd x)) \<and> dk_files (snd (snd x)) path = map_option (\<lambda>old. old @ data) (dk_files dk path)))"
    for env :: "('a, 'b, 'c) extract_env" and os :: os and path and label :: msg and mf ud :: nat and cpio and dk :: disk
      and x :: "(unit, archive_error) result \<times> ('a, 'b, 'c) archive \<times> disk"
  have "P env os path label mf ud cpio dk (Ok (), cpio', dk')"
  proof (rule write_member.raw_induct [of P, OF _ assms], goal_cases)
    case (1 f env os path label mf ud cpio dk x)
    show ?case unfolding P_def
    proof
      assume ok: "fst x = Ok ()"
      with 1(2) obtain bs cpio1 where rd: "read_data (limited_read env) cpio IO_CHUNK_BYTES = Some (Ok bs, cpio1)"
        by (auto split: option.splits prod.splits result.splits)
      show "\<exists>data. member_data (limited_read env) cpio data (fst (snd x)) \<and> dk_files (snd (snd x)) path = map_option (\<lambda>old. old @ data) (dk_files dk path)"
      proof (cases "bs = []")
        case True
        then have "x = (Ok (), cpio1, dk)" using 1(2) rd by simp
        moreover have "cr_left cpio = 0 \<and> cpio1 = cpio"
          using rd read_data_end [of "limited_read env" cpio IO_CHUNK_BYTES cpio1] True by (simp add: IO_CHUNK_BYTES_def)
        ultimately show ?thesis by (intro exI [of _ "[]"]) (simp add: data_end option.map_ident)
      next
        case False
        obtain rc dk1 where ck: "(if length bs \<ge> ud then disk_check os label mf dk else (Ok (), dk)) = (rc, dk1)" by fastforce
        then have dk1: "dk_files dk1 = dk_files dk" using same_but_disk_check by (auto split: if_splits)
        obtain rw dk2 where wr: "file_write_all os path bs dk1 = (rw, dk2)" by fastforce
        have "rc = Ok () \<and> rw = Ok ()" using 1(2) rd ok ck wr False by (cases rc; cases rw) auto
        then have f: "f env os path label mf ((if length bs \<ge> ud then DISK_CHECK_INTERVAL else ud) - length bs) cpio1 dk2 = Some x"
          and dk2: "dk_files dk2 path = map_option (\<lambda>old. old @ bs) (dk_files dk path)"
          using 1(2) rd ck wr False dk1 same_but_write [OF wr] by simp_all
        from 1(1) [OF f] ok obtain data where "member_data (limited_read env) cpio1 data (fst (snd x))"
          "dk_files (snd (snd x)) path = map_option (\<lambda>old. old @ data) (dk_files dk2 path)" by (auto simp: P_def)
        then show ?thesis using data_piece [OF rd False] dk2 by (intro exI [of _ "bs @ data"]) (simp add: option.map_comp comp_def)
      qed
    qed
  qed
  then show ?thesis by (simp add: P_def)
qed

lemma store_member_data:
  assumes "store_member env os limits name cpio dk = Some (Ok path, cpio', dk')"
  shows "\<exists>data. member_data (limited_read env) cpio data cpio' \<and> dk_files dk' path = Some data"
proof -
  obtain dk1 where t: "tempfile_in os dk = (Ok path, dk1)"
    and w: "write_member env os path [T ''file '', Txt (py_repr name)] (xl_min_free_bytes limits) 0 cpio (partials_add path dk1) = Some (Ok (), cpio', dk')"
    using assms by (auto simp: store_member_def split: prod.splits result.splits option.splits)
  have "dk_files (partials_add path dk1) path = Some []"
    using t by (auto simp: tempfile_in_def partials_add_def split: result.splits)
  with write_member_data [OF w] show ?thesis by auto
qed

lemma extract_members_hold:
  assumes "extract_members env os limits cpio pending members out dk = Some (Ok (), cpio', pending', dk')"
    and "os_ok os" "set P \<subseteq> dom F" "holds F P (map snd pending) dk"
  shows "\<exists>ms ps. archive_holds (limited_read env) cpio ms cpio' \<and> pending' = pending @ ps
    \<and> map fst ps = map (\<lambda>m. safe_name (xe_nfc env) (fst m) (lit ''file'')) ms \<and> map (\<lambda>p. dk_files dk' (snd p)) ps = map (\<lambda>m. Some (snd m)) ms
    \<and> (\<forall>p \<in> set (map snd pending). dk_files dk' p = dk_files dk p) \<and> holds F P (map snd pending') dk'"
proof -
  define R where "R cpio pending dk x \<longleftrightarrow> (\<exists>ms ps. archive_holds (limited_read env) cpio ms (fst (snd x)) \<and> fst (snd (snd x)) = pending @ ps
      \<and> map fst ps = map (\<lambda>m. safe_name (xe_nfc env) (fst m) (lit ''file'')) ms
      \<and> map (\<lambda>p. dk_files (snd (snd (snd x))) (snd p)) ps = map (\<lambda>m. Some (snd m)) ms
      \<and> (\<forall>p \<in> set (map snd pending). dk_files (snd (snd (snd x))) p = dk_files dk p) \<and> holds F P (map snd (fst (snd (snd x)))) (snd (snd (snd x))))"
    for cpio pending and dk :: disk and x :: "(unit, archive_error) result \<times> ('a, 'b, 'c) archive \<times> pending \<times> disk"
  define Q where "Q env' os' limits' cpio pending (members :: nat) (out :: nat) dk x \<longleftrightarrow>
      (env' = env \<and> os' = os \<and> limits' = limits \<and> fst x = Ok () \<and> holds F P (map snd pending) dk \<longrightarrow> R cpio pending dk x)"
    for env' os' limits' cpio pending members out and dk :: disk and x :: "(unit, archive_error) result \<times> ('a, 'b, 'c) archive \<times> pending \<times> disk"
  have "Q env os limits cpio pending members out dk (Ok (), cpio', pending', dk')"
  proof (rule extract_members.raw_induct [of Q, OF _ assms(1)], goal_cases)
    case (1 f env' os' limits' cpio pending members out dk x)
    show ?case unfolding Q_def
    proof (intro impI, elim conjE)
      assume same: "env' = env" "os' = os" "limits' = limits" and ok: "fst x = Ok ()" and h: "holds F P (map snd pending) dk"
      note run = 1(2) [unfolded same]
      have again: "R c p d x" if "f env os limits c p m z d = Some x" "holds F P (map snd p) d" for c p m z d
        using 1(1) [OF that(1)] that(2) ok by (simp add: Q_def)
      obtain e cpio1 where ne: "next_entry (limited_read env) cpio = Some (Ok e, cpio1)"
        using run ok by (auto split: option.splits prod.splits result.splits)
      show "R cpio pending dk x"
      proof (cases e)
        case None
        with run ne have "x = (Ok (), cpio1, pending, dk)" by simp
        moreover have "archive_holds (limited_read env) cpio [] cpio1" using holds_end ne None by simp
        ultimately show ?thesis using h unfolding R_def by (intro exI [of _ "[]"]) simp
      next
        case (Some entry)
        note ne = ne [unfolded Some]
        show ?thesis
        proof (cases "\<not> is_file entry \<or> apple_double (ce_path entry)")
          case True
          with run ne ok have "f env os limits cpio1 pending (members + 1) out dk = Some x" by (auto simp: Let_def split: if_splits)
          from again [OF this h] holds_other [OF ne True] show ?thesis unfolding R_def by blast
        next
          case False
          let ?name = "safe_name (xe_nfc env) (ce_path entry) (lit ''file'')"
          obtain path cpio2 dk1 where st: "store_member env os limits ?name cpio1 dk = Some (Ok path, cpio2, dk1)"
            and f: "f env os limits cpio2 (pending @ [(?name, path)]) (members + 1) (out + ce_size entry) dk1 = Some x"
            using run ne ok False by (auto simp: Let_def split: if_splits option.splits result.splits prod.splits)
          from store_member_holds [OF assms(2,3) h st] have h1: "holds F P (map snd (pending @ [(?name, path)])) dk1"
            "\<forall>p \<in> set (map snd pending). dk_files dk1 p = dk_files dk p" by simp_all
          obtain data where d: "member_data (limited_read env) cpio1 data cpio2" "dk_files dk1 path = Some data"
            using store_member_data [OF st] by blast
          from again [OF f h1(1)] obtain ms ps where
            r: "archive_holds (limited_read env) cpio2 ms (fst (snd x))" "fst (snd (snd x)) = (pending @ [(?name, path)]) @ ps"
              "map fst ps = map (\<lambda>m. safe_name (xe_nfc env) (fst m) (lit ''file'')) ms"
              "map (\<lambda>p. dk_files (snd (snd (snd x))) (snd p)) ps = map (\<lambda>m. Some (snd m)) ms"
              "\<forall>p \<in> set (map snd (pending @ [(?name, path)])). dk_files (snd (snd (snd x))) p = dk_files dk1 p"
              "holds F P (map snd (fst (snd (snd x)))) (snd (snd (snd x)))"
            unfolding R_def by blast
          have "archive_holds (limited_read env) cpio ((ce_path entry, data) # ms) (fst (snd x))"
            using holds_file [OF ne _ _ d(1) r(1)] False by blast
          then show ?thesis unfolding R_def using r(2-6) h1(2) d(2)
            by (intro exI [of _ "(ce_path entry, data) # ms"] exI [of _ "(?name, path) # ps"]) simp
        qed
      qed
    qed
  qed
  then show ?thesis using assms(4) by (simp add: Q_def R_def)
qed

lemma place_first_candidate: "place_first os temp cs dk = (Ok (Some c), dk') \<Longrightarrow> c \<in> set cs"
  by (induction cs arbitrary: dk) (auto split: prod.splits result.splits if_splits)

lemma place_all_candidates:
  "place_all os pending stored dk = (Ok (), stored', dk') \<Longrightarrow>
    \<exists>names. stored' = stored @ names \<and> list_all2 (\<lambda>n p. n \<in> set (candidate_names (fst p))) names pending"
proof (induction os pending stored dk rule: place_all.induct)
  case (2 os name temp rest stored dk)
  then obtain c dk1 where c: "place_first os temp (candidate_names name) dk = (Ok (Some c), dk1)"
    "place_all os rest (stored @ [c]) (partials_forget temp dk1) = (Ok (), stored', dk')"
    by (auto split: prod.splits result.splits option.splits)
  from "2.IH" [OF c(1) [symmetric] refl refl c(2)] obtain names where
    "stored' = (stored @ [c]) @ names" "list_all2 (\<lambda>n p. n \<in> set (candidate_names (fst p))) names rest" by blast
  with place_first_candidate [OF c(1)] show ?case by (intro exI [of _ "c # names"]) simp
qed simp

text \<open>The theorem of this theory: success is a whole archive, stored.\<close>

lemma extract_run_stored:
  assumes "extract_run env os limits body dk = Some (Ok x, b, dk')" "os_ok os" "set (dk_partials dk) \<subseteq> dom (dk_files dk)"
  shows "\<exists>ms. whole_archive env (xl_byte_limit limits) body ms
    \<and> stored_members (xe_nfc env) (dk_files dk) ms (ex_names x) (dk_files dk')"
proof -
  let ?F = "dk_files dk" and ?P = "dk_partials dk"
  let ?rest = "\<lambda>cpio. (cr_inner cpio)\<lparr>lm_inner := dv_map (xe_trailer env) (lm_inner (cr_inner cpio))\<rparr>"
  obtain decoder s cpio pending dk1 r rest where
    new: "dv_new (xe_dv env) body = Some (Ok decoder, s)"
    and mem: "extract_members env os limits (cpio_new \<lparr>lm_inner = decoder, lm_total = 0, lm_limit = xl_byte_limit limits\<rparr>) [] 0 0 dk
        = Some (Ok (), cpio, pending, dk1)"
    and drain: "copy_sink (limited_read env) None (?rest cpio) 0 = Some (r, rest)" "case r of Ok _ \<Rightarrow> True | Err e \<Rightarrow> e = OfBody BodyComplete"
    and pl: "place_all os pending [] dk1 = (Ok (), ex_names x, dk')"
    using assms(1) by (auto simp: extract_run_def Let_def split: option.splits prod.splits result.splits if_splits)
  from extract_members_hold [OF mem assms(2,3)] holds_start obtain ms where
    m: "archive_holds (limited_read env) (cpio_new \<lparr>lm_inner = decoder, lm_total = 0, lm_limit = xl_byte_limit limits\<rparr>) ms cpio"
      "map fst pending = map (\<lambda>m. safe_name (xe_nfc env) (fst m) (lit ''file'')) ms"
      "map (\<lambda>p. dk_files dk1 (snd p)) pending = map (\<lambda>m. Some (snd m)) ms" "holds ?F ?P (map snd pending) dk1"
    by fastforce
  have "file_name_ok (lit ''file'')" by (simp add: eval_defs)
  then have "file_name_ok (safe_name (xe_nfc env) path (lit ''file''))" for path
    using safe_name_cases [of "xe_nfc env" path "lit ''file''"] by auto
  then have "\<forall>n \<in> set (map fst pending). file_name_ok n" unfolding m(2) by simp
  then have fn: "\<forall>p \<in> set pending. file_name_ok (fst p)" by simp
  from place_all_spec [OF assms(2) m(4) fn pl] obtain names where
    n: "ex_names x = names" "distinct names" "\<forall>n \<in> set names. visible_name n \<and> ?F n = None"
      "holds (?F(names [\<mapsto>] map (\<lambda>p. the (dk_files dk1 (snd p))) pending)) ?P [] dk'" by auto
  have "map (\<lambda>p. the (dk_files dk1 (snd p))) pending = map snd ms"
    using arg_cong [OF m(3), of "map the"] by (simp add: comp_def)
  then have files: "dk_files dk' = ?F(names [\<mapsto>] map snd ms)" using holds_Nil [OF n(4)] by simp
  have "list_all2 (\<lambda>n p. n \<in> set (candidate_names (fst p))) names pending" using place_all_candidates [OF pl] n(1) by simp
  then have "list_all2 (\<lambda>n c. n \<in> set (candidate_names c)) names (map fst pending)" by (simp add: list_all2_map2)
  then have "list_all2 (\<lambda>n m. n \<in> set (candidate_names (safe_name (xe_nfc env) (fst m) (lit ''file'')))) names ms"
    unfolding m(2) by (simp add: list_all2_map2)
  then have "stored_members (xe_nfc env) ?F ms (ex_names x) (dk_files dk')"
    unfolding stored_members_def n(1) using n(2,3) files by blast
  moreover have "whole_archive env (xl_byte_limit limits) body ms" unfolding whole_archive_def using new m(1) drain by blast
  ultimately show ?thesis by blast
qed

end
