(* ===== verification/Gate.thy ===== *)
theory Gate
  imports Session Members Delivery
begin

text \<open>
  What a whole session promises (omdrop-receiver/src/server.rs, \<open>Server::session\<close> and the handlers
  under it): what it may do to the download directory, whom it stores for, that it gives its upload slot
  back, and which statuses it answers with. Each is an invariant proved once for every request by
  \<open>session_invariant\<close>.
\<close>

subsection \<open>What may happen to the download directory\<close>

text \<open>
  The abstract specification: a directory only ever gains new files under visible names, one link at a
  time or an upload's files all together.
\<close>

inductive deposits :: "files \<Rightarrow> files \<Rightarrow> bool" where
  deposit_link: "visible_name n \<Longrightarrow> F n = None \<Longrightarrow> deposits F (F(n \<mapsto> c))"
| deposit_upload: "distinct ns \<Longrightarrow> length cs = length ns \<Longrightarrow> length ns \<le> MAX_ARCHIVE_MEMBERS
    \<Longrightarrow> \<forall>n \<in> set ns. visible_name n \<and> F n = None \<Longrightarrow> deposits F (F(ns [\<mapsto>] cs))"

lemma deposits_keep:
  "deposits F G \<Longrightarrow> (F n \<noteq> None \<longrightarrow> G n = F n) \<and> (F n = None \<and> G n \<noteq> None \<longrightarrow> visible_name n)"
proof (induction rule: deposits.induct)
  case (deposit_upload ns cs F)
  then show ?case using map_upds_apply_nontin [of n ns F cs] by (cases "n \<in> set ns") auto
qed auto

lemma deposits_star_keep:
  assumes "deposits\<^sup>*\<^sup>* F G"
  shows "(F n \<noteq> None \<longrightarrow> G n = F n) \<and> (F n = None \<and> G n \<noteq> None \<longrightarrow> visible_name n)"
  using assms
proof (induction rule: rtranclp_induct)
  case (step G H)
  with deposits_keep [OF step(2), of n] show ?case by metis
qed auto

lemma store_link_deposits:
  assumes "store_link os nfc url dk = (r, dk')"
  shows "deposits\<^sup>*\<^sup>* (dk_files dk) (dk_files dk') \<and> dk_partials dk' = dk_partials dk"
proof -
  obtain x dk1 where o: "open_first os (candidate_names (link_name nfc url)) (link_name nfc url) dk = (x, dk1)" by fastforce
  show ?thesis
  proof (cases x)
    case (Err e)
    have "dk_files dk1 = dk_files dk \<and> dk_partials dk1 = dk_partials dk" if "open_first os cs m dk = (Err e, dk1)" for cs m dk
      using that by (induction os cs m dk rule: open_first.induct) (auto simp: tick_def split: if_splits option.splits)
    with o Err assms show ?thesis by (auto simp: store_link_def open_new_def)
  next
    case (Ok n)
    from open_first_new [OF o [unfolded Ok]] have n: "n \<in> set (candidate_names (link_name nfc url))" "dk_files dk n = None"
      "dk_files dk1 = (dk_files dk)(n \<mapsto> [])" "dk_partials dk1 = dk_partials dk" by auto
    have "visible_name (link_name nfc url)" using link_name_ok by (simp add: file_name_ok_def)
    with n(1) have vis: "visible_name n" using candidate_name_visible by (auto simp: candidate_names_def)
    obtain w where w: "file_write_all os n (link_file url) dk1 = (w, dk')"
      using assms o Ok by (auto simp: store_link_def open_new_def split: prod.splits result.splits)
    then have "\<exists>c. dk_files dk' = (dk_files dk)(n \<mapsto> c)" "dk_partials dk' = dk_partials dk"
      using n by (auto simp: file_write_all_def file_append_def tick_def split: option.splits)
    with deposit_link [of n "dk_files dk", OF vis n(2)] show ?thesis by auto
  qed
qed

lemma store_links_deposits:
  "deposits\<^sup>*\<^sup>* (dk_files dk) (dk_files (snd (store_links os nfc items dk))) \<and>
   dk_partials (snd (store_links os nfc items dk)) = dk_partials dk"
proof (induction os nfc items dk rule: store_links.induct)
  case (2 os nfc item items dk)
  show ?case
  proof (cases "is_link item")
    case (Some url)
    obtain r dk1 where s: "store_link os nfc url dk = (r, dk1)" by fastforce
    note one = store_link_deposits [OF s]
    show ?thesis
    proof (cases r)
      case (Ok n)
      with 2(2) [OF Some s [symmetric] Ok] one s Some show ?thesis by (auto dest: rtranclp_trans)
    qed (use one s Some in simp)
  qed (use 2(1) in simp)
qed simp

lemma extraction_deposits:
  assumes "os_ok (se_os env)" "set (dk_partials dk) \<subseteq> dom (dk_files dk)" "extraction_of env limit body dk r dk'"
  shows "dk_partials dk' = dk_partials dk \<and>
    (case r of Err e \<Rightarrow> dk_files dk' = dk_files dk | Ok x \<Rightarrow> deposits (dk_files dk) (dk_files dk'))"
proof -
  obtain limits b where x: "extract_run (upload_env env) (se_os env) limits body dk = Some (r, b, dk')"
    "xl_max_members limits = MAX_ARCHIVE_MEMBERS" using assms(3) by (auto simp: extraction_of_def)
  then have "extract_archive (upload_env env) (se_os env) limits body dk = Some (r, dk')" by (simp add: extract_archive_def)
  from extract_outcome [OF assms(1,2) this] x(2) show ?thesis
    by (auto split: result.splits intro: deposit_upload)
qed

subsection \<open>The invariants\<close>

definition keeps_files :: "('s, 'z, 'g) session_env \<Rightarrow> disk \<Rightarrow> 's session \<Rightarrow> bool" where
  "keeps_files env dk ss \<longleftrightarrow>
     (os_ok (se_os env) \<and> set (dk_partials dk) \<subseteq> dom (dk_files dk) \<longrightarrow>
        dk_partials (ss_disk ss) = dk_partials dk \<and> deposits\<^sup>*\<^sup>* (dk_files dk) (dk_files (ss_disk ss)))"

lemma keeps_partials:
  assumes "keeps_files env dk ss" "os_ok (se_os env)" "set (dk_partials dk) \<subseteq> dom (dk_files dk)"
  shows "set (dk_partials (ss_disk ss)) \<subseteq> dom (dk_files (ss_disk ss))"
  using assms deposits_star_keep [of "dk_files dk" "dk_files (ss_disk ss)"] by (fastforce simp: keeps_files_def)

interpretation kept_files: session_invariant env "keeps_files env dk" for env :: "('s, 'z, 'g) session_env" and dk
proof unfold_locales
  fix ss :: "'s session" and items
  assume "keeps_files env dk ss"
  then show "keeps_files env dk (ss\<lparr>ss_disk := snd (store_links (se_os env) (se_nfc env) items (ss_disk ss))\<rparr>)"
    using store_links_deposits [of "ss_disk ss" "se_os env" "se_nfc env" items]
    by (auto simp: keeps_files_def dest: rtranclp_trans)
next
  fix ss ss' :: "'s session" and req r
  assume k: "keeps_files env dk ss"
    and u: "upload_slotted env req (ss\<lparr>ss_uploads := Suc (ss_uploads ss), ss_slot := True, ss_waiting := False\<rparr>) = Some (r, ss')"
  show "keeps_files env dk (drop_slot ss')"
    unfolding keeps_files_def drop_slot_fields
  proof (intro impI)
    assume a: "os_ok (se_os env) \<and> set (dk_partials dk) \<subseteq> dom (dk_files dk)"
    with k have s: "dk_partials (ss_disk ss) = dk_partials dk" "deposits\<^sup>*\<^sup>* (dk_files dk) (dk_files (ss_disk ss))"
      by (auto simp: keeps_files_def)
    from u show "dk_partials (ss_disk ss') = dk_partials dk \<and> deposits\<^sup>*\<^sup>* (dk_files dk) (dk_files (ss_disk ss'))"
    proof (cases rule: upload_slotted_cases)
      case (ran dk0 result pre limit body)
      with extraction_deposits [of env dk0 limit body result "ss_disk ss'"] keeps_partials [OF k] a s show ?thesis
        by (auto split: result.splits)
    qed (use s in auto)
  qed
qed (auto simp: keeps_files_def)

text \<open>Contacts Only throughout, and a certificate that no record makes acceptable.\<close>

definition stranger :: "('s, 'z, 'g) session_env \<Rightarrow> bool" where
  "stranger env \<longleftrightarrow>
     (\<forall>s. visibility_of (se_lower env) (se_visibility_file env s) = ContactsOnly) \<and>
     (\<forall>record known. fst (decide record (case se_chain env of [] \<Rightarrow> None | leaf # _ \<Rightarrow> Some leaf) known (se_apple env)) \<noteq> Accept)"

lemma stranger_refused: "stranger env \<Longrightarrow> visibility_now env ss = ContactsOnly \<and> ask_decision env body ss \<noteq> Accept"
  unfolding stranger_def visibility_now_def ask_decision_def by blast

definition strangers_only :: "('s, 'z, 'g) session_env \<Rightarrow> disk \<Rightarrow> 's session \<Rightarrow> bool" where
  "strangers_only env dk ss \<longleftrightarrow> (stranger env \<longrightarrow> ss_disk ss = dk \<and> \<not> ss_contacts_ok ss)"

interpretation kept_out: session_invariant env "strangers_only env dk" for env :: "('s, 'z, 'g) session_env" and dk
proof unfold_locales
  fix ss :: "'s session" and body
  assume "visibility_now env ss = ContactsOnly" "ask_decision env body ss = Accept"
  then show "strangers_only env dk (ss\<lparr>ss_contacts_ok := True\<rparr>)" using stranger_refused by (auto simp: strangers_only_def)
next
  fix ss ss' :: "'s session" and items
  assume "strangers_only env dk ss" "visibility_now env ss \<noteq> ContactsOnly \<or> ss_contacts_ok ss"
  then have "\<not> stranger env" using stranger_refused by (auto simp: strangers_only_def)
  then show "strangers_only env dk (ss\<lparr>ss_disk := snd (store_links (se_os env) (se_nfc env) items (ss_disk ss))\<rparr>)"
    "strangers_only env dk (drop_slot ss')" by (simp_all add: strangers_only_def)
qed (simp_all add: strangers_only_def)

definition slot_free :: "nat \<Rightarrow> 's session \<Rightarrow> bool" where
  "slot_free n ss \<longleftrightarrow> ss_uploads ss = n \<and> \<not> ss_slot ss"

lemma slot_free_upload:
  assumes "slot_free n ss"
    and "upload_slotted env req (ss\<lparr>ss_uploads := Suc (ss_uploads ss), ss_slot := True, ss_waiting := False\<rparr>) = Some (r, ss')"
  shows "slot_free n (drop_slot ss')"
proof -
  let ?ss = "ss\<lparr>ss_uploads := Suc (ss_uploads ss), ss_slot := True, ss_waiting := False\<rparr>"
  from assms(2) have "ss_uploads (drop_slot ss') = ss_uploads (drop_slot ?ss)"
    by (rule upload_slotted_cases) blast+
  moreover have "ss_uploads (drop_slot ?ss) = n" using assms(1) by (simp add: slot_free_def drop_slot_def)
  ultimately show ?thesis unfolding slot_free_def by (metis drop_slot_fields(4))
qed

interpretation slot_returned: session_invariant env "slot_free n" for env :: "('s, 'z, 'g) session_env" and n
proof unfold_locales
  fix ss ss' :: "'s session" and req r
  assume "slot_free n ss"
    and "upload_slotted env req (ss\<lparr>ss_uploads := Suc (ss_uploads ss), ss_slot := True, ss_waiting := False\<rparr>) = Some (r, ss')"
  then show "slot_free n (drop_slot ss')" by (rule slot_free_upload)
qed (simp_all add: slot_free_def)

definition statuses_known :: "'s session \<Rightarrow> bool" where
  "statuses_known ss \<longleftrightarrow> (\<forall>status \<in> set (ss_sent ss). reason status \<noteq> [])"

lemma statuses_known_upload:
  assumes "statuses_known ss" "upload_slotted env req ss = Some (r, ss')"
  shows "statuses_known (drop_slot ss')"
  using assms(2)
proof (cases rule: upload_slotted_cases)
  case (refused status)
  with assms(1) show ?thesis by (simp add: statuses_known_def)
next
  case (ran dk0 result pre limit body)
  have "reason (case result of Ok _ \<Rightarrow> 200 | Err e \<Rightarrow> failure_status e) \<noteq> []"
    by (cases result) (simp_all add: reason_def [of 200])
  moreover have "\<forall>s \<in> set pre. reason s \<noteq> []" using ran(4) by (auto simp: reason_def)
  ultimately show ?thesis using ran(5) assms(1) by (auto simp: statuses_known_def)
qed

interpretation answered_known: session_invariant env statuses_known for env :: "('s, 'z, 'g) session_env"
proof unfold_locales
  fix ss ss' :: "'s session" and req r
  assume k: "statuses_known ss"
    and u: "upload_slotted env req (ss\<lparr>ss_uploads := Suc (ss_uploads ss), ss_slot := True, ss_waiting := False\<rparr>) = Some (r, ss')"
  show "statuses_known (drop_slot ss')"
    by (rule statuses_known_upload [OF _ u]) (use k in \<open>simp add: statuses_known_def\<close>)
qed (auto simp: statuses_known_def)

subsection \<open>A small receiver\<close>

text \<open>One wire, a parser that makes a \<open>POST\<close> of any head, and a property list reader with one answer.\<close>

definition door_env :: "ustr \<Rightarrow> pvalue \<Rightarrow> bytes \<Rightarrow> (source, unit, unit) session_env" where [eval_defs]:
  "door_env path value mode =
     \<lparr>se_rd = source_read, se_wr = (\<lambda>s bs. (Ok (), s)), se_flush = (\<lambda>s. (Ok (), s)), se_now = (\<lambda>_. 0), se_wall = (\<lambda>_. 0),
      se_set_wait = (\<lambda>_ s. s), se_set_deadline = (\<lambda>_ s. s), se_visibility_file = (\<lambda>_. Some mode), se_known_file = (\<lambda>_. None),
      se_lower = id, se_hash = (\<lambda>_. []), se_apple = fake_apple, se_chain = [],
      se_head = (\<lambda>_ _. Some \<lparr>hp_method = Some (lit ''POST''), hp_path = Some path, hp_version = Some 1,
                                hp_headers = [(lit ''Content-Length'', blit ''1'')]\<rparr>),
      se_plist = (\<lambda>_. map Ok (value_events value)), se_binary = (\<lambda>_. []), se_os = plain_os,
      se_nfc = id, se_zinit = (), se_zstep = (\<lambda>_ _ _. Err []), se_ginit = (), se_gread = (\<lambda>_ _ _. None),
      se_settings = \<lparr>st_name = [], st_model = [], st_media = [], st_percent = 50, st_record = None, st_min_free = 0, st_limits = default_limits\<rparr>\<rparr>"

definition door_disk :: disk where
  "door_disk = \<lparr>dk_files = Map.empty, dk_partials = [], dk_tick = 0\<rparr>"

definition door_wire :: "source buf_reader" where [eval_defs]:
  "door_wire = \<lparr>bf_buf = [88, 13, 10, 13, 10, 1], bf_inner = []\<rparr>"

definition link_ask :: pvalue where [eval_defs]:
  "link_ask = PDict [(lit ''Items'', PArray [PString (lit ''http://a'')]), (lit ''TransferType'', PArray [PString (lit ''links'')])]"

lemma link_stored: "\<exists>n dk. store_link plain_os id (lit ''http://a'') door_disk = (Ok n, dk)"
proof -
  have cs: "candidate_names n = n # map (candidate_name n) [1..<10000]" for n
    unfolding candidate_names_def upt_conv_Cons [of 0 10000, OF zero_less_numeral] One_nat_def
    by (simp only: list.map candidate_name_def if_True refl)
  show ?thesis
    unfolding store_link_def open_new_def cs by (simp only: open_first.simps) (simp add: plain_os_def file_write_all_def door_disk_def)
qed

lemma door_body:
  "read_small_body (plain_body_env (door_env path v m)) \<lparr>bf_buf = [1], bf_inner = []\<rparr> [(lit ''Content-Length'', lit ''1'')] MAX_METADATA_BYTES
     = Some (Ok [1], \<lparr>bf_buf = [], bf_inner = []\<rparr>)"
  by (simp add: eval_defs read_again.simps read_to_end.simps)

lemma door_ask_dict:
  "ask_dict (door_env p link_ask m) body =
     [(lit ''Items'', PArray [PString (lit ''http://a'')]), (lit ''TransferType'', PArray [PString (lit ''links'')])]"
  by (simp add: eval_defs)

lemma door_visibility: "visibility_now (door_env p v []) ss = Everyone"
  by (simp add: eval_defs)

lemma door_send:
  "send_response (door_env p v m) status hs body ss = (Ok (), ss\<lparr>ss_sent := ss_sent ss @ [status]\<rparr>)"
  by (simp add: send_response_def write_response_def door_env_def)

lemma door_ask:
  assumes "store_link plain_os id (lit ''http://a'') door_disk = (Ok n, dk)" "ss_disk ss = door_disk" "keep_alive req"
  shows "ask (door_env p link_ask []) req body ss = (Ok Keep, ss\<lparr>ss_disk := dk, ss_sent := ss_sent ss @ [200]\<rparr>)"
proof -
  have l: "is_link (PString (lit ''http://a'')) = Some (lit ''http://a'')" by (simp add: eval_defs)
  have "store_links plain_os id [PString (lit ''http://a'')] door_disk = (Ok (), dk)" using assms(1) l by simp
  moreover have "se_os (door_env p v m) = plain_os" "se_nfc (door_env p v m) = id" for v m by (simp_all add: door_env_def)
  moreover have "transfer_types [(lit ''Items'', PArray [PString (lit ''http://a'')]), (lit ''TransferType'', PArray [PString (lit ''links'')])] = [lit ''links'']"
    "as_array (dict_get [(lit ''Items'', PArray [PString (lit ''http://a'')]), (lit ''TransferType'', PArray [PString (lit ''links'')])] (lit ''Items'')) = [PString (lit ''http://a'')]"
    by (simp_all add: transfer_types_def as_array_def dict_get_def map_filter_def lit_def)
  ultimately show ?thesis
    using assms(2,3) unfolding ask_def door_ask_dict door_visibility ask_accepted_def answer_def door_send Let_def
    by (simp add: then_flow_def keep_or_close_def MAX_ARCHIVE_MEMBERS_def)
qed

definition door_request :: "ustr \<Rightarrow> request" where
  "door_request path =
     \<lparr>rq_method = lit ''POST'', rq_path = path, rq_minor = 1, rq_line = [88], rq_headers = [(lit ''Content-Length'', lit ''1'')]\<rparr>"

lemma door_read:
  assumes "collapse_slashes path = path"
  shows "read_request (se_head (door_env path v m)) source_read door_wire = Some (Ok (door_request path), \<lparr>bf_buf = [1], bf_inner = []\<rparr>)"
  using assms by (simp add: eval_defs door_request_def read_line_loop.simps head_lines.simps del: collapse_slashes_def)

lemma door_fields:
  "se_rd (door_env p v m) = source_read" "se_set_deadline (door_env p v m) = (\<lambda>_ s. s)"
  by (simp_all add: door_env_def)

lemma door_turn:
  assumes "collapse_slashes path = path"
  shows "session_turn (door_env path v m) (session_start door_wire door_disk 0) =
    serve_head (door_env path v m) (Ok (door_request path)) ((session_start door_wire door_disk 0)\<lparr>ss_io := \<lparr>bf_buf = [1], bf_inner = []\<rparr>\<rparr>)"
  using door_read [OF assms, of v m]
  by (simp add: session_turn_def await_upload_def session_start_def door_fields Let_def)

lemma door_closed:
  assumes "ss_io ss = \<lparr>bf_buf = [], bf_inner = []\<rparr>" "\<not> ss_awaiting ss"
  shows "session_turn (door_env path v m) ss = Some (Close, ss\<lparr>ss_waiting := True\<rparr>)"
  using assms
  by (simp add: session_turn_def await_upload_def door_fields Let_def read_request_def serve_head_def read_line_def
    read_line_loop.simps bf_fill_def)

lemma link_session:
  assumes "store_link plain_os id (lit ''http://a'') door_disk = (Ok n, dk)"
  shows "\<exists>ss. session_loop (door_env (lit ''/Ask'') link_ask []) (session_start door_wire door_disk 0) = Some ss
     \<and> ss_disk ss = dk \<and> ss_sent ss = [200]"
proof -
  have c: "collapse_slashes (lit ''/Ask'') = lit ''/Ask''" by (simp add: eval_defs)
  let ?ss = "(session_start door_wire door_disk 0)\<lparr>ss_io := \<lparr>bf_buf = [1], bf_inner = []\<rparr>\<rparr>"
  have k: "keep_alive (door_request (lit ''/Ask''))" by (simp add: eval_defs door_request_def)
  have u: "lit ''/Ask'' \<noteq> lit ''/Upload''" "lit ''/Ask'' \<noteq> lit ''/Discover''" "lit ''Expect'' \<noteq> lit ''Content-Length''" by (simp_all add: lit_def)
  have ask: "ask (door_env p link_ask []) (door_request (lit ''/Ask'')) body (?ss\<lparr>ss_io := io\<rparr>) =
      (Ok Keep, (?ss\<lparr>ss_io := io\<rparr>)\<lparr>ss_disk := dk, ss_sent := ss_sent (?ss\<lparr>ss_io := io\<rparr>) @ [200]\<rparr>)" for p body io
    by (rule door_ask [OF assms _ k]) (simp add: session_start_def)
  have ex: "\<not> is_expect (door_request p)" for p by (simp add: eval_defs door_request_def)
  have "post (door_env p link_ask []) (door_request (lit ''/Ask'')) ?ss =
      Some (Ok Keep, (?ss\<lparr>ss_io := \<lparr>bf_buf = [], bf_inner = []\<rparr>\<rparr>)\<lparr>ss_disk := dk, ss_sent := [200]\<rparr>)" for p
    using door_body ask u by (simp add: post_def door_request_def session_start_def)
  then have "session_turn (door_env (lit ''/Ask'') link_ask []) (session_start door_wire door_disk 0) =
      Some (Keep, (?ss\<lparr>ss_io := \<lparr>bf_buf = [], bf_inner = []\<rparr>\<rparr>)\<lparr>ss_disk := dk, ss_sent := [200]\<rparr>)"
    unfolding door_turn [OF c] by (simp add: serve_head_def handle_def ex handle_method_def) (simp add: door_request_def)
  then show ?thesis
    by (simp add: session_loop.simps) (simp add: session_loop.simps door_closed session_start_def)
qed

lemma refused_session:
  "\<exists>ss. session_loop (door_env (lit ''/Upload'') link_ask (blit ''contacts'')) (session_start door_wire door_disk 0) = Some ss
     \<and> ss_sent ss = [403]"
proof -
  have c: "collapse_slashes (lit ''/Upload'') = lit ''/Upload''" by (simp add: eval_defs)
  have v: "visibility_now (door_env p v (blit ''contacts'')) ss = ContactsOnly" for p v ss by (simp add: eval_defs)
  have ex: "\<not> is_expect (door_request p)" for p by (simp add: eval_defs door_request_def)
  show ?thesis
    by (simp add: session_loop.simps door_turn [OF c] serve_head_def handle_def ex handle_method_def)
       (simp add: door_request_def post_def upload_def v session_start_def reject_def then_flow_def door_send)
qed

subsection \<open>An upload that is accepted\<close>

text \<open>A receiver whose connection holds a whole request: the body is one stored block, with an archive of one file.\<close>

definition mail_env :: "(source, bool, unit) session_env" where [eval_defs]:
  "mail_env =
     \<lparr>se_rd = source_read, se_wr = (\<lambda>s bs. (Ok (), s)), se_flush = (\<lambda>s. (Ok (), s)), se_now = (\<lambda>_. 0), se_wall = (\<lambda>_. 0),
      se_set_wait = (\<lambda>_ s. s), se_set_deadline = (\<lambda>_ s. s), se_visibility_file = (\<lambda>_. Some []), se_known_file = (\<lambda>_. None),
      se_lower = id, se_hash = (\<lambda>_. []), se_apple = fake_apple, se_chain = [], se_head = (\<lambda>_ _. None),
      se_plist = (\<lambda>_. []), se_binary = (\<lambda>_. []), se_os = roomy_os,
      se_nfc = id, se_zinit = False, se_zstep = pair_zstep, se_ginit = (), se_gread = (\<lambda>_ _ _. None),
      se_settings = \<lparr>st_name = [], st_model = [], st_media = [], st_percent = 50, st_record = None, st_min_free = 1000, st_limits = default_limits\<rparr>\<rparr>"

definition mail_archive :: bytes where
  "mail_archive = odc_members 0 (map sent_member one_file) @ odc_trailer"

definition mail_body :: bytes where
  "mail_body = u32_to_be (DVZIP_STORED OR of_nat (length mail_archive)) @ mail_archive"

definition mail_request :: request where [eval_defs]:
  "mail_request =
     \<lparr>rq_method = lit ''POST'', rq_path = lit ''/Upload'', rq_minor = 1, rq_line = [],
      rq_headers = [(lit ''Content-Type'', lit ''application/x-dvzip''), (lit ''Content-Length'', lit ''171'')]\<rparr>"

definition mail_session :: "source session" where
  "mail_session = session_start \<lparr>bf_buf = mail_body, bf_inner = []\<rparr> new_disk 0"

text \<open>A body of a given length that is in the connection's buffer, at a clock that stands still, is a reader that keeps the contract.\<close>

definition buffered_good :: "('s \<times> progress) body_reader \<Rightarrow> bool" where
  "buffered_good b \<longleftrightarrow> bd_chunk b = None \<and> bd_length_left b \<le> length (bf_buf (bd_r b))"

definition buffered_content :: "('s \<times> progress) body_reader \<Rightarrow> bytes" where
  "buffered_content b = take (bd_length_left b) (bf_buf (bd_r b))"

lemma mail_body_read:
  assumes "buffered_good b" "0 < n"
  shows "\<exists>b'. body_read (upload_body_env mail_env) b n = Some (Ok (take (min n IO_CHUNK_BYTES) (buffered_content b)), b')
    \<and> buffered_good b' \<and> buffered_content b' = drop (min n IO_CHUNK_BYTES) (buffered_content b)"
proof (cases "bd_length_left b = 0")
  case True
  then show ?thesis using assms by (intro exI [of _ b]) (simp add: body_read_def buffered_good_def buffered_content_def)
next
  case False
  define k where "k = min (min n IO_CHUNK_BYTES) (bd_length_left b)"
  have k: "0 < k" "k \<le> length (bf_buf (bd_r b))" "bf_buf (bd_r b) \<noteq> []"
    using assms False by (auto simp: k_def buffered_good_def IO_CHUNK_BYTES_def)
  have r: "read_again rd (bd_r b) k = Some (Ok (take k (bf_buf (bd_r b))), bf_consume k (bd_r b))" for rd
    using k(3) by (subst read_again.simps) (simp add: bf_read_def bf_fill_def)
  define b' where "b' = b\<lparr>bd_r := bf_consume k (bd_r b), bd_deadline := (bd_deadline b)\<lparr>dl_transferred := dl_transferred (bd_deadline b) + k\<rparr>,
      bd_total := bd_total b + k, bd_length_left := bd_length_left b - k\<rparr>"
  have "body_read (upload_body_env mail_env) b n = Some (Ok (take k (bf_buf (bd_r b))), b')"
    using assms False k r
    by (simp add: body_read_def body_data_def k_def [symmetric] body_note_def note_read_def behind_def body_now_def upload_body_env_def mail_env_def
      buffered_good_def b'_def min_absorb2)
  moreover have "take k (bf_buf (bd_r b)) = take (min n IO_CHUNK_BYTES) (buffered_content b)"
    by (simp add: buffered_content_def k_def min.commute)
  moreover have "buffered_good b' \<and> buffered_content b' = drop (min n IO_CHUNK_BYTES) (buffered_content b)"
    using assms(1) by (auto simp: b'_def buffered_good_def buffered_content_def bf_consume_def k_def drop_take min_def)
  ultimately show ?thesis by auto
qed

lemma mail_input: "extract_input (upload_env mail_env) buffered_good buffered_content (\<lambda>_. None) (\<lambda>_. 0)"
proof -
  have "byte_reader (ev_read (xe_dv (upload_env mail_env))) buffered_good buffered_content (\<lambda>_. None) (\<lambda>_. 0)"
  proof (rule byte_readerI)
    fix b :: "(source \<times> progress) body_reader" and n :: nat
    assume g: "buffered_good b" "0 < n"
    have "length (take (min n IO_CHUNK_BYTES) (buffered_content b)) \<le> n" by simp
    moreover have "take (min n IO_CHUNK_BYTES) (buffered_content b) = [] \<longrightarrow> buffered_content b = []"
      using g(2) by (auto simp: IO_CHUNK_BYTES_def min_def split: if_splits)
    ultimately show "read_outcome (ev_read (xe_dv (upload_env mail_env))) buffered_good buffered_content (\<lambda>_. None) (\<lambda>_. 0) b n"
      using mail_body_read [OF g] by (auto simp: read_outcome_def upload_env_def)
  qed
  then show "extract_input (upload_env mail_env) buffered_good buffered_content (\<lambda>_. None) (\<lambda>_. 0)"
    by (simp add: dv_input_def dv_input_axioms_def extract_input_def extract_input_axioms_def upload_env_def with_progress_def
      buffered_good_def buffered_content_def)
qed

lemma mail_sizes: "length mail_archive = 167" "length mail_body = 171" "hd mail_body \<noteq> 0x1f" "mail_body \<noteq> []"
  "dv_decode inflate mail_body = Some mail_archive"
proof -
  show a: "length mail_archive = 167"
    using one_file_ok(1) by (simp add: mail_archive_def sent_member_def length_odc_member length_odc_trailer lit_def utf8_len_def)
  show "length mail_body = 171" by (simp add: mail_body_def a u32_to_be_def)
  show "hd mail_body \<noteq> 0x1f" "mail_body \<noteq> []" by (simp_all add: mail_body_def a u32_to_be_def DVZIP_STORED_def)
  have "dv_decode inflate [] = Some []" by (simp add: dv_decode.simps)
  from dv_decode_block(2) [OF _ this, of mail_archive] a show "dv_decode inflate mail_body = Some mail_archive"
    by (simp add: mail_body_def)
qed

lemma mail_extracted:
  assumes "4096 \<le> limit" "buffered_good body" "buffered_content body = mail_body"
  shows "\<exists>x b dk'. extract_run (upload_env mail_env) roomy_os \<lparr>xl_byte_limit = limit, xl_max_members = MAX_ARCHIVE_MEMBERS, xl_min_free_bytes = 1000\<rparr>
      body (tick new_disk) = Some (Ok x, b, dk') \<and> \<not> ex_unterminated x"
proof -
  let ?l = "\<lparr>xl_byte_limit = limit, xl_max_members = MAX_ARCHIVE_MEMBERS, xl_min_free_bytes = 1000\<rparr>" and ?ms = "map sent_member one_file"
  have z: "ev_zstep (xe_dv (upload_env mail_env)) = pair_zstep" by (simp add: upload_env_def mail_env_def)
  have a: "dv_decode inflate mail_body = Some (odc_members 0 ?ms @ odc_trailer)" for inflate
    using mail_sizes(5) by (simp only: mail_archive_def)
  have l: "length (odc_members 0 ?ms @ odc_trailer) \<le> limit" using mail_sizes(1) assms(1) by (simp only: mail_archive_def)
  have zl: "zlib_streams (ev_zstep (xe_dv (upload_env mail_env))) pair_inflate" using pair_zlib_streams z by simp
  have os: "os_works roomy_os (xl_min_free_bytes ?l)" using roomy_os_works by simp
  have "buffered_content body \<noteq> []" "hd (buffered_content body) \<noteq> 0x1f" using mail_sizes(3,4) assms(3) by simp_all
  moreover have "dv_decode (pair_inflate (ev_zinit (xe_dv (upload_env mail_env)))) (buffered_content body) = Some (odc_members 0 ?ms @ odc_trailer)"
    unfolding assms(3) by (rule a)
  moreover have "length ?ms \<le> xl_max_members ?l" "length (odc_members 0 ?ms @ odc_trailer) \<le> xl_byte_limit ?l"
    using l by (simp_all add: MAX_ARCHIVE_MEMBERS_def)
  moreover have "free_names (dom (dk_files (tick new_disk))) (map (member_name (upload_env mail_env)) ?ms) = Some (map (member_name (upload_env mail_env)) ?ms)"
    by (rule free_names_distinct) (simp_all add: tick_def)
  moreover have "finite (dom (dk_files (tick new_disk)))" "set (dk_partials (tick new_disk)) \<subseteq> dom (dk_files (tick new_disk))" by (simp_all add: tick_def)
  ultimately have "\<exists>x dk'. extract_archive (upload_env mail_env) roomy_os ?l body (tick new_disk) = Some (Ok x, dk') \<and> \<not> ex_unterminated x"
    using extract_input.extract_delivers [OF mail_input zl os assms(2) refl, of ?ms "tick new_disk"] one_file_ok(1) by blast
  then show ?thesis by (auto simp: extract_archive_def)
qed

lemma mail_uploaded:
  "\<exists>r ss'. upload mail_env mail_request mail_session = Some (r, ss') \<and> ss_sent ss' = [200]"
proof -
  let ?ss = "mail_session\<lparr>ss_uploads := Suc 0, ss_slot := True, ss_waiting := False\<rparr>"
  have v: "visibility_now mail_env mail_session = Everyone" by (simp add: eval_defs)
  have c: "content_type mail_env mail_request = lit ''application/x-dvzip''" by (simp add: eval_defs)
  have s: "try_slot (ss_uploads mail_session) MAX_CONCURRENT_UPLOADS = Some (Suc 0)"
    by (simp add: mail_session_def session_start_def try_slot_def MAX_CONCURRENT_UPLOADS_def)
  obtain bg where bg: "budget_of roomy_os 50 1000 new_disk = (Ok (Ok bg), tick new_disk)" "4096 \<le> rb_byte_limit bg"
    by (simp add: budget_of_def free_bytes_def roomy_os_def budget_compute_def tick_def)
  have p: "plan_of (rq_headers mail_request) (rb_byte_limit bg) = Ok (Length 171)"
    using bg(2) by (simp add: mail_request_def plan_of_def) (simp add: eval_defs)
  have e: "\<not> is_expect mail_request" by (simp add: eval_defs)
  let ?b = "upload_body mail_env (Length 171) (rb_byte_limit bg) (?ss\<lparr>ss_disk := tick new_disk\<rparr>)"
  have b: "buffered_good ?b" "buffered_content ?b = mail_body"
    using mail_sizes(2) by (simp_all add: upload_body_def with_patience_def body_new_def mail_session_def session_start_def buffered_good_def buffered_content_def)
  obtain x b' dk' where x: "extract_run (upload_env mail_env) roomy_os \<lparr>xl_byte_limit = rb_byte_limit bg, xl_max_members = MAX_ARCHIVE_MEMBERS, xl_min_free_bytes = 1000\<rparr>
      ?b (tick new_disk) = Some (Ok x, b', dk')" "\<not> ex_unterminated x" using mail_extracted [OF bg(2) b] by blast
  have env: "se_os mail_env = roomy_os" "st_percent (se_settings mail_env) = 50" "st_min_free (se_settings mail_env) = 1000" "ss_disk mail_session = new_disk"
    by (simp_all add: mail_env_def mail_session_def session_start_def)
  have send: "send_response mail_env st hs bs s = (Ok (), s\<lparr>ss_sent := ss_sent s @ [st]\<rparr>)" for st hs bs s
    by (simp add: send_response_def write_response_def mail_env_def)
  have "receive_upload mail_env (Length 171) (rb_byte_limit bg) (?ss\<lparr>ss_disk := tick new_disk\<rparr>) =
      Some (Ok Close, ?ss\<lparr>ss_io := io_after b', ss_disk := dk', ss_sent := ss_sent ?ss @ [200]\<rparr>)"
    using x by (simp add: receive_upload_def env finish_upload_def send then_flow_def)
  then have "upload_slotted mail_env mail_request ?ss = Some (Ok Close, ?ss\<lparr>ss_io := io_after b', ss_disk := dk', ss_sent := ss_sent ?ss @ [200]\<rparr>)"
    using bg(1) p e by (simp add: upload_slotted_def env)
  then show ?thesis using v c s by (simp add: upload_def) (simp add: mail_session_def session_start_def)
qed

subsection \<open>The promises\<close>

text \<open>
  C19. Whatever a sender sends over a whole connection, however many requests, the download directory
  follows the abstract specification: it goes through a sequence of deposits, each of which adds one
  link or all of one upload's files (at most 512 of them) under new visible names; no file that was
  there is changed, renamed or removed, nothing of a failed upload stays, and the registry of files in
  progress is as before. The hypotheses are those of an extraction: unlinking works, temporary names
  are fresh, and the files other uploads have in progress exist.
\<close>

theorem session_refines_deposits:
  assumes "session_loop env (session_start io dk n) = Some ss"
    and "os_ok (se_os env)" "set (dk_partials dk) \<subseteq> dom (dk_files dk)"
  shows "deposits\<^sup>*\<^sup>* (dk_files dk) (dk_files (ss_disk ss)) \<and> dk_partials (ss_disk ss) = dk_partials dk
    \<and> (\<forall>name. dk_files dk name \<noteq> None \<longrightarrow> dk_files (ss_disk ss) name = dk_files dk name)"
proof -
  have "keeps_files env dk (session_start io dk n)" by (simp add: keeps_files_def session_start_def)
  from kept_files.inv_session [OF assms(1) this] assms(2,3) deposits_star_keep show ?thesis
    by (auto simp: keeps_files_def)
qed

theorem session_refines_deposits_witness:
  "\<exists>ss. session_loop (door_env (lit ''/Ask'') link_ask []) (session_start door_wire door_disk 0) = Some ss
     \<and> deposits\<^sup>*\<^sup>* Map.empty (dk_files (ss_disk ss)) \<and> ss_sent ss = [200]"
proof -
  obtain name dk where s: "store_link plain_os id (lit ''http://a'') door_disk = (Ok name, dk)" using link_stored by blast
  from link_session [OF this] obtain ss where
    ss: "session_loop (door_env (lit ''/Ask'') link_ask []) (session_start door_wire door_disk 0) = Some ss" "ss_sent ss = [200]" by blast
  have "os_ok (se_os (door_env (lit ''/Ask'') link_ask []))" by (simp add: door_env_def os_ok_def plain_os_def)
  from session_refines_deposits [OF ss(1) this] ss show ?thesis by (simp add: door_disk_def)
qed

text \<open>
  C20. While the receiver is set to Contacts Only, a sender whose certificate the policy accepts with no
  record (because it presented none, or one Apple did not issue, or one of an account nobody knows)
  changes nothing in the download directory, by any sequence of requests: neither a link nor an upload
  is stored, the free space is not even looked up, and no Upload becomes allowed.
\<close>

theorem strangers_store_nothing:
  assumes "session_loop env (session_start io dk n) = Some ss"
    and "\<And>s. visibility_of (se_lower env) (se_visibility_file env s) = ContactsOnly"
    and "\<And>record known. fst (decide record (case se_chain env of [] \<Rightarrow> None | leaf # _ \<Rightarrow> Some leaf) known (se_apple env)) \<noteq> Accept"
  shows "ss_disk ss = dk \<and> \<not> ss_contacts_ok ss"
proof -
  have "strangers_only env dk (session_start io dk n)" by (simp add: strangers_only_def session_start_def)
  from kept_out.inv_session [OF assms(1) this] assms(2,3) show ?thesis by (simp add: strangers_only_def stranger_def)
qed

theorem strangers_store_nothing_witness:
  "\<exists>ss. session_loop (door_env (lit ''/Upload'') link_ask (blit ''contacts'')) (session_start door_wire door_disk 0) = Some ss
     \<and> ss_disk ss = door_disk \<and> ss_sent ss = [403]"
proof -
  let ?env = "door_env (lit ''/Upload'') link_ask (blit ''contacts'')"
  obtain ss where ss: "session_loop ?env (session_start door_wire door_disk 0) = Some ss" "ss_sent ss = [403]"
    using refused_session by blast
  have v: "visibility_of (se_lower ?env) (se_visibility_file ?env s) = ContactsOnly" for s by (simp add: eval_defs)
  have "se_chain ?env = []" by (simp add: door_env_def)
  then have "fst (decide rec (case se_chain ?env of [] \<Rightarrow> None | leaf # _ \<Rightarrow> Some leaf) known (se_apple ?env)) \<noteq> Accept" for rec known
    by (simp add: decide_def nonempty_def split: option.splits)
  from strangers_store_nothing [OF ss(1) v this] ss show ?thesis by blast
qed

text \<open>
  C21. No upload slot leaks: when a connection ends, whatever requests it served and however each of
  them ended, the number of uploads in progress is what it was when the connection was accepted, and
  the connection holds no slot.
\<close>

theorem slots_returned:
  assumes "session_loop env (session_start io dk n) = Some ss"
  shows "ss_uploads ss = n \<and> \<not> ss_slot ss"
  using slot_returned.inv_session [OF assms, of n] by (simp add: slot_free_def session_start_def)

theorem slots_returned_witness:
  "\<exists>ss. session_loop (door_env (lit ''/Upload'') link_ask (blit ''contacts'')) (session_start door_wire door_disk 0) = Some ss
     \<and> ss_uploads ss = 0"
  using refused_session slots_returned by blast

text \<open>
  Every status a connection is answered with is one the status line has a reason phrase for; none
  leaves the receiver as a bare number.
\<close>

theorem statuses_have_reasons:
  assumes "session_loop env (session_start io dk n) = Some ss" "status \<in> set (ss_sent ss)"
  shows "reason status \<noteq> []"
  using answered_known.inv_session [OF assms(1)] assms(2) by (simp add: statuses_known_def session_start_def)

theorem statuses_have_reasons_witness:
  "\<exists>ss. session_loop (door_env (lit ''/Upload'') link_ask (blit ''contacts'')) (session_start door_wire door_disk 0) = Some ss
     \<and> ss_sent ss = [403] \<and> (\<forall>status \<in> set (ss_sent ss). reason status \<noteq> [])"
  using refused_session statuses_have_reasons by blast

lemma extraction_stored:
  assumes "extraction_of env limit body dk (Ok x) dk'" "os_ok (se_os env)" "set (dk_partials dk) \<subseteq> dom (dk_files dk)"
  shows "\<exists>ms. whole_archive (upload_env env) limit body ms \<and> stored_members (se_nfc env) (dk_files dk) ms (ex_names x) (dk_files dk')
    \<and> length ms \<le> MAX_ARCHIVE_MEMBERS"
proof -
  obtain limits b where r: "extract_run (upload_env env) (se_os env) limits body dk = Some (Ok x, b, dk')"
    "xl_byte_limit limits = limit" "xl_max_members limits = MAX_ARCHIVE_MEMBERS" using assms(1) by (auto simp: extraction_of_def)
  obtain ms where ms: "whole_archive (upload_env env) limit body ms" "stored_members (se_nfc env) (dk_files dk) ms (ex_names x) (dk_files dk')"
    using extract_run_stored [OF r(1) assms(2,3)] r(2) by (auto simp: upload_env_def)
  have "extract_archive (upload_env env) (se_os env) limits body dk = Some (Ok x, dk')" using r(1) by (simp add: extract_archive_def)
  from extract_outcome [OF assms(2,3) this] have "length (ex_names x) \<le> MAX_ARCHIVE_MEMBERS" using r(3) by auto
  moreover have "length (ex_names x) = length ms" using ms(2) by (auto simp: stored_members_def dest: list_all2_lengthD)
  ultimately show ?thesis using ms by auto
qed

text \<open>
  C22. The answer to an upload is true. A sender is told 200 only if its whole upload was deposited: the body the request's headers
  frame was read to its end as an archive, and of exactly the files that archive holds (regular ones, but AppleDouble files, at most 512), in order, each
  is in the directory with exactly its data, under a new visible name that is the sanitised one, or that with a number, and nothing else
  changed. Any other final answer means that the directory is exactly as it was. Before the
  final answer there is at most a 100.
\<close>

theorem upload_answer_true:
  assumes "upload env req ss = Some (r, ss')"
    and "os_ok (se_os env)" "set (dk_partials (ss_disk ss)) \<subseteq> dom (dk_files (ss_disk ss))"
  shows "\<exists>pre status. ss_sent ss' = ss_sent ss @ pre @ [status] \<and> set pre \<subseteq> {100} \<and>
    (if status = 200
     then \<exists>limit body ms names. body_of_request env req ss limit body \<and> whole_archive (upload_env env) limit body ms
       \<and> length ms \<le> MAX_ARCHIVE_MEMBERS \<and> stored_members (se_nfc env) (dk_files (ss_disk ss)) ms names (dk_files (ss_disk ss'))
     else dk_files (ss_disk ss') = dk_files (ss_disk ss))"
proof (cases "visibility_now env ss = ContactsOnly \<and> \<not> ss_contacts_ok ss \<or> content_type env req \<noteq> lit ''application/x-dvzip''
    \<or> try_slot (ss_uploads ss) MAX_CONCURRENT_UPLOADS = None")
  case True
  then have "\<exists>status. status \<noteq> 200 \<and> reject env status ss = (r, ss')"
    using assms(1) by (auto simp: upload_def split: if_splits intro: exI [of _ 403] exI [of _ 415] exI [of _ 503])
  then obtain status where "status \<noteq> 200" "reject env status ss = (r, ss')" by blast
  then have "status \<noteq> 200" "ss' = snd (reject env status ss)" by simp_all
  then show ?thesis by (intro exI [of _ "[]"] exI [of _ status]) simp
next
  case False
  then obtain n where "try_slot (ss_uploads ss) MAX_CONCURRENT_UPLOADS = Some n" by blast
  with assms(1) False obtain ss1 where
    u: "upload_slotted env req (ss\<lparr>ss_uploads := n, ss_slot := True, ss_waiting := False\<rparr>) = Some (r, ss1)" "ss' = drop_slot ss1"
    by (auto simp: upload_def)
  from u(1) show ?thesis
  proof (cases rule: upload_slotted_cases)
    case (refused status)
    then show ?thesis unfolding u(2) drop_slot_fields by (intro exI [of _ "[]"] exI [of _ status]) simp
  next
    case (ran dk0 result pre limit body)
    have dk0: "dk_files dk0 = dk_files (ss_disk ss)" "set (dk_partials dk0) \<subseteq> dom (dk_files dk0)" using ran(1,2) assms(3) by simp_all
    have b: "body_of_request env req ss limit body"
      using ran(8) by (rule iffD1 [OF body_of_request_cong, rotated]) simp
    show ?thesis
    proof (cases result)
      case (Ok x)
      from extraction_stored [OF ran(3) [unfolded Ok] assms(2) dk0(2)] b ran(4,5) Ok dk0(1) show ?thesis
        unfolding u(2) drop_slot_fields by (intro exI [of _ pre] exI [of _ 200]) (simp, blast)
    next
      case (Err e)
      have "failure_status e \<noteq> 200"
        by (simp add: failure_status_def body_status_def split: archive_error.splits result.splits body_error.splits)
      moreover have "dk_files (ss_disk ss1) = dk_files dk0"
        using extraction_deposits [OF assms(2) dk0(2) ran(3)] Err by simp
      ultimately show ?thesis using ran(4,5) Err dk0(1) unfolding u(2) drop_slot_fields
        by (intro exI [of _ pre] exI [of _ "failure_status e"]) simp
    qed
  qed
qed

theorem upload_answer_true_witness:
  "\<exists>r ss' limit body ms names. upload mail_env mail_request mail_session = Some (r, ss') \<and> ss_sent ss' = [200]
    \<and> whole_archive (upload_env mail_env) limit body ms \<and> stored_members id Map.empty ms names (dk_files (ss_disk ss'))"
proof -
  obtain r ss' where u: "upload mail_env mail_request mail_session = Some (r, ss')" "ss_sent ss' = [200]" using mail_uploaded by blast
  have m: "se_os mail_env = roomy_os" "se_nfc mail_env = id" "ss_sent mail_session = []" "ss_disk mail_session = new_disk"
    by (simp_all add: mail_env_def mail_session_def session_start_def)
  have "os_ok (se_os mail_env)" using roomy_os_works by (simp add: m os_works_def)
  from upload_answer_true [OF u(1) this] u show ?thesis by (auto simp: m Cons_eq_append_conv)
qed

end
