(* ===== verification/Frames.thy ===== *)
theory Frames
  imports Text
begin

text \<open>
  AWDL announcements (omdrop-adv/src/frames.rs): DNS names and records, the Internet checksum, the
  announcement and the responder's reply, IPv6 and UDP around them, and Apple's SNAP encapsulation.
  A \<open>BuildError\<close> is kept as its cause; its text is left out. \<open>csum16\<close> adds in \<open>u64\<close>, which holds the
  sum of any data shorter than 2 ^ 48 bytes, so its sums are natural numbers here.
\<close>

definition APPLE_OUI :: bytes where [eval_defs]:
  "APPLE_OUI = [0x00, 0x17, 0xf2]"

definition AWDL_PROTO :: bytes where [eval_defs]:
  "AWDL_PROTO = [0x08, 0x00]"

definition AWDL_MAGIC :: bytes where [eval_defs]:
  "AWDL_MAGIC = [0x03, 0x04]"

definition CACHE_FLUSH :: u16 where [eval_defs]:
  "CACHE_FLUSH = 0x8001"

definition ETH_P_IPV6 :: u16 where [eval_defs]:
  "ETH_P_IPV6 = 0x86dd"

definition MDNS_PORT :: u16 where [eval_defs]:
  "MDNS_PORT = 5353"

definition MDNS_GROUP :: bytes where [eval_defs]:
  "MDNS_GROUP = [0xff, 0x02, 0, 0, 0, 0, 0, 0, 0, 0, 0, 0, 0, 0, 0, 0xfb]"

definition MDNS_MAC :: bytes where [eval_defs]:
  "MDNS_MAC = [0x33, 0x33, 0x00, 0x00, 0x00, 0xfb]"

definition SERVICE :: ustr where [eval_defs]:
  "SERVICE = lit ''_airdrop._tcp.local''"

datatype build_error = NotPrintable ustr uchar | LabelTooLong ustr | NameTooLong ustr | RecordTooLong | UdpTooLong | SnapTooLong

text \<open>An interface's hardware address has six bytes, an IPv6 address sixteen.\<close>

definition eui64_ll :: "bytes \<Rightarrow> bytes" where [eval_defs]:
  "eui64_ll mac =
     [0xfe, 0x80, 0, 0, 0, 0, 0, 0, (mac ! 0) XOR 0x02, mac ! 1, mac ! 2, 0xff, 0xfe, mac ! 3, mac ! 4, mac ! 5]"

subsection \<open>Names and records\<close>

definition name_labels :: "ustr \<Rightarrow> ustr list" where [eval_defs]:
  "name_labels name = filter (\<lambda>l. l \<noteq> []) (split_by (\<lambda>c. c = 0x2e) name)"

fun wire_length :: "ustr \<Rightarrow> ustr list \<Rightarrow> nat \<Rightarrow> (nat, build_error) result" where
  "wire_length name [] wire = Ok wire"
| "wire_length name (label # labels) wire =
     (if str_len label > 63 then Err (LabelTooLong name) else wire_length name labels (wire + 1 + str_len label))"

definition check_name :: "ustr \<Rightarrow> (unit, build_error) result" where [eval_defs]:
  "check_name name =
     (case find (\<lambda>c. \<not> (0x20 \<le> c \<and> c \<le> 0x7e)) name of
        Some bad \<Rightarrow> Err (NotPrintable name bad)
      | None \<Rightarrow>
          (case wire_length name (name_labels name) 1 of
             Err e \<Rightarrow> Err e
           | Ok wire \<Rightarrow> if wire > 255 then Err (NameTooLong name) else Ok ()))"

definition encode_labels :: "ustr list \<Rightarrow> bytes" where [eval_defs]:
  "encode_labels labels = concat (map (\<lambda>l. of_nat (str_len l) # as_bytes l) labels) @ [0]"

definition dname :: "ustr \<Rightarrow> (bytes, build_error) result" where [eval_defs]:
  "dname name = (case check_name name of Err e \<Rightarrow> Err e | Ok _ \<Rightarrow> Ok (encode_labels (name_labels name)))"

definition rr :: "ustr \<Rightarrow> u16 \<Rightarrow> u16 \<Rightarrow> u32 \<Rightarrow> bytes \<Rightarrow> (bytes, build_error) result" where [eval_defs]:
  "rr name rtype rclass ttl rdata =
     (if length rdata \<ge> 65536 then Err RecordTooLong
      else (case dname name of
              Err e \<Rightarrow> Err e
            | Ok n \<Rightarrow> Ok (n @ u16_to_be rtype @ u16_to_be rclass @ u32_to_be ttl @ u16_to_be (of_nat (length rdata)) @ rdata)))"

subsection \<open>The Internet checksum\<close>

fun pair_sum :: "bytes \<Rightarrow> nat" where
  "pair_sum [] = 0"
| "pair_sum [a] = unat a * 256"
| "pair_sum (a # b # r) = unat (u16_of_be a b) + pair_sum r"

function fold16 :: "nat \<Rightarrow> nat" where
  "fold16 s = (if s div 65536 \<noteq> 0 then fold16 (s mod 65536 + s div 65536) else s)"
  by pat_completeness auto
termination
proof (relation "measure id")
  fix s :: nat
  assume "s div 65536 \<noteq> 0"
  moreover have "s = s div 65536 * 65536 + s mod 65536" by simp
  ultimately show "(s mod 65536 + s div 65536, s) \<in> measure id" unfolding in_measure id_apply by linarith
qed simp

declare fold16.simps [simp del]

definition csum16 :: "bytes \<Rightarrow> u16" where [eval_defs]:
  "csum16 data = NOT (of_nat (fold16 (pair_sum data)))"

subsection \<open>Messages\<close>

definition announcement :: "ustr \<Rightarrow> ustr \<Rightarrow> u16 \<Rightarrow> nat \<Rightarrow> bytes \<Rightarrow> (bytes, build_error) result" where [eval_defs]:
  "announcement sid host port flags ll =
     (let inst = sid @ [0x2e] @ SERVICE;
          txt = lit ''flags='' @ dec flags
      in (case dname host of Err e \<Rightarrow> Err e | Ok target \<Rightarrow>
         (case dname inst of Err e \<Rightarrow> Err e | Ok iname \<Rightarrow>
         (case rr SERVICE 12 0x0001 4500 iname of Err e \<Rightarrow> Err e | Ok ptr \<Rightarrow>
         (case rr inst 33 CACHE_FLUSH 120 ([0, 0, 0, 0] @ u16_to_be port @ target) of Err e \<Rightarrow> Err e | Ok srv \<Rightarrow>
         (case rr inst 16 CACHE_FLUSH 4500 (of_nat (str_len txt) # as_bytes txt) of Err e \<Rightarrow> Err e | Ok text \<Rightarrow>
         (case rr host 28 CACHE_FLUSH 120 ll of Err e \<Rightarrow> Err e | Ok aaaa \<Rightarrow>
            Ok (concat (map u16_to_be [0, 0x8400, 0, 4, 0, 0]) @ ptr @ srv @ text @ aaaa))))))))"

definition reply :: "ustr \<Rightarrow> ustr \<Rightarrow> u16 \<Rightarrow> nat \<Rightarrow> bytes \<Rightarrow> (bytes, build_error) result" where [eval_defs]:
  "reply sid host port flags ll =
     (case announcement sid host port flags ll of Err e \<Rightarrow> Err e | Ok msg \<Rightarrow>
     (case dname host of Err e \<Rightarrow> Err e | Ok target \<Rightarrow>
     (case rr host 47 CACHE_FLUSH 120 (target @ [0x00, 0x06, 0, 0, 0, 0x08, 0, 0x01]) of Err e \<Rightarrow> Err e | Ok nsec \<Rightarrow>
        (let ancount = (if 8 \<le> length msg then u16_of_be (msg ! 6) (msg ! 7) else 0) + 1
         in Ok ((if 8 \<le> length msg then take 6 msg @ u16_to_be ancount @ drop 8 msg else msg) @ nsec)))))"

text \<open>IPv6 and UDP, with the checksum over the pseudo header.\<close>

definition udp_header :: "u16 \<Rightarrow> u16 \<Rightarrow> bytes" where [eval_defs]:
  "udp_header len ck = u16_to_be MDNS_PORT @ u16_to_be MDNS_PORT @ u16_to_be len @ u16_to_be ck"

definition pseudo_header :: "bytes \<Rightarrow> bytes \<Rightarrow> u16 \<Rightarrow> bytes" where [eval_defs]:
  "pseudo_header src dst len = src @ dst @ u32_to_be (ucast len) @ [0, 0, 0, 17]"

definition udp6 :: "bytes \<Rightarrow> bytes \<Rightarrow> bytes \<Rightarrow> (bytes, build_error) result" where [eval_defs]:
  "udp6 src dst payload =
     (if 8 + length payload \<ge> 65536 then Err UdpTooLong
      else (let udp_len = of_nat (8 + length payload);
                c = csum16 (pseudo_header src dst udp_len @ udp_header udp_len 0 @ payload);
                ck = (if c = 0 then 0xffff else c)
            in Ok (u32_to_be 0x60000000 @ u16_to_be udp_len @ [17, 255] @ src @ dst @ udp_header udp_len ck @ payload)))"

definition wrap :: "bytes \<Rightarrow> bytes \<Rightarrow> u16 \<Rightarrow> bool \<Rightarrow> (bytes, build_error) result" where [eval_defs]:
  "wrap mac payload seq snap =
     (if \<not> snap then Ok (MDNS_MAC @ mac @ u16_to_be ETH_P_IPV6 @ payload)
      else if 16 + length payload \<ge> 65536 then Err SnapTooLong
      else Ok (MDNS_MAC @ mac @ u16_to_be (of_nat (16 + length payload)) @ [0xaa, 0xaa, 0x03] @ APPLE_OUI
                @ AWDL_PROTO @ AWDL_MAGIC @ u16_to_le seq @ [0, 0] @ u16_to_be ETH_P_IPV6 @ payload))"

subsection \<open>Facts on the checksum\<close>

lemma unat_u16_of_be: "unat (u16_of_be a b) = unat a * 256 + unat b"
proof -
  have "push_bit 8 (ucast a :: u16) AND ucast b = 0"
    by (rule bit_word_eqI) (auto simp: bit_simps dest: bit_imp_le_length)
  then have "u16_of_be a b = push_bit 8 (ucast a) + ucast b"
    using word_plus_and_or [of "push_bit 8 (ucast a) :: u16" "ucast b"] by (simp add: u16_of_be_def)
  also have "push_bit 8 (ucast a :: u16) + ucast b = of_nat (unat a * 256 + unat b)"
    by (simp add: push_bit_eq_mult)
  finally have e: "u16_of_be a b = of_nat (unat a * 256 + unat b)" .
  have "unat a < 2 ^ 8" "unat b < 2 ^ 8" using unsigned_less [of a] unsigned_less [of b] by simp_all
  then have "unat a * 256 + unat b < 2 ^ 16" by simp
  then show ?thesis unfolding e by (simp only: unsigned_of_nat) (simp add: take_bit_nat_eq_self)
qed

lemma pair_sum_append: "even (length a) \<Longrightarrow> pair_sum (a @ b) = pair_sum a + pair_sum b"
  by (induction a rule: pair_sum.induct) auto

lemma pair_sum_u16: "pair_sum (u16_to_be w) = unat w"
  by (simp add: u16_to_be_def u16_of_be_to_be)

lemma fold16_props: "fold16 s < 65536 \<and> fold16 s mod 65535 = s mod 65535 \<and> (0 < s \<longrightarrow> 0 < fold16 s)"
proof (induction s rule: fold16.induct)
  case (1 s)
  show ?case
  proof (cases "s div 65536 = 0")
    case True
    then show ?thesis by (simp add: fold16.simps [of s])
  next
    case False
    have s: "s = s div 65536 * 65535 + (s mod 65536 + s div 65536)"
      using div_mult_mod_eq [of s 65536] by linarith
    have "s mod 65535 = (s div 65536 * 65535 + (s mod 65536 + s div 65536)) mod 65535" using s by presburger
    then have "(s mod 65536 + s div 65536) mod 65535 = s mod 65535" by (metis mod_mult_self3)
    with 1 False show ?thesis by (simp add: fold16.simps [of s])
  qed
qed

lemma csum16_zero: "pair_sum data mod 65535 = 0 \<Longrightarrow> 0 < pair_sum data \<Longrightarrow> csum16 data = 0"
proof -
  assume "pair_sum data mod 65535 = 0" "0 < pair_sum data"
  with fold16_props [of "pair_sum data"] have "fold16 (pair_sum data) mod 65535 = 0" "0 < fold16 (pair_sum data)"
    "fold16 (pair_sum data) < 65536" by auto
  then have "fold16 (pair_sum data) = 65535" by (auto simp: mod_eq_0_iff_dvd elim!: dvdE)
  then show ?thesis by (simp add: csum16_def)
qed

lemma csum16_value: "unat (csum16 d) = 65535 - fold16 (pair_sum d)"
proof -
  have "unat (of_nat (fold16 (pair_sum d)) :: u16) = fold16 (pair_sum d)"
    using fold16_props [of "pair_sum d"] by (simp add: unsigned_of_nat take_bit_nat_eq_self)
  moreover have "NOT x = 0xffff - x" for x :: u16 by (simp add: not_eq_complement)
  moreover have "unat (0xffff - x) = 65535 - unat x" for x :: u16
  proof -
    have "unat x < 2 ^ 16" using unsigned_less [of x] by simp
    then show ?thesis by (subst unat_sub) (simp_all add: word_le_nat_alt)
  qed
  ultimately show ?thesis by (simp add: csum16_def)
qed

text \<open>The checksum, or its other zero, brings the sum to zero.\<close>

lemma csum16_completes:
  fixes c :: u16
  assumes c: "c = csum16 d"
  shows "(pair_sum d + unat (if c = 0 then 0xffff else c)) mod 65535 = 0"
proof (cases "c = 0")
  case True
  have v: "unat c = 65535 - fold16 (pair_sum d)" unfolding c by (rule csum16_value)
  with True fold16_props [of "pair_sum d"] have "fold16 (pair_sum d) = 65535" by simp
  with fold16_props [of "pair_sum d"] have "pair_sum d mod 65535 = 0" by simp
  with True show ?thesis by (simp add: mod_add_right_eq [symmetric, of "pair_sum d"])
next
  case False
  have "unat c = 65535 - fold16 (pair_sum d)" unfolding c by (rule csum16_value)
  then have "unat c + fold16 (pair_sum d) = 65535" using fold16_props [of "pair_sum d"] by simp
  then have "(fold16 (pair_sum d) + unat c) mod 65535 = 0" by (simp add: add.commute)
  moreover have "pair_sum d mod 65535 = fold16 (pair_sum d) mod 65535" using fold16_props [of "pair_sum d"] by simp
  then have "(pair_sum d + unat c) mod 65535 = (fold16 (pair_sum d) + unat c) mod 65535" by (rule mod_add_cong) simp
  ultimately show ?thesis using False by simp
qed

lemma pair_sum_pseudo:
  assumes "length src = 16" "length dst = 16"
  shows "0 < pair_sum (pseudo_header src dst len @ rest)"
proof -
  have "pair_sum [0, 0, 0, 17 :: u8] = 17" by (simp add: unat_u16_of_be)
  then have "0 < pair_sum (pseudo_header src dst len)" by (simp add: pseudo_header_def pair_sum_append assms)
  moreover have "pair_sum (pseudo_header src dst len @ rest) = pair_sum (pseudo_header src dst len) + pair_sum rest"
    by (rule pair_sum_append) (simp add: pseudo_header_def assms)
  ultimately show ?thesis by simp
qed

lemma pair_sum_udp:
  assumes "length src = 16" "length dst = 16"
  shows "pair_sum (pseudo_header src dst len @ udp_header len x @ payload)
    = pair_sum (pseudo_header src dst len @ udp_header len 0 @ payload) + unat x"
proof -
  let ?pre = "pseudo_header src dst len @ u16_to_be MDNS_PORT @ u16_to_be MDNS_PORT @ u16_to_be len"
  have "even (length ?pre)" by (simp add: pseudo_header_def assms)
  then have "pair_sum (pseudo_header src dst len @ udp_header len y @ payload) = pair_sum ?pre + (unat y + pair_sum payload)" for y
    using pair_sum_append [of ?pre "u16_to_be y @ payload"]
    by (simp add: udp_header_def pair_sum_append [of "u16_to_be y"] pair_sum_u16)
  then show ?thesis by simp
qed

text \<open>
  Every datagram \<open>udp6\<close> builds verifies: over its pseudo header, header, checksum and payload the
  Internet checksum is zero, whatever the addresses and the payload, of odd length too; and the checksum
  field is never zero, which IPv6 forbids.
\<close>

lemma udp6_checksum_verifies:
  assumes "udp6 src dst payload = Ok out" "length src = 16" "length dst = 16"
  shows "length out = 48 + length payload \<and> drop 48 out = payload \<and>
    csum16 (pseudo_header src dst (of_nat (8 + length payload)) @ drop 40 out) = 0 \<and>
    u16_of_be (out ! 46) (out ! 47) \<noteq> 0"
proof -
  define len :: u16 where "len = of_nat (8 + length payload)"
  define d where "d = pseudo_header src dst len @ udp_header len 0 @ payload"
  define ck where "ck = (if csum16 d = 0 then 0xffff else csum16 d)"
  have out: "out = u32_to_be 0x60000000 @ u16_to_be len @ [17, 255] @ src @ dst @ udp_header len ck @ payload"
    using assms(1) by (simp add: udp6_def Let_def ck_def d_def len_def split: if_splits)
  have "pair_sum (pseudo_header src dst len @ udp_header len ck @ payload) = pair_sum d + unat ck"
    unfolding d_def by (rule pair_sum_udp [OF assms(2,3)])
  moreover have "(pair_sum d + unat ck) mod 65535 = 0" unfolding ck_def by (rule csum16_completes) simp
  moreover have "0 < pair_sum d" unfolding d_def by (rule pair_sum_pseudo [OF assms(2,3)])
  moreover have d40: "drop 40 out = udp_header len ck @ payload" by (simp add: out assms(2,3))
  ultimately have "csum16 (pseudo_header src dst len @ drop 40 out) = 0"
    unfolding d40 by (intro csum16_zero) simp_all
  moreover have "out ! 46 = ucast (drop_bit 8 ck)" "out ! 47 = ucast ck"
    by (simp_all add: out nth_append assms(2,3) udp_header_def u16_to_be_def u32_to_be_def)
  moreover have "ck \<noteq> 0" by (simp add: ck_def)
  ultimately show ?thesis unfolding len_def [symmetric] by (simp add: out assms(2,3) udp_header_def u16_of_be_to_be)
qed

end
