(* ===== verification/Mdns.thy ===== *)
theory Mdns
  imports Frames
begin

text \<open>
  The mDNS responder on awdl0: what it hears (omdrop-adv/src/mdns.rs), which frames it answers
  (omdrop-adv/src/cli.rs, \<open>our_names\<close> and \<open>wanted\<close>) and the machine identity it speaks for
  (omdrop-adv/src/host.rs). Offsets are natural numbers: every addition here stays far below
  \<open>usize::MAX\<close>. \<open>dns_name\<close> is a total function: its termination proof is the bound on followed
  pointers.
\<close>

subsection \<open>Reading bytes\<close>

definition get_range :: "bytes \<Rightarrow> nat \<Rightarrow> nat \<Rightarrow> bytes option" where [eval_defs]:
  "get_range buf a b = (if a \<le> b \<and> b \<le> length buf then Some (take (b - a) (drop a buf)) else None)"

definition be16 :: "bytes \<Rightarrow> nat \<Rightarrow> u16 option" where [eval_defs]:
  "be16 buf at = map_option (\<lambda>b. u16_of_be (b ! 0) (b ! 1)) (get_range buf at (at + 2))"

lemma get_range_mid: "length pre = a \<Longrightarrow> b = a + length mid \<Longrightarrow> get_range (pre @ mid @ post) a b = Some mid"
  by (simp add: get_range_def)

lemma be16_mid: "length pre = a \<Longrightarrow> be16 (pre @ u16_to_be w @ post) a = Some w"
  by (simp add: be16_def get_range_mid) (simp add: u16_to_be_def u16_of_be_to_be)

subsection \<open>Names\<close>

definition MAX_HOPS :: nat where [eval_defs]:
  "MAX_HOPS = 16"

definition label_char :: "u8 \<Rightarrow> uchar" where [eval_defs]:
  "label_char b = (if unat b < 128 then to_ascii_lower (unat b) else 0xfffd)"

definition is_pointer :: "u8 \<Rightarrow> bool" where [eval_defs]:
  "is_pointer n \<longleftrightarrow> n AND 0xc0 = 0xc0"

function dns_labels :: "bytes \<Rightarrow> nat \<Rightarrow> nat option \<Rightarrow> nat \<Rightarrow> ustr list \<Rightarrow> (ustr \<times> nat) option" where
  "dns_labels pkt off next_off hops labels =
     (if \<not> off < length pkt then None
      else (let n = pkt ! off
            in if n = 0
               then Some (join [0x2e] labels, case next_off of None \<Rightarrow> off + 1 | Some k \<Rightarrow> k)
               else if is_pointer n
               then (if \<not> off + 1 < length pkt then None
                     else if hops + 1 > MAX_HOPS then None
                     else dns_labels pkt (unat (n AND 0x3f) * 256 + unat (pkt ! (off + 1)))
                            (Some (case next_off of None \<Rightarrow> off + 2 | Some k \<Rightarrow> k)) (hops + 1) labels)
               else (case get_range pkt (off + 1) (off + 1 + unat n) of
                       None \<Rightarrow> None
                     | Some label \<Rightarrow>
                         dns_labels pkt (off + 1 + unat n) next_off hops (labels @ [map label_char label]))))"
  by pat_completeness auto
termination
proof (relation "measures [\<lambda>(_, _, _, hops, _). MAX_HOPS - hops, \<lambda>(pkt, off, _, _, _). length pkt - off]")
  fix pkt off next_off hops labels label and n :: u8
  assume "\<not> \<not> off < length pkt"
  then show "((pkt, off + 1 + unat n, next_off, hops, labels @ [map label_char label]), pkt, off, next_off, hops, labels)
    \<in> measures [\<lambda>(_, _, _, hops, _). MAX_HOPS - hops, \<lambda>(pkt, off, _, _, _). length pkt - off]" by simp
qed auto

declare dns_labels.simps [simp del]

definition dns_name :: "bytes \<Rightarrow> nat \<Rightarrow> (ustr \<times> nat) option" where [eval_defs]:
  "dns_name pkt off = dns_labels pkt off None 0 []"

subsection \<open>Queries\<close>

fun question_names :: "bytes \<Rightarrow> nat \<Rightarrow> nat \<Rightarrow> ustr list option" where
  "question_names dns 0 off = Some []"
| "question_names dns (Suc k) off =
     (case dns_name dns off of
        None \<Rightarrow> None
      | Some (name, after) \<Rightarrow> map_option ((#) name) (question_names dns k (after + 4)))"

definition questions :: "bytes \<Rightarrow> ustr list" where [eval_defs]:
  "questions dns =
     (case (be16 dns 2, be16 dns 4) of
        (Some flags, Some qd) \<Rightarrow>
          if length dns < 12 \<or> flags AND 0x8000 \<noteq> 0 \<or> qd = 0 then []
          else (case question_names dns (unat qd) 12 of None \<Rightarrow> [] | Some names \<Rightarrow> names)
      | _ \<Rightarrow> [])"

definition ip6_offset :: "bytes \<Rightarrow> nat option" where [eval_defs]:
  "ip6_offset frame =
     (case be16 frame 12 of
        None \<Rightarrow> None
      | Some etype \<Rightarrow>
          if etype = ETH_P_IPV6 then Some 14
          else if etype \<le> 1500 \<and> get_range frame 14 17 = Some [0xaa, 0xaa, 0x03]
          then (case get_range frame 17 22 of
                  None \<Rightarrow> None
                | Some oui_pid \<Rightarrow>
                    if take 3 oui_pid \<noteq> APPLE_OUI \<or> drop 3 oui_pid \<noteq> AWDL_PROTO then None
                    else if be16 frame 28 \<noteq> Some ETH_P_IPV6 then None
                    else Some 30)
          else None)"

definition mdns_payload :: "bytes \<Rightarrow> (bytes \<times> bytes) option" where [eval_defs]:
  "mdns_payload frame =
     (case get_range frame 6 12 of
        None \<Rightarrow> None
      | Some src \<Rightarrow>
          (case ip6_offset frame of
             None \<Rightarrow> None
           | Some off \<Rightarrow>
               (case get_range frame off (off + 40) of
                  None \<Rightarrow> None
                | Some ip6 \<Rightarrow>
                    if ip6 ! 6 \<noteq> 17 then None
                    else (case get_range frame (off + 40) (off + 48) of
                            None \<Rightarrow> None
                          | Some udp \<Rightarrow>
                              if be16 udp 2 \<noteq> Some MDNS_PORT then None else Some (src, drop (off + 48) frame)))))"

definition our_names :: "ustr \<Rightarrow> ustr \<Rightarrow> ustr set" where [eval_defs]:
  "our_names host sid =
     {trim_end_matches (\<lambda>c. c = 0x2e) (map to_ascii_lower host), SERVICE, map to_ascii_lower (sid @ [0x2e] @ SERVICE)}"

definition wanted :: "bytes \<Rightarrow> bytes \<Rightarrow> ustr set \<Rightarrow> (bytes \<times> ustr) option" where [eval_defs]:
  "wanted frame mac ours =
     (case mdns_payload frame of
        None \<Rightarrow> None
      | Some (src, dns) \<Rightarrow>
          if src = mac then None
          else map_option (\<lambda>hit. (src, hit)) (find (\<lambda>q. q \<in> ours) (questions dns)))"

subsection \<open>The machine's identity\<close>

definition KNOB_MAX :: nat where [eval_defs]:
  "KNOB_MAX = 64 * 1024"

text \<open>A knob file's bytes, \<open>None\<close> when it cannot be opened or read.\<close>

definition knob_in :: "bytes option \<Rightarrow> ustr \<Rightarrow> ustr" where [eval_defs]:
  "knob_in file dflt =
     (case file of
        None \<Rightarrow> dflt
      | Some bs \<Rightarrow>
          (case from_utf8 (take KNOB_MAX bs) of
             None \<Rightarrow> dflt
           | Some text \<Rightarrow> if trim text \<noteq> [] then trim text else dflt))"

definition valid_iface :: "ustr \<Rightarrow> bool" where [eval_defs]:
  "valid_iface name \<longleftrightarrow>
     name \<noteq> [] \<and> str_len name < 16 \<and> name \<noteq> lit ''.'' \<and> name \<noteq> lit ''..'' \<and>
     \<not> list_ex (\<lambda>c. c = 0x2f \<or> c = 0x3a \<or> is_ascii_whitespace c \<or> c = 0) name"

fun mac_bytes :: "bytes \<Rightarrow> bytes option" where
  "mac_bytes [] = Some []"
| "mac_bytes [h] = Some []"
| "mac_bytes (h # l # rest) =
     (case (to_digit 16 (unat h), to_digit 16 (unat l)) of
        (Some hi, Some lo) \<Rightarrow> map_option ((#) (of_nat (hi * 16 + lo))) (mac_bytes rest)
      | _ \<Rightarrow> None)"

definition parse_mac :: "ustr \<Rightarrow> bytes option" where [eval_defs]:
  "parse_mac text =
     (let hex = filter (\<lambda>b. b \<noteq> 0x3a) (as_bytes (trim text))
      in if length hex \<noteq> 12 then None else mac_bytes hex)"

definition strip_suffix :: "ustr \<Rightarrow> ustr \<Rightarrow> ustr option" where [eval_defs]:
  "strip_suffix suffix s = (if ends_with s suffix then Some (take (length s - length suffix) s) else None)"

definition host_from :: "(ustr \<Rightarrow> ustr) \<Rightarrow> ustr \<Rightarrow> ustr \<Rightarrow> ustr" where [eval_defs]:
  "host_from lower forced hostname =
     (if forced \<noteq> []
      then (let trimmed = trim_end_matches (\<lambda>c. c = 0x2e) forced
            in case strip_suffix (lit ''.local'') trimmed of Some h \<Rightarrow> h | None \<Rightarrow> trimmed)
      else (let short = lower (hd (split_by (\<lambda>c. c = 0x2e) hostname));
                kept = filter (\<lambda>c. is_ascii_lowercase c \<or> is_ascii_digit c \<or> c = 0x2d) short;
                label = trim_end_matches (\<lambda>c. c = 0x2d) (dropWhile (\<lambda>c. c = 0x2d) kept)
            in if label = [] then lit ''omdrop-awdl'' else label @ lit ''-awdl''))"

subsection \<open>Reading back what was encoded\<close>

lemma is_pointer_small: "unat n < 64 \<Longrightarrow> \<not> is_pointer n"
proof
  assume n: "unat n < 64" and "is_pointer n"
  then have "bit (n AND 0xc0) 7" by (simp add: is_pointer_def bit_numeral_rec)
  then have "bit n 7" by (simp add: bit_and_iff)
  then have "bit (unat n) 7" by (simp add: bit_unsigned_iff)
  with n show False by (simp add: bit_iff_odd)
qed

definition label_ok :: "ustr \<Rightarrow> bool" where
  "label_ok l \<longleftrightarrow> l \<noteq> [] \<and> length l \<le> 63 \<and> (\<forall>c \<in> set l. 0x20 \<le> c \<and> c \<le> 0x7e)"

lemma label_ok_bytes: "label_ok l \<Longrightarrow> as_bytes l = map of_nat l \<and> str_len l = length l"
proof -
  assume "label_ok l"
  then have a: "\<forall>c \<in> set l. c < 0x80" by (auto simp: label_ok_def)
  then have "as_bytes l = map of_nat l" by (induction l) (auto simp: as_bytes_def utf8_char_def)
  with str_len_ascii [OF a] show ?thesis by simp
qed

lemma label_chars: "label_ok l \<Longrightarrow> map label_char (as_bytes l) = map to_ascii_lower l"
  by (auto simp: label_ok_bytes label_char_def unsigned_of_nat take_bit_nat_eq_self label_ok_def)

lemma encode_labels_Cons: "encode_labels (l # ls) = of_nat (str_len l) # as_bytes l @ encode_labels ls"
  by (simp add: encode_labels_def)

lemma dns_labels_encoded:
  assumes "\<forall>l \<in> set ls. label_ok l"
  shows "dns_labels (pre @ encode_labels ls @ post) (length pre) next_off hops acc =
    Some (join [0x2e] (acc @ map (map to_ascii_lower) ls),
          case next_off of None \<Rightarrow> length pre + length (encode_labels ls) | Some k \<Rightarrow> k)"
  using assms
proof (induction ls arbitrary: pre acc)
  case Nil
  show ?case by (subst dns_labels.simps) (simp add: encode_labels_def nth_append split: option.splits)
next
  case (Cons l ls)
  let ?n = "of_nat (str_len l) :: u8"
  from Cons.prems have ok: "label_ok l" by simp
  then have "str_len l \<le> 63" "l \<noteq> []" using label_ok_bytes [OF ok] by (auto simp: label_ok_def)
  moreover from this have "unat ?n = str_len l" by (simp add: unsigned_of_nat take_bit_nat_eq_self)
  ultimately have n: "unat ?n = str_len l" "?n \<noteq> 0" by (auto simp: unat_eq_zero [symmetric])
  let ?pkt = "(pre @ [?n] @ as_bytes l) @ encode_labels ls @ post"
  have pkt: "pre @ encode_labels (l # ls) @ post = ?pkt" by (simp add: encode_labels_Cons)
  have r: "get_range ?pkt (length pre + 1) (length pre + 1 + str_len l) = Some (as_bytes l)"
    using get_range_mid [of "pre @ [?n]" "length pre + 1" "length pre + 1 + str_len l" "as_bytes l" "encode_labels ls @ post"]
    by simp
  have "dns_labels ?pkt (length pre) next_off hops acc =
      dns_labels ?pkt (length pre + 1 + str_len l) next_off hops (acc @ [map label_char (as_bytes l)])"
    using n is_pointer_small [of ?n] \<open>str_len l \<le> 63\<close> r by (subst dns_labels.simps) (simp add: nth_append)
  also have "\<dots> = Some (join [0x2e] ((acc @ [map to_ascii_lower l]) @ map (map to_ascii_lower) ls),
      case next_off of None \<Rightarrow> length (pre @ [?n] @ as_bytes l) + length (encode_labels ls) | Some k \<Rightarrow> k)"
    using Cons.IH [of "pre @ [?n] @ as_bytes l" "acc @ [map to_ascii_lower l]"] Cons.prems label_chars [OF ok] by simp
  finally show ?case unfolding pkt by (simp add: encode_labels_Cons split: option.splits)
qed

lemma wire_length_Ok: "wire_length name ls w = Ok w' \<Longrightarrow> (\<forall>l \<in> set ls. str_len l \<le> 63) \<and> w' = w + sum_list (map (\<lambda>l. 1 + str_len l) ls)"
  by (induction name ls w rule: wire_length.induct) (auto split: if_splits)

lemma dname_Ok:
  assumes "dname name = Ok w"
  shows "w = encode_labels (name_labels name) \<and> (\<forall>l \<in> set (name_labels name). label_ok l) \<and> length w \<le> 255"
proof -
  from assms have f: "find (\<lambda>c. \<not> (0x20 \<le> c \<and> c \<le> 0x7e)) name = None" and w: "w = encode_labels (name_labels name)"
    by (auto simp: dname_def check_name_def split: option.splits result.splits)
  from assms f obtain wl where wl: "wire_length name (name_labels name) 1 = Ok wl" "wl \<le> 255"
    by (auto simp: dname_def check_name_def split: option.splits result.splits if_splits)
  from f have pr: "\<forall>c \<in> set name. 0x20 \<le> c \<and> c \<le> 0x7e" by (auto simp: find_None_iff)
  have "label_ok l" if l: "l \<in> set (name_labels name)" for l
  proof -
    from l have "\<forall>c \<in> set l. 0x20 \<le> c \<and> c \<le> 0x7e" using pr split_by_no_sep by (fastforce simp: name_labels_def)
    moreover from l wire_length_Ok [OF wl(1)] length_le_str_len [of l] have "length l \<le> 63" by fastforce
    ultimately show ?thesis using l by (simp add: label_ok_def name_labels_def)
  qed
  moreover have "length (encode_labels ls) = 1 + sum_list (map (\<lambda>l. 1 + str_len l) ls)" for ls
    by (induction ls) (simp_all add: encode_labels_def)
  ultimately show ?thesis using w wire_length_Ok [OF wl(1)] wl(2) by simp
qed

text \<open>
  The responder reads back every name the announcer encodes, wherever it stands in a packet: the
  labels in lower case joined by dots, and the offset just behind the name.
\<close>

lemma dns_name_reads_dname:
  assumes "dname name = Ok w"
  shows "dns_name (pre @ w @ post) (length pre) =
    Some (join [0x2e] (map (map to_ascii_lower) (name_labels name)), length pre + length w)"
  using dns_labels_encoded [of "name_labels name" pre post None 0 "[]"] dname_Ok [OF assms] by (simp add: dns_name_def)

lemma dns_labels_bounds:
  assumes "dns_labels pkt off next_off hops labels = Some (name, after)" "\<forall>k. next_off = Some k \<longrightarrow> lo < k \<and> k \<le> length pkt"
    "lo \<le> off \<or> next_off \<noteq> None" "\<forall>l \<in> set labels. \<forall>c \<in> set l. \<not> (65 \<le> c \<and> c \<le> 90) \<and> (c < 128 \<or> c = 0xfffd)"
  shows "lo < after \<and> after \<le> length pkt \<and> (\<forall>c \<in> set name. \<not> (65 \<le> c \<and> c \<le> 90) \<and> (c < 128 \<or> c = 0xfffd))"
  using assms
proof (induction pkt off next_off hops labels rule: dns_labels.induct)
  case (1 pkt off next_off hops labels)
  have chars: "\<not> (65 \<le> label_char b \<and> label_char b \<le> 90) \<and> (label_char b < 128 \<or> label_char b = 0xfffd)" for b
    by (simp add: label_char_def to_ascii_lower_def)
  have joined: "\<forall>c \<in> set (join [0x2e] ls). \<not> (65 \<le> c \<and> c \<le> 90) \<and> (c < 128 \<or> c = 0xfffd)"
    if "\<forall>l \<in> set ls. \<forall>c \<in> set l. \<not> (65 \<le> c \<and> c \<le> 90) \<and> (c < 128 \<or> c = 0xfffd)" for ls :: "ustr list"
    using that by (fastforce dest: set_join)
  note unfold = dns_labels.simps [of pkt off next_off hops labels]
  have off: "off < length pkt"
  proof (rule ccontr)
    assume "\<not> off < length pkt"
    with "1.prems"(1) show False unfolding unfold by simp
  qed
  consider (stop) "pkt ! off = 0" | (jump) "pkt ! off \<noteq> 0" "is_pointer (pkt ! off)" | (label) "pkt ! off \<noteq> 0" "\<not> is_pointer (pkt ! off)"
    by blast
  then show ?case
  proof cases
    case stop
    with "1.prems"(1) off have r: "name = join [0x2e] labels" "after = (case next_off of None \<Rightarrow> off + 1 | Some k \<Rightarrow> k)"
      unfolding unfold by simp_all
    show ?thesis unfolding r using joined [OF "1.prems"(4)] "1.prems"(2,3) off by (cases next_off) auto
  next
    case jump
    let ?k = "case next_off of None \<Rightarrow> off + 2 | Some k \<Rightarrow> k"
    have s: "off + 1 < length pkt" "\<not> hops + 1 > MAX_HOPS"
      "dns_labels pkt (unat (pkt ! off AND 0x3f) * 256 + unat (pkt ! (off + 1))) (Some ?k) (hops + 1) labels = Some (name, after)"
      using jump "1.prems"(1) off unfolding unfold by (simp_all add: Let_def split: if_splits)
    have "\<forall>k. Some ?k = Some k \<longrightarrow> lo < k \<and> k \<le> length pkt"
      using "1.prems"(2,3) s(1) by (cases next_off) auto
    from "1.IH"(1) [OF _ refl jump _ s(2,3) this _ "1.prems"(4)] off s(1) show ?thesis by simp
  next
    case label
    obtain l where l: "get_range pkt (off + 1) (off + 1 + unat (pkt ! off)) = Some l"
      "dns_labels pkt (off + 1 + unat (pkt ! off)) next_off hops (labels @ [map label_char l]) = Some (name, after)"
      using label "1.prems"(1) off unfolding unfold by (auto simp: Let_def split: option.splits)
    have "\<forall>l' \<in> set (labels @ [map label_char l]). \<forall>c \<in> set l'. \<not> (65 \<le> c \<and> c \<le> 90) \<and> (c < 128 \<or> c = 0xfffd)"
      using "1.prems"(4) chars by auto
    from "1.IH"(2) [OF _ refl label l "1.prems"(2) _ this] off "1.prems"(3) show ?thesis by auto
  qed
qed

text \<open>
  Where a name stands in a packet, with no program in mind: its labels one after the other, a zero byte for its end, and
  a pointer for the rest of it elsewhere. \<open>p\<close> is the number of pointers on the way, \<open>after\<close> the offset behind the name.
\<close>

inductive name_at :: "bytes \<Rightarrow> nat \<Rightarrow> nat \<Rightarrow> bytes list \<Rightarrow> nat \<Rightarrow> bool" for pkt where
  name_end: "off < length pkt \<Longrightarrow> pkt ! off = 0 \<Longrightarrow> name_at pkt off 0 [] (off + 1)"
| name_label: "off + 1 + n \<le> length pkt \<Longrightarrow> unat (pkt ! off) = n \<Longrightarrow> 0 < n \<Longrightarrow> n < 192 \<Longrightarrow> name_at pkt (off + 1 + n) p ls after
    \<Longrightarrow> name_at pkt off p (take n (drop (off + 1) pkt) # ls) after"
| name_pointer: "off + 1 < length pkt \<Longrightarrow> 192 \<le> unat (pkt ! off)
    \<Longrightarrow> name_at pkt ((unat (pkt ! off) - 192) * 256 + unat (pkt ! (off + 1))) p ls after \<Longrightarrow> name_at pkt off (Suc p) ls (off + 2)"

lemma pointer_bytes:
  "list_all (\<lambda>k. let n = of_nat k :: u8 in (n AND 0xc0 = 0xc0) = (192 \<le> k) \<and> (192 \<le> k \<longrightarrow> unat (n AND 0x3f) = k - 192)) [0..<256]"
  by code_simp

lemma is_pointer_iff: "is_pointer n \<longleftrightarrow> 192 \<le> unat n"
  and pointer_high: "is_pointer n \<Longrightarrow> unat (n AND 0x3f) = unat n - 192"
proof -
  have "unat n < 256" using unsigned_less [of n] by simp
  then have p: "(n AND 0xc0 = 0xc0) = (192 \<le> unat n)" "192 \<le> unat n \<longrightarrow> unat (n AND 0x3f) = unat n - 192"
    using pointer_bytes by (auto simp: list_all_iff Let_def dest!: bspec [of _ _ "unat n"])
  from p(1) show i: "is_pointer n \<longleftrightarrow> 192 \<le> unat n" by (simp add: is_pointer_def)
  show "is_pointer n \<Longrightarrow> unat (n AND 0x3f) = unat n - 192" using i p(2) by simp
qed

lemma dns_labels_complete:
  "name_at pkt off p ls after \<Longrightarrow> hops + p \<le> MAX_HOPS \<Longrightarrow> dns_labels pkt off next_off hops acc =
    Some (join [0x2e] (acc @ map (map label_char) ls), case next_off of None \<Rightarrow> after | Some k \<Rightarrow> k)"
proof (induction arbitrary: next_off hops acc rule: name_at.induct)
  case (name_end off)
  then show ?case by (subst dns_labels.simps) simp
next
  case (name_label off n p ls after)
  have r: "\<not> is_pointer (pkt ! off)" "pkt ! off \<noteq> 0" using name_label(2-4) by (auto simp: is_pointer_iff)
  have "dns_labels pkt off next_off hops acc = dns_labels pkt (off + 1 + n) next_off hops (acc @ [map label_char (take n (drop (off + 1) pkt))])"
    using name_label(1-3) r by (subst dns_labels.simps) (simp add: get_range_def)
  then show ?case using name_label(6) [OF name_label(7)] by simp
next
  case (name_pointer off p ls after)
  have r: "is_pointer (pkt ! off)" "pkt ! off \<noteq> 0" using name_pointer(2) by (auto simp: is_pointer_iff)
  have "hops + 1 + p \<le> MAX_HOPS" using name_pointer(5) by simp
  from name_pointer(4) [OF this] show ?case
    using name_pointer(1,5) r pointer_high [OF r(1)] by (subst dns_labels.simps) (simp split: option.splits)
qed

lemma dns_labels_sound:
  assumes "dns_labels pkt off next_off hops acc = Some (name, k)" "hops \<le> MAX_HOPS"
  shows "\<exists>p ls after. hops + p \<le> MAX_HOPS \<and> name_at pkt off p ls after \<and> name = join [0x2e] (acc @ map (map label_char) ls)
    \<and> k = (case next_off of None \<Rightarrow> after | Some k \<Rightarrow> k)"
  using assms
proof (induction pkt off next_off hops acc rule: dns_labels.induct)
  case (1 pkt off next_off hops acc)
  note unfold = dns_labels.simps [of pkt off next_off hops acc]
  have off: "off < length pkt"
  proof (rule ccontr)
    assume "\<not> off < length pkt"
    with "1.prems"(1) show False unfolding unfold by simp
  qed
  consider (stop) "pkt ! off = 0" | (jump) "pkt ! off \<noteq> 0" "is_pointer (pkt ! off)" | (label) "pkt ! off \<noteq> 0" "\<not> is_pointer (pkt ! off)"
    by blast
  then show ?case
  proof cases
    case stop
    with "1.prems"(1) off have "name = join [0x2e] acc" "k = (case next_off of None \<Rightarrow> off + 1 | Some k \<Rightarrow> k)"
      unfolding unfold by simp_all
    then show ?thesis using name_end [OF off stop] "1.prems"(2) by (intro exI [of _ 0] exI [of _ "[]"] exI [of _ "off + 1"]) simp
  next
    case jump
    let ?k = "case next_off of None \<Rightarrow> off + 2 | Some k \<Rightarrow> k"
    have s: "off + 1 < length pkt" "\<not> hops + 1 > MAX_HOPS"
      "dns_labels pkt (unat (pkt ! off AND 0x3f) * 256 + unat (pkt ! (off + 1))) (Some ?k) (hops + 1) acc = Some (name, k)"
      using jump "1.prems"(1) off unfolding unfold by (simp_all add: Let_def split: if_splits)
    from "1.IH"(1) [OF _ refl jump _ s(2,3)] off s(1,2) obtain p ls after where
      "hops + 1 + p \<le> MAX_HOPS" "name_at pkt (unat (pkt ! off AND 0x3f) * 256 + unat (pkt ! (off + 1))) p ls after"
      "name = join [0x2e] (acc @ map (map label_char) ls)" "k = ?k" by auto
    moreover from this have "name_at pkt off (Suc p) ls (off + 2)"
      using s(1) jump(2) pointer_high [OF jump(2)] by (intro name_pointer) (auto simp: is_pointer_iff)
    ultimately show ?thesis by (intro exI [of _ "Suc p"] exI [of _ ls] exI [of _ "off + 2"]) simp
  next
    case label
    obtain l where l: "get_range pkt (off + 1) (off + 1 + unat (pkt ! off)) = Some l"
      "dns_labels pkt (off + 1 + unat (pkt ! off)) next_off hops (acc @ [map label_char l]) = Some (name, k)"
      using label "1.prems"(1) off unfolding unfold by (auto simp: Let_def split: option.splits)
    from "1.IH"(2) [OF _ refl label l "1.prems"(2)] off obtain p ls after where
      a: "hops + p \<le> MAX_HOPS" "name_at pkt (off + 1 + unat (pkt ! off)) p ls after"
      "name = join [0x2e] ((acc @ [map label_char l]) @ map (map label_char) ls)" "k = (case next_off of None \<Rightarrow> after | Some k \<Rightarrow> k)" by auto
    have "l = take (unat (pkt ! off)) (drop (off + 1) pkt)" "off + 1 + unat (pkt ! off) \<le> length pkt"
      using l(1) by (auto simp: get_range_def split: if_splits)
    moreover have "0 < unat (pkt ! off)" using label(1) by (simp add: unat_gt_0)
    ultimately have "name_at pkt off p (l # ls) after"
      using a(2) label(2) name_label [of off "unat (pkt ! off)" pkt p ls after] by (simp add: is_pointer_iff)
    then show ?thesis using a by (intro exI [of _ p] exI [of _ "l # ls"] exI [of _ after]) simp
  qed
qed

text \<open>
  C23. Reading a name of a received frame is exact and safe whatever the frame holds: a name is read exactly when one stands
  there whose rest is reached over at most 16 pointers (so a circle of pointers is refused), and then it is that name's
  labels, in lower case and joined by dots, with the offset behind it. That offset is behind its start and inside
  the packet, and the name has no upper-case letter and no byte that is not ASCII.
\<close>

theorem dns_name_safe:
  "(dns_name pkt off = Some (name, after) \<longleftrightarrow>
      (\<exists>p ls. p \<le> 16 \<and> name_at pkt off p ls after \<and> name = join [0x2e] (map (map label_char) ls)))
    \<and> (dns_name pkt off = Some (name, after) \<longrightarrow>
      off < after \<and> after \<le> length pkt \<and> (\<forall>c \<in> set name. \<not> (65 \<le> c \<and> c \<le> 90) \<and> (c < 128 \<or> c = 0xfffd)))"
proof (intro conjI impI)
  show "dns_name pkt off = Some (name, after) \<longleftrightarrow>
      (\<exists>p ls. p \<le> 16 \<and> name_at pkt off p ls after \<and> name = join [0x2e] (map (map label_char) ls))"
    using dns_labels_sound [of pkt off None 0 "[]" name after] dns_labels_complete [of pkt off _ _ after 0 None "[]"]
    by (auto simp: dns_name_def MAX_HOPS_def)
next
  assume "dns_name pkt off = Some (name, after)"
  from dns_labels_bounds [OF this [unfolded dns_name_def], of off]
  show "off < after" "after \<le> length pkt" "\<forall>c \<in> set name. \<not> (65 \<le> c \<and> c \<le> 90) \<and> (c < 128 \<or> c = 0xfffd)" by simp_all
qed

text \<open>A name behind a pointer, and a pointer to itself.\<close>

theorem dns_name_safe_witness:
  "dns_name [1, 65, 0, 1, 66, 192, 0] 3 = Some (lit ''b.a'', 7) \<and> name_at [1, 65, 0, 1, 66, 192, 0] 3 1 [[66], [65]] 7
    \<and> 3 < (7 :: nat) \<and> 7 \<le> length [1, 65, 0, 1, 66, 192, 0 :: u8] \<and> (\<nexists>p ls after. p \<le> 16 \<and> name_at [192, 0] 0 p ls after)"
proof -
  have n: "dns_name [1, 65, 0, 1, 66, 192, 0] 3 = Some (lit ''b.a'', 7)" by (simp add: eval_defs dns_labels.simps)
  have "name_at [1, 65, 0, 1, 66, 192, 0] 3 1 [[66], [65]] 7"
    using name_label [of 3 1 "[1, 65, 0, 1, 66, 192, 0]" 1 "[[65]]" 7] name_pointer [of 5 "[1, 65, 0, 1, 66, 192, 0]" 0 "[[65]]" 3]
      name_label [of 0 1 "[1, 65, 0, 1, 66, 192, 0]" 0 "[]" 3] name_end [of 2 "[1, 65, 0, 1, 66, 192, 0]"]
    by (simp flip: numeral_2_eq_2)
  moreover have "dns_name [192, 0] 0 = None" by (simp add: eval_defs dns_labels.simps)
  moreover note dns_name_safe [of "[1, 65, 0, 1, 66, 192, 0]" 3 "lit ''b.a''" 7] dns_name_safe [of "[192, 0]" 0]
  ultimately show ?thesis using n by auto
qed

end
