(* ===== verification/Browse.thy ===== *)
theory Browse
  imports Mdns
begin

text \<open>
  The sender's mDNS browser (omdrop-send/src/mdns.rs): its queries, the parser of answers, what it
  keeps of them, what it still asks for and when an instance is resolved. The maps are maps and their
  iteration order is left open, so the loop of \<open>browse\<close>, which visits every instance, is modelled by
  what it does to one instance; the socket is left out. Times are nanoseconds.
\<close>

definition RESOLVE_TIMEOUT :: nat where [eval_defs]:
  "RESOLVE_TIMEOUT = 3 * 1000000000"

definition T_PTR :: u16 where [eval_defs]: "T_PTR = 12"

definition T_TXT :: u16 where [eval_defs]: "T_TXT = 16"

definition T_AAAA :: u16 where [eval_defs]: "T_AAAA = 28"

definition T_SRV :: u16 where [eval_defs]: "T_SRV = 33"

record found =
  fd_name :: ustr
  fd_server :: ustr
  fd_port :: u16
  fd_addrs :: "bytes list"
  fd_props :: "(ustr \<times> ustr) list"

record inst =
  in_display :: ustr
  in_srv :: "(u16 \<times> ustr) option"
  in_txt :: "(ustr \<times> ustr) list option"
  in_first_seen :: "nat option"
  in_last_query :: "nat option"
  in_done :: bool

definition new_inst :: "ustr \<Rightarrow> inst" where [eval_defs]:
  "new_inst display =
     \<lparr>in_display = display, in_srv = None, in_txt = None, in_first_seen = None, in_last_query = None, in_done = False\<rparr>"

datatype rdata = RPtr ustr | RSrv u16 ustr | RTxt "(ustr \<times> ustr) list" | RAaaa bytes | ROther

record rrec =
  rc_name :: ustr
  rc_ttl :: u32
  rc_data :: rdata

subsection \<open>Queries\<close>

definition encode_label :: "ustr \<Rightarrow> bytes" where [eval_defs]:
  "encode_label label = (let bs = as_bytes label; n = min 63 (length bs) in of_nat n # take n bs)"

definition encode_name :: "ustr \<Rightarrow> bytes" where [eval_defs]:
  "encode_name name =
     concat (map encode_label (split_by (\<lambda>c. c = 0x2e) (trim_end_matches (\<lambda>c. c = 0x2e) name))) @ [0]"

definition query :: "(ustr \<times> u16) list \<Rightarrow> bytes" where [eval_defs]:
  "query qs =
     [0, 0, 0, 0] @ u16_to_be (of_nat (length qs)) @ [0, 0, 0, 0, 0, 0]
     @ concat (map (\<lambda>(name, qtype). encode_name name @ u16_to_be qtype @ u16_to_be 1) qs)"

subsection \<open>Answers\<close>

definition msg_be16 :: "bytes \<Rightarrow> nat \<Rightarrow> u16 option" where [eval_defs]:
  "msg_be16 msg off = (if off + 1 < length msg then Some (u16_of_be (msg ! off) (msg ! (off + 1))) else None)"

function read_labels :: "bytes \<Rightarrow> nat \<Rightarrow> nat option \<Rightarrow> nat \<Rightarrow> nat \<Rightarrow> ustr list \<Rightarrow> (ustr \<times> nat) option" where
  "read_labels msg off end_off jumps used labels =
     (if \<not> off < length msg then None
      else (let len = msg ! off
            in if len AND 0xc0 = 0 \<and> len = 0
               then Some (join [0x2e] labels, case end_off of None \<Rightarrow> off + 1 | Some e \<Rightarrow> e)
               else if len AND 0xc0 = 0
               then (case get_range msg (off + 1) (off + 1 + unat len) of
                       None \<Rightarrow> None
                     | Some label \<Rightarrow>
                         if used + (length label + 1) > 255 then None
                         else read_labels msg (off + 1 + unat len) end_off jumps (used + (length label + 1))
                                (labels @ [from_utf8_lossy label]))
               else if len AND 0xc0 = 0xc0
               then (case msg_be16 msg off of
                       None \<Rightarrow> None
                     | Some w \<Rightarrow>
                         (let ptr = unat (w AND 0x3fff)
                          in if jumps + 1 > 32 \<or> ptr \<ge> length msg then None
                             else read_labels msg ptr (Some (case end_off of None \<Rightarrow> off + 2 | Some e \<Rightarrow> e))
                                    (jumps + 1) used labels))
               else None))"
  by pat_completeness auto
termination
proof (relation "measures [\<lambda>(_, _, _, jumps, _). 32 - jumps, \<lambda>(msg, off, _). length msg - off]")
  fix msg off end_off jumps used labels label and len :: u8
  assume "\<not> \<not> off < length msg"
  then show "((msg, off + 1 + unat len, end_off, jumps, used + (length label + 1), labels @ [from_utf8_lossy label]),
      msg, off, end_off, jumps, used, labels)
    \<in> measures [\<lambda>(_, _, _, jumps, _). 32 - jumps, \<lambda>(msg, off, _). length msg - off]" by simp
qed auto

declare read_labels.simps [simp del]

definition read_name :: "bytes \<Rightarrow> nat \<Rightarrow> (ustr \<times> nat) option" where [eval_defs]:
  "read_name msg off = read_labels msg off None 0 0 []"

function txt_entries :: "bytes \<Rightarrow> (ustr \<times> ustr) list option" where
  "txt_entries [] = Some []"
| "txt_entries (l # rest) =
     (if unat l > length rest then None
      else (let s = take (unat l) rest;
                key = takeWhile (\<lambda>c. c \<noteq> 0x3d) s;
                entry = (if 0x3d \<in> set s then [(from_utf8_lossy key, from_utf8_lossy (drop (length key + 1) s))] else [])
            in map_option (\<lambda>es. entry @ es) (txt_entries (drop (unat l) rest))))"
  by pat_completeness auto
termination by (relation "measure length") auto

definition read_rdata :: "bytes \<Rightarrow> u16 \<Rightarrow> nat \<Rightarrow> bytes \<Rightarrow> rdata option" where [eval_defs]:
  "read_rdata msg rtype start rdata =
     (if rtype = T_PTR then map_option (\<lambda>(n, _). RPtr n) (read_name msg start)
      else if rtype = T_SRV \<and> length rdata \<ge> 6
      then (case (msg_be16 msg (start + 4), read_name msg (start + 6)) of
              (Some port, Some (n, _)) \<Rightarrow> Some (RSrv port n)
            | _ \<Rightarrow> None)
      else if rtype = T_TXT then map_option RTxt (txt_entries rdata)
      else if rtype = T_AAAA \<and> length rdata = 16 then Some (RAaaa rdata)
      else Some ROther)"

fun skip_questions :: "bytes \<Rightarrow> nat \<Rightarrow> nat \<Rightarrow> nat option" where
  "skip_questions msg 0 off = Some off"
| "skip_questions msg (Suc k) off =
     (case read_name msg off of None \<Rightarrow> None | Some (_, next_off) \<Rightarrow> skip_questions msg k (next_off + 4))"

text \<open>One record at an offset, and the offset behind it.\<close>

definition read_record :: "bytes \<Rightarrow> nat \<Rightarrow> (rrec \<times> nat) option" where [eval_defs]:
  "read_record msg off =
     (case read_name msg off of
        None \<Rightarrow> None
      | Some (name, next_off) \<Rightarrow>
          (case (msg_be16 msg next_off, get_range msg (next_off + 4) (next_off + 8), msg_be16 msg (next_off + 8)) of
             (Some rtype, Some ttl, Some rdlen) \<Rightarrow>
               (let start = next_off + 10
                in (case get_range msg start (start + unat rdlen) of
                      None \<Rightarrow> None
                    | Some rdata \<Rightarrow>
                        map_option (\<lambda>d. (\<lparr>rc_name = name, rc_ttl = u32_of_be ttl, rc_data = d\<rparr>, start + unat rdlen))
                          (read_rdata msg rtype start rdata)))
           | _ \<Rightarrow> None))"

fun read_records :: "bytes \<Rightarrow> nat \<Rightarrow> nat \<Rightarrow> rrec list option" where
  "read_records msg 0 off = Some []"
| "read_records msg (Suc k) off =
     (case read_record msg off of
        None \<Rightarrow> None
      | Some (r, off') \<Rightarrow> map_option ((#) r) (read_records msg k off'))"

definition parse_message :: "bytes \<Rightarrow> rrec list option" where [eval_defs]:
  "parse_message msg =
     (case msg_be16 msg 2 of
        None \<Rightarrow> None
      | Some flags \<Rightarrow>
          if flags AND 0x8000 = 0 then None
          else (case (msg_be16 msg 4, msg_be16 msg 6, msg_be16 msg 8, msg_be16 msg 10) of
                  (Some qd, Some an, Some ns, Some ar) \<Rightarrow>
                    (case skip_questions msg (unat qd) 12 of
                       None \<Rightarrow> None
                     | Some off \<Rightarrow> read_records msg (unat an + unat ns + unat ar) off)
                | _ \<Rightarrow> None))"

subsection \<open>What is kept\<close>

abbreviation lower :: "ustr \<Rightarrow> ustr" where
  "lower s \<equiv> map to_ascii_lower s"

type_synonym instances = "ustr \<rightharpoonup> inst"
type_synonym hosts = "ustr \<rightharpoonup> bytes list"

definition absorb_ptr :: "instances \<Rightarrow> rrec \<Rightarrow> instances" where [eval_defs]:
  "absorb_ptr insts r =
     (case rc_data r of
        RPtr target \<Rightarrow>
          if rc_ttl r > 0 \<and> eq_ignore_ascii_case (rc_name r) SERVICE
          then (case insts (lower target) of None \<Rightarrow> insts(lower target \<mapsto> new_inst target) | Some _ \<Rightarrow> insts)
          else insts
      | _ \<Rightarrow> insts)"

definition update_inst :: "(inst \<Rightarrow> inst) \<Rightarrow> ustr \<Rightarrow> instances \<Rightarrow> instances" where [eval_defs]:
  "update_inst f key insts = (case insts key of None \<Rightarrow> insts | Some i \<Rightarrow> insts(key \<mapsto> f i))"

definition add_addr :: "bool \<Rightarrow> bytes \<Rightarrow> bytes list \<Rightarrow> bytes list" where [eval_defs]:
  "add_addr fresh addr list0 =
     (let l = (if fresh then [] else list0)
      in if addr \<notin> set l \<and> length l < 16 then l @ [addr] else l)"

fun absorb_data :: "rrec list \<Rightarrow> ustr set \<Rightarrow> instances \<Rightarrow> hosts \<Rightarrow> instances \<times> hosts" where
  "absorb_data [] seen insts hosts = (insts, hosts)"
| "absorb_data (r # rs) seen insts hosts =
     (if rc_ttl r = 0 then absorb_data rs seen insts hosts
      else (let key = lower (rc_name r)
            in (case rc_data r of
                  RSrv port target \<Rightarrow>
                    absorb_data rs seen (update_inst (\<lambda>i. i\<lparr>in_srv := Some (port, target)\<rparr>) key insts) hosts
                | RTxt entries \<Rightarrow>
                    absorb_data rs seen (update_inst (\<lambda>i. i\<lparr>in_txt := Some entries\<rparr>) key insts) hosts
                | RAaaa addr \<Rightarrow>
                    absorb_data rs (insert key seen) insts
                      (hosts(key \<mapsto> add_addr (key \<notin> seen) addr (case hosts key of None \<Rightarrow> [] | Some l \<Rightarrow> l)))
                | _ \<Rightarrow> absorb_data rs seen insts hosts)))"

definition absorb :: "rrec list \<Rightarrow> instances \<Rightarrow> hosts \<Rightarrow> instances \<times> hosts" where [eval_defs]:
  "absorb records insts hosts = absorb_data records {} (foldl absorb_ptr insts records) hosts"

subsection \<open>One instance\<close>

text \<open>What is asked of an instance that is not done yet, and whether the query is sent.\<close>

definition inst_questions :: "hosts \<Rightarrow> inst \<Rightarrow> (ustr \<times> u16) list" where [eval_defs]:
  "inst_questions hosts i =
     (if in_srv i = None then [(in_display i, T_SRV)] else [])
     @ (if in_txt i = None then [(in_display i, T_TXT)] else [])
     @ (case in_srv i of
          Some (_, target) \<Rightarrow> if hosts (lower target) = None then [(target, T_AAAA)] else []
        | None \<Rightarrow> [])"

definition inst_turn :: "nat \<Rightarrow> hosts \<Rightarrow> inst \<Rightarrow> inst \<times> (ustr \<times> u16) list" where [eval_defs]:
  "inst_turn now hosts i =
     (if in_done i then (i, [])
      else (let first = (case in_first_seen i of None \<Rightarrow> now | Some t \<Rightarrow> t);
                i = i\<lparr>in_first_seen := Some first\<rparr>
            in if now - first \<ge> RESOLVE_TIMEOUT then (i\<lparr>in_done := True\<rparr>, [])
               else if (case in_last_query i of None \<Rightarrow> True | Some t \<Rightarrow> now - t \<ge> 1000000000)
               then (i\<lparr>in_last_query := Some now\<rparr>, inst_questions hosts i)
               else (i, [])))"

definition resolve :: "hosts \<Rightarrow> inst \<Rightarrow> found option" where [eval_defs]:
  "resolve hosts i =
     (if in_done i then None
      else (case (in_srv i, in_txt i) of
              (Some (port, server), Some txt) \<Rightarrow>
                (case hosts (lower server) of
                   None \<Rightarrow> None
                 | Some addrs \<Rightarrow>
                     if addrs = [] then None
                     else Some \<lparr>fd_name = in_display i @ [0x2e], fd_server = server @ [0x2e], fd_port = port,
                                fd_addrs = addrs, fd_props = txt\<rparr>)
            | _ \<Rightarrow> None))"

subsection \<open>Reading back an announcement\<close>

definition canonical :: "ustr \<Rightarrow> ustr" where
  "canonical name = join [0x2e] (name_labels name)"

lemma small_and: "unat (n :: u8) < 64 \<Longrightarrow> n AND 0xc0 = 0"
proof (rule bit_word_eqI)
  fix k :: nat
  assume n: "unat n < 64" and k: "k < LENGTH(8)"
  show "bit (n AND 0xc0) k = bit (0 :: u8) k"
  proof (cases "k < 6")
    case True
    then have "k \<in> {0, 1, 2, 3, 4, 5}" by auto
    then show ?thesis by (auto simp: bit_and_iff bit_numeral_rec)
  next
    case False
    with k have "k = 6 \<or> k = 7" by auto
    moreover have "\<not> bit (unat n) 6" "\<not> bit (unat n) 7" using n by (simp_all add: bit_iff_odd)
    ultimately show ?thesis by (auto simp: bit_and_iff bit_unsigned_iff)
  qed
qed

lemma read_labels_encoded:
  assumes "\<forall>l \<in> set ls. label_ok l" "used + sum_list (map (\<lambda>l. length l + 1) ls) \<le> 255"
  shows "read_labels (pre @ encode_labels ls @ post) (length pre) end_off jumps used acc =
    Some (join [0x2e] (acc @ ls),
          case end_off of None \<Rightarrow> length pre + length (encode_labels ls) | Some k \<Rightarrow> k)"
  using assms
proof (induction ls arbitrary: pre acc used)
  case Nil
  show ?case by (subst read_labels.simps) (simp add: encode_labels_def nth_append split: option.splits)
next
  case (Cons l ls)
  let ?n = "of_nat (str_len l) :: u8"
  from Cons.prems(1) have ok: "label_ok l" by simp
  then have len: "str_len l \<le> 63" "l \<noteq> []" "str_len l = length l" using label_ok_bytes [OF ok] by (auto simp: label_ok_def)
  then have "unat ?n = str_len l" by (simp add: unsigned_of_nat take_bit_nat_eq_self)
  with len have n: "unat ?n = str_len l" "?n \<noteq> 0" by (auto simp: unat_eq_zero [symmetric])
  have a: "?n AND 0xc0 = 0" using small_and [of ?n] n len by simp
  let ?pkt = "(pre @ [?n] @ as_bytes l) @ encode_labels ls @ post"
  have pkt: "pre @ encode_labels (l # ls) @ post = ?pkt" by (simp add: encode_labels_Cons)
  have r: "get_range ?pkt (length pre + 1) (length pre + 1 + str_len l) = Some (as_bytes l)"
    using get_range_mid [of "pre @ [?n]" "length pre + 1" "length pre + 1 + str_len l" "as_bytes l" "encode_labels ls @ post"]
    by simp
  have "\<forall>c \<in> set l. is_scalar c" using ok by (auto simp: label_ok_def is_scalar_def)
  then have u: "from_utf8_lossy (as_bytes l) = l" by (simp add: from_utf8_lossy_as_bytes)
  have "read_labels ?pkt (length pre) end_off jumps used acc =
      read_labels ?pkt (length pre + 1 + str_len l) end_off jumps (used + (length l + 1)) (acc @ [l])"
    using n a r u Cons.prems(2) len by (subst read_labels.simps) (simp add: nth_append)
  also have "\<dots> = Some (join [0x2e] ((acc @ [l]) @ ls),
      case end_off of None \<Rightarrow> length (pre @ [?n] @ as_bytes l) + length (encode_labels ls) | Some k \<Rightarrow> k)"
    using Cons.IH [of "used + (length l + 1)" "pre @ [?n] @ as_bytes l" "acc @ [l]"] Cons.prems by simp
  finally show ?case unfolding pkt by (simp add: encode_labels_Cons split: option.splits)
qed

lemma read_name_dname:
  assumes "dname name = Ok w"
  shows "read_name (pre @ w @ post) (length pre) = Some (canonical name, length pre + length w)"
proof -
  from dname_Ok [OF assms] have w: "w = encode_labels (name_labels name)" "\<forall>l \<in> set (name_labels name). label_ok l" "length w \<le> 255"
    by auto
  have "length (encode_labels ls) = 1 + sum_list (map (\<lambda>l. length l + 1) ls)" if "\<forall>l \<in> set ls. label_ok l" for ls
    using that by (induction ls) (simp_all add: encode_labels_Cons label_ok_bytes, simp add: encode_labels_def)
  from this [OF w(2)] w(1,3) have "sum_list (map (\<lambda>l. length l + 1) (name_labels name)) \<le> 255" by simp
  from read_labels_encoded [OF w(2), of 0 pre post None 0 "[]"] this show ?thesis
    by (simp add: read_name_def canonical_def w(1))
qed

lemma msg_be16_mid: "length pre = a \<Longrightarrow> msg_be16 (pre @ u16_to_be w @ post) a = Some w"
  by (simp add: msg_be16_def nth_append) (simp add: u16_to_be_def u16_of_be_to_be)

text \<open>One record that \<open>rr\<close> built, wherever it stands.\<close>

lemma read_record_rr:
  assumes "rr name rtype rclass ttl rdata = Ok r" "dname name = Ok w"
  shows "read_record (pre @ r @ post) (length pre) =
    map_option (\<lambda>d. (\<lparr>rc_name = canonical name, rc_ttl = ttl, rc_data = d\<rparr>, length pre + length r))
      (read_rdata (pre @ r @ post) rtype (length pre + length w + 10) rdata)
    \<and> r = w @ u16_to_be rtype @ u16_to_be rclass @ u32_to_be ttl @ u16_to_be (of_nat (length rdata)) @ rdata"
proof -
  from assms have short: "length rdata < 65536"
    and r: "r = w @ u16_to_be rtype @ u16_to_be rclass @ u32_to_be ttl @ u16_to_be (of_nat (length rdata)) @ rdata"
    by (auto simp: rr_def split: if_splits)
  let ?msg = "pre @ r @ post" and ?o = "length pre + length w"
  have n: "read_name ?msg (length pre) = Some (canonical name, ?o)"
    using read_name_dname [OF assms(2), of pre "drop (length w) r @ post"] by (simp add: r)
  have t: "msg_be16 ?msg ?o = Some rtype"
    using msg_be16_mid [of "pre @ w" ?o rtype "u16_to_be rclass @ u32_to_be ttl @ u16_to_be (of_nat (length rdata)) @ rdata @ post"] by (simp add: r)
  have l: "get_range ?msg (?o + 4) (?o + 8) = Some (u32_to_be ttl)"
    using get_range_mid [of "pre @ w @ u16_to_be rtype @ u16_to_be rclass" "?o + 4" "?o + 8" "u32_to_be ttl" "u16_to_be (of_nat (length rdata)) @ rdata @ post"]
    by (simp add: r)
  have dl: "msg_be16 ?msg (?o + 8) = Some (of_nat (length rdata))"
    using msg_be16_mid [of "pre @ w @ u16_to_be rtype @ u16_to_be rclass @ u32_to_be ttl" "?o + 8" "of_nat (length rdata)" "rdata @ post"] by (simp add: r)
  have len: "unat (of_nat (length rdata) :: u16) = length rdata" using short by (simp add: unsigned_of_nat take_bit_nat_eq_self)
  have d: "get_range ?msg (?o + 10) (?o + 10 + length rdata) = Some rdata"
    using get_range_mid [of "pre @ w @ u16_to_be rtype @ u16_to_be rclass @ u32_to_be ttl @ u16_to_be (of_nat (length rdata))" "?o + 10" "?o + 10 + length rdata" rdata post]
    by (simp add: r)
  have e: "?o + 10 + length rdata = length pre + length r" by (simp add: r)
  have "read_record ?msg (length pre) =
      map_option (\<lambda>d. (\<lparr>rc_name = canonical name, rc_ttl = ttl, rc_data = d\<rparr>, length pre + length r))
        (read_rdata ?msg rtype (?o + 10) rdata)"
    unfolding read_record_def n option.case prod.case t l dl len Let_def e d [unfolded e] u32_of_be_to_be ..
  with r show ?thesis by blast
qed

end
