(* ===== verification/Discovery.thy ===== *)
theory Discovery
  imports Browse
begin

text \<open>
  The three sides of service discovery together: what omdrop-adv announces is what omdrop-send's browser
  resolves, and what the browser asks is what the responder of omdrop-adv answers, through the frames
  both use.
\<close>

subsection \<open>An announcement resolves\<close>

lemma canonical_service: "canonical SERVICE = SERVICE"
  by (simp add: canonical_def eval_defs)

lemma ptr_data:
  assumes "dname name = Ok w"
  shows "read_rdata (pre @ w @ post) T_PTR (length pre) w = Some (RPtr (canonical name))"
  using read_name_dname [OF assms, of pre post] by (simp add: read_rdata_def)

lemma srv_data:
  assumes "dname name = Ok w"
  shows "read_rdata (pre @ ([0, 0, 0, 0] @ u16_to_be port @ w) @ post) T_SRV (length pre) ([0, 0, 0, 0] @ u16_to_be port @ w)
    = Some (RSrv port (canonical name))"
proof -
  let ?m = "pre @ ([0, 0, 0, 0] @ u16_to_be port @ w) @ post"
  have "msg_be16 ?m (length pre + 4) = Some port"
    using msg_be16_mid [of "pre @ [0, 0, 0, 0]" "length pre + 4" port "w @ post"] by simp
  moreover have "read_name ?m (length pre + 6) = Some (canonical name, length pre + 6 + length w)"
    using read_name_dname [OF assms, of "pre @ [0, 0, 0, 0] @ u16_to_be port" post] by simp
  ultimately show ?thesis by (simp add: read_rdata_def T_SRV_def T_PTR_def)
qed

definition flags_text :: "nat \<Rightarrow> ustr" where
  "flags_text flags = lit ''flags='' @ dec flags"

lemma flags_ascii: "\<forall>c \<in> set (flags_text flags). c < 128"
proof -
  have "c < 128" if "c \<in> set (dec flags)" for c using dec_digit [OF that] by (simp add: is_ascii_digit_def)
  then show ?thesis by (auto simp: flags_text_def lit_def)
qed

lemma ascii_bytes: "\<forall>c \<in> set s. c < 128 \<Longrightarrow> as_bytes s = map of_nat s"
  by (induction s) (auto simp: as_bytes_def utf8_char_def)

lemma txt_data:
  assumes "flags < 2 ^ 64"
  shows "txt_entries (of_nat (str_len (flags_text flags)) # as_bytes (flags_text flags)) = Some [(lit ''flags'', dec flags)]"
proof -
  let ?k = "map of_nat (lit ''flags'') :: bytes" and ?v = "map of_nat (dec flags) :: bytes"
  have dig: "c \<in> set (dec flags) \<Longrightarrow> 48 \<le> c \<and> c \<le> 57" for c using dec_digit by (force simp: is_ascii_digit_def)
  have word8: "unat (of_nat k :: u8) = k" if "k < 256" for k using that by (simp add: unsigned_of_nat take_bit_nat_eq_self)
  have "flags < 10 ^ 20" using assms by simp
  then have "length (dec flags) \<le> 20" by (intro length_show_radix) simp_all
  moreover have sl: "str_len (flags_text flags) = 6 + length (dec flags)"
    using str_len_ascii [of "flags_text flags"] flags_ascii by (simp add: flags_text_def lit_def)
  ultimately have n: "unat (of_nat (str_len (flags_text flags)) :: u8) = length (as_bytes (flags_text flags))"
    using word8 [of "str_len (flags_text flags)"] by simp
  have b: "as_bytes (flags_text flags) = ?k @ 0x3d # ?v"
    unfolding ascii_bytes [OF flags_ascii] by (simp add: flags_text_def lit_def)
  have k: "takeWhile (\<lambda>c. c \<noteq> 0x3d) (?k @ 0x3d # ?v) = ?k" by (simp add: lit_def)
  have "from_utf8_lossy ?k = lit ''flags''" "from_utf8_lossy ?v = dec flags"
    using from_utf8_lossy_as_bytes [of "lit ''flags''"] from_utf8_lossy_as_bytes [of "dec flags"]
      ascii_bytes [of "lit ''flags''"] ascii_bytes [of "dec flags"] dig
    by (fastforce simp: lit_def is_scalar_def)+
  then show ?thesis using n k by (simp add: b Let_def)
qed

text \<open>The record list of an announcement.\<close>

definition announced :: "ustr \<Rightarrow> ustr \<Rightarrow> u16 \<Rightarrow> nat \<Rightarrow> bytes \<Rightarrow> rrec list" where
  "announced sid host port flags ll =
     (let inst = canonical (sid @ [0x2e] @ SERVICE)
      in [\<lparr>rc_name = SERVICE, rc_ttl = 4500, rc_data = RPtr inst\<rparr>,
          \<lparr>rc_name = inst, rc_ttl = 120, rc_data = RSrv port (canonical host)\<rparr>,
          \<lparr>rc_name = inst, rc_ttl = 4500, rc_data = RTxt [(lit ''flags'', dec flags)]\<rparr>,
          \<lparr>rc_name = canonical host, rc_ttl = 120, rc_data = RAaaa ll\<rparr>])"

lemma rr_name: "rr name t c ttl d = Ok r \<Longrightarrow> \<exists>w. dname name = Ok w"
  by (auto simp: rr_def split: if_splits result.splits)

lemma announcement_parses:
  assumes "announcement sid host port flags ll = Ok msg" "length ll = 16" "flags < 2 ^ 64"
  shows "parse_message msg = Some (announced sid host port flags ll)"
proof -
  let ?inst = "sid @ [0x2e] @ SERVICE" and ?t = "flags_text flags"
  from assms(1) obtain target iname ptr srv tx aaaa where
    n: "dname host = Ok target" "dname ?inst = Ok iname" and
    r: "rr SERVICE 12 1 4500 iname = Ok ptr" "rr ?inst 33 CACHE_FLUSH 120 ([0, 0, 0, 0] @ u16_to_be port @ target) = Ok srv"
      "rr ?inst 16 CACHE_FLUSH 4500 (of_nat (str_len ?t) # as_bytes ?t) = Ok tx" "rr host 28 CACHE_FLUSH 120 ll = Ok aaaa"
    and msg: "msg = concat (map u16_to_be [0, 0x8400, 0, 4, 0, 0]) @ ptr @ srv @ tx @ aaaa"
    by (auto simp: announcement_def Let_def flags_text_def split: result.splits)
  from rr_name [OF r(1)] obtain sw where sw: "dname SERVICE = Ok sw" by blast
  define h :: bytes where "h = concat (map u16_to_be [0, 0x8400, 0, 4, 0, 0])"
  have hlen: "length h = 12" by (simp add: h_def)
  have m: "msg = h @ ptr @ srv @ tx @ aaaa" unfolding msg h_def ..
  have head: "msg_be16 msg 2 = Some 0x8400" "msg_be16 msg 4 = Some 0" "msg_be16 msg 6 = Some 4" "msg_be16 msg 8 = Some 0" "msg_be16 msg 10 = Some 0"
    unfolding msg by (simp_all add: msg_be16_def u16_to_be_def) (simp_all add: u16_of_be_def)
  note p1 = read_record_rr [OF r(1) sw, of h "srv @ tx @ aaaa"]
  have "read_rdata msg 12 (12 + length sw + 10) iname = Some (RPtr (canonical ?inst))"
    using ptr_data [OF n(2), of "h @ sw @ u16_to_be 12 @ u16_to_be 1 @ u32_to_be 4500 @ u16_to_be (of_nat (length iname))" "srv @ tx @ aaaa"]
    by (simp add: m p1 [THEN conjunct2] hlen T_PTR_def)
  with p1 [THEN conjunct1] have "read_record msg 12 = Some (\<lparr>rc_name = SERVICE, rc_ttl = 4500, rc_data = RPtr (canonical ?inst)\<rparr>, 12 + length ptr)"
    unfolding m hlen canonical_service by (simp only: option.map)
  moreover note p2 = read_record_rr [OF r(2) n(2), of "h @ ptr" "tx @ aaaa"]
  have "read_rdata msg 33 (12 + length ptr + length iname + 10) ([0, 0, 0, 0] @ u16_to_be port @ target) = Some (RSrv port (canonical host))"
    using srv_data [OF n(1), of "h @ ptr @ iname @ u16_to_be 33 @ u16_to_be CACHE_FLUSH @ u32_to_be 120 @ u16_to_be (of_nat (6 + length target))" port "tx @ aaaa"]
    by (simp add: m p2 [THEN conjunct2] hlen T_SRV_def add.assoc)
  with p2 [THEN conjunct1] have "read_record msg (12 + length ptr) = Some (\<lparr>rc_name = canonical ?inst, rc_ttl = 120, rc_data = RSrv port (canonical host)\<rparr>, 12 + length ptr + length srv)"
    unfolding m append_assoc length_append hlen by (simp only: option.map)
  moreover note p3 = read_record_rr [OF r(3) n(2), of "h @ ptr @ srv" "aaaa"]
  have "read_rdata mm 16 o' (of_nat (str_len ?t) # as_bytes ?t) = Some (RTxt [(lit ''flags'', dec flags)])" for mm o'
    using txt_data [OF assms(3)] by (simp add: read_rdata_def T_TXT_def T_PTR_def T_SRV_def)
  with p3 [THEN conjunct1] have "read_record msg (12 + length ptr + length srv) =
      Some (\<lparr>rc_name = canonical ?inst, rc_ttl = 4500, rc_data = RTxt [(lit ''flags'', dec flags)]\<rparr>, 12 + length ptr + length srv + length tx)"
    unfolding m append_assoc length_append hlen add.assoc by (simp only: option.map)
  moreover note p4 = read_record_rr [OF r(4) n(1), of "h @ ptr @ srv @ tx" "[]"]
  have "read_rdata mm 28 o' ll = Some (RAaaa ll)" for mm o'
    using assms(2) by (simp add: read_rdata_def T_TXT_def T_PTR_def T_SRV_def T_AAAA_def)
  with p4 [THEN conjunct1] have "read_record msg (12 + length ptr + length srv + length tx) =
      Some (\<lparr>rc_name = canonical host, rc_ttl = 120, rc_data = RAaaa ll\<rparr>, 12 + length ptr + length srv + length tx + length aaaa)"
    unfolding m append_assoc length_append hlen add.assoc append_Nil2 by (simp only: option.map)
  ultimately have "read_records msg 4 12 = Some (announced sid host port flags ll)"
    by (simp add: eval_nat_numeral announced_def Let_def)
  with head show ?thesis by (simp add: parse_message_def)
qed

text \<open>
  C24. What is announced is found: the browser parses the announcement \<open>omdrop-adv\<close> builds to exactly
  its four records, and if it did not know the instance, absorbing them makes it known and resolved at
  once, under the announced instance name, host, port, address and flags, whatever else was known.
\<close>

theorem announcement_resolves:
  assumes "announcement sid host port flags ll = Ok msg" "length ll = 16" "flags < 2 ^ 64"
    and "insts (lower (canonical (sid @ [0x2e] @ SERVICE))) = None"
  shows "\<exists>records i. parse_message msg = Some records \<and> length records = 4 \<and>
    absorb records insts hosts =
      (insts(lower (canonical (sid @ [0x2e] @ SERVICE)) \<mapsto> i), hosts(lower (canonical host) \<mapsto> [ll])) \<and>
    resolve (hosts(lower (canonical host) \<mapsto> [ll])) i =
      Some \<lparr>fd_name = canonical (sid @ [0x2e] @ SERVICE) @ [0x2e], fd_server = canonical host @ [0x2e], fd_port = port,
            fd_addrs = [ll], fd_props = [(lit ''flags'', dec flags)]\<rparr>"
proof -
  let ?n = "canonical (sid @ [0x2e] @ SERVICE)"
  let ?i = "(new_inst ?n)\<lparr>in_srv := Some (port, canonical host), in_txt := Some [(lit ''flags'', dec flags)]\<rparr>"
  have s: "eq_ignore_ascii_case SERVICE SERVICE" by (simp add: eq_ignore_ascii_case_def)
  have "foldl absorb_ptr insts (announced sid host port flags ll) = insts(lower ?n \<mapsto> new_inst ?n)"
    using assms(4) s by (simp add: announced_def Let_def absorb_ptr_def)
  then have "absorb (announced sid host port flags ll) insts hosts =
      (insts(lower ?n \<mapsto> ?i), hosts(lower (canonical host) \<mapsto> [ll]))"
    by (simp add: absorb_def announced_def Let_def update_inst_def add_addr_def)
  moreover have "resolve (hosts(lower (canonical host) \<mapsto> [ll])) ?i =
      Some \<lparr>fd_name = ?n @ [0x2e], fd_server = canonical host @ [0x2e], fd_port = port, fd_addrs = [ll],
            fd_props = [(lit ''flags'', dec flags)]\<rparr>"
    by (simp add: resolve_def new_inst_def)
  moreover have "length (announced sid host port flags ll) = 4" by (simp add: announced_def Let_def)
  ultimately show ?thesis using announcement_parses [OF assms(1-3)] by blast
qed

subsection \<open>A query is answered\<close>

definition query_labels :: "ustr \<Rightarrow> ustr list" where
  "query_labels name = split_by (\<lambda>c. c = 0x2e) (trim_end_matches (\<lambda>c. c = 0x2e) name)"

lemma encode_name_labels: "\<forall>l \<in> set (query_labels name). label_ok l \<Longrightarrow> encode_name name = encode_labels (query_labels name)"
proof -
  assume ok: "\<forall>l \<in> set (query_labels name). label_ok l"
  have "encode_label l = of_nat (str_len l) # as_bytes l" if "label_ok l" for l
  proof -
    have "min 63 (str_len l) = str_len l" using that label_ok_bytes [OF that] by (simp add: label_ok_def)
    then show ?thesis by (simp add: encode_label_def Let_def)
  qed
  with ok have "map encode_label (query_labels name) = map (\<lambda>l. of_nat (str_len l) # as_bytes l) (query_labels name)" by simp
  then show ?thesis unfolding encode_name_def encode_labels_def query_labels_def by (simp only:)
qed

lemma join_map_lower: "join [0x2e] (map lower ls) = lower (join [0x2e] ls)"
proof -
  have "join (map f sep) (map (map f) ls) = map f (join sep ls)" for f :: "nat \<Rightarrow> nat" and sep
    by (induction sep ls rule: join.induct) simp_all
  from this [of to_ascii_lower "[0x2e]"] show ?thesis by (simp add: to_ascii_lower_def)
qed

lemma question_names_query:
  assumes "\<forall>(n, t) \<in> set qs. \<forall>l \<in> set (query_labels n). label_ok l"
  shows "question_names (pre @ concat (map (\<lambda>(name, qtype). encode_name name @ u16_to_be qtype @ u16_to_be 1) qs)) (length qs) (length pre)
    = Some (map (\<lambda>(n, t). lower (trim_end_matches (\<lambda>c. c = 0x2e) n)) qs)"
  using assms
proof (induction qs arbitrary: pre)
  case (Cons q qs)
  obtain n t where q: "q = (n, t)" by fastforce
  let ?w = "encode_labels (query_labels n)" and ?c = "concat (map (\<lambda>(name, qtype). encode_name name @ u16_to_be qtype @ u16_to_be 1) qs)"
  from Cons.prems q have ok: "\<forall>l \<in> set (query_labels n). label_ok l" by simp
  have "dns_name (pre @ ?w @ u16_to_be t @ u16_to_be 1 @ ?c) (length pre) =
      Some (lower (trim_end_matches (\<lambda>c. c = 0x2e) n), length pre + length ?w)"
    using dns_labels_encoded [OF ok, of pre "u16_to_be t @ u16_to_be 1 @ ?c" None 0 "[]"]
    by (simp add: dns_name_def join_map_lower query_labels_def join_split_by_eq)
  moreover have "question_names (pre @ ?w @ u16_to_be t @ u16_to_be 1 @ ?c) (length qs) (length pre + length ?w + 4)
      = Some (map (\<lambda>(n, t). lower (trim_end_matches (\<lambda>c. c = 0x2e) n)) qs)"
    using Cons.IH [of "pre @ ?w @ u16_to_be t @ u16_to_be 1"] Cons.prems by (simp add: add.assoc)
  ultimately show ?case by (simp add: q encode_name_labels [OF ok])
qed simp

lemma questions_query:
  assumes "\<forall>(n, t) \<in> set qs. \<forall>l \<in> set (query_labels n). label_ok l" "qs \<noteq> []" "length qs < 65536"
  shows "questions (query qs) = map (\<lambda>(n, t). lower (trim_end_matches (\<lambda>c. c = 0x2e) n)) qs"
proof -
  let ?h = "[0, 0, 0, 0] @ u16_to_be (of_nat (length qs)) @ [0, 0, 0, 0, 0, 0] :: bytes"
  let ?c = "concat (map (\<lambda>(name, qtype). encode_name name @ u16_to_be qtype @ u16_to_be 1) qs)"
  have q: "query qs = ?h @ ?c" by (simp add: query_def)
  have "be16 (query qs) 2 = Some 0" by (simp add: query_def be16_def get_range_def u16_of_be_def)
  moreover have "be16 (query qs) 4 = Some (of_nat (length qs))"
    using be16_mid [of "[0, 0, 0, 0]" 4 "of_nat (length qs)" "[0, 0, 0, 0, 0, 0] @ ?c"] by (simp add: query_def)
  moreover have n: "unat (of_nat (length qs) :: u16) = length qs" using assms(3) by (simp add: unsigned_of_nat take_bit_nat_eq_self)
  moreover have "of_nat (length qs) \<noteq> (0 :: u16)" using n assms(2) by (metis length_0_conv unsigned_0)
  moreover have "question_names (query qs) (length qs) 12 = Some (map (\<lambda>(n, t). lower (trim_end_matches (\<lambda>c. c = 0x2e) n)) qs)"
    using question_names_query [OF assms(1), of ?h] unfolding q by simp
  moreover have "length (query qs) \<ge> 12" by (simp add: query_def)
  ultimately show ?thesis unfolding questions_def by simp
qed

text \<open>
  C25. What the browser asks is answered: whenever a query it builds reaches the responder in a frame of
  another machine and names one of ours (in whatever case, with a final dot or without), the responder
  answers, for the first such name.
\<close>

theorem query_answered:
  assumes "mdns_payload frame = Some (src, query qs)" "src \<noteq> mac" "length qs < 65536"
    and "\<forall>(n, t) \<in> set qs. \<forall>l \<in> set (query_labels n). label_ok l"
    and "(name, qtype) \<in> set qs" "lower (trim_end_matches (\<lambda>c. c = 0x2e) name) \<in> ours"
  shows "\<exists>hit \<in> ours. wanted frame mac ours = Some (src, hit)"
proof -
  from assms(5) have "qs \<noteq> []" by auto
  note qn = questions_query [OF assms(4) this assms(3)]
  have "lower (trim_end_matches (\<lambda>c. c = 0x2e) name) \<in> set (questions (query qs))"
    using assms(5) unfolding qn by (force simp: image_iff)
  with assms(6) obtain hit where "find (\<lambda>q. q \<in> ours) (questions (query qs)) = Some hit" "hit \<in> ours"
    by (metis (no_types, lifting) find_None_iff find_Some_iff option.exhaust)
  with assms(1,2) show ?thesis by (auto simp: wanted_def)
qed

subsection \<open>Frames\<close>

lemma udp6_parts:
  assumes "udp6 src dst dns = Ok d" "length src = 16" "length dst = 16" "length pre = off"
  shows "\<exists>ip6 udp. get_range (pre @ d) off (off + 40) = Some ip6 \<and> ip6 ! 6 = 17 \<and>
    get_range (pre @ d) (off + 40) (off + 48) = Some udp \<and> be16 udp 2 = Some MDNS_PORT \<and> drop (off + 48) (pre @ d) = dns"
proof -
  from assms(1) obtain len ck where
    d: "d = (u32_to_be 0x60000000 @ u16_to_be len @ [17, 255] @ src @ dst) @ udp_header len ck @ dns"
    by (auto simp: udp6_def Let_def split: if_splits)
  let ?ip = "u32_to_be 0x60000000 @ u16_to_be len @ [17, 255] @ src @ dst"
  have "get_range (pre @ d) off (off + 40) = Some ?ip"
    unfolding d using get_range_mid [of pre off "off + 40" ?ip "udp_header len ck @ dns"] assms(2-4) by simp
  moreover have "?ip ! 6 = 17" by (simp add: nth_append)
  moreover have "get_range (pre @ d) (off + 40) (off + 48) = Some (udp_header len ck)"
    unfolding d using get_range_mid [of "pre @ ?ip" "off + 40" "off + 48" "udp_header len ck" dns] assms(2-4)
    by (simp add: udp_header_def)
  moreover have "be16 (udp_header len ck) 2 = Some MDNS_PORT"
    unfolding udp_header_def by (rule be16_mid) simp
  moreover have "drop (off + 48) (pre @ d) = dns" by (simp add: d udp_header_def assms(2-4))
  ultimately show ?thesis by blast
qed

lemma wrap_offset:
  assumes "wrap mac d seq snap = Ok frame" "length mac = 6" "snap \<longrightarrow> length d \<le> 1484"
  obtains pre off where "frame = pre @ d" "length pre = off" "ip6_offset frame = Some off" "get_range frame 6 12 = Some mac"
proof (cases snap)
  case False
  let ?pre = "MDNS_MAC @ mac @ u16_to_be ETH_P_IPV6"
  from False assms(1) have f: "frame = ?pre @ d" by (simp add: wrap_def)
  have "be16 frame 12 = Some ETH_P_IPV6"
    using be16_mid [of "MDNS_MAC @ mac" 12 ETH_P_IPV6 d] assms(2) by (simp add: f MDNS_MAC_def)
  then have "ip6_offset frame = Some 14" by (simp add: ip6_offset_def)
  moreover have "get_range frame 6 12 = Some mac"
    using get_range_mid [of MDNS_MAC 6 12 mac "u16_to_be ETH_P_IPV6 @ d"] assms(2) by (simp add: f MDNS_MAC_def)
  ultimately show thesis using that [OF f, of 14] assms(2) by (simp add: MDNS_MAC_def)
next
  case True
  let ?len = "of_nat (16 + length d) :: u16"
  let ?pre = "MDNS_MAC @ mac @ u16_to_be ?len @ [0xaa, 0xaa, 0x03] @ APPLE_OUI @ AWDL_PROTO @ AWDL_MAGIC @ u16_to_le seq @ [0, 0] @ u16_to_be ETH_P_IPV6"
  from True assms(1,3) have f: "frame = ?pre @ d" by (simp add: wrap_def)
  from True assms(3) have "unat ?len = 16 + length d" by (simp only: unsigned_of_nat) (simp add: take_bit_nat_eq_self)
  with True assms(3) have le: "?len \<le> 1500" "?len \<noteq> ETH_P_IPV6" by (auto simp: word_le_nat_alt ETH_P_IPV6_def)
  have "be16 frame 12 = Some ?len"
    using be16_mid [of "MDNS_MAC @ mac" 12 ?len "[0xaa, 0xaa, 0x03] @ APPLE_OUI @ AWDL_PROTO @ AWDL_MAGIC @ u16_to_le seq @ [0, 0] @ u16_to_be ETH_P_IPV6 @ d"]
      assms(2) by (simp add: f MDNS_MAC_def)
  moreover have "get_range frame 14 17 = Some [0xaa, 0xaa, 0x03]"
    using get_range_mid [of "MDNS_MAC @ mac @ u16_to_be ?len" 14 17 "[0xaa, 0xaa, 0x03]"] assms(2) by (simp add: f MDNS_MAC_def)
  moreover have "get_range frame 17 22 = Some (APPLE_OUI @ AWDL_PROTO)"
    using get_range_mid [of "MDNS_MAC @ mac @ u16_to_be ?len @ [0xaa, 0xaa, 0x03]" 17 22 "APPLE_OUI @ AWDL_PROTO"] assms(2)
    by (simp add: f MDNS_MAC_def APPLE_OUI_def AWDL_PROTO_def)
  moreover have "be16 frame 28 = Some ETH_P_IPV6"
    using be16_mid [of "MDNS_MAC @ mac @ u16_to_be ?len @ [0xaa, 0xaa, 0x03] @ APPLE_OUI @ AWDL_PROTO @ AWDL_MAGIC @ u16_to_le seq @ [0, 0]" 28 ETH_P_IPV6 d]
      assms(2) by (simp add: f MDNS_MAC_def APPLE_OUI_def AWDL_PROTO_def AWDL_MAGIC_def)
  ultimately have "ip6_offset frame = Some 30"
    using le by (simp add: ip6_offset_def APPLE_OUI_def AWDL_PROTO_def)
  moreover have "get_range frame 6 12 = Some mac"
    using get_range_mid [of MDNS_MAC 6 12 mac] assms(2) by (simp add: f MDNS_MAC_def)
  ultimately show thesis using that [OF f, of 30] assms(2)
    by (simp add: MDNS_MAC_def APPLE_OUI_def AWDL_PROTO_def AWDL_MAGIC_def)
qed

lemma mdns_payload_wrap:
  assumes "udp6 src dst dns = Ok d" "wrap mac d seq snap = Ok frame" "length src = 16" "length dst = 16" "length mac = 6"
    and "snap \<longrightarrow> length dns \<le> 1436"
  shows "mdns_payload frame = Some (mac, dns)"
proof -
  have "length d = 48 + length dns" using assms(1,3,4) by (auto simp: udp6_def Let_def udp_header_def split: if_splits)
  with assms(6) have "snap \<longrightarrow> length d \<le> 1484" by simp
  from wrap_offset [OF assms(2,5) this] obtain pre off where
    w: "frame = pre @ d" "length pre = off" "ip6_offset frame = Some off" "get_range frame 6 12 = Some mac" by blast
  from udp6_parts [OF assms(1,3,4) w(2)] w show ?thesis by (auto simp: mdns_payload_def)
qed

text \<open>
  C26. What goes into a frame comes out of it: the responder finds the sender's address and the DNS
  message in every frame the announcer builds, plain or in Apple's SNAP encapsulation, as long as a
  SNAP frame's length is a length (at most 1500). And it never answers an announcement or a reply, its
  own or another machine's.
\<close>

theorem frame_round_trip:
  assumes "udp6 src dst dns = Ok d" "wrap mac d seq snap = Ok frame" "length src = 16" "length dst = 16" "length mac = 6"
    and "snap \<longrightarrow> length dns \<le> 1436"
  shows "mdns_payload frame = Some (mac, dns) \<and>
    (announcement sid host port flags ll = Ok dns \<or> reply sid host port flags ll = Ok dns \<longrightarrow> wanted frame other ours = None)"
proof -
  note p = mdns_payload_wrap [OF assms]
  have ann: "\<exists>r. m = concat (map u16_to_be [0, 0x8400, 0, 4, 0, 0]) @ r" if "announcement sid host port flags ll = Ok m" for m
    using that unfolding announcement_def Let_def by (auto split: result.splits)
  have "be16 dns 2 = Some 0x8400" if r: "announcement sid host port flags ll = Ok dns \<or> reply sid host port flags ll = Ok dns"
  proof -
    have "\<exists>w r. dns = u16_to_be 0 @ u16_to_be 0x8400 @ u16_to_be 0 @ w @ r"
      using r
    proof
      assume "announcement sid host port flags ll = Ok dns"
      with ann show ?thesis by fastforce
    next
      assume rep: "reply sid host port flags ll = Ok dns"
      then obtain m where m: "announcement sid host port flags ll = Ok m" by (auto simp: reply_def split: result.splits)
      from ann [OF m] obtain r where mr: "m = concat (map u16_to_be [0, 0x8400, 0, 4, 0, 0]) @ r" by blast
      from rep m show ?thesis by (auto simp: reply_def Let_def mr split: result.splits)
    qed
    then obtain w r where "dns = u16_to_be 0 @ u16_to_be 0x8400 @ u16_to_be 0 @ w @ r" by blast
    then show ?thesis using be16_mid [of "u16_to_be 0" 2 "0x8400" "u16_to_be 0 @ w @ r"] by simp
  qed
  then have "questions dns = []" if "announcement sid host port flags ll = Ok dns \<or> reply sid host port flags ll = Ok dns"
    using that by (simp add: questions_def split: option.splits)
  with p show ?thesis by (auto simp: wanted_def)
qed

subsection \<open>The name a machine announces\<close>

text \<open>
  Without an override a machine announces its host name's first label, cut down to letters, digits
  and inner hyphens, with \<open>-awdl\<close> behind; that name can be announced exactly when what is left of the
  label has at most 58 characters.
\<close>

theorem machine_name_announced:
  "(\<exists>w. dname (host_from low [] hostname @ lit ''.local'') = Ok w) \<longleftrightarrow>
     length (trim_end_matches (\<lambda>c. c = 0x2d) (dropWhile (\<lambda>c. c = 0x2d)
       (filter (\<lambda>c. is_ascii_lowercase c \<or> is_ascii_digit c \<or> c = 0x2d) (low (hd (split_by (\<lambda>c. c = 0x2e) hostname)))))) \<le> 58"
  (is "?dn \<longleftrightarrow> length ?label \<le> 58")
proof -
  define L where "L = ?label"
  define h where "h = host_from low [] hostname"
  have h: "h = (if L = [] then lit ''omdrop-awdl'' else L @ lit ''-awdl'')"
    by (simp add: h_def L_def host_from_def Let_def)
  have lab: "is_ascii_lowercase c \<or> is_ascii_digit c \<or> c = 0x2d" if "c \<in> set L" for c
    using subsetD [OF set_dropWhile_subset set_trim_end_matches [OF that [unfolded L_def]]] by simp
  have hc: "\<forall>c \<in> set h. 0x2d \<le> c \<and> c \<le> 0x7e \<and> c \<noteq> 0x2e"
  proof -
    have "0x2d \<le> c \<and> c \<le> 0x7e \<and> c \<noteq> 0x2e" if "c \<in> set L" for c
      using lab [OF that] by (auto simp: is_ascii_lowercase_def is_ascii_digit_def)
    then show ?thesis by (simp add: h lit_def ball_Un)
  qed
  have ne: "h \<noteq> []" by (simp add: h lit_def)
  have len: "length h = (if L = [] then 11 else length L + 5)" by (simp add: h lit_def)
  have "split_by (\<lambda>c. c = 0x2e) (h @ 0x2e # lit ''local'') = h # [lit ''local'']"
  proof -
    have "\<forall>c \<in> set h. \<not> c = 0x2e" using hc by blast
    from split_by_append_sep [of h "\<lambda>c. c = 0x2e" "0x2e" "lit ''local''", OF this] show ?thesis
      by (simp add: split_by_none lit_def)
  qed
  then have nl: "name_labels (h @ lit ''.local'') = [h, lit ''local'']"
    using ne by (simp add: name_labels_def lit_def)
  have pr: "find (\<lambda>c. \<not> (0x20 \<le> c \<and> c \<le> 0x7e)) (h @ lit ''.local'') = None"
    using hc by (fastforce simp: find_None_iff lit_def)
  have sl: "str_len h = length h" by (rule str_len_ascii) (use hc in force)
  have "(\<exists>w. dname (h @ lit ''.local'') = Ok w) \<longleftrightarrow> length h \<le> 63"
    unfolding dname_def check_name_def pr nl by (simp add: sl) (simp add: lit_def utf8_len_def)
  also have "\<dots> \<longleftrightarrow> length L \<le> 58" unfolding len by (auto simp: le_diff_conv)
  finally show ?thesis unfolding h_def L_def .
qed

subsection \<open>Witnesses\<close>

definition sample_sid :: ustr where [eval_defs]:
  "sample_sid = lit ''0a1b''"

lemma announcement_builds:
  assumes "dname host = Ok t" "dname (sid @ [0x2e] @ SERVICE) = Ok i" "length ll = 16" "flags < 2 ^ 64"
  shows "\<exists>msg. announcement sid host port flags ll = Ok msg \<and> length msg \<le> 1436"
proof -
  obtain s where s: "dname SERVICE = Ok s" by (simp add: eval_defs)
  have l: "length t \<le> 255" "length i \<le> 255" "length s \<le> 255" using dname_Ok assms(1,2) s by blast+
  have "flags < 10 ^ 20" using assms(4) by simp
  then have "length (dec flags) \<le> 20" by (intro length_show_radix) simp_all
  then have f: "str_len (lit ''flags='' @ dec flags) \<le> 26"
    using str_len_ascii [of "flags_text flags"] flags_ascii by (simp add: flags_text_def lit_def)
  have "length s = 21" using s by (auto simp: eval_defs)
  with l f assms(3) show ?thesis
    unfolding announcement_def Let_def assms(1,2) rr_def s by (simp add: assms(1,2) s rr_def)
qed

lemma sample_announcement:
  "\<exists>msg. announcement sample_sid (lit ''me.local'') 8771 1019 (eui64_ll [2, 0, 0, 0, 0, 1]) = Ok msg \<and> length msg \<le> 1436"
proof -
  have "\<exists>t. dname (lit ''me.local'') = Ok t" "\<exists>i. dname (sample_sid @ [0x2e] @ SERVICE) = Ok i" by (simp_all add: eval_defs)
  then show ?thesis using announcement_builds by (force simp: eui64_ll_def)
qed

theorem announcement_resolves_witness:
  "\<exists>msg records. announcement sample_sid (lit ''me.local'') 8771 1019 (eui64_ll [2, 0, 0, 0, 0, 1]) = Ok msg \<and>
    parse_message msg = Some records \<and> length records = 4"
proof -
  obtain msg where m: "announcement sample_sid (lit ''me.local'') 8771 1019 (eui64_ll [2, 0, 0, 0, 0, 1]) = Ok msg"
    using sample_announcement by blast
  from announcement_resolves [OF m, of Map.empty Map.empty] m show ?thesis by (auto simp: eui64_ll_def)
qed

theorem frame_round_trip_witness:
  "\<exists>msg d frame. announcement sample_sid (lit ''me.local'') 8771 1019 (eui64_ll [2, 0, 0, 0, 0, 1]) = Ok msg \<and>
    udp6 (eui64_ll [2, 0, 0, 0, 0, 1]) MDNS_GROUP msg = Ok d \<and> wrap [2, 0, 0, 0, 0, 1] d 7 True = Ok frame \<and>
    mdns_payload frame = Some ([2, 0, 0, 0, 0, 1], msg) \<and> wanted frame [] (our_names (lit ''me.local'') sample_sid) = None"
proof -
  obtain msg where m: "announcement sample_sid (lit ''me.local'') 8771 1019 (eui64_ll [2, 0, 0, 0, 0, 1]) = Ok msg" "length msg \<le> 1436"
    using sample_announcement by blast
  obtain d where d: "udp6 (eui64_ll [2, 0, 0, 0, 0, 1]) MDNS_GROUP msg = Ok d" "length d = 48 + length msg"
    using m(2) by (simp add: udp6_def Let_def udp_header_def eui64_ll_def MDNS_GROUP_def)
  obtain frame where f: "wrap [2, 0, 0, 0, 0, 1] d 7 True = Ok frame" using d(2) m(2) by (simp add: wrap_def)
  from frame_round_trip [OF d(1) f, of sample_sid "lit ''me.local''" 8771 1019 "eui64_ll [2, 0, 0, 0, 0, 1]" "[]"] m d f show ?thesis
    by (auto simp: eui64_ll_def MDNS_GROUP_def)
qed

theorem query_answered_witness:
  "\<exists>d frame hit. udp6 (eui64_ll [2, 0, 0, 0, 0, 1]) MDNS_GROUP (query [(SERVICE, T_PTR)]) = Ok d \<and>
    wrap [2, 0, 0, 0, 0, 1] d 0 False = Ok frame \<and> hit \<in> our_names (lit ''me.local'') sample_sid \<and>
    wanted frame [2, 0, 0, 0, 0, 9] (our_names (lit ''me.local'') sample_sid) = Some ([2, 0, 0, 0, 0, 1], hit)"
proof -
  let ?q = "query [(SERVICE, T_PTR)]"
  have "length ?q \<le> 1436" by (simp add: eval_defs)
  then obtain d where d: "udp6 (eui64_ll [2, 0, 0, 0, 0, 1]) MDNS_GROUP ?q = Ok d" by (simp add: udp6_def Let_def)
  obtain frame where f: "wrap [2, 0, 0, 0, 0, 1] d 0 False = Ok frame" by (simp add: wrap_def)
  have p: "mdns_payload frame = Some ([2, 0, 0, 0, 0, 1], ?q)"
    by (rule mdns_payload_wrap [OF d f]) (simp_all add: eui64_ll_def MDNS_GROUP_def)
  have "\<forall>l \<in> set (query_labels SERVICE). label_ok l" by (simp add: query_labels_def label_ok_def eval_defs)
  moreover have "lower (trim_end_matches (\<lambda>c. c = 0x2e) SERVICE) = SERVICE" by (simp add: eval_defs)
  ultimately have "\<exists>hit \<in> our_names (lit ''me.local'') sample_sid.
      wanted frame [2, 0, 0, 0, 0, 9] (our_names (lit ''me.local'') sample_sid) = Some ([2, 0, 0, 0, 0, 1], hit)"
    by (intro query_answered [OF p, where name = SERVICE and qtype = T_PTR]) (simp_all add: our_names_def)
  with d f show ?thesis by blast
qed

end
