(* ===== verification/Logs.thy ===== *)
theory Logs
  imports Names
begin

text \<open>
  The receiver's log records (omdrop-receiver/src/log.rs): what of a message, which may hold text
  a peer chose, reaches the journal. The fields \<open>localtime_r\<close> fills are a parameter.
\<close>

datatype level = Debug | Info | Warning | Error

fun level_str :: "level \<Rightarrow> ustr" where
  "level_str Debug = lit ''DEBUG''"
| "level_str Info = lit ''INFO''"
| "level_str Warning = lit ''WARNING''"
| "level_str Error = lit ''ERROR''"

text \<open>What \<open>localtime_r\<close> filled: years and months as C counts them.\<close>

record tm =
  tm_year :: int
  tm_mon :: int
  tm_mday :: int
  tm_hour :: int
  tm_min :: int
  tm_sec :: int

definition int_text :: "int \<Rightarrow> ustr" where [eval_defs]:
  "int_text i = (if i < 0 then 45 # dec (nat (- i)) else dec (nat i))"

text \<open>\<open>{:0w}\<close> of a signed number: zeros go between the sign and the digits.\<close>

definition pad_int :: "nat \<Rightarrow> int \<Rightarrow> ustr" where [eval_defs]:
  "pad_int w i = (if i < 0 then 45 # pad0 (w - 1) (dec (nat (- i))) else pad0 w (dec (nat i)))"

definition asctime :: "nat \<Rightarrow> nat \<Rightarrow> tm option \<Rightarrow> ustr" where [eval_defs]:
  "asctime secs millis t =
     (case t of
        None \<Rightarrow> dec secs @ lit '','' @ pad0 3 (dec millis)
      | Some tm \<Rightarrow>
          pad_int 4 (tm_year tm + 1900) @ lit ''-'' @ pad_int 2 (tm_mon tm + 1) @ lit ''-'' @ pad_int 2 (tm_mday tm)
          @ lit '' '' @ pad_int 2 (tm_hour tm) @ lit '':'' @ pad_int 2 (tm_min tm) @ lit '':'' @ pad_int 2 (tm_sec tm)
          @ lit '','' @ pad0 3 (dec millis))"

definition MAX_MESSAGE_BYTES :: nat where [eval_defs]:
  "MAX_MESSAGE_BYTES = 32 * 1024"

definition is_disguise :: "uchar \<Rightarrow> bool" where [eval_defs]:
  "is_disguise c \<longleftrightarrow>
     c = 0x2028 \<or> c = 0x2029 \<or> (0x200b \<le> c \<and> c \<le> 0x200f) \<or> (0x202a \<le> c \<and> c \<le> 0x202e)
     \<or> (0x2066 \<le> c \<and> c \<le> 0x2069) \<or> c = 0xfeff"

definition escape_char :: "uchar \<Rightarrow> ustr" where [eval_defs]:
  "escape_char c =
     (if is_control c then [0x5c, 0x78] @ pad0 2 (show_radix 16 c)
      else if is_disguise c then [0x5c, 0x75] @ pad0 4 (show_radix 16 c)
      else [c])"

text \<open>
  The text kept by \<open>truncate\<close> at the last character boundary up to a byte: the characters that end
  within it.
\<close>

fun cut_at :: "nat \<Rightarrow> ustr \<Rightarrow> ustr" where
  "cut_at room [] = []"
| "cut_at room (c # cs) = (if utf8_len c \<le> room then c # cut_at (room - utf8_len c) cs else [])"

definition escape :: "ustr \<Rightarrow> ustr" where [eval_defs]:
  "escape message =
     (let out = concat (map escape_char message)
      in if str_len out > MAX_MESSAGE_BYTES
         then (let kept = cut_at MAX_MESSAGE_BYTES out; dropped = str_len out - str_len kept
               in kept @ lit '' [... '' @ dec dropped @ lit '' more bytes]'')
         else out)"

definition log_line :: "ustr \<Rightarrow> level \<Rightarrow> ustr \<Rightarrow> ustr" where [eval_defs]:
  "log_line time lv message = time @ lit '' '' @ level_str lv @ lit '' root: '' @ escape message @ [0x0a]"

lemma cut_at_prefix: "\<exists>rest. s = cut_at n s @ rest"
  by (induction n s rule: cut_at.induct) auto

lemma cut_at_le: "str_len (cut_at n s) \<le> n"
  by (induction n s rule: cut_at.induct) auto

lemma cut_at_subset: "set (cut_at n s) \<subseteq> set s"
  by (induction n s rule: cut_at.induct) auto

text \<open>Nothing more would fit: the character behind the cut does not end within the room.\<close>

lemma cut_at_maximal: "s = cut_at n s @ c # rest \<Longrightarrow> n < str_len (cut_at n s) + utf8_len c"
proof (induction n s rule: cut_at.induct)
  case (2 room d cs)
  then show ?case by (auto split: if_splits)
qed simp

definition plain_char :: "uchar \<Rightarrow> bool" where [eval_defs]:
  "plain_char c \<longleftrightarrow> \<not> is_control c \<and> \<not> is_disguise c"

lemma plain_ascii: "0x20 \<le> c \<Longrightarrow> c < 0x7f \<Longrightarrow> plain_char c"
  by (simp add: plain_char_def is_control_def is_disguise_def)

lemma plain_digit_char: "d < 16 \<Longrightarrow> plain_char (digit_char d)"
  by (rule plain_ascii) (auto simp: digit_char_def)

lemma plain_show_radix: "1 < b \<Longrightarrow> b \<le> 16 \<Longrightarrow> c \<in> set (show_radix b n) \<Longrightarrow> plain_char c"
  unfolding show_radix_def by (auto intro!: plain_digit_char elim!: digits_less [THEN less_le_trans, rotated])

lemma plain_pad0: "\<forall>c \<in> set s. plain_char c \<Longrightarrow> c \<in> set (pad0 w s) \<Longrightarrow> plain_char c"
  using plain_ascii [of 48] by (auto simp: pad0_def)

lemma plain_dec: "\<forall>c \<in> set (dec n). plain_char c"
  by (auto intro: plain_show_radix [of 10])

lemma plain_escape_char: "\<forall>d \<in> set (escape_char c). plain_char d"
proof -
  have x: "plain_char d" if "d \<in> set (pad0 w (show_radix 16 c))" for w d
    using that by (rule plain_pad0 [rotated]) (auto intro: plain_show_radix [of 16])
  have s: "plain_char 0x5c" "plain_char 0x78" "plain_char 0x75" by (rule plain_ascii; simp)+
  show ?thesis unfolding escape_char_def using s by (auto dest: x) (simp add: plain_char_def)
qed

lemma plain_escape: "\<forall>c \<in> set (escape message). plain_char c"
proof -
  let ?out = "concat (map escape_char message)"
  have out: "plain_char c" if "c \<in> set ?out" for c using that plain_escape_char by auto
  have kept: "plain_char c" if "c \<in> set (cut_at n ?out)" for c n
    using that cut_at_subset [of n ?out] by (intro out) auto
  have l: "\<forall>c \<in> set (lit '' [... ''). plain_char c" "\<forall>c \<in> set (lit '' more bytes]''). plain_char c"
    by (simp_all add: lit_def plain_char_def is_control_def is_disguise_def)
  show ?thesis unfolding escape_def Let_def using l plain_dec plain_escape_char by (auto dest: out kept)
qed

lemma escape_id:
  assumes "\<forall>c \<in> set m. plain_char c" "str_len m \<le> MAX_MESSAGE_BYTES"
  shows "escape m = m"
proof -
  have "concat (map escape_char m) = m" using assms(1) by (induction m) (auto simp: escape_char_def plain_char_def)
  then show ?thesis using assms(2) by (simp add: escape_def)
qed

lemma plain_asctime: "\<forall>c \<in> set (asctime secs millis t). plain_char c"
proof -
  have p: "plain_char c" if "c \<in> set (pad0 w (dec n))" for w n c
    using that by (rule plain_pad0 [rotated]) (rule plain_dec)
  have i: "plain_char c" if "c \<in> set (pad_int w k)" for w k c
    using that by (auto simp: pad_int_def plain_ascii dest: p split: if_splits)
  have q: "\<forall>c \<in> set (lit '',''). plain_char c" "\<forall>c \<in> set (lit ''-''). plain_char c"
    "\<forall>c \<in> set (lit '':''). plain_char c" "\<forall>c \<in> set (lit '' ''). plain_char c"
    by (simp_all add: lit_def plain_ascii)
  show ?thesis unfolding asctime_def using q plain_dec by (auto dest: p i split: option.splits)
qed

lemma escape_short:
  assumes "str_len (concat (map escape_char m)) \<le> u64_max"
  shows "str_len (escape m) < MAX_MESSAGE_BYTES + 40"
proof -
  let ?out = "concat (map escape_char m)"
  let ?n = "str_len ?out - str_len (cut_at MAX_MESSAGE_BYTES ?out)"
  have "?n < 10 ^ 20" using assms by (simp add: u64_max_def)
  then have "length (dec ?n) \<le> 20" by (intro length_show_radix) simp_all
  moreover have "str_len (dec ?n) = length (dec ?n)"
    by (rule str_len_ascii) (auto simp: show_radix_def digit_char_def dest!: digits_less [of 10, simplified])
  ultimately show ?thesis using cut_at_le [of MAX_MESSAGE_BYTES ?out]
    by (simp add: escape_def Let_def lit_def utf8_len_def)
qed

text \<open>
  C27. A log record is one line: whatever a peer put into the message, the line has its line break at
  the end and no other control character, line separator, bidirectional control or zero-width
  character. The message written is bounded, so that the journal keeps the record whole, and a
  message without such characters that is short enough is written as it is. (The length of a string
  is a \<open>usize\<close>.)
\<close>

theorem log_record_one_line:
  assumes "str_len (concat (map escape_char m)) \<le> u64_max"
  shows "\<exists>record_text. log_line (asctime secs millis t) lv m = record_text @ [0x0a]
      \<and> (\<forall>c \<in> set record_text. \<not> is_control c \<and> \<not> is_disguise c)
      \<and> str_len (escape m) < MAX_MESSAGE_BYTES + 40
      \<and> ((\<forall>c \<in> set m. \<not> is_control c \<and> \<not> is_disguise c) \<and> str_len m \<le> MAX_MESSAGE_BYTES \<longrightarrow> escape m = m)"
proof -
  have lv: "\<forall>c \<in> set (level_str lv). plain_char c" by (cases lv) (simp_all add: lit_def plain_ascii)
  have l: "\<forall>c \<in> set (lit '' ''). plain_char c" "\<forall>c \<in> set (lit '' root: ''). plain_char c"
    by (simp_all add: lit_def plain_ascii)
  let ?r = "asctime secs millis t @ lit '' '' @ level_str lv @ lit '' root: '' @ escape m"
  have "log_line (asctime secs millis t) lv m = ?r @ [0x0a]" by (simp add: log_line_def)
  moreover have "\<forall>c \<in> set ?r. \<not> is_control c \<and> \<not> is_disguise c"
    using lv l plain_asctime plain_escape by (auto simp: plain_char_def)
  moreover have "(\<forall>c \<in> set m. \<not> is_control c \<and> \<not> is_disguise c) \<and> str_len m \<le> MAX_MESSAGE_BYTES \<longrightarrow> escape m = m"
    using escape_id [of m] unfolding plain_char_def by blast
  ultimately show ?thesis using escape_short [OF assms] by blast
qed

theorem log_record_one_line_witness:
  "\<exists>record_text. log_line (asctime 0 7 None) Info (lit ''Mac'' @ [0x0a, 0x202e]) = record_text @ [0x0a]
      \<and> (\<forall>c \<in> set record_text. \<not> is_control c \<and> \<not> is_disguise c)"
proof -
  have "str_len (concat (map escape_char (lit ''Mac'' @ [0x0a, 0x202e]))) \<le> u64_max"
    by (simp add: eval_defs digits.simps)
  from log_record_one_line [OF this] show ?thesis by blast
qed

end
