(* ===== verification/Radio.thy ===== *)
theory Radio
  imports Logs Contacts
begin

text \<open>
  The texts the radio helper trusts (omdrop-radio/src/ctx.rs, window.rs, net.rs, diag.rs): numbers of
  the state files and the command line, the announcer's settings and their state file, records of
  processes, what the kernel says of the interface, and the backend's answer to a probe.

  The JSON parser is a parameter; of a JSON value only what the code asks for is kept.
\<close>

section \<open>Numbers\<close>

definition canonical_uint :: "ustr \<Rightarrow> nat \<Rightarrow> bool" where [eval_defs]:
  "canonical_uint s mx \<longleftrightarrow> s \<noteq> [] \<and> str_len s \<le> mx \<and> list_all is_ascii_digit s \<and> (hd s \<noteq> 0x30 \<or> str_len s = 1)"

definition is_uint :: "ustr \<Rightarrow> bool" where [eval_defs]:
  "is_uint s = canonical_uint s 12"

definition is_duration :: "ustr \<Rightarrow> bool" where [eval_defs]:
  "is_duration s = canonical_uint s 9"

definition parse_u64 :: "ustr \<Rightarrow> nat option" where [eval_defs]:
  "parse_u64 s = from_str_radix u64_max 10 s"

definition parse_u32 :: "ustr \<Rightarrow> nat option" where [eval_defs]:
  "parse_u32 s = from_str_radix u32_max 10 s"

definition clock :: "nat \<Rightarrow> ustr" where [eval_defs]:
  "clock epoch =
     (let s = epoch mod 86400
      in pad0 2 (dec (s div 3600)) @ lit '':'' @ pad0 2 (dec (s div 60 mod 60)) @ lit '':'' @ pad0 2 (dec (s mod 60)) @ lit ''Z'')"

definition has_timestamp :: "ustr \<Rightarrow> bool" where [eval_defs]:
  "has_timestamp line \<longleftrightarrow>
     (let b = map unat (as_bytes line)
      in length b \<ge> 10 \<and> list_all (\<lambda>i. is_ascii_digit (b ! i)) [0, 1, 3, 4, 6, 7]
         \<and> b ! 2 = 0x3a \<and> b ! 5 = 0x3a \<and> b ! 8 = 0x5a \<and> b ! 9 = 0x20)"

definition split_whitespace :: "ustr \<Rightarrow> ustr list" where [eval_defs]:
  "split_whitespace s = filter (\<lambda>w. w \<noteq> []) (split_by is_whitespace s)"

text \<open>A number of a state file, in a range.\<close>

definition uint_in :: "nat \<Rightarrow> nat \<Rightarrow> ustr \<Rightarrow> nat option" where [eval_defs]:
  "uint_in lo hi s =
     (if \<not> is_uint s then None
      else (case parse_u64 s of None \<Rightarrow> None | Some n \<Rightarrow> if lo \<le> n \<and> n \<le> hi then Some n else None))"

section \<open>The announcer's settings\<close>

record announce =
  an_count :: nat
  an_interval_us :: nat
  an_period_s :: nat
  an_plain :: bool
  an_mdns :: bool

definition default_announce :: announce where [eval_defs]:
  "default_announce = \<lparr>an_count = 40, an_interval_us = 20000, an_period_s = 6, an_plain = False, an_mdns = True\<rparr>"

datatype json = JBool bool | JUInt nat | JString ustr | JArray "json list" | JObject "(ustr \<times> json) list" | JOther

definition as_bool :: "json \<Rightarrow> bool option" where [eval_defs]:
  "as_bool v = (case v of JBool b \<Rightarrow> Some b | _ \<Rightarrow> None)"

definition as_u64 :: "json \<Rightarrow> nat option" where [eval_defs]:
  "as_u64 v = (case v of JUInt n \<Rightarrow> Some n | _ \<Rightarrow> None)"

definition as_str :: "json \<Rightarrow> ustr option" where [eval_defs]:
  "as_str v = (case v of JString s \<Rightarrow> Some s | _ \<Rightarrow> None)"

definition json_array :: "json \<Rightarrow> json list option" where [eval_defs]:
  "json_array v = (case v of JArray l \<Rightarrow> Some l | _ \<Rightarrow> None)"

definition as_object :: "json \<Rightarrow> (ustr \<times> json) list option" where [eval_defs]:
  "as_object v = (case v of JObject d \<Rightarrow> Some d | _ \<Rightarrow> None)"

text \<open>One field: the value kept and the names of the fields refused so far.\<close>

definition flag_field :: "(ustr \<times> json) list \<Rightarrow> ustr \<Rightarrow> bool \<Rightarrow> ustr list \<Rightarrow> bool \<times> ustr list" where [eval_defs]:
  "flag_field d key old bad =
     (case map_of d key of
        None \<Rightarrow> (old, bad)
      | Some v \<Rightarrow> (case as_bool v of Some b \<Rightarrow> (b, bad) | None \<Rightarrow> (old, bad @ [key])))"

definition num_field :: "(ustr \<times> json) list \<Rightarrow> ustr \<Rightarrow> nat \<Rightarrow> nat \<Rightarrow> nat \<Rightarrow> ustr list \<Rightarrow> nat \<times> ustr list" where [eval_defs]:
  "num_field d key lo hi old bad =
     (case map_of d key of
        None \<Rightarrow> (old, bad)
      | Some v \<Rightarrow>
          (case as_u64 v of
             Some n \<Rightarrow> if lo \<le> n \<and> n \<le> hi then (n, bad) else (old, bad @ [key])
           | None \<Rightarrow> (old, bad @ [key])))"

definition announce_fields :: "(ustr \<times> json) list \<Rightarrow> announce \<Rightarrow> ustr list \<Rightarrow> announce \<times> ustr list" where [eval_defs]:
  "announce_fields an a bad =
     (let (count, bad) = num_field an (lit ''count'') 1 256 (an_count a) bad;
          (interval, bad) = num_field an (lit ''interval_us'') 1000 1000000 (an_interval_us a) bad;
          (period, bad) = num_field an (lit ''period_s'') 1 60 (an_period_s a) bad;
          (plain, bad) = flag_field an (lit ''plain'') (an_plain a) bad
      in (a\<lparr>an_count := count, an_interval_us := interval, an_period_s := period, an_plain := plain\<rparr>, bad))"

text \<open>The settings, and the lines logged.\<close>

definition from_up_stdout :: "(ustr \<Rightarrow> json option) \<Rightarrow> bytes \<Rightarrow> announce \<times> ustr list" where [eval_defs]:
  "from_up_stdout parse_json out =
     (let s = trim (from_utf8_lossy out)
      in if s = [] then (default_announce, [])
         else (case parse_json s of
                 Some (JObject v) \<Rightarrow>
                   (let (mdns, bad) = flag_field v (lit ''mdns'') (an_mdns default_announce) [];
                        a = default_announce\<lparr>an_mdns := mdns\<rparr>;
                        ignored = (\<lambda>bad. if bad = [] then []
                                     else [lit ''up: ignored invalid '' @ join (lit '', '') bad @ lit ''; using defaults for them''])
                    in (case map_of v (lit ''announce'') of
                          None \<Rightarrow> (a, ignored bad)
                        | Some an \<Rightarrow>
                            (case as_object an of
                               None \<Rightarrow> (a, [lit ''up: announce is not an object; using the default announcer''])
                             | Some an \<Rightarrow> (let (a', bad') = announce_fields an a bad in (a', ignored bad')))))
               | _ \<Rightarrow> (default_announce, [lit ''up: stdout is not a JSON object; using the default announcer''])))"

definition show_flag :: "bool \<Rightarrow> ustr" where [eval_defs]:
  "show_flag b = (if b then lit ''1'' else lit ''0'')"

definition announce_line :: "announce \<Rightarrow> ustr" where [eval_defs]:
  "announce_line a =
     dec (an_count a) @ lit '' '' @ dec (an_interval_us a) @ lit '' '' @ dec (an_period_s a) @ lit '' ''
     @ show_flag (an_plain a) @ lit '' '' @ show_flag (an_mdns a) @ [0x0a]"

definition parse_flag :: "ustr \<Rightarrow> bool option" where [eval_defs]:
  "parse_flag s = (if s = lit ''1'' then Some True else if s = lit ''0'' then Some False else None)"

definition parse_announce :: "ustr option \<Rightarrow> announce" where [eval_defs]:
  "parse_announce content =
     (case content of
        None \<Rightarrow> default_announce
      | Some s \<Rightarrow>
          (case split_whitespace s of
             [c, i, p, pl, m] \<Rightarrow>
               (case (uint_in 1 256 c, uint_in 1000 1000000 i, uint_in 1 60 p, parse_flag pl, parse_flag m) of
                  (Some count, Some interval, Some period, Some plain, Some mdns) \<Rightarrow>
                    \<lparr>an_count = count, an_interval_us = interval, an_period_s = period, an_plain = plain, an_mdns = mdns\<rparr>
                | _ \<Rightarrow> default_announce)
           | _ \<Rightarrow> default_announce))"

definition interval_arg :: "announce \<Rightarrow> ustr" where [eval_defs]:
  "interval_arg a =
     (let s = dec (an_interval_us a div 1000000) @ lit ''.'' @ pad0 6 (dec (an_interval_us a mod 1000000))
      in trim_end_matches (\<lambda>c. c = 0x2e) (trim_end_matches (\<lambda>c. c = 0x30) s))"

section \<open>Records of processes\<close>

definition parse_pid_start :: "ustr \<Rightarrow> (nat \<times> nat) option" where [eval_defs]:
  "parse_pid_start s =
     (case split_whitespace s of
        [p, t] \<Rightarrow>
          if is_uint p \<and> is_uint t then
            (case (parse_u32 p, parse_u64 t) of
               (Some pid, Some start) \<Rightarrow> if pid > 1 then Some (pid, start) else None
             | _ \<Rightarrow> None)
          else None
      | _ \<Rightarrow> None)"

record recorded =
  rc_pid :: nat
  rc_tag :: ustr
  rc_start :: "nat option"

definition parse_pids_line :: "ustr \<Rightarrow> recorded option" where [eval_defs]:
  "parse_pids_line l =
     (case split_whitespace l of
        [] \<Rightarrow> None
      | p # f \<Rightarrow>
          (if \<not> is_uint p then None
           else (case parse_u32 p of
                   None \<Rightarrow> None
                 | Some pid \<Rightarrow>
                     if pid > 1 then
                       Some \<lparr>rc_pid = pid, rc_tag = (case f of [] \<Rightarrow> [] | t # _ \<Rightarrow> t),
                             rc_start = (case f of _ # s # _ \<Rightarrow> if is_uint s then parse_u64 s else None | _ \<Rightarrow> None)\<rparr>
                     else None)))"

definition parse_pids :: "ustr \<Rightarrow> recorded list" where [eval_defs]:
  "parse_pids s = List.map_filter parse_pids_line (lines s)"

definition pids_line :: "nat \<Rightarrow> ustr \<Rightarrow> nat \<Rightarrow> ustr" where [eval_defs]:
  "pids_line pid tag start = dec pid @ lit '' '' @ tag @ lit '' '' @ dec start @ [0x0a]"

text \<open>The comparison of the supervisor's token: constant time, over all bytes.\<close>

definition same :: "bytes \<Rightarrow> bytes \<Rightarrow> bool" where [eval_defs]:
  "same a b \<longleftrightarrow> length a = length b \<and> foldl (\<lambda>acc (x, y). acc OR (x XOR y)) 0 (zip a b) = 0"

definition token_valid :: "ustr \<Rightarrow> ustr \<Rightarrow> bool" where [eval_defs]:
  "token_valid want got \<longleftrightarrow>
     str_len want = 32
     \<and> list_all (\<lambda>b. (0x30 \<le> unat b \<and> unat b \<le> 0x39) \<or> (0x61 \<le> unat b \<and> unat b \<le> 0x66)) (as_bytes want)
     \<and> same (as_bytes want) (as_bytes got)"

definition token_text :: "bytes \<Rightarrow> ustr" where [eval_defs]:
  "token_text raw = concat (map (\<lambda>b. pad0 2 (show_radix 16 (unat b))) raw)"

text \<open>
  A radio command's end: the exit status and the line logged. \<open>start\<close> and the supervisor's entry accept
  only a canonical number of seconds.
\<close>

definition usage_start :: "ustr \<Rightarrow> nat \<times> ustr" where [eval_defs]:
  "usage_start self = (2, lit ''usage: '' @ self @ lit '' start <seconds> (0 = until stopped, at most 999999999)'')"

definition start_seconds :: "ustr \<Rightarrow> ustr list \<Rightarrow> (nat, nat \<times> ustr) result" where [eval_defs]:
  "start_seconds self args =
     (case args of
        [secs] \<Rightarrow>
          if \<not> is_duration secs then Err (usage_start self)
          else (case parse_u64 secs of Some n \<Rightarrow> Ok n | None \<Rightarrow> Err (usage_start self))
      | _ \<Rightarrow> Err (usage_start self))"

definition supervise_entry :: "ustr \<Rightarrow> ustr \<Rightarrow> ustr option \<Rightarrow> ustr list \<Rightarrow> (nat, nat \<times> ustr) result" where [eval_defs]:
  "supervise_entry self want got args =
     (if \<not> token_valid want (case got of Some g \<Rightarrow> g | None \<Rightarrow> [])
      then Err (2, lit ''__supervise is internal; use: '' @ self @ lit '' start <seconds>'')
      else (let deadline = (case args of d # _ \<Rightarrow> d | [] \<Rightarrow> []); secs = (case args of _ # s # _ \<Rightarrow> s | _ \<Rightarrow> [])
            in if length args > 2 \<or> \<not> is_uint deadline then Err (2, lit ''__supervise: deadline must be a number'')
               else if \<not> is_duration secs then Err (2, lit ''__supervise: seconds must be a number'')
               else (case parse_u64 secs of Some n \<Rightarrow> Ok n | None \<Rightarrow> Err (2, lit ''__supervise: seconds must be a number''))))"

section \<open>What the supervisor runs\<close>

definition ADV_FLAGS :: ustr where [eval_defs]:
  "ADV_FLAGS = lit ''137''"

definition RECEIVER_PORT :: ustr where [eval_defs]:
  "RECEIVER_PORT = lit ''8771''"

definition IFACE :: ustr where [eval_defs]:
  "IFACE = lit ''awdl0''"

definition mdns_args :: "ustr list" where [eval_defs]:
  "mdns_args = [lit ''mdns'', lit ''--iface'', IFACE, lit ''--port'', RECEIVER_PORT, lit ''--flags'', ADV_FLAGS]"

definition ble_args :: "nat \<Rightarrow> ustr list" where [eval_defs]:
  "ble_args secs =
     [lit ''ble'', lit ''--arm'', lit ''A'', lit ''--seconds'', dec (if secs > 0 then secs else 86400)]"

definition next_seq :: "nat \<Rightarrow> nat" where [eval_defs]:
  "next_seq seq = min u64_max (seq + 1)"

definition announce_args :: "announce \<Rightarrow> nat \<Rightarrow> ustr list" where [eval_defs]:
  "announce_args a seq =
     [lit ''announce'', lit ''--iface'', IFACE, lit ''--count'', dec (an_count a), lit ''--interval'', interval_arg a,
      lit ''--flags'', ADV_FLAGS, lit ''--seq'', dec (min u64_max (seq * 100))]
     @ (if an_plain a then [lit ''--plain''] else [])"

text \<open>How long a burst may take, in microseconds.\<close>

definition burst_limit :: "announce \<Rightarrow> nat" where [eval_defs]:
  "burst_limit a = an_count a * an_interval_us a + 30 * 1000000"

section \<open>Written and read back\<close>

lemma dec_digits: "\<forall>c \<in> set (dec n). is_ascii_digit c"
  by (auto simp: show_radix_def is_ascii_digit_def digit_char_def dest!: digits_less [of 10, simplified])

lemma dec_str_len: "str_len (dec n) = length (dec n)"
  by (rule str_len_ascii) (auto simp: is_ascii_digit_def dest!: bspec [OF dec_digits])

lemma digits_hd_pos: "0 < n \<Longrightarrow> 1 < b \<Longrightarrow> 0 < hd (digits b n)"
proof (induction b n rule: digits.induct)
  case (1 b n)
  show ?case
  proof (cases "n < b")
    case True
    then show ?thesis using 1 by (simp add: digits.simps [of b n])
  next
    case False
    then have "0 < n div b" using 1(3) by (simp add: div_greater_zero_iff)
    then show ?thesis using 1 False digits_not_Nil [of b "n div b"] by (simp add: digits.simps [of b n])
  qed
qed

lemma dec_hd: "hd (dec n) \<noteq> 0x30 \<or> length (dec n) = 1"
proof (cases "n = 0")
  case False
  have "hd (dec n) = digit_char (hd (digits 10 n))" by (simp add: show_radix_def hd_map digits_not_Nil)
  then show ?thesis using digits_hd_pos [of n 10] False by (simp add: digit_char_def)
qed (simp add: show_radix_def digits.simps)

lemma dec_not_Nil: "dec n \<noteq> []"
  by (simp add: show_radix_def digits_not_Nil)

lemma canonical_uint_dec: "n < 10 ^ mx \<Longrightarrow> 0 < mx \<Longrightarrow> canonical_uint (dec n) mx"
  using dec_hd [of n] dec_digits [of n] length_show_radix [of 10 n mx]
  by (simp add: canonical_uint_def dec_str_len dec_not_Nil list_all_iff)

lemma is_uint_dec: "n < 10 ^ 12 \<Longrightarrow> is_uint (dec n)"
  by (simp add: is_uint_def canonical_uint_dec)

lemma parse_u64_dec: "n \<le> u64_max \<Longrightarrow> parse_u64 (dec n) = Some n"
  by (simp add: parse_u64_def from_str_radix_show)

lemma parse_u32_dec: "n \<le> u32_max \<Longrightarrow> parse_u32 (dec n) = Some n"
  by (simp add: parse_u32_def from_str_radix_show)

lemma uint_in_dec: "lo \<le> n \<Longrightarrow> n \<le> hi \<Longrightarrow> hi < 10 ^ 12 \<Longrightarrow> uint_in lo hi (dec n) = Some n"
  by (simp add: uint_in_def is_uint_dec parse_u64_dec u64_max_def)

text \<open>A canonical number is the decimal text of its value, so the two notations of a number do not differ.\<close>

definition word_text :: "ustr \<Rightarrow> bool" where [eval_defs]:
  "word_text w \<longleftrightarrow> w \<noteq> [] \<and> (\<forall>c \<in> set w. \<not> is_whitespace c)"

lemma digit_not_whitespace: "is_ascii_digit c \<Longrightarrow> \<not> is_whitespace c"
  by (simp add: is_ascii_digit_def is_whitespace_def)

lemma word_text_dec: "word_text (dec n)"
  using dec_digits [of n] by (simp add: word_text_def dec_not_Nil digit_not_whitespace)

lemma word_text_flag: "word_text (show_flag b)"
  by (simp add: word_text_def show_flag_def lit_def is_whitespace_def)

lemma split_whitespace_word:
  "word_text w \<Longrightarrow> is_whitespace c \<Longrightarrow> split_whitespace (w @ c # s) = w # split_whitespace s"
  by (simp add: word_text_def split_whitespace_def split_by_append_sep)

lemma split_whitespace_last: "word_text w \<Longrightarrow> split_whitespace w = [w]"
  by (simp add: word_text_def split_whitespace_def split_by_none)

lemma split_whitespace_Nil: "split_whitespace [] = []"
  by (simp add: split_whitespace_def)

lemma blank: "lit '' '' = [0x20]" "is_whitespace 0x20" "is_whitespace 0x0a"
  by (simp_all add: lit_def is_whitespace_def)

lemmas words = split_whitespace_word split_whitespace_last split_whitespace_Nil word_text_dec word_text_flag blank

lemma parse_flag_show: "parse_flag (show_flag b) = Some b"
  by (simp add: parse_flag_def show_flag_def lit_def)

definition announce_ok :: "announce \<Rightarrow> bool" where [eval_defs]:
  "announce_ok a \<longleftrightarrow>
     1 \<le> an_count a \<and> an_count a \<le> 256 \<and> 1000 \<le> an_interval_us a \<and> an_interval_us a \<le> 1000000
     \<and> 1 \<le> an_period_s a \<and> an_period_s a \<le> 60"

lemma trim_line:
  assumes "s \<noteq> []" "\<not> is_whitespace (hd s)" "\<not> is_whitespace (last s)" "is_whitespace c"
  shows "trim (s @ [c]) = s"
proof -
  obtain t y where s: "s = t @ [y]" using assms(1) by (cases s rule: rev_cases) auto
  have "dropWhile is_whitespace (s @ [c]) = s @ [c]" using assms(1,2) by (cases s) auto
  then show ?thesis using assms(3,4) by (simp add: trim_def trim_end_matches_def s)
qed

lemma trim_announce_line:
  "trim (announce_line a) = dec (an_count a) @ lit '' '' @ dec (an_interval_us a) @ lit '' '' @ dec (an_period_s a) @ lit '' ''
     @ show_flag (an_plain a) @ lit '' '' @ show_flag (an_mdns a)" (is "_ = ?s")
proof -
  have "\<not> is_whitespace (hd (dec n @ s))" for n s
    using word_text_dec [of n] by (auto simp: word_text_def hd_append intro: list.set_sel(1))
  then have h: "\<not> is_whitespace (hd ?s)" .
  have l: "\<not> is_whitespace (last ?s)" by (simp add: show_flag_def lit_def is_whitespace_def)
  have "announce_line a = ?s @ [0x0a]" by (simp add: announce_line_def)
  then show ?thesis using trim_line [OF _ h l] by (simp add: dec_not_Nil blank(3))
qed

text \<open>State files are read trimmed: what a start writes for the announcer is what its supervisor reads.\<close>

lemma announce_round_trip:
  assumes "announce_ok a" shows "parse_announce (Some (trim (announce_line a))) = a"
proof -
  have "split_whitespace (trim (announce_line a))
      = [dec (an_count a), dec (an_interval_us a), dec (an_period_s a), show_flag (an_plain a), show_flag (an_mdns a)]"
    by (simp add: trim_announce_line words)
  then show ?thesis using assms by (simp add: parse_announce_def announce_ok_def uint_in_dec parse_flag_show)
qed

lemma uint_in_bounds: "uint_in lo hi s = Some n \<Longrightarrow> lo \<le> n \<and> n \<le> hi"
  by (auto simp: uint_in_def split: if_splits option.splits)

lemma default_announce_ok: "announce_ok default_announce"
  by (simp add: announce_ok_def default_announce_def)

lemma parse_announce_ok: "announce_ok (parse_announce content)"
proof -
  have "announce_ok a" if "uint_in 1 256 c = Some (an_count a)" "uint_in 1000 1000000 i = Some (an_interval_us a)"
      "uint_in 1 60 p = Some (an_period_s a)" for a c i p
    using that [THEN uint_in_bounds] by (simp add: announce_ok_def)
  then show ?thesis
    by (auto simp: parse_announce_def default_announce_ok split: option.splits list.splits)
qed

lemma num_field_bounds: "lo \<le> old \<Longrightarrow> old \<le> hi \<Longrightarrow> num_field d key lo hi old bad = (n, bad') \<Longrightarrow> lo \<le> n \<and> n \<le> hi"
  by (auto simp: num_field_def split: option.splits if_splits)

lemma announce_fields_ok: "announce_ok a \<Longrightarrow> announce_fields an a bad = (a', bad') \<Longrightarrow> announce_ok a'"
  unfolding announce_fields_def announce_ok_def Let_def
  by (auto split: prod.splits dest!: num_field_bounds [rotated 2])

lemma from_up_stdout_ok: "announce_ok (fst (from_up_stdout parse_json out))"
proof -
  have "announce_ok (default_announce\<lparr>an_mdns := m\<rparr>)" for m
    using default_announce_ok by (simp add: announce_ok_def)
  then show ?thesis
    by (auto simp: from_up_stdout_def Let_def default_announce_ok split: option.splits json.splits prod.splits
        dest: announce_fields_ok [rotated])
qed

lemma parse_pid_start_written:
  assumes "1 < pid" "pid \<le> u32_max" "start < 10 ^ 12"
  shows "parse_pid_start (dec pid @ lit '' '' @ dec start @ [0x0a]) = Some (pid, start)"
  using assms by (simp add: parse_pid_start_def words is_uint_dec parse_u32_dec parse_u64_dec u32_max_def u64_max_def)

lemma parse_pids_written:
  assumes "1 < pid" "pid \<le> u32_max" "start < 10 ^ 12" "word_text tag"
  shows "parse_pids_line (dec pid @ lit '' '' @ tag @ lit '' '' @ dec start) = Some \<lparr>rc_pid = pid, rc_tag = tag, rc_start = Some start\<rparr>"
  using assms by (simp add: parse_pids_line_def words is_uint_dec parse_u32_dec parse_u64_dec u32_max_def u64_max_def)

lemma xor_zero: "x XOR y = (0 :: u8) \<longleftrightarrow> x = y"
proof
  assume z: "x XOR y = 0"
  have "x XOR (x XOR y) = y" unfolding xor.assoc [symmetric] by simp
  then show "x = y" unfolding z by simp
qed simp

lemma fold_or_zero: "foldl (\<lambda>acc (x, y). acc OR (x XOR y)) k ps = (0 :: u8) \<longleftrightarrow> k = 0 \<and> (\<forall>(x, y) \<in> set ps. x = y)"
proof (induction ps arbitrary: k)
  case (Cons p ps)
  obtain x y where p: "p = (x, y)" by (cases p)
  have "foldl (\<lambda>acc (x, y). acc OR (x XOR y)) k (p # ps) = 0 \<longleftrightarrow> k OR (x XOR y) = 0 \<and> (\<forall>(x, y) \<in> set ps. x = y)"
    unfolding p foldl.simps prod.case by (rule Cons.IH)
  also have "k OR (x XOR y) = 0 \<longleftrightarrow> k = 0 \<and> x = y" unfolding or_eq_0_iff xor_zero ..
  finally show ?case by (simp add: p)
qed simp

lemma zip_equal: "length a = length b \<Longrightarrow> (\<forall>(x, y) \<in> set (zip a b). x = y) \<longleftrightarrow> a = b"
  by (induction a b rule: list_induct2) auto

lemma same_iff: "same a b \<longleftrightarrow> a = b"
proof (cases "length a = length b")
  case True
  then show ?thesis unfolding same_def fold_or_zero zip_equal [OF True] by simp
next
  case False
  then show ?thesis unfolding same_def by auto
qed

text \<open>The token of 16 random bytes is accepted from whoever presents it.\<close>

lemma token_text_valid:
  assumes "length raw = 16" shows "token_valid (token_text raw) (token_text raw)"
proof -
  have hex: "(48 \<le> c \<and> c \<le> 57 \<or> 97 \<le> c \<and> c \<le> 102)" if "c \<in> set (token_text raw)" for c
    using that by (auto simp: token_text_def pad0_def show_radix_def digit_char_def dest!: digits_less [of 16, simplified])
  have "length (pad0 2 (show_radix 16 (unat (b :: u8)))) = 2" for b
    by (intro length_pad0 length_show_radix) (use unsigned_less [of b] in simp_all)
  then have len: "length (token_text raw) = 32" using assms by (simp add: token_text_def length_concat comp_def sum_list_triv)
  have "str_len (token_text raw) = 32" using len str_len_ascii [of "token_text raw"] hex by force
  moreover have "list_all (\<lambda>b. (0x30 \<le> unat b \<and> unat b \<le> 0x39) \<or> (0x61 \<le> unat b \<and> unat b \<le> 0x66)) (as_bytes (token_text raw))"
    using hex by (fastforce simp: list_all_iff as_bytes_def utf8_char_def unsigned_of_nat take_bit_nat_eq_self)
  ultimately show ?thesis by (simp add: token_valid_def same_iff)
qed

text \<open>
  A call that cannot present the token is refused as such, whatever its other arguments; with it, the
  entry accepts exactly a deadline and a duration.
\<close>

lemma supervise_entry_token: "supervise_entry self want got args = Ok n \<Longrightarrow> \<exists>g. got = Some g \<and> as_bytes g = as_bytes want"
proof (cases got)
  case None
  have "as_bytes want \<noteq> as_bytes []" if "str_len want = 32" using that by (metis length_as_bytes str_len_Nil zero_neq_numeral)
  then show "supervise_entry self want got args = Ok n \<Longrightarrow> ?thesis"
    by (auto simp: None supervise_entry_def token_valid_def same_iff split: if_split_asm)
next
  case (Some g)
  then show "supervise_entry self want got args = Ok n \<Longrightarrow> ?thesis"
    by (simp add: supervise_entry_def token_valid_def same_iff split: if_split_asm)
qed

lemma burst_bounded: "announce_ok a \<Longrightarrow> burst_limit a \<le> 286 * 1000000"
proof -
  assume "announce_ok a"
  then have "an_count a * an_interval_us a \<le> 256 * 1000000" by (intro mult_le_mono) (simp_all add: announce_ok_def)
  then show ?thesis by (simp add: burst_limit_def)
qed

end
