(* ===== verification/Settings.thy ===== *)
theory Settings
  imports Logs Connections "HOL-Library.List_Lexorder"
begin

text \<open>
  What the receiver runs with: its command line (omdrop-receiver/src/args.rs), its configuration
  file and the validation of every setting (omdrop-receiver/src/config.rs), and how \<open>run\<close>
  (omdrop-receiver/src/main.rs) puts them together before it listens.

  Parameters: the TOML parser, what the file system says of a path, the working directory, the home
  directories, the host name and the socket calls. Paths are texts.
\<close>

section \<open>Numbers of the standard library\<close>

text \<open>\<open>str::parse\<close> of a 64-bit signed integer, and whether \<open>str::parse\<close> reads a float.\<close>

definition parse_i64 :: "ustr \<Rightarrow> int option" where [eval_defs]:
  "parse_i64 s =
     (if starts_with s (lit ''-'') then map_option (\<lambda>n. - int n) (parse_digits (2 ^ 63) 10 (tl s))
      else map_option int (from_str_radix (2 ^ 63 - 1) 10 s))"

definition f64_exponent :: "ustr \<Rightarrow> bool" where [eval_defs]:
  "f64_exponent s \<longleftrightarrow>
     (case s of [] \<Rightarrow> True
      | e # r \<Rightarrow> (e = 0x65 \<or> e = 0x45)
          \<and> (let r' = (case r of c # r2 \<Rightarrow> if c = 0x2b \<or> c = 0x2d then r2 else r | [] \<Rightarrow> [])
             in r' \<noteq> [] \<and> list_all is_ascii_digit r'))"

definition f64_number :: "ustr \<Rightarrow> bool" where [eval_defs]:
  "f64_number s \<longleftrightarrow>
     (let whole = takeWhile is_ascii_digit s; r = dropWhile is_ascii_digit s;
          (fraction, r') = (if starts_with r (lit ''.'') then (takeWhile is_ascii_digit (tl r), dropWhile is_ascii_digit (tl r)) else ([], r))
      in (whole \<noteq> [] \<or> fraction \<noteq> []) \<and> f64_exponent r')"

definition parses_f64 :: "ustr \<Rightarrow> bool" where [eval_defs]:
  "parses_f64 s \<longleftrightarrow>
     (let r = (if starts_with s (lit ''-'') \<or> starts_with s (lit ''+'') then tl s else s)
      in eq_ignore_ascii_case r (lit ''inf'') \<or> eq_ignore_ascii_case r (lit ''infinity'') \<or> eq_ignore_ascii_case r (lit ''nan'')
         \<or> f64_number r)"

section \<open>The command line\<close>

definition PROG :: ustr where [eval_defs]:
  "PROG = lit ''omdrop-receiver''"

record args =
  ag_iface :: ustr
  ag_port :: int
  ag_name :: "ustr option"
  ag_model :: "ustr option"
  ag_keys :: "ustr option"
  ag_outdir :: "ustr option"
  ag_max_receive_percent :: "int option"
  ag_config :: "ustr option"

datatype exit_early = Help ustr | Usage ustr

definition OPTIONS :: "(ustr \<times> ustr) list" where [eval_defs]:
  "OPTIONS =
     [(lit ''--iface'', lit ''IFACE''), (lit ''--port'', lit ''PORT''), (lit ''--name'', lit ''NAME''),
      (lit ''--model'', lit ''MODEL''), (lit ''--keys'', lit ''KEYS''), (lit ''--outdir'', lit ''OUTDIR''),
      (lit ''--max-receive-percent'', lit ''MAX_RECEIVE_PERCENT''), (lit ''--config'', lit ''CONFIG'')]"

definition NL :: ustr where [eval_defs]:
  "NL = [0x0a]"

definition usage :: ustr where [eval_defs]:
  "usage = lit ''usage: '' @ PROG @ lit '' [-h] ''
     @ join (lit '' '') (map (\<lambda>(opt, metavar). lit ''['' @ opt @ lit '' '' @ metavar @ lit '']'') OPTIONS)"

definition help_text :: "ustr \<Rightarrow> ustr" where [eval_defs]:
  "help_text config_path =
     usage @ NL @ NL @ lit ''AirDrop receiver. Config: '' @ config_path @ lit '' (name, model, download_dir,'' @ NL
     @ lit ''max_receive_percent); flags override.'' @ NL @ NL
     @ lit ''options:'' @ NL @ lit ''  -h, --help            show this help message and exit'' @ NL
     @ lit ''  --iface IFACE'' @ NL @ lit ''  --port PORT'' @ NL
     @ lit ''  --name NAME           ReceiverComputerName: the label under the tile in the Mac'' @ NL
     @ lit ''                        sheet (config: name)'' @ NL
     @ lit ''  --model MODEL         ReceiverModelName: Apple model identifier; picks the'' @ NL
     @ lit ''                        device glyph the sheet draws (config: model)'' @ NL
     @ lit ''  --keys KEYS           replace ~/.omdrop for the identity files: DIR/keys holds'' @ NL
     @ lit ''                        the on-disk identity and the self-signed pair (see'' @ NL
     @ lit ''                        docs/identity-contract.md)'' @ NL
     @ lit ''  --outdir OUTDIR       where received files go (config: download_dir)'' @ NL
     @ lit ''  --max-receive-percent MAX_RECEIVE_PERCENT'' @ NL
     @ lit ''                        maximum transfer size as a percentage of currently'' @ NL
     @ lit ''                        free output disk space'' @ NL
     @ lit ''  --config CONFIG       config file path'' @ NL"

definition usage_error :: "ustr \<Rightarrow> exit_early" where [eval_defs]:
  "usage_error message = Usage (usage @ NL @ PROG @ lit '': error: '' @ message @ NL)"

definition int_arg :: "ustr \<Rightarrow> ustr \<Rightarrow> (int, exit_early) result" where [eval_defs]:
  "int_arg option value =
     (case parse_i64 (trim value) of
        Some i \<Rightarrow> Ok i
      | None \<Rightarrow> Err (usage_error (lit ''argument '' @ option @ lit '': invalid int value: '' @ py_repr value)))"

definition looks_like_option :: "ustr \<Rightarrow> bool" where [eval_defs]:
  "looks_like_option arg \<longleftrightarrow> starts_with arg (lit ''-'') \<and> str_len arg > 1 \<and> \<not> parses_f64 arg"

definition store_option :: "ustr \<Rightarrow> ustr \<Rightarrow> args \<Rightarrow> (args, exit_early) result" where [eval_defs]:
  "store_option option value a =
     (if option = lit ''--iface'' then Ok (a\<lparr>ag_iface := value\<rparr>)
      else if option = lit ''--port'' then (case int_arg option value of Ok i \<Rightarrow> Ok (a\<lparr>ag_port := i\<rparr>) | Err e \<Rightarrow> Err e)
      else if option = lit ''--name'' then Ok (a\<lparr>ag_name := Some value\<rparr>)
      else if option = lit ''--model'' then Ok (a\<lparr>ag_model := Some value\<rparr>)
      else if option = lit ''--keys'' then Ok (a\<lparr>ag_keys := Some value\<rparr>)
      else if option = lit ''--outdir'' then Ok (a\<lparr>ag_outdir := Some value\<rparr>)
      else if option = lit ''--max-receive-percent''
      then (case int_arg option value of Ok i \<Rightarrow> Ok (a\<lparr>ag_max_receive_percent := Some i\<rparr>) | Err e \<Rightarrow> Err e)
      else Ok (a\<lparr>ag_config := Some value\<rparr>))"

definition default_args :: args where [eval_defs]:
  "default_args =
     \<lparr>ag_iface = lit ''awdl0'', ag_port = 8771, ag_name = None, ag_model = None, ag_keys = None, ag_outdir = None,
      ag_max_receive_percent = None, ag_config = None\<rparr>"

definition finish_args :: "args \<Rightarrow> ustr list \<Rightarrow> (args, exit_early) result" where [eval_defs]:
  "finish_args a unrecognized =
     (if unrecognized \<noteq> [] then Err (usage_error (lit ''unrecognized arguments: '' @ join (lit '' '') unrecognized)) else Ok a)"

definition flag_of :: "ustr \<Rightarrow> ustr \<times> ustr option" where [eval_defs]:
  "flag_of arg = (case split_once (lit ''='') arg of Some (f, v) \<Rightarrow> (f, Some v) | None \<Rightarrow> (arg, None))"

definition options_of :: "ustr \<Rightarrow> ustr list" where [eval_defs]:
  "options_of flag = filter (\<lambda>opt. starts_with opt flag) (map fst OPTIONS)"

text \<open>The loop over the arguments behind the program's name; \<open>bad\<close> collects the unrecognized ones.\<close>

fun parse_args :: "ustr \<Rightarrow> args \<Rightarrow> ustr list \<Rightarrow> ustr list \<Rightarrow> (args, exit_early) result" where
  "parse_args config_path a bad [] = finish_args a bad"
| "parse_args config_path a bad (arg # rest) =
     (if arg = lit ''-h'' \<or> (str_len arg > 2 \<and> starts_with (lit ''--help'') arg) then Err (Help (help_text config_path))
      else if arg = lit ''--'' then finish_args a (bad @ rest)
      else if \<not> starts_with arg (lit ''--'') \<or> str_len arg = 2 then parse_args config_path a (bad @ [arg]) rest
      else (let (flag, inline) = flag_of arg
            in (case options_of flag of
                  [] \<Rightarrow> parse_args config_path a (bad @ [arg]) rest
                | [option] \<Rightarrow>
                    (case inline of
                       Some v \<Rightarrow> (case store_option option v a of Err e \<Rightarrow> Err e | Ok a' \<Rightarrow> parse_args config_path a' bad rest)
                     | None \<Rightarrow>
                         (case rest of
                            [] \<Rightarrow> Err (usage_error (lit ''argument '' @ option @ lit '': expected one argument''))
                          | v # rest' \<Rightarrow>
                              if looks_like_option v
                              then Err (usage_error (lit ''argument '' @ option @ lit '': expected one argument''))
                              else (case store_option option v a of Err e \<Rightarrow> Err e | Ok a' \<Rightarrow> parse_args config_path a' bad rest')))
                | many \<Rightarrow> Err (usage_error (lit ''ambiguous option: '' @ flag @ lit '' could match '' @ join (lit '', '') many)))))"

declare parse_args.simps [simp del]

definition parse_command_line :: "ustr list \<Rightarrow> ustr \<Rightarrow> (args, exit_early) result" where [eval_defs]:
  "parse_command_line argv config_path = parse_args config_path default_args [] (drop 1 argv)"

section \<open>The configuration file\<close>

definition CONFIG_KEYS :: "ustr list" where [eval_defs]:
  "CONFIG_KEYS = [lit ''name'', lit ''model'', lit ''download_dir'', lit ''max_receive_percent'']"

definition STRING_CONFIG_KEYS :: "ustr list" where [eval_defs]:
  "STRING_CONFIG_KEYS = [lit ''name'', lit ''model'', lit ''download_dir'']"

definition DEFAULT_MAX_RECEIVE_PERCENT :: int where [eval_defs]:
  "DEFAULT_MAX_RECEIVE_PERCENT = 30"

definition DEFAULT_MODEL :: ustr where [eval_defs]:
  "DEFAULT_MODEL = lit ''MacBookPro18,3''"

record file_config =
  fc_name :: "ustr option"
  fc_model :: "ustr option"
  fc_download_dir :: "ustr option"
  fc_max_receive_percent :: "int option"

definition default_config :: file_config where [eval_defs]:
  "default_config = \<lparr>fc_name = None, fc_model = None, fc_download_dir = None, fc_max_receive_percent = None\<rparr>"

definition summary :: "file_config \<Rightarrow> ustr" where [eval_defs]:
  "summary c =
     (let parts =
        (case fc_download_dir c of Some d \<Rightarrow> [lit ''download_dir='' @ py_repr d] | None \<Rightarrow> [])
        @ (case fc_max_receive_percent c of Some p \<Rightarrow> [lit ''max_receive_percent='' @ int_text p] | None \<Rightarrow> [])
        @ (case fc_model c of Some m \<Rightarrow> [lit ''model='' @ py_repr m] | None \<Rightarrow> [])
        @ (case fc_name c of Some n \<Rightarrow> [lit ''name='' @ py_repr n] | None \<Rightarrow> [])
      in if parts = [] then lit ''absent (defaults)'' else join (lit '', '') parts)"

text \<open>What a TOML value is to \<open>load\<close>, and what reading the file gave.\<close>

datatype toml = TString ustr | TInteger int | TOther

datatype file_read = Not_found | Read_failed ustr | Contents bytes

definition percent_error :: ustr where [eval_defs]:
  "percent_error = lit ''max_receive_percent must be an integer from 1 to 90''"

definition validate_receive_percent :: "int \<Rightarrow> (int, ustr) result" where [eval_defs]:
  "validate_receive_percent v = (if 1 \<le> v \<and> v \<le> 90 then Ok v else Err percent_error)"

definition as_setting :: "toml \<Rightarrow> ustr option" where [eval_defs]:
  "as_setting v = (case v of TString s \<Rightarrow> if trim s = [] then None else Some s | _ \<Rightarrow> None)"

definition set_key :: "ustr \<Rightarrow> ustr \<Rightarrow> file_config \<Rightarrow> file_config" where [eval_defs]:
  "set_key key v c =
     (if key = lit ''name'' then c\<lparr>fc_name := Some v\<rparr>
      else if key = lit ''model'' then c\<lparr>fc_model := Some v\<rparr>
      else c\<lparr>fc_download_dir := Some v\<rparr>)"

fun load_strings :: "ustr \<Rightarrow> (ustr \<times> toml) list \<Rightarrow> ustr list \<Rightarrow> file_config \<Rightarrow> (file_config, ustr) result" where
  "load_strings shown table [] c = Ok c"
| "load_strings shown table (key # keys) c =
     (case map_of table key of
        None \<Rightarrow> load_strings shown table keys c
      | Some value \<Rightarrow>
          (case as_setting value of
             None \<Rightarrow> Err (shown @ lit '': '' @ key @ lit '' must be a non-empty string'')
           | Some v \<Rightarrow> load_strings shown table keys (set_key key v c)))"

definition load_percent :: "(ustr \<times> toml) list \<Rightarrow> file_config \<Rightarrow> (file_config, ustr) result" where [eval_defs]:
  "load_percent table c =
     (case map_of table (lit ''max_receive_percent'') of
        None \<Rightarrow> Ok c
      | Some (TInteger i) \<Rightarrow>
          (case validate_receive_percent i of Ok p \<Rightarrow> Ok (c\<lparr>fc_max_receive_percent := Some p\<rparr>) | Err e \<Rightarrow> Err e)
      | Some _ \<Rightarrow> Err percent_error)"

definition load_table :: "ustr \<Rightarrow> (ustr \<times> toml) list \<Rightarrow> (file_config, ustr) result" where [eval_defs]:
  "load_table shown table =
     (let bad = sort (filter (\<lambda>k. k \<notin> set CONFIG_KEYS) (map fst table))
      in if bad \<noteq> []
         then Err (shown @ lit '': unknown key(s) '' @ join (lit '', '') bad @ lit ''; known: '' @ join (lit '', '') CONFIG_KEYS)
         else (case load_strings shown table STRING_CONFIG_KEYS default_config of Err e \<Rightarrow> Err e | Ok c \<Rightarrow> load_percent table c))"

definition load :: "(ustr \<Rightarrow> ((ustr \<times> toml) list, ustr) result) \<Rightarrow> ustr \<Rightarrow> file_read \<Rightarrow> (file_config, ustr) result" where [eval_defs]:
  "load toml_parse shown file =
     (case file of
        Not_found \<Rightarrow> Ok default_config
      | Read_failed e \<Rightarrow> Err (shown @ lit '': '' @ e)
      | Contents bs \<Rightarrow>
          (case from_utf8 bs of
             None \<Rightarrow> Err (shown @ lit '': the file is not valid UTF-8'')
           | Some s \<Rightarrow> (case toml_parse s of Err e \<Rightarrow> Err (shown @ lit '': '' @ e) | Ok table \<Rightarrow> load_table shown table)))"

section \<open>Validation\<close>

definition validate_name :: "ustr \<Rightarrow> (ustr, ustr) result" where [eval_defs]:
  "validate_name name =
     (if list_ex is_unsafe_char name \<or> length name = 0 \<or> length name > 63
      then Err (lit ''name '' @ py_repr name @ lit '': 1-63 characters, no path separators or control/format characters'')
      else Ok name)"

definition validate_model :: "ustr \<Rightarrow> (ustr, ustr) result" where [eval_defs]:
  "validate_model model =
     (let letters = length (takeWhile is_ascii_alphabetic model);
          rest = drop letters model;
          ok = (letters > 0
                \<and> (case split_once (lit '','') rest of
                     None \<Rightarrow> False
                   | Some (major, minor) \<Rightarrow>
                       major \<noteq> [] \<and> minor \<noteq> [] \<and> list_all is_ascii_digit major \<and> list_all is_ascii_digit minor))
      in if \<not> ok then Err (lit ''model '' @ py_repr model @ lit '': must be an Apple model identifier such as MacBookPro18,3'')
         else Ok model)"

text \<open>\<open>hostname\<close>: what \<open>gethostname\<close> put into the buffer, when it worked.\<close>

definition default_receiver_name :: "bytes option \<Rightarrow> ustr" where [eval_defs]:
  "default_receiver_name hostname =
     (let host = (case hostname of Some buf \<Rightarrow> from_utf8_lossy (takeWhile (\<lambda>b. b \<noteq> 0) buf) | None \<Rightarrow> []);
          short = hd (split_by (\<lambda>c. c = 0x2e) host)
      in if short = [] then lit ''omdrop'' else short)"

definition expand_user :: "ustr \<Rightarrow> (ustr \<Rightarrow> ustr option) \<Rightarrow> ustr \<Rightarrow> ustr" where [eval_defs]:
  "expand_user home user_home path =
     (if \<not> starts_with path (lit ''~'') then path
      else (let user = takeWhile (\<lambda>c. c \<noteq> 0x2f) (tl path); tail = dropWhile (\<lambda>c. c \<noteq> 0x2f) (tl path)
            in (case (if user = [] then Some home else if 0 \<in> set user then None else user_home user) of
                  Some h \<Rightarrow> h @ tail
                | None \<Rightarrow> path)))"

text \<open>
  \<open>real_path\<close>: \<open>canonicalize\<close> is the file system's answer; without one the path is made absolute and
  its \<open>.\<close> and \<open>..\<close> are folded. \<open>components\<close> are the names between the slashes of an absolute path.
\<close>

definition components :: "ustr \<Rightarrow> ustr list" where [eval_defs]:
  "components path = filter (\<lambda>p. p \<noteq> [] \<and> p \<noteq> lit ''.'') (split_by (\<lambda>c. c = 0x2f) path)"

definition push_part :: "ustr list \<Rightarrow> ustr \<Rightarrow> ustr list" where [eval_defs]:
  "push_part out part = (if part = lit ''..'' then butlast out else out @ [part])"

definition real_path :: "(ustr \<Rightarrow> ustr option) \<Rightarrow> ustr option \<Rightarrow> ustr \<Rightarrow> ustr" where [eval_defs]:
  "real_path canonicalize cwd path =
     (case canonicalize path of
        Some real \<Rightarrow> real
      | None \<Rightarrow>
          (let absolute = (if starts_with path (lit ''/'') then path
                           else (case cwd of Some d \<Rightarrow> d | None \<Rightarrow> lit ''/'') @ lit ''/'' @ path)
           in lit ''/'' @ join (lit ''/'') (foldl push_part [] (components absolute))))"

datatype stat = Stat_missing | Stat_failed ustr | Stat bool nat

record file_system =
  fs_canonicalize :: "ustr \<Rightarrow> ustr option"
  fs_cwd :: "ustr option"
  fs_stat :: "ustr \<Rightarrow> stat"
  fs_home :: ustr
  fs_user_home :: "ustr \<Rightarrow> ustr option"
  fs_uid :: nat

definition validate_download_dir :: "file_system \<Rightarrow> ustr \<Rightarrow> (ustr, ustr) result" where [eval_defs]:
  "validate_download_dir fs path =
     (let dest = real_path (fs_canonicalize fs) (fs_cwd fs) (expand_user (fs_home fs) (fs_user_home fs) path)
      in (case fs_stat fs dest of
            Stat_missing \<Rightarrow> Err (lit ''download_dir '' @ py_repr path @ lit '' -> '' @ dest @ lit '': does not exist'')
          | Stat_failed e \<Rightarrow> Err (lit ''download_dir '' @ dest @ lit '': '' @ e)
          | Stat is_dir uid \<Rightarrow>
              if \<not> is_dir then Err (lit ''download_dir '' @ dest @ lit '': not a directory'')
              else if uid \<noteq> fs_uid fs
              then Err (lit ''download_dir '' @ dest @ lit '': owned by uid '' @ dec uid @ lit '', not us ('' @ dec (fs_uid fs) @ lit '')'')
              else Ok dest))"

section \<open>What run does before it listens\<close>

definition path_join :: "ustr \<Rightarrow> ustr \<Rightarrow> ustr" where [eval_defs]:
  "path_join base p =
     (if starts_with p (lit ''/'') then p
      else if base = [] \<or> ends_with base (lit ''/'') then base @ p
      else base @ lit ''/'' @ p)"

definition default_config_path :: "ustr option \<Rightarrow> ustr \<Rightarrow> ustr" where [eval_defs]:
  "default_config_path xdg passwd_home =
     (let base = (case xdg of Some d \<Rightarrow> if d \<noteq> [] then d else path_join passwd_home (lit ''.config'')
                  | None \<Rightarrow> path_join passwd_home (lit ''.config''))
      in path_join (path_join base (lit ''airdrop'')) (lit ''config.toml''))"

record environment =
  en_argv :: "ustr list"
  en_xdg_config_home :: "ustr option"
  en_passwd_home :: ustr
  en_read :: "ustr \<Rightarrow> file_read"
  en_toml :: "ustr \<Rightarrow> ((ustr \<times> toml) list, ustr) result"
  en_hostname :: "bytes option"
  en_fs :: file_system
  en_address :: "ustr \<Rightarrow> (ustr, ustr) result"

record receiver_settings =
  rs_args :: args
  rs_config :: file_config
  rs_name :: ustr
  rs_model :: ustr
  rs_dest :: ustr
  rs_percent :: nat
  rs_port :: nat
  rs_sid :: ustr

text \<open>Ending instead: the exit status, what goes to stdout, and what to stderr.\<close>

datatype halt = Halt nat ustr ustr

definition then_ok :: "('a, 'e) result \<Rightarrow> ('a \<Rightarrow> ('b, 'e) result) \<Rightarrow> ('b, 'e) result" where [eval_defs]:
  "then_ok r f = (case r of Ok v \<Rightarrow> f v | Err e \<Rightarrow> Err e)"

definition fail :: "ustr \<Rightarrow> halt" where [eval_defs]:
  "fail message = Halt 1 [] (message @ NL)"

definition or_fail :: "('a, ustr) result \<Rightarrow> ('a, halt) result" where [eval_defs]:
  "or_fail r = (case r of Ok v \<Rightarrow> Ok v | Err e \<Rightarrow> Err (fail e))"

definition exit_of :: "exit_early \<Rightarrow> halt" where [eval_defs]:
  "exit_of e = (case e of Help h \<Rightarrow> Halt 0 h [] | Usage u \<Rightarrow> Halt 2 [] u)"

definition or_args :: "(args, exit_early) result \<Rightarrow> (args, halt) result" where [eval_defs]:
  "or_args r = (case r of Ok a \<Rightarrow> Ok a | Err e \<Rightarrow> Err (exit_of e))"

definition or_else :: "'a option \<Rightarrow> 'a option \<Rightarrow> 'a \<Rightarrow> 'a" where [eval_defs]:
  "or_else a b d = (case a of Some v \<Rightarrow> v | None \<Rightarrow> (case b of Some v \<Rightarrow> v | None \<Rightarrow> d))"

definition port_of :: "int \<Rightarrow> (nat, ustr) result" where [eval_defs]:
  "port_of p = (if 0 \<le> p \<and> p < 2 ^ 16 then Ok (nat p) else Err (lit ''port '' @ int_text p @ lit '': must be from 0 to 65535''))"

definition iface_ok :: "ustr \<Rightarrow> (unit, ustr) result" where [eval_defs]:
  "iface_ok iface =
     (if iface = [] \<or> 0x2f \<in> set iface then Err (lit ''interface '' @ py_repr iface @ lit '': not an interface name'') else Ok ())"

definition read_sid :: "environment \<Rightarrow> ustr \<Rightarrow> (ustr, ustr) result" where [eval_defs]:
  "read_sid env iface =
     (let address_file = lit ''/sys/class/net/'' @ iface @ lit ''/address''
      in (case en_address env address_file of
            Ok s \<Rightarrow> Ok (filter (\<lambda>c. c \<noteq> 0x3a) (trim s))
          | Err e \<Rightarrow> Err (address_file @ lit '': '' @ e)))"

text \<open>From the arguments to the point where \<open>run\<close> handles signals and resolves the identity.\<close>

definition check_settings :: "environment \<Rightarrow> (receiver_settings, halt) result" where [eval_defs]:
  "check_settings env =
     (let default_path = default_config_path (en_xdg_config_home env) (en_passwd_home env)
      in then_ok (or_args (parse_command_line (en_argv env) default_path)) (\<lambda>args.
         let config_path = (case ag_config args of Some p \<Rightarrow> p | None \<Rightarrow> default_path)
         in then_ok (or_fail (load (en_toml env) config_path (en_read env config_path))) (\<lambda>cfg.
         then_ok (or_fail (validate_name (or_else (ag_name args) (fc_name cfg) (default_receiver_name (en_hostname env))))) (\<lambda>name.
         then_ok (or_fail (validate_model (or_else (ag_model args) (fc_model cfg) DEFAULT_MODEL))) (\<lambda>model.
         then_ok (or_fail (validate_download_dir (en_fs env)
                     (or_else (ag_outdir args) (fc_download_dir cfg) (path_join (en_passwd_home env) (lit ''Downloads''))))) (\<lambda>dest.
         then_ok (or_fail (validate_receive_percent
                     (or_else (ag_max_receive_percent args) (fc_max_receive_percent cfg) DEFAULT_MAX_RECEIVE_PERCENT))) (\<lambda>percent.
         then_ok (or_fail (port_of (ag_port args))) (\<lambda>port.
         then_ok (or_fail (iface_ok (ag_iface args))) (\<lambda>_.
         then_ok (or_fail (read_sid env (ag_iface args))) (\<lambda>sid.
         Ok \<lparr>rs_args = args, rs_config = cfg, rs_name = name, rs_model = model, rs_dest = dest, rs_percent = nat percent,
             rs_port = port, rs_sid = sid\<rparr>))))))))))"

text \<open>
  The attempts to bind the port: \<open>None\<close> of an attempt is an address in use. The result is the listener
  with the attempts made, or the exit status.
\<close>

definition BIND_ATTEMPTS :: nat where [eval_defs]:
  "BIND_ATTEMPTS = 5"

fun bind_port :: "ustr \<Rightarrow> ('l, ustr) result option list \<Rightarrow> ('l, halt) result" where
  "bind_port port [] = Err (Halt 1 [] [])"
| "bind_port port (Some (Ok l) # attempts) = Ok l"
| "bind_port port (Some (Err e) # attempts) = Err (fail (lit ''cannot listen on port '' @ port @ lit '': '' @ e))"
| "bind_port port (None # attempts) = bind_port port attempts"

definition listen :: "nat \<Rightarrow> (nat \<Rightarrow> ('l, ustr) result option) \<Rightarrow> ('l, halt) result" where [eval_defs]:
  "listen port attempt = bind_port (dec port) (map attempt [1..<Suc BIND_ATTEMPTS])"

section \<open>Only checked settings are served\<close>

text \<open>The shape of a model identifier: letters, digits, a comma, digits.\<close>

definition model_pattern :: "ustr \<Rightarrow> bool" where
  "model_pattern m \<longleftrightarrow>
     (\<exists>letters major minor. m = letters @ major @ lit '','' @ minor \<and> letters \<noteq> [] \<and> major \<noteq> [] \<and> minor \<noteq> []
        \<and> list_all is_ascii_alphabetic letters \<and> list_all is_ascii_digit major \<and> list_all is_ascii_digit minor)"

lemma split_once_Some:
  assumes "split_once sep s = Some (a, b)" shows "s = a @ sep @ b"
proof -
  obtain i where i: "find (\<lambda>i. starts_with (drop i s) sep) [0..<length s] = Some i" "a = take i s" "b = drop (i + length sep) s"
    using assms by (auto simp: split_once_def)
  then have "starts_with (drop i s) sep" by (auto simp: find_Some_iff)
  then obtain r where r: "drop i s = sep @ r" by (auto simp: starts_with_iff)
  then have "b = r" using i(3) by (metis add.commute append_eq_conv_conj drop_drop)
  then show ?thesis using r i(2) by (metis append_take_drop_id)
qed

lemma split_once_Nil: "split_once sep [] = None"
  by (simp add: split_once_def)

lemma find_map: "find P (map f xs) = map_option f (find (\<lambda>x. P (f x)) xs)"
  by (induction xs) auto

lemma split_once_Cons:
  "split_once sep (c # s) =
     (if starts_with (c # s) sep then Some ([], drop (length sep) (c # s))
      else map_option (\<lambda>(a, b). (c # a, b)) (split_once sep s))"
proof -
  have u: "[0..<length (c # s)] = 0 # map Suc [0..<length s]" by (simp add: upt_conv_Cons map_Suc_upt del: upt_Suc)
  show ?thesis unfolding split_once_def u by (simp add: find_map comp_def option.map_comp cong: option.map_cong)
qed

lemma split_once_first:
  assumes "c \<notin> set a" shows "split_once (c # sep) (a @ (c # sep) @ b) = Some (a, b)"
  using assms
proof (induction a)
  case Nil
  have "starts_with ((c # sep) @ b) (c # sep)" unfolding starts_with_iff by blast
  then show ?case by (simp add: split_once_Cons)
next
  case (Cons d a)
  then have "\<not> starts_with ((d # a) @ (c # sep) @ b) (c # sep)" by (simp add: starts_with_iff)
  with Cons show ?case by (simp add: split_once_Cons)
qed

lemma then_ok_Ok: "then_ok r f = Ok v \<longleftrightarrow> (\<exists>w. r = Ok w \<and> f w = Ok v)"
  by (cases r) (simp_all add: then_ok_def)

lemma or_fail_Ok: "or_fail r = Ok v \<longleftrightarrow> r = Ok v"
  by (cases r) (simp_all add: or_fail_def)

lemma or_args_Ok: "or_args r = Ok v \<longleftrightarrow> r = Ok v"
  by (cases r) (simp_all add: or_args_def)

lemma digit_not_alphabetic: "is_ascii_digit c \<Longrightarrow> \<not> is_ascii_alphabetic c"
  by (auto simp: is_ascii_digit_def is_ascii_alphabetic_def)

lemma validate_model_iff: "validate_model m = Ok m' \<longleftrightarrow> m' = m \<and> model_pattern m"
proof
  assume ok: "validate_model m = Ok m'"
  let ?l = "takeWhile is_ascii_alphabetic m"
  have split: "drop (length ?l) m = dropWhile is_ascii_alphabetic m" by (metis dropWhile_eq_drop)
  define l where "l = ?l"
  define r where "r = split_once (lit '','') (drop (length l) m)"
  have "length l > 0 \<and> (case r of None \<Rightarrow> False
      | Some (major, minor) \<Rightarrow> major \<noteq> [] \<and> minor \<noteq> [] \<and> list_all is_ascii_digit major \<and> list_all is_ascii_digit minor) \<and> m' = m"
    using ok unfolding validate_model_def Let_def l_def [symmetric] r_def [symmetric] by (metis result.distinct(1) result.inject(1))
  then obtain major minor where mm: "r = Some (major, minor)" "major \<noteq> []" "minor \<noteq> []"
      "list_all is_ascii_digit major" "list_all is_ascii_digit minor" and m': "l \<noteq> []" "m' = m"
    by (auto split: option.splits)
  have "m = ?l @ major @ lit '','' @ minor"
    using split_once_Some [OF mm(1) [unfolded r_def l_def]] unfolding split by (metis takeWhile_dropWhile_id)
  moreover have "list_all is_ascii_alphabetic ?l" by (auto simp: list_all_iff dest: set_takeWhileD)
  ultimately show "m' = m \<and> model_pattern m" unfolding model_pattern_def using mm m' unfolding l_def by blast
next
  assume r: "m' = m \<and> model_pattern m"
  then obtain l a b where m: "m = l @ a @ lit '','' @ b" "l \<noteq> []" "a \<noteq> []" "b \<noteq> []"
      "list_all is_ascii_alphabetic l" "list_all is_ascii_digit a" "list_all is_ascii_digit b"
    by (auto simp: model_pattern_def)
  have t: "takeWhile is_ascii_alphabetic m = l"
    using m by (auto simp: list_all_iff takeWhile_append takeWhile_eq_Nil_iff hd_append digit_not_alphabetic)
  have "44 \<notin> set a" using m(6) by (auto simp: list_all_iff is_ascii_digit_def)
  then have "split_once (lit '','') (drop (length l) m) = Some (a, b)"
    using m(1) split_once_first [of 44 a "[]" b] by (simp add: lit_def)
  then show "validate_model m = Ok m'" using r m t by (simp add: validate_model_def Let_def)
qed

lemma validate_name_iff:
  "validate_name n = Ok n' \<longleftrightarrow> n' = n \<and> 1 \<le> length n \<and> length n \<le> 63 \<and> (\<forall>c \<in> set n. \<not> is_unsafe_char c)"
  by (auto simp: validate_name_def list_ex_iff Suc_le_eq)

lemma validate_percent_iff: "validate_receive_percent v = Ok p \<longleftrightarrow> p = v \<and> 1 \<le> v \<and> v \<le> 90"
  by (auto simp: validate_receive_percent_def)

lemma validate_download_dir_ours:
  "validate_download_dir fs path = Ok d \<Longrightarrow> fs_stat fs d = Stat True (fs_uid fs)
    \<and> d = real_path (fs_canonicalize fs) (fs_cwd fs) (expand_user (fs_home fs) (fs_user_home fs) path)"
  by (auto simp: validate_download_dir_def Let_def split: stat.splits if_splits)

lemma port_of_Ok: "port_of p = Ok n \<longleftrightarrow> p = int n \<and> n < 2 ^ 16"
  by (auto simp: port_of_def)

text \<open>What a setting of the file is: absent, or exactly the non-blank text the table has.\<close>

definition string_setting :: "(ustr \<times> toml) list \<Rightarrow> ustr \<Rightarrow> ustr option \<Rightarrow> bool" where [eval_defs]:
  "string_setting table key slot \<longleftrightarrow>
     (case map_of table key of None \<Rightarrow> slot = None | Some v \<Rightarrow> (\<exists>s. slot = Some s \<and> v = TString s \<and> trim s \<noteq> []))"

definition config_of_table :: "(ustr \<times> toml) list \<Rightarrow> file_config \<Rightarrow> bool" where [eval_defs]:
  "config_of_table table c \<longleftrightarrow>
     fst ` set table \<subseteq> set CONFIG_KEYS
     \<and> string_setting table (lit ''name'') (fc_name c) \<and> string_setting table (lit ''model'') (fc_model c)
     \<and> string_setting table (lit ''download_dir'') (fc_download_dir c)
     \<and> (case map_of table (lit ''max_receive_percent'') of
          None \<Rightarrow> fc_max_receive_percent c = None
        | Some v \<Rightarrow> (\<exists>p. fc_max_receive_percent c = Some p \<and> v = TInteger p \<and> 1 \<le> p \<and> p \<le> 90))"

lemma as_setting_Some: "as_setting v = Some s \<longleftrightarrow> v = TString s \<and> trim s \<noteq> []"
  by (cases v) (auto simp: as_setting_def)

lemma string_setting_alt:
  "string_setting table key slot \<longleftrightarrow>
     (case map_of table key of None \<Rightarrow> slot = None | Some v \<Rightarrow> slot \<noteq> None \<and> as_setting v = slot)"
  by (auto simp: string_setting_def as_setting_Some split: option.splits)

lemma keys_distinct:
  "lit ''model'' \<noteq> lit ''name''" "lit ''download_dir'' \<noteq> lit ''name''" "lit ''download_dir'' \<noteq> lit ''model''"
  by (simp_all add: lit_def)

lemma set_key_simps:
  "set_key (lit ''name'') v c = c\<lparr>fc_name := Some v\<rparr>"
  "set_key (lit ''model'') v c = c\<lparr>fc_model := Some v\<rparr>"
  "set_key (lit ''download_dir'') v c = c\<lparr>fc_download_dir := Some v\<rparr>"
  using keys_distinct by (simp_all add: set_key_def)

lemma load_percent_Ok:
  "load_percent table c = Ok c' \<longleftrightarrow>
     (\<exists>p. c' = c\<lparr>fc_max_receive_percent := p\<rparr> \<and>
        (case map_of table (lit ''max_receive_percent'') of
           None \<Rightarrow> p = fc_max_receive_percent c
         | Some v \<Rightarrow> (\<exists>q. p = Some q \<and> v = TInteger q \<and> 1 \<le> q \<and> q \<le> 90)))"
  by (auto simp: load_percent_def validate_receive_percent_def split: option.splits toml.splits if_splits)

text \<open>The file is accepted exactly when every key is known and every value is a setting; nothing else gets in.\<close>

lemma load_table_iff: "load_table shown table = Ok c \<longleftrightarrow> config_of_table table c"
proof -
  have bad: "sort (filter (\<lambda>k. k \<notin> set CONFIG_KEYS) (map fst table)) = [] \<longleftrightarrow> fst ` set table \<subseteq> set CONFIG_KEYS"
    by (auto simp: filter_empty_conv simp flip: set_empty)
  have strings: "load_strings shown table STRING_CONFIG_KEYS default_config = Ok c0 \<longleftrightarrow>
      string_setting table (lit ''name'') (fc_name c0) \<and> string_setting table (lit ''model'') (fc_model c0)
      \<and> string_setting table (lit ''download_dir'') (fc_download_dir c0) \<and> fc_max_receive_percent c0 = None" for c0
    by (cases c0) (auto simp: STRING_CONFIG_KEYS_def set_key_simps string_setting_alt default_config_def split: option.splits)
  have "(\<exists>c0. load_strings shown table STRING_CONFIG_KEYS default_config = Ok c0 \<and> load_percent table c0 = Ok c)
      \<longleftrightarrow> (\<exists>c0. (string_setting table (lit ''name'') (fc_name c0) \<and> string_setting table (lit ''model'') (fc_model c0)
        \<and> string_setting table (lit ''download_dir'') (fc_download_dir c0) \<and> fc_max_receive_percent c0 = None) \<and> load_percent table c0 = Ok c)"
    unfolding strings ..
  also have "\<dots> \<longleftrightarrow> string_setting table (lit ''name'') (fc_name c) \<and> string_setting table (lit ''model'') (fc_model c)
     \<and> string_setting table (lit ''download_dir'') (fc_download_dir c)
     \<and> (case map_of table (lit ''max_receive_percent'') of
          None \<Rightarrow> fc_max_receive_percent c = None
        | Some v \<Rightarrow> (\<exists>p. fc_max_receive_percent c = Some p \<and> v = TInteger p \<and> 1 \<le> p \<and> p \<le> 90))"
    unfolding load_percent_Ok
    by (safe; (rule exI [of _ "c\<lparr>fc_max_receive_percent := None\<rparr>"])?) (auto split: option.splits)
  finally show ?thesis
    unfolding load_table_def Let_def config_of_table_def using bad
    by (auto split: result.splits)
qed

lemma load_Ok:
  "load toml_parse shown file = Ok c \<longleftrightarrow>
     (case file of
        Not_found \<Rightarrow> c = default_config
      | Read_failed _ \<Rightarrow> False
      | Contents bs \<Rightarrow> (\<exists>s table. from_utf8 bs = Some s \<and> toml_parse s = Ok table \<and> config_of_table table c))"
  by (auto simp: load_def load_table_iff split: file_read.splits option.splits result.splits)

definition config_path_of :: "environment \<Rightarrow> args \<Rightarrow> ustr" where [eval_defs]:
  "config_path_of env a =
     (case ag_config a of Some p \<Rightarrow> p | None \<Rightarrow> default_config_path (en_xdg_config_home env) (en_passwd_home env))"

lemma check_settings_Ok:
  assumes "check_settings env = Ok s"
  shows "load (en_toml env) (config_path_of env (rs_args s)) (en_read env (config_path_of env (rs_args s))) = Ok (rs_config s)"
    and "validate_name (or_else (ag_name (rs_args s)) (fc_name (rs_config s)) (default_receiver_name (en_hostname env))) = Ok (rs_name s)"
    and "validate_model (or_else (ag_model (rs_args s)) (fc_model (rs_config s)) DEFAULT_MODEL) = Ok (rs_model s)"
    and "validate_download_dir (en_fs env)
           (or_else (ag_outdir (rs_args s)) (fc_download_dir (rs_config s)) (path_join (en_passwd_home env) (lit ''Downloads''))) = Ok (rs_dest s)"
    and "validate_receive_percent
           (or_else (ag_max_receive_percent (rs_args s)) (fc_max_receive_percent (rs_config s)) DEFAULT_MAX_RECEIVE_PERCENT)
           = Ok (int (rs_percent s))"
    and "port_of (ag_port (rs_args s)) = Ok (rs_port s)" and "iface_ok (ag_iface (rs_args s)) = Ok ()"
  using assms unfolding check_settings_def Let_def config_path_of_def [symmetric]
  by (auto simp: then_ok_Ok or_fail_Ok or_args_Ok validate_percent_iff)

subsection \<open>What a command line gives\<close>

text \<open>
  The options a command line gives, in order, with no parser in mind: an argument names the one option it is a beginning
  of, and its value is behind an equals sign or is the next argument, which must not look like an option.
\<close>

definition option_meant :: "ustr \<Rightarrow> ustr \<Rightarrow> bool" where
  "option_meant flag opt \<longleftrightarrow> starts_with flag (lit ''--'') \<and> {p \<in> fst ` set OPTIONS. starts_with p flag} = {opt}"

inductive options_given :: "ustr list \<Rightarrow> (ustr \<times> ustr) list \<Rightarrow> bool" where
  given_none: "options_given [] []"
| given_dashes: "options_given [lit ''--''] []"
| given_inline: "split_once (lit ''='') arg = Some (flag, v) \<Longrightarrow> option_meant flag opt \<Longrightarrow> options_given rest opts
    \<Longrightarrow> options_given (arg # rest) ((opt, v) # opts)"
| given_next: "split_once (lit ''='') flag = None \<Longrightarrow> option_meant flag opt \<Longrightarrow> \<not> looks_like_option v \<Longrightarrow> options_given rest opts
    \<Longrightarrow> options_given (flag # v # rest) ((opt, v) # opts)"

text \<open>The last value given for an option counts; without one the setting is as before.\<close>

definition last_given :: "(ustr \<times> ustr) list \<Rightarrow> string \<Rightarrow> ustr option" where
  "last_given opts opt = map_of (rev opts) (lit opt)"

definition args_from :: "args \<Rightarrow> (ustr \<times> ustr) list \<Rightarrow> args \<Rightarrow> bool" where
  "args_from a0 opts a \<longleftrightarrow>
     ag_iface a = (case last_given opts ''--iface'' of Some v \<Rightarrow> v | None \<Rightarrow> ag_iface a0)
     \<and> (case last_given opts ''--port'' of Some v \<Rightarrow> parse_i64 (trim v) = Some (ag_port a) | None \<Rightarrow> ag_port a = ag_port a0)
     \<and> ag_name a = (case last_given opts ''--name'' of Some v \<Rightarrow> Some v | None \<Rightarrow> ag_name a0)
     \<and> ag_model a = (case last_given opts ''--model'' of Some v \<Rightarrow> Some v | None \<Rightarrow> ag_model a0)
     \<and> ag_keys a = (case last_given opts ''--keys'' of Some v \<Rightarrow> Some v | None \<Rightarrow> ag_keys a0)
     \<and> ag_outdir a = (case last_given opts ''--outdir'' of Some v \<Rightarrow> Some v | None \<Rightarrow> ag_outdir a0)
     \<and> (case last_given opts ''--max-receive-percent'' of
          Some v \<Rightarrow> \<exists>i. parse_i64 (trim v) = Some i \<and> ag_max_receive_percent a = Some i
        | None \<Rightarrow> ag_max_receive_percent a = ag_max_receive_percent a0)
     \<and> ag_config a = (case last_given opts ''--config'' of Some v \<Rightarrow> Some v | None \<Rightarrow> ag_config a0)"

fun store_all :: "(ustr \<times> ustr) list \<Rightarrow> args \<Rightarrow> (args, exit_early) result" where
  "store_all [] a = Ok a"
| "store_all ((opt, v) # opts) a = (case store_option opt v a of Err e \<Rightarrow> Err e | Ok a' \<Rightarrow> store_all opts a')"

lemma options_of_meant:
  assumes "options_of flag = [opt]" "starts_with arg (lit ''--'')" "flag = arg \<or> split_once (lit ''='') arg = Some (flag, v)"
  shows "option_meant flag opt"
proof -
  have "set (options_of flag) = {p \<in> fst ` set OPTIONS. starts_with p flag}" by (auto simp: options_of_def)
  then have "{p \<in> fst ` set OPTIONS. starts_with p flag} = {opt}" using assms(1) by simp
  moreover have "starts_with flag (lit ''--'')"
  proof (rule disjE [OF assms(3)])
    assume "split_once (lit ''='') arg = Some (flag, v)"
    then have "arg = flag @ 0x3d # v" by (auto dest: split_once_Some simp: lit_def)
    then show ?thesis using assms(2) by (cases flag; cases "tl flag") (auto simp: lit_def)
  qed (use assms(2) in simp)
  ultimately show ?thesis by (simp add: option_meant_def)
qed

lemma parse_args_options:
  "parse_args config_path a bad argv = Ok a' \<Longrightarrow> bad = [] \<and> (\<exists>opts. options_given argv opts \<and> store_all opts a = Ok a')"
proof (induction config_path a bad argv rule: parse_args.induct)
  case (1 config_path a bad)
  then show ?case by (auto simp: parse_args.simps finish_args_def split: if_splits intro: given_none)
next
  case (2 config_path a bad arg rest)
  note unfold = parse_args.simps(2) [of config_path a bad arg rest]
  consider (dashes) "arg = lit ''--''" | (other) "arg \<noteq> lit ''--''" "\<not> starts_with arg (lit ''--'') \<or> str_len arg = 2"
    | (flag) "arg \<noteq> lit ''--''" "starts_with arg (lit ''--'')" "str_len arg \<noteq> 2" by blast
  then show ?case
  proof cases
    case dashes
    then show ?thesis using "2.prems" unfolding unfold by (auto simp: finish_args_def split: if_splits intro: given_dashes)
  next
    case other
    then have "parse_args config_path a (bad @ [arg]) rest = Ok a'" using "2.prems" unfolding unfold by (auto split: if_splits)
    then show ?thesis using "2.IH"(1) other "2.prems" unfolding unfold by (auto split: if_splits)
  next
    case flag
    obtain f inline where f: "flag_of arg = (f, inline)" by (cases "flag_of arg")
    have g: "\<not> (arg = lit ''-h'' \<or> str_len arg > 2 \<and> starts_with (lit ''--help'') arg)" "arg \<noteq> lit ''--''"
      "\<not> (\<not> starts_with arg (lit ''--'') \<or> str_len arg = 2)"
      using flag "2.prems" unfolding unfold by (auto split: if_splits)
    note IH = "2.IH"(2-) [OF g, OF f [symmetric] refl]
    note run = "2.prems" [unfolded unfold if_not_P [OF g(1)] if_not_P [OF g(2)] if_not_P [OF g(3)] Let_def f split]
    show ?thesis
    proof (cases "options_of f")
      case Nil
      then show ?thesis using IH(1) [OF Nil] run by simp
    next
      case (Cons opt more)
      then have one: "options_of f = [opt]" using run by (cases more) simp_all
      show ?thesis
      proof (cases inline)
        case (Some v)
        then have sp: "split_once (lit ''='') arg = Some (f, v)" using f by (auto simp: flag_of_def split: option.splits)
        obtain a1 where a1: "store_option opt v a = Ok a1" "parse_args config_path a1 bad rest = Ok a'"
          using run one Some by (auto split: result.splits)
        from IH(3) [OF one refl Some a1] obtain opts where "bad = []" "options_given rest opts" "store_all opts a1 = Ok a'" by blast
        then show ?thesis using given_inline [OF sp options_of_meant [OF one flag(2) disjI2 [OF sp]]] a1(1)
          by (intro conjI exI [of _ "(opt, v) # opts"]) simp_all
      next
        case None
        then have sp: "split_once (lit ''='') arg = None" "f = arg" using f by (auto simp: flag_of_def split: option.splits)
        obtain v rest' where v: "rest = v # rest'" using run one None by (cases rest) simp_all
        have nv: "\<not> looks_like_option v" using run one None v by (auto split: if_splits)
        then obtain a1 where a1: "store_option opt v a = Ok a1" "parse_args config_path a1 bad rest' = Ok a'"
          using run one None v by (auto split: result.splits)
        from IH(2) [OF one refl None v nv a1] obtain opts where "bad = []" "options_given rest' opts" "store_all opts a1 = Ok a'" by blast
        moreover have "option_meant arg opt" using options_of_meant [OF one flag(2), of v] sp(2) by simp
        ultimately show ?thesis using given_next [OF sp(1) _ nv] a1(1) v
          by (intro conjI exI [of _ "(opt, v) # opts"]) simp_all
      qed
    qed
  qed
qed

lemma options_given_known: "options_given argv opts \<Longrightarrow> fst ` set opts \<subseteq> fst ` set OPTIONS"
  by (induction rule: options_given.induct) (auto simp: option_meant_def)

lemma lit_eq_iff: "lit a = lit b \<longleftrightarrow> a = b"
  unfolding lit_def by (rule inj_map_eq_map) (auto simp: inj_def)

lemma store_option_from:
  assumes "store_option opt v a = Ok a'" "opt \<in> fst ` set OPTIONS"
  shows "ag_iface a' = (if lit ''--iface'' = opt then v else ag_iface a)
    \<and> (if lit ''--port'' = opt then parse_i64 (trim v) = Some (ag_port a') else ag_port a' = ag_port a)
    \<and> ag_name a' = (if lit ''--name'' = opt then Some v else ag_name a)
    \<and> ag_model a' = (if lit ''--model'' = opt then Some v else ag_model a)
    \<and> ag_keys a' = (if lit ''--keys'' = opt then Some v else ag_keys a)
    \<and> ag_outdir a' = (if lit ''--outdir'' = opt then Some v else ag_outdir a)
    \<and> (if lit ''--max-receive-percent'' = opt then \<exists>i. parse_i64 (trim v) = Some i \<and> ag_max_receive_percent a' = Some i
       else ag_max_receive_percent a' = ag_max_receive_percent a)
    \<and> ag_config a' = (if lit ''--config'' = opt then Some v else ag_config a)"
proof -
  from assms(2) consider "opt = lit ''--iface''" | "opt = lit ''--port''" | "opt = lit ''--name''" | "opt = lit ''--model''" | "opt = lit ''--keys''"
    | "opt = lit ''--outdir''" | "opt = lit ''--max-receive-percent''" | "opt = lit ''--config''"
    by (auto simp: OPTIONS_def)
  then show ?thesis using assms(1)
    by cases (simp_all add: store_option_def int_arg_def lit_eq_iff split: option.splits, auto)
qed

lemma store_all_from:
  "store_all opts a = Ok a' \<Longrightarrow> fst ` set opts \<subseteq> fst ` set OPTIONS \<Longrightarrow> args_from a opts a'"
proof (induction opts arbitrary: a)
  case Nil
  then show ?case by (simp add: args_from_def last_given_def)
next
  case (Cons x opts)
  obtain opt v where x: "x = (opt, v)" by (cases x)
  obtain a1 where a1: "store_option opt v a = Ok a1" "store_all opts a1 = Ok a'" using Cons(2) by (auto simp: x split: result.splits)
  have last: "last_given (x # opts) k = (case last_given opts k of None \<Rightarrow> if lit k = opt then Some v else None | Some w \<Rightarrow> Some w)" for k
    by (auto simp: last_given_def x map_add_def split: option.splits)
  have IH: "args_from a1 opts a'" using Cons(1) [OF a1(2)] Cons(3) by simp
  have known: "opt \<in> fst ` set OPTIONS" using Cons(3) by (simp add: x)
  note f = store_option_from [OF a1(1) known]
  show ?case unfolding args_from_def last
  proof (intro conjI, goal_cases)
    case 1 show ?case using IH f by (cases "last_given opts ''--iface''") (auto simp: args_from_def)
  next
    case 2 show ?case using IH f by (cases "last_given opts ''--port''") (auto simp: args_from_def)
  next
    case 3 show ?case using IH f by (cases "last_given opts ''--name''") (auto simp: args_from_def)
  next
    case 4 show ?case using IH f by (cases "last_given opts ''--model''") (auto simp: args_from_def)
  next
    case 5 show ?case using IH f by (cases "last_given opts ''--keys''") (auto simp: args_from_def)
  next
    case 6 show ?case using IH f by (cases "last_given opts ''--outdir''") (auto simp: args_from_def)
  next
    case 7 show ?case using IH f by (cases "last_given opts ''--max-receive-percent''") (auto simp: args_from_def)
  next
    case 8 show ?case using IH f by (cases "last_given opts ''--config''") (auto simp: args_from_def)
  qed
qed

lemma check_settings_args:
  assumes "check_settings env = Ok s"
  shows "\<exists>opts. options_given (drop 1 (en_argv env)) opts \<and> args_from default_args opts (rs_args s)"
proof -
  from assms have "\<exists>path. parse_args path default_args [] (drop 1 (en_argv env)) = Ok (rs_args s)"
    unfolding check_settings_def Let_def parse_command_line_def by (auto simp: then_ok_Ok or_fail_Ok or_args_Ok)
  then show ?thesis using parse_args_options store_all_from options_given_known by blast
qed

text \<open>
  C28. The receiver only ever serves with checked settings. If it comes as far as resolving its
  identity, its command line gives, behind the program's name, only options with their values, and the last value of each is the
  flag that counts, else the flag's default; the name has 1 to 63 harmless characters, the model is letters, digits, a comma and
  digits, the download directory is a directory this user owns, the share of the disk is 1 to 90 per
  cent: each of these four is the flag, else the file's setting, else the default, the directory with its \<open>~\<close> and links resolved. The
  port, which is only a flag, fits 16 bits and the interface, only a flag too, is a name. The file, when there is one, is UTF-8,
  has known keys only and gives exactly the settings it holds.
\<close>

theorem startup_checked:
  assumes "check_settings env = Ok s"
  defines "a \<equiv> rs_args s" and "c \<equiv> rs_config s"
  shows "1 \<le> length (rs_name s) \<and> length (rs_name s) \<le> 63 \<and> (\<forall>x \<in> set (rs_name s). \<not> is_unsafe_char x)
    \<and> rs_name s = or_else (ag_name a) (fc_name c) (default_receiver_name (en_hostname env))
    \<and> model_pattern (rs_model s) \<and> rs_model s = or_else (ag_model a) (fc_model c) DEFAULT_MODEL
    \<and> rs_dest s = real_path (fs_canonicalize (en_fs env)) (fs_cwd (en_fs env)) (expand_user (fs_home (en_fs env)) (fs_user_home (en_fs env))
         (or_else (ag_outdir a) (fc_download_dir c) (path_join (en_passwd_home env) (lit ''Downloads''))))
    \<and> fs_stat (en_fs env) (rs_dest s) = Stat True (fs_uid (en_fs env))
    \<and> 1 \<le> rs_percent s \<and> rs_percent s \<le> 90
    \<and> int (rs_percent s) = or_else (ag_max_receive_percent a) (fc_max_receive_percent c) DEFAULT_MAX_RECEIVE_PERCENT
    \<and> (\<exists>opts. options_given (drop 1 (en_argv env)) opts \<and> args_from default_args opts a)
    \<and> int (rs_port s) = ag_port a \<and> rs_port s < 2 ^ 16 \<and> ag_iface a \<noteq> [] \<and> 0x2f \<notin> set (ag_iface a)
    \<and> (case en_read env (config_path_of env a) of
         Not_found \<Rightarrow> c = default_config
       | Read_failed _ \<Rightarrow> False
       | Contents bs \<Rightarrow> (\<exists>t table. from_utf8 bs = Some t \<and> en_toml env t = Ok table \<and> config_of_table table c))"
proof -
  note ok = check_settings_Ok [OF assms(1)]
  note name = ok(2) [unfolded validate_name_iff] and model = ok(3) [unfolded validate_model_iff]
    and percent = ok(5) [unfolded validate_percent_iff] and port = ok(6) [unfolded port_of_Ok]
  show ?thesis unfolding a_def c_def
    using name model validate_download_dir_ours [OF ok(4)] percent port ok(7) ok(1) [unfolded load_Ok] check_settings_args [OF assms(1)]
    by (simp add: iface_ok_def split: if_splits)
qed

definition sample_environment :: environment where [eval_defs]:
  "sample_environment =
     \<lparr>en_argv = [lit ''omdrop-receiver'', lit ''--port=9000''], en_xdg_config_home = None, en_passwd_home = lit ''/home/u'',
      en_read = (\<lambda>_. Contents (blit ''x'')), en_toml = (\<lambda>_. Ok [(lit ''name'', TString (lit ''Drop''))]), en_hostname = None,
      en_fs = \<lparr>fs_canonicalize = Some, fs_cwd = None, fs_stat = (\<lambda>_. Stat True 1000), fs_home = lit ''/home/u'',
               fs_user_home = (\<lambda>_. None), fs_uid = 1000\<rparr>,
      en_address = (\<lambda>_. Ok (lit ''02:00:00:00:00:01''))\<rparr>"

lemma sample_settings:
  "\<exists>s. check_settings sample_environment = Ok s \<and> rs_name s = lit ''Drop'' \<and> rs_port s = 9000"
  by (simp add: eval_defs parse_args.simps utf8_decode.simps del: shorten.simps)

theorem startup_checked_witness:
  "\<exists>s. check_settings sample_environment = Ok s \<and> model_pattern (rs_model s) \<and> 1 \<le> rs_percent s \<and> rs_percent s \<le> 90"
proof -
  obtain s where s: "check_settings sample_environment = Ok s" using sample_settings by blast
  show ?thesis using startup_checked [OF s] s by blast
qed

end
