(* ===== verification/Processes.thy ===== *)
theory Processes
  imports Radio Settings
begin

text \<open>
  Which processes the radio helper believes to be its own and signals (omdrop-radio/src/proc.rs and
  window.rs), what it reads of the interface (net.rs), what \<open>status\<close> says, and the backend's answers
  (diag.rs).

  \<open>/proc\<close> is a table from process numbers to what its files hold; a run-directory state file is what
  reading it gave, trimmed. Paths are texts.
\<close>

section \<open>What /proc says\<close>

record proc_files =
  pf_cmdline :: "bytes option"
  pf_stat :: "ustr option"
  pf_status :: "ustr option"
  pf_exe :: "bytes option"

type_synonym procs = "nat \<Rightarrow> proc_files option"

definition cmdline :: "procs \<Rightarrow> nat \<Rightarrow> bytes list" where [eval_defs]:
  "cmdline pr pid =
     (case Option.bind (pr pid) pf_cmdline of
        None \<Rightarrow> []
      | Some buf \<Rightarrow> filter (\<lambda>a. a \<noteq> []) (split_by (\<lambda>b. b = 0) (take (2 ^ 16) buf)))"

definition stat_fields :: "procs \<Rightarrow> nat \<Rightarrow> ustr list option" where [eval_defs]:
  "stat_fields pr pid =
     (case Option.bind (pr pid) pf_stat of
        None \<Rightarrow> None
      | Some s \<Rightarrow> if 0x29 \<notin> set s then None
                  else Some (split_whitespace (rev (takeWhile (\<lambda>c. c \<noteq> 0x29) (rev s)))))"

definition field_of :: "procs \<Rightarrow> nat \<Rightarrow> nat \<Rightarrow> ustr option" where [eval_defs]:
  "field_of pr pid i =
     (case stat_fields pr pid of None \<Rightarrow> None | Some f \<Rightarrow> if i < length f then Some (f ! i) else None)"

definition running :: "procs \<Rightarrow> nat \<Rightarrow> bool" where [eval_defs]:
  "running pr pid = (case field_of pr pid 0 of None \<Rightarrow> False | Some s \<Rightarrow> s \<noteq> lit ''Z'' \<and> s \<noteq> lit ''X'')"

definition pgrp :: "procs \<Rightarrow> nat \<Rightarrow> nat option" where [eval_defs]:
  "pgrp pr pid = Option.bind (field_of pr pid 2) parse_u32"

definition start_time :: "procs \<Rightarrow> nat \<Rightarrow> nat option" where [eval_defs]:
  "start_time pr pid = Option.bind (field_of pr pid 19) parse_u64"

definition ppid :: "procs \<Rightarrow> nat \<Rightarrow> nat option" where [eval_defs]:
  "ppid pr pid = Option.bind (field_of pr pid 1) parse_u32"

definition uids :: "procs \<Rightarrow> nat \<Rightarrow> (nat \<times> nat) option" where [eval_defs]:
  "uids pr pid =
     (case Option.bind (pr pid) pf_status of
        None \<Rightarrow> None
      | Some s \<Rightarrow>
          (case find (\<lambda>l. starts_with l (lit ''Uid:'')) (lines s) of
             None \<Rightarrow> None
           | Some l \<Rightarrow>
               (case map parse_u32 (split_whitespace (drop 4 l)) of
                  Some a # Some b # _ \<Rightarrow> Some (a, b)
                | _ \<Rightarrow> None)))"

definition owned_by :: "procs \<Rightarrow> nat \<Rightarrow> nat \<Rightarrow> bool" where [eval_defs]:
  "owned_by pr pid owner \<longleftrightarrow> uids pr pid = Some (owner, owner)"

definition is_invocation :: "bool \<Rightarrow> procs \<Rightarrow> nat \<Rightarrow> ustr \<Rightarrow> ustr \<Rightarrow> bool" where [eval_defs]:
  "is_invocation root pr pid exe verb \<longleftrightarrow>
     (case cmdline pr pid of
        a0 # a1 # _ \<Rightarrow>
          a0 = as_bytes exe \<and> a1 = as_bytes verb
          \<and> (\<not> root
             \<or> (case Option.bind (pr pid) pf_exe of
                  None \<Rightarrow> False
                | Some link \<Rightarrow> link = as_bytes exe \<or> link = as_bytes exe @ blit '' (deleted)''))
      | _ \<Rightarrow> False)"

definition base_name :: "bytes \<Rightarrow> bytes" where [eval_defs]:
  "base_name a = rev (takeWhile (\<lambda>b. b \<noteq> 0x2f) (rev a))"

definition is_script_run :: "procs \<Rightarrow> nat \<Rightarrow> ustr list \<Rightarrow> ustr \<Rightarrow> ustr option \<Rightarrow> bool" where [eval_defs]:
  "is_script_run pr pid interpreters script verb \<longleftrightarrow>
     (let argv = cmdline pr pid; base = (case argv of a # _ \<Rightarrow> base_name a | [] \<Rightarrow> [])
      in list_ex (\<lambda>i. as_bytes i = base) interpreters
         \<and> (case argv of _ # a1 # _ \<Rightarrow> a1 = as_bytes script | _ \<Rightarrow> False)
         \<and> (case verb of None \<Rightarrow> True
            | Some v \<Rightarrow> (case argv of _ # _ # a2 # _ \<Rightarrow> a2 = as_bytes v | _ \<Rightarrow> False)))"

text \<open>\<open>find\<close>, over the numeric entries of /proc in the order they are listed.\<close>

definition find_procs :: "procs \<Rightarrow> nat list \<Rightarrow> nat \<Rightarrow> (nat \<Rightarrow> bool) \<Rightarrow> nat list" where [eval_defs]:
  "find_procs pr pids owner pred = filter (\<lambda>pid. pred pid \<and> owned_by pr pid owner \<and> running pr pid) pids"

section \<open>Our own processes\<close>

record radio_ctx =
  rx_self_exe :: ustr
  rx_hooks :: ustr
  rx_legacy :: ustr
  rx_owner :: nat
  rx_root :: bool

definition parent :: "ustr \<Rightarrow> ustr option" where [eval_defs]:
  "parent p =
     (let d = rev (dropWhile (\<lambda>c. c \<noteq> 0x2f) (rev p))
      in if p = [] \<or> p = lit ''/'' then None else if d = [] \<or> d = lit ''/'' then Some d else Some (butlast d))"

definition legacy_exe :: "radio_ctx \<Rightarrow> ustr" where [eval_defs]:
  "legacy_exe cx = path_join (rx_legacy cx) (lit ''omdrop-discoverable'')"

definition adv_path :: "radio_ctx \<Rightarrow> ustr option" where [eval_defs]:
  "adv_path cx = map_option (\<lambda>d. path_join d (lit ''omdrop-adv'')) (parent (rx_self_exe cx))"

definition is_our_supervisor :: "radio_ctx \<Rightarrow> procs \<Rightarrow> nat \<Rightarrow> bool" where [eval_defs]:
  "is_our_supervisor cx pr pid \<longleftrightarrow>
     is_invocation (rx_root cx) pr pid (rx_self_exe cx) (lit ''__supervise'') \<and> owned_by pr pid (rx_owner cx) \<and> running pr pid"

definition is_legacy_supervisor :: "ustr \<Rightarrow> procs \<Rightarrow> nat \<Rightarrow> bool" where [eval_defs]:
  "is_legacy_supervisor legacy pr pid = is_script_run pr pid [lit ''bash'', lit ''sh''] legacy (Some (lit ''__supervise''))"

fun descends_within :: "procs \<Rightarrow> nat \<Rightarrow> nat \<Rightarrow> nat \<Rightarrow> bool" where
  "descends_within pr ancestor 0 pid = False"
| "descends_within pr ancestor (Suc n) pid =
     (if pid = ancestor then True
      else (case ppid pr pid of Some p \<Rightarrow> if p > 1 then descends_within pr ancestor n p else False | None \<Rightarrow> False))"

definition descends_from :: "procs \<Rightarrow> nat \<Rightarrow> nat \<Rightarrow> bool" where [eval_defs]:
  "descends_from pr pid ancestor = descends_within pr ancestor 64 pid"

text \<open>The state files of the run directory.\<close>

type_synonym run_files = "ustr \<Rightarrow> ustr option"

definition supervisor_alive :: "radio_ctx \<Rightarrow> run_files \<Rightarrow> procs \<Rightarrow> bool" where [eval_defs]:
  "supervisor_alive cx rf pr \<longleftrightarrow>
     (case Option.bind (rf (lit ''supervisor'')) parse_pid_start of
        None \<Rightarrow> False
      | Some (pid, start) \<Rightarrow> start_time pr pid = Some start \<and> is_our_supervisor cx pr pid)"

text \<open>\<open>recorded_supervisor\<close>: the same judgement, made of the process the handle names.\<close>

definition recorded_supervisor :: "radio_ctx \<Rightarrow> run_files \<Rightarrow> procs \<Rightarrow> nat option" where [eval_defs]:
  "recorded_supervisor cx rf pr =
     (case Option.bind (rf (lit ''supervisor'')) parse_pid_start of
        None \<Rightarrow> None
      | Some (pid, start) \<Rightarrow>
          if start_time pr pid = Some start \<and> is_invocation (rx_root cx) pr pid (rx_self_exe cx) (lit ''__supervise'')
             \<and> owned_by pr pid (rx_owner cx) \<and> running pr pid
          then Some pid else None)"

definition until_live :: "nat \<Rightarrow> ustr option \<Rightarrow> bool" where [eval_defs]:
  "until_live now until \<longleftrightarrow>
     (case until of
        None \<Rightarrow> False
      | Some d \<Rightarrow> is_uint d \<and> (case parse_u64 d of None \<Rightarrow> False | Some n \<Rightarrow> n = 0 \<or> now < n))"

definition legacy_supervisors :: "radio_ctx \<Rightarrow> run_files \<Rightarrow> procs \<Rightarrow> nat list \<Rightarrow> nat list" where [eval_defs]:
  "legacy_supervisors cx rf pr pids =
     (case rf (lit ''supervisor'') of
        None \<Rightarrow> []
      | Some s \<Rightarrow>
          (if \<not> is_uint s then []
           else (case parse_u32 s of
                   None \<Rightarrow> []
                 | Some rec \<Rightarrow>
                     if rec > 1 then
                       find_procs pr pids (rx_owner cx) (\<lambda>p. is_legacy_supervisor (legacy_exe cx) pr p \<and> descends_from pr p rec)
                     else [])))"

definition runs_tagged_program :: "radio_ctx \<Rightarrow> procs \<Rightarrow> nat \<Rightarrow> ustr \<Rightarrow> bool" where [eval_defs]:
  "runs_tagged_program cx pr pid tag \<longleftrightarrow>
     (let legacy = (\<lambda>script. is_script_run pr pid [lit ''python3'', lit ''python''] (path_join (rx_legacy cx) script) None);
          ours = (\<lambda>verb. case adv_path cx of None \<Rightarrow> False | Some a \<Rightarrow> is_invocation (rx_root cx) pr pid a verb)
      in if tag = lit ''mdns'' then ours (lit ''mdns'') \<or> legacy (lit ''awdl-mdns-respond.py'')
         else if tag = lit ''ble'' then ours (lit ''ble'') \<or> legacy (lit ''ble-airdrop-adv.py'')
         else if tag = lit ''peers''
         then is_script_run pr pid [lit ''bash'', lit ''sh''] (path_join (rx_hooks cx) (lit ''peer-watch'')) None
              \<or> legacy (lit ''awdl-peer-watch.py'')
         else False)"

section \<open>Signals\<close>

text \<open>A process number cast to \<open>i32\<close>, and the targets \<open>signal\<close> refuses.\<close>

definition as_i32 :: "nat \<Rightarrow> int" where [eval_defs]:
  "as_i32 n = (if n mod 2 ^ 32 < 2 ^ 31 then int (n mod 2 ^ 32) else int (n mod 2 ^ 32) - 2 ^ 32)"

definition may_signal :: "int \<Rightarrow> bool" where [eval_defs]:
  "may_signal target \<longleftrightarrow> \<not> (target = 0 \<or> target = -1)"

definition still_ours :: "radio_ctx \<Rightarrow> procs \<Rightarrow> recorded \<Rightarrow> int option" where [eval_defs]:
  "still_ours cx pr r =
     (if \<not> owned_by pr (rc_pid r) (rx_owner cx) \<or> \<not> running pr (rc_pid r) then None
      else (case rc_start r of
              Some st \<Rightarrow>
                if start_time pr (rc_pid r) = Some st \<and> pgrp pr (rc_pid r) = Some (rc_pid r) then Some (- as_i32 (rc_pid r)) else None
            | None \<Rightarrow> if runs_tagged_program cx pr (rc_pid r) (rc_tag r) then Some (as_i32 (rc_pid r)) else None))"

datatype sign = SIGTERM | SIGKILL

text \<open>
  The signals \<open>kill_children\<close> sends for the list it took: \<open>delivered\<close> is whether the kernel took a
  SIGTERM, \<open>later\<close> the processes a second afterwards.
\<close>

definition term_targets :: "radio_ctx \<Rightarrow> procs \<Rightarrow> (int \<Rightarrow> bool) \<Rightarrow> recorded list \<Rightarrow> (recorded \<times> int) list" where [eval_defs]:
  "term_targets cx pr delivered rs =
     List.map_filter (\<lambda>r. case still_ours cx pr r of
        None \<Rightarrow> None
      | Some target \<Rightarrow> if may_signal target \<and> delivered target then Some (r, target) else None) rs"

definition kill_children :: "radio_ctx \<Rightarrow> procs \<Rightarrow> (int \<Rightarrow> bool) \<Rightarrow> procs \<Rightarrow> ustr option \<Rightarrow> (int \<times> sign) list" where [eval_defs]:
  "kill_children cx pr delivered later content =
     (let rs = parse_pids (case content of Some s \<Rightarrow> s | None \<Rightarrow> []);
          tried = filter may_signal (List.map_filter (still_ours cx pr) rs);
          targets = term_targets cx pr delivered rs
      in map (\<lambda>t. (t, SIGTERM)) tried
         @ map (\<lambda>(_, t). (t, SIGKILL)) (filter (\<lambda>(r, t). still_ours cx later r = Some t \<and> may_signal t) targets))"

text \<open>The orphaned hook of a supervisor that was killed: its group, if its leader is the recorded process.\<close>

definition kill_orphaned_hook :: "radio_ctx \<Rightarrow> procs \<Rightarrow> ustr option \<Rightarrow> (int \<times> sign) list" where [eval_defs]:
  "kill_orphaned_hook cx pr content =
     (case Option.bind content parse_pid_start of
        None \<Rightarrow> []
      | Some (pgid, start) \<Rightarrow>
          if start_time pr pgid = Some start \<and> pgrp pr pgid = Some pgid \<and> owned_by pr pgid (rx_owner cx) \<and> running pr pgid
             \<and> may_signal (- as_i32 pgid)
          then [(- as_i32 pgid, SIGTERM), (- as_i32 pgid, SIGKILL)] else [])"

section \<open>The interface\<close>

definition has_link_local :: "ustr option \<Rightarrow> bool" where [eval_defs]:
  "has_link_local table \<longleftrightarrow>
     (case table of
        None \<Rightarrow> False
      | Some s \<Rightarrow> list_ex (\<lambda>l. let f = split_whitespace l in length f \<ge> 6 \<and> f ! 5 = IFACE \<and> f ! 3 = lit ''20'') (lines s))"

definition rx_packets :: "ustr option \<Rightarrow> nat" where [eval_defs]:
  "rx_packets content = (case Option.bind (map_option trim content) parse_u64 of Some n \<Rightarrow> n | None \<Rightarrow> 0)"

text \<open>\<open>rx_watch\<close>: the two state files it keeps.\<close>

definition rx_watch :: "nat \<Rightarrow> run_files \<Rightarrow> run_files" where [eval_defs]:
  "rx_watch packets rf =
     (if rf (lit ''rx_proven'') = Some (lit ''1'') then rf
      else (case Option.bind (rf (lit ''rx_base'')) (\<lambda>b. if is_uint b then parse_u64 b else None) of
              None \<Rightarrow> rf(lit ''rx_base'' \<mapsto> dec packets)
            | Some base \<Rightarrow> if packets > base then rf(lit ''rx_proven'' \<mapsto> lit ''1'') else rf))"

definition plain_label :: "ustr \<Rightarrow> bool" where [eval_defs]:
  "plain_label s \<longleftrightarrow> s \<noteq> [] \<and> list_all (\<lambda>c. is_ascii_alphanumeric c \<or> c = 0x2d) s"

definition mdns_current :: "bytes option \<Rightarrow> ustr option" where [eval_defs]:
  "mdns_current out =
     (case out of
        None \<Rightarrow> None
      | Some bs \<Rightarrow>
          (case List.map_filter (\<lambda>l. if starts_with l [0x73, 0x20, 0x22]
                                     then (let r = drop 3 l in if r \<noteq> [] \<and> last r = 0x22 then Some (butlast r) else None)
                                     else None) (lines (from_utf8_lossy bs)) of
             [] \<Rightarrow> None
           | n # _ \<Rightarrow> Some n))"

text \<open>The name \<open>mdns_reclaim\<close> puts back: only avahi's own conflict rename is undone.\<close>

definition reclaimed_name :: "ustr option \<Rightarrow> ustr option \<Rightarrow> ustr option" where [eval_defs]:
  "reclaimed_name want cur =
     (case (want, cur) of
        (Some want, Some cur) \<Rightarrow>
          if plain_label want \<and> cur \<noteq> [] \<and> cur \<noteq> want
             \<and> starts_with cur (want @ lit ''-'')
             \<and> (let n = drop (length want + 1) cur in n \<noteq> [] \<and> list_all is_ascii_digit n)
          then Some want else None
      | _ \<Rightarrow> None)"

section \<open>Status\<close>

record status_report =
  st_visible :: bool
  st_remaining :: "nat option"
  st_reason :: ustr
  st_rx_proven :: bool
  st_peer_op :: ustr

definition status :: "bool \<Rightarrow> bool \<Rightarrow> bool \<Rightarrow> bool \<Rightarrow> nat \<Rightarrow> run_files \<Rightarrow> status_report" where [eval_defs]:
  "status iface_exists link_local window_alive degraded now rf =
     (let until = (case rf (lit ''until'') of Some u \<Rightarrow> u | None \<Rightarrow> []);
          reason0 = (case rf (lit ''reason'') of Some r \<Rightarrow> r | None \<Rightarrow> lit ''stopped'');
          rx = (rf (lit ''rx_proven'') = Some (lit ''1''));
          live_until = (is_uint until \<and> (until = lit ''0'' \<or> (case parse_u64 until of Some u \<Rightarrow> now < u | None \<Rightarrow> False)));
          (visible, remaining, reason) =
            (if \<not> iface_exists \<or> \<not> link_local then (False, None, lit ''no_awdl0'')
             else if live_until \<and> window_alive
             then (True,
                   (if until \<noteq> lit ''0'' then map_option (\<lambda>u. u - now) (parse_u64 until) else None),
                   (if rx then lit ''ok'' else lit ''unproven''))
             else (False, None, (if reason0 = lit ''ok'' \<or> reason0 = lit ''unproven'' then lit ''expired'' else reason0)))
      in \<lparr>st_visible = visible, st_remaining = remaining,
          st_reason = (if degraded \<and> reason = lit ''ok'' then lit ''peer_op_failed'' else reason),
          st_rx_proven = rx, st_peer_op = (if degraded then lit ''degraded'' else lit ''ok'')\<rparr>)"

definition show_bool :: "bool \<Rightarrow> ustr" where [eval_defs]:
  "show_bool b = (if b then lit ''true'' else lit ''false'')"

definition show_remaining :: "nat option \<Rightarrow> ustr" where [eval_defs]:
  "show_remaining r = (case r of None \<Rightarrow> lit ''null'' | Some n \<Rightarrow> dec n)"

definition status_line :: "status_report \<Rightarrow> ustr" where [eval_defs]:
  "status_line r =
     lit ''visible='' @ show_bool (st_visible r) @ lit '' remaining='' @ show_remaining (st_remaining r)
     @ lit '' reason='' @ st_reason r @ lit '' rx_proven='' @ show_bool (st_rx_proven r) @ lit '' peer_op='' @ st_peer_op r @ [0x0a]"

section \<open>The backend's answers\<close>

record probe =
  pb_backend :: ustr
  pb_hooks :: "nat option"
  pb_hardware :: "bool option"
  pb_first_missing :: "ustr option"

definition one_line :: "nat \<Rightarrow> ustr \<Rightarrow> ustr" where [eval_defs]:
  "one_line n s = take n (filter (\<lambda>c. \<not> is_control c) s)"

definition first_missing :: "(ustr \<times> json) list \<Rightarrow> ustr option" where [eval_defs]:
  "first_missing d =
     (case Option.bind (Option.bind (map_of d (lit ''missing'')) json_array) (\<lambda>m. case m of x # _ \<Rightarrow> Some x | [] \<Rightarrow> None) of
        None \<Rightarrow> None
      | Some m \<Rightarrow>
          (case Option.bind (Option.bind (as_object m) (\<lambda>d. map_of d (lit ''say''))) as_str of
             None \<Rightarrow> None
           | Some s \<Rightarrow> (let t = one_line 400 (join (lit '' '') (split_whitespace s)) in if t = [] then None else Some t)))"

definition parse_probe :: "(bytes \<Rightarrow> json option) \<Rightarrow> bytes \<Rightarrow> probe option" where [eval_defs]:
  "parse_probe parse_json out =
     (case Option.bind (parse_json out) as_object of
        None \<Rightarrow> None
      | Some d \<Rightarrow>
          (case Option.bind (map_of d (lit ''backend'')) as_str of
             None \<Rightarrow> None
           | Some b \<Rightarrow>
               (if trim b = [] then None
                else Some \<lparr>pb_backend = one_line 64 (trim b), pb_hooks = Option.bind (map_of d (lit ''hooks'')) as_u64,
                           pb_hardware = Option.bind (map_of d (lit ''hardware'')) as_bool, pb_first_missing = first_missing d\<rparr>)))"

definition allowed_read :: "ustr \<Rightarrow> bool" where [eval_defs]:
  "allowed_read name \<longleftrightarrow>
     name = lit ''ver'' \<or> name = lit ''cap''
     \<or> (str_len name \<le> 64 \<and> starts_with name (lit ''awdl_'')
        \<and> (let r = drop 5 name in r \<noteq> [] \<and> list_all (\<lambda>c. is_ascii_lowercase c \<or> is_ascii_digit c \<or> c = 0x5f) r))"

section \<open>What may be signalled, and what status says\<close>

text \<open>
  The process recorded in a line of \<open>pids\<close> is still the one started: it runs as the trusted user, and
  either it is the group leader that started at the recorded time, or (a line of the older helper) it
  still runs the program of its tag.
\<close>

definition proven :: "radio_ctx \<Rightarrow> procs \<Rightarrow> recorded \<Rightarrow> int \<Rightarrow> bool" where
  "proven cx pr r target \<longleftrightarrow>
     1 < rc_pid r \<and> uids pr (rc_pid r) = Some (rx_owner cx, rx_owner cx) \<and> running pr (rc_pid r)
     \<and> (case rc_start r of
          Some st \<Rightarrow> target = - int (rc_pid r) \<and> start_time pr (rc_pid r) = Some st \<and> pgrp pr (rc_pid r) = Some (rc_pid r)
        | None \<Rightarrow> target = int (rc_pid r) \<and> runs_tagged_program cx pr (rc_pid r) (rc_tag r))"

definition small_pids :: "procs \<Rightarrow> bool" where
  "small_pids pr \<longleftrightarrow> (\<forall>pid. pr pid \<noteq> None \<longrightarrow> pid < 2 ^ 31)"

lemma owned_by_exists: "owned_by pr pid owner \<Longrightarrow> pr pid \<noteq> None"
  by (cases "pr pid") (simp_all add: owned_by_def uids_def)

lemma as_i32_small: "n < 2 ^ 31 \<Longrightarrow> as_i32 n = int n"
  by (simp add: as_i32_def)

lemma still_ours_proven:
  assumes "still_ours cx pr r = Some t" "small_pids pr" "1 < rc_pid r"
  shows "proven cx pr r t"
proof -
  have o: "owned_by pr (rc_pid r) (rx_owner cx)" "running pr (rc_pid r)"
    using assms(1) by (auto simp: still_ours_def split: if_splits)
  then have "as_i32 (rc_pid r) = int (rc_pid r)"
    using owned_by_exists [OF o(1)] assms(2) by (intro as_i32_small) (auto simp: small_pids_def)
  then show ?thesis using assms(1,3) o
    by (auto simp: proven_def still_ours_def owned_by_def split: if_splits option.splits)
qed

lemma map_filter_mem: "y \<in> set (List.map_filter f xs) \<longleftrightarrow> (\<exists>x \<in> set xs. f x = Some y)"
  by (induction xs) (auto simp: List.map_filter_simps split: option.splits)

lemma parse_pids_line_above_one:
  assumes "parse_pids_line l = Some r" shows "1 < rc_pid r"
proof (cases "split_whitespace l")
  case Nil
  then show ?thesis using assms by (simp add: parse_pids_line_def)
next
  case (Cons p f)
  then show ?thesis using assms
    by (cases "parse_u32 p") (auto simp: parse_pids_line_def simp del: option.case_distrib split: if_split_asm)
qed

lemma parse_pids_above_one: "r \<in> set (parse_pids s) \<Longrightarrow> 1 < rc_pid r"
  using parse_pids_line_above_one by (auto simp: parse_pids_def map_filter_mem)

text \<open>
  C29. The helper, which runs as root, signals a process named in its \<open>pids\<close> file only when that is
  provably a process it started: at the moment of the signal the process runs as the trusted user and
  either leads its process group with the start time recorded for it, or (a line of the older helper)
  still runs the program of its tag. So no signal ever goes to everything, to the helper's own group or to init,
  whatever the file holds. The second round kills only what was asked to end in the first. (Process
  numbers are below \<open>2 ^ 31\<close>.)
\<close>

theorem signals_only_ours:
  assumes "small_pids pr" "small_pids later"
    and "(t, s) \<in> set (kill_children cx pr delivered later content)"
  shows "t \<noteq> 0 \<and> t \<noteq> 1 \<and> t \<noteq> -1 \<and>
    (\<exists>r \<in> set (parse_pids (case content of Some c \<Rightarrow> c | None \<Rightarrow> [])).
       proven cx pr r t \<and> (s = SIGKILL \<longrightarrow> delivered t \<and> proven cx later r t))"
proof -
  let ?rs = "parse_pids (case content of Some c \<Rightarrow> c | None \<Rightarrow> [])"
  have "\<exists>r \<in> set ?rs. still_ours cx pr r = Some t \<and> (s = SIGKILL \<longrightarrow> delivered t \<and> still_ours cx later r = Some t)"
    using assms(3) unfolding kill_children_def Let_def term_targets_def
    by (auto simp: map_filter_mem split: option.splits if_splits)
  then obtain r where r: "r \<in> set ?rs" "still_ours cx pr r = Some t"
      "s = SIGKILL \<Longrightarrow> delivered t \<and> still_ours cx later r = Some t" by blast
  note one = parse_pids_above_one [OF r(1)]
  have p: "proven cx pr r t" using still_ours_proven [OF r(2) assms(1) one] .
  moreover have "s = SIGKILL \<longrightarrow> delivered t \<and> proven cx later r t"
    using r(3) still_ours_proven [OF _ assms(2) one] by blast
  moreover have "t \<noteq> 0 \<and> t \<noteq> 1 \<and> t \<noteq> -1" using p one by (auto simp: proven_def split: option.splits)
  ultimately show ?thesis using r(1) by blast
qed

definition sample_proc :: proc_files where [eval_defs]:
  "sample_proc =
     \<lparr>pf_cmdline = None, pf_stat = Some (lit ''12 (omdrop-adv) S 1 12 0 0 0 0 0 0 0 0 0 0 0 0 0 0 0 0 345''),
      pf_status = Some (lit ''Uid:  0 0 0 0''), pf_exe = None\<rparr>"

definition sample_ctx :: radio_ctx where [eval_defs]:
  "sample_ctx =
     \<lparr>rx_self_exe = lit ''/usr/lib/omdrop/omdrop-radio'', rx_hooks = lit ''/usr/lib/omdrop/radio'', rx_legacy = lit ''/usr/lib/omdrop'',
      rx_owner = 0, rx_root = True\<rparr>"

lemma sample_signal:
  "kill_children sample_ctx [12 \<mapsto> sample_proc] (\<lambda>_. True) [12 \<mapsto> sample_proc] (Some (lit ''12 mdns 345''))
     = [(-12, SIGTERM), (-12, SIGKILL)]"
  by (simp add: eval_defs List.map_filter_simps)

theorem signals_only_ours_witness:
  "\<exists>r \<in> set (parse_pids (lit ''12 mdns 345'')). proven sample_ctx [12 \<mapsto> sample_proc] r (-12)"
  using signals_only_ours [of "[12 \<mapsto> sample_proc]" "[12 \<mapsto> sample_proc]" "-12" SIGKILL sample_ctx "\<lambda>_. True"
      "Some (lit ''12 mdns 345'')"]
  by (auto simp: sample_signal small_pids_def)

lemma foldl_digits_ge: "(a :: nat) \<le> foldl (\<lambda>a d. a * 10 + d) a ds"
proof (induction ds arbitrary: a)
  case (Cons d ds)
  have "a \<le> a * 10 + d" by simp
  also have "\<dots> \<le> foldl (\<lambda>a d. a * 10 + d) (a * 10 + d) ds" by (rule Cons.IH)
  finally show ?case by simp
qed simp

text \<open>A canonical number other than 0 has a positive value: there is one way to write "no deadline".\<close>

lemma is_uint_zero: "is_uint u \<Longrightarrow> parse_u64 u = Some 0 \<Longrightarrow> u = lit ''0''"
proof -
  assume u: "is_uint u" and p: "parse_u64 u = Some 0"
  obtain c r where c: "u = c # r" using u by (cases u) (auto simp: is_uint_def canonical_uint_def)
  have dig: "is_ascii_digit c" using u by (simp add: c is_uint_def canonical_uint_def)
  then have d: "to_digit 10 c = Some (c - 48)" and "c \<noteq> 43" by (auto simp: to_digit_def is_ascii_digit_def Let_def)
  then have "parse_digits u64_max 10 (c # r) = Some 0" using p unfolding c parse_u64_def from_str_radix_def by simp
  then have "digits_value 10 (map (\<lambda>c. the (to_digit 10 c)) (c # r)) = 0"
    unfolding parse_digits_def Let_def by (metis option.distinct(1) option.inject)
  then have "foldl (\<lambda>a d. a * 10 + d) (c - 48) (map (\<lambda>c. the (to_digit 10 c)) r) = 0"
    by (simp add: digits_value_def d)
  then have "c - 48 \<le> 0" using foldl_digits_ge [of "c - 48"] by metis
  then have "c = 48" using dig by (simp add: is_ascii_digit_def)
  moreover from this have "r = []" using u by (simp add: c is_uint_def canonical_uint_def utf8_len_def)
  ultimately show ?thesis by (simp add: c lit_def)
qed

lemma zero_text: "parse_u64 (lit ''0'') = Some 0" "is_uint (lit ''0'')" "\<not> is_uint []"
  by (simp_all add: eval_defs)

lemma live_text:
  "is_uint u \<and> (u = lit ''0'' \<or> (case parse_u64 u of Some n \<Rightarrow> now < n | None \<Rightarrow> False)) \<longleftrightarrow> until_live now (Some u)"
  using is_uint_zero [of u] zero_text by (auto simp: until_live_def split: option.splits)

text \<open>
  \<open>status\<close> reports the window truthfully: visible exactly when the interface is up with an
  address, the deadline is ahead (or there is none) and a supervisor is alive; the time remaining is
  that until the deadline, given exactly for a visible window that has one; and the reason is \<open>ok\<close> exactly
  when the window is visible, data has arrived, and no peer operation is failing.
\<close>

lemma status_truthful:
  "let r = status iface_up link_local alive degraded now rf
   in (st_visible r \<longleftrightarrow> iface_up \<and> link_local \<and> alive \<and> until_live now (rf (lit ''until'')))
    \<and> (st_remaining r = Some n \<longleftrightarrow>
         st_visible r \<and> 0 < n \<and> (\<exists>u. rf (lit ''until'') = Some u \<and> parse_u64 u = Some (now + n)))
    \<and> (st_reason r = lit ''ok'' \<longleftrightarrow> st_visible r \<and> st_rx_proven r \<and> st_peer_op r = lit ''ok'')"
proof -
  define r where "r = status iface_up link_local alive degraded now rf"
  define up where "up \<longleftrightarrow> iface_up \<and> link_local \<and> alive \<and> until_live now (rf (lit ''until''))"
  have texts: "lit ''no_awdl0'' \<noteq> lit ''ok''" "lit ''unproven'' \<noteq> lit ''ok''" "lit ''expired'' \<noteq> lit ''ok''"
    "lit ''peer_op_failed'' \<noteq> lit ''ok''" "lit ''degraded'' \<noteq> lit ''ok''" by (simp_all add: lit_def)
  have live: "(let u = (case rf (lit ''until'') of Some u \<Rightarrow> u | None \<Rightarrow> [])
      in is_uint u \<and> (u = lit ''0'' \<or> (case parse_u64 u of Some n \<Rightarrow> now < n | None \<Rightarrow> False)))
      \<longleftrightarrow> until_live now (rf (lit ''until''))"
    using live_text [of _ now] zero_text(3) by (auto simp: Let_def until_live_def split: option.splits)
  have v: "st_visible r \<longleftrightarrow> up"
    using live unfolding r_def status_def Let_def up_def by (auto split: prod.splits if_splits)
  have reason: "st_reason r = lit ''ok'' \<longleftrightarrow> up \<and> st_rx_proven r \<and> st_peer_op r = lit ''ok''"
    using live unfolding r_def status_def Let_def up_def by (auto simp: texts texts [symmetric] split: prod.splits if_splits)
  have rem: "st_remaining r = (if up then (case rf (lit ''until'') of None \<Rightarrow> None
      | Some u \<Rightarrow> if u \<noteq> lit ''0'' then map_option (\<lambda>u. u - now) (parse_u64 u) else None) else None)"
    using live unfolding r_def status_def Let_def up_def
    by (auto simp: until_live_def split: prod.splits if_splits option.splits)
  have "st_remaining r = Some n \<longleftrightarrow> up \<and> 0 < n \<and> (\<exists>u. rf (lit ''until'') = Some u \<and> parse_u64 u = Some (now + n))"
  proof (cases "rf (lit ''until'')")
    case None
    then show ?thesis by (simp add: rem)
  next
    case (Some u)
    show ?thesis
    proof (cases "up \<and> u \<noteq> lit ''0''")
      case True
      then obtain m where m: "is_uint u" "parse_u64 u = Some m" "m = 0 \<or> now < m"
        using Some by (auto simp: up_def until_live_def split: option.splits)
      then have "now < m" using is_uint_zero [OF m(1)] True by auto
      then show ?thesis using True Some m(2) by (auto simp: rem)
    next
      case False
      then show ?thesis using Some zero_text(1) by (auto simp: rem)
    qed
  qed
  then show ?thesis unfolding r_def [symmetric] Let_def v using reason by (simp add: up_def)
qed

end
