(* ===== verification/Window.thy ===== *)
theory Window
  imports Processes
begin

text \<open>
  The discoverability window (omdrop-radio/src/window.rs): \<open>start\<close>, the supervisor and \<open>stop\<close> are
  processes that meet in the files of the run directory and in \<open>window.lock\<close>. Each is a step relation
  over the shared state with a program counter of its own; their steps interleave in any order, and the
  clock moves between them.

  A step is one access to what the processes share. What the backend's hooks do is free: a hook may
  succeed or fail in any way. Left out: a second supervisor of the older helper, a \<open>start\<close> that is
  killed outright or begins while a \<open>stop\<close> is running, a process that survives SIGKILL, and a clock set back.
\<close>

datatype ending = Stopped | Expired | Radio_lost

text \<open>
  The supervisor: in its entry with the token it was given, in its loop, about to end the window for a
  reason, inside \<open>end_window\<close> before and after the deadline is read again (with or without the
  lock), and tearing down.
\<close>

datatype sup_pc = Gone | Entry ustr | Watching | Want ending | Deciding ending bool | Removing ending bool | Closing ending

text \<open>
  A start, with its seconds: about to take the lock, holding it, extending a live window, having
  written a deadline, waiting for a closing window, bringing the radio up, having published the
  deadline, having written the token, waiting for its supervisor, and done with an exit status.
\<close>

datatype start_pc = No_start | Look nat | Looking nat | Extending nat | Extended ustr | Waiting nat | Opening nat
  | Publishing nat | Tokened nat ustr | Checking nat | Answered nat

datatype stop_pc = No_stop | Stopping_starts | Stopping_sups

datatype side = Start_side | Sup_side

record window =
  w_now :: nat
  w_files :: run_files
  w_lock :: "side option"
  w_sup :: sup_pc
  w_sup_id :: "nat \<times> nat"
  w_term_sup :: bool
  w_unlocked :: bool
  w_start :: start_pc
  w_term_start :: bool
  w_stop :: stop_pc

abbreviation UNTIL :: ustr where
  "UNTIL \<equiv> lit ''until''"

abbreviation REASON :: ustr where
  "REASON \<equiv> lit ''reason''"

abbreviation SUPERVISOR :: ustr where
  "SUPERVISOR \<equiv> lit ''supervisor''"

abbreviation TOKEN :: ustr where
  "TOKEN \<equiv> lit ''supervisor.token''"

abbreviation RX_PROVEN :: ustr where
  "RX_PROVEN \<equiv> lit ''rx_proven''"

abbreviation RX_BASE :: ustr where
  "RX_BASE \<equiv> lit ''rx_base''"

abbreviation ANNOUNCE :: ustr where
  "ANNOUNCE \<equiv> lit ''announce''"

abbreviation w_until :: "window \<Rightarrow> ustr option" where
  "w_until w \<equiv> w_files w UNTIL"

definition set_file :: "ustr \<Rightarrow> ustr \<Rightarrow> window \<Rightarrow> window" where
  "set_file name content w = w\<lparr>w_files := (w_files w)(name \<mapsto> content)\<rparr>"

definition unset_file :: "ustr \<Rightarrow> window \<Rightarrow> window" where
  "unset_file name w = w\<lparr>w_files := (w_files w)(name := None)\<rparr>"

definition release :: "bool \<Rightarrow> window \<Rightarrow> window" where
  "release h w = (if h then w\<lparr>w_lock := None\<rparr> else w)"

text \<open>The recorded supervisor is alive and ours: the record names the process that runs.\<close>

definition recorded_alive :: "window \<Rightarrow> bool" where
  "recorded_alive w \<longleftrightarrow> w_sup w \<noteq> Gone \<and> Option.bind (w_files w SUPERVISOR) parse_pid_start = Some (w_sup_id w)"

definition has_deadline :: "window \<Rightarrow> bool" where
  "has_deadline w \<longleftrightarrow> (case w_until w of Some d \<Rightarrow> is_uint d | None \<Rightarrow> False)"

definition window_live :: "window \<Rightarrow> bool" where
  "window_live w = until_live (w_now w) (w_until w)"

definition new_deadline :: "nat \<Rightarrow> nat \<Rightarrow> ustr" where [eval_defs]:
  "new_deadline now secs = (if secs > 0 then dec (now + secs) else lit ''0'')"

text \<open>A process ends by a signal it cannot catch: the kernel closes its files, and the lock with them.\<close>

definition kill_sup :: "window \<Rightarrow> window" where
  "kill_sup w = w\<lparr>w_sup := Gone, w_lock := (if w_lock w = Some Sup_side then None else w_lock w)\<rparr>"

text \<open>\<open>fail_start\<close> with a reason, and the exit status.\<close>

definition fail_start :: "ustr \<Rightarrow> nat \<Rightarrow> window \<Rightarrow> window" where
  "fail_start reason code w = (set_file REASON reason w)\<lparr>w_start := Answered code\<rparr>"

inductive start_step :: "window \<Rightarrow> window \<Rightarrow> bool" where
  begin_start: "w_start w = No_start \<or> (\<exists>c. w_start w = Answered c) \<Longrightarrow> w_stop w = No_stop \<Longrightarrow> secs < 10 ^ 9
    \<Longrightarrow> start_step w (w\<lparr>w_start := Look secs, w_term_start := False\<rparr>)"
| lock_failed: "w_start w = Look secs \<Longrightarrow> start_step w (w\<lparr>w_start := Answered 3\<rparr>)"
| locked: "w_start w = Look secs \<Longrightarrow> w_lock w = None \<Longrightarrow> start_step w (w\<lparr>w_start := Looking secs, w_lock := Some Start_side\<rparr>)"
| found_closing: "w_start w = Looking secs \<Longrightarrow> recorded_alive w \<Longrightarrow> \<not> has_deadline w
    \<Longrightarrow> start_step w (w\<lparr>w_start := Waiting secs, w_lock := None\<rparr>)"
| found_live: "w_start w = Looking secs \<Longrightarrow> recorded_alive w \<Longrightarrow> has_deadline w \<Longrightarrow> start_step w (w\<lparr>w_start := Extending secs\<rparr>)"
| found_none: "w_start w = Looking secs \<Longrightarrow> \<not> recorded_alive w
    \<Longrightarrow> start_step w (w\<lparr>w_start := Opening secs, w_lock := None\<rparr>)"
| extend: "w_start w = Extending secs \<Longrightarrow> d = new_deadline (w_now w) secs
    \<Longrightarrow> start_step w ((set_file UNTIL d w)\<lparr>w_start := Extended d\<rparr>)"
| answer_extended: "w_start w = Extended d
    \<Longrightarrow> start_step w ((set_file REASON (lit ''ok'') w)\<lparr>w_start := Answered 5, w_lock := None\<rparr>)"
| closed: "w_start w = Waiting secs \<Longrightarrow> w_sup w = Gone \<Longrightarrow> start_step w (w\<lparr>w_start := Opening secs\<rparr>)"
| still_closing: "w_start w = Waiting secs \<Longrightarrow> start_step w (w\<lparr>w_start := Answered 3\<rparr>)"
| prepared: "w_start w = Opening secs \<Longrightarrow> start_step w (unset_file RX_BASE (set_file RX_PROVEN (lit ''0'') w))"
| radio_up: "w_start w = Opening secs \<Longrightarrow> announce_ok a
    \<Longrightarrow> start_step w (set_file RX_BASE (dec packets) (set_file ANNOUNCE (trim (announce_line a)) w))"
| open_failed: "w_start w = Opening secs \<Longrightarrow> reason = lit ''no_awdl0'' \<and> code = 4 \<or> reason = lit ''parked'' \<and> code = 3
    \<Longrightarrow> start_step w (fail_start reason code w)"
| open_refused: "w_start w = Opening secs \<Longrightarrow> code = 3 \<or> code = 4 \<Longrightarrow> start_step w (w\<lparr>w_start := Answered code\<rparr>)"
| publish: "w_start w = Opening secs \<Longrightarrow> \<not> w_term_start w
    \<Longrightarrow> start_step w ((set_file REASON (lit ''ok'') (set_file UNTIL (new_deadline (w_now w) secs) w))\<lparr>w_start := Publishing secs\<rparr>)"
| no_token: "w_start w = Publishing secs \<Longrightarrow> start_step w (fail_start (lit ''stopped'') 3 (unset_file UNTIL w))"
| token: "w_start w = Publishing secs \<Longrightarrow> length raw = 16
    \<Longrightarrow> start_step w ((set_file TOKEN (token_text raw) w)\<lparr>w_start := Tokened secs (token_text raw)\<rparr>)"
| start_cancelled: "w_start w = Tokened secs t \<Longrightarrow> w_term_start w \<Longrightarrow> start_step w ((unset_file TOKEN w)\<lparr>w_start := Answered 3\<rparr>)"
| spawn_failed: "w_start w = Tokened secs t
    \<Longrightarrow> start_step w (fail_start (lit ''stopped'') 3 (unset_file UNTIL (unset_file TOKEN w)))"
| spawned: "w_start w = Tokened secs t \<Longrightarrow> \<not> w_term_start w \<Longrightarrow> 1 < pid \<Longrightarrow> pid \<le> u32_max \<Longrightarrow> born < 10 ^ 12
    \<Longrightarrow> Option.bind (w_files w SUPERVISOR) parse_pid_start \<noteq> Some (pid, born)
    \<Longrightarrow> start_step w (w\<lparr>w_start := Checking secs, w_sup := Entry t, w_sup_id := (pid, born), w_term_sup := False, w_unlocked := False\<rparr>)"
| came_up: "w_start w = Checking secs \<Longrightarrow> recorded_alive w \<Longrightarrow> start_step w (w\<lparr>w_start := Answered 0\<rparr>)"
| not_up: "w_start w = Checking secs \<Longrightarrow> \<not> recorded_alive w
    \<Longrightarrow> start_step w (fail_start (lit ''stopped'') 3 (unset_file UNTIL (kill_sup (unset_file TOKEN w))))"

text \<open>What a supervisor does, by name.\<close>

datatype sup_act = Enter | Refuse | Tick | Cancel | Expire | Lose | Take_lock | No_lock | Keep | Decide | Remove | Finish

definition reason_of :: "ending \<Rightarrow> ustr" where [eval_defs]:
  "reason_of e = (case e of Stopped \<Rightarrow> lit ''stopped'' | Expired \<Rightarrow> lit ''expired'' | Radio_lost \<Rightarrow> lit ''no_awdl0'')"

text \<open>The line a supervisor records, as it is read back (trimmed).\<close>

definition me_line :: "nat \<times> nat \<Rightarrow> ustr" where [eval_defs]:
  "me_line i = dec (fst i) @ lit '' '' @ dec (snd i)"

inductive sup_step :: "sup_act \<Rightarrow> window \<Rightarrow> window \<Rightarrow> bool" where
  "w_sup w = Entry want \<Longrightarrow> w_files w TOKEN = Some got \<Longrightarrow> token_valid want got
    \<Longrightarrow> sup_step Enter w ((set_file SUPERVISOR (me_line (w_sup_id w)) (unset_file TOKEN w))\<lparr>w_sup := Watching\<rparr>)"
| "w_sup w = Entry want \<Longrightarrow> \<not> token_valid want (case w_files w TOKEN of Some got \<Rightarrow> got | None \<Rightarrow> [])
    \<Longrightarrow> sup_step Refuse w (w\<lparr>w_sup := Gone\<rparr>)"
| "w_sup w = Watching \<Longrightarrow> sup_step Tick w (w\<lparr>w_files := rx_watch packets (w_files w)\<rparr>)"
| "w_sup w = Watching \<Longrightarrow> w_term_sup w \<Longrightarrow> sup_step Cancel w (w\<lparr>w_sup := Want Stopped\<rparr>)"
| "w_sup w = Watching \<Longrightarrow> \<not> window_live w \<Longrightarrow> sup_step Expire w (w\<lparr>w_sup := Want Expired\<rparr>)"
| "w_sup w = Watching \<Longrightarrow> sup_step Lose w (w\<lparr>w_sup := Want Radio_lost\<rparr>)"
| "w_sup w = Want e \<Longrightarrow> w_lock w = None \<Longrightarrow> sup_step Take_lock w (w\<lparr>w_sup := Deciding e True, w_lock := Some Sup_side\<rparr>)"
| "w_sup w = Want e \<Longrightarrow> sup_step No_lock w (w\<lparr>w_sup := Deciding e False, w_unlocked := True\<rparr>)"
| "w_sup w = Deciding Expired h \<Longrightarrow> window_live w \<Longrightarrow> sup_step Keep w (release h (w\<lparr>w_sup := Watching\<rparr>))"
| "w_sup w = Deciding e h \<Longrightarrow> \<not> (e = Expired \<and> window_live w) \<Longrightarrow> sup_step Decide w (w\<lparr>w_sup := Removing e h\<rparr>)"
| "w_sup w = Removing e h \<Longrightarrow> sup_step Remove w (release h ((unset_file UNTIL w)\<lparr>w_sup := Closing e\<rparr>))"
| "w_sup w = Closing e
    \<Longrightarrow> sup_step Finish w ((if w_files w SUPERVISOR = Some (me_line (w_sup_id w)) then unset_file SUPERVISOR else id)
          (set_file REASON (reason_of e) w)\<lparr>w_sup := Gone\<rparr>)"

inductive stop_step :: "window \<Rightarrow> window \<Rightarrow> bool" where
  begin_stop: "w_stop w = No_stop \<Longrightarrow> stop_step w (w\<lparr>w_stop := Stopping_starts, w_term_start := True\<rparr>)"
| stop_sups: "w_stop w = Stopping_starts \<Longrightarrow> stop_step w (w\<lparr>w_stop := Stopping_sups, w_term_sup := True\<rparr>)"
| kill_sups: "w_stop w = Stopping_sups \<Longrightarrow> stop_step w (kill_sup w)"
| clear: "w_stop w = Stopping_sups \<Longrightarrow> w_sup w = Gone
    \<Longrightarrow> stop_step w ((set_file REASON (lit ''stopped'') (unset_file TOKEN (unset_file SUPERVISOR (unset_file UNTIL w))))\<lparr>w_stop := No_stop\<rparr>)"

text \<open>The rest of the world: time passes, and a supervisor may be killed at any time.\<close>

inductive world_step :: "window \<Rightarrow> window \<Rightarrow> bool" where
  clock_moves: "w_now w \<le> t \<Longrightarrow> world_step w (w\<lparr>w_now := t\<rparr>)"
| sup_killed: "w_sup w \<noteq> Gone \<Longrightarrow> world_step w (kill_sup w)"

definition window_step :: "window \<Rightarrow> window \<Rightarrow> bool" where
  "window_step w w' \<longleftrightarrow> start_step w w' \<or> (\<exists>a. sup_step a w w') \<or> stop_step w w' \<or> world_step w w'"

text \<open>An unused run directory: no process, no lock, and whatever files were left, but no token.\<close>

definition fresh_window :: "window \<Rightarrow> bool" where
  "fresh_window w \<longleftrightarrow>
     w_lock w = None \<and> w_sup w = Gone \<and> w_start w = No_start \<and> w_stop w = No_stop \<and> w_files w TOKEN = None"

inductive reach :: "window \<Rightarrow> bool" where
  fresh: "fresh_window w \<Longrightarrow> reach w"
| step: "reach w \<Longrightarrow> window_step w w' \<Longrightarrow> reach w'"

section \<open>The invariant\<close>

lemma file_names [simp]:
  "UNTIL \<noteq> REASON" "UNTIL \<noteq> SUPERVISOR" "UNTIL \<noteq> TOKEN" "REASON \<noteq> UNTIL" "REASON \<noteq> SUPERVISOR" "REASON \<noteq> TOKEN"
  "UNTIL \<noteq> RX_PROVEN" "RX_PROVEN \<noteq> UNTIL"
  "UNTIL \<noteq> RX_BASE"
  "RX_BASE \<noteq> UNTIL"
  "UNTIL \<noteq> ANNOUNCE" "ANNOUNCE \<noteq> UNTIL"
  "REASON \<noteq> RX_PROVEN" "RX_PROVEN \<noteq> REASON"
  "REASON \<noteq> RX_BASE"
  "RX_BASE \<noteq> REASON"
  "REASON \<noteq> ANNOUNCE" "ANNOUNCE \<noteq> REASON"
  "SUPERVISOR \<noteq> RX_PROVEN" "RX_PROVEN \<noteq> SUPERVISOR"
  "SUPERVISOR \<noteq> RX_BASE"
  "RX_BASE \<noteq> SUPERVISOR"
  "SUPERVISOR \<noteq> ANNOUNCE" "ANNOUNCE \<noteq> SUPERVISOR"
  "TOKEN \<noteq> RX_PROVEN" "RX_PROVEN \<noteq> TOKEN"
  "TOKEN \<noteq> RX_BASE"
  "RX_BASE \<noteq> TOKEN"
  "TOKEN \<noteq> ANNOUNCE" "ANNOUNCE \<noteq> TOKEN"
  "SUPERVISOR \<noteq> UNTIL" "SUPERVISOR \<noteq> REASON" "SUPERVISOR \<noteq> TOKEN" "TOKEN \<noteq> UNTIL" "TOKEN \<noteq> REASON" "TOKEN \<noteq> SUPERVISOR"
  by (simp_all add: lit_def)

lemma rx_watch_other:
  "rx_watch packets rf UNTIL = rf UNTIL" "rx_watch packets rf SUPERVISOR = rf SUPERVISOR" "rx_watch packets rf TOKEN = rf TOKEN"
  by (auto simp: rx_watch_def lit_def split: option.splits)

lemmas window_defs = set_file_def unset_file_def release_def kill_sup_def fail_start_def

definition start_holds :: "start_pc \<Rightarrow> bool" where [simp]:
  "start_holds p \<longleftrightarrow> (case p of Looking _ \<Rightarrow> True | Extending _ \<Rightarrow> True | Extended _ \<Rightarrow> True | _ \<Rightarrow> False)"

definition sup_holds :: "sup_pc \<Rightarrow> bool" where [simp]:
  "sup_holds p \<longleftrightarrow> (case p of Deciding _ h \<Rightarrow> h | Removing _ h \<Rightarrow> h | _ \<Rightarrow> False)"

definition start_alone :: "start_pc \<Rightarrow> bool" where [simp]:
  "start_alone p \<longleftrightarrow> (case p of Opening _ \<Rightarrow> True | Publishing _ \<Rightarrow> True | Tokened _ _ \<Rightarrow> True | _ \<Rightarrow> False)"

definition start_extends :: "start_pc \<Rightarrow> bool" where [simp]:
  "start_extends p \<longleftrightarrow> (case p of Extending _ \<Rightarrow> True | Extended _ \<Rightarrow> True | _ \<Rightarrow> False)"

definition start_checks :: "start_pc \<Rightarrow> bool" where [simp]:
  "start_checks p \<longleftrightarrow> (case p of Checking _ \<Rightarrow> True | _ \<Rightarrow> False)"

definition start_tokened :: "start_pc \<Rightarrow> bool" where [simp]:
  "start_tokened p \<longleftrightarrow> (case p of Tokened _ _ \<Rightarrow> True | _ \<Rightarrow> False)"

definition sup_new :: "sup_pc \<Rightarrow> bool" where [simp]:
  "sup_new p \<longleftrightarrow> (case p of Gone \<Rightarrow> True | Entry _ \<Rightarrow> True | _ \<Rightarrow> False)"

definition sup_quiet :: "sup_pc \<Rightarrow> bool" where [simp]:
  "sup_quiet p \<longleftrightarrow> (case p of Gone \<Rightarrow> True | Watching \<Rightarrow> True | Want _ \<Rightarrow> True | _ \<Rightarrow> False)"

definition recorded_id :: "window \<Rightarrow> (nat \<times> nat) option" where
  "recorded_id w = Option.bind (w_files w SUPERVISOR) parse_pid_start"

definition lock_ok :: "window \<Rightarrow> bool" where
  "lock_ok w \<longleftrightarrow>
     (w_lock w = Some Start_side \<longleftrightarrow> start_holds (w_start w)) \<and> (w_lock w = Some Sup_side \<longleftrightarrow> sup_holds (w_sup w))"

definition single_ok :: "window \<Rightarrow> bool" where
  "single_ok w \<longleftrightarrow>
     (start_alone (w_start w) \<longrightarrow> w_sup w = Gone)
     \<and> (\<forall>t. w_sup w = Entry t \<longrightarrow> start_checks (w_start w) \<and> recorded_id w \<noteq> Some (w_sup_id w))
     \<and> (\<not> sup_new (w_sup w) \<longrightarrow> recorded_id w = Some (w_sup_id w))
     \<and> (w_sup w \<noteq> Gone \<longrightarrow> 1 < fst (w_sup_id w) \<and> fst (w_sup_id w) \<le> u32_max \<and> snd (w_sup_id w) < 10 ^ 12)"

definition token_ok :: "window \<Rightarrow> bool" where
  "token_ok w \<longleftrightarrow>
     (w_files w TOKEN \<noteq> None \<longrightarrow> start_tokened (w_start w) \<or> start_checks (w_start w) \<and> sup_new (w_sup w))"

definition flag_ok :: "window \<Rightarrow> bool" where
  "flag_ok w \<longleftrightarrow> (\<forall>e. w_sup w = Deciding e False \<or> w_sup w = Removing e False \<longrightarrow> w_unlocked w)"

definition closing_ok :: "window \<Rightarrow> bool" where
  "closing_ok w \<longleftrightarrow> (\<forall>e. w_sup w = Closing e \<and> \<not> w_unlocked w \<longrightarrow> w_until w = None)"

definition removing_ok :: "window \<Rightarrow> bool" where
  "removing_ok w \<longleftrightarrow> (\<forall>h. w_sup w = Removing Expired h \<and> \<not> w_unlocked w \<longrightarrow> \<not> window_live w)"

definition extending_ok :: "window \<Rightarrow> bool" where
  "extending_ok w \<longleftrightarrow> (start_extends (w_start w) \<and> \<not> w_unlocked w \<longrightarrow> sup_quiet (w_sup w))"

definition extended_ok :: "window \<Rightarrow> bool" where
  "extended_ok w \<longleftrightarrow> (\<forall>d. w_start w = Extended d \<and> \<not> w_unlocked w \<and> w_sup w \<noteq> Gone \<longrightarrow> w_until w = Some d)"

definition window_ok :: "window \<Rightarrow> bool" where
  "window_ok w \<longleftrightarrow> lock_ok w \<and> single_ok w \<and> token_ok w \<and> flag_ok w \<and> closing_ok w \<and> removing_ok w \<and> extending_ok w \<and> extended_ok w"

lemma recorded_alive_iff: "recorded_alive w \<longleftrightarrow> w_sup w \<noteq> Gone \<and> recorded_id w = Some (w_sup_id w)"
  by (simp add: recorded_alive_def recorded_id_def)

lemma parse_me_line:
  "1 < fst i \<Longrightarrow> fst i \<le> u32_max \<Longrightarrow> snd i < 10 ^ 12 \<Longrightarrow> parse_pid_start (me_line i) = Some i"
  by (cases i) (simp add: me_line_def parse_pid_start_def words is_uint_dec parse_u32_dec parse_u64_dec u32_max_def u64_max_def)

lemma start_step_lock: "start_step w w' \<Longrightarrow> lock_ok w \<Longrightarrow> single_ok w \<Longrightarrow> lock_ok w'"
  by (cases rule: start_step.cases, assumption) (auto simp: lock_ok_def single_ok_def window_defs split: sup_pc.splits)

lemma start_step_single: "start_step w w' \<Longrightarrow> single_ok w \<Longrightarrow> single_ok w'"
  by (cases rule: start_step.cases, assumption)
     (auto simp: single_ok_def window_defs recorded_alive_iff recorded_id_def split: sup_pc.splits)

lemma start_step_token: "start_step w w' \<Longrightarrow> single_ok w \<Longrightarrow> token_ok w \<Longrightarrow> token_ok w'"
  by (cases rule: start_step.cases, assumption)
     (auto simp: single_ok_def token_ok_def window_defs recorded_alive_iff split: sup_pc.splits)

lemma start_step_flag: "start_step w w' \<Longrightarrow> flag_ok w \<Longrightarrow> flag_ok w'"
  by (cases rule: start_step.cases, assumption) (auto simp: flag_ok_def window_defs)

text \<open>A start that holds the lock keeps the supervisor out of \<open>end_window\<close>, and one that is alone has none.\<close>

lemma start_step_closing:
  "start_step w w' \<Longrightarrow> single_ok w \<Longrightarrow> extending_ok w \<Longrightarrow> closing_ok w \<Longrightarrow> closing_ok w'"
  by (cases rule: start_step.cases, assumption)
     (auto simp: closing_ok_def single_ok_def extending_ok_def window_defs)

lemma start_step_removing:
  "start_step w w' \<Longrightarrow> single_ok w \<Longrightarrow> extending_ok w \<Longrightarrow> removing_ok w \<Longrightarrow> removing_ok w'"
  by (cases rule: start_step.cases, assumption)
     (auto simp: removing_ok_def single_ok_def extending_ok_def window_defs window_live_def until_live_def)

lemma start_step_extending:
  "start_step w w' \<Longrightarrow> lock_ok w \<Longrightarrow> single_ok w \<Longrightarrow> flag_ok w \<Longrightarrow> closing_ok w \<Longrightarrow> extending_ok w \<Longrightarrow> extending_ok w'"
  by (cases rule: start_step.cases, assumption)
     (auto simp: extending_ok_def lock_ok_def single_ok_def flag_ok_def closing_ok_def window_defs has_deadline_def split: sup_pc.splits)

lemma start_step_extended: "start_step w w' \<Longrightarrow> extended_ok w \<Longrightarrow> extended_ok w'"
  by (cases rule: start_step.cases, assumption) (auto simp: extended_ok_def window_defs)

lemma start_step_ok: "start_step w w' \<Longrightarrow> window_ok w \<Longrightarrow> window_ok w'"
  unfolding window_ok_def
  using start_step_lock start_step_single start_step_token start_step_flag start_step_closing start_step_removing
    start_step_extending start_step_extended by meson

lemma sup_step_lock: "sup_step a w w' \<Longrightarrow> lock_ok w \<Longrightarrow> lock_ok w'"
  by (cases rule: sup_step.cases, assumption) (auto simp: lock_ok_def window_defs)

lemma sup_step_single: "sup_step a w w' \<Longrightarrow> single_ok w \<Longrightarrow> single_ok w'"
  by (cases rule: sup_step.cases, assumption)
     (auto simp: single_ok_def window_defs recorded_id_def parse_me_line rx_watch_other)

lemma sup_step_token: "sup_step a w w' \<Longrightarrow> single_ok w \<Longrightarrow> token_ok w \<Longrightarrow> token_ok w'"
  by (cases rule: sup_step.cases, assumption) (auto simp: single_ok_def token_ok_def window_defs rx_watch_other)

lemma sup_step_flag: "sup_step a w w' \<Longrightarrow> flag_ok w \<Longrightarrow> flag_ok w'"
  by (cases rule: sup_step.cases, assumption) (auto simp: flag_ok_def window_defs)

lemma sup_step_closing: "sup_step a w w' \<Longrightarrow> closing_ok w \<Longrightarrow> closing_ok w'"
  by (cases rule: sup_step.cases, assumption) (auto simp: closing_ok_def window_defs)

lemma sup_step_removing: "sup_step a w w' \<Longrightarrow> removing_ok w \<Longrightarrow> removing_ok w'"
  by (cases rule: sup_step.cases, assumption) (auto simp: removing_ok_def window_defs window_live_def)

lemma sup_step_extending:
  "sup_step a w w' \<Longrightarrow> lock_ok w \<Longrightarrow> flag_ok w \<Longrightarrow> extending_ok w \<Longrightarrow> extending_ok w'"
  by (cases rule: sup_step.cases, assumption)
     (auto simp: extending_ok_def lock_ok_def flag_ok_def window_defs split: start_pc.splits if_splits)

lemma sup_step_extended:
  "sup_step a w w' \<Longrightarrow> lock_ok w \<Longrightarrow> single_ok w \<Longrightarrow> flag_ok w \<Longrightarrow> extending_ok w \<Longrightarrow> extended_ok w \<Longrightarrow> extended_ok w'"
  by (cases rule: sup_step.cases, assumption)
     (auto simp: extended_ok_def extending_ok_def lock_ok_def single_ok_def flag_ok_def window_defs rx_watch_other split: start_pc.splits)

lemma sup_step_ok: "sup_step a w w' \<Longrightarrow> window_ok w \<Longrightarrow> window_ok w'"
  unfolding window_ok_def
  using sup_step_lock sup_step_single sup_step_token sup_step_flag sup_step_closing sup_step_removing
    sup_step_extending sup_step_extended by meson

lemma kill_sup_ok: "window_ok w \<Longrightarrow> window_ok (kill_sup w)"
  unfolding window_ok_def
  by (auto simp: lock_ok_def single_ok_def token_ok_def flag_ok_def closing_ok_def removing_ok_def extending_ok_def
      extended_ok_def kill_sup_def recorded_id_def split: sup_pc.splits)

lemma stop_step_ok: "stop_step w w' \<Longrightarrow> window_ok w \<Longrightarrow> window_ok w'"
proof (cases rule: stop_step.cases, assumption)
  assume "window_ok w" "w' = kill_sup w"
  then show "window_ok w'" by (simp add: kill_sup_ok)
qed (auto simp: window_ok_def lock_ok_def single_ok_def token_ok_def flag_ok_def closing_ok_def removing_ok_def extending_ok_def
      extended_ok_def recorded_id_def window_live_def window_defs)

lemma live_earlier: "until_live t u \<Longrightarrow> now \<le> t \<Longrightarrow> until_live now u"
  by (auto simp: until_live_def split: option.splits)

lemma clock_ok:
  assumes "window_ok w" "w_now w \<le> t" shows "window_ok (w\<lparr>w_now := t\<rparr>)"
proof -
  have "lock_ok (w\<lparr>w_now := t\<rparr>) = lock_ok w" by (simp add: lock_ok_def)
  moreover have "single_ok (w\<lparr>w_now := t\<rparr>) = single_ok w" by (simp add: single_ok_def recorded_id_def)
  moreover have "token_ok (w\<lparr>w_now := t\<rparr>) = token_ok w" by (simp add: token_ok_def)
  moreover have "flag_ok (w\<lparr>w_now := t\<rparr>) = flag_ok w" by (simp add: flag_ok_def)
  moreover have "closing_ok (w\<lparr>w_now := t\<rparr>) = closing_ok w" by (simp add: closing_ok_def)
  moreover have "window_live (w\<lparr>w_now := t\<rparr>) \<Longrightarrow> window_live w" using assms(2) live_earlier by (simp add: window_live_def)
  then have "removing_ok w \<Longrightarrow> removing_ok (w\<lparr>w_now := t\<rparr>)" by (auto simp: removing_ok_def)
  moreover have "extending_ok (w\<lparr>w_now := t\<rparr>) = extending_ok w" by (simp add: extending_ok_def)
  moreover have "extended_ok (w\<lparr>w_now := t\<rparr>) = extended_ok w" by (simp add: extended_ok_def)
  ultimately show ?thesis using assms(1) unfolding window_ok_def by simp
qed

lemma world_step_ok: "world_step w w' \<Longrightarrow> window_ok w \<Longrightarrow> window_ok w'"
  by (cases rule: world_step.cases, assumption) (simp_all add: kill_sup_ok clock_ok)

lemma fresh_window_ok: "fresh_window w \<Longrightarrow> window_ok w"
  by (auto simp: fresh_window_def window_ok_def lock_ok_def single_ok_def token_ok_def flag_ok_def closing_ok_def removing_ok_def
      extending_ok_def extended_ok_def)

lemma window_step_ok: "window_step w w' \<Longrightarrow> window_ok w \<Longrightarrow> window_ok w'"
  unfolding window_step_def using start_step_ok sup_step_ok stop_step_ok world_step_ok by blast

lemma reach_ok: "reach w \<Longrightarrow> window_ok w"
  by (induction rule: reach.induct) (auto intro: fresh_window_ok window_step_ok)

section \<open>What holds of every window\<close>


definition idle_window :: window where
  "idle_window =
     \<lparr>w_now = 0, w_files = (\<lambda>_. None), w_lock = None, w_sup = Gone, w_sup_id = (2, 7), w_term_sup = False, w_unlocked = False,
      w_start = No_start, w_term_start = False, w_stop = No_stop\<rparr>"

lemma reach_idle: "reach idle_window"
  by (rule reach.fresh) (simp add: fresh_window_def idle_window_def)


section \<open>An extension is kept\<close>

text \<open>
  What happens by itself after an answer: time passes and the supervisor goes on, without being told to
  stop, without losing the radio, and getting its lock.
\<close>

inductive quiet :: "window \<Rightarrow> window \<Rightarrow> bool" where
  time: "w_now w \<le> t \<Longrightarrow> quiet w (w\<lparr>w_now := t\<rparr>)"
| supervisor: "sup_step a w w' \<Longrightarrow> a \<notin> {Cancel, Lose, No_lock} \<Longrightarrow> quiet w w'"

definition kept :: "ustr \<Rightarrow> window \<Rightarrow> bool" where
  "kept d w \<longleftrightarrow> w_until w = Some d \<and> w_sup w \<in> {Watching, Want Expired, Deciding Expired True}"

lemma quiet_later: "quiet w w' \<Longrightarrow> w_now w \<le> w_now w'"
  by (induction rule: quiet.induct) (auto elim!: sup_step.cases simp: window_defs)

lemma quiet_kept:
  assumes "quiet w w'" "kept d w" "until_live (w_now w) (Some d)" shows "kept d w'"
  using assms
proof (induction rule: quiet.induct)
  case (supervisor a w w')
  then show ?case
    by (cases rule: sup_step.cases) (auto simp: kept_def window_live_def window_defs rx_watch_other)
qed (simp add: kept_def)

lemma quiet_run_kept:
  assumes "quiet\<^sup>*\<^sup>* w w'" "kept d w"
  shows "until_live (w_now w') (Some d) \<Longrightarrow> kept d w'"
  using assms
proof (induction rule: rtranclp_induct)
  case (step y z)
  have "until_live (w_now y) (Some d)" using live_earlier [OF step.prems(1) quiet_later [OF step.hyps(2)]] .
  then show ?case using step.IH step.prems(2) quiet_kept [OF step.hyps(2)] by blast
qed simp

text \<open>
  C31. A start that answers "already discoverable" has extended the window: if the supervisor had
  neither been told to stop nor lost the radio when the deadline was written, then as long as that deadline is
  ahead the file keeps it and the supervisor stays in its loop (it may take another look at the deadline, and
  keeps the window), whatever it had read before. Expiry never undoes an extension that was reported.
\<close>

theorem extension_kept:
  assumes "reach w0" "w_start w0 = Extended d" "w_sup w0 = Watching \<or> w_sup w0 = Want Expired" "\<not> w_unlocked w0"
    and "start_step w0 w" "quiet\<^sup>*\<^sup>* w w'" "until_live (w_now w') (Some d)"
  shows "w_start w = Answered 5 \<and> w_until w' = Some d \<and> w_sup w' \<in> {Watching, Want Expired, Deciding Expired True}"
proof -
  have "extended_ok w0" using reach_ok [OF assms(1)] by (simp add: window_ok_def)
  then have "w_until w0 = Some d" using assms(2-4) by (auto simp: extended_ok_def)
  with assms(5,2,3) have "w_start w = Answered 5 \<and> kept d w"
    by (cases rule: start_step.cases) (auto simp: kept_def window_defs)
  then show ?thesis using quiet_run_kept [OF assms(6) _ assms(7)] by (simp add: kept_def)
qed

text \<open>A window opened for a minute, and a second start that extends it to two.\<close>

definition scene :: "run_files \<Rightarrow> side option \<Rightarrow> sup_pc \<Rightarrow> start_pc \<Rightarrow> window" where
  "scene f l s p =
     idle_window\<lparr>w_files := f, w_lock := l, w_sup := s, w_start := p\<rparr>"

definition open_files :: run_files where
  "open_files = [UNTIL \<mapsto> new_deadline 0 60, REASON \<mapsto> lit ''ok'', SUPERVISOR \<mapsto> me_line (2, 7)]"

definition extended_files :: run_files where
  "extended_files = open_files(UNTIL \<mapsto> new_deadline 0 120)"

lemma reach_start: "reach w \<Longrightarrow> start_step w w' \<Longrightarrow> reach w'"
  using reach.step window_step_def by blast

lemma reach_sup: "reach w \<Longrightarrow> sup_step a w w' \<Longrightarrow> reach w'"
  using reach.step window_step_def by blast

lemmas scene_defs = scene_def idle_window_def window_defs

lemma is_uint_deadline: "is_uint (new_deadline 0 60)"
  by (simp add: new_deadline_def is_uint_dec)

lemma scene_opened: "reach (scene open_files None Watching (Answered 0))"
proof -
  define t where "t = token_text (replicate 16 0)"
  have t: "token_valid t t"
    unfolding t_def by (rule token_text_valid) simp
  have rec: "parse_pid_start (me_line (2, 7)) = Some (2, 7)" by (rule parse_me_line) (simp_all add: u32_max_def)
  let ?f1 = "[UNTIL \<mapsto> new_deadline 0 60, REASON \<mapsto> lit ''ok'']"
  have "reach (scene (\<lambda>_. None) None Gone (Look 60))"
    by (rule reach_start [OF reach_idle]) (use start_step.begin_start [of idle_window 60] in \<open>simp add: scene_defs\<close>)
  then have "reach (scene (\<lambda>_. None) (Some Start_side) Gone (Looking 60))"
    by (rule reach_start) (use start_step.locked [of "scene (\<lambda>_. None) None Gone (Look 60)" 60] in \<open>simp add: scene_defs\<close>)
  then have "reach (scene (\<lambda>_. None) None Gone (Opening 60))"
    by (rule reach_start)
       (use start_step.found_none [of "scene (\<lambda>_. None) (Some Start_side) Gone (Looking 60)" 60] in \<open>simp add: scene_defs recorded_alive_def\<close>)
  then have "reach (scene ?f1 None Gone (Publishing 60))"
    by (rule reach_start) (use start_step.publish [of "scene (\<lambda>_. None) None Gone (Opening 60)" 60] in \<open>simp add: scene_defs\<close>)
  then have "reach (scene (?f1(TOKEN \<mapsto> t)) None Gone (Tokened 60 t))"
    by (rule reach_start)
       (use start_step.token [of "scene ?f1 None Gone (Publishing 60)" 60 "replicate 16 0"] in \<open>simp add: scene_defs t_def\<close>)
  then have "reach (scene (?f1(TOKEN \<mapsto> t)) None (Entry t) (Checking 60))"
    by (rule reach_start)
       (use start_step.spawned [of "scene (?f1(TOKEN \<mapsto> t)) None Gone (Tokened 60 t)" 60 t 2 7] in \<open>simp add: scene_defs u32_max_def\<close>)
  then have "reach (scene open_files None Watching (Checking 60))"
    by (rule reach_sup)
       (use sup_step.intros(1) [of "scene (?f1(TOKEN \<mapsto> t)) None (Entry t) (Checking 60)" t t] t
        in \<open>simp add: scene_defs open_files_def fun_upd_twist\<close>)
  then show ?thesis
    by (rule reach_start)
       (use start_step.came_up [of "scene open_files None Watching (Checking 60)" 60] rec
        in \<open>simp add: scene_defs open_files_def recorded_alive_def\<close>)
qed

lemma scene_extended:
  assumes "reach (scene open_files None s (Answered 0))" "s \<noteq> Gone"
  shows "reach (scene extended_files (Some Start_side) s (Extended (new_deadline 0 120)))"
proof -
  have rec: "parse_pid_start (me_line (2, 7)) = Some (2, 7)" by (rule parse_me_line) (simp_all add: u32_max_def)
  have "reach (scene open_files None s (Look 120))"
    by (rule reach_start [OF assms(1)])
       (use start_step.begin_start [of "scene open_files None s (Answered 0)" 120] in \<open>simp add: scene_defs\<close>)
  then have "reach (scene open_files (Some Start_side) s (Looking 120))"
    by (rule reach_start) (use start_step.locked [of "scene open_files None s (Look 120)" 120] in \<open>simp add: scene_defs\<close>)
  then have "reach (scene open_files (Some Start_side) s (Extending 120))"
    by (rule reach_start)
       (use start_step.found_live [of "scene open_files (Some Start_side) s (Looking 120)" 120] rec assms(2) is_uint_deadline
        in \<open>simp add: scene_defs open_files_def recorded_alive_def has_deadline_def\<close>)
  then show ?thesis
    by (rule reach_start)
       (use start_step.extend [of "scene open_files (Some Start_side) s (Extending 120)" 120 "new_deadline 0 120"]
        in \<open>simp add: scene_defs extended_files_def\<close>)
qed

lemma scene_answered:
  "start_step (scene extended_files (Some Start_side) s (Extended d)) (scene extended_files None s (Answered 5))"
  using start_step.answer_extended [of "scene extended_files (Some Start_side) s (Extended d)" d]
  by (simp add: scene_defs extended_files_def open_files_def fun_upd_twist)

lemma live_extended: "until_live 60 (Some (new_deadline 0 120))"
  by (simp add: until_live_def new_deadline_def is_uint_dec parse_u64_dec u64_max_def)

theorem extension_kept_witness:
  "\<exists>w. w_sup w = Watching \<and> w_now w = 60 \<and> w_until w = Some (new_deadline 0 120)"
proof -
  let ?w = "scene extended_files None Watching (Answered 5)"
  have "quiet\<^sup>*\<^sup>* ?w (?w\<lparr>w_now := 60\<rparr>)" by (rule r_into_rtranclp) (rule quiet.time, simp add: scene_defs)
  moreover have "until_live (w_now (?w\<lparr>w_now := 60\<rparr>)) (Some (new_deadline 0 120))" using live_extended by simp
  ultimately have "w_until (?w\<lparr>w_now := 60\<rparr>) = Some (new_deadline 0 120)"
    using extension_kept [OF scene_extended [OF scene_opened] _ _ _ scene_answered, of "new_deadline 0 120" "?w\<lparr>w_now := 60\<rparr>"]
    by (simp add: scene_defs)
  then show ?thesis by (intro exI [of _ "?w\<lparr>w_now := 60\<rparr>"]) (simp add: scene_defs)
qed

text \<open>
  The exception is real: when the backend reported the radio lost before the start took the lock, the
  start still reports an extension, and the supervisor takes the new deadline away without reading it.
\<close>

lemma extension_lost_with_radio:
  "\<exists>w0 w w' d. reach w0 \<and> w_start w0 = Extended d \<and> start_step w0 w \<and> w_start w = Answered 5 \<and> quiet\<^sup>*\<^sup>* w w'
     \<and> until_live (w_now w') (Some d) \<and> w_until w' = None \<and> w_sup w' = Closing Radio_lost"
proof -
  let ?d = "new_deadline 0 120"
  let ?w0 = "scene extended_files (Some Start_side) (Want Radio_lost) (Extended ?d)"
  let ?a = "scene extended_files None (Want Radio_lost) (Answered 5)"
  let ?b = "scene extended_files (Some Sup_side) (Deciding Radio_lost True) (Answered 5)"
  let ?c = "scene extended_files (Some Sup_side) (Removing Radio_lost True) (Answered 5)"
  let ?e = "scene (extended_files(UNTIL := None)) None (Closing Radio_lost) (Answered 5)"
  have "reach (scene open_files None (Want Radio_lost) (Answered 0))"
    by (rule reach_sup [OF scene_opened])
       (use sup_step.intros(6) [of "scene open_files None Watching (Answered 0)"] in \<open>simp add: scene_defs\<close>)
  then have r: "reach ?w0" by (rule scene_extended) simp
  have "quiet ?a ?b" by (rule quiet.supervisor [of Take_lock]) (use sup_step.intros(7) [of ?a Radio_lost] in \<open>simp_all add: scene_defs\<close>)
  moreover have "quiet ?b ?c"
    by (rule quiet.supervisor [of Decide]) (use sup_step.intros(10) [of ?b Radio_lost True] in \<open>simp_all add: scene_defs\<close>)
  moreover have "quiet ?c ?e"
    by (rule quiet.supervisor [of Remove]) (use sup_step.intros(11) [of ?c Radio_lost True] in \<open>simp_all add: scene_defs\<close>)
  ultimately have "quiet\<^sup>*\<^sup>* ?a ?e" by (meson converse_rtranclp_into_rtranclp rtranclp.rtrancl_refl)
  moreover have "until_live (w_now ?e) (Some ?d)"
    using live_earlier [OF live_extended, of 0] by (simp add: scene_defs)
  ultimately show ?thesis using r scene_answered
    by (intro exI [of _ ?w0] exI [of _ ?a] exI [of _ ?e] exI [of _ ?d]) (simp add: scene_defs)
qed

end
