(* ===== verification/Arrivals.thy ===== *)
theory Arrivals
  imports Settings Radio
begin

text \<open>
  What the command-line client makes of an arrival (omdrop-cli/src/links.rs): it follows the receiver's
  log, takes only the receiver's own two records for news, and acts only on regular files of the
  download directory; and it opens only web links. Parameters: Unicode lowercasing, the
  property-list parser, and what the file system says of a path.
\<close>

section \<open>Links\<close>

definition LINK_MAX :: nat where [eval_defs]:
  "LINK_MAX = 65536"

definition is_blank :: "uchar \<Rightarrow> bool" where [eval_defs]:
  "is_blank c \<longleftrightarrow> c = 0x20 \<or> c = 0x09"

definition trim_blanks :: "ustr \<Rightarrow> ustr" where [eval_defs]:
  "trim_blanks s = trim_end_matches is_blank (dropWhile is_blank s)"

fun url_lines :: "bool \<Rightarrow> ustr list \<Rightarrow> ustr" where
  "url_lines in_section [] = []"
| "url_lines in_section (raw # ls) =
     (let line = strip_cr raw; lead = dropWhile is_blank line
      in if starts_with lead (lit ''['') then
           url_lines (filter (\<lambda>c. \<not> is_blank c) (map to_ascii_lower line) = lit ''[internetshortcut]'') ls
         else if in_section \<and> starts_with (map to_ascii_lower lead) (lit ''url'')
                 \<and> starts_with (dropWhile is_blank (drop 3 (map to_ascii_lower lead))) (lit ''='')
         then trim_blanks (tl (dropWhile (\<lambda>c. c \<noteq> 0x3d) line))
         else url_lines in_section ls)"

definition url_file_target :: "bytes \<Rightarrow> ustr" where [eval_defs]:
  "url_file_target data = url_lines False (split_by (\<lambda>c. c = 10) (from_utf8_lossy data))"

definition webloc_target :: "(bytes \<Rightarrow> pvalue option) \<Rightarrow> bytes \<Rightarrow> ustr option" where [eval_defs]:
  "webloc_target parse data =
     (case parse data of
        Some (PDict d) \<Rightarrow> Some (case map_of d (lit ''URL'') of Some (PString s) \<Rightarrow> trim s | _ \<Rightarrow> [])
      | _ \<Rightarrow> None)"

record link_meta =
  lm_file :: bool
  lm_len :: nat
  lm_readable :: bool
  lm_data :: "bytes option"

definition link_url :: "(ustr \<Rightarrow> ustr) \<Rightarrow> (bytes \<Rightarrow> pvalue option) \<Rightarrow> ustr \<Rightarrow> link_meta option \<Rightarrow> ustr option" where [eval_defs]:
  "link_url lowercase parse path meta =
     (case meta of
        None \<Rightarrow> None
      | Some m \<Rightarrow>
          if \<not> lm_file m \<or> lm_len m > LINK_MAX \<or> \<not> lm_readable m then None
          else (case lm_data m of
                  None \<Rightarrow> None
                | Some data \<Rightarrow>
                    if ends_with (lowercase path) (lit ''.url'') then Some (url_file_target data)
                    else if ends_with (lowercase path) (lit ''.webloc'') then webloc_target parse data
                    else None))"

definition web_url :: "(ustr \<Rightarrow> ustr) \<Rightarrow> ustr \<Rightarrow> bool" where [eval_defs]:
  "web_url lowercase u \<longleftrightarrow>
     (let l = lowercase u
      in (starts_with l (lit ''http://'') \<or> starts_with l (lit ''https://''))
         \<and> list_all (\<lambda>c. \<not> (is_whitespace c \<or> is_control c)) u
         \<and> (let rest = (case split_once (lit ''://'') l of Some (_, r) \<Rightarrow> r | None \<Rightarrow> [])
            in rest \<noteq> [] \<and> \<not> starts_with rest (lit ''/'')))"

definition link_target :: "(ustr \<Rightarrow> ustr) \<Rightarrow> (bytes \<Rightarrow> pvalue option) \<Rightarrow> ustr \<Rightarrow> link_meta option \<Rightarrow> ustr option" where [eval_defs]:
  "link_target lowercase parse path meta =
     (case link_url lowercase parse path meta of Some u \<Rightarrow> if web_url lowercase u then Some u else None | None \<Rightarrow> None)"

definition is_link_file :: "(ustr \<Rightarrow> ustr) \<Rightarrow> ustr \<Rightarrow> bool" where [eval_defs]:
  "is_link_file lowercase f \<longleftrightarrow> ends_with (lowercase f) (lit ''.url'') \<or> ends_with (lowercase f) (lit ''.webloc'')"

text \<open>Why a link is not opened.\<close>

definition refusal :: "ustr option \<Rightarrow> ustr" where [eval_defs]:
  "refusal raw =
     (case raw of
        Some r \<Rightarrow>
          if 0x3a \<in> set r
          then lit ''It points to a '' @ takeWhile (\<lambda>c. c \<noteq> 0x3a) r @ lit '': address, and Omdrop opens only web links.''
          else lit ''There is no web link in it.''
      | None \<Rightarrow> lit ''There is no web link in it.'')"

section \<open>Images and previews\<close>

definition image_types :: "(ustr \<times> ustr) list" where [eval_defs]:
  "image_types =
     [(lit ''.png'', lit ''image/png''), (lit ''.jpg'', lit ''image/jpeg''), (lit ''.jpeg'', lit ''image/jpeg''),
      (lit ''.gif'', lit ''image/gif''), (lit ''.webp'', lit ''image/webp'')]"

definition is_image :: "ustr \<Rightarrow> ustr option" where [eval_defs]:
  "is_image lower = map_option snd (find (\<lambda>(ext, _). ends_with lower ext) image_types)"

definition is_heif :: "ustr \<Rightarrow> bool" where [eval_defs]:
  "is_heif lower \<longleftrightarrow> list_ex (ends_with lower) [lit ''.heic'', lit ''.heif'', lit ''.avif'']"

definition PREVIEW_KEEP :: nat where [eval_defs]:
  "PREVIEW_KEEP = 10"

definition PREVIEW_STALE :: nat where [eval_defs]:
  "PREVIEW_STALE = 5 * 60 * 10 ^ 9"

text \<open>
  The names \<open>prune_previews\<close> removes: of the regular files of the directory, with their times in nanoseconds, the stale
  unfinished ones and all but the newest finished ones.
\<close>

definition is_preview :: "ustr \<Rightarrow> bool" where [eval_defs]:
  "is_preview name \<longleftrightarrow> str_len name \<ge> 12 \<and> starts_with name (lit ''preview.'') \<and> ends_with name (lit ''.jpg'')"

definition prune_previews :: "nat \<Rightarrow> (ustr \<times> nat \<times> bool) list \<Rightarrow> ustr list" where [eval_defs]:
  "prune_previews now entries =
     (let files = filter (\<lambda>(_, _, is_file). is_file) entries;
          stale = filter (\<lambda>(n, t, _). \<not> is_preview n \<and> starts_with n (lit ''working.'') \<and> t \<le> now \<and> now - t > PREVIEW_STALE) files;
          finished = filter (\<lambda>(n, _, _). is_preview n) files
      in map fst stale @ map fst (drop PREVIEW_KEEP (sort_key (\<lambda>(_, t, _). - int t) finished)))"

section \<open>The receiver's records\<close>

text \<open>The first 23 bytes of a record are ASCII, so they are its first 23 characters.\<close>

definition stamp_ok :: "ustr \<Rightarrow> bool" where [eval_defs]:
  "stamp_ok line \<longleftrightarrow>
     length line \<ge> 23
     \<and> list_all (\<lambda>i. let c = line ! i
          in if i \<in> {4, 7} then c = 0x2d else if i = 10 then c = 0x20 else if i \<in> {13, 16} then c = 0x3a
             else if i = 19 then c = 0x2c else is_ascii_digit c) [0..<23]"

definition strip_prefix :: "ustr \<Rightarrow> ustr \<Rightarrow> ustr option" where [eval_defs]:
  "strip_prefix p s = (if starts_with s p then Some (drop (length p) s) else None)"

definition receiver_info :: "ustr \<Rightarrow> ustr option" where [eval_defs]:
  "receiver_info line = (if \<not> stamp_ok line then None else strip_prefix (lit '' INFO root: '') (drop 23 line))"

datatype arrival_names = Stored ustr | Link ustr

definition tid_ok :: "ustr \<Rightarrow> bool" where [eval_defs]:
  "tid_ok tid \<longleftrightarrow>
     1 \<le> str_len tid \<and> str_len tid \<le> 64 \<and> list_all (\<lambda>c. is_ascii_alphanumeric c \<or> c = 0x5f \<or> c = 0x2e \<or> c = 0x2d) tid"

definition link_record :: "ustr \<Rightarrow> arrival_names option" where [eval_defs]:
  "link_record rest =
     (case split_once (lit '' -> '') rest of
        None \<Rightarrow> None
      | Some (name, url) \<Rightarrow>
          (case (if starts_with url (lit ''https://'') then Some (drop 8 url) else strip_prefix (lit ''http://'') url) of
             None \<Rightarrow> None
           | Some url_rest \<Rightarrow>
               if str_len name > 4 \<and> ends_with name (lit ''.url'') \<and> 0x20 \<notin> set name \<and> 0x2f \<notin> set name
                  \<and> url_rest \<noteq> [] \<and> list_all (\<lambda>c. \<not> is_whitespace c) url_rest
               then Some (Link name) else None))"

definition arrivals :: "ustr \<Rightarrow> arrival_names option" where [eval_defs]:
  "arrivals line =
     (case receiver_info line of
        None \<Rightarrow> None
      | Some msg \<Rightarrow>
          (case strip_prefix (lit ''upload '') msg of
             Some rest \<Rightarrow>
               (case split_once (lit '': stored '') rest of
                  None \<Rightarrow> None
                | Some (tid, names) \<Rightarrow> if tid_ok tid \<and> names \<noteq> [] then Some (Stored names) else None)
           | None \<Rightarrow>
               (case strip_prefix (lit ''link stored as '') msg of None \<Rightarrow> None | Some rest \<Rightarrow> link_record rest)))"

text \<open>\<open>regular\<close>: whether the name is a regular file of the directory, by \<open>lstat\<close>.\<close>

definition arrived_file :: "(ustr \<Rightarrow> bool) \<Rightarrow> ustr \<Rightarrow> bool" where [eval_defs]:
  "arrived_file regular name \<longleftrightarrow>
     \<not> (name = [] \<or> 0x2f \<in> set name \<or> starts_with name (lit ''.'') \<or> list_ex is_control name) \<and> regular name"

function split_str :: "ustr \<Rightarrow> ustr \<Rightarrow> ustr list" where
  "split_str sep s =
     (case (if sep = [] then None else split_once sep s) of None \<Rightarrow> [s] | Some (a, b) \<Rightarrow> a # split_str sep b)"
  by pat_completeness auto

termination
proof (relation "measure (\<lambda>(sep, s). length s)")
  fix sep s :: ustr and p a b
  assume "(if sep = [] then None else split_once sep s) = Some p" "(a, b) = p"
  then have "s = a @ sep @ b" "sep \<noteq> []" by (auto split: if_splits dest: split_once_Some)
  then show "((sep, b), (sep, s)) \<in> measure (\<lambda>(sep, s). length s)" by simp
qed simp

declare split_str.simps [simp del]

text \<open>The shortest run of pieces that is a file, with the number of pieces.\<close>

definition first_hit :: "(ustr \<Rightarrow> bool) \<Rightarrow> ustr list \<Rightarrow> nat option" where [eval_defs]:
  "first_hit regular pieces =
     find (\<lambda>k. arrived_file regular (join (lit '', '') (take k pieces))) [1..<Suc (length pieces)]"

function resolve_pieces :: "(ustr \<Rightarrow> bool) \<Rightarrow> ustr list \<Rightarrow> ustr list \<times> ustr list" where
  "resolve_pieces regular [] = ([], [])"
| "resolve_pieces regular (p # ps) =
     (case first_hit regular (p # ps) of
        Some k \<Rightarrow>
          (let (found, missing) = resolve_pieces regular (drop (max 1 k) (p # ps))
           in (join (lit '', '') (take k (p # ps)) # found, missing))
      | None \<Rightarrow> (let (found, missing) = resolve_pieces regular ps in (found, p # missing)))"
  by pat_completeness auto

termination
  by (relation "measure (\<lambda>(regular, ps). length ps)") auto

declare resolve_pieces.simps(2) [simp del]

definition resolve_arrivals :: "(ustr \<Rightarrow> bool) \<Rightarrow> arrival_names \<Rightarrow> ustr list \<times> ustr list" where [eval_defs]:
  "resolve_arrivals regular names =
     (case names of
        Link name \<Rightarrow> if arrived_file regular name then ([name], []) else ([], [name])
      | Stored joined \<Rightarrow> resolve_pieces regular (split_str (lit '', '') joined))"

text \<open>What a line of the journal makes the watcher announce: paths in the download directory.\<close>

definition watched :: "ustr \<Rightarrow> (ustr \<Rightarrow> bool) \<Rightarrow> ustr \<Rightarrow> ustr list" where [eval_defs]:
  "watched dir regular line =
     (case arrivals line of None \<Rightarrow> [] | Some names \<Rightarrow> map (path_join dir) (fst (resolve_arrivals regular names)))"

section \<open>Names cut apart and joined again\<close>

lemma comma_chars: "comma = [44, 32]"
  by (simp add: lit_def)

fun pieces :: "ustr \<Rightarrow> ustr list" where
  "pieces [] = [[]]"
| "pieces [c] = [[c]]"
| "pieces (c # d # s) =
     (if c = 44 \<and> d = 32 then [] # pieces s else (case pieces (d # s) of [] \<Rightarrow> [[c]] | p # ps \<Rightarrow> (c # p) # ps))"

lemma pieces_not_Nil [simp]: "pieces s \<noteq> []"
  by (induction s rule: pieces.induct) (auto split: list.splits)

lemma join_Cons_first: "ps \<noteq> [] \<Longrightarrow> join sep ((c # hd ps) # tl ps) = c # join sep ps"
  by (cases ps; cases "tl ps") auto

lemma join_pieces: "join comma (pieces s) = s"
proof (induction s rule: pieces.induct)
  case (3 c d s)
  then show ?case
    using join_Cons_first [of "pieces (d # s)" comma c]
    by (cases "pieces s"; cases "pieces (d # s)") (auto simp: comma_chars)
qed simp_all

lemma pieces_append: "pieces (a @ comma @ b) = pieces a @ pieces b"
proof (induction a rule: pieces.induct)
  case (2 c)
  then show ?case by (simp add: comma_chars)
next
  case (3 c d s)
  then show ?case by (cases "c = 44 \<and> d = 32") (auto split: list.splits)
qed (simp add: comma_chars)

lemma pieces_join: "part \<noteq> [] \<Longrightarrow> pieces (join comma part) = concat (map pieces part)"
  by (induction part rule: induct_list012) (simp_all add: pieces_append)

lemma split_str_Cons:
  "\<not> starts_with (c # s) comma \<Longrightarrow> split_str comma (c # s) = (c # hd (split_str comma s)) # tl (split_str comma s)"
  by (subst (1 2 3) split_str.simps) (auto simp: split_once_Cons comma_chars split: option.splits)

lemma split_str_pieces: "split_str comma s = pieces s"
proof (induction s rule: pieces.induct)
  case 1
  show ?case by (subst split_str.simps) (simp add: split_once_Nil)
next
  case (2 c)
  show ?case by (subst split_str.simps) (simp add: split_once_Cons split_once_Nil starts_with_iff comma_chars)
next
  case (3 c d s)
  show ?case
  proof (cases "c = 44 \<and> d = 32")
    case True
    then show ?thesis using "3.IH"(1) by (subst split_str.simps) (simp add: split_once_Cons comma_chars)
  next
    case False
    then have "\<not> starts_with (c # d # s) comma" by (auto simp: comma_chars)
    then show ?thesis using False "3.IH"(2) by (subst split_str_Cons) (auto split: list.splits)
  qed
qed

text \<open>
  A name is unambiguous in a directory when no shorter run of its own pieces is a file there: the name
  \<open>a, b\<close> next to a file \<open>a\<close> is not.
\<close>

definition unambiguous :: "(ustr \<Rightarrow> bool) \<Rightarrow> ustr \<Rightarrow> bool" where
  "unambiguous regular name \<longleftrightarrow>
     (\<forall>k. 0 < k \<and> k < length (pieces name) \<longrightarrow> \<not> arrived_file regular (join comma (take k (pieces name))))"

lemma first_hit_name:
  assumes "arrived_file regular n" "unambiguous regular n"
  shows "first_hit regular (pieces n @ rest) = Some (length (pieces n))"
proof -
  define l where "l = length (pieces n)"
  define m where "m = length (pieces n @ rest)"
  have l: "0 < l" "l \<le> m" by (simp_all add: l_def m_def)
  have "find (\<lambda>k. arrived_file regular (join comma (take k (pieces n @ rest)))) [1..<Suc m] = Some l"
    unfolding find_Some_iff
  proof (intro exI [of _ "l - 1"] conjI allI impI)
    show "l - 1 < length [1..<Suc m]" "l = [1..<Suc m] ! (l - 1)" using l by (simp_all del: upt_Suc)
    show "arrived_file regular (join comma (take ([1..<Suc m] ! (l - 1)) (pieces n @ rest)))"
      using l assms(1) by (simp del: upt_Suc add: l_def join_pieces)
    fix j assume "j < l - 1"
    then have "[1..<Suc m] ! j = Suc j" "Suc j < l" using l by (simp_all del: upt_Suc)
    then show "\<not> arrived_file regular (join comma (take ([1..<Suc m] ! j) (pieces n @ rest)))"
      using assms(2) unfolding unambiguous_def l_def by simp
  qed
  then show ?thesis by (simp add: first_hit_def l_def m_def)
qed

lemma resolve_pieces_names:
  assumes "\<forall>n \<in> set part. arrived_file regular n \<and> unambiguous regular n"
  shows "resolve_pieces regular (concat (map pieces part)) = (part, [])"
  using assms
proof (induction part)
  case (Cons n part)
  let ?rest = "concat (map pieces part)"
  obtain p ps where p: "pieces n @ ?rest = p # ps" by (cases "pieces n") auto
  have h: "first_hit regular (p # ps) = Some (length (pieces n))"
    unfolding p [symmetric] using Cons.prems by (intro first_hit_name) simp_all
  have d: "drop (max 1 (length (pieces n))) (p # ps) = ?rest" "take (length (pieces n)) (p # ps) = pieces n"
    unfolding p [symmetric] by (simp_all add: max_def Suc_le_eq)
  have "resolve_pieces regular (p # ps) = (n # part, [])"
    unfolding resolve_pieces.simps(2) h using d Cons by (simp add: join_pieces)
  then show ?case using p by simp
qed simp

text \<open>Only plain names of regular files are ever found, whatever the line says.\<close>

lemma resolve_pieces_regular: "n \<in> set (fst (resolve_pieces regular ps)) \<Longrightarrow> arrived_file regular n"
proof (induction regular ps rule: resolve_pieces.induct)
  case (2 regular p ps)
  have hit: "arrived_file regular (join comma (take k (p # ps)))" if "first_hit regular (p # ps) = Some k" for k
    using that by (auto simp: first_hit_def find_Some_iff simp del: upt_Suc)
  show ?case using 2 hit
    by (auto simp: resolve_pieces.simps(2) [of regular p ps] split: option.splits prod.splits)
qed simp

section \<open>The receiver's records are read back\<close>

text \<open>A broken-down time of a four-digit year, as \<open>localtime_r\<close> gives it.\<close>

definition tm_ok :: "tm \<Rightarrow> bool" where [eval_defs]:
  "tm_ok t \<longleftrightarrow>
     0 \<le> tm_year t + 1900 \<and> tm_year t + 1900 < 10000 \<and> 0 \<le> tm_mon t \<and> tm_mon t < 12 \<and> 1 \<le> tm_mday t \<and> tm_mday t < 32
     \<and> 0 \<le> tm_hour t \<and> tm_hour t < 24 \<and> 0 \<le> tm_min t \<and> tm_min t < 60 \<and> 0 \<le> tm_sec t \<and> tm_sec t < 61"

lemma padded_digits:
  assumes "n < 10 ^ w" "0 < w"
  shows "length (pad0 w (dec n)) = w" "\<forall>c \<in> set (pad0 w (dec n)). is_ascii_digit c"
proof -
  show "length (pad0 w (dec n)) = w" using assms by (intro length_pad0 length_show_radix) simp_all
  show "\<forall>c \<in> set (pad0 w (dec n)). is_ascii_digit c" using dec_digits [of n] by (auto simp: pad0_def is_ascii_digit_def)
qed

lemma list_of_length:
  "length xs = 2 \<Longrightarrow> \<exists>a b. xs = [a, b]"
  "length xs = 3 \<Longrightarrow> \<exists>a b c. xs = [a, b, c]"
  "length xs = 4 \<Longrightarrow> \<exists>a b c d. xs = [a, b, c, d]"
  by (auto simp: length_Suc_conv eval_nat_numeral)

lemma pad2:
  assumes "0 \<le> i" "i < 100" shows "\<exists>a b. pad_int 2 i = [a, b] \<and> is_ascii_digit a \<and> is_ascii_digit b"
proof -
  have n: "nat i < 10 ^ 2" using assms by simp
  obtain a b where "pad0 2 (dec (nat i)) = [a, b]" using list_of_length(1) [OF padded_digits(1) [OF n]] by auto
  then show ?thesis using padded_digits(2) [OF n] assms(1) by (simp add: pad_int_def)
qed

lemma pad3:
  assumes "n < 1000" shows "\<exists>a b c. pad0 3 (dec n) = [a, b, c] \<and> is_ascii_digit a \<and> is_ascii_digit b \<and> is_ascii_digit c"
proof -
  have n: "n < 10 ^ 3" using assms by simp
  obtain a b c where "pad0 3 (dec n) = [a, b, c]" using list_of_length(2) [OF padded_digits(1) [OF n]] by auto
  then show ?thesis using padded_digits(2) [OF n] by simp
qed

lemma pad4:
  assumes "0 \<le> i" "i < 10000"
  shows "\<exists>a b c d. pad_int 4 i = [a, b, c, d] \<and> is_ascii_digit a \<and> is_ascii_digit b \<and> is_ascii_digit c \<and> is_ascii_digit d"
proof -
  have n: "nat i < 10 ^ 4" using assms by simp
  obtain a b c d where "pad0 4 (dec (nat i)) = [a, b, c, d]" using list_of_length(3) [OF padded_digits(1) [OF n]] by auto
  then show ?thesis using padded_digits(2) [OF n] assms(1) by (simp add: pad_int_def)
qed

lemma asctime_stamp:
  assumes "tm_ok t" "millis < 1000"
  shows "length (asctime secs millis (Some t)) = 23" "stamp_ok (asctime secs millis (Some t) @ rest)"
proof -
  obtain y1 y2 y3 y4 where y: "pad_int 4 (tm_year t + 1900) = [y1, y2, y3, y4]"
      "is_ascii_digit y1" "is_ascii_digit y2" "is_ascii_digit y3" "is_ascii_digit y4"
    using pad4 [of "tm_year t + 1900"] assms(1) by (auto simp: tm_ok_def)
  obtain a b where mo: "pad_int 2 (tm_mon t + 1) = [a, b]" "is_ascii_digit a" "is_ascii_digit b"
    using pad2 [of "tm_mon t + 1"] assms(1) by (auto simp: tm_ok_def)
  obtain c d where md: "pad_int 2 (tm_mday t) = [c, d]" "is_ascii_digit c" "is_ascii_digit d"
    using pad2 [of "tm_mday t"] assms(1) by (auto simp: tm_ok_def)
  obtain e f where ho: "pad_int 2 (tm_hour t) = [e, f]" "is_ascii_digit e" "is_ascii_digit f"
    using pad2 [of "tm_hour t"] assms(1) by (auto simp: tm_ok_def)
  obtain g h where mi: "pad_int 2 (tm_min t) = [g, h]" "is_ascii_digit g" "is_ascii_digit h"
    using pad2 [of "tm_min t"] assms(1) by (auto simp: tm_ok_def)
  obtain i j where se: "pad_int 2 (tm_sec t) = [i, j]" "is_ascii_digit i" "is_ascii_digit j"
    using pad2 [of "tm_sec t"] assms(1) by (auto simp: tm_ok_def)
  obtain k l m where ms: "pad0 3 (dec millis) = [k, l, m]" "is_ascii_digit k" "is_ascii_digit l" "is_ascii_digit m"
    using pad3 [OF assms(2)] by blast
  have eq: "asctime secs millis (Some t)
      = [y1, y2, y3, y4, 45, a, b, 45, c, d, 32, e, f, 58, g, h, 58, i, j, 44, k, l, m]"
    by (simp add: asctime_def y(1) mo(1) md(1) ho(1) mi(1) se(1) ms(1) lit_def)
  show "length (asctime secs millis (Some t)) = 23" by (simp add: eq)
  have idx: "[0..<23] = [0, 1, 2, 3, 4, 5, 6, 7, 8, 9, 10, 11, 12, 13, 14, 15, 16, 17, 18, 19, 20, 21, 22 :: nat]"
    by (simp add: upt_rec)
  show "stamp_ok (asctime secs millis (Some t) @ rest)"
    unfolding eq stamp_ok_def idx using y mo md ho mi se ms by simp
qed

lemma receiver_info_line:
  assumes "tm_ok t" "millis < 1000" "\<forall>c \<in> set m. plain_char c" "str_len m \<le> MAX_MESSAGE_BYTES"
  shows "receiver_info (butlast (log_line (asctime secs millis (Some t)) Info m)) = Some m"
proof -
  have line: "butlast (log_line (asctime secs millis (Some t)) Info m) = asctime secs millis (Some t) @ lit '' INFO root: '' @ m"
    using escape_id [OF assms(3,4)] by (simp add: log_line_def butlast_append lit_def)
  show ?thesis unfolding line receiver_info_def
    using asctime_stamp [OF assms(1,2), of secs] by (simp add: strip_prefix_def starts_with_iff)
qed

text \<open>What the receiver logs of a finished upload, and of a stored link (server.rs).\<close>

definition stored_messages :: "ustr \<Rightarrow> ustr list \<Rightarrow> ustr list" where [eval_defs]:
  "stored_messages tid names = map (\<lambda>l. lit ''upload '' @ tid @ lit '': stored '' @ l) (stored_lines names)"

definition link_message :: "ustr \<Rightarrow> ustr \<Rightarrow> ustr" where [eval_defs]:
  "link_message name url = lit ''link stored as '' @ name @ lit '' -> '' @ url"

lemma tid_chars:
  "transfer_label header \<noteq> []" "length (transfer_label header) \<le> 64" "\<forall>c \<in> set (transfer_label header). c < 128"
  "58 \<notin> set (transfer_label header)" "\<forall>c \<in> set (transfer_label header). plain_char c" "tid_ok (transfer_label header)"
proof -
  let ?l = "transfer_label header"
  note ok = transfer_label_ok [of header]
  show "?l \<noteq> []" "length ?l \<le> 64" using ok by blast+
  have c: "is_ascii_alphanumeric c \<or> c = 0x2d \<or> c = 0x5f \<or> c = 0x2e" if "c \<in> set ?l" for c
    using ok that by (simp add: list_all_iff)
  show a: "\<forall>c \<in> set ?l. c < 128"
    by (auto dest!: c simp: is_ascii_alphanumeric_def is_ascii_alphabetic_def is_ascii_digit_def)
  show "58 \<notin> set ?l" by (auto dest!: c simp: is_ascii_alphanumeric_def is_ascii_alphabetic_def is_ascii_digit_def)
  show "\<forall>c \<in> set ?l. plain_char c"
    by (auto dest!: c simp: is_ascii_alphanumeric_def is_ascii_alphabetic_def is_ascii_digit_def intro!: plain_ascii)
  show "tid_ok ?l" using ok str_len_ascii [of ?l] a by (auto simp: tid_ok_def list_all_iff Suc_le_eq)
qed

lemma plain_lit:
  "\<forall>c \<in> set (lit ''upload ''). plain_char c" "\<forall>c \<in> set (lit '': stored ''). plain_char c"
  "\<forall>c \<in> set (lit ''link stored as ''). plain_char c" "\<forall>c \<in> set (lit '' -> ''). plain_char c" "\<forall>c \<in> set comma. plain_char c"
  by (simp_all add: lit_def plain_ascii)

lemma arrivals_stored:
  assumes "tm_ok t" "millis < 1000" "l \<noteq> []" "\<forall>c \<in> set l. plain_char c" "str_len l \<le> 16384"
  shows "arrivals (butlast (log_line (asctime secs millis (Some t)) Info (lit ''upload '' @ transfer_label header @ lit '': stored '' @ l)))
    = Some (Stored l)"
proof -
  let ?tid = "transfer_label header"
  let ?m = "lit ''upload '' @ ?tid @ lit '': stored '' @ l"
  note tid = tid_chars [of header]
  have "str_len ?tid = length ?tid" using tid(3) by (intro str_len_ascii) simp
  then have len: "str_len ?m \<le> MAX_MESSAGE_BYTES"
    using tid(2) assms(5) by (simp add: lit_def utf8_len_def MAX_MESSAGE_BYTES_def)
  have plain: "\<forall>c \<in> set ?m. plain_char c" using plain_lit tid(5) assms(4) by auto
  have sep: "lit '': stored '' = 58 # lit '' stored ''" by (simp add: lit_def)
  have "split_once (lit '': stored '') (?tid @ lit '': stored '' @ l) = Some (?tid, l)"
    unfolding sep by (rule split_once_first [OF tid(4)])
  then show ?thesis unfolding arrivals_def receiver_info_line [OF assms(1,2) plain len]
    using tid(6) assms(3) by (simp add: strip_prefix_def starts_with_iff)
qed

lemma arrivals_link:
  assumes "tm_ok t" "millis < 1000" "\<forall>c \<in> set (name @ url). plain_char c" "str_len (name @ url) \<le> 32000"
    and "4 < str_len name" "ends_with name (lit ''.url'')" "0x20 \<notin> set name" "0x2f \<notin> set name"
    and "url = lit ''http://'' @ rest \<or> url = lit ''https://'' @ rest" "rest \<noteq> []" "\<forall>c \<in> set rest. \<not> is_whitespace c"
  shows "arrivals (butlast (log_line (asctime secs millis (Some t)) Info (link_message name url))) = Some (Link name)"
proof -
  have plain: "\<forall>c \<in> set (link_message name url). plain_char c"
    using assms(3) plain_lit unfolding link_message_def by auto
  have len: "str_len (link_message name url) \<le> MAX_MESSAGE_BYTES"
    using assms(4) by (simp add: link_message_def lit_def utf8_len_def MAX_MESSAGE_BYTES_def)
  have sep: "lit '' -> '' = 32 # lit ''-> ''" by (simp add: lit_def)
  have "split_once (lit '' -> '') (name @ lit '' -> '' @ url) = Some (name, url)"
    unfolding sep by (rule split_once_first [OF assms(7)])
  moreover have "(if starts_with url (lit ''https://'') then Some (drop 8 url) else strip_prefix (lit ''http://'') url) = Some rest"
    using assms(9) by (auto simp: strip_prefix_def starts_with_iff lit_def)
  moreover have "strip_prefix (lit ''upload '') (link_message name url) = None"
    by (auto simp: strip_prefix_def starts_with_iff link_message_def lit_def)
  moreover have "strip_prefix (lit ''link stored as '') (link_message name url) = Some (name @ lit '' -> '' @ url)"
    by (simp add: strip_prefix_def starts_with_iff link_message_def)
  ultimately show ?thesis unfolding arrivals_def receiver_info_line [OF assms(1,2) plain len]
    using assms(5-8,10,11) by (simp add: link_record_def list_all_iff)
qed

lemma safe_not_control: "\<not> is_unsafe_char c \<Longrightarrow> \<not> is_control c"
  unfolding is_unsafe_char_def is_control_def by linarith

lemma safe_plain: "\<not> is_unsafe_char c \<Longrightarrow> c \<noteq> 0x2028 \<Longrightarrow> c \<noteq> 0x2029 \<Longrightarrow> plain_char c"
  unfolding plain_char_def is_unsafe_char_def is_control_def is_disguise_def by linarith

lemma safe_no_slash: "\<not> is_unsafe_char c \<Longrightarrow> c \<noteq> 0x2f"
  unfolding is_unsafe_char_def by simp

lemma visible_arrives:
  assumes "visible_name n" "regular n"
  shows "arrived_file regular n"
proof -
  have safe: "\<forall>c \<in> set n. \<not> is_unsafe_char c" and ne: "n \<noteq> []" and dot: "hd n \<noteq> 0x2e"
    using assms(1) by (simp_all add: visible_name_def list_all_iff)
  have "0x2f \<notin> set n" using safe safe_no_slash by blast
  moreover have "\<not> list_ex is_control n" using safe safe_not_control by (auto simp only: list_ex_iff)
  moreover have "\<not> starts_with n (lit ''.'')" using ne dot by (cases n) (auto simp: starts_with_iff lit_def)
  ultimately show ?thesis using ne assms(2) by (simp add: arrived_file_def)
qed

lemma visible_plain:
  assumes "visible_name n" "0x2028 \<notin> set n" "0x2029 \<notin> set n"
  shows "\<forall>c \<in> set n. plain_char c"
proof
  fix c assume "c \<in> set n"
  then have "\<not> is_unsafe_char c" "c \<noteq> 0x2028" "c \<noteq> 0x2029"
    using assms unfolding visible_name_def list_all_iff by blast+
  then show "plain_char c" by (rule safe_plain)
qed

text \<open>
  A name that is ambiguous is taken for another: beside the file \<open>a\<close>, the stored file \<open>a, b\<close> is not announced, but \<open>a\<close> is, and of
  \<open>b\<close> it is said that it is not there.
\<close>

lemma ambiguous_name_mistaken:
  assumes "tm_ok t" "millis < 1000" "regular = (\<lambda>n. n \<in> {lit ''a'', lit ''a, b''})"
  shows "arrivals (butlast (log_line (asctime secs millis (Some t)) Info (lit ''upload '' @ transfer_label header @ lit '': stored '' @ lit ''a, b'')))
      = Some (Stored (lit ''a, b''))"
    and "resolve_arrivals regular (Stored (lit ''a, b'')) = ([lit ''a''], [lit ''b''])"
proof -
  show "arrivals (butlast (log_line (asctime secs millis (Some t)) Info (lit ''upload '' @ transfer_label header @ lit '': stored '' @ lit ''a, b'')))
      = Some (Stored (lit ''a, b''))"
    using assms(1,2) by (intro arrivals_stored) (simp_all add: lit_def plain_ascii utf8_len_def)
  have "arrived_file regular [97]" "\<not> arrived_file regular [98]"
    by (simp_all add: assms(3) arrived_file_def lit_def is_control_def)
  moreover have "pieces (lit ''a, b'') = [[97], [98]]" by (simp add: lit_def)
  ultimately show "resolve_arrivals regular (Stored (lit ''a, b'')) = ([lit ''a''], [lit ''b''])"
    by (simp add: resolve_arrivals_def split_str_pieces resolve_pieces.simps(2) first_hit_def) (simp add: lit_def)
qed



end
