(* ===== verification/Links.thy ===== *)
theory Links
  imports Arrivals Session
begin

text \<open>
  A link from the Ask request to the browser: what the receiver stores (server.rs, \<open>store_link\<close>) is what
  the watcher announces and what the client reads back and opens (omdrop-cli/src/links.rs).
\<close>

section \<open>The name of a stored link\<close>

lemma split_by_subset:
  assumes "part \<in> set (split_by p xs)" shows "set part \<subseteq> set xs"
  using split_by_no_sep [OF assms] by (intro subsetI) simp

lemma last_split_by_subset: "set (last (split_by p xs)) \<subseteq> set xs"
  by (rule split_by_subset [of _ p]) simp

lemma safe_name_subset:
  "set (safe_name nfc name fallback) \<subseteq> set (nfc (last (split_by (\<lambda>c. c = 0x2f \<or> c = 0x5c) name))) \<union> set fallback"
proof -
  define cleaned where "cleaned = filter (\<lambda>c. \<not> is_unsafe_char c) (nfc (last (split_by (\<lambda>c. c = 0x2f \<or> c = 0x5c) name)))"
  define trimmed where "trimmed = dropWhile (\<lambda>c. c = 0x2e) (trim cleaned)"
  obtain stem ext where se: "split_ext trimmed = (stem, ext)" by force
  have "set trimmed \<subseteq> set cleaned" unfolding trimmed_def by (auto dest!: set_dropWhileD set_trim)
  moreover have "set stem \<union> set ext = set trimmed" using split_ext_append [OF se] by auto
  moreover have "set (shorten stem (str_len ext)) \<subseteq> set stem" using shorten_subset by blast
  ultimately have "set (shorten stem (str_len ext) @ ext) \<subseteq> set cleaned" by auto
  moreover have "safe_name nfc name fallback = fallback \<or> safe_name nfc name fallback = shorten stem (str_len ext) @ ext"
    using se unfolding safe_name_def cleaned_def trimmed_def by (simp add: Let_def)
  moreover have "set cleaned \<subseteq> set (nfc (last (split_by (\<lambda>c. c = 0x2f \<or> c = 0x5c) name)))"
    by (auto simp: cleaned_def)
  ultimately show ?thesis by (metis le_supI1 le_supI2 order_refl subset_trans)
qed

lemma link_parts_subset:
  assumes "link_parts url = (netloc, segment)" shows "set netloc \<subseteq> set url" "set segment \<subseteq> set url"
proof -
  define rest where "rest = (case split_once (lit ''://'') url of Some (_, r) \<Rightarrow> r | None \<Rightarrow> url)"
  have rest: "set rest \<subseteq> set url"
    by (auto simp: rest_def dest: split_once_Some split: option.splits)
  define path where "path = takeWhile (\<lambda>c. c \<noteq> 0x3f \<and> c \<noteq> 0x23) (drop (length netloc) rest)"
  have n: "netloc = takeWhile (\<lambda>c. c \<noteq> 0x2f \<and> c \<noteq> 0x3f \<and> c \<noteq> 0x23) rest"
    and s: "segment = last (split_by (\<lambda>c. c = 0x2f) (trim_end_matches (\<lambda>c. c = 0x2f) path))"
    using assms by (auto simp: link_parts_def rest_def path_def Let_def)
  show "set netloc \<subseteq> set url" using rest unfolding n by (auto dest: set_takeWhileD)
  have "set path \<subseteq> set rest" unfolding path_def by (auto dest!: set_takeWhileD in_set_dropD)
  then show "set segment \<subseteq> set url"
    using rest last_split_by_subset [of "\<lambda>c. c = 0x2f" "trim_end_matches (\<lambda>c. c = 0x2f) path"]
    unfolding s by (meson set_trim_end_matches subset_iff)
qed

definition no_space :: "ustr \<Rightarrow> bool" where [eval_defs]:
  "no_space s \<longleftrightarrow> (\<forall>c \<in> set s. \<not> is_whitespace c)"

lemma no_space_subset: "set s \<subseteq> set t \<Longrightarrow> no_space t \<Longrightarrow> no_space s"
  by (auto simp: no_space_def)

lemma link_name_shape:
  assumes "no_space url" "\<forall>s. no_space s \<longrightarrow> no_space (nfc s)"
  shows "\<exists>short. link_name nfc url = short @ lit ''.url'' \<and> short \<noteq> [] \<and> hd short \<noteq> 0x2e \<and> no_space short"
proof -
  obtain netloc segment where p: "link_parts url = (netloc, segment)" by fastforce
  define joined where "joined = join (lit ''-'') (filter (\<lambda>p. p \<noteq> []) [netloc, segment])"
  define base where "base = safe_name nfc joined (lit ''link'')"
  have n: "link_name nfc url = shorten base 4 @ lit ''.url''"
    by (simp only: link_name_def p base_def joined_def Let_def prod.case)
  have "set joined \<subseteq> set netloc \<union> set segment \<union> {0x2d}"
    unfolding joined_def by (auto simp: lit_def dest!: set_join split: if_splits)
  moreover have "\<not> is_whitespace 0x2d" by (simp add: is_whitespace_def)
  ultimately have "no_space joined" using link_parts_subset [OF p] assms(1) unfolding no_space_def by blast
  then have "no_space (last (split_by (\<lambda>c. c = 0x2f \<or> c = 0x5c) joined))"
    by (rule no_space_subset [OF last_split_by_subset])
  then have "no_space (nfc (last (split_by (\<lambda>c. c = 0x2f \<or> c = 0x5c) joined)))" using assms(2) by blast
  moreover have "no_space (lit ''link'')" by (simp add: no_space_def lit_def is_whitespace_def)
  ultimately have "no_space (nfc (last (split_by (\<lambda>c. c = 0x2f \<or> c = 0x5c) joined)) @ lit ''link'')"
    by (simp only: no_space_def set_append ball_Un)
  then have sp: "no_space base"
    using safe_name_subset [of nfc joined "lit ''link''"] unfolding base_def set_append [symmetric] by (rule no_space_subset [rotated])
  have "file_name_ok (lit ''link'')" by (simp add: eval_defs)
  then have b: "file_name_ok base" using safe_name_cases unfolding base_def by metis
  then have ne: "shorten base 4 \<noteq> []" by (intro shorten_not_Nil) (auto simp: file_name_ok_def visible_name_def)
  have "no_space (shorten base 4)" using sp shorten_subset [of _ base 4] by (simp add: no_space_def)
  moreover have "hd (shorten base 4) \<noteq> 0x2e"
    using b shorten_hd [OF ne] unfolding file_name_ok_def visible_name_def by simp
  ultimately show ?thesis using n ne by metis
qed

text \<open>Every name tried for it ends in \<open>.url\<close>, fits, and holds no space: its record is read back.\<close>

lemma candidate_url:
  assumes "short \<noteq> []" "hd short \<noteq> 0x2e" "no_space short" "i < 10000" "file_name_ok (short @ lit ''.url'')"
  shows "\<exists>s. candidate_name (short @ lit ''.url'') i = s @ lit ''.url'' \<and> s \<noteq> [] \<and> no_space s \<and> str_len s \<le> 251"
proof (cases "i = 0")
  case True
  then show ?thesis using assms by (intro exI [of _ short])
    (simp add: candidate_name_def file_name_ok_def MAX_FILE_NAME_BYTES_def lit_def utf8_len_def)
next
  case False
  have "list_ex (\<lambda>c. c \<noteq> 0x2e) short" using assms(1,2) by (cases short) auto
  then have se: "split_ext (short @ lit ''.url'') = (short, lit ''.url'')"
    using split_ext_dot [of "lit ''url''" short] by (simp add: lit_def)
  define s where "s = shorten short (Suc (str_len (dec i)) + str_len (lit ''.url'')) @ 0x2d # dec i"
  have c: "candidate_name (short @ lit ''.url'') i = s @ lit ''.url''"
    using candidate_name_Suc [OF se, of i] False by (simp only: s_def append_assoc append_Cons gr0I)
  have ext: "str_len (lit ''.url'') = 4" by (simp add: lit_def utf8_len_def)
  have d: "\<forall>c \<in> set (dec i). is_ascii_digit c" "length (dec i) \<le> 4"
    using dec_digit length_dec_candidate [OF assms(4)] by blast+
  have "str_len (shorten short (Suc (str_len (dec i)) + str_len (lit ''.url''))) + (Suc (str_len (dec i)) + 4) \<le> 255"
    using shorten_le [of "Suc (str_len (dec i)) + 4" short] d(2) by (simp only: ext str_len_dec MAX_FILE_NAME_BYTES_def)
  then have len: "str_len s \<le> 251" by (simp add: s_def utf8_len_def)
  have "\<forall>c \<in> set (dec i). \<not> is_whitespace c"
    using d(1) by (auto simp: is_ascii_digit_def is_whitespace_def)
  moreover have "no_space (shorten short (Suc (str_len (dec i)) + str_len (lit ''.url'')))"
    using shorten_subset by (intro no_space_subset [OF _ assms(3)]) blast
  ultimately have "no_space s"
    by (simp add: no_space_def s_def is_whitespace_def [of 45] ball_Un)
  then show ?thesis using c len by (intro exI [of _ s]) (simp add: s_def)
qed

lemma plain_link_stored: "\<exists>name dk'. store_link plain_os id url \<lparr>dk_files = Map.empty, dk_partials = [], dk_tick = 0\<rparr> = (Ok name, dk')"
proof -
  have cs: "candidate_names n = n # map (candidate_name n) [1..<10000]" for n
    unfolding candidate_names_def upt_conv_Cons [of 0 10000, OF zero_less_numeral] One_nat_def
    by (simp only: list.map candidate_name_def if_True refl)
  show ?thesis
    unfolding store_link_def open_new_def cs by (simp only: open_first.simps) (simp add: plain_os_def file_write_all_def)
qed

section \<open>The link read back\<close>

lemma trim_blanks_id:
  assumes "\<forall>c \<in> set s. \<not> is_blank c" shows "trim_blanks s = s"
proof -
  have "dropWhile is_blank s = s" "dropWhile is_blank (rev s) = rev s"
    using assms by (auto simp: dropWhile_eq_self_iff hd_rev)
  then show ?thesis by (simp add: trim_blanks_def trim_end_matches_def)
qed

lemma url_file_target_link:
  assumes "\<forall>c \<in> set url. is_scalar c \<and> \<not> is_control c \<and> \<not> is_whitespace c"
  shows "url_file_target (link_file url) = url"
proof -
  let ?t = "lit ''[InternetShortcut]'' @ [10] @ lit ''URL='' @ url @ [10]"
  have sc: "\<forall>c \<in> set ?t. is_scalar c" using assms by (auto simp: lit_def is_scalar_def)
  have no: "c \<noteq> 10" "c \<noteq> 13" "\<not> is_blank c" if "c \<in> set url" for c
  proof -
    have "\<not> is_control c" "\<not> is_whitespace c" using assms that by blast+
    then show "c \<noteq> 10" "c \<noteq> 13" "\<not> is_blank c"
      unfolding is_control_def is_whitespace_def is_blank_def by simp_all
  qed
  then have "\<forall>c \<in> set (lit ''URL='' @ url). \<not> c = 10" by (auto simp: lit_def)
  moreover have "\<forall>c \<in> set (lit ''[InternetShortcut]''). \<not> c = (10::nat)" by (simp add: lit_def)
  ultimately have "split_by (\<lambda>c. c = 10) (lit ''[InternetShortcut]'' @ 10 # (lit ''URL='' @ url) @ 10 # []) =
      [lit ''[InternetShortcut]'', lit ''URL='' @ url, []]"
    by (simp only: split_by_append_sep split_by.simps refl)
  then have lines: "split_by (\<lambda>c. c = 10) (from_utf8_lossy (link_file url)) = [lit ''[InternetShortcut]'', lit ''URL='' @ url, []]"
    using from_utf8_lossy_as_bytes [OF sc] by (simp add: link_file_def)
  have cr: "strip_cr (lit ''URL='' @ url) = lit ''URL='' @ url" "strip_cr (lit ''[InternetShortcut]'') = lit ''[InternetShortcut]''"
    using no(2) [OF last_in_set] by (cases "url = []"; simp add: strip_cr_def lit_def)+
  have "url_lines True [lit ''URL='' @ url, []] = trim_blanks url"
    unfolding url_lines.simps cr Let_def by (simp add: lit_def is_blank_def to_ascii_lower_def)
  moreover have "url_lines False [lit ''[InternetShortcut]'', lit ''URL='' @ url, []] = url_lines True [lit ''URL='' @ url, []]"
    unfolding url_lines.simps(2) [of False] cr Let_def by (simp add: lit_def is_blank_def to_ascii_lower_def)
  ultimately show ?thesis using no(3) trim_blanks_id by (simp add: url_file_target_def lines)
qed

lemma link_target_stored:
  assumes "\<forall>c \<in> set url. is_scalar c \<and> \<not> is_control c \<and> \<not> is_whitespace c" "web_url lowercase url" "str_len url \<le> 32000"
    and "ends_with (lowercase path) (lit ''.url'')"
  shows "link_target lowercase parse path
    (Some \<lparr>lm_file = True, lm_len = length (link_file url), lm_readable = True, lm_data = Some (link_file url)\<rparr>) = Some url"
proof -
  have "length (link_file url) \<le> LINK_MAX"
    using assms(3) by (simp add: link_file_def lit_def utf8_len_def LINK_MAX_def)
  then show ?thesis using assms(2,4) url_file_target_link [OF assms(1)] by (simp add: link_target_def link_url_def)
qed

lemma path_join_visible:
  assumes "visible_name name" shows "\<exists>p. path_join dir name = p @ name"
proof -
  have "\<not> starts_with name (lit ''/'')"
    using assms safe_no_slash by (cases name) (auto simp: visible_name_def starts_with_iff lit_def)
  then show ?thesis by (auto simp: path_join_def)
qed

lemma web_url_not_bare:
  assumes "\<forall>s. list_all (\<lambda>c. c < 128) s \<longrightarrow> lowercase s = map to_ascii_lower s"
  shows "\<not> web_url lowercase (lit ''http://'')" "\<not> web_url lowercase (lit ''https://'')"
proof -
  have l: "lowercase (lit ''http://'') = lit ''http://''" "lowercase (lit ''https://'') = lit ''https://''"
    using assms by (simp_all add: lit_def to_ascii_lower_def)
  have "split_once (lit ''://'') (lit ''http://'') = Some (lit ''http'', [])"
    "split_once (lit ''://'') (lit ''https://'') = Some (lit ''https'', [])"
    by (simp_all add: lit_def split_once_Cons)
  then show "\<not> web_url lowercase (lit ''http://'')" "\<not> web_url lowercase (lit ''https://'')"
    by (simp_all add: web_url_def l Let_def)
qed

text \<open>What the receiver made of a link, and the record the watcher reads of it.\<close>

lemma stored_link:
  assumes "store_link os nfc url dk = (Ok name, dk')" "\<forall>c \<in> set url. \<not> is_control c \<and> \<not> is_whitespace c"
    and "\<forall>s. no_space s \<longrightarrow> no_space (nfc s)"
  shows "visible_name name" "dk_files dk name = None" "dk_files dk' = (dk_files dk)(name \<mapsto> link_file url)"
    and "\<exists>s. name = s @ lit ''.url'' \<and> s \<noteq> [] \<and> no_space s \<and> str_len s \<le> 251"
proof -
  note new = store_link_new [OF assms(1)]
  show "visible_name name" "dk_files dk name = None" "dk_files dk' = (dk_files dk)(name \<mapsto> link_file url)" by (rule new)+
  have "no_space url" using assms(2) by (simp add: no_space_def)
  then obtain short where short: "link_name nfc url = short @ lit ''.url''" "short \<noteq> []" "hd short \<noteq> 0x2e" "no_space short"
    using link_name_shape [OF _ assms(3)] by blast
  obtain i where i: "i < 10000" "name = candidate_name (link_name nfc url) i" using new(1) by (auto simp: candidate_names_def)
  show "\<exists>s. name = s @ lit ''.url'' \<and> s \<noteq> [] \<and> no_space s \<and> str_len s \<le> 251"
    using candidate_url [OF short(2-4) i(1)] link_name_ok [of nfc url] unfolding i(2) short(1) by blast
qed

lemma link_record_read:
  assumes "visible_name name" "name = s @ lit ''.url''" "s \<noteq> []" "no_space s" "str_len s \<le> 251"
    and "url = lit ''http://'' @ rest \<or> url = lit ''https://'' @ rest" "rest \<noteq> []" "\<forall>c \<in> set url. plain_char c \<and> \<not> is_whitespace c"
    and "str_len url \<le> 31000" "tm_ok t" "millis < 1000"
  shows "arrivals (butlast (log_line (asctime secs millis (Some t)) Info (link_message name url))) = Some (Link name)"
proof (rule arrivals_link [OF assms(10,11) _ _ _ _ _ _ assms(6,7)])
  have "no_space name" using assms(2,4) by (auto simp: no_space_def lit_def is_whitespace_def)
  then have "0x2028 \<notin> set name" "0x2029 \<notin> set name" "0x20 \<notin> set name" by (auto simp: no_space_def is_whitespace_def)
  then show "\<forall>c \<in> set (name @ url). plain_char c" "0x20 \<notin> set name" using assms(8) visible_plain [OF assms(1)] by auto
  show "str_len (name @ url) \<le> 32000" using assms(5,9) by (simp add: assms(2) lit_def utf8_len_def)
  show "4 < str_len name" using assms(3) utf8_len_pos by (cases s) (simp_all add: assms(2) lit_def utf8_len_def)
  show "ends_with name (lit ''.url'')" by (simp add: assms(2) ends_with_def)
  show "0x2f \<notin> set name" using assms(1) safe_no_slash by (auto simp: visible_name_def list_all_iff)
  show "\<forall>c \<in> set rest. \<not> is_whitespace c" using assms(6,8) by auto
qed



end
