(* ===== verification/Commands.thy ===== *)
theory Commands
  imports Settings
begin

text \<open>
  The command lines of the two sending programs: the parser they share (omdrop-send/src/args.rs), what
  airdrop-send accepts (airdrop_send.rs, \<open>parse_options\<close>), the command send-to-peer runs
  (send_to_peer.rs), and the Python texts their messages use (pyfmt.rs).

  Parameters: floating-point numbers (\<open>floats\<close>), Unicode lowercasing and what opening a file gave.
\<close>

section \<open>Python texts\<close>

definition str_escape :: "uchar \<Rightarrow> uchar \<Rightarrow> ustr" where [eval_defs]:
  "str_escape quote c =
     (if c = 0x5c then [0x5c, 0x5c] else if c = 0x0a then lit [CHR 0x5c, CHR ''n'']
      else if c = 0x0d then lit [CHR 0x5c, CHR ''r''] else if c = 0x09 then lit [CHR 0x5c, CHR ''t'']
      else if c = quote then [0x5c, c]
      else if is_control c
      then (if c < 0x100 then lit [CHR 0x5c, CHR ''x''] @ pad0 2 (show_radix 16 c)
            else lit [CHR 0x5c, CHR ''u''] @ pad0 4 (show_radix 16 c))
      else [c])"

definition str_repr :: "ustr \<Rightarrow> ustr" where [eval_defs]:
  "str_repr s = (let quote = py_quote s in [quote] @ concat (map (str_escape quote) s) @ [quote])"

definition opt_str_repr :: "ustr option \<Rightarrow> ustr" where [eval_defs]:
  "opt_str_repr s = (case s of None \<Rightarrow> lit ''None'' | Some t \<Rightarrow> str_repr t)"

definition list_repr :: "ustr list \<Rightarrow> ustr" where [eval_defs]:
  "list_repr items = lit ''['' @ join (lit '', '') (map str_repr items) @ lit '']''"

text \<open>
  A 64-bit float, as far as the programs look at one: what the standard library reads and shows, and
  the tests on it. \<open>fl_exp\<close> is \<open>format!("{f:e}")\<close>, \<open>fl_fixed n\<close> the same with \<open>n\<close> decimals.
\<close>

record 'f floats =
  fl_of :: "nat \<Rightarrow> 'f"
  fl_parse :: "ustr \<Rightarrow> 'f option"
  fl_show :: "'f \<Rightarrow> ustr"
  fl_exp :: "'f \<Rightarrow> ustr"
  fl_fixed :: "nat \<Rightarrow> 'f \<Rightarrow> ustr"
  fl_nan :: "'f \<Rightarrow> bool"
  fl_infinite :: "'f \<Rightarrow> bool"
  fl_zero :: "'f \<Rightarrow> bool"
  fl_below_zero :: "'f \<Rightarrow> bool"
  fl_moderate :: "'f \<Rightarrow> bool"
  fl_whole :: "'f \<Rightarrow> bool"
  fl_duration :: "'f \<Rightarrow> bool"

text \<open>\<open>fl_moderate\<close>: the magnitude is at least 1e-4 and below 1e16.\<close>

definition float_str :: "'f floats \<Rightarrow> 'f \<Rightarrow> ustr" where [eval_defs]:
  "float_str F f =
     (if fl_nan F f then lit ''nan''
      else if fl_infinite F f then (if fl_below_zero F f then lit ''-inf'' else lit ''inf'')
      else if \<not> fl_zero F f \<and> \<not> fl_moderate F f
      then (let s = fl_exp F f;
                (mantissa, expo) = (case split_once (lit ''e'') s of Some p \<Rightarrow> p | None \<Rightarrow> (s, lit ''0''));
                (sign, digs) = (if starts_with expo (lit ''-'') then (lit ''-'', tl expo) else (lit ''+'', expo))
            in mantissa @ lit ''e'' @ sign @ pad0 2 digs)
      else if fl_whole F f then fl_fixed F 1 f
      else fl_show F f)"

section \<open>The shared parser\<close>

datatype opt_kind = Takes_flag | Takes_value | Takes_append

record option_spec =
  op_long :: ustr
  op_short :: "ustr option"
  op_kind :: opt_kind

definition option_spec_of :: "string \<Rightarrow> string option \<Rightarrow> opt_kind \<Rightarrow> option_spec" where [eval_defs]:
  "option_spec_of long short kind = \<lparr>op_long = lit long, op_short = map_option lit short, op_kind = kind\<rparr>"

record program_spec =
  sp_prog :: ustr
  sp_usage :: ustr
  sp_help_body :: ustr
  sp_opts :: "option_spec list"

record parsed =
  pd_values :: "ustr \<rightharpoonup> ustr list"
  pd_positionals :: "ustr list"

datatype early_exit = Help_text ustr | Error_text ustr

definition HELP_OPT :: option_spec where [eval_defs]:
  "HELP_OPT = option_spec_of ''--help'' (Some ''-h'') Takes_flag"

definition flag_given :: "parsed \<Rightarrow> ustr \<Rightarrow> bool" where [eval_defs]:
  "flag_given p long \<longleftrightarrow> pd_values p long \<noteq> None"

definition value_of :: "parsed \<Rightarrow> ustr \<Rightarrow> ustr option" where [eval_defs]:
  "value_of p long = (case pd_values p long of None \<Rightarrow> None | Some [] \<Rightarrow> None | Some vs \<Rightarrow> Some (last vs))"

definition all_of :: "parsed \<Rightarrow> ustr \<Rightarrow> ustr list" where [eval_defs]:
  "all_of p long = (case pd_values p long of None \<Rightarrow> [] | Some vs \<Rightarrow> vs)"

definition spec_error :: "program_spec \<Rightarrow> ustr \<Rightarrow> early_exit" where [eval_defs]:
  "spec_error sp msg = Error_text (sp_usage sp @ NL @ sp_prog sp @ lit '': error: '' @ msg @ NL)"

definition spec_help :: "program_spec \<Rightarrow> ustr" where [eval_defs]:
  "spec_help sp = sp_usage sp @ NL @ NL @ sp_help_body sp"

definition lookup_opt :: "program_spec \<Rightarrow> ustr \<Rightarrow> (option_spec, early_exit) result" where [eval_defs]:
  "lookup_opt sp name =
     (let all = HELP_OPT # sp_opts sp
      in if starts_with name (lit ''--'')
         then (case find (\<lambda>opt. op_long opt = name) all of
                 Some opt \<Rightarrow> Ok opt
               | None \<Rightarrow>
                   (case filter (\<lambda>opt. starts_with (op_long opt) name) all of
                      [one] \<Rightarrow> Ok one
                    | [] \<Rightarrow> Err (Error_text [])
                    | many \<Rightarrow> Err (spec_error sp (lit ''ambiguous option: '' @ name @ lit '' could match ''
                                                  @ join (lit '', '') (map op_long many)))))
         else (case find (\<lambda>opt. op_short opt = Some name) all of Some opt \<Rightarrow> Ok opt | None \<Rightarrow> Err (Error_text [])))"

definition option_like :: "ustr \<Rightarrow> bool" where [eval_defs]:
  "option_like arg \<longleftrightarrow>
     starts_with arg (lit ''-'') \<and> arg \<noteq> lit ''-'' \<and> (\<not> parses_f64 arg \<or> starts_with arg (lit ''--''))"

definition name_and_value :: "ustr \<Rightarrow> ustr \<times> ustr option" where [eval_defs]:
  "name_and_value arg =
     (case split_once (lit ''='') arg of
        Some (n, v) \<Rightarrow> if starts_with n (lit ''--'') then (n, Some v) else (arg, None)
      | None \<Rightarrow> (arg, None))"

definition shown_option :: "option_spec \<Rightarrow> ustr" where [eval_defs]:
  "shown_option opt = (case op_short opt of Some s \<Rightarrow> s @ lit ''/'' @ op_long opt | None \<Rightarrow> op_long opt)"

definition push_value :: "option_spec \<Rightarrow> ustr \<Rightarrow> parsed \<Rightarrow> parsed" where [eval_defs]:
  "push_value opt v p =
     (let old = (if op_kind opt = Takes_value then [] else all_of p (op_long opt))
      in p\<lparr>pd_values := (pd_values p)(op_long opt \<mapsto> old @ [v])\<rparr>)"

text \<open>The loop over the arguments; \<open>only_files\<close> after a bare \<open>--\<close>.\<close>

fun spec_args :: "program_spec \<Rightarrow> bool \<Rightarrow> parsed \<Rightarrow> ustr list \<Rightarrow> ustr list \<Rightarrow> (parsed, early_exit) result" where
  "spec_args sp only_files p unknown [] =
     (if unknown \<noteq> [] then Err (spec_error sp (lit ''unrecognized arguments: '' @ join (lit '' '') unknown)) else Ok p)"
| "spec_args sp only_files p unknown (arg # rest) =
     (if only_files \<or> \<not> option_like arg
      then spec_args sp only_files (p\<lparr>pd_positionals := pd_positionals p @ [arg]\<rparr>) unknown rest
      else if arg = lit ''--'' then spec_args sp True p unknown rest
      else (let (name, inline) = name_and_value arg
            in (case lookup_opt sp name of
                  Err e \<Rightarrow> if e = Error_text [] then spec_args sp only_files p (unknown @ [arg]) rest else Err e
                | Ok opt \<Rightarrow>
                    if op_long opt = lit ''--help'' then Err (Help_text (spec_help sp))
                    else if op_kind opt = Takes_flag
                    then (case inline of
                            Some v \<Rightarrow> Err (spec_error sp (lit ''argument '' @ shown_option opt @ lit '': ignored explicit argument '' @ str_repr v))
                          | None \<Rightarrow> spec_args sp only_files (push_value opt [] p) unknown rest)
                    else (case inline of
                            Some v \<Rightarrow> spec_args sp only_files (push_value opt v p) unknown rest
                          | None \<Rightarrow>
                              (case rest of
                                 [] \<Rightarrow> Err (spec_error sp (lit ''argument '' @ shown_option opt @ lit '': expected one argument''))
                               | v # rest' \<Rightarrow>
                                   if \<not> option_like v \<or> v = lit ''-''
                                   then spec_args sp only_files (push_value opt v p) unknown rest'
                                   else Err (spec_error sp (lit ''argument '' @ shown_option opt @ lit '': expected one argument'')))))))"

declare spec_args.simps(2) [simp del]

definition no_args :: parsed where [eval_defs]:
  "no_args = \<lparr>pd_values = Map.empty, pd_positionals = []\<rparr>"

definition spec_parse :: "program_spec \<Rightarrow> ustr list \<Rightarrow> (parsed, early_exit) result" where [eval_defs]:
  "spec_parse sp argv = spec_args sp False no_args [] argv"

definition float_arg :: "'f floats \<Rightarrow> program_spec \<Rightarrow> parsed \<Rightarrow> ustr \<Rightarrow> 'f \<Rightarrow> ('f, early_exit) result" where [eval_defs]:
  "float_arg F sp p long dflt =
     (case value_of p long of
        None \<Rightarrow> Ok dflt
      | Some v \<Rightarrow>
          (case fl_parse F (trim v) of
             Some f \<Rightarrow> Ok f
           | None \<Rightarrow> Err (spec_error sp (lit ''argument '' @ long @ lit '': invalid float value: '' @ str_repr v))))"

definition integer_arg :: "program_spec \<Rightarrow> parsed \<Rightarrow> ustr \<Rightarrow> int \<Rightarrow> (int, early_exit) result" where [eval_defs]:
  "integer_arg sp p long dflt =
     (case value_of p long of
        None \<Rightarrow> Ok dflt
      | Some v \<Rightarrow>
          (case parse_i64 (filter (\<lambda>c. c \<noteq> 0x5f) (trim v)) of
             Some i \<Rightarrow> Ok i
           | None \<Rightarrow> Err (spec_error sp (lit ''argument '' @ long @ lit '': invalid int value: '' @ str_repr v))))"

text \<open>A socket timeout: \<open>None\<close> for zero, refused when the standard library makes no duration of it.\<close>

definition timeout_arg :: "'f floats \<Rightarrow> program_spec \<Rightarrow> ustr \<Rightarrow> 'f \<Rightarrow> ('f option, early_exit) result" where [eval_defs]:
  "timeout_arg F sp long secs =
     (if fl_zero F secs then Ok None
      else if fl_duration F secs then Ok (Some secs)
      else Err (spec_error sp (lit ''argument '' @ long @ lit '': must be a non-negative number of seconds'')))"

section \<open>The two programs\<close>

definition text_lines :: "string list \<Rightarrow> ustr" where [eval_defs]:
  "text_lines ls = join NL (map lit ls)"

definition PEER_OPTS :: "option_spec list" where [eval_defs]:
  "PEER_OPTS =
     [option_spec_of ''--url'' None Takes_append,
      option_spec_of ''--mac'' None Takes_value,
      option_spec_of ''--list'' None Takes_flag,
      option_spec_of ''--print'' None Takes_flag,
      option_spec_of ''--port'' None Takes_value,
      option_spec_of ''--name'' None Takes_value,
      option_spec_of ''--op-timeout'' None Takes_value,
      option_spec_of ''--wait'' None Takes_value,
      option_spec_of ''--names'' (Some ''-n'') Takes_flag,
      option_spec_of ''--no-wake'' None Takes_flag,
      option_spec_of ''--stream'' None Takes_flag]"

definition PEER_USAGE :: ustr where [eval_defs]:
  "PEER_USAGE =
     text_lines
      [''usage: send-to-peer [-h] [--url URL] [--mac NAME|ADDRESS] [--list] [--print]'',
       ''                    [--port PORT] [--name NAME] [--op-timeout OP_TIMEOUT]'',
       ''                    [--wait SECONDS] [-n] [--no-wake] [--stream]'',
       ''                    [file ...]'']"

definition PEER_HELP :: ustr where [eval_defs]:
  "PEER_HELP =
     text_lines
      [''Send files to an AWDL peer without waiting for an mDNS advert.'',
       '''',
       ''2026-09-18: two transfers landed on a Mac by dialling its EUI-64 link-local'',
       ''directly. Discovery was never the problem and mDNS was never the channel -- a'',
       ''Mac in Everyone mode answers /Discover with no Finder AirDrop window open and'',
       ''publishes no `_airdrop._tcp` instance at all, so a sender that waits for one'',
       ''waits forever. The firmware peer table already holds every MAC we can hear,'',
       ''and a link-local address is a pure function of a MAC, so the endpoint needs no'',
       ''discovery protocol.'',
       '''',
       ''  send-to-peer --list                 # what can we hear, and where'',
       ''  send-to-peer FILE                   # the only peer, or --mac to choose'',
       ''  send-to-peer --mac e2:9d:.. FILE'',
       ''  send-to-peer --mac hume --url https://example.com/   # a link, opened there'',
       ''  send-to-peer --print FILE           # show the command, send nothing'',
       '''',
       ''Peers come from the radio helper's `peers`, which needs root, so this runs it'',
       ''through pkexec. Everything else runs as you.'',
       '''',
       ''positional arguments:'',
       ''  file                  files to send, as one transfer the peer accepts once'',
       '''',
       ''options:'',
       ''  -h, --help            show this help message and exit'',
       ''  --url URL             send this http(s) link instead of files; the peer'',
       ''                        opens it in its browser. Repeat for several'',
       ''  --mac NAME|ADDRESS    who to send to: a peer name, or part of its address.'',
       ''                        Default is the only device heard'',
       ''  --list                list peers and their endpoints'',
       ''  --print               print the sender command without running it'',
       ''  --port PORT'',
       ''  --name NAME           SenderComputerName the peer shows. Default: the short'',
       ''                        hostname'',
       ''  --op-timeout OP_TIMEOUT'',
       ''                        seconds to wait on each request; /Ask waits for a'',
       ''                        human'',
       ''  --wait SECONDS        poll the peer's port and send the moment it opens; an'',
       ''                        iPhone only listens in bursts'',
       ''  -n, --names           ask each peer for its name over /Discover (reveals'',
       ''                        this machine to every peer listed)'',
       ''  --no-wake             do not advertise over BLE while asking for names or'',
       ''                        waiting to send; only peers already listening answer'',
       ''  --stream              with --list --names, print each peer as soon as it'',
       ''                        answers'',
       '''']"

definition SEND_OPTS :: "option_spec list" where [eval_defs]:
  "SEND_OPTS =
     [option_spec_of ''--url'' None Takes_append,
      option_spec_of ''--iface'' None Takes_value,
      option_spec_of ''--discover-only'' None Takes_flag,
      option_spec_of ''--to'' None Takes_value,
      option_spec_of ''--timeout'' None Takes_value,
      option_spec_of ''--ask-timeout'' None Takes_value,
      option_spec_of ''--op-timeout'' None Takes_value,
      option_spec_of ''--af-attempts'' None Takes_value,
      option_spec_of ''--auth-tag'' None Takes_value,
      option_spec_of ''--should-convert'' None Takes_flag,
      option_spec_of ''--direct'' None Takes_value,
      option_spec_of ''--af-log'' None Takes_value,
      option_spec_of ''--name'' None Takes_value,
      option_spec_of ''--model'' None Takes_value,
      option_spec_of ''--host'' None Takes_value,
      option_spec_of ''--verbose'' None Takes_flag,
      option_spec_of ''--keys'' None Takes_value]"

definition SEND_USAGE :: ustr where [eval_defs]:
  "SEND_USAGE =
     text_lines
      [''usage: airdrop-send [-h] [--url URL] [--iface IFACE] [--discover-only]'',
       ''                    [--to TO] [--timeout TIMEOUT]'',
       ''                    [--ask-timeout ASK_TIMEOUT] [--op-timeout OP_TIMEOUT]'',
       ''                    [--af-attempts N] [--auth-tag AUTH_TAG]'',
       ''                    [--should-convert] [--direct HOST:PORT]'',
       ''                    [--af-log AF_LOG] [--name NAME] [--model MODEL]'',
       ''                    [--host HOST] [--verbose] [--keys KEYS]'',
       ''                    [file ...]'']"

definition SEND_HELP :: ustr where [eval_defs]:
  "SEND_HELP =
     text_lines
      [''positional arguments:'',
       ''  file                  files to send, as one transfer the receiver accepts'',
       ''                        once'',
       '''',
       ''options:'',
       ''  -h, --help            show this help message and exit'',
       ''  --url URL             send this http(s) link instead of files; the receiver'',
       ''                        opens it in its browser'',
       ''  --iface IFACE'',
       ''  --discover-only       ask the peer for its name over /Discover, print it,'',
       ''                        and send nothing'',
       ''  --to TO               receiver: substring of its name, or 12-hex id'',
       ''  --timeout TIMEOUT     seconds to wait for a receiver'',
       ''  --ask-timeout ASK_TIMEOUT'',
       ''                        seconds for the Mac user to accept'',
       ''  --op-timeout OP_TIMEOUT'',
       ''                        seconds any single Discover/Upload socket operation'',
       ''                        may block; guards against a wedged AWDL TX path'',
       ''                        parking the client in TCP backoff'',
       ''  --af-attempts N       independent Discover attempts against the freshest'',
       ''                        matching af.log endpoint, re-read before each; stops'',
       ''                        on the first success. Total time is bounded by N*(op-'',
       ''                        timeout+2)'',
       ''  --auth-tag AUTH_TAG   3 bytes hex: SenderIdentityAuthTag for the Ask (the'',
       ''                        bytes our BLE advert carries)'',
       ''  --should-convert      set Files[].ShouldConvertMediaFormats (a real sender's'',
       ''                        key; off = one variable held)'',
       ''  --direct HOST:PORT    skip discovery; Discover/Ask/Upload this endpoint'',
       ''                        (e.g. \"[::1]:8771\" against a local airdrop-serve)'',
       ''  --af-log AF_LOG       awdl-af-listen output; take the receiver from the'',
       ''                        newest AirDrop Service Response TLVs in it (address ='',
       ''                        EUI-64 link-local of the frame source) before browsing'',
       ''                        mDNS'',
       ''  --name NAME           SenderComputerName shown in the Mac dialog'',
       ''  --model MODEL         SenderModelName'',
       ''  --host HOST           unused by the sender'',
       ''  --verbose             write redacted protocol dumps to the user runtime'',
       ''                        directory'',
       ''  --keys KEYS           identity directory (default: invoking user's passwd'',
       ''                        home/.omdrop); replaces the disk and self-signed keys'',
       ''                        location only'',
       '''']"


definition PEER_SPEC :: program_spec where [eval_defs]:
  "PEER_SPEC = \<lparr>sp_prog = lit ''send-to-peer'', sp_usage = PEER_USAGE, sp_help_body = PEER_HELP, sp_opts = PEER_OPTS\<rparr>"

definition SEND_SPEC :: program_spec where [eval_defs]:
  "SEND_SPEC = \<lparr>sp_prog = lit ''airdrop-send'', sp_usage = SEND_USAGE, sp_help_body = SEND_HELP, sp_opts = SEND_OPTS\<rparr>"

text \<open>A file to send: opened once, and what was found of it then (client.rs). Paths are texts.\<close>

record outgoing =
  og_path :: ustr
  og_name :: ustr
  og_size :: nat

datatype opened = Opened bool nat | Open_failed ustr

definition basename :: "ustr \<Rightarrow> ustr" where [eval_defs]:
  "basename path = last (split_by (\<lambda>c. c = 0x2f) path)"

definition strip_os_error :: "ustr \<Rightarrow> ustr" where [eval_defs]:
  "strip_os_error s = (case split_once (lit '' (os error'') s of Some (a, _) \<Rightarrow> a | None \<Rightarrow> s)"

definition outgoing_new :: "(ustr \<Rightarrow> opened) \<Rightarrow> ustr \<Rightarrow> (outgoing, ustr) result" where [eval_defs]:
  "outgoing_new opens path =
     (case opens path of
        Open_failed e \<Rightarrow> Err e
      | Opened regular len \<Rightarrow>
          if \<not> regular then Err (lit ''not a regular file'')
          else Ok \<lparr>og_path = path, og_name = basename path, og_size = len\<rparr>)"

fun open_files :: "(ustr \<Rightarrow> opened) \<Rightarrow> ustr list \<Rightarrow> (outgoing list, early_exit) result" where
  "open_files opens [] = Ok []"
| "open_files opens (f # fs) =
     (case outgoing_new opens f of
        Err e \<Rightarrow> Err (spec_error SEND_SPEC (f @ lit '': '' @ strip_os_error e))
      | Ok out \<Rightarrow> (case open_files opens fs of Ok outs \<Rightarrow> Ok (out # outs) | Err e \<Rightarrow> Err e))"

text \<open>\<open>hex_bytes\<close>: two characters are a byte; a character outside ASCII is no digit.\<close>

fun hex_pairs :: "ustr \<Rightarrow> bytes option" where
  "hex_pairs [] = Some []"
| "hex_pairs [h] = None"
| "hex_pairs (h # l # rest) =
     (case from_str_radix 255 16 [h, l] of
        Some n \<Rightarrow> map_option ((#) (of_nat n)) (hex_pairs rest)
      | None \<Rightarrow> None)"

definition hex_bytes :: "ustr \<Rightarrow> bytes option" where [eval_defs]:
  "hex_bytes s =
     (let digs = filter (\<lambda>c. \<not> is_whitespace c) s
      in if str_len digs mod 2 \<noteq> 0 \<or> list_ex (\<lambda>c. c \<ge> 128) digs then None else hex_pairs digs)"

record 'f send_options =
  so_files :: "outgoing list"
  so_urls :: "ustr list"
  so_iface :: ustr
  so_discover_only :: bool
  so_to :: "ustr option"
  so_timeout :: 'f
  so_ask_timeout :: "'f option"
  so_op_timeout :: "'f option"
  so_op_timeout_secs :: 'f
  so_af_attempts :: int
  so_auth_tag :: "bytes option"
  so_should_convert :: bool
  so_direct :: "ustr option"
  so_af_log :: "ustr option"
  so_name :: ustr
  so_model :: ustr
  so_verbose :: bool
  so_keys :: "ustr option"

definition link_refused :: "(ustr \<Rightarrow> ustr) \<Rightarrow> ustr \<Rightarrow> bool" where [eval_defs]:
  "link_refused lower u \<longleftrightarrow>
     \<not> (starts_with (lower u) (lit ''http://'') \<or> starts_with (lower u) (lit ''https://'')) \<or> list_ex is_whitespace u"

definition auth_tag_of :: "parsed \<Rightarrow> (bytes option, early_exit) result" where [eval_defs]:
  "auth_tag_of p =
     (case value_of p (lit ''--auth-tag'') of
        None \<Rightarrow> Ok None
      | Some t \<Rightarrow>
          (case hex_bytes t of
             Some b \<Rightarrow> Ok (Some b)
           | None \<Rightarrow> Err (spec_error SEND_SPEC (lit ''argument --auth-tag: invalid hex: '' @ str_repr t))))"

text \<open>What \<open>parse_options\<close> refuses of the parsed arguments before it looks at the files.\<close>

definition options_refused :: "'f floats \<Rightarrow> (ustr \<Rightarrow> ustr) \<Rightarrow> parsed \<Rightarrow> 'f \<Rightarrow> ustr option" where [eval_defs]:
  "options_refused F lower p timeout =
     (let urls = all_of p (lit ''--url''); files = pd_positionals p; discover_only = flag_given p (lit ''--discover-only'')
      in if fl_nan F timeout \<or> fl_infinite F timeout \<or> fl_below_zero F timeout
         then Some (lit ''argument --timeout: must be a non-negative number of seconds'')
         else if \<not> discover_only \<and> files = [] \<and> urls = []
         then Some (lit ''a file or --url is required unless --discover-only'')
         else if urls \<noteq> [] \<and> files \<noteq> []
         then Some (lit ''send links and files separately: a transfer carries one or the other'')
         else (case find (link_refused lower) urls of
                 Some u \<Rightarrow> Some (lit ''--url '' @ str_repr u @ lit '': only an http or https link with no spaces'')
               | None \<Rightarrow>
                   if \<not> distinct (map basename files)
                   then Some (lit ''two of the files have the same name; the receiver would keep only one'')
                   else if discover_only \<and> value_of p (lit ''--direct'') = None
                   then Some (lit ''--discover-only needs --direct HOST:PORT, the peer to ask'')
                   else None))"

definition parse_options :: "'f floats \<Rightarrow> (ustr \<Rightarrow> ustr) \<Rightarrow> (ustr \<Rightarrow> opened) \<Rightarrow> ustr list \<Rightarrow> ('f send_options, early_exit) result" where [eval_defs]:
  "parse_options F lower opens argv =
     then_ok (spec_parse SEND_SPEC argv) (\<lambda>p.
     then_ok (float_arg F SEND_SPEC p (lit ''--op-timeout'') (fl_of F 20)) (\<lambda>op_secs.
     then_ok (float_arg F SEND_SPEC p (lit ''--ask-timeout'') (fl_of F 90)) (\<lambda>ask_secs.
     then_ok (float_arg F SEND_SPEC p (lit ''--timeout'') (fl_of F 60)) (\<lambda>timeout.
     (case options_refused F lower p timeout of
        Some msg \<Rightarrow> Err (spec_error SEND_SPEC msg)
      | None \<Rightarrow>
          then_ok (auth_tag_of p) (\<lambda>auth_tag.
          then_ok (open_files opens (pd_positionals p)) (\<lambda>files.
          then_ok (timeout_arg F SEND_SPEC (lit ''--ask-timeout'') ask_secs) (\<lambda>ask_timeout.
          then_ok (timeout_arg F SEND_SPEC (lit ''--op-timeout'') op_secs) (\<lambda>op_timeout.
          then_ok (integer_arg SEND_SPEC p (lit ''--af-attempts'') 1) (\<lambda>attempts.
            Ok \<lparr>so_files = files, so_urls = all_of p (lit ''--url''),
                so_iface = (case value_of p (lit ''--iface'') of Some i \<Rightarrow> i | None \<Rightarrow> lit ''awdl0''),
                so_discover_only = flag_given p (lit ''--discover-only''), so_to = value_of p (lit ''--to''),
                so_timeout = timeout, so_ask_timeout = ask_timeout, so_op_timeout = op_timeout,
                so_op_timeout_secs = op_secs, so_af_attempts = attempts, so_auth_tag = auth_tag,
                so_should_convert = flag_given p (lit ''--should-convert''), so_direct = value_of p (lit ''--direct''),
                so_af_log = value_of p (lit ''--af-log''),
                so_name = (case value_of p (lit ''--name'') of Some n \<Rightarrow> n | None \<Rightarrow> lit ''f0010''),
                so_model = (case value_of p (lit ''--model'') of Some m \<Rightarrow> m | None \<Rightarrow> lit ''MacBookPro18,3''),
                so_verbose = flag_given p (lit ''--verbose''), so_keys = value_of p (lit ''--keys'')\<rparr>))))))))))"

text \<open>The command send-to-peer runs, behind the sender program's own argv prefix.\<close>

definition send_command :: "'f floats \<Rightarrow> ustr \<Rightarrow> 'f \<Rightarrow> ustr \<Rightarrow> ustr list \<Rightarrow> ustr list \<Rightarrow> ustr list" where [eval_defs]:
  "send_command F target op_timeout name urls files =
     [lit ''--direct'', target, lit ''--op-timeout'', float_str F op_timeout, lit ''--name'', name]
     @ concat (map (\<lambda>u. [lit ''--url'', u]) urls) @ [lit ''--''] @ files"

section \<open>What send-to-peer asks is what airdrop-send does\<close>

lemma lookup_options:
  "lookup_opt SEND_SPEC (lit ''--direct'') = Ok (option_spec_of ''--direct'' None Takes_value)"
  "lookup_opt SEND_SPEC (lit ''--op-timeout'') = Ok (option_spec_of ''--op-timeout'' None Takes_value)"
  "lookup_opt SEND_SPEC (lit ''--name'') = Ok (option_spec_of ''--name'' None Takes_value)"
  "lookup_opt SEND_SPEC (lit ''--url'') = Ok (option_spec_of ''--url'' None Takes_append)"
  by (simp_all add: lookup_opt_def SEND_SPEC_def SEND_OPTS_def HELP_OPT_def option_spec_of_def lit_def)

lemma plain_options:
  "name_and_value (lit ''--direct'') = (lit ''--direct'', None)"
  "name_and_value (lit ''--op-timeout'') = (lit ''--op-timeout'', None)"
  "name_and_value (lit ''--name'') = (lit ''--name'', None)"
  "name_and_value (lit ''--url'') = (lit ''--url'', None)"
  by (simp_all add: name_and_value_def lit_def split_once_Cons split_once_Nil)

lemma dashes_option_like: "option_like (lit ''--'' @ s)"
  by (simp add: option_like_def lit_def)

lemma option_like_options:
  "option_like (lit ''--direct'')" "option_like (lit ''--op-timeout'')" "option_like (lit ''--name'')" "option_like (lit ''--url'')"
  "option_like (lit ''--'')"
  by (simp_all add: option_like_def lit_def)

text \<open>An option and its value are taken together when the value does not look like an option.\<close>

lemma spec_args_value:
  assumes "option_like long" "long \<noteq> lit ''--''" "name_and_value long = (long, None)" "lookup_opt sp long = Ok opt"
    and "op_long opt \<noteq> lit ''--help''" "op_kind opt \<noteq> Takes_flag" "\<not> option_like v \<or> v = lit ''-''"
  shows "spec_args sp False p unknown (long # v # rest) = spec_args sp False (push_value opt v p) unknown rest"
  using assms by (subst spec_args.simps(2)) simp

lemma spec_args_files:
  "spec_args sp True p [] files = Ok (p\<lparr>pd_positionals := pd_positionals p @ files\<rparr>)"
  by (induction files arbitrary: p) (simp_all add: spec_args.simps(2))

lemma spec_args_separator: "spec_args sp False p [] (lit ''--'' # files) = Ok (p\<lparr>pd_positionals := pd_positionals p @ files\<rparr>)"
  using option_like_options(5) by (subst spec_args.simps(2)) (simp add: spec_args_files)

lemma spec_args_urls:
  assumes "\<forall>u \<in> set urls. \<not> option_like u"
  shows "spec_args SEND_SPEC False p unknown (concat (map (\<lambda>u. [lit ''--url'', u]) urls) @ rest)
    = spec_args SEND_SPEC False (fold (push_value (option_spec_of ''--url'' None Takes_append)) urls p) unknown rest"
  using assms
proof (induction urls arbitrary: p)
  case (Cons u urls)
  have "spec_args SEND_SPEC False p unknown (lit ''--url'' # u # concat (map (\<lambda>u. [lit ''--url'', u]) urls) @ rest)
      = spec_args SEND_SPEC False (push_value (option_spec_of ''--url'' None Takes_append) u p) unknown
          (concat (map (\<lambda>u. [lit ''--url'', u]) urls) @ rest)"
    using Cons.prems option_like_options(4) plain_options(4) lookup_options(4)
    by (intro spec_args_value) (simp_all add: option_spec_of_def, simp_all add: lit_def)
  then show ?case using Cons by simp
qed simp

lemma fold_push_values:
  assumes "op_kind opt = Takes_append" "urls \<noteq> []"
  shows "fold (push_value opt) urls p = p\<lparr>pd_values := (pd_values p)(op_long opt \<mapsto> all_of p (op_long opt) @ urls)\<rparr>"
  using assms(2)
proof (induction urls arbitrary: p)
  case (Cons u urls)
  show ?case
  proof (cases "urls = []")
    case True
    then show ?thesis using assms(1) by (simp add: push_value_def fun_upd_def)
  next
    case False
    then show ?thesis using Cons.IH [OF False, of "push_value opt u p"] assms(1) by (simp add: push_value_def all_of_def fun_upd_def cong: if_cong)
  qed
qed simp

definition sent_args :: "'f floats \<Rightarrow> ustr \<Rightarrow> 'f \<Rightarrow> ustr \<Rightarrow> ustr list \<Rightarrow> ustr list \<Rightarrow> parsed" where
  "sent_args F target op_timeout name urls files =
     \<lparr>pd_values = (\<lambda>k. if k = lit ''--url'' then if urls = [] then None else Some urls
                     else [lit ''--direct'' \<mapsto> [target], lit ''--op-timeout'' \<mapsto> [float_str F op_timeout], lit ''--name'' \<mapsto> [name]] k),
      pd_positionals = files\<rparr>"

lemma spec_parse_send_command:
  assumes "\<not> option_like target" "\<not> option_like (float_str F op_timeout)" "\<not> option_like name \<or> name = lit ''-''"
    and "\<forall>u \<in> set urls. \<not> option_like u"
  shows "spec_parse SEND_SPEC (send_command F target op_timeout name urls files) = Ok (sent_args F target op_timeout name urls files)"
proof -
  let ?d = "push_value (option_spec_of ''--direct'' None Takes_value) target no_args"
  let ?t = "push_value (option_spec_of ''--op-timeout'' None Takes_value) (float_str F op_timeout) ?d"
  let ?n = "push_value (option_spec_of ''--name'' None Takes_value) name ?t"
  let ?u = "fold (push_value (option_spec_of ''--url'' None Takes_append)) urls ?n"
  let ?rest = "concat (map (\<lambda>u. [lit ''--url'', u]) urls) @ lit ''--'' # files"
  have "spec_parse SEND_SPEC (send_command F target op_timeout name urls files)
      = spec_args SEND_SPEC False no_args [] (lit ''--direct'' # target # lit ''--op-timeout'' # float_str F op_timeout # lit ''--name'' # name # ?rest)"
    by (simp add: spec_parse_def send_command_def)
  also have "\<dots> = spec_args SEND_SPEC False ?d [] (lit ''--op-timeout'' # float_str F op_timeout # lit ''--name'' # name # ?rest)"
    using assms(1) option_like_options(1) plain_options(1) lookup_options(1)
    by (intro spec_args_value) (simp_all add: option_spec_of_def, simp_all add: lit_def)
  also have "\<dots> = spec_args SEND_SPEC False ?t [] (lit ''--name'' # name # ?rest)"
    using assms(2) option_like_options(2) plain_options(2) lookup_options(2)
    by (intro spec_args_value) (simp_all add: option_spec_of_def, simp_all add: lit_def)
  also have "\<dots> = spec_args SEND_SPEC False ?n [] ?rest"
    using assms(3) option_like_options(3) plain_options(3) lookup_options(3)
    by (intro spec_args_value) (simp_all add: option_spec_of_def, simp_all add: lit_def)
  also have "\<dots> = spec_args SEND_SPEC False ?u [] (lit ''--'' # files)" by (rule spec_args_urls [OF assms(4)])
  also have "\<dots> = Ok (?u\<lparr>pd_positionals := pd_positionals ?u @ files\<rparr>)" by (rule spec_args_separator)
  also have "?u\<lparr>pd_positionals := pd_positionals ?u @ files\<rparr> = sent_args F target op_timeout name urls files"
  proof (cases "urls = []")
    case True
    then show ?thesis by (simp add: sent_args_def push_value_def option_spec_of_def no_args_def fun_eq_iff) (simp add: lit_def)
  next
    case False
    then show ?thesis
      by (simp add: fold_push_values option_spec_of_def, simp add: sent_args_def push_value_def no_args_def all_of_def fun_eq_iff)
         (simp add: lit_def)
  qed
  finally show ?thesis .
qed

end
