(* ===== verification/Peers.thy ===== *)
theory Peers
  imports Commands Contacts "HOL-Library.Product_Lexorder"
begin

text \<open>
  send-to-peer (omdrop-send/src/send_to_peer.rs): the peer table it reads, the link-local address of a peer
  (omdrop-proto/src/net.rs), which peer a request names, and the transfer it starts.

  Parameters: what the radio helper and \<open>ip\<close> print, which names the peers gave, whether the port opened, and the
  sender program. The lookup's threads, the wake and the clock are not modelled.
\<close>

section \<open>Addresses\<close>

definition AIRDROP_PORT :: nat where [eval_defs]:
  "AIRDROP_PORT = 8770"

definition PEER_IFACE :: ustr where [eval_defs]:
  "PEER_IFACE = lit ''awdl0''"

fun mac_parts :: "nat \<Rightarrow> ustr list \<Rightarrow> bytes option" where
  "mac_parts 0 [] = Some []"
| "mac_parts 0 (p # ps) = None"
| "mac_parts (Suc n) [] = None"
| "mac_parts (Suc n) (p # ps) =
     (if p = [] \<or> str_len p > 2 then None
      else case from_str_radix 255 16 p of
             None \<Rightarrow> None
           | Some b \<Rightarrow> map_option ((#) (of_nat b)) (mac_parts n ps))"

definition parse_hw_address :: "ustr \<Rightarrow> bytes option" where [eval_defs]:
  "parse_hw_address mac = mac_parts 6 (split_by (\<lambda>c. c = 0x3a) mac)"

definition eui64_link_local :: "bytes \<Rightarrow> bytes" where [eval_defs]:
  "eui64_link_local m =
     [0xfe, 0x80, 0, 0, 0, 0, 0, 0, xor (m ! 0) 0x02, m ! 1, m ! 2, 0xff, 0xfe, m ! 3, m ! 4, m ! 5]"

text \<open>An IPv6 address as the standard library shows it: the first longest run of two or more zero groups becomes \<open>::\<close>.\<close>

fun groups :: "bytes \<Rightarrow> nat list" where
  "groups (h # l # rest) = (256 * unat h + unat l) # groups rest"
| "groups _ = []"

definition zero_run :: "nat list \<Rightarrow> nat \<times> nat" where [eval_defs]:
  "zero_run gs =
     fold (\<lambda>i (start, len). let l = length (takeWhile (\<lambda>g. g = 0) (drop i gs)) in if l > len then (i, l) else (start, len))
       [0..<length gs] (0, 0)"

definition ipv6_text :: "bytes \<Rightarrow> ustr" where [eval_defs]:
  "ipv6_text a =
     (let gs = groups a; (start, len) = zero_run gs; show_groups = (\<lambda>xs. join (lit '':'') (map (show_radix 16) xs))
      in if len > 1 then show_groups (take start gs) @ lit ''::'' @ show_groups (drop (start + len) gs) else show_groups gs)"

definition link_local :: "ustr \<Rightarrow> bytes option" where [eval_defs]:
  "link_local mac = map_option eui64_link_local (parse_hw_address mac)"

section \<open>The peer table\<close>

definition lower_hex :: "uchar \<Rightarrow> bool" where [eval_defs]:
  "lower_hex c \<longleftrightarrow> is_ascii_digit c \<or> (0x61 \<le> c \<and> c \<le> 0x66)"

definition is_mac :: "ustr \<Rightarrow> bool" where [eval_defs]:
  "is_mac w \<longleftrightarrow> length w = 17 \<and> list_all (\<lambda>j. if j mod 3 = 2 then w ! j = 0x3a else lower_hex (w ! j)) [0..<17]"

text \<open>The bytes of an address are ASCII, so it starts at the same place among the characters.\<close>

definition find_mac :: "ustr \<Rightarrow> nat \<Rightarrow> (nat \<times> ustr) option" where [eval_defs]:
  "find_mac s from =
     map_option (\<lambda>i. (i, take 17 (drop i s))) (find (\<lambda>i. is_mac (take 17 (drop i s))) [from..<length s - 16])"

definition trim_start :: "ustr \<Rightarrow> ustr" where [eval_defs]:
  "trim_start = dropWhile is_whitespace"

text \<open>What follows an address: white space, \<open>rssi=\<close> and a number or a question mark.\<close>

definition rssi_after :: "ustr \<Rightarrow> int option option" where [eval_defs]:
  "rssi_after rest =
     (if length (trim_start rest) < length rest \<and> starts_with (trim_start rest) (lit ''rssi='')
      then (let v = trim_start (drop 5 (trim_start rest))
            in if starts_with v (lit ''?'') then Some None
               else (let neg = starts_with v (lit ''-''); digs = takeWhile is_ascii_digit (dropWhile (\<lambda>c. c = 0x2d) v)
                     in if digs \<noteq> [] \<and> (\<not> neg \<or> str_len v > 1)
                        then (let n = (case parse_i64 digs of Some n \<Rightarrow> n | None \<Rightarrow> 2 ^ 63 - 1) in Some (Some (if neg then - n else n)))
                        else None))
      else None)"

function find_mac_rssi :: "ustr \<Rightarrow> nat \<Rightarrow> (ustr \<times> int option) option" where
  "find_mac_rssi line from =
     (case find_mac line from of
        None \<Rightarrow> None
      | Some (i, mac) \<Rightarrow>
          (case rssi_after (drop (i + 17) line) of
             Some r \<Rightarrow> Some (mac, r)
           | None \<Rightarrow> find_mac_rssi line (i + 1)))"
  by pat_completeness auto
termination
proof (relation "measure (\<lambda>(line, from). length line - from)")
  fix line :: ustr and "from" i mac p
  assume "find_mac line from = Some p" "(i, mac) = p"
  then have "from \<le> i" "i < length line - 16" by (auto simp: find_mac_def find_Some_iff)
  then show "((line, i + 1), (line, from)) \<in> measure (\<lambda>(line, from). length line - from)" by auto
qed simp

declare find_mac_rssi.simps [simp del]

definition put_peer :: "ustr \<times> int option \<Rightarrow> (ustr \<times> int option) list \<Rightarrow> (ustr \<times> int option) list" where [eval_defs]:
  "put_peer peer found =
     (if fst peer \<in> set (map fst found) then map (\<lambda>(m, r). if m = fst peer then (m, snd peer) else (m, r)) found
      else found @ [peer])"

definition parse_peer_table :: "ustr \<Rightarrow> (ustr \<times> int option) list" where [eval_defs]:
  "parse_peer_table text =
     fold (\<lambda>line found. case find_mac_rssi line 0 of Some peer \<Rightarrow> put_peer peer found | None \<Rightarrow> found) (lines text) []"

function parse_neigh :: "ustr \<Rightarrow> ustr list" where
  "parse_neigh rest =
     (case split_once (lit ''lladdr'') rest of
        None \<Rightarrow> []
      | Some (_, after) \<Rightarrow>
          (let trimmed = trim_start after
           in (if length trimmed < length after \<and> is_mac (take 17 trimmed) then [take 17 trimmed] else []) @ parse_neigh after))"
  by pat_completeness auto
termination
proof (relation "measure length")
  fix rest :: ustr and p a "after"
  assume "split_once (lit ''lladdr'') rest = Some p" "(a, after) = p"
  then have "rest = a @ lit ''lladdr'' @ after" by (auto dest: split_once_Some)
  then show "(after, rest) \<in> measure length" by (simp add: lit_def)
qed simp

declare parse_neigh.simps [simp del]

definition signal_key :: "ustr \<times> int option \<Rightarrow> bool \<times> int" where [eval_defs]:
  "signal_key peer = (snd peer = None, - (case snd peer of Some r \<Rightarrow> r | None \<Rightarrow> 0))"

definition merge_peers :: "(ustr \<times> int option) list \<Rightarrow> ustr list \<Rightarrow> ustr option \<Rightarrow> (ustr \<times> int option) list" where [eval_defs]:
  "merge_peers found registered own =
     (let all = fold (\<lambda>mac acc. if mac \<in> set (map fst acc) then acc else acc @ [(mac, None)]) registered found;
          others = (case own of Some me \<Rightarrow> filter (\<lambda>(m, _). m \<noteq> me) all | None \<Rightarrow> all)
      in sort_key signal_key others)"

section \<open>Which peer a request names\<close>

definition NO_DEVICES :: ustr where [eval_defs]:
  "NO_DEVICES =
     lit ''no devices found: nothing nearby is advertising. A window has to be open for the peer watcher to fill this.''"

definition is_address :: "ustr \<Rightarrow> bool" where [eval_defs]:
  "is_address want \<longleftrightarrow> 0x3a \<in> set want \<or> (str_len want = 12 \<and> list_all lower_hex want)"

definition text_contains :: "ustr \<Rightarrow> ustr \<Rightarrow> bool" where [eval_defs]:
  "text_contains s sub \<longleftrightarrow> sub = [] \<or> split_once sub s \<noteq> None"

definition pad_left :: "nat \<Rightarrow> ustr \<Rightarrow> ustr" where [eval_defs]:
  "pad_left w s = replicate (w - length s) 0x20 @ s"

definition signal :: "int option \<Rightarrow> ustr" where [eval_defs]:
  "signal rssi = (case rssi of Some r \<Rightarrow> pad_left 4 (int_text r) @ lit '' dBm'' | None \<Rightarrow> lit ''   ? dBm'')"

text \<open>The peers that a name or a part of an address stands for; \<open>answers\<close> are the names peers gave.\<close>

definition address_matches :: "ustr \<Rightarrow> ustr list \<Rightarrow> ustr list" where [eval_defs]:
  "address_matches want known = filter (\<lambda>m. text_contains m want) known"

definition name_matches :: "(ustr \<Rightarrow> ustr) \<Rightarrow> ustr \<Rightarrow> (ustr \<times> ustr option) list \<Rightarrow> ustr list" where [eval_defs]:
  "name_matches lower want answers =
     map fst (filter (\<lambda>(_, n). case n of Some n' \<Rightarrow> n' \<noteq> [] \<and> text_contains (lower n') want | None \<Rightarrow> False) answers)"

definition nobody_answers :: "ustr \<Rightarrow> (ustr \<times> ustr option) list \<Rightarrow> ustr list" where [eval_defs]:
  "nobody_answers given answers =
     (let named = List.map_filter (\<lambda>(m, n). case n of Some n' \<Rightarrow> if n' = [] then None else Some (m, n') | None \<Rightarrow> None) answers
      in (lit ''no device answering to '' @ [0x22] @ given @ [0x22] @ lit '' is receiving right now.'')
         # (if named = []
            then [lit ''  no peer would give a name: a device is named only while it is receiving, so open AirDrop on it first.'']
            else lit ''  these named themselves:''
                 # map (\<lambda>(m, n). lit ''    '' @ n @ lit ''  ('' @ m @ lit '')'') named))"

definition one_match :: "ustr \<Rightarrow> ustr list \<Rightarrow> (ustr, ustr list) result" where [eval_defs]:
  "one_match given matches =
     (case matches of
        [] \<Rightarrow> Err [given @ lit '' is not in the peer table; --list shows what is'']
      | [mac] \<Rightarrow> Ok mac
      | _ \<Rightarrow> Err (([0x22] @ given @ [0x22] @ lit '' matches more than one device:'') # map (\<lambda>m. lit ''    '' @ m) matches))"

definition only_peer :: "(ustr \<times> int option) list \<Rightarrow> (ustr, ustr list) result" where [eval_defs]:
  "only_peer heard =
     (case heard of
        [(only, _)] \<Rightarrow> Ok only
      | [] \<Rightarrow> Err [NO_DEVICES]
      | _ \<Rightarrow> Err (lit ''several peers heard; choose one with --mac:''
                 # map (\<lambda>(m, rssi). lit ''  '' @ m @ lit ''  '' @ signal rssi) heard))"

text \<open>\<open>ask\<close>: the lookup of names (\<open>peer_names\<close>), in the order the answers came. \<open>Err\<close>: the lines on stderr, exit 2.\<close>

definition choose_peer ::
  "(ustr \<Rightarrow> ustr) \<Rightarrow> (ustr list \<Rightarrow> (ustr \<times> ustr option) list) \<Rightarrow> (ustr \<times> int option) list \<Rightarrow> ustr option \<Rightarrow> (ustr, ustr list) result"
where [eval_defs]:
  "choose_peer lower ask heard wanted =
     (case wanted of
        None \<Rightarrow> only_peer heard
      | Some given \<Rightarrow>
          (let want = lower given; known = map fst heard
           in if is_address want then one_match given (address_matches want known)
              else (let answers = ask known; matches = name_matches lower want answers
                    in if matches = [] then Err (nobody_answers given answers) else one_match given matches)))"

section \<open>The program\<close>

text \<open>
  What the surroundings answered: the table, the lookups, the later readings of the table while
  a listing asked for names, whether the peer's port opened (at once or while waiting), and the sender's exit.
\<close>

record peer_env =
  pe_peers :: "((ustr \<times> int option) list, ustr) result"
  pe_ask :: "ustr list \<Rightarrow> (ustr \<times> ustr option) list"
  pe_rescans :: "(ustr \<times> int option) list list"
  pe_listening :: bool
  pe_opens :: bool
  pe_sender :: "ustr list"
  pe_run :: "ustr list \<Rightarrow> int"
  pe_hostname :: ustr

record peer_result =
  pr_code :: int
  pr_out :: "ustr list"
  pr_err :: "ustr list"
  pr_ran :: "ustr list option"

definition stopped :: "int \<Rightarrow> ustr list \<Rightarrow> ustr list \<Rightarrow> peer_result" where [eval_defs]:
  "stopped code out err = \<lparr>pr_code = code, pr_out = out, pr_err = err, pr_ran = None\<rparr>"

definition exits :: "early_exit \<Rightarrow> peer_result" where [eval_defs]:
  "exits e = (case e of Help_text t \<Rightarrow> stopped 0 [t] [] | Error_text t \<Rightarrow> stopped 2 [] [t])"

definition peer_target :: "bytes \<Rightarrow> nat \<Rightarrow> ustr" where [eval_defs]:
  "peer_target ll port = lit ''['' @ ipv6_text ll @ lit ''%'' @ PEER_IFACE @ lit '']:'' @ dec port"

definition peer_row :: "(ustr \<times> int option) list \<Rightarrow> nat \<Rightarrow> ustr \<Rightarrow> ustr option option \<Rightarrow> ustr" where [eval_defs]:
  "peer_row rssi_of port mac named =
     (let rssi = (case map_of rssi_of mac of Some r \<Rightarrow> r | None \<Rightarrow> None);
          ll = (case link_local mac of Some a \<Rightarrow> ipv6_text a | None \<Rightarrow> [])
      in mac @ lit ''  '' @ signal rssi @ lit ''  ['' @ ll @ lit ''%'' @ PEER_IFACE @ lit '']:'' @ dec port
         @ (case named of
              None \<Rightarrow> []
            | Some got \<Rightarrow>
                lit ''  '' @ (case got of None \<Rightarrow> lit ''(no response)'' | Some [] \<Rightarrow> lit ''(anonymous)'' | Some n \<Rightarrow> n)))"

text \<open>\<open>rows_streamed\<close>: in the order of the answers; else the peers heard first, in order of signal, then newcomers.\<close>

definition listing :: "peer_env \<Rightarrow> (ustr \<times> int option) list \<Rightarrow> nat \<Rightarrow> bool \<Rightarrow> bool \<Rightarrow> peer_result" where [eval_defs]:
  "listing env heard port named streamed =
     (if heard = [] then stopped 1 [NO_DEVICES] []
      else if \<not> named then stopped 0 (map (\<lambda>(m, _). peer_row heard port m None) heard) []
      else (let macs = map fst heard; answers = pe_ask env macs;
                rssi_of = fold (\<lambda>(m, r) acc. if m \<in> set (map fst acc) then acc else acc @ [(m, r)]) (concat (pe_rescans env)) heard
            in if streamed then stopped 0 (map (\<lambda>(m, n). peer_row rssi_of port m (Some n)) answers) []
               else stopped 0
                      (map (\<lambda>m. peer_row rssi_of port m (Some (case map_of (rev answers) m of Some n \<Rightarrow> n | None \<Rightarrow> None)))
                         (macs @ filter (\<lambda>m. m \<notin> set macs) (map fst answers))) []))"

definition what_text :: "ustr list \<Rightarrow> ustr list \<Rightarrow> ustr" where [eval_defs]:
  "what_text urls files =
     (case (if urls = [] then files else urls) of
        [one] \<Rightarrow> one
      | many \<Rightarrow> dec (length many) @ (if urls = [] then lit '' files'' else lit '' links''))"

definition send_to :: "'f floats \<Rightarrow> peer_env \<Rightarrow> parsed \<Rightarrow> nat \<Rightarrow> 'f \<Rightarrow> 'f \<Rightarrow> ustr \<Rightarrow> ustr \<Rightarrow> peer_result" where [eval_defs]:
  "send_to F env p port op_timeout wait name mac =
     (case link_local mac of
        None \<Rightarrow> stopped 2 [] [lit ''not a MAC: '' @ mac]
      | Some ll \<Rightarrow>
          (let target = peer_target ll port; urls = all_of p (lit ''--url''); files = pd_positionals p;
               cmd = pe_sender env @ send_command F target op_timeout name urls files;
               waits = \<not> fl_below_zero F wait \<and> \<not> fl_zero F wait \<and> \<not> fl_nan F wait \<and> \<not> pe_listening env;
               waiting = (if waits then [lit ''waiting up to '' @ fl_fixed F 0 wait @ lit ''s for '' @ mac
                                         @ lit '' to start listening on '' @ dec port] else [])
           in if flag_given p (lit ''--print'') then stopped 0 [join (lit '' '') cmd] []
              else if waits \<and> \<not> pe_opens env
              then stopped 3 [] (waiting @ [mac @ lit '' never opened '' @ dec port
                     @ lit ''; on an iPhone, open a share sheet or receive something to wake sharingd''])
              else \<lparr>pr_code = pe_run env cmd, pr_out = [],
                    pr_err = waiting @ [lit ''sending '' @ what_text urls files @ lit '' to '' @ mac @ lit '' at '' @ target],
                    pr_ran = Some cmd\<rparr>))"

text \<open>The settings of a run: the arguments, the port and the two times.\<close>

definition peer_settings :: "'f floats \<Rightarrow> ustr list \<Rightarrow> (parsed \<times> nat \<times> 'f \<times> 'f, early_exit) result" where [eval_defs]:
  "peer_settings F argv =
     then_ok (spec_parse PEER_SPEC argv) (\<lambda>p.
     then_ok (integer_arg PEER_SPEC p (lit ''--port'') (int AIRDROP_PORT)) (\<lambda>port.
     then_ok (float_arg F PEER_SPEC p (lit ''--op-timeout'') (fl_of F 60)) (\<lambda>op_timeout.
     then_ok (float_arg F PEER_SPEC p (lit ''--wait'') (fl_of F 0)) (\<lambda>wait.
       if port < 0 \<or> port > 65535
       then Err (spec_error PEER_SPEC (lit ''argument --port: invalid port: '' @ int_text port))
       else if fl_nan F wait \<or> fl_below_zero F wait then Ok (p, nat port, op_timeout, wait)
       else then_ok (timeout_arg F PEER_SPEC (lit ''--wait'') wait) (\<lambda>_. Ok (p, nat port, op_timeout, wait))))))"

definition peer_main :: "'f floats \<Rightarrow> (ustr \<Rightarrow> ustr) \<Rightarrow> peer_env \<Rightarrow> ustr list \<Rightarrow> peer_result" where [eval_defs]:
  "peer_main F lower env argv =
     (case peer_settings F argv of
        Err e \<Rightarrow> exits e
      | Ok (p, port, op_timeout, wait) \<Rightarrow>
          (let name = (case value_of p (lit ''--name'') of Some n \<Rightarrow> n | None \<Rightarrow> pe_hostname env);
               urls = all_of p (lit ''--url''); files = pd_positionals p
           in (case pe_peers env of
                 Err msg \<Rightarrow> stopped 4 [] [msg]
               | Ok heard \<Rightarrow>
                   if flag_given p (lit ''--list'')
                   then listing env heard port (flag_given p (lit ''--names'')) (flag_given p (lit ''--stream''))
                   else if files = [] \<and> urls = []
                   then exits (spec_error PEER_SPEC (lit ''a file or --url is required unless --list''))
                   else if files \<noteq> [] \<and> urls \<noteq> []
                   then exits (spec_error PEER_SPEC (lit ''send links and files separately: a transfer carries one or the other''))
                   else (case choose_peer lower (pe_ask env) heard (value_of p (lit ''--mac'')) of
                           Err err \<Rightarrow> stopped 2 [] err
                         | Ok mac \<Rightarrow> send_to F env p port op_timeout wait name mac))))"

text \<open>How airdrop-send takes the target apart (airdrop_send.rs).\<close>

definition trim_brackets :: "ustr \<Rightarrow> ustr" where [eval_defs]:
  "trim_brackets s = trim_end_matches (\<lambda>c. c = 0x5b \<or> c = 0x5d) (dropWhile (\<lambda>c. c = 0x5b \<or> c = 0x5d) s)"

definition split_direct :: "ustr \<Rightarrow> (ustr \<times> nat) option" where [eval_defs]:
  "split_direct direct =
     (if 0x3a \<notin> set direct then None
      else (let port = rev (takeWhile (\<lambda>c. c \<noteq> 0x3a) (rev direct));
                host = take (length direct - length port - 1) direct
            in map_option (\<lambda>n. (trim_brackets host, n)) (from_str_radix 65535 10 (trim port))))"

section \<open>The target is taken apart as it was put together\<close>

lemma trim_none:
  assumes "\<forall>c \<in> set s. \<not> is_whitespace c" shows "trim s = s"
proof -
  have "dropWhile is_whitespace s = s" "dropWhile is_whitespace (rev s) = rev s"
    using assms by (auto simp: dropWhile_eq_self_iff hd_rev)
  then show ?thesis by (simp add: trim_def trim_end_matches_def)
qed

lemma hex_chars_plain: "c \<in> set (show_radix 16 n) \<Longrightarrow> c \<noteq> 0x5b \<and> c \<noteq> 0x5d \<and> c \<noteq> 0x3a"
  by (auto simp: show_radix_def digit_char_def dest!: digits_less [of 16, simplified])

lemma ipv6_text_chars: "c \<in> set (ipv6_text a) \<Longrightarrow> c \<noteq> 0x5b \<and> c \<noteq> 0x5d"
proof -
  have j: "c \<noteq> 0x5b \<and> c \<noteq> 0x5d" if "c \<in> set (join (lit '':'') (map (show_radix 16) xs))" for xs
    using set_join [OF that] hex_chars_plain by (auto simp: lit_def)
  assume "c \<in> set (ipv6_text a)"
  then show ?thesis
    by (auto simp: ipv6_text_def Let_def lit_def [of "''::''"] split: prod.splits if_splits dest!: j)
qed

lemma trim_brackets_around:
  assumes "\<forall>c \<in> set s. c \<noteq> 0x5b \<and> c \<noteq> 0x5d" "s \<noteq> []"
  shows "trim_brackets (lit ''['' @ s @ lit '']'') = s"
proof -
  have "dropWhile (\<lambda>c. c = 0x5b \<or> c = 0x5d) (s @ lit '']'') = s @ lit '']''"
    using assms by (cases s) auto
  moreover have "dropWhile (\<lambda>c. c = 0x5b \<or> c = 0x5d) (rev s) = rev s"
    using assms by (auto simp: dropWhile_eq_self_iff hd_rev)
  ultimately show ?thesis by (simp add: trim_brackets_def trim_end_matches_def lit_def)
qed

lemma split_direct_target:
  assumes "port \<le> 65535"
  shows "split_direct (peer_target ll port) = Some (ipv6_text ll @ lit ''%awdl0'', port)"
proof -
  let ?host = "ipv6_text ll @ lit ''%awdl0''"
  have t: "peer_target ll port = (lit ''['' @ ?host @ lit '']'') @ 0x3a # dec port"
    by (simp add: peer_target_def PEER_IFACE_def lit_def)
  have d: "\<forall>c \<in> set (dec port). is_ascii_digit c" using dec_digit by blast
  then have "0x3a \<notin> set (dec port)" by (auto simp: is_ascii_digit_def)
  then have p: "rev (takeWhile (\<lambda>c. c \<noteq> 0x3a) (rev (peer_target ll port))) = dec port"
    unfolding t by (simp add: takeWhile_rev_no)
  have "trim (dec port) = dec port"
    using d by (intro trim_none) (auto simp: is_ascii_digit_def is_whitespace_def)
  moreover have "trim_brackets (lit ''['' @ ?host @ lit '']'') = ?host"
    using ipv6_text_chars by (intro trim_brackets_around) (auto simp: lit_def)
  moreover have "from_str_radix 65535 10 (dec port) = Some port" using assms by (intro from_str_radix_show) simp_all
  moreover have "0x3a \<in> set (peer_target ll port)" unfolding t by simp
  ultimately show ?thesis unfolding split_direct_def p Let_def by (simp add: t)
qed

lemma target_not_option: "\<not> option_like (peer_target ll port)"
  by (simp add: option_like_def peer_target_def lit_def)

section \<open>Peers heard\<close>

definition macs_only :: "(ustr \<times> int option) list \<Rightarrow> bool" where
  "macs_only peers \<longleftrightarrow> distinct (map fst peers) \<and> (\<forall>m \<in> set (map fst peers). is_mac m)"

lemma find_mac_rssi_mac: "find_mac_rssi line from = Some (m, r) \<Longrightarrow> is_mac m"
proof (induction line "from" rule: find_mac_rssi.induct)
  case (1 line "from")
  obtain i mac where f: "find_mac line from = Some (i, mac)"
    using 1(2) by (subst (asm) find_mac_rssi.simps) (auto split: option.splits)
  then have "is_mac mac" by (auto simp: find_mac_def find_Some_iff)
  then show ?case
    using 1(1) [OF f refl] 1(2) f by (auto simp: find_mac_rssi.simps [of line "from"] split: option.splits)
qed

lemma put_peer_macs:
  assumes "macs_only found" "is_mac m" shows "macs_only (put_peer (m, r) found)"
proof (cases "m \<in> set (map fst found)")
  case True
  then have "map fst (put_peer (m, r) found) = map fst found"
    by (induction found) (auto simp: put_peer_def)
  then show ?thesis using assms by (simp add: macs_only_def)
next
  case False
  then show ?thesis using assms by (auto simp: put_peer_def macs_only_def)
qed

lemma parse_peer_table_macs: "macs_only (parse_peer_table text)"
proof -
  have "macs_only (fold (\<lambda>line found. case find_mac_rssi line 0 of Some peer \<Rightarrow> put_peer peer found | None \<Rightarrow> found) ls found)"
    if "macs_only found" for ls found
    using that
  proof (induction ls arbitrary: found)
    case (Cons l ls)
    have "macs_only (case find_mac_rssi l 0 of Some peer \<Rightarrow> put_peer peer found | None \<Rightarrow> found)"
      using Cons.prems find_mac_rssi_mac [of l 0] put_peer_macs by (auto split: option.splits)
    then show ?case using Cons.IH by simp
  qed simp
  moreover have "macs_only []" by (simp add: macs_only_def)
  ultimately show ?thesis unfolding parse_peer_table_def by blast
qed

lemma parse_neigh_macs: "m \<in> set (parse_neigh s) \<Longrightarrow> is_mac m"
proof (induction s rule: parse_neigh.induct)
  case (1 rest)
  show ?case
  proof (cases "split_once (lit ''lladdr'') rest")
    case None
    then show ?thesis using 1(2) by (simp add: parse_neigh.simps [of rest])
  next
    case (Some p)
    obtain a b where p: "p = (a, b)" by force
    have "m \<in> set (parse_neigh b) \<Longrightarrow> is_mac m" using 1(1) [OF Some] p by simp
    then show ?thesis using 1(2) Some p by (auto simp: parse_neigh.simps [of rest] Let_def split: if_splits)
  qed
qed

text \<open>Sorted by signal, strongest first, unknown last; no address twice; never this machine's own.\<close>

lemma merge_peers_ok:
  assumes "macs_only found" "\<forall>m \<in> set registered. is_mac m"
  shows "macs_only (merge_peers found registered own)" "sorted (map signal_key (merge_peers found registered own))"
    "own = Some me \<Longrightarrow> me \<notin> set (map fst (merge_peers found registered own))"
proof -
  let ?add = "\<lambda>mac acc. if mac \<in> set (map fst acc) then acc else acc @ [(mac, None)]"
  have "macs_only (fold ?add registered found)" using assms
  proof (induction registered arbitrary: found)
    case (Cons m ms)
    have "macs_only (?add m found)" using Cons.prems by (auto simp: macs_only_def)
    then show ?case using Cons.IH [of "?add m found"] Cons.prems by simp
  qed simp
  then have m: "macs_only (case own of Some me \<Rightarrow> filter (\<lambda>(m, _). m \<noteq> me) (fold ?add registered found) | None \<Rightarrow> fold ?add registered found)"
    by (auto simp: macs_only_def distinct_map_filter split: option.splits)
  show "macs_only (merge_peers found registered own)"
    using m unfolding merge_peers_def macs_only_def Let_def by (simp add: distinct_map)
  show "sorted (map signal_key (merge_peers found registered own))" by (simp add: merge_peers_def Let_def)
  show "own = Some me \<Longrightarrow> me \<notin> set (map fst (merge_peers found registered own))" by (auto simp: merge_peers_def Let_def)
qed

lemma mac_parts_ok:
  assumes "\<forall>p \<in> set ps. p \<noteq> [] \<and> str_len p \<le> 2 \<and> (\<exists>n. from_str_radix 255 16 p = Some n)" "length ps = n"
  shows "\<exists>b. mac_parts n ps = Some b \<and> length b = n"
  using assms
proof (induction ps arbitrary: n)
  case (Cons p ps)
  then obtain k b where "mac_parts (length ps) ps = Some b" "length b = length ps" "from_str_radix 255 16 p = Some k" by auto
  then show ?case using Cons.prems by auto
qed simp

section \<open>Which peer is sent to\<close>

lemma one_match_Ok: "one_match given matches = Ok mac \<longleftrightarrow> matches = [mac]"
  by (auto simp: one_match_def split: list.splits)

lemma only_peer_Ok: "only_peer heard = Ok mac \<longleftrightarrow> map fst heard = [mac]"
  by (auto simp: only_peer_def split: list.splits)

lemma choose_peer_Ok:
  "choose_peer lower ask heard wanted = Ok mac \<longleftrightarrow>
     (case wanted of
        None \<Rightarrow> map fst heard = [mac]
      | Some given \<Rightarrow>
          if is_address (lower given) then address_matches (lower given) (map fst heard) = [mac]
          else name_matches lower (lower given) (ask (map fst heard)) = [mac])"
  by (auto simp: choose_peer_def only_peer_Ok one_match_Ok Let_def split: option.splits)

lemma choose_peer_heard:
  assumes "choose_peer lower ask heard wanted = Ok mac" "set (map fst (ask (map fst heard))) \<subseteq> set (map fst heard)"
  shows "mac \<in> set (map fst heard)"
proof (cases wanted)
  case None
  then have "map fst heard = [mac]" using assms(1) by (simp add: choose_peer_Ok)
  then show ?thesis by simp
next
  case (Some given)
  then consider "address_matches (lower given) (map fst heard) = [mac]"
    | "name_matches lower (lower given) (ask (map fst heard)) = [mac]"
    using assms(1) by (auto simp: choose_peer_Ok split: if_splits)
  then show ?thesis
  proof cases
    case 1
    then have "mac \<in> set (address_matches (lower given) (map fst heard))" by simp
    then show ?thesis by (simp add: address_matches_def)
  next
    case 2
    then have "mac \<in> set (name_matches lower (lower given) (ask (map fst heard)))" by simp
    then show ?thesis using assms(2) by (auto simp: name_matches_def)
  qed
qed

text \<open>How a run that started the sender came to it.\<close>

lemma peer_settings_Ok:
  assumes "peer_settings F argv = Ok (p, port, op_timeout, wait)"
  shows "spec_parse PEER_SPEC argv = Ok p" "integer_arg PEER_SPEC p (lit ''--port'') (int AIRDROP_PORT) = Ok (int port)" "port \<le> 65535"
    "float_arg F PEER_SPEC p (lit ''--op-timeout'') (fl_of F 60) = Ok op_timeout"
  using assms by (auto simp: peer_settings_def then_ok_Ok split: if_splits)

lemma send_to_ran:
  assumes "pr_ran (send_to F env p port op_timeout wait name mac) = Some cmd"
  shows "\<exists>ll. link_local mac = Some ll
    \<and> cmd = pe_sender env @ send_command F (peer_target ll port) op_timeout name (all_of p (lit ''--url'')) (pd_positionals p)"
  using assms by (auto simp: send_to_def stopped_def Let_def split: option.splits if_splits)

lemma stopped_not_ran [simp]: "pr_ran (stopped c out err) = None" "pr_ran (exits e) = None"
    "pr_ran (listing env heard port named streamed) = None"
  by (simp_all add: stopped_def exits_def listing_def Let_def split: early_exit.splits)

lemma peer_main_ran:
  assumes "pr_ran (peer_main F lower env argv) = Some cmd"
  obtains p port op_timeout wait heard mac where
    "peer_settings F argv = Ok (p, port, op_timeout, wait)" "pe_peers env = Ok heard"
    "(pd_positionals p = []) \<noteq> (all_of p (lit ''--url'') = [])"
    "choose_peer lower (pe_ask env) heard (value_of p (lit ''--mac'')) = Ok mac"
    "pr_ran (send_to F env p port op_timeout wait
       (case value_of p (lit ''--name'') of Some n \<Rightarrow> n | None \<Rightarrow> pe_hostname env) mac) = Some cmd"
proof (cases "peer_settings F argv")
  case (Err e)
  then show ?thesis using assms by (simp add: peer_main_def)
next
  case (Ok set)
  obtain p port op_timeout wait where s: "set = (p, port, op_timeout, wait)" by (cases set)
  obtain heard where h: "pe_peers env = Ok heard"
    using assms Ok s by (cases "pe_peers env") (simp_all add: peer_main_def Let_def)
  obtain mac where m: "choose_peer lower (pe_ask env) heard (value_of p (lit ''--mac'')) = Ok mac"
    using assms Ok s h by (cases "choose_peer lower (pe_ask env) heard (value_of p (lit ''--mac''))")
      (simp_all add: peer_main_def Let_def split: if_splits)
  show ?thesis
    using assms Ok s h m by (intro that [OF _ h _ m]) (auto simp: peer_main_def Let_def split: if_splits)
qed

section \<open>What was asked is what is sent\<close>

lemma parses_f64_not_dashes: "parses_f64 s \<Longrightarrow> \<not> starts_with s (lit ''--'')"
proof
  assume f: "parses_f64 s" and d: "starts_with s (lit ''--'')"
  then obtain r where "s = 0x2d # 0x2d # r" by (auto simp: starts_with_iff lit_def)
  with f show False
    by (auto simp: parses_f64_def f64_number_def eq_ignore_ascii_case_def to_ascii_lower_def is_ascii_digit_def lit_def)
qed

text \<open>What the programs rely on of floats: shown, a number reads as one again, and small whole numbers are durations.\<close>

definition floats_ok :: "'f floats \<Rightarrow> bool" where
  "floats_ok F \<longleftrightarrow>
     (\<forall>f. parses_f64 (float_str F f) \<and> fl_parse F (trim (float_str F f)) = Some f)
     \<and> (\<forall>n \<le> 100. fl_duration F (fl_of F n) \<and> \<not> fl_nan F (fl_of F n) \<and> \<not> fl_infinite F (fl_of F n) \<and> \<not> fl_below_zero F (fl_of F n))"

lemma float_not_option: "floats_ok F \<Longrightarrow> \<not> option_like (float_str F f)"
  using parses_f64_not_dashes by (auto simp: floats_ok_def option_like_def)

lemma sent_args_values:
  "value_of (sent_args F target t name urls files) (lit ''--direct'') = Some target"
  "value_of (sent_args F target t name urls files) (lit ''--op-timeout'') = Some (float_str F t)"
  "value_of (sent_args F target t name urls files) (lit ''--name'') = Some name"
  "all_of (sent_args F target t name urls files) (lit ''--url'') = urls"
  "pd_positionals (sent_args F target t name urls files) = files"
  by (simp_all add: sent_args_def value_of_def all_of_def, simp_all add: lit_def)

lemma sent_args_nothing_else:
  "value_of (sent_args F target t name urls files) (lit ''--timeout'') = None"
  "value_of (sent_args F target t name urls files) (lit ''--ask-timeout'') = None"
  "value_of (sent_args F target t name urls files) (lit ''--auth-tag'') = None"
  "value_of (sent_args F target t name urls files) (lit ''--af-attempts'') = None"
  "\<not> flag_given (sent_args F target t name urls files) (lit ''--discover-only'')"
  by (simp_all add: sent_args_def value_of_def flag_given_def, simp_all add: lit_def)

lemma open_files_Ok:
  assumes "\<forall>f \<in> set files. \<exists>n. opens f = Opened True n"
  shows "\<exists>outs. open_files opens files = Ok outs \<and> map og_path outs = files"
  using assms
proof (induction files)
  case (Cons f fs)
  then obtain outs n where "open_files opens fs = Ok outs" "map og_path outs = fs" "opens f = Opened True n" by auto
  then show ?case by (simp add: outgoing_new_def)
qed simp

lemma send_command_accepted:
  assumes "floats_ok F" "\<not> option_like name \<or> name = lit ''-''" "\<not> option_like target"
    and "\<forall>u \<in> set urls. \<not> link_refused lower u \<and> \<not> option_like u" "(files = []) \<noteq> (urls = [])"
    and "\<forall>f \<in> set files. \<exists>n. opens f = Opened True n" "distinct (map basename files)"
    and "fl_zero F t \<or> fl_duration F t"
  shows "\<exists>opts. parse_options F lower opens (send_command F target t name urls files) = Ok opts
    \<and> so_urls opts = urls \<and> map og_path (so_files opts) = files \<and> so_direct opts = Some target \<and> so_name opts = name
    \<and> so_op_timeout_secs opts = t \<and> \<not> so_discover_only opts"
proof -
  let ?p = "sent_args F target t name urls files"
  obtain outs where outs: "open_files opens files = Ok outs" "map og_path outs = files"
    using open_files_Ok [OF assms(6)] by blast
  have parsed: "spec_parse SEND_SPEC (send_command F target t name urls files) = Ok ?p"
    using assms(2-4) float_not_option [OF assms(1)] by (intro spec_parse_send_command) blast+
  note vals = sent_args_values [of F target t name urls files] sent_args_nothing_else [of F target t name urls files]
  have "fl_parse F (trim (float_str F t)) = Some t" using assms(1) by (simp add: floats_ok_def)
  then have "float_arg F SEND_SPEC ?p (lit ''--op-timeout'') (fl_of F 20) = Ok t" by (simp add: float_arg_def vals)
  moreover have "float_arg F SEND_SPEC ?p (lit ''--ask-timeout'') (fl_of F 90) = Ok (fl_of F 90)"
    "float_arg F SEND_SPEC ?p (lit ''--timeout'') (fl_of F 60) = Ok (fl_of F 60)" by (simp_all add: float_arg_def vals)
  moreover have "find (link_refused lower) urls = None" using assms(4) by (auto simp: find_None_iff)
  then have "options_refused F lower ?p (fl_of F 60) = None"
    using assms(1,5,7) by (auto simp: options_refused_def vals Let_def floats_ok_def)
  moreover have "auth_tag_of ?p = Ok None" by (simp add: auth_tag_of_def vals)
  moreover have "\<exists>a. timeout_arg F SEND_SPEC (lit ''--ask-timeout'') (fl_of F 90) = Ok a"
    using assms(1) by (simp add: timeout_arg_def floats_ok_def)
  moreover have "\<exists>o'. timeout_arg F SEND_SPEC (lit ''--op-timeout'') t = Ok o'"
    using assms(8) by (auto simp: timeout_arg_def)
  moreover have "integer_arg SEND_SPEC ?p (lit ''--af-attempts'') 1 = Ok 1" by (simp add: integer_arg_def vals)
  ultimately show ?thesis using parsed outs by (auto simp: parse_options_def then_ok_def vals)
qed


text \<open>Whole numbers as floats, for examples.\<close>

definition nat_floats :: "nat floats" where
  "nat_floats =
     \<lparr>fl_of = id, fl_parse = (\<lambda>s. Some (digits_value 10 (map (\<lambda>c. c - 48) (butlast (butlast s))))), fl_show = dec, fl_exp = dec,
      fl_fixed = (\<lambda>_ n. dec n @ lit ''.0''), fl_nan = (\<lambda>_. False), fl_infinite = (\<lambda>_. False), fl_zero = (\<lambda>n. n = 0),
      fl_below_zero = (\<lambda>_. False), fl_moderate = (\<lambda>_. True), fl_whole = (\<lambda>_. True), fl_duration = (\<lambda>_. True)\<rparr>"

lemma nat_floats_ok: "floats_ok nat_floats"
proof -
  have t: "float_str nat_floats n = dec n @ lit ''.0''" for n
    by (simp add: float_str_def nat_floats_def)
  have d: "\<forall>c \<in> set (dec n). is_ascii_digit c" for n using dec_digit by blast
  have "map (\<lambda>c. c - 48) (dec n) = digits 10 n" for n
    using digits_less [of 10 _ n] by (auto simp: show_radix_def digit_char_def intro!: map_idI)
  then have "fl_parse nat_floats (dec n @ lit ''.0'') = Some n" for n
    by (simp add: nat_floats_def lit_def butlast_append)
  moreover have "trim (dec n @ lit ''.0'') = dec n @ lit ''.0''" for n
    using d [of n] by (intro trim_none) (auto simp: is_ascii_digit_def is_whitespace_def lit_def)
  moreover have "parses_f64 (dec n @ lit ''.0'')" for n
  proof -
    have tw: "takeWhile is_ascii_digit (dec n @ lit ''.0'') = dec n" "dropWhile is_ascii_digit (dec n @ lit ''.0'') = lit ''.0''"
      using d [of n] by (simp_all add: lit_def is_ascii_digit_def)
    have "dec n \<noteq> []" by (simp add: show_radix_def)
    then have "f64_number (dec n @ lit ''.0'')"
      unfolding f64_number_def Let_def tw by (simp add: lit_def is_ascii_digit_def f64_exponent_def)
    moreover have "\<not> starts_with (dec n @ lit ''.0'') (lit ''-'')" "\<not> starts_with (dec n @ lit ''.0'') (lit ''+'')"
      using d [of n] \<open>dec n \<noteq> []\<close> by (cases "dec n"; auto simp: lit_def is_ascii_digit_def)+
    ultimately show ?thesis by (simp add: parses_f64_def Let_def)
  qed
  ultimately show ?thesis by (simp add: floats_ok_def t) (simp add: nat_floats_def)
qed

definition lone_peer :: peer_env where
  "lone_peer =
     \<lparr>pe_peers = Ok [(lit ''02:00:00:00:00:01'', Some (- 40))], pe_ask = (\<lambda>_. []), pe_rescans = [], pe_listening = True, pe_opens = False,
      pe_sender = [lit ''airdrop-send''], pe_run = (\<lambda>_. 0), pe_hostname = lit ''here''\<rparr>"

lemma lone_peer_parsed: "spec_parse PEER_SPEC [lit ''--'', lit ''-x''] = Ok \<lparr>pd_values = Map.empty, pd_positionals = [lit ''-x'']\<rparr>"
  by (simp add: spec_parse_def spec_args.simps option_like_def no_args_def lit_def)

lemma lone_peer_ran: "pr_ran (peer_main nat_floats id lone_peer [lit ''--'', lit ''-x'']) \<noteq> None"
proof -
  let ?p = "\<lparr>pd_values = Map.empty, pd_positionals = [lit ''-x'']\<rparr>"
  have s: "peer_settings nat_floats [lit ''--'', lit ''-x''] = Ok (?p, 8770, 60, 0)"
    by (simp add: peer_settings_def then_ok_def lone_peer_parsed integer_arg_def float_arg_def value_of_def timeout_arg_def
        AIRDROP_PORT_def nat_floats_def)
  have e: "pe_peers lone_peer = Ok [(lit ''02:00:00:00:00:01'', Some (- 40))]" "pe_hostname lone_peer = lit ''here''" "pe_listening lone_peer"
    by (simp_all add: lone_peer_def)
  have c: "choose_peer id (pe_ask lone_peer) [(lit ''02:00:00:00:00:01'', Some (- 40))] None = Ok (lit ''02:00:00:00:00:01'')"
    by (simp add: choose_peer_def only_peer_def)
  have "link_local (lit ''02:00:00:00:00:01'') \<noteq> None"
    by (simp add: link_local_def parse_hw_address_def eval_nat_numeral lit_def eval_defs)
  then have "pr_ran (send_to nat_floats lone_peer ?p 8770 60 0 (lit ''here'') (lit ''02:00:00:00:00:01'')) \<noteq> None"
    using e(3) by (auto simp: send_to_def Let_def flag_given_def)
  then show ?thesis
    by (simp add: peer_main_def s e c value_of_def all_of_def flag_given_def)
qed


text \<open>
  C33. A transfer starts only to a peer that was heard, never to this machine, and only when the request
  leaves no choice: the peer is the only one heard, or the only one whose address holds the part given, or the only
  one whose name holds the name given. The command dials that peer's own link-local address.
\<close>

theorem sends_to_the_one_peer:
  assumes "pr_ran (peer_main F lower env argv) = Some cmd" "spec_parse PEER_SPEC argv = Ok p"
    and "heard = merge_peers (parse_peer_table table) (parse_neigh neigh) own" "pe_peers env = Ok heard"
    and "set (map fst (pe_ask env (map fst heard))) \<subseteq> set (map fst heard)"
  shows "\<exists>mac ll port rest. mac \<in> set (map fst heard) \<and> is_mac mac \<and> own \<noteq> Some mac \<and> link_local mac = Some ll
    \<and> cmd = pe_sender env @ lit ''--direct'' # peer_target ll port # rest
    \<and> (case value_of p (lit ''--mac'') of
         None \<Rightarrow> map fst heard = [mac]
       | Some given \<Rightarrow>
           if is_address (lower given) then address_matches (lower given) (map fst heard) = [mac]
           else name_matches lower (lower given) (pe_ask env (map fst heard)) = [mac])"
proof -
  obtain q port u wait heard' mac where r: "peer_settings F argv = Ok (q, port, u, wait)" "pe_peers env = Ok heard'"
    "choose_peer lower (pe_ask env) heard' (value_of q (lit ''--mac'')) = Ok mac"
    "pr_ran (send_to F env q port u wait
       (case value_of q (lit ''--name'') of Some n \<Rightarrow> n | None \<Rightarrow> pe_hostname env) mac) = Some cmd"
    using peer_main_ran [OF assms(1)] by metis
  have q: "q = p" "heard' = heard" using peer_settings_Ok(1) [OF r(1)] assms(2,4) r(2) by simp_all
  have c: "choose_peer lower (pe_ask env) heard (value_of p (lit ''--mac'')) = Ok mac" using r(3) q by simp
  have m: "mac \<in> set (map fst heard)" by (rule choose_peer_heard [OF c assms(5)])
  note ok = merge_peers_ok [OF parse_peer_table_macs, where registered = "parse_neigh neigh" and own = own]
  have "\<forall>m \<in> set (parse_neigh neigh). is_mac m" using parse_neigh_macs by blast
  then have "is_mac mac" "own \<noteq> Some mac" using ok(1,3) m unfolding assms(3) macs_only_def by blast+
  moreover obtain ll where "link_local mac = Some ll"
    "cmd = pe_sender env @ lit ''--direct'' # peer_target ll port # drop 2 (send_command F (peer_target ll port) u
       (case value_of q (lit ''--name'') of Some n \<Rightarrow> n | None \<Rightarrow> pe_hostname env) (all_of q (lit ''--url'')) (pd_positionals q))"
    using send_to_ran [OF r(4)] by (auto simp: send_command_def)
  ultimately show ?thesis using m c unfolding choose_peer_Ok by blast
qed

lemma sample_table:
  "parse_peer_table (lit ''02:00:00:00:00:01 rssi=-40'') = [(lit ''02:00:00:00:00:01'', Some (- 40))]" (is "parse_peer_table ?l = _")
proof -
  have mac: "is_mac (take 17 ?l)"
    by (simp add: is_mac_def lit_def lower_hex_def is_ascii_digit_def upt_rec nth_Cons')
  have "[0..<length ?l - 16] = 0 # [1..<length ?l - 16]" by (simp add: lit_def upt_conv_Cons)
  then have m: "find_mac ?l 0 = Some (0, take 17 ?l)"
    using mac by (simp add: find_mac_def)
  have "parse_i64 [52, 48] = Some 40"
    by (simp add: parse_i64_def from_str_radix_def parse_digits_def is_digit_in_def lit_def to_digit_def digits_value_def)
  then have r: "rssi_after (drop 17 ?l) = Some (Some (- 40))"
    by (simp add: rssi_after_def trim_start_def is_whitespace_def lit_def is_ascii_digit_def utf8_len_def Let_def)
  have "lines ?l = [?l]" by (simp add: lines_def lit_def)
  moreover have "find_mac_rssi ?l 0 = Some (take 17 ?l, Some (- 40))" using m r by (simp add: find_mac_rssi.simps [of ?l 0])
  ultimately show ?thesis by (simp add: parse_peer_table_def put_peer_def) (simp add: lit_def)
qed

theorem sends_to_the_one_peer_witness:
  "\<exists>cmd ll port rest. pr_ran (peer_main nat_floats id lone_peer [lit ''--'', lit ''-x'']) = Some cmd
    \<and> link_local (lit ''02:00:00:00:00:01'') = Some ll \<and> cmd = lit ''airdrop-send'' # lit ''--direct'' # peer_target ll port # rest"
proof -
  obtain cmd where c: "pr_ran (peer_main nat_floats id lone_peer [lit ''--'', lit ''-x'']) = Some cmd"
    using lone_peer_ran by blast
  let ?t = "lit ''02:00:00:00:00:01 rssi=-40''"
  have n: "parse_neigh [] = []" by (subst parse_neigh.simps) (simp add: split_once_Nil)
  have h: "merge_peers (parse_peer_table ?t) (parse_neigh []) None = [(lit ''02:00:00:00:00:01'', Some (- 40))]"
    by (simp add: merge_peers_def sample_table n)
  have p: "pe_peers lone_peer = Ok (merge_peers (parse_peer_table ?t) (parse_neigh []) None)" unfolding h by (simp add: lone_peer_def)
  have a: "set (map fst (pe_ask lone_peer (map fst (merge_peers (parse_peer_table ?t) (parse_neigh []) None))))
      \<subseteq> set (map fst (merge_peers (parse_peer_table ?t) (parse_neigh []) None))" by (simp add: lone_peer_def)
  have "pe_sender lone_peer = [lit ''airdrop-send'']" by (simp add: lone_peer_def)
  then show ?thesis
    using sends_to_the_one_peer [OF c lone_peer_parsed refl p a] c unfolding h by auto
qed

end
