(* ===== verification/Asks.thy ===== *)
theory Asks
  imports Commands Gate
begin

text \<open>
  The sender's requests (omdrop-send/src/client.rs): the headers of a POST, the property lists of
  /Discover and of the two kinds of /Ask, and what of the receiver's answer is used. The parameter is the
  \<open>plist\<close> crate's binary writer; \<open>plist::Dictionary\<close> is its entries in order, as in Plist.
\<close>

section \<open>Requests\<close>

definition HEADERS :: "(ustr \<times> ustr) list" where [eval_defs]:
  "HEADERS =
     [(lit ''Content-Type'', lit ''application/octet-stream''), (lit ''Connection'', lit ''keep-alive''), (lit ''Accept'', lit ''*/*''),
      (lit ''User-Agent'', lit ''AirDrop/1.0''), (lit ''Accept-Language'', lit ''en-us''),
      (lit ''Accept-Encoding'', lit ''br, gzip, deflate'')]"

definition DEVICE_SUPPORT_FLAGS :: int where [eval_defs]:
  "DEVICE_SUPPORT_FLAGS = 111611"

record sender =
  sd_record :: "bytes option"
  sd_computer_name :: ustr
  sd_computer_model :: ustr
  sd_service_id :: ustr
  sd_auth_tag :: "bytes option"
  sd_should_convert :: bool

fun put_header :: "ustr \<times> ustr \<Rightarrow> (ustr \<times> ustr) list \<Rightarrow> (ustr \<times> ustr) list" where
  "put_header (k, v) [] = [(k, v)]"
| "put_header (k, v) ((h, w) # hs) = (if eq_ignore_ascii_case h k then (h, v) # hs else (h, w) # put_header (k, v) hs)"

definition request_headers :: "(ustr \<times> ustr) list \<Rightarrow> (ustr \<times> ustr) list" where [eval_defs]:
  "request_headers extra = fold put_header extra HEADERS"

definition upload_headers :: "outgoing list \<Rightarrow> ustr \<Rightarrow> (ustr \<times> ustr) list" where [eval_defs]:
  "upload_headers files tid =
     [(lit ''Content-Type'', lit ''application/x-dvzip''), (lit ''TotalBytes'', dec (sum_list (map og_size files))), (lit ''TransferID'', tid)]"

text \<open>A UUID of the fourth version, from sixteen random bytes.\<close>

definition HEX_DIGITS :: ustr where [eval_defs]:
  "HEX_DIGITS = lit ''0123456789ABCDEF''"

definition upper_hex :: "8 word \<Rightarrow> ustr" where [eval_defs]:
  "upper_hex b = [HEX_DIGITS ! (unat b div 16), HEX_DIGITS ! (unat b mod 16)]"

definition transfer_id :: "bytes \<Rightarrow> ustr" where [eval_defs]:
  "transfer_id random =
     (let b = random[6 := or (and (random ! 6) 0x0f) 0x40, 8 := or (and (random ! 8) 0x3f) 0x80];
          h = concat (map upper_hex b)
      in take 8 h @ lit ''-'' @ take 4 (drop 8 h) @ lit ''-'' @ take 4 (drop 12 h) @ lit ''-'' @ take 4 (drop 16 h)
         @ lit ''-'' @ take 12 (drop 20 h))"

definition uti_extension :: "ustr \<Rightarrow> ustr" where [eval_defs]:
  "uti_extension name =
     (if 0x2e \<notin> set name then []
      else (let after = length (takeWhile (\<lambda>c. c \<noteq> 0x2e) (rev name)); stem = take (length name - after - 1) name
            in if dropWhile (\<lambda>c. c = 0x2e) stem = [] then [] else map to_ascii_lower (drop (length stem) name)))"

definition uti :: "ustr \<Rightarrow> ustr" where [eval_defs]:
  "uti name =
     (let ext = uti_extension name
      in if ext = lit ''.jpg'' \<or> ext = lit ''.jpeg'' then lit ''public.jpeg'' else if ext = lit ''.png'' then lit ''public.png''
         else if ext = lit ''.heic'' then lit ''public.heic'' else if ext = lit ''.mov'' then lit ''com.apple.quicktime-movie''
         else if ext = lit ''.mp4'' then lit ''public.mpeg-4'' else if ext = lit ''.pdf'' then lit ''com.adobe.pdf''
         else if ext = lit ''.txt'' then lit ''public.plain-text'' else lit ''public.data'')"

text \<open>\<open>Dictionary::sort_keys\<close>, and inserting entries one after the other.\<close>

definition sort_keys :: "(ustr \<times> pvalue) list \<Rightarrow> (ustr \<times> pvalue) list" where [eval_defs]:
  "sort_keys d = sort_key fst d"

definition inserted :: "(ustr \<times> pvalue) list \<Rightarrow> (ustr \<times> pvalue) list \<Rightarrow> (ustr \<times> pvalue) list" where [eval_defs]:
  "inserted entries d = fold (\<lambda>(k, v). dict_insert k v) entries d"

definition plist_binary :: "(pvalue \<Rightarrow> bytes) \<Rightarrow> (ustr \<times> pvalue) list \<Rightarrow> bytes" where [eval_defs]:
  "plist_binary enc d = enc (PDict (sort_keys d))"

definition discover_dict :: "sender \<Rightarrow> (ustr \<times> pvalue) list" where [eval_defs]:
  "discover_dict sd =
     (lit ''DeviceSupportFlags'', PInt DEVICE_SUPPORT_FLAGS)
     # (case sd_record sd of Some r \<Rightarrow> [(lit ''SenderRecordData'', PData r)] | None \<Rightarrow> [])"

text \<open>What the receiver is called, of a parsed answer; a refusal has no property list, which is the error reported.\<close>

definition discovered :: "plist_reader \<Rightarrow> bytes \<Rightarrow> (ustr option, ustr) result" where [eval_defs]:
  "discovered reader resp =
     (case parse_plist reader resp of
        Err _ \<Rightarrow> Err (lit ''InvalidFileException'')
      | Ok (PDict d) \<Rightarrow>
          Ok (case dict_get d (lit ''ReceiverComputerName'') of
                Some (PString s) \<Rightarrow> Some s
              | Some (PInt i) \<Rightarrow> Some (int_text i)
              | _ \<Rightarrow> None)
      | Ok _ \<Rightarrow> Err (lit ''AttributeError''))"

definition ask_common :: "sender \<Rightarrow> (ustr \<times> pvalue) list \<Rightarrow> (ustr \<times> pvalue) list" where [eval_defs]:
  "ask_common sd d =
     inserted ((case sd_record sd of Some r \<Rightarrow> [(lit ''SenderRecordData'', PData r)] | None \<Rightarrow> [])
               @ (case sd_auth_tag sd of Some t \<Rightarrow> [(lit ''SenderIdentityAuthTag'', PData t)] | None \<Rightarrow> [])) d"

definition file_entry :: "sender \<Rightarrow> outgoing \<Rightarrow> pvalue" where [eval_defs]:
  "file_entry sd f =
     PDict (sort_keys (inserted
       ([(lit ''FileName'', PString (og_name f)), (lit ''FileType'', PString (uti (og_name f))), (lit ''FileSize'', PInt (int (og_size f))),
         (lit ''FileBomPath'', PString (lit ''./'' @ og_name f)), (lit ''FileIsDirectory'', PBool False),
         (lit ''ConvertMediaFormats'', PBool False)]
        @ (if sd_should_convert sd then [(lit ''ShouldConvertMediaFormats'', PBool False)] else [])) []))"

text \<open>\<open>icon\<close>: the thumbnail of the first file, if one was made.\<close>

definition ask_files_dict :: "sender \<Rightarrow> ustr \<Rightarrow> bytes option \<Rightarrow> outgoing list \<Rightarrow> (ustr \<times> pvalue) list" where [eval_defs]:
  "ask_files_dict sd tid icon files =
     (let body = ask_common sd (inserted
        [(lit ''TransferID'', PDict [(lit ''id'', PString tid)]), (lit ''TransferType'', PDict [(lit ''files'', PDict [])]),
         (lit ''SenderID'', PString (sd_service_id sd)), (lit ''BundleID'', PString (lit ''com.apple.finder'')),
         (lit ''SenderComputerName'', PString (sd_computer_name sd)), (lit ''SenderModelName'', PString (sd_computer_model sd)),
         (lit ''Items'', PArray []), (lit ''Files'', PArray (map (file_entry sd) files)), (lit ''ConvertMediaFormats'', PBool False)] [])
      in case (if files = [] then None else icon) of Some i \<Rightarrow> dict_insert (lit ''FileIcon'') (PData i) body | None \<Rightarrow> body)"

definition ask_links_dict :: "sender \<Rightarrow> ustr \<Rightarrow> ustr list \<Rightarrow> (ustr \<times> pvalue) list" where [eval_defs]:
  "ask_links_dict sd tid urls =
     ask_common sd (inserted
       [(lit ''TransferID'', PDict [(lit ''id'', PString tid)]), (lit ''TransferType'', PDict [(lit ''links'', PDict [])]),
        (lit ''SenderID'', PString (sd_service_id sd)), (lit ''BundleID'', PString (lit ''com.apple.Safari'')),
        (lit ''SenderComputerName'', PString (sd_computer_name sd)), (lit ''SenderModelName'', PString (sd_computer_model sd)),
        (lit ''Items'', PArray (map PString urls)), (lit ''ConvertMediaFormats'', PBool False)] [])"

section \<open>Dictionaries\<close>

lemma sort_keys_get: "distinct (map fst d) \<Longrightarrow> dict_get (sort_keys d) k = dict_get d k"
proof -
  assume d: "distinct (map fst d)"
  have "distinct (map fst (sort_key fst d))" using d by (simp add: distinct_map)
  then show ?thesis using d unfolding dict_get_def sort_keys_def
    by (metis map_of_eq_None_iff map_of_is_SomeI map_of_SomeD option.exhaust set_sort set_map)
qed

lemma sort_keys_distinct: "distinct (map fst d) \<Longrightarrow> distinct (map fst (sort_keys d))"
  by (simp add: sort_keys_def distinct_map)

lemma sort_keys_sum: "sum_list (map g (sort_keys d)) = (sum_list (map g d) :: nat)"
proof -
  have i: "sum_list (map g (insort_key fst e es)) = g e + sum_list (map g es)" for e :: "ustr \<times> pvalue" and es
    by (induction es) auto
  show ?thesis unfolding sort_keys_def by (induction d) (simp_all add: i)
qed

lemma sort_keys_events:
  "length (value_events (PDict (sort_keys d))) = length (value_events (PDict d))"
  "cost_of (value_events (PDict (sort_keys d))) = cost_of (value_events (PDict d))"
proof -
  have "cost_of (concat (map f d)) = sum_list (map (\<lambda>e. cost_of (f e)) d)" for f :: "ustr \<times> pvalue \<Rightarrow> event list" and d
    by (induction d) simp_all
  then show "cost_of (value_events (PDict (sort_keys d))) = cost_of (value_events (PDict d))"
    using sort_keys_sum [of "\<lambda>e. cost_of (case e of (k, v) \<Rightarrow> EString k # value_events v)" d] by simp
  show "length (value_events (PDict (sort_keys d))) = length (value_events (PDict d))"
    using sort_keys_sum [of "\<lambda>e. length (case e of (k, v) \<Rightarrow> EString k # value_events v)" d] by (simp add: length_concat comp_def)
qed

lemma sort_keys_set [simp]: "set (sort_keys d) = set d"
  by (simp add: sort_keys_def)

lemma sort_keys_depth: "value_depth (PDict (sort_keys d)) = value_depth (PDict d)"
  by simp

section \<open>A links Ask\<close>

lemma inserted_new: "distinct (map fst (d @ es)) \<Longrightarrow> inserted es d = d @ es"
proof (induction es arbitrary: d)
  case (Cons e es)
  have "fst e \<notin> set (map fst d)" "distinct (map fst ((d @ [e]) @ es))" using Cons.prems by auto
  then show ?case using Cons.IH [of "d @ [e]"] dict_insert_new [of "fst e" d "snd e"] by (simp add: inserted_def split_def)
qed (simp add: inserted_def)

lemma depth_bound:
  "(\<And>k v. (k, v) \<in> set d \<Longrightarrow> value_depth v \<le> n) \<Longrightarrow> value_depth (PDict d) \<le> Suc n"
  "(\<And>v. v \<in> set vs \<Longrightarrow> value_depth v \<le> n) \<Longrightarrow> value_depth (PArray vs) \<le> Suc n"
  by (auto intro!: Max.boundedI)

definition links_entries :: "sender \<Rightarrow> ustr \<Rightarrow> ustr list \<Rightarrow> (ustr \<times> pvalue) list" where
  "links_entries sd tid urls =
     [(lit ''TransferID'', PDict [(lit ''id'', PString tid)]), (lit ''TransferType'', PDict [(lit ''links'', PDict [])]),
      (lit ''SenderID'', PString (sd_service_id sd)), (lit ''BundleID'', PString (lit ''com.apple.Safari'')),
      (lit ''SenderComputerName'', PString (sd_computer_name sd)), (lit ''SenderModelName'', PString (sd_computer_model sd)),
      (lit ''Items'', PArray (map PString urls)), (lit ''ConvertMediaFormats'', PBool False)]"

definition own_entries :: "sender \<Rightarrow> (ustr \<times> pvalue) list" where
  "own_entries sd =
     (case sd_record sd of Some r \<Rightarrow> [(lit ''SenderRecordData'', PData r)] | None \<Rightarrow> [])
     @ (case sd_auth_tag sd of Some t \<Rightarrow> [(lit ''SenderIdentityAuthTag'', PData t)] | None \<Rightarrow> [])"

lemma links_keys: "distinct (map fst (links_entries sd tid urls @ own_entries sd))"
proof -
  have "distinct (map fst (links_entries sd tid urls) @ [lit ''SenderRecordData'', lit ''SenderIdentityAuthTag''])"
    unfolding links_entries_def by code_simp
  then show ?thesis by (cases "sd_record sd"; cases "sd_auth_tag sd") (simp_all add: own_entries_def)
qed

lemma ask_links_entries: "ask_links_dict sd tid urls = links_entries sd tid urls @ own_entries sd"
proof -
  have k: "distinct (map fst (links_entries sd tid urls))" using links_keys [of sd tid urls] by simp
  have i: "inserted (links_entries sd tid urls) [] = links_entries sd tid urls" using inserted_new [of "[]"] k by simp
  have "inserted (own_entries sd) (links_entries sd tid urls) = links_entries sd tid urls @ own_entries sd"
    by (rule inserted_new [OF links_keys])
  then show ?thesis using i unfolding ask_links_dict_def ask_common_def own_entries_def links_entries_def by simp
qed

lemma ask_links_distinct: "distinct (map fst (ask_links_dict sd tid urls))"
  unfolding ask_links_entries by (rule links_keys)

lemma own_entries_data: "(k, v) \<in> set (own_entries sd) \<Longrightarrow> \<exists>b. v = PData b"
  by (auto simp: own_entries_def split: option.splits)

lemma ask_links_values:
  "(k, v) \<in> set (ask_links_dict sd tid urls) \<Longrightarrow>
     v = PDict [(lit ''id'', PString tid)] \<or> v = PDict [(lit ''links'', PDict [])] \<or> v = PArray (map PString urls) \<or> v = PBool False
     \<or> (\<exists>s. v = PString s) \<or> (\<exists>b. v = PData b)"
  unfolding ask_links_entries using own_entries_data [of k v sd] by (auto simp: links_entries_def)

lemma ask_links_depth: "value_depth (PDict (ask_links_dict sd tid urls)) \<le> 3"
proof -
  have a: "value_depth (PArray (map PString urls)) \<le> Suc 0" by (rule depth_bound(2)) auto
  have "value_depth (PDict (ask_links_dict sd tid urls)) \<le> Suc 2"
  proof (rule depth_bound(1))
    fix k v assume "(k, v) \<in> set (ask_links_dict sd tid urls)"
    from ask_links_values [OF this] show "value_depth v \<le> 2" using a by (elim disjE exE) (simp_all del: value_depth.simps(7))
  qed
  then show ?thesis by simp
qed

lemma ask_links_ok: "value_ok (PDict (ask_links_dict sd tid urls))"
proof -
  have "value_ok v" if "(k, v) \<in> set (ask_links_dict sd tid urls)" for k v
    using ask_links_values [OF that] by (elim disjE exE) auto
  then show ?thesis using ask_links_distinct [of sd tid urls] by auto
qed

lemma ask_links_length: "length (value_events (PDict (ask_links_dict sd tid urls))) \<le> 40 + length urls"
proof -
  have e: "length (concat (map value_events (map PString urls))) = length urls" by (induction urls) simp_all
  have o: "length (concat (map (\<lambda>(k, v). EString k # value_events v) (own_entries sd))) \<le> 4"
    by (cases "sd_record sd"; cases "sd_auth_tag sd") (simp_all add: own_entries_def)
  have "length (concat (map (\<lambda>(k, v). EString k # value_events v) (links_entries sd tid urls))) \<le> 34 + length urls"
    using e by (simp add: links_entries_def)
  then show ?thesis unfolding ask_links_entries using o by simp
qed

lemma ask_links_get:
  "dict_get (sort_keys (ask_links_dict sd tid urls)) (lit ''Items'') = Some (PArray (map PString urls))"
  "dict_get (sort_keys (ask_links_dict sd tid urls)) (lit ''TransferType'') = Some (PDict [(lit ''links'', PDict [])])"
proof -
  have m: "(lit ''Items'', PArray (map PString urls)) \<in> set (ask_links_dict sd tid urls)"
    "(lit ''TransferType'', PDict [(lit ''links'', PDict [])]) \<in> set (ask_links_dict sd tid urls)"
    unfolding ask_links_entries links_entries_def by simp_all
  then show "dict_get (sort_keys (ask_links_dict sd tid urls)) (lit ''Items'') = Some (PArray (map PString urls))"
    "dict_get (sort_keys (ask_links_dict sd tid urls)) (lit ''TransferType'') = Some (PDict [(lit ''links'', PDict [])])"
    unfolding sort_keys_get [OF ask_links_distinct] unfolding dict_get_def
    by (auto intro!: map_of_is_SomeI [OF ask_links_distinct])
qed

section \<open>Discover's answer and the transfer's name\<close>

text \<open>The name airdrop-send reads out of the receiver's answer to /Discover is the receiver's.\<close>

lemma discovered_answer:
  assumes "reader resp = map Ok (value_events (PDict (discover_answer st)))" "length resp < 2 ^ 61"
    and "cost_of (value_events (PDict (discover_answer st))) \<le> 4 * 1024 * 1024"
  shows "discovered reader resp = Ok (Some (st_name st))"
proof -
  have v: "value_ok (PDict (discover_answer st))" "length (value_events (PDict (discover_answer st))) \<le> 200000"
    "value_depth (PDict (discover_answer st)) \<le> 32"
    by (cases "st_record st"; simp add: discover_answer_def base_answer_def lit_def)+
  have "dict_get (discover_answer st) (lit ''ReceiverComputerName'') = Some (PString (st_name st))"
    by (simp add: discover_answer_def base_answer_def dict_get_def)
  with plist_read_back [where v = "PDict (discover_answer st)" and data = resp and reader = reader, OF assms(1) v assms(3,2)] show ?thesis by (simp add: discovered_def)
qed

lemma upper_hex_digits: "length (upper_hex b) = 2" "set (upper_hex b) \<subseteq> set HEX_DIGITS"
proof -
  have "unat b < 256" using unsigned_less [of b, where ?'a = nat] by simp
  then have "unat b div 16 < length HEX_DIGITS" "unat b mod 16 < length HEX_DIGITS" by (simp_all add: HEX_DIGITS_def lit_def)
  then show "set (upper_hex b) \<subseteq> set HEX_DIGITS" by (simp add: upper_hex_def del: length_greater_0_conv)
qed (simp add: upper_hex_def)

text \<open>A transfer's name comes through the receiver's \<open>transfer_label\<close> unchanged.\<close>

lemma transfer_id_label:
  assumes "length b = 16"
  shows "length (transfer_id b) = 36" "transfer_label (transfer_id b) = transfer_id b"
proof -
  define h where "h = concat (map upper_hex (b[6 := or (and (b ! 6) 0x0f) 0x40, 8 := or (and (b ! 8) 0x3f) 0x80]))"
  have "length h = sum_list (map (\<lambda>_. 2) (b[6 := or (and (b ! 6) 0x0f) 0x40, 8 := or (and (b ! 8) 0x3f) 0x80]))"
    unfolding h_def length_concat map_map comp_def upper_hex_digits(1) ..
  then have lh: "length h = 32" using assms by (simp add: sum_list_triv)
  have sh: "set h \<subseteq> set HEX_DIGITS" unfolding h_def using upper_hex_digits(2) by (auto dest!: subsetD)
  have t: "transfer_id b = take 8 h @ lit ''-'' @ take 4 (drop 8 h) @ lit ''-'' @ take 4 (drop 12 h) @ lit ''-'' @ take 4 (drop 16 h)
         @ lit ''-'' @ take 12 (drop 20 h)" by (simp add: transfer_id_def h_def Let_def)
  show l: "length (transfer_id b) = 36" using lh unfolding t by (simp add: lit_def)
  have "set (transfer_id b) \<subseteq> set HEX_DIGITS \<union> {0x2d}"
    using sh unfolding t by (auto simp: lit_def dest!: in_set_takeD in_set_dropD)
  moreover have "\<forall>c \<in> set HEX_DIGITS \<union> {0x2d}. is_ascii_alphanumeric c \<or> c = 0x2d \<or> c = 0x5f \<or> c = 0x2e" by (simp add: eval_defs)
  moreover have "(0x2e::nat) \<notin> set HEX_DIGITS \<union> {0x2d}" by (simp add: eval_defs)
  ultimately have f: "filter (\<lambda>c. is_ascii_alphanumeric c \<or> c = 0x2d \<or> c = 0x5f \<or> c = 0x2e) (transfer_id b) = transfer_id b"
    "0x2e \<notin> set (transfer_id b)" by (auto intro: filter_True)
  have "transfer_id b \<noteq> []" using l by auto
  moreover have "dropWhile (\<lambda>c. c = 0x2e) (transfer_id b) = transfer_id b"
    using f(2) by (cases "transfer_id b") auto
  ultimately show "transfer_label (transfer_id b) = transfer_id b"
    using l unfolding transfer_label_def f(1) by simp
qed

section \<open>What the receiver does with it\<close>

abbreviation sendable :: "ustr \<Rightarrow> bool" where
  "sendable u \<equiv> is_link (PString u) = Some u"

lemma is_link_text: "is_link (PString u) = (if sendable u then Some u else None)"
  by (simp add: is_link_def)

definition stored_as :: "files \<Rightarrow> ustr list \<Rightarrow> ustr list \<Rightarrow> files \<Rightarrow> bool" where
  "stored_as F names urls G \<longleftrightarrow>
     length names = length urls \<and> distinct names \<and> (\<forall>n \<in> set names. visible_name n \<and> F n = None) \<and> G = F(names [\<mapsto>] map link_file urls)"

lemma stored_as_Cons:
  assumes "visible_name n" "F n = None" "stored_as (F(n \<mapsto> link_file u)) ns us G"
  shows "stored_as F (n # ns) (u # us) G"
proof -
  have "n \<notin> set ns" using assms(3) by (auto simp: stored_as_def)
  then have "F m = None" if "m \<in> set ns" for m using assms(3) that by (auto simp: stored_as_def split: if_splits)
  with \<open>n \<notin> set ns\<close> assms show ?thesis by (auto simp: stored_as_def)
qed

lemma store_links_kept:
  "store_links os nfc (map PString urls) dk = (Ok (), dk') \<Longrightarrow> \<exists>names. stored_as (dk_files dk) names (filter sendable urls) (dk_files dk')"
proof (induction urls arbitrary: dk)
  case Nil
  then show ?case by (auto simp: stored_as_def)
next
  case (Cons u urls)
  show ?case
  proof (cases "sendable u")
    case False
    then have "store_links os nfc (map PString urls) dk = (Ok (), dk')" using Cons.prems is_link_text [of u] by simp
    from Cons.IH [OF this] False show ?thesis by simp
  next
    case True
    then obtain n dk1 where n: "store_link os nfc u dk = (Ok n, dk1)" "store_links os nfc (map PString urls) dk1 = (Ok (), dk')"
      using Cons.prems by (auto split: prod.splits result.splits)
    from Cons.IH [OF n(2)] obtain names where
      "stored_as ((dk_files dk)(n \<mapsto> link_file u)) names (filter sendable urls) (dk_files dk')"
      unfolding store_link_new(4) [OF n(1)] by blast
    from stored_as_Cons [OF store_link_new(2,3) [OF n(1)] this] True show ?thesis by auto
  qed
qed

lemma links_read:
  assumes "se_plist env body = map Ok (value_events (PDict (sort_keys (ask_links_dict sd tid urls))))"
    and "length urls \<le> MAX_ARCHIVE_MEMBERS" "cost_of (value_events (PDict (ask_links_dict sd tid urls))) \<le> 4 * 1024 * 1024"
    and "length body < 2 ^ 61"
  shows "ask_dict env body = sort_keys (ask_links_dict sd tid urls)"
proof -
  have "value_ok (PDict (sort_keys (ask_links_dict sd tid urls)))"
    using ask_links_ok [of sd tid urls] sort_keys_distinct [OF ask_links_distinct, of sd tid urls] by simp
  moreover have "length (value_events (PDict (sort_keys (ask_links_dict sd tid urls)))) \<le> 200000"
    using ask_links_length [of sd tid urls] assms(2) unfolding sort_keys_events MAX_ARCHIVE_MEMBERS_def by linarith
  moreover have "value_depth (PDict (sort_keys (ask_links_dict sd tid urls))) \<le> 32"
    using ask_links_depth [of sd tid urls] unfolding sort_keys_depth by linarith
  ultimately have "parse_plist (se_plist env) body = Ok (PDict (sort_keys (ask_links_dict sd tid urls)))"
    using plist_read_back [where v = "PDict (sort_keys (ask_links_dict sd tid urls))" and reader = "se_plist env" and data = body]
      assms(1,3,4) unfolding sort_keys_events by blast
  then show ?thesis by (simp add: ask_dict_def)
qed

lemma answer_sent: "answer env req body ss = (r, ss') \<Longrightarrow> ss_sent ss' = ss_sent ss @ [200] \<and> ss_disk ss' = ss_disk ss"
  by (auto simp: answer_def then_flow_def send_response_def split: prod.splits result.splits)

lemma reject_sent: "reject env status ss = (r, ss') \<Longrightarrow> ss_sent ss' = ss_sent ss @ [status] \<and> ss_disk ss' = ss_disk ss"
  by (auto simp: reject_def then_flow_def send_response_def split: prod.splits result.splits)

lemma status_only_sent: "status_only env req status ss = (r, ss') \<Longrightarrow> ss_sent ss' = ss_sent ss @ [status] \<and> ss_disk ss' = ss_disk ss"
  by (auto simp: status_only_def then_flow_def send_response_def split: prod.splits result.splits)

lemma links_accepted:
  assumes "lit ''links'' \<in> set (transfer_types d)" "as_array (dict_get d (lit ''Items'')) = map PString urls"
    and "ask_accepted env req d ss = (r, ss')"
  shows "(ss_sent ss' = ss_sent ss @ [200] \<and> (\<exists>names. stored_as (dk_files (ss_disk ss)) names (filter sendable urls) (dk_files (ss_disk ss'))))
    \<or> (ss_sent ss' = ss_sent ss @ [507] \<and> (\<forall>n. dk_files (ss_disk ss) n \<noteq> None \<longrightarrow> dk_files (ss_disk ss') n = dk_files (ss_disk ss) n))"
proof -
  obtain x dk where s: "store_links (se_os env) (se_nfc env) (map PString urls) (ss_disk ss) = (x, dk)" by fastforce
  show ?thesis
  proof (cases x)
    case (Ok u)
    obtain r2 ss2 where a: "answer env req (se_binary env (PDict (base_answer (se_settings env)))) (ss\<lparr>ss_disk := dk\<rparr>) = (r2, ss2)" by fastforce
    have "ss' = ss2" using assms a s Ok by (auto simp: ask_accepted_def Let_def split: result.splits)
    then show ?thesis using answer_sent [OF a] store_links_kept [of "se_os env" "se_nfc env" urls "ss_disk ss" dk] s Ok by simp
  next
    case (Err e)
    have "reject env 507 (ss\<lparr>ss_disk := dk\<rparr>) = (r, ss')" using assms s Err by (simp add: ask_accepted_def)
    moreover have "deposits\<^sup>*\<^sup>* (dk_files (ss_disk ss)) (dk_files dk)"
      using store_links_deposits [of "ss_disk ss" "se_os env" "se_nfc env" "map PString urls"] s by simp
    ultimately show ?thesis using reject_sent [of env 507 "ss\<lparr>ss_disk := dk\<rparr>"] deposits_star_keep [of "dk_files (ss_disk ss)" "dk_files dk"] by simp
  qed
qed


definition door_sender :: sender where [eval_defs]:
  "door_sender = \<lparr>sd_record = None, sd_computer_name = lit ''pc'', sd_computer_model = lit ''m'', sd_service_id = lit ''id'',
     sd_auth_tag = None, sd_should_convert = False\<rparr>"


end
