(* ===== verification/Aflog.thy ===== *)
theory Aflog
  imports Commands Radio Contacts "HOL-Library.AList"
begin

text \<open>
  The receivers named by the radio's own frames (omdrop-send/src/aflog.rs): the lines of a log, the action frames in
  them, and the endpoints airdrop-send tries before it browses. Parameters: reading a float, and the rank of a float
  in its total order.
\<close>

section \<open>Frames\<close>

record af_service =
  sv_ptr :: "ustr option"
  sv_srv :: "(nat \<times> ustr) option"
  sv_txt :: "ustr list option"

record af_record =
  fr_host :: "ustr option"
  fr_services :: "ustr \<rightharpoonup> af_service"

record 'f af_endpoint =
  ae_id :: ustr
  ae_port :: nat
  ae_target :: "ustr option"
  ae_txt :: "ustr list option"
  ae_host :: "ustr option"
  ae_ts :: 'f
  ae_sa :: ustr

definition af_dict :: "u8 \<Rightarrow> ustr" where [eval_defs]:
  "af_dict code =
     (if code = 0x00 then [] else if code = 0x07 then lit ''_airdrop._tcp.local'' else if code = 0x0a then lit ''_tcp.local''
      else if code = 0x0b then lit ''_udp.local'' else if code = 0x0c then lit ''local''
      else lit ''<c0'' @ pad0 2 (show_radix 16 (unat code)) @ lit ''>'')"

text \<open>The bytes from \<open>start\<close> to \<open>stop\<close>, or to the end.\<close>

definition bytes_to :: "bytes \<Rightarrow> nat \<Rightarrow> nat \<Rightarrow> bytes" where [eval_defs]:
  "bytes_to b start stop = take (min stop (length b) - start) (drop start b)"

function af_labels :: "bytes \<Rightarrow> nat \<Rightarrow> ustr list \<times> nat" where
  "af_labels b off =
     (if off \<ge> length b then ([], off)
      else if b ! off = 0xc0
      then (let tail = (if off + 1 < length b then af_dict (b ! (off + 1)) else []) in (if tail = [] then [] else [tail], off + 2))
      else if b ! off = 0 then ([], off + 1)
      else (let next_off = off + 1 + unat (b ! off); (ls, end_off) = af_labels b next_off
            in (from_utf8_lossy (bytes_to b (off + 1) next_off) # ls, end_off)))"
  by pat_completeness auto
termination by (relation "measure (\<lambda>(b, off). length b - off)") auto

declare af_labels.simps [simp del]

definition af_name :: "bytes \<Rightarrow> nat \<Rightarrow> ustr" where [eval_defs]:
  "af_name b off = join (lit ''.'') (fst (af_labels b off))"

definition u16_le_at :: "bytes \<Rightarrow> nat \<Rightarrow> nat option" where [eval_defs]:
  "u16_le_at b off = (if off + 1 < length b then Some (unat (u16_of_be (b ! (off + 1)) (b ! off))) else None)"

definition u16_be_at :: "bytes \<Rightarrow> nat \<Rightarrow> nat option" where [eval_defs]:
  "u16_be_at b off = (if off + 1 < length b then Some (unat (u16_of_be (b ! off) (b ! (off + 1)))) else None)"

function af_texts :: "bytes \<Rightarrow> nat \<Rightarrow> ustr list" where
  "af_texts rd j =
     (if j \<ge> length rd then []
      else from_utf8_lossy (bytes_to rd (j + 1) (j + 1 + unat (rd ! j))) # af_texts rd (j + 1 + unat (rd ! j)))"
  by pat_completeness auto
termination by (relation "measure (\<lambda>(rd, j). length rd - j)") auto

declare af_texts.simps [simp del]

definition no_service :: af_service where [eval_defs]:
  "no_service = \<lparr>sv_ptr = None, sv_srv = None, sv_txt = None\<rparr>"

definition service_response :: "bytes \<Rightarrow> (ustr \<times> af_service) option" where [eval_defs]:
  "service_response v =
     (case u16_le_at v 0 of
        None \<Rightarrow> None
      | Some nlen \<Rightarrow>
          (let n = af_name v 2; off = 2 + nlen - 1
           in if off \<ge> length v then None
              else (case u16_le_at v (off + 1) of
                      None \<Rightarrow> None
                    | Some dlen \<Rightarrow>
                        (let rd = bytes_to v (off + 5) (off + 5 + dlen)
                         in if v ! off = 12 then Some (n, no_service\<lparr>sv_ptr := Some (af_name rd 0)\<rparr>)
                            else if v ! off = 33
                            then map_option (\<lambda>port. (n, no_service\<lparr>sv_srv := Some (port, af_name rd 6)\<rparr>)) (u16_be_at rd 4)
                            else if v ! off = 16 then Some (n, no_service\<lparr>sv_txt := Some (af_texts rd 0)\<rparr>)
                            else Some (n, no_service)))))"

definition or_else_some :: "'a option \<Rightarrow> 'a option \<Rightarrow> 'a option" where [eval_defs]:
  "or_else_some a b = (if a = None then b else a)"

definition merge_service :: "af_service \<Rightarrow> af_service \<Rightarrow> af_service" where [eval_defs]:
  "merge_service val entry =
     \<lparr>sv_ptr = or_else_some (sv_ptr val) (sv_ptr entry), sv_srv = or_else_some (sv_srv val) (sv_srv entry),
      sv_txt = or_else_some (sv_txt val) (sv_txt entry)\<rparr>"

definition one_tlv :: "u8 \<Rightarrow> bytes \<Rightarrow> af_record \<Rightarrow> af_record" where [eval_defs]:
  "one_tlv t v rec =
     (if t = 16 \<and> length v > 1 then rec\<lparr>fr_host := Some (af_name v 1)\<rparr>
      else if t = 2 \<and> length v > 5
      then (case service_response v of
              None \<Rightarrow> rec
            | Some (n, val) \<Rightarrow>
                (let entry = (case fr_services rec n of Some e \<Rightarrow> e | None \<Rightarrow> no_service)
                 in rec\<lparr>fr_services := (fr_services rec)(n \<mapsto> merge_service val entry)\<rparr>))
      else rec)"

function read_tlvs :: "bytes \<Rightarrow> nat \<Rightarrow> af_record \<Rightarrow> af_record" where
  "read_tlvs tlvs i rec =
     (if i + 3 \<le> length tlvs
      then (let l = (case u16_le_at tlvs (i + 1) of Some l \<Rightarrow> l | None \<Rightarrow> 0)
            in read_tlvs tlvs (i + 3 + l) (one_tlv (tlvs ! i) (bytes_to tlvs (i + 3) (i + 3 + l)) rec))
      else rec)"
  by pat_completeness auto
termination by (relation "measure (\<lambda>(tlvs, i, rec). length tlvs - i)") auto

declare read_tlvs.simps [simp del]

definition parse_body :: "bytes \<Rightarrow> af_record option" where [eval_defs]:
  "parse_body body =
     (if \<not> starts_with body [0x7f, 0x00, 0x17, 0xf2] \<or> length body < 16 \<or> body ! 4 \<noteq> 0x08 then None
      else Some (read_tlvs (drop 16 body) 0 \<lparr>fr_host = None, fr_services = Map.empty\<rparr>))"

definition airdrop_endpoint :: "af_record \<Rightarrow> (ustr \<times> af_service) option" where [eval_defs]:
  "airdrop_endpoint rec =
     (case Option.bind (fr_services rec (lit ''_airdrop._tcp.local'')) sv_ptr of
        None \<Rightarrow> None
      | Some ptr \<Rightarrow>
          if ptr = [] then None
          else (let inst = (case fr_services rec ptr of
                              Some s \<Rightarrow> s
                            | None \<Rightarrow> (case fr_services rec (ptr @ lit ''._airdrop._tcp.local'') of Some s \<Rightarrow> s | None \<Rightarrow> no_service))
                in Some (hd (split_by (\<lambda>c. c = 0x2e) ptr), inst)))"

section \<open>The log\<close>

definition frame_hex :: "ustr \<Rightarrow> bytes option" where [eval_defs]:
  "frame_hex s = (if str_len s mod 2 \<noteq> 0 \<or> list_ex (\<lambda>c. c \<ge> 128) s then None else hex_pairs s)"

definition line_endpoint :: "'f floats \<Rightarrow> ustr \<Rightarrow> 'f af_endpoint option" where [eval_defs]:
  "line_endpoint F line =
     (case split_whitespace line of
        ts # _ # sa # hexbody # _ \<Rightarrow>
          (case (frame_hex hexbody, fl_parse F ts) of
             (Some body, Some t) \<Rightarrow>
               (case Option.bind (parse_body body) (\<lambda>rec. map_option (Pair rec) (airdrop_endpoint rec)) of
                  Some (rec, ident, inst) \<Rightarrow>
                    (case sv_srv inst of
                       Some (port, target) \<Rightarrow>
                         if port = 0 then None
                         else Some \<lparr>ae_id = ident, ae_port = port, ae_target = Some target, ae_txt = sv_txt inst,
                                    ae_host = fr_host rec, ae_ts = t, ae_sa = sa\<rparr>
                     | None \<Rightarrow> None)
                | None \<Rightarrow> None)
           | _ \<Rightarrow> None)
      | _ \<Rightarrow> None)"

text \<open>The B-tree of the endpoints by source is its entries in any order, sorted when they are taken out.\<close>

definition keep_line :: "'f floats \<Rightarrow> ustr \<Rightarrow> (ustr \<times> 'f af_endpoint) list \<Rightarrow> (ustr \<times> 'f af_endpoint) list" where [eval_defs]:
  "keep_line F line eps = (case line_endpoint F line of Some ep \<Rightarrow> AList.update (ae_sa ep) ep eps | None \<Rightarrow> eps)"

definition endpoints_from_text :: "'f floats \<Rightarrow> ('f \<Rightarrow> int) \<Rightarrow> ustr \<Rightarrow> 'f af_endpoint list" where [eval_defs]:
  "endpoints_from_text F rank text =
     sort_key (\<lambda>ep. - rank (ae_ts ep)) (map snd (sort_key fst (fold (keep_line F) (lines text) [])))"

section \<open>What the log yields\<close>

lemma keep_line_map:
  "map_of (keep_line F line eps) =
     (case line_endpoint F line of Some ep \<Rightarrow> (map_of eps)(ae_sa ep \<mapsto> ep) | None \<Rightarrow> map_of eps)"
  by (simp add: keep_line_def update_conv' split: option.splits)

lemma keep_line_distinct: "distinct (map fst eps) \<Longrightarrow> distinct (map fst (keep_line F line eps))"
  by (simp add: keep_line_def distinct_update split: option.splits)

definition latest :: "'f floats \<Rightarrow> ustr list \<Rightarrow> 'f af_endpoint \<Rightarrow> bool" where
  "latest F ls ep \<longleftrightarrow> (\<exists>before line after. ls = before @ line # after \<and> line_endpoint F line = Some ep
     \<and> (\<forall>l \<in> set after. \<forall>e. line_endpoint F l = Some e \<longrightarrow> ae_sa e \<noteq> ae_sa ep))"

lemma latest_snoc:
  "latest F (ls @ [line]) ep \<longleftrightarrow>
     line_endpoint F line = Some ep \<or> latest F ls ep \<and> (\<forall>e. line_endpoint F line = Some e \<longrightarrow> ae_sa e \<noteq> ae_sa ep)"
proof
  assume "latest F (ls @ [line]) ep"
  then obtain before l after where s: "ls @ [line] = before @ l # after" "line_endpoint F l = Some ep"
    "\<forall>x \<in> set after. \<forall>e. line_endpoint F x = Some e \<longrightarrow> ae_sa e \<noteq> ae_sa ep" unfolding latest_def by blast
  show "line_endpoint F line = Some ep \<or> latest F ls ep \<and> (\<forall>e. line_endpoint F line = Some e \<longrightarrow> ae_sa e \<noteq> ae_sa ep)"
  proof (cases after rule: rev_cases)
    case Nil
    with s(1) have "l = line" by simp
    with s(2) show ?thesis by simp
  next
    case (snoc ys y)
    with s(1) have "ls = before @ l # ys" "y = line" by auto
    moreover have "\<forall>x \<in> set ys. \<forall>e. line_endpoint F x = Some e \<longrightarrow> ae_sa e \<noteq> ae_sa ep" using s(3) snoc by simp
    ultimately have "latest F ls ep" using s(2) unfolding latest_def by blast
    with s(3) snoc \<open>y = line\<close> show ?thesis by simp
  qed
next
  assume "line_endpoint F line = Some ep \<or> latest F ls ep \<and> (\<forall>e. line_endpoint F line = Some e \<longrightarrow> ae_sa e \<noteq> ae_sa ep)"
  then show "latest F (ls @ [line]) ep"
  proof
    assume "line_endpoint F line = Some ep"
    then show ?thesis unfolding latest_def by (intro exI [of _ ls] exI [of _ line] exI [of _ "[]"]) simp
  next
    assume a: "latest F ls ep \<and> (\<forall>e. line_endpoint F line = Some e \<longrightarrow> ae_sa e \<noteq> ae_sa ep)"
    then obtain before l after where "ls = before @ l # after" "line_endpoint F l = Some ep"
      "\<forall>x \<in> set after. \<forall>e. line_endpoint F x = Some e \<longrightarrow> ae_sa e \<noteq> ae_sa ep" unfolding latest_def by blast
    with a show ?thesis unfolding latest_def
      by (intro exI [of _ before] exI [of _ l] exI [of _ "after @ [line]"]) auto
  qed
qed

lemma kept_lines:
  "distinct (map fst (fold (keep_line F) ls []))
   \<and> (map_of (fold (keep_line F) ls []) sa = Some ep \<longleftrightarrow> latest F ls ep \<and> ae_sa ep = sa)"
proof (induction ls arbitrary: sa ep rule: rev_induct)
  case Nil
  then show ?case by (simp add: latest_def)
next
  case (snoc line ls)
  have f: "fold (keep_line F) (ls @ [line]) [] = keep_line F line (fold (keep_line F) ls [])" by simp
  have d: "distinct (map fst (keep_line F line (fold (keep_line F) ls [])))" by (rule keep_line_distinct) (use snoc in blast)
  have "map_of (fold (keep_line F) ls []) sa = Some ep \<longleftrightarrow> latest F ls ep \<and> ae_sa ep = sa" using snoc by blast
  with d show ?case unfolding f keep_line_map latest_snoc by (auto split: option.splits if_splits)
qed

lemma in_second: "y \<in> snd ` S \<longleftrightarrow> (\<exists>x. (x, y) \<in> S)"
  by force

text \<open>
  The endpoints airdrop-send tries are exactly, for each source of the log, what its last line with a receiver
  said; no source is there twice, and the newest comes first. Each has a port.
\<close>

lemma endpoints_latest:
  "set (endpoints_from_text F rank text) = {ep. latest F (lines text) ep}"
  "distinct (map ae_sa (endpoints_from_text F rank text))"
  "sorted_wrt (\<lambda>a b. rank (ae_ts b) \<le> rank (ae_ts a)) (endpoints_from_text F rank text)"
proof -
  let ?m = "fold (keep_line F) (lines text) []"
  have k: "distinct (map fst ?m)" "\<And>sa ep. (sa, ep) \<in> set ?m \<longleftrightarrow> latest F (lines text) ep \<and> ae_sa ep = sa"
    using kept_lines [of F "lines text"] by (simp_all add: map_of_eq_Some_iff [symmetric])
  show "set (endpoints_from_text F rank text) = {ep. latest F (lines text) ep}"
  proof (rule set_eqI)
    fix ep
    have "ep \<in> set (endpoints_from_text F rank text) \<longleftrightarrow> (\<exists>sa. (sa, ep) \<in> set ?m)"
      unfolding endpoints_from_text_def set_sort set_map by (rule in_second)
    then show "ep \<in> set (endpoints_from_text F rank text) \<longleftrightarrow> ep \<in> {ep. latest F (lines text) ep}" using k(2) by simp
  qed
  have "ae_sa (snd e) = fst e" if "e \<in> set ?m" for e using k(2) [of "fst e" "snd e"] that by simp
  then have same: "map (\<lambda>e. ae_sa (snd e)) ?m = map fst ?m" by (rule map_cong [OF refl])
  have "distinct (map (\<lambda>e. ae_sa (snd e)) ?m)" unfolding same by (rule k(1))
  then have i: "inj_on (\<lambda>e. ae_sa (snd e)) (set ?m)" and "distinct ?m" unfolding distinct_map by simp_all
  have "inj_on ae_sa (snd ` set ?m)" "inj_on snd (set ?m)" using i unfolding inj_on_def by (blast, metis)
  then have "distinct (map snd (sort_key fst ?m))" "inj_on ae_sa (set (map snd (sort_key fst ?m)))"
    unfolding distinct_map set_map set_sort distinct_sort using \<open>distinct ?m\<close> by blast+
  then show "distinct (map ae_sa (endpoints_from_text F rank text))"
    unfolding endpoints_from_text_def distinct_map [of ae_sa] set_sort distinct_sort by blast
  show "sorted_wrt (\<lambda>a b. rank (ae_ts b) \<le> rank (ae_ts a)) (endpoints_from_text F rank text)"
    using sorted_sort_key [of "\<lambda>ep. - rank (ae_ts ep)"] unfolding endpoints_from_text_def sorted_map by simp
qed

lemma line_endpoint_port: "line_endpoint F line = Some ep \<Longrightarrow> 0 < ae_port ep"
  by (auto simp: line_endpoint_def split: list.splits option.splits if_splits)

end
