(* ===== verification/Sending.thy ===== *)
theory Sending
  imports Peers Asks Aflog Browse
begin

text \<open>
  airdrop-send's run (omdrop-send/src/airdrop_send.rs): how it finds the receiver (a given endpoint, the radio's log, or
  multicast DNS), the one Ask and the one Upload, and its exit status; and the Python names of failures
  (error.rs), which decide whether a Discover is tried again.

  The parameter is the surroundings (\<open>sender_env\<close>): what connecting, asking and uploading gave, with a state of
  their own, the clock, and what the browser resolved. The requests themselves are in Asks, the exchange in SendHttp.
\<close>

section \<open>Failures\<close>

record py_error =
  pe_class :: ustr
  pe_repr :: ustr

text \<open>
  An \<open>io::Error\<close> as \<open>from_io\<close> looks at it: one made by this program, one of TLS, one with the number of an
  operating system error, and one with a kind only.
\<close>

datatype io_failure = Py py_error | Tls_failed ustr | Os_failed nat | Would_block | Timed_out | Unexpected_eof | Other_failed ustr

definition py_new :: "ustr \<Rightarrow> ustr \<Rightarrow> py_error" where [eval_defs]:
  "py_new cls message = \<lparr>pe_class = cls, pe_repr = cls @ lit ''('' @ str_repr message @ lit '')''\<rparr>"

definition os_class :: "nat \<Rightarrow> ustr" where [eval_defs]:
  "os_class errno =
     (if errno = 111 then lit ''ConnectionRefusedError'' else if errno = 104 then lit ''ConnectionResetError''
      else if errno = 103 then lit ''ConnectionAbortedError'' else if errno = 32 \<or> errno = 108 then lit ''BrokenPipeError''
      else if errno = 110 then lit ''TimeoutError'' else if errno = 2 then lit ''FileNotFoundError''
      else if errno = 13 \<or> errno = 1 then lit ''PermissionError'' else if errno = 21 then lit ''IsADirectoryError''
      else if errno = 20 then lit ''NotADirectoryError'' else if errno = 4 then lit ''InterruptedError''
      else lit ''OSError'')"

definition py_of_io :: "(nat \<Rightarrow> ustr) \<Rightarrow> io_failure \<Rightarrow> py_error" where [eval_defs]:
  "py_of_io strerror e =
     (case e of
        Py p \<Rightarrow> p
      | Tls_failed t \<Rightarrow> py_new (lit ''SSLError'') t
      | Would_block \<Rightarrow> py_new (lit ''TimeoutError'') (lit ''timed out'')
      | Timed_out \<Rightarrow> py_new (lit ''TimeoutError'') (lit ''timed out'')
      | Unexpected_eof \<Rightarrow> py_new (lit ''RemoteDisconnected'') (lit ''Remote end closed connection without response'')
      | Os_failed errno \<Rightarrow>
          if errno = 11 then py_new (lit ''TimeoutError'') (lit ''timed out'')
          else \<lparr>pe_class = os_class errno,
                pe_repr = os_class errno @ lit ''('' @ dec errno @ lit '', '' @ str_repr (strip_os_error (strerror errno)) @ lit '')''\<rparr>
      | Other_failed t \<Rightarrow> py_new (lit ''OSError'') t)"

section \<open>The surroundings\<close>

record endpoint =
  ep_addr :: bytes
  ep_port :: nat
  ep_host :: ustr

datatype done_step =
    Did_discover endpoint "(ustr option, io_failure) result"
  | Did_ask endpoint "(ustr \<times> pvalue) list" "(bool, io_failure) result"
  | Did_upload endpoint "(ustr \<times> ustr) list" "(bool, io_failure) result"

record ('w, 'f) sender_env =
  sv_resolve :: "ustr \<Rightarrow> nat \<Rightarrow> (endpoint, io_failure) result"
  sv_v6 :: "bytes \<Rightarrow> nat \<Rightarrow> ustr option \<Rightarrow> (endpoint, io_failure) result"
  sv_discover :: "endpoint \<Rightarrow> 'w \<Rightarrow> (ustr option, io_failure) result \<times> 'w"
  sv_connect :: "endpoint \<Rightarrow> 'w \<Rightarrow> (unit, io_failure) result \<times> 'w"
  sv_random :: "'w \<Rightarrow> bytes \<times> 'w"
  sv_icon :: "outgoing list \<Rightarrow> bytes option"
  sv_ask :: "endpoint \<Rightarrow> (ustr \<times> pvalue) list \<Rightarrow> 'w \<Rightarrow> (bool, io_failure) result \<times> 'w"
  sv_upload :: "endpoint \<Rightarrow> (ustr \<times> ustr) list \<Rightarrow> outgoing list \<Rightarrow> 'w \<Rightarrow> (bool, io_failure) result \<times> 'w"
  sv_now :: "'w \<Rightarrow> nat"
  sv_af_deadline :: "int \<Rightarrow> 'f \<Rightarrow> nat \<Rightarrow> nat"
  sv_sleep :: "'w \<Rightarrow> 'w"
  sv_af_log :: "'w \<Rightarrow> bytes option"
  sv_browser :: "'w \<Rightarrow> found list option"
  sv_strerror :: "nat \<Rightarrow> ustr"
  sv_lower :: "ustr \<Rightarrow> ustr"
  sv_floats :: "'f floats"
  sv_rank :: "'f \<Rightarrow> int"

text \<open>The state of a run: the surroundings' and the requests made so far, oldest first.\<close>

record 'w sending =
  sg_world :: 'w
  sg_done :: "done_step list"

definition perform :: "('w \<Rightarrow> ('a, io_failure) result \<times> 'w) \<Rightarrow> (('a, io_failure) result \<Rightarrow> done_step)
    \<Rightarrow> 'w sending \<Rightarrow> ('a, io_failure) result \<times> 'w sending" where [eval_defs]:
  "perform request note s =
     (case request (sg_world s) of (r, w) \<Rightarrow> (r, s\<lparr>sg_world := w, sg_done := sg_done s @ [note r]\<rparr>))"

abbreviation discover_peer :: "('w, 'f) sender_env \<Rightarrow> endpoint \<Rightarrow> 'w sending \<Rightarrow> (ustr option, io_failure) result \<times> 'w sending" where
  "discover_peer env ep \<equiv> perform (sv_discover env ep) (Did_discover ep)"

section \<open>Finding the receiver\<close>

record chosen =
  ch_ident :: ustr
  ch_name :: "ustr option"
  ch_endpoint :: endpoint

definition to_is_id :: "ustr \<Rightarrow> bool" where [eval_defs]:
  "to_is_id to_text \<longleftrightarrow> length to_text = 12"

definition names_match :: "('w, 'f) sender_env \<Rightarrow> ustr \<Rightarrow> ustr \<Rightarrow> bool" where [eval_defs]:
  "names_match env name to_text \<longleftrightarrow> text_contains (sv_lower env to_text) (sv_lower env name)"

definition SUPPORTS_DISCOVER :: int where [eval_defs]:
  "SUPPORTS_DISCOVER = 0x80"

definition RETRIED :: "ustr list" where [eval_defs]:
  "RETRIED = [lit ''RemoteDisconnected'', lit ''ConnectionResetError'', lit ''BrokenPipeError'']"

definition try_discover :: "('w, 'f) sender_env \<Rightarrow> ustr \<Rightarrow> 'w sending \<Rightarrow> (endpoint \<times> ustr option, io_failure) result \<times> 'w sending" where [eval_defs]:
  "try_discover env direct s =
     (case split_direct direct of
        None \<Rightarrow> (Err (Py (py_new (lit ''ValueError'') (lit ''not HOST:PORT: '' @ direct))), s)
      | Some (host, port) \<Rightarrow>
          (case sv_resolve env host port of
             Err e \<Rightarrow> (Err e, s)
           | Ok ep \<Rightarrow>
               (case discover_peer env ep s of
                  (Err e, s') \<Rightarrow> (Err e, s')
                | (Ok name, s') \<Rightarrow> (Ok (ep, name), s'))))"

definition direct_attempt :: "('w, 'f) sender_env \<Rightarrow> 'f send_options \<Rightarrow> ustr \<Rightarrow> 'w sending
    \<Rightarrow> (endpoint \<times> ustr option, io_failure) result \<times> 'w sending" where [eval_defs]:
  "direct_attempt env opts direct s =
     (case try_discover env direct s of
        (Ok x, s') \<Rightarrow> (Ok x, s')
      | (Err e, s') \<Rightarrow>
          if \<not> so_discover_only opts \<and> pe_class (py_of_io (sv_strerror env) e) \<in> set RETRIED
          then try_discover env direct (s'\<lparr>sg_world := sv_sleep env (sg_world s')\<rparr>)
          else (Err e, s'))"

text \<open>The radio's log: the freshest matching endpoint, read anew before each attempt.\<close>

definition freshest :: "('w, 'f) sender_env \<Rightarrow> 'f send_options \<Rightarrow> 'w \<Rightarrow> 'f af_endpoint option" where [eval_defs]:
  "freshest env opts w =
     (let eps = (case sv_af_log env w of
                   Some text \<Rightarrow> endpoints_from_text (sv_floats env) (sv_rank env) (from_utf8_lossy text)
                 | None \<Rightarrow> [])
      in find (\<lambda>ep. case so_to opts of
                      None \<Rightarrow> True
                    | Some t \<Rightarrow> if to_is_id t then eq_ignore_ascii_case t (ae_id ep)
                                else if 0x3a \<in> set t then eq_ignore_ascii_case t (ae_sa ep) else True) eps)"

definition af_attempt :: "('w, 'f) sender_env \<Rightarrow> 'f send_options \<Rightarrow> 'f af_endpoint \<Rightarrow> 'w sending \<Rightarrow> chosen option \<times> 'w sending" where [eval_defs]:
  "af_attempt env opts ep s =
     (case parse_hw_address (ae_sa ep) of
        None \<Rightarrow> (None, s)
      | Some mac \<Rightarrow>
          (case sv_v6 env (eui64_link_local mac) (ae_port ep) (Some (so_iface opts)) of
             Err e \<Rightarrow> (None, s)
           | Ok e \<Rightarrow>
               (case discover_peer env e s of
                  (Ok (Some n), s') \<Rightarrow>
                    (case so_to opts of
                       Some t \<Rightarrow> if \<not> to_is_id t \<and> 0x3a \<notin> set t \<and> \<not> names_match env n t then (None, s')
                                 else (Some \<lparr>ch_ident = ae_id ep, ch_name = Some n, ch_endpoint = e\<rparr>, s')
                     | None \<Rightarrow> (Some \<lparr>ch_ident = ae_id ep, ch_name = Some n, ch_endpoint = e\<rparr>, s'))
                | (_, s') \<Rightarrow> (None, s'))))"

fun af_loop :: "('w, 'f) sender_env \<Rightarrow> 'f send_options \<Rightarrow> nat \<Rightarrow> nat \<Rightarrow> 'w sending \<Rightarrow> chosen option \<times> 'w sending" where
  "af_loop env opts until 0 s = (None, s)"
| "af_loop env opts until (Suc n) s =
     (if sv_now env (sg_world s) \<ge> until then (None, s)
      else (case freshest env opts (sg_world s) of
              None \<Rightarrow> (None, s)
            | Some ep \<Rightarrow>
                (case af_attempt env opts ep s of
                   (Some c, s') \<Rightarrow> (Some c, s')
                 | (None, s') \<Rightarrow> af_loop env opts until n s')))"

definition af_log_attempts :: "('w, 'f) sender_env \<Rightarrow> 'f send_options \<Rightarrow> 'w sending \<Rightarrow> chosen option \<times> 'w sending" where [eval_defs]:
  "af_log_attempts env opts s =
     (let attempts = max (so_af_attempts opts) 1
      in af_loop env opts (sv_af_deadline env attempts (so_op_timeout_secs opts) (sv_now env (sg_world s))) (nat attempts) s)"

text \<open>An instance the browser resolved.\<close>

definition is_link_local :: "bytes \<Rightarrow> bool" where [eval_defs]:
  "is_link_local a \<longleftrightarrow> hd a = 0xfe \<and> and (a ! 1) 0xc0 = 0x80"

definition advert_flags :: "found \<Rightarrow> int option" where [eval_defs]:
  "advert_flags f = (case find (\<lambda>(k, _). k = lit ''flags'') (fd_props f) of None \<Rightarrow> Some SUPPORTS_DISCOVER | Some (_, v) \<Rightarrow> parse_i64 (trim v))"

definition advert_wanted :: "'f send_options \<Rightarrow> found \<Rightarrow> bool" where [eval_defs]:
  "advert_wanted opts f \<longleftrightarrow>
     (case so_to opts of
        None \<Rightarrow> True
      | Some t \<Rightarrow>
          (to_is_id t \<longrightarrow> eq_ignore_ascii_case t (hd (split_by (\<lambda>c. c = 0x2e) (fd_name f))))
          \<and> (0x3a \<in> set t \<longrightarrow>
               (case map_option eui64_link_local (parse_hw_address t) of Some w \<Rightarrow> w \<in> set (fd_addrs f) | None \<Rightarrow> False)))
     \<and> (case advert_flags f of None \<Rightarrow> False | Some flags \<Rightarrow> (flags div 0x80) mod 2 = 1)"

definition on_add :: "('w, 'f) sender_env \<Rightarrow> 'f send_options \<Rightarrow> found \<Rightarrow> 'w sending \<Rightarrow> chosen option \<times> 'w sending" where [eval_defs]:
  "on_add env opts f s =
     (case fd_addrs f of
        [] \<Rightarrow> (None, s)
      | first # _ \<Rightarrow>
          if \<not> advert_wanted opts f then (None, s)
          else (case sv_v6 env first (unat (fd_port f)) (if is_link_local first then Some (so_iface opts) else None) of
                  Err e \<Rightarrow> (None, s)
                | Ok ep \<Rightarrow>
                    (case discover_peer env ep s of
                       (Ok (Some name), s') \<Rightarrow>
                         (case so_to opts of
                            Some t \<Rightarrow> if \<not> to_is_id t \<and> \<not> names_match env name t then (None, s')
                                      else (Some \<lparr>ch_ident = hd (split_by (\<lambda>c. c = 0x2e) (fd_name f)), ch_name = Some name, ch_endpoint = ep\<rparr>, s')
                          | None \<Rightarrow> (Some \<lparr>ch_ident = hd (split_by (\<lambda>c. c = 0x2e) (fd_name f)), ch_name = Some name, ch_endpoint = ep\<rparr>, s'))
                     | (_, s') \<Rightarrow> (None, s'))))"

text \<open>The browser calls \<open>on_add\<close> for each instance it resolves before the deadline, until one is chosen.\<close>

fun browse_all :: "('w, 'f) sender_env \<Rightarrow> 'f send_options \<Rightarrow> found list \<Rightarrow> 'w sending \<Rightarrow> chosen option \<times> 'w sending" where
  "browse_all env opts [] s = (None, s)"
| "browse_all env opts (f # fs) s =
     (case on_add env opts f s of
        (Some c, s') \<Rightarrow> (Some c, s')
      | (None, s') \<Rightarrow> browse_all env opts fs s')"

section \<open>The transfer\<close>

definition transfer :: "('w, 'f) sender_env \<Rightarrow> sender \<Rightarrow> 'f send_options \<Rightarrow> chosen \<Rightarrow> 'w sending \<Rightarrow> nat \<times> 'w sending" where [eval_defs]:
  "transfer env sd opts c s =
     (let ep = ch_endpoint c; files = so_files opts; urls = so_urls opts
      in case sv_connect env ep (sg_world s) of
           (Err e, w) \<Rightarrow> (3, s\<lparr>sg_world := w\<rparr>)
         | (Ok _, w) \<Rightarrow>
             (case sv_random env w of (rand, w') \<Rightarrow>
                (let tid = transfer_id rand;
                     body = (if urls = [] then ask_files_dict sd tid (sv_icon env files) files else ask_links_dict sd tid urls)
                 in case perform (sv_ask env ep body) (Did_ask ep body) (s\<lparr>sg_world := w'\<rparr>) of
                      (Ok True, s') \<Rightarrow>
                        if urls \<noteq> [] then (0, s')
                        else (let headers = upload_headers files tid
                              in case perform (sv_upload env ep headers files) (Did_upload ep headers) s' of
                                   (Ok True, s'') \<Rightarrow> (0, s'')
                                 | (_, s'') \<Rightarrow> (4, s''))
                    | (_, s') \<Rightarrow> (3, s'))))"

text \<open>The search when no endpoint is given: the log if there is one, then the browser.\<close>

datatype search = Search_failed | Nobody | Chose chosen

definition search_receiver :: "('w, 'f) sender_env \<Rightarrow> 'f send_options \<Rightarrow> 'w sending \<Rightarrow> search \<times> 'w sending" where [eval_defs]:
  "search_receiver env opts s =
     (case (if so_af_log opts \<noteq> None \<and> sv_af_log env (sg_world s) \<noteq> None then af_log_attempts env opts s else (None, s)) of
        (Some c, s') \<Rightarrow> (Chose c, s')
      | (None, s') \<Rightarrow>
          (case sv_browser env (sg_world s') of
             None \<Rightarrow> (Search_failed, s')
           | Some fs \<Rightarrow>
               (case browse_all env opts fs s' of
                  (Some c, s'') \<Rightarrow> (Chose c, s'')
                | (None, s'') \<Rightarrow> (Nobody, s''))))"

text \<open>The exit status, what is printed, and the state.\<close>

definition run :: "('w, 'f) sender_env \<Rightarrow> sender \<Rightarrow> 'f send_options \<Rightarrow> 'w sending \<Rightarrow> nat \<times> ustr list \<times> 'w sending" where [eval_defs]:
  "run env sd opts s =
     (case so_direct opts of
        Some direct \<Rightarrow>
          (case direct_attempt env opts direct s of
             (Err e, s') \<Rightarrow> (2, [], s')
           | (Ok (ep, name), s') \<Rightarrow>
               if so_discover_only opts
               then (0, case name of Some n \<Rightarrow> if n = [] then [] else [n] | None \<Rightarrow> [], s')
               else (case transfer env sd opts \<lparr>ch_ident = lit ''direct'', ch_name = name, ch_endpoint = ep\<rparr> s' of (code, s'') \<Rightarrow> (code, [], s'')))
      | None \<Rightarrow>
          (case search_receiver env opts s of
             (Search_failed, s') \<Rightarrow> (1, [], s')
           | (Nobody, s') \<Rightarrow> (2, [], s')
           | (Chose c, s') \<Rightarrow> (case transfer env sd opts c s' of (code, s'') \<Rightarrow> (code, [], s''))))"

text \<open>
  The program: the command line, the machine's address, the identity, the run. The identity's record and whether a TLS
  configuration could be made of it are parameters, as is what the interface's address file holds.
\<close>

definition sender_from_identity :: "bytes option \<Rightarrow> 'f send_options \<Rightarrow> ustr \<Rightarrow> sender" where [eval_defs]:
  "sender_from_identity rec opts sid =
     \<lparr>sd_record = rec, sd_computer_name = so_name opts, sd_computer_model = so_model opts, sd_service_id = sid,
      sd_auth_tag = so_auth_tag opts, sd_should_convert = so_should_convert opts\<rparr>"

definition service_id :: "ustr \<Rightarrow> ustr" where [eval_defs]:
  "service_id address = filter (\<lambda>c. c \<noteq> 0x3a) (trim address)"

definition send_main :: "('w, 'f) sender_env \<Rightarrow> (ustr \<Rightarrow> opened) \<Rightarrow> (ustr \<Rightarrow> ustr option) \<Rightarrow> ('f send_options \<Rightarrow> bytes option option)
    \<Rightarrow> ustr list \<Rightarrow> 'w sending \<Rightarrow> nat \<times> ustr list \<times> 'w sending" where [eval_defs]:
  "send_main env opens address identity argv s =
     (case parse_options (sv_floats env) (sv_lower env) opens argv of
        Err (Help_text text) \<Rightarrow> (0, [text], s)
      | Err (Error_text text) \<Rightarrow> (2, [], s)
      | Ok opts \<Rightarrow>
          (case (address (so_iface opts), identity opts) of
             (Some a, Some rec) \<Rightarrow> run env (sender_from_identity rec opts (service_id a)) opts s
           | _ \<Rightarrow> (1, [], s)))"

section \<open>What a run does\<close>

text \<open>A receiver that answered a Discover of this run, and by the name asked for, if one was.\<close>

definition answered :: "('w, 'f) sender_env \<Rightarrow> 'f send_options \<Rightarrow> done_step list \<Rightarrow> endpoint \<Rightarrow> bool" where
  "answered env opts ds ep \<longleftrightarrow>
     (\<exists>name. Did_discover ep (Ok name) \<in> set ds \<and>
       (so_direct opts = None \<longrightarrow>
         (\<exists>n. name = Some n \<and> (\<forall>t. so_to opts = Some t \<longrightarrow> to_is_id t \<or> 0x3a \<in> set t \<or> names_match env n t))))"

definition only_discovers :: "done_step list \<Rightarrow> bool" where
  "only_discovers ds \<longleftrightarrow> (\<forall>d \<in> set ds. \<exists>ep r. d = Did_discover ep r)"

text \<open>The exchanges a run may have had, with the exit status each ends in.\<close>

inductive exchange :: "('w, 'f) sender_env \<Rightarrow> sender \<Rightarrow> 'f send_options \<Rightarrow> done_step list \<Rightarrow> nat \<Rightarrow> bool"
  for env :: "('w, 'f) sender_env" and sd :: sender and opts :: "'f send_options" where
  not_asked: "only_discovers ds \<Longrightarrow> code \<in> {1, 2, 3} \<Longrightarrow> exchange env sd opts ds code"
| looked_up: "only_discovers ds \<Longrightarrow> so_discover_only opts \<Longrightarrow> answered env opts ds ep \<Longrightarrow> exchange env sd opts ds 0"
| not_accepted: "only_discovers ds \<Longrightarrow> answered env opts ds ep \<Longrightarrow> r \<noteq> Ok True
    \<Longrightarrow> exchange env sd opts (ds @ [Did_ask ep body r]) 3"
| links_taken: "only_discovers ds \<Longrightarrow> answered env opts ds ep \<Longrightarrow> so_urls opts \<noteq> []
    \<Longrightarrow> exchange env sd opts (ds @ [Did_ask ep (ask_links_dict sd (transfer_id rand) (so_urls opts)) (Ok True)]) 0"
| files_taken: "only_discovers ds \<Longrightarrow> answered env opts ds ep \<Longrightarrow> so_urls opts = []
    \<Longrightarrow> exchange env sd opts
          (ds @ [Did_ask ep (ask_files_dict sd (transfer_id rand) icon (so_files opts)) (Ok True),
                 Did_upload ep (upload_headers (so_files opts) (transfer_id rand)) r]) (if r = Ok True then 0 else 4)"

text \<open>What a search leaves: discovers only, and if it chose someone, one who answered.\<close>

definition searched :: "('w, 'f) sender_env \<Rightarrow> 'f send_options \<Rightarrow> chosen option \<Rightarrow> 'w sending \<Rightarrow> bool" where
  "searched env opts c s \<longleftrightarrow>
     only_discovers (sg_done s) \<and> (\<forall>x. c = Some x \<longrightarrow> answered env opts (sg_done s) (ch_endpoint x))"

lemma answered_more: "answered env opts ds ep \<Longrightarrow> answered env opts (ds @ es) ep"
  unfolding answered_def by auto

lemma perform_done: "perform request note s = (r, s') \<Longrightarrow> sg_done s' = sg_done s @ [note r]"
  by (auto simp: perform_def split: prod.splits)

lemma discover_searched:
  assumes "discover_peer env ep s = (r, s')" "only_discovers (sg_done s)"
  shows "only_discovers (sg_done s')" "Did_discover ep r \<in> set (sg_done s')"
  using perform_done [OF assms(1)] assms(2) by (auto simp: only_discovers_def)

lemma af_attempt_searched:
  assumes "af_attempt env opts ep s = (c, s')" "only_discovers (sg_done s)"
  shows "searched env opts c s'"
proof (cases "\<exists>mac e. parse_hw_address (ae_sa ep) = Some mac \<and> sv_v6 env (eui64_link_local mac) (ae_port ep) (Some (so_iface opts)) = Ok e")
  case False
  then show ?thesis using assms by (auto simp: af_attempt_def searched_def split: option.splits result.splits)
next
  case True
  then obtain mac e where e: "parse_hw_address (ae_sa ep) = Some mac" "sv_v6 env (eui64_link_local mac) (ae_port ep) (Some (so_iface opts)) = Ok e" by blast
  obtain r s1 where d: "discover_peer env e s = (r, s1)" by fastforce
  show ?thesis using assms(1) e d discover_searched [OF d assms(2)]
    by (auto simp: af_attempt_def searched_def answered_def split: option.splits result.splits if_splits)
qed

lemma af_loop_searched: "af_loop env opts until n s = (c, s') \<Longrightarrow> only_discovers (sg_done s) \<Longrightarrow> searched env opts c s'"
proof (induction n arbitrary: s)
  case (Suc n)
  show ?case
  proof (cases "sv_now env (sg_world s) \<ge> until \<or> freshest env opts (sg_world s) = None")
    case True
    then have "c = None \<and> s' = s" using Suc.prems(1) by (auto split: if_splits)
    then show ?thesis using Suc.prems(2) by (simp add: searched_def)
  next
    case False
    then obtain ep where "freshest env opts (sg_world s) = Some ep" by auto
    moreover obtain c1 s1 where a: "af_attempt env opts ep s = (c1, s1)" by fastforce
    moreover have "searched env opts c1 s1" using a Suc.prems(2) by (rule af_attempt_searched)
    ultimately show ?thesis using Suc False by (auto simp: searched_def split: option.splits)
  qed
qed (simp add: searched_def)

lemma on_add_searched:
  assumes "on_add env opts f s = (c, s')" "only_discovers (sg_done s)"
  shows "searched env opts c s'"
proof (cases "\<exists>first rest ep. fd_addrs f = first # rest \<and> advert_wanted opts f \<and>
    sv_v6 env first (unat (fd_port f)) (if is_link_local first then Some (so_iface opts) else None) = Ok ep")
  case False
  then show ?thesis using assms unfolding on_add_def searched_def by (auto split: list.splits result.splits if_splits)
next
  case True
  then obtain first rest ep where e: "fd_addrs f = first # rest" "advert_wanted opts f"
    "sv_v6 env first (unat (fd_port f)) (if is_link_local first then Some (so_iface opts) else None) = Ok ep" by blast
  obtain r s1 where d: "discover_peer env ep s = (r, s1)" by fastforce
  show ?thesis using assms(1) e d discover_searched [OF d assms(2)]
    unfolding on_add_def searched_def answered_def by (auto split: option.splits result.splits if_splits)
qed

lemma browse_all_searched: "browse_all env opts fs s = (c, s') \<Longrightarrow> only_discovers (sg_done s) \<Longrightarrow> searched env opts c s'"
proof (induction fs arbitrary: s)
  case (Cons f fs)
  obtain c1 s1 where a: "on_add env opts f s = (c1, s1)" by fastforce
  have "searched env opts c1 s1" using a Cons.prems(2) by (rule on_add_searched)
  with a Cons show ?case by (auto simp: searched_def split: option.splits)
qed (simp add: searched_def)

lemma try_discover_searched:
  assumes "try_discover env direct s = (r, s')" "only_discovers (sg_done s)"
  shows "only_discovers (sg_done s') \<and> (\<forall>ep name. r = Ok (ep, name) \<longrightarrow> Did_discover ep (Ok name) \<in> set (sg_done s'))"
proof (cases "\<exists>host port ep. split_direct direct = Some (host, port) \<and> sv_resolve env host port = Ok ep")
  case False
  then show ?thesis using assms by (auto simp: try_discover_def split: option.splits prod.splits result.splits)
next
  case True
  then obtain host port ep where e: "split_direct direct = Some (host, port)" "sv_resolve env host port = Ok ep" by blast
  obtain x s1 where d: "discover_peer env ep s = (x, s1)" by fastforce
  show ?thesis using assms(1) e d discover_searched [OF d assms(2)] by (auto simp: try_discover_def split: result.splits)
qed

lemma direct_attempt_searched:
  assumes "direct_attempt env opts direct s = (r, s')" "only_discovers (sg_done s)"
  shows "only_discovers (sg_done s') \<and> (\<forall>ep name. r = Ok (ep, name) \<longrightarrow> Did_discover ep (Ok name) \<in> set (sg_done s'))"
proof -
  obtain x s1 where x: "try_discover env direct s = (x, s1)" by fastforce
  note first = try_discover_searched [OF x assms(2)]
  show ?thesis
  proof (cases "\<exists>e. x = Err e \<and> \<not> so_discover_only opts \<and> pe_class (py_of_io (sv_strerror env) e) \<in> set RETRIED")
    case True
    then have "try_discover env direct (s1\<lparr>sg_world := sv_sleep env (sg_world s1)\<rparr>) = (r, s')"
      using assms(1) x by (auto simp: direct_attempt_def)
    from try_discover_searched [OF this] first show ?thesis by simp
  next
    case False
    then have "r = x \<and> s' = s1" using assms(1) x by (auto simp: direct_attempt_def split: result.splits if_splits)
    with first show ?thesis by simp
  qed
qed

lemma search_searched:
  assumes "search_receiver env opts s = (r, s')" "only_discovers (sg_done s)"
  shows "only_discovers (sg_done s') \<and> (\<forall>c. r = Chose c \<longrightarrow> answered env opts (sg_done s') (ch_endpoint c))"
proof -
  obtain c s1 where a: "(if so_af_log opts \<noteq> None \<and> sv_af_log env (sg_world s) \<noteq> None then af_log_attempts env opts s else (None, s)) = (c, s1)"
    by fastforce
  have s1: "searched env opts c s1"
  proof (cases "so_af_log opts \<noteq> None \<and> sv_af_log env (sg_world s) \<noteq> None")
    case True
    with a have "af_log_attempts env opts s = (c, s1)" by simp
    then show ?thesis unfolding af_log_attempts_def Let_def using assms(2) by (rule af_loop_searched)
  next
    case False
    with a assms(2) show ?thesis by (auto simp: searched_def)
  qed
  show ?thesis
  proof (cases "c = None \<and> sv_browser env (sg_world s1) \<noteq> None")
    case False
    then show ?thesis using assms(1) s1 unfolding search_receiver_def a by (auto simp: searched_def split: option.splits)
  next
    case True
    then obtain fs where fs: "c = None" "sv_browser env (sg_world s1) = Some fs" by auto
    obtain c2 s2 where b: "browse_all env opts fs s1 = (c2, s2)" by fastforce
    have "searched env opts c2 s2" using b by (rule browse_all_searched) (use s1 in \<open>simp add: searched_def\<close>)
    then show ?thesis using assms(1) fs b unfolding search_receiver_def a by (auto simp: searched_def split: option.splits)
  qed
qed

lemma transfer_exchange:
  assumes "transfer env sd opts c s = (code, s')" "only_discovers (sg_done s)" "answered env opts (sg_done s) (ch_endpoint c)"
  shows "exchange env sd opts (sg_done s') code"
proof -
  let ?ep = "ch_endpoint c"
  obtain x w where x: "sv_connect env ?ep (sg_world s) = (x, w)" by fastforce
  show ?thesis
  proof (cases x)
    case (Err e)
    then show ?thesis using assms x by (auto simp: transfer_def intro: not_asked)
  next
    case (Ok u)
    obtain rand w' where rand: "sv_random env w = (rand, w')" by fastforce
    define body where "body = (if so_urls opts = [] then ask_files_dict sd (transfer_id rand) (sv_icon env (so_files opts)) (so_files opts)
      else ask_links_dict sd (transfer_id rand) (so_urls opts))"
    obtain r s1 where r: "perform (sv_ask env ?ep body) (Did_ask ?ep body) (s\<lparr>sg_world := w'\<rparr>) = (r, s1)" by fastforce
    have s1: "sg_done s1 = sg_done s @ [Did_ask ?ep body r]" using perform_done [OF r] by simp
    show ?thesis
    proof (cases "r = Ok True")
      case False
      then have "code = 3 \<and> s' = s1" using assms(1) x Ok rand r
        by (auto simp: transfer_def Let_def body_def split: result.splits bool.splits)
      then show ?thesis using not_accepted [OF assms(2,3) False] s1 by simp
    next
      case True
      show ?thesis
      proof (cases "so_urls opts = []")
        case False
        then have "code = 0 \<and> s' = s1" using assms(1) x Ok rand r True by (auto simp: transfer_def Let_def body_def)
        then show ?thesis using links_taken [OF assms(2,3) False] s1 True False by (simp add: body_def)
      next
        case no_urls: True
        let ?h = "upload_headers (so_files opts) (transfer_id rand)"
        obtain q s2 where q: "perform (sv_upload env ?ep ?h (so_files opts)) (Did_upload ?ep ?h) s1 = (q, s2)" by fastforce
        have "s' = s2 \<and> code = (if q = Ok True then 0 else 4)" using assms(1) x Ok rand r True no_urls q
          by (auto simp: transfer_def Let_def body_def split: result.splits bool.splits)
        then show ?thesis using files_taken [OF assms(2,3) no_urls, of sd rand "sv_icon env (so_files opts)" q] perform_done [OF q] s1 True no_urls
          by (simp add: body_def)
      qed
    qed
  qed
qed

text \<open>
  C34. Whatever the surroundings answer, airdrop-send asks at most once and uploads at most once, only to a receiver
  that answered a Discover of this run (by the name asked for, when it searched for a name), on the same endpoint,
  the upload only after that Ask was accepted and under its transfer identifier; and it exits with 0
  exactly when everything was accepted, or when only a name was to be looked up and the peer answered.
\<close>

theorem run_is_an_exchange:
  assumes "run env sd opts s = (code, out, s')" "sg_done s = []"
  shows "exchange env sd opts (sg_done s') code"
proof -
  have start: "only_discovers (sg_done s)" using assms(2) by (simp add: only_discovers_def)
  show ?thesis
  proof (cases "so_direct opts")
    case (Some direct)
    obtain r s1 where a: "direct_attempt env opts direct s = (r, s1)" by fastforce
    note d = direct_attempt_searched [OF a start]
    show ?thesis
    proof (cases r)
      case (Err e)
      then show ?thesis using assms(1) Some a d by (auto simp: run_def intro: not_asked)
    next
      case (Ok x)
      obtain ep name where x: "x = (ep, name)" by fastforce
      then have ans: "answered env opts (sg_done s1) ep" using d Ok Some by (auto simp: answered_def)
      show ?thesis
      proof (cases "so_discover_only opts")
        case True
        then show ?thesis using assms(1) Some a d Ok x ans by (auto simp: run_def intro: looked_up)
      next
        case False
        then show ?thesis using assms(1) Some a d Ok x ans
          by (auto simp: run_def split: prod.splits intro: transfer_exchange)
      qed
    qed
  next
    case None
    obtain r s1 where a: "search_receiver env opts s = (r, s1)" by fastforce
    note d = search_searched [OF a start]
    show ?thesis using assms(1) None a d
      by (cases r) (auto simp: run_def split: prod.splits intro: not_asked transfer_exchange)
  qed
qed

text \<open>An endpoint that answers, takes the connection, accepts the Ask and stores the Upload gets the files: the run ends with 0.\<close>

definition willing_env :: "endpoint \<Rightarrow> (unit, nat) sender_env" where [eval_defs]:
  "willing_env ep =
     \<lparr>sv_resolve = (\<lambda>host port. Ok ep), sv_v6 = (\<lambda>_ _ _. Ok ep), sv_discover = (\<lambda>_ w. (Ok (Some (lit ''phone'')), w)),
      sv_connect = (\<lambda>_ w. (Ok (), w)), sv_random = (\<lambda>w. (replicate 16 0, w)), sv_icon = (\<lambda>_. None),
      sv_ask = (\<lambda>_ _ w. (Ok True, w)), sv_upload = (\<lambda>_ _ _ w. (Ok True, w)), sv_now = (\<lambda>_. 0),
      sv_af_deadline = (\<lambda>_ _ _. 0), sv_sleep = id, sv_af_log = (\<lambda>_. None), sv_browser = (\<lambda>_. Some []),
      sv_strerror = (\<lambda>_. []), sv_lower = id, sv_floats = nat_floats, sv_rank = int\<rparr>"

definition one_file_options :: "ustr \<Rightarrow> nat send_options" where [eval_defs]:
  "one_file_options direct =
     \<lparr>so_files = [\<lparr>og_path = lit ''a'', og_name = lit ''a'', og_size = 1\<rparr>], so_urls = [], so_iface = lit ''awdl0'', so_discover_only = False,
      so_to = None, so_timeout = 60, so_ask_timeout = None, so_op_timeout = None, so_op_timeout_secs = 20, so_af_attempts = 1,
      so_auth_tag = None, so_should_convert = False, so_direct = Some direct, so_af_log = None, so_name = lit ''pc'', so_model = lit ''m'',
      so_verbose = False, so_keys = None\<rparr>"

lemma direct_send:
  fixes env :: "('w, 'f) sender_env"
  assumes "so_direct opts = Some direct" "split_direct direct = Some (host, port)" "sv_resolve env host port = Ok ep"
    and "\<And>w. fst (sv_discover env ep w) = Ok name" "\<And>w. fst (sv_connect env ep w) = Ok ()"
    and "\<And>body w. fst (sv_ask env ep body w) = Ok True" "\<And>h files w. fst (sv_upload env ep h files w) = Ok True"
    and "\<not> so_discover_only opts"
  shows "\<exists>s'. run env sd opts s = (0, [], s')"
proof -
  have p: "\<exists>s1. perform q nt s = (fst (q (sg_world s)), s1)" for q :: "'w \<Rightarrow> ('c, io_failure) result \<times> 'w" and nt and s :: "'w sending"
    by (cases "q (sg_world s)") (simp add: perform_def)
  obtain s1 where d: "discover_peer env ep s = (Ok name, s1)" using p [of "sv_discover env ep" "Did_discover ep" s] assms(4) by auto
  have "direct_attempt env opts direct s = (Ok (ep, name), s1)" using assms(2,3) d by (simp add: direct_attempt_def try_discover_def)
  moreover have "\<exists>s'. transfer env sd opts \<lparr>ch_ident = lit ''direct'', ch_name = name, ch_endpoint = ep\<rparr> s1 = (0, s')"
  proof -
    obtain w where w: "sv_connect env ep (sg_world s1) = (Ok (), w)" using assms(5) [of "sg_world s1"] by (metis prod.collapse)
    obtain rand w' where r: "sv_random env w = (rand, w')" by fastforce
    have a: "\<exists>s2. perform (sv_ask env ep body) (Did_ask ep body) x = (Ok True, s2)" for body x
      using p [of "sv_ask env ep body" "Did_ask ep body" x] assms(6) by auto
    have u: "\<exists>s3. perform (sv_upload env ep h files) (Did_upload ep h) x = (Ok True, s3)" for h files x
      using p [of "sv_upload env ep h files" "Did_upload ep h" x] assms(7) by auto
    define body where "body = (if so_urls opts = [] then ask_files_dict sd (transfer_id rand) (sv_icon env (so_files opts)) (so_files opts)
      else ask_links_dict sd (transfer_id rand) (so_urls opts))"
    obtain s2 where s2: "perform (sv_ask env ep body) (Did_ask ep body) (s1\<lparr>sg_world := w'\<rparr>) = (Ok True, s2)" using a by blast
    obtain s3 where "perform (sv_upload env ep (upload_headers (so_files opts) (transfer_id rand)) (so_files opts))
      (Did_upload ep (upload_headers (so_files opts) (transfer_id rand))) s2 = (Ok True, s3)" using u by blast
    with w r s2 show ?thesis by (simp add: transfer_def Let_def body_def)
  qed
  ultimately show ?thesis using assms(1,8) by (auto simp: run_def)
qed

definition door_endpoint :: endpoint where [eval_defs]:
  "door_endpoint = \<lparr>ep_addr = replicate 15 0 @ [1], ep_port = 8770, ep_host = lit ''::1''\<rparr>"

theorem run_is_an_exchange_witness:
  "\<exists>s'. run (willing_env door_endpoint) door_sender (one_file_options (lit ''[::1]:8770'')) \<lparr>sg_world = (), sg_done = []\<rparr> = (0, [], s')
     \<and> exchange (willing_env door_endpoint) door_sender (one_file_options (lit ''[::1]:8770'')) (sg_done s') 0"
proof -
  let ?o = "one_file_options (lit ''[::1]:8770'')"
  have "\<exists>host. split_direct (lit ''[::1]:8770'') = Some (host, 8770)" by (simp add: eval_defs)
  then obtain host where "split_direct (lit ''[::1]:8770'') = Some (host, 8770)" by blast
  then have "\<exists>s'. run (willing_env door_endpoint) door_sender ?o \<lparr>sg_world = (), sg_done = []\<rparr> = (0, [], s')"
    by (intro direct_send [of ?o]) (simp_all add: one_file_options_def willing_env_def)
  with run_is_an_exchange show ?thesis by fastforce
qed

text \<open>
  A receiver looked for by its service identifier is the one chosen. One looked for by its address is not found by the
  browser, because the name it answers with is compared with the address too.
\<close>

lemma chosen_has_id:
  assumes "search_receiver env opts s = (Chose c, s')" "so_to opts = Some t" "to_is_id t"
  shows "eq_ignore_ascii_case t (ch_ident c)"
proof -
  have af: "eq_ignore_ascii_case t (ch_ident c)" if "af_loop env opts until n s = (Some c, s')" for until n s s'
    using that
  proof (induction n arbitrary: s)
    case (Suc n)
    then obtain ep where ep: "freshest env opts (sg_world s) = Some ep" by (auto split: if_splits option.splits)
    then have "eq_ignore_ascii_case t (ae_id ep)"
      using assms(2,3) by (auto simp: freshest_def Let_def find_Some_iff)
    with Suc ep show ?case
      by (auto simp: af_attempt_def split: if_splits option.splits prod.splits result.splits)
  qed simp
  have br: "eq_ignore_ascii_case t (ch_ident c)" if "browse_all env opts fs s = (Some c, s')" for fs s s'
    using that
  proof (induction fs arbitrary: s)
    case (Cons f fs)
    show ?case
    proof (cases "\<exists>s1. on_add env opts f s = (Some c, s1)")
      case True
      then show ?thesis using assms(2,3) unfolding on_add_def advert_wanted_def
        by (auto split: if_splits option.splits prod.splits result.splits list.splits)
    next
      case False
      with Cons show ?thesis by (auto split: option.splits prod.splits)
    qed
  qed simp
  show ?thesis using assms(1) unfolding search_receiver_def af_log_attempts_def Let_def
    by (auto split: if_splits option.splits prod.splits dest: af br)
qed

lemma address_not_browsed:
  assumes "so_to opts = Some t" "\<not> to_is_id t" "0x3a \<in> set t"
    and "\<And>ep w name. fst (sv_discover env ep w) = Ok (Some name) \<Longrightarrow> \<not> names_match env name t"
  shows "fst (browse_all env opts fs s) = None"
proof (induction fs arbitrary: s)
  case (Cons f fs)
  have "fst (on_add env opts f s) = None"
  proof (cases "fst (on_add env opts f s)")
    case (Some c)
    then show ?thesis using assms unfolding on_add_def perform_def
      by (auto split: if_splits option.splits prod.splits result.splits list.splits) (metis fst_conv)+
  qed simp
  with Cons show ?case by (auto split: prod.splits option.splits)
qed simp

end
