(* ===== verification/Contract.thy ===== *)
theory Contract
  imports Settings Radio
begin

text \<open>
  The identity contract (omdrop-identity/src/contract.rs and resolver.rs, docs/identity-contract.md): the settings and
  window files, the payload of the identity cache, which identity every program presents, and the reading of the real state
  it rests on. Parameters: the JSON parser and quoting, the file reads, the keyring and the match of a key with a certificate.
\<close>

section \<open>Settings and window files\<close>

type_synonym keyed = "ustr \<rightharpoonup> ustr"

definition line_boundary :: "uchar \<Rightarrow> bool" where [eval_defs]:
  "line_boundary c \<longleftrightarrow> c \<in> {0x0a, 0x0d, 0x0b, 0x0c, 0x1c, 0x1d, 0x1e, 0x85, 0x2028, 0x2029}"

function splitlines :: "ustr \<Rightarrow> ustr list" where
  "splitlines text =
     (case dropWhile (\<lambda>c. \<not> line_boundary c) text of
        [] \<Rightarrow> if text = [] then [] else [text]
      | c # rest \<Rightarrow>
          takeWhile (\<lambda>c. \<not> line_boundary c) text # splitlines (if c = 0x0d \<and> starts_with rest [0x0a] then tl rest else rest))"
  by pat_completeness auto
termination
proof (relation "measure length")
  fix t c rest
  assume "dropWhile (\<lambda>c. \<not> line_boundary c) t = c # rest"
  then have "length (c # rest) \<le> length t" by (metis length_dropWhile_le)
  then show "(if c = 0x0d \<and> starts_with rest [0x0a] then tl rest else rest, t) \<in> measure length" by auto
qed simp

declare splitlines.simps [simp del]

definition parse_settings :: "ustr \<Rightarrow> keyed" where [eval_defs]:
  "parse_settings text =
     fold (\<lambda>line m. case split_once (lit ''='') line of Some (k, v) \<Rightarrow> m(k \<mapsto> v) | None \<Rightarrow> m) (splitlines text) Map.empty"

definition is_fetch_id :: "ustr \<Rightarrow> bool" where [eval_defs]:
  "is_fetch_id s \<longleftrightarrow> str_len s = 32 \<and> list_all (\<lambda>c. is_ascii_digit c \<or> 0x61 \<le> c \<and> c \<le> 0x66) s"

datatype id_window = One_password (iw_fetch_id: ustr) (iw_hard_expiry: int) | On_disk | Self_made

definition window_source :: "id_window \<Rightarrow> ustr" where [eval_defs]:
  "window_source w =
     (case w of One_password _ _ \<Rightarrow> lit ''1password'' | On_disk \<Rightarrow> lit ''disk'' | Self_made \<Rightarrow> lit ''self-signed'')"

definition text_or_empty :: "ustr option \<Rightarrow> ustr" where [eval_defs]:
  "text_or_empty v = (case v of Some t \<Rightarrow> t | None \<Rightarrow> [])"

definition parse_window :: "ustr \<Rightarrow> id_window option" where [eval_defs]:
  "parse_window text =
     (let entries = parse_settings text
      in case entries (lit ''source'') of
           None \<Rightarrow> None
         | Some src \<Rightarrow>
             if src = lit ''disk'' then Some On_disk
             else if src = lit ''self-signed'' then Some Self_made
             else if src = lit ''1password''
             then (let fetch_id = text_or_empty (entries (lit ''fetch_id'')); expiry = text_or_empty (entries (lit ''hard_expiry''))
                   in if \<not> is_fetch_id fetch_id \<or> expiry = [] \<or> \<not> list_all is_ascii_digit expiry then None
                      else Some (One_password fetch_id (case parse_i64 expiry of Some n \<Rightarrow> n | None \<Rightarrow> 2 ^ 63 - 1)))
             else None)"

section \<open>The cache payload\<close>

definition ID_MAGIC :: bytes where [eval_defs]:
  "ID_MAGIC = blit ''OMDROP-IDENTITY 1''"

definition MAX_LIFETIME :: int where [eval_defs]:
  "MAX_LIFETIME = 86400"

definition MAX_PART :: nat where [eval_defs]:
  "MAX_PART = 16384"

definition MAX_PAYLOAD :: nat where [eval_defs]:
  "MAX_PAYLOAD = 32767"

definition HEADER_KEYS :: "ustr list" where [eval_defs]:
  "HEADER_KEYS =
     [lit ''certificate'', lit ''fetch_id'', lit ''fetched_at'', lit ''hard_expiry'', lit ''key'', lit ''period_ends'', lit ''record'']"

text \<open>A JSON value as the header is looked at: an integer, a text, or anything else.\<close>

datatype json_value = JInt int | JText ustr | JOther

record payload =
  pl_fetch_id :: ustr
  pl_fetched_at :: int
  pl_period_ends :: int
  pl_hard_expiry :: int
  pl_certificate :: bytes
  pl_key :: bytes
  pl_record :: bytes

definition nonneg_int :: "json_value \<Rightarrow> int option" where [eval_defs]:
  "nonneg_int v = (case v of JInt n \<Rightarrow> if 0 \<le> n \<and> n < 2 ^ 63 then Some n else None | _ \<Rightarrow> None)"

definition part_length :: "json_value \<Rightarrow> nat option" where [eval_defs]:
  "part_length v = (case nonneg_int v of Some n \<Rightarrow> if 1 \<le> n \<and> n \<le> int MAX_PART then Some (nat n) else None | None \<Rightarrow> None)"

text \<open>The times, in order and at most a day apart; the three lengths.\<close>

definition header_times :: "(ustr \<rightharpoonup> json_value) \<Rightarrow> (int \<times> int \<times> int) option" where [eval_defs]:
  "header_times members =
     Option.bind (Option.bind (members (lit ''fetched_at'')) nonneg_int) (\<lambda>t0.
     Option.bind (Option.bind (members (lit ''period_ends'')) nonneg_int) (\<lambda>t1.
     Option.bind (Option.bind (members (lit ''hard_expiry'')) nonneg_int) (\<lambda>t2.
       if \<not> (t0 \<le> t1 \<and> t1 \<le> t2) \<or> t2 - t0 > MAX_LIFETIME then None else Some (t0, t1, t2))))"

definition header_lengths :: "(ustr \<rightharpoonup> json_value) \<Rightarrow> (nat \<times> nat \<times> nat) option" where [eval_defs]:
  "header_lengths members =
     Option.bind (Option.bind (members (lit ''certificate'')) part_length) (\<lambda>c.
     Option.bind (Option.bind (members (lit ''key'')) part_length) (\<lambda>k.
     Option.bind (Option.bind (members (lit ''record'')) part_length) (\<lambda>r. Some (c, k, r))))"

definition header_fetch_id :: "(ustr \<rightharpoonup> json_value) \<Rightarrow> ustr option" where [eval_defs]:
  "header_fetch_id members =
     (case members (lit ''fetch_id'') of Some (JText t) \<Rightarrow> if is_fetch_id t then Some t else None | _ \<Rightarrow> None)"

definition split_newline :: "bytes \<Rightarrow> (bytes \<times> bytes) option" where [eval_defs]:
  "split_newline b = (if 10 \<in> set b then Some (takeWhile (\<lambda>c. c \<noteq> 10) b, tl (dropWhile (\<lambda>c. c \<noteq> 10) b)) else None)"

definition payload_of :: "(ustr \<times> json_value) list \<Rightarrow> bytes \<Rightarrow> payload option" where [eval_defs]:
  "payload_of members body =
     (if \<not> distinct (map fst members) \<or> length members \<noteq> length HEADER_KEYS \<or> \<not> set HEADER_KEYS \<subseteq> set (map fst members) then None
      else Option.bind (header_fetch_id (map_of members)) (\<lambda>fetch_id.
           Option.bind (header_times (map_of members)) (\<lambda>(t0, t1, t2).
           Option.bind (header_lengths (map_of members)) (\<lambda>(c, k, r).
             if length body \<noteq> c + k + r then None
             else Some \<lparr>pl_fetch_id = fetch_id, pl_fetched_at = t0, pl_period_ends = t1, pl_hard_expiry = t2,
                        pl_certificate = take c body, pl_key = take k (drop c body), pl_record = drop (c + k) body\<rparr>))))"

definition parse_payload :: "(bytes \<Rightarrow> (ustr \<times> json_value) list option) \<Rightarrow> bytes \<Rightarrow> payload option" where [eval_defs]:
  "parse_payload json data =
     (if length data > MAX_PAYLOAD then None
      else Option.bind (split_newline data) (\<lambda>(first, rest).
           if first \<noteq> ID_MAGIC then None
           else Option.bind (split_newline rest) (\<lambda>(header, body).
                Option.bind (json header) (\<lambda>members. payload_of members body))))"

definition payload_header :: "(ustr \<Rightarrow> ustr) \<Rightarrow> ustr \<Rightarrow> int \<Rightarrow> int \<Rightarrow> int \<Rightarrow> nat \<Rightarrow> nat \<Rightarrow> nat \<Rightarrow> ustr" where [eval_defs]:
  "payload_header quote fetch_id t0 t1 t2 c k r =
     (let q = [0x22]; name = (\<lambda>n. q @ lit n @ q @ lit '':'')
      in lit ''{'' @ name ''certificate'' @ dec c @ lit '','' @ name ''fetch_id'' @ quote fetch_id @ lit '','' @ name ''fetched_at'' @ int_text t0
         @ lit '','' @ name ''hard_expiry'' @ int_text t2 @ lit '','' @ name ''key'' @ dec k @ lit '','' @ name ''period_ends'' @ int_text t1
         @ lit '','' @ name ''record'' @ dec r @ lit ''}'')"

definition encode_payload :: "(bytes \<Rightarrow> (ustr \<times> json_value) list option) \<Rightarrow> (ustr \<Rightarrow> ustr) \<Rightarrow> ustr \<Rightarrow> int \<Rightarrow> int \<Rightarrow> int
    \<Rightarrow> bytes \<Rightarrow> bytes \<Rightarrow> bytes \<Rightarrow> bytes option" where [eval_defs]:
  "encode_payload json quote fetch_id t0 t1 t2 cert key rec =
     (let data = ID_MAGIC @ [10] @ as_bytes (payload_header quote fetch_id t0 t1 t2 (length cert) (length key) (length rec)) @ [10]
                 @ cert @ key @ rec
      in case parse_payload json data of None \<Rightarrow> None | Some _ \<Rightarrow> Some data)"

section \<open>Selection\<close>

datatype origin = From_cache | From_disk | From_pair

datatype window_state = No_window | Unparseable | Parsed id_window

datatype cache_state = No_cache | Malformed | Cached ustr int

record disk_state =
  dk_certificate :: bool
  dk_key :: bool
  dk_matches :: bool
  dk_record :: bool

record pair_state =
  pr_certificate :: bool
  pr_key :: bool

record choice =
  co_identity :: origin
  co_record :: bool
  co_create :: bool
  co_warnings :: "ustr list"

definition self_signed :: "pair_state \<Rightarrow> bool \<Rightarrow> ustr list \<Rightarrow> (choice, ustr) result" where [eval_defs]:
  "self_signed pair root warnings =
     (if pr_certificate pair \<and> pr_key pair
      then Ok \<lparr>co_identity = From_pair, co_record = False, co_create = False, co_warnings = sort warnings\<rparr>
      else if pr_certificate pair \<or> pr_key pair then Err (lit ''self-signed-half-pair'')
      else if root then Err (lit ''self-signed-missing'')
      else Ok \<lparr>co_identity = From_pair, co_record = False, co_create = True, co_warnings = sort warnings\<rparr>)"

definition disk_choice :: "disk_state \<Rightarrow> choice" where [eval_defs]:
  "disk_choice disk = \<lparr>co_identity = From_disk, co_record = dk_record disk, co_create = False, co_warnings = []\<rparr>"

definition select_mode :: "keyed \<Rightarrow> window_state \<Rightarrow> ustr" where [eval_defs]:
  "select_mode settings window =
     (case window of
        Parsed w \<Rightarrow> window_source w
      | _ \<Rightarrow> (case settings (lit ''identity_source'') of Some m \<Rightarrow> m | None \<Rightarrow> lit ''disk''))"

definition select_identity :: "keyed \<Rightarrow> window_state \<Rightarrow> cache_state \<Rightarrow> disk_state \<Rightarrow> pair_state \<Rightarrow> bool \<Rightarrow> int \<Rightarrow> (choice, ustr) result" where [eval_defs]:
  "select_identity settings window cache disk pair root now =
     (case window of
        Unparseable \<Rightarrow> Err (lit ''window-unparseable'')
      | Parsed (One_password fetch_id hard_expiry) \<Rightarrow>
          if hard_expiry \<le> now then Err (lit ''window-expired'')
          else (case cache of
                  No_cache \<Rightarrow> Err (lit ''cache-missing'')
                | Malformed \<Rightarrow> Err (lit ''cache-malformed'')
                | Cached f e \<Rightarrow>
                    if f \<noteq> fetch_id then Err (lit ''cache-mismatch'')
                    else if e \<le> now then Err (lit ''cache-expired'')
                    else Ok \<lparr>co_identity = From_cache, co_record = True, co_create = False, co_warnings = []\<rparr>)
      | Parsed On_disk \<Rightarrow>
          if \<not> (dk_certificate disk \<and> dk_key disk) then Err (lit ''disk-missing'')
          else if \<not> dk_matches disk then Err (lit ''disk-mismatch'')
          else Ok (disk_choice disk)
      | Parsed Self_made \<Rightarrow> self_signed pair root []
      | No_window \<Rightarrow>
          (let m = select_mode settings window
           in if m = lit ''1password'' \<or> m = lit ''self-signed'' then self_signed pair root []
              else if m \<noteq> lit ''disk'' then self_signed pair root [lit ''unknown-mode'']
              else if dk_certificate disk \<and> dk_key disk
              then (if dk_matches disk then Ok (disk_choice disk) else self_signed pair root [lit ''disk-mismatch''])
              else if dk_certificate disk \<or> dk_key disk then self_signed pair root [lit ''disk-incomplete'']
              else self_signed pair root []))"

section \<open>Reading the real state\<close>

text \<open>
  What a program's surroundings gave: each file (absent, its bytes, or unreadable), the keyring, whether core dumps could be
  turned off, which files exist, whether a key matches a certificate, and creating the self-signed pair, after which it is read.
\<close>

datatype ident_file = Settings_file | Window_file | Certificate_file | Key_file | Record_file

record resolver =
  rv_file :: "ident_file \<Rightarrow> (bytes option, unit) result"
  rv_keyring :: "int option \<Rightarrow> (bytes option, unit) result"
  rv_as_user :: "(int option \<Rightarrow> (bytes option, unit) result) option"
  rv_protect :: bool
  rv_have :: "(bool \<times> bool \<times> bool \<times> bool \<times> bool) option"
  rv_matches :: "bytes \<Rightarrow> bytes \<Rightarrow> bool"
  rv_root :: bool
  rv_make_pair :: "ustr \<Rightarrow> (unit, ustr) result"
  rv_pair :: "(bytes option \<times> bytes option, unit) result"
  rv_hostname :: ustr
  rv_json :: "bytes \<Rightarrow> (ustr \<times> json_value) list option"

record identity =
  id_source :: origin
  id_certificate :: bytes
  id_key :: bytes
  id_record :: "bytes option"
  id_warnings :: "ustr list"

definition keyring_read :: "(int option \<Rightarrow> (bytes option, unit) result) \<Rightarrow> int option \<Rightarrow> (bytes option, unit) result" where [eval_defs]:
  "keyring_read read serial =
     then_ok (read None) (\<lambda>data. case (data, serial) of (None, Some s) \<Rightarrow> read (Some s) | _ \<Rightarrow> Ok data)"

definition read_cache :: "resolver \<Rightarrow> int option \<Rightarrow> (bytes option, ustr) result" where [eval_defs]:
  "read_cache env serial =
     (case rv_as_user env of
        Some read \<Rightarrow> (case read serial of Ok x \<Rightarrow> Ok x | Err _ \<Rightarrow> Err (lit ''cache-unreadable-as-root''))
      | None \<Rightarrow>
          (case keyring_read (rv_keyring env) serial of
             Ok x \<Rightarrow> Ok x
           | Err _ \<Rightarrow> Err (if rv_root env then lit ''cache-unreadable-as-root'' else lit ''cache-unreadable'')))"

definition resolve_settings :: "resolver \<Rightarrow> (keyed, ustr) result" where [eval_defs]:
  "resolve_settings env =
     (case rv_file env Settings_file of
        Ok None \<Rightarrow> Ok Map.empty
      | Ok (Some b) \<Rightarrow> (case from_utf8 b of Some t \<Rightarrow> Ok (parse_settings t) | None \<Rightarrow> Err (lit ''settings-unreadable''))
      | Err _ \<Rightarrow> Err (lit ''settings-unreadable''))"

definition serial_in :: "ustr \<Rightarrow> int option" where [eval_defs]:
  "serial_in t =
     (case parse_settings t (lit ''cache_serial'') of
        Some s \<Rightarrow> if s \<noteq> [] \<and> list_all is_ascii_digit s then map_option int (from_str_radix (2 ^ 31 - 1) 10 s) else None
      | None \<Rightarrow> None)"

definition resolve_window :: "resolver \<Rightarrow> window_state \<times> int option" where [eval_defs]:
  "resolve_window env =
     (case rv_file env Window_file of
        Ok None \<Rightarrow> (No_window, None)
      | Ok (Some b) \<Rightarrow>
          (case from_utf8 b of
             Some t \<Rightarrow> (case parse_window t of Some w \<Rightarrow> Parsed w | None \<Rightarrow> Unparseable, serial_in t)
           | None \<Rightarrow> (Unparseable, None))
      | Err _ \<Rightarrow> (Unparseable, None))"

text \<open>The cache is looked at only for a live window that names it.\<close>

definition resolve_cache :: "resolver \<Rightarrow> window_state \<Rightarrow> int option \<Rightarrow> int \<Rightarrow> (cache_state \<times> payload option, ustr) result" where [eval_defs]:
  "resolve_cache env window serial now =
     (case window of
        Parsed (One_password fetch_id hard_expiry) \<Rightarrow>
          if hard_expiry \<le> now then Err (lit ''window-expired'')
          else if \<not> rv_protect env then Err (lit ''cache-protection-unavailable'')
          else then_ok (read_cache env serial) (\<lambda>raw.
                 Ok (case raw of
                       None \<Rightarrow> (No_cache, None)
                     | Some data \<Rightarrow>
                         (case parse_payload (rv_json env) data of
                            Some p \<Rightarrow> (Cached (pl_fetch_id p) (pl_hard_expiry p), Some p)
                          | None \<Rightarrow> (Malformed, None))))
      | _ \<Rightarrow> Ok (No_cache, None))"

definition readable :: "(bytes option, unit) result \<Rightarrow> bytes option" where [eval_defs]:
  "readable r = (case r of Ok x \<Rightarrow> x | Err _ \<Rightarrow> None)"

text \<open>The certificate and key on disk, read only when they can be used.\<close>

definition disk_pem :: "resolver \<Rightarrow> ustr \<Rightarrow> bool \<Rightarrow> bool \<Rightarrow> (bytes \<times> bytes) option" where [eval_defs]:
  "disk_pem env m have_cert have_key =
     (if m = lit ''disk'' \<and> have_cert \<and> have_key
      then (case (readable (rv_file env Certificate_file), readable (rv_file env Key_file)) of
              (Some c, Some k) \<Rightarrow> Some (c, k)
            | _ \<Rightarrow> None)
      else None)"

definition present_identity :: "resolver \<Rightarrow> ustr option \<Rightarrow> choice \<Rightarrow> payload option \<Rightarrow> (bytes \<times> bytes) option \<Rightarrow> (identity, ustr) result" where [eval_defs]:
  "present_identity env name ch found disk =
     (case co_identity ch of
        From_cache \<Rightarrow>
          (case found of
             None \<Rightarrow> Err (lit ''cache-missing'')
           | Some p \<Rightarrow> Ok \<lparr>id_source = From_cache, id_certificate = pl_certificate p, id_key = pl_key p, id_record = Some (pl_record p),
                            id_warnings = co_warnings ch\<rparr>)
      | From_disk \<Rightarrow>
          (case disk of
             None \<Rightarrow> Err (lit ''disk-missing'')
           | Some (c, k) \<Rightarrow>
               then_ok (if co_record ch
                        then (case rv_file env Record_file of Ok (Some r) \<Rightarrow> Ok (Some r) | _ \<Rightarrow> Err (lit ''disk-record-unreadable''))
                        else Ok None) (\<lambda>rec.
               Ok \<lparr>id_source = From_disk, id_certificate = c, id_key = k, id_record = rec, id_warnings = co_warnings ch\<rparr>))
      | From_pair \<Rightarrow>
          then_ok (if co_create ch then rv_make_pair env (case name of Some n \<Rightarrow> n | None \<Rightarrow> rv_hostname env) else Ok ()) (\<lambda>_.
          (case rv_pair env of
             Ok (Some c, Some k) \<Rightarrow>
               Ok \<lparr>id_source = From_pair, id_certificate = c, id_key = k, id_record = None, id_warnings = co_warnings ch\<rparr>
           | _ \<Rightarrow> Err (lit ''self-signed-unreadable''))))"

definition resolve_with :: "resolver \<Rightarrow> bool \<Rightarrow> ustr option \<Rightarrow> int \<Rightarrow> (identity, ustr) result" where [eval_defs]:
  "resolve_with env create name now =
     then_ok (resolve_settings env) (\<lambda>settings.
       (case resolve_window env of (window, serial) \<Rightarrow>
          if window = Unparseable then Err (lit ''window-unparseable'')
          else then_ok (resolve_cache env window serial now) (\<lambda>(cache, found).
            (case rv_have env of
               None \<Rightarrow> Err (lit ''invoking-user-invalid'')
             | Some (have_cert, have_key, have_record, have_self_cert, have_self_key) \<Rightarrow>
                 (let pem = disk_pem env (select_mode settings window) have_cert have_key;
                      disk = \<lparr>dk_certificate = have_cert, dk_key = have_key,
                              dk_matches = (case pem of Some (c, k) \<Rightarrow> rv_matches env c k | None \<Rightarrow> False), dk_record = have_record\<rparr>;
                      pair = \<lparr>pr_certificate = have_self_cert, pr_key = have_self_key\<rparr>
                  in then_ok (select_identity settings window cache disk pair (rv_root env \<or> \<not> create) now) (\<lambda>ch.
                       present_identity env name ch found pem))))))"

section \<open>What selection promises\<close>

text \<open>The contract's tables (docs/identity-contract.md, "Selection"): rows in order, the first match wins.\<close>

fun first_match :: "(bool \<times> 'a) list \<Rightarrow> 'a option" where
  "first_match [] = None"
| "first_match ((c, x) # rows) = (if c then Some x else first_match rows)"

definition pair_rows :: "pair_state \<Rightarrow> bool \<Rightarrow> ustr list \<Rightarrow> (bool \<times> (choice, ustr) result) list" where
  "pair_rows pair root ws =
     [(pr_certificate pair \<and> pr_key pair, Ok \<lparr>co_identity = From_pair, co_record = False, co_create = False, co_warnings = ws\<rparr>),
      (pr_certificate pair \<noteq> pr_key pair, Err (lit ''self-signed-half-pair'')),
      (root, Err (lit ''self-signed-missing'')),
      (True, Ok \<lparr>co_identity = From_pair, co_record = False, co_create = True, co_warnings = ws\<rparr>)]"

definition among :: "bool \<Rightarrow> (bool \<times> 'a) list \<Rightarrow> (bool \<times> 'a) list" where
  "among c rows = map (\<lambda>(d, x). (c \<and> d, x)) rows"

definition contract_rows :: "keyed \<Rightarrow> window_state \<Rightarrow> cache_state \<Rightarrow> disk_state \<Rightarrow> pair_state \<Rightarrow> bool \<Rightarrow> int \<Rightarrow> (bool \<times> (choice, ustr) result) list" where
  "contract_rows settings window cache disk pair root now =
     (let on = (case window of Parsed w \<Rightarrow> Some w | _ \<Rightarrow> None);
          apple = (\<exists>f e. on = Some (One_password f e)); f = iw_fetch_id (the on); e = iw_hard_expiry (the on);
          both = dk_certificate disk \<and> dk_key disk;
          from_disk = Ok \<lparr>co_identity = From_disk, co_record = dk_record disk, co_create = False, co_warnings = []\<rparr>;
          from_settings = (window = No_window); m = settings (lit ''identity_source'');
          disk_mode = (m = None \<or> m = Some (lit ''disk''))
      in [(window = Unparseable, Err (lit ''window-unparseable'')),
          (apple \<and> e \<le> now, Err (lit ''window-expired'')),
          (apple \<and> cache = No_cache, Err (lit ''cache-missing'')),
          (apple \<and> cache = Malformed, Err (lit ''cache-malformed'')),
          (apple \<and> (\<exists>f' e'. cache = Cached f' e' \<and> f' \<noteq> f), Err (lit ''cache-mismatch'')),
          (apple \<and> (\<exists>f' e'. cache = Cached f' e' \<and> e' \<le> now), Err (lit ''cache-expired'')),
          (apple, Ok \<lparr>co_identity = From_cache, co_record = True, co_create = False, co_warnings = []\<rparr>),
          (on = Some On_disk \<and> \<not> both, Err (lit ''disk-missing'')),
          (on = Some On_disk \<and> \<not> dk_matches disk, Err (lit ''disk-mismatch'')),
          (on = Some On_disk, from_disk)]
         @ among (on = Some Self_made) (pair_rows pair root [])
         @ among (from_settings \<and> (m = Some (lit ''1password'') \<or> m = Some (lit ''self-signed''))) (pair_rows pair root [])
         @ among (from_settings \<and> \<not> disk_mode) (pair_rows pair root [lit ''unknown-mode''])
         @ [(from_settings \<and> both \<and> dk_matches disk, from_disk)]
         @ among (from_settings \<and> dk_certificate disk \<noteq> dk_key disk) (pair_rows pair root [lit ''disk-incomplete''])
         @ among (from_settings \<and> both) (pair_rows pair root [lit ''disk-mismatch''])
         @ among from_settings (pair_rows pair root []))"

lemma first_match_append: "first_match (a @ b) = (case first_match a of Some x \<Rightarrow> Some x | None \<Rightarrow> first_match b)"
  by (induction a) auto

lemma first_match_pair:
  "sorted ws \<Longrightarrow> first_match (among c (pair_rows pair root ws)) = (if c then Some (self_signed pair root ws) else None)"
  by (auto simp: among_def pair_rows_def self_signed_def sorted_sort_id)

lemma select_as_contracted:
  "first_match (contract_rows settings window cache disk pair root now) = Some (select_identity settings window cache disk pair root now)"
proof (cases window)
  case (Parsed w)
  then show ?thesis
    by (cases w; cases cache)
      (simp_all add: contract_rows_def Let_def first_match_append first_match_pair select_identity_def disk_choice_def)
next
  case No_window
  have k: "lit ''1password'' \<noteq> lit ''disk''" "lit ''self-signed'' \<noteq> lit ''disk''" by (simp_all add: lit_def)
  show ?thesis
  proof (cases "settings (lit ''identity_source'')")
    case None
    then show ?thesis using No_window k
      by (auto simp: contract_rows_def Let_def first_match_append first_match_pair select_identity_def disk_choice_def select_mode_def)
  next
    case (Some m)
    then show ?thesis using No_window k
      by (auto simp: contract_rows_def Let_def first_match_append first_match_pair select_identity_def disk_choice_def select_mode_def)
  qed
qed (simp add: contract_rows_def Let_def select_identity_def)

lemma self_signed_source: "self_signed pair root ws = Ok ch \<Longrightarrow> co_identity ch = From_pair"
  by (auto simp: self_signed_def split: if_splits)

lemma select_Ok:
  assumes "select_identity settings window cache disk pair root now = Ok ch"
  shows "window \<noteq> Unparseable"
    and "window = Parsed (One_password f e) \<Longrightarrow> co_identity ch = From_cache \<and> now < e \<and> (\<exists>e'. cache = Cached f e' \<and> now < e')"
    and "window = Parsed On_disk \<Longrightarrow> co_identity ch = From_disk"
    and "window = Parsed Self_made \<Longrightarrow> co_identity ch = From_pair"
    and "co_identity ch = From_disk \<Longrightarrow> select_mode settings window = lit ''disk'' \<and> dk_matches disk \<and> co_record ch = dk_record disk"
    and "co_identity ch = From_cache \<Longrightarrow> \<exists>f e. window = Parsed (One_password f e)"
  using assms by (auto simp: select_identity_def disk_choice_def select_mode_def window_source_def Let_def
      dest!: self_signed_source split: window_state.splits id_window.splits cache_state.splits if_splits option.splits)

lemma resolve_with_Ok:
  assumes "resolve_with env create name now = Ok i" "resolve_window env = (window, serial)"
  obtains settings cache found have_cert have_key have_record pair ch pem disk where
    "resolve_settings env = Ok settings" "window \<noteq> Unparseable" "resolve_cache env window serial now = Ok (cache, found)"
    "pem = disk_pem env (select_mode settings window) have_cert have_key"
    "disk = \<lparr>dk_certificate = have_cert, dk_key = have_key,
       dk_matches = (case pem of Some (c, k) \<Rightarrow> rv_matches env c k | None \<Rightarrow> False), dk_record = have_record\<rparr>"
    "select_identity settings window cache disk pair (rv_root env \<or> \<not> create) now = Ok ch"
    "present_identity env name ch found pem = Ok i"
    "\<exists>sc sk. rv_have env = Some (have_cert, have_key, have_record, sc, sk)"
  using assms unfolding resolve_with_def
  by (auto simp: Let_def split: prod.splits option.splits if_splits dest!: then_ok_Ok [THEN iffD1] elim!: exE conjE)

lemma present_source: "present_identity env name ch found pem = Ok i \<Longrightarrow> id_source i = co_identity ch"
  by (auto simp: present_identity_def then_ok_Ok split: origin.splits option.splits result.splits prod.splits)

lemma present_cache:
  assumes "present_identity env name ch found pem = Ok i" "co_identity ch = From_cache"
  shows "\<exists>p. found = Some p \<and> id_certificate i = pl_certificate p \<and> id_key i = pl_key p \<and> id_record i = Some (pl_record p)"
  using assms by (auto simp: present_identity_def split: option.splits)

lemma present_disk:
  assumes "present_identity env name ch found pem = Ok i" "co_identity ch = From_disk"
  shows "pem = Some (id_certificate i, id_key i)"
    and "if co_record ch then \<exists>r. rv_file env Record_file = Ok (Some r) \<and> id_record i = Some r else id_record i = None"
  using assms by (auto simp: present_identity_def then_ok_Ok split: option.splits prod.splits if_splits result.splits)

lemma present_pair:
  assumes "present_identity env name ch found pem = Ok i" "co_identity ch = From_pair"
  shows "id_record i = None \<and> rv_pair env = Ok (Some (id_certificate i), Some (id_key i))"
  using assms by (auto simp: present_identity_def then_ok_Ok split: option.splits prod.splits if_splits result.splits)

lemma resolve_cache_Ok:
  assumes "resolve_cache env window serial now = Ok (Cached f e, found)"
  shows "\<exists>data p. read_cache env serial = Ok (Some data) \<and> parse_payload (rv_json env) data = Some p \<and> found = Some p
    \<and> pl_fetch_id p = f \<and> pl_hard_expiry p = e"
proof -
  from assms obtain raw where raw: "read_cache env serial = Ok raw"
    "(case raw of None \<Rightarrow> (No_cache, None)
      | Some data \<Rightarrow> (case parse_payload (rv_json env) data of
          Some p \<Rightarrow> (Cached (pl_fetch_id p) (pl_hard_expiry p), Some p) | None \<Rightarrow> (Malformed, None))) = (Cached f e, found)"
    by (auto simp: resolve_cache_def then_ok_Ok split: window_state.splits id_window.splits if_splits)
  then obtain data where "raw = Some data" by (cases raw) auto
  have "parse_payload (rv_json env) data \<noteq> None"
  proof
    assume "parse_payload (rv_json env) data = None"
    with raw(2) \<open>raw = Some data\<close> show False by simp
  qed
  then obtain p where "parse_payload (rv_json env) data = Some p" by auto
  with raw \<open>raw = Some data\<close> show ?thesis by (intro exI [of _ data] exI [of _ p]) auto
qed

lemma disk_pem_Some:
  "disk_pem env m hc hk = Some (c, k) \<Longrightarrow> rv_file env Certificate_file = Ok (Some c) \<and> rv_file env Key_file = Ok (Some k)"
  by (auto simp: disk_pem_def readable_def split: if_splits option.splits result.splits)

definition record_there :: "resolver \<Rightarrow> bool" where [eval_defs]:
  "record_there env = (case rv_have env of Some (_, _, r, _, _) \<Rightarrow> r | None \<Rightarrow> False)"

text \<open>
  C35. Whatever a program presents is what the contract allows. With a window file the window's choice holds, or there is
  an error: for a window of a 1Password identity it is the cache with the window's own \<open>fetch_id\<close>, neither expired, with
  certificate, key and record of that one payload. Without a window the cache is never used. An identity from the disk is a
  certificate and the key that matches it, with the record only if its file exists; a self-signed one never has a record.
\<close>

theorem presented_as_contracted:
  assumes "resolve_with env create name now = Ok i" "resolve_window env = (window, serial)"
  shows "window \<noteq> Unparseable
    \<and> (\<forall>f e. window = Parsed (One_password f e) \<longrightarrow> id_source i = From_cache \<and> now < e
      \<and> (\<exists>data p. read_cache env serial = Ok (Some data) \<and> parse_payload (rv_json env) data = Some p
           \<and> pl_fetch_id p = f \<and> now < pl_hard_expiry p
           \<and> id_certificate i = pl_certificate p \<and> id_key i = pl_key p \<and> id_record i = Some (pl_record p)))
    \<and> (window = Parsed On_disk \<longrightarrow> id_source i = From_disk)
    \<and> (window = Parsed Self_made \<longrightarrow> id_source i = From_pair)
    \<and> (window = No_window \<longrightarrow> id_source i \<noteq> From_cache)
    \<and> (id_source i = From_disk \<longrightarrow>
      rv_file env Certificate_file = Ok (Some (id_certificate i)) \<and> rv_file env Key_file = Ok (Some (id_key i))
      \<and> rv_matches env (id_certificate i) (id_key i)
      \<and> (if record_there env then \<exists>r. rv_file env Record_file = Ok (Some r) \<and> id_record i = Some r else id_record i = None))
    \<and> (id_source i = From_pair \<longrightarrow> id_record i = None \<and> rv_pair env = Ok (Some (id_certificate i), Some (id_key i)))"
proof -
  obtain settings cache found hc hk hr pair ch pem disk where r: "window \<noteq> Unparseable"
    "resolve_cache env window serial now = Ok (cache, found)" "pem = disk_pem env (select_mode settings window) hc hk"
    "disk = \<lparr>dk_certificate = hc, dk_key = hk, dk_matches = (case pem of Some (c, k) \<Rightarrow> rv_matches env c k | None \<Rightarrow> False), dk_record = hr\<rparr>"
    "select_identity settings window cache disk pair (rv_root env \<or> \<not> create) now = Ok ch"
    "present_identity env name ch found pem = Ok i" "\<exists>sc sk. rv_have env = Some (hc, hk, hr, sc, sk)"
    using resolve_with_Ok [OF assms] by metis
  note s = select_Ok [OF r(5)] and src = present_source [OF r(6)]
  have b: "window = Parsed On_disk \<longrightarrow> id_source i = From_disk" "window = Parsed Self_made \<longrightarrow> id_source i = From_pair"
    "window = No_window \<longrightarrow> id_source i \<noteq> From_cache" using s src by auto
  have c: "id_source i = From_pair \<longrightarrow> id_record i = None \<and> rv_pair env = Ok (Some (id_certificate i), Some (id_key i))"
    using present_pair [OF r(6)] src by simp
  have a: "\<forall>f e. window = Parsed (One_password f e) \<longrightarrow> id_source i = From_cache \<and> now < e
      \<and> (\<exists>data p. read_cache env serial = Ok (Some data) \<and> parse_payload (rv_json env) data = Some p
           \<and> pl_fetch_id p = f \<and> now < pl_hard_expiry p
           \<and> id_certificate i = pl_certificate p \<and> id_key i = pl_key p \<and> id_record i = Some (pl_record p))"
  proof (intro allI impI)
    fix f e
    assume "window = Parsed (One_password f e)"
    from s(2) [OF this] obtain e' where c: "co_identity ch = From_cache" "now < e" "cache = Cached f e'" "now < e'" by blast
    from resolve_cache_Ok [of env window serial now f e' found] r(2) c(3) present_cache [OF r(6) c(1)] c src
    show "id_source i = From_cache \<and> now < e \<and> (\<exists>data p. read_cache env serial = Ok (Some data) \<and> parse_payload (rv_json env) data = Some p
           \<and> pl_fetch_id p = f \<and> now < pl_hard_expiry p
           \<and> id_certificate i = pl_certificate p \<and> id_key i = pl_key p \<and> id_record i = Some (pl_record p))" by auto
  qed
  have d: "id_source i = From_disk \<longrightarrow>
      rv_file env Certificate_file = Ok (Some (id_certificate i)) \<and> rv_file env Key_file = Ok (Some (id_key i))
      \<and> rv_matches env (id_certificate i) (id_key i)
      \<and> (if record_there env then \<exists>r. rv_file env Record_file = Ok (Some r) \<and> id_record i = Some r else id_record i = None)"
  proof
    assume "id_source i = From_disk"
    then have dd: "co_identity ch = From_disk" using src by simp
    note p = present_disk [OF r(6) dd] and q = s(5) [OF dd]
    have "rv_matches env (id_certificate i) (id_key i)" "co_record ch = hr" "record_there env = hr" using q p(1) r(4,7) by (auto simp: record_there_def)
    with p r(3,7) disk_pem_Some [of env "select_mode settings window" hc hk "id_certificate i" "id_key i"]
    show "rv_file env Certificate_file = Ok (Some (id_certificate i)) \<and> rv_file env Key_file = Ok (Some (id_key i))
      \<and> rv_matches env (id_certificate i) (id_key i)
      \<and> (if record_there env then \<exists>r. rv_file env Record_file = Ok (Some r) \<and> id_record i = Some r else id_record i = None)" by auto
  qed
  show ?thesis by (intro conjI r(1) a b c d)
qed


section \<open>The payload\<close>

definition payload_members :: "ustr \<Rightarrow> int \<Rightarrow> int \<Rightarrow> int \<Rightarrow> nat \<Rightarrow> nat \<Rightarrow> nat \<Rightarrow> (ustr \<times> json_value) list" where
  "payload_members fetch_id t0 t1 t2 c k r =
     [(lit ''certificate'', JInt (int c)), (lit ''fetch_id'', JText fetch_id), (lit ''fetched_at'', JInt t0),
      (lit ''hard_expiry'', JInt t2), (lit ''key'', JInt (int k)), (lit ''period_ends'', JInt t1), (lit ''record'', JInt (int r))]"

lemma no_newline: "\<forall>c \<in> set s. 10 < c \<and> c < 128 \<Longrightarrow> 10 \<notin> set (as_bytes s)"
proof (induction s)
  case Nil
  then show ?case by (simp add: as_bytes_def)
next
  case (Cons c s)
  have "unat (of_nat c :: 8 word) = c" using Cons.prems by (simp add: unat_of_nat take_bit_nat_eq_self)
  then have "of_nat c \<noteq> (10 :: 8 word)" using Cons.prems by auto
  with Cons show ?case by (auto simp: as_bytes_def utf8_char_def)
qed

lemma dec_no_newline: "10 \<notin> set (as_bytes (dec n))" "10 \<notin> set (as_bytes (int_text i))"
proof -
  have d: "\<forall>c \<in> set (dec n). 10 < c \<and> c < 128" for n using dec_digits [of n] by (auto simp: is_ascii_digit_def)
  then show "10 \<notin> set (as_bytes (dec n))" by (rule no_newline)
  show "10 \<notin> set (as_bytes (int_text i))" using d by (intro no_newline) (auto simp: int_text_def)
qed

lemma header_no_newline:
  assumes "10 \<notin> set (as_bytes (quote fetch_id))"
  shows "10 \<notin> set (as_bytes (payload_header quote fetch_id t0 t1 t2 c k r))"
proof -
  have names: "10 \<notin> set (as_bytes (lit ''certificate''))"
    "10 \<notin> set (as_bytes (lit ''fetch_id''))"
    "10 \<notin> set (as_bytes (lit ''fetched_at''))"
    "10 \<notin> set (as_bytes (lit ''hard_expiry''))"
    "10 \<notin> set (as_bytes (lit ''key''))"
    "10 \<notin> set (as_bytes (lit ''period_ends''))"
    "10 \<notin> set (as_bytes (lit ''record''))"
    "10 \<notin> set (as_bytes (lit ''{''))"
    "10 \<notin> set (as_bytes (lit ''}''))"
    "10 \<notin> set (as_bytes (lit '',''))"
    "10 \<notin> set (as_bytes (lit '':''))"
    "10 \<notin> set (as_bytes [0x22])"
    by (simp_all add: eval_defs)
  show ?thesis unfolding payload_header_def Let_def as_bytes_append set_append Un_iff
    by (simp only: names dec_no_newline assms not_False_eq_True disj_ac simp_thms)
qed

lemma split_newline_first: "10 \<notin> set a \<Longrightarrow> split_newline (a @ 10 # b) = Some (a, b)"
  unfolding split_newline_def by (induction a) auto

definition payload_valid :: "ustr \<Rightarrow> int \<Rightarrow> int \<Rightarrow> int \<Rightarrow> bytes \<Rightarrow> bytes \<Rightarrow> bytes \<Rightarrow> bool" where
  "payload_valid fetch_id t0 t1 t2 cert key rec \<longleftrightarrow>
     is_fetch_id fetch_id \<and> 0 \<le> t0 \<and> t0 \<le> t1 \<and> t1 \<le> t2 \<and> t2 < 2 ^ 63 \<and> t2 - t0 \<le> MAX_LIFETIME
     \<and> (\<forall>part \<in> {cert, key, rec}. 1 \<le> length part \<and> length part \<le> MAX_PART)"

lemma members_found:
  "map_of (payload_members fid t0 t1 t2 c k r) (lit ''certificate'') = Some (JInt (int c))"
  "map_of (payload_members fid t0 t1 t2 c k r) (lit ''fetch_id'') = Some (JText fid)"
  "map_of (payload_members fid t0 t1 t2 c k r) (lit ''fetched_at'') = Some (JInt t0)"
  "map_of (payload_members fid t0 t1 t2 c k r) (lit ''hard_expiry'') = Some (JInt t2)"
  "map_of (payload_members fid t0 t1 t2 c k r) (lit ''key'') = Some (JInt (int k))"
  "map_of (payload_members fid t0 t1 t2 c k r) (lit ''period_ends'') = Some (JInt t1)"
  "map_of (payload_members fid t0 t1 t2 c k r) (lit ''record'') = Some (JInt (int r))"
  "map fst (payload_members fid t0 t1 t2 c k r) = HEADER_KEYS" "distinct HEADER_KEYS"
  by (simp_all add: payload_members_def HEADER_KEYS_def lit_def)

lemma payload_of_members:
  "payload_of (payload_members fid t0 t1 t2 (length cert) (length key) (length rec)) (cert @ key @ rec) =
     (if payload_valid fid t0 t1 t2 cert key rec
      then Some \<lparr>pl_fetch_id = fid, pl_fetched_at = t0, pl_period_ends = t1, pl_hard_expiry = t2,
                 pl_certificate = cert, pl_key = key, pl_record = rec\<rparr>
      else None)"
proof -
  let ?m = "payload_members fid t0 t1 t2 (length cert) (length key) (length rec)"
  have "length ?m = length HEADER_KEYS" by (metis length_map members_found(8))
  then have k: "\<not> (\<not> distinct (map fst ?m) \<or> length ?m \<noteq> length HEADER_KEYS \<or> \<not> set HEADER_KEYS \<subseteq> set (map fst ?m))"
    using members_found(8,9) by simp
  have p: "part_length (JInt (int n)) = (if 1 \<le> n \<and> n \<le> MAX_PART then Some n else None)" for n
    by (auto simp: part_length_def nonneg_int_def MAX_PART_def)
  show ?thesis unfolding payload_of_def header_fetch_id_def header_times_def header_lengths_def members_found
    using k members_found(9) by (auto simp: p payload_valid_def nonneg_int_def)
qed

text \<open>
  C36. The identity cache holds what was put into it: a payload is framed exactly when its identifier, times and parts are
  valid and it fits a key of the kernel, and parsing it gives back the identifier, the times and the three parts.
  JSON is used as documented: the parser reads the header's members, and the quoted identifier is on one line.
\<close>

theorem payload_round_trip:
  assumes "json (as_bytes (payload_header quote fid t0 t1 t2 (length cert) (length key) (length rec))) =
      Some (payload_members fid t0 t1 t2 (length cert) (length key) (length rec))"
    and "10 \<notin> set (as_bytes (quote fid))"
    and "data = ID_MAGIC @ [10] @ as_bytes (payload_header quote fid t0 t1 t2 (length cert) (length key) (length rec)) @ [10] @ cert @ key @ rec"
  shows "encode_payload json quote fid t0 t1 t2 cert key rec =
      (if payload_valid fid t0 t1 t2 cert key rec \<and> length data \<le> MAX_PAYLOAD then Some data else None)
    \<and> (payload_valid fid t0 t1 t2 cert key rec \<and> length data \<le> MAX_PAYLOAD \<longrightarrow>
      parse_payload json data = Some \<lparr>pl_fetch_id = fid, pl_fetched_at = t0, pl_period_ends = t1, pl_hard_expiry = t2,
        pl_certificate = cert, pl_key = key, pl_record = rec\<rparr>)"
proof -
  let ?h = "as_bytes (payload_header quote fid t0 t1 t2 (length cert) (length key) (length rec))"
  have "10 \<notin> set ID_MAGIC" by (simp add: eval_defs)
  then have "split_newline data = Some (ID_MAGIC, ?h @ 10 # cert @ key @ rec)" unfolding assms(3) by (simp add: split_newline_first)
  moreover have "split_newline (?h @ 10 # cert @ key @ rec) = Some (?h, cert @ key @ rec)"
    by (intro split_newline_first header_no_newline assms(2))
  ultimately have p: "parse_payload json data =
      (if length data > MAX_PAYLOAD then None
       else payload_of (payload_members fid t0 t1 t2 (length cert) (length key) (length rec)) (cert @ key @ rec))"
    using assms(1) by (simp add: parse_payload_def)
  then have "payload_valid fid t0 t1 t2 cert key rec \<and> length data \<le> MAX_PAYLOAD \<longrightarrow>
      parse_payload json data = Some \<lparr>pl_fetch_id = fid, pl_fetched_at = t0, pl_period_ends = t1, pl_hard_expiry = t2,
        pl_certificate = cert, pl_key = key, pl_record = rec\<rparr>"
    by (simp add: payload_of_members)
  moreover have "encode_payload json quote fid t0 t1 t2 cert key rec =
      (if payload_valid fid t0 t1 t2 cert key rec \<and> length data \<le> MAX_PAYLOAD then Some data else None)"
    using p unfolding encode_payload_def Let_def assms(3) [symmetric] payload_of_members by (auto split: if_splits)
  ultimately show ?thesis by blast
qed

definition one_key_json :: "bytes \<Rightarrow> bytes \<Rightarrow> (ustr \<times> json_value) list option" where [eval_defs]:
  "one_key_json known b =
     (if b = known then Some (payload_members (replicate 32 0x61) 0 10 20 1 1 1) else None)"

definition plain_quote :: "ustr \<Rightarrow> ustr" where [eval_defs]:
  "plain_quote s = [0x22] @ s @ [0x22]"

theorem payload_round_trip_witness:
  "\<exists>header data. parse_payload (one_key_json header) data = Some \<lparr>pl_fetch_id = replicate 32 0x61, pl_fetched_at = 0, pl_period_ends = 10,
     pl_hard_expiry = 20, pl_certificate = [1], pl_key = [2], pl_record = [3]\<rparr>
     \<and> encode_payload (one_key_json header) plain_quote (replicate 32 0x61) 0 10 20 [1] [2] [3] = Some data"
proof -
  let ?f = "replicate 32 0x61 :: ustr"
  let ?h = "as_bytes (payload_header plain_quote ?f 0 10 20 1 1 1)"
  define data where "data = ID_MAGIC @ [10] @ ?h @ [10] @ [1] @ [2] @ [3 :: u8]"
  have q: "10 \<notin> set (as_bytes (plain_quote ?f))" by (simp add: eval_defs)
  have "str_len ?f = 32" by (simp add: str_len_def utf8_len_def sum_list_replicate)
  then have v: "payload_valid ?f 0 10 20 [1] [2] [3]"
    by (simp add: payload_valid_def is_fetch_id_def list_all_iff MAX_LIFETIME_def MAX_PART_def)
  have l: "length data \<le> MAX_PAYLOAD"
    unfolding data_def payload_header_def by (simp add: eval_defs digits.simps)
  note r = payload_round_trip [of "one_key_json ?h" plain_quote ?f 0 10 20 "[1]" "[2]" "[3]" data]
  have "one_key_json ?h ?h = Some (payload_members ?f 0 10 20 (length [1 :: u8]) (length [2 :: u8]) (length [3 :: u8]))" by (simp add: one_key_json_def)
  with r q v l show ?thesis by (intro exI [of _ ?h] exI [of _ data]) (simp add: data_def)
qed

section \<open>Files of keys and values\<close>

text \<open>A file written as lines of \<open>key=value\<close>, and what reading it gives.\<close>

definition written_lines :: "ustr list \<Rightarrow> ustr" where [eval_defs]:
  "written_lines ls = concat (map (\<lambda>l. l @ [0x0a]) ls)"

definition unbroken :: "ustr \<Rightarrow> bool" where [eval_defs]:
  "unbroken s \<longleftrightarrow> (\<forall>c \<in> set s. \<not> line_boundary c)"

lemma splitlines_line: "unbroken l \<Longrightarrow> splitlines (l @ 0x0a # rest) = l # splitlines rest"
proof -
  assume "unbroken l"
  then have "takeWhile (\<lambda>c. \<not> line_boundary c) (l @ 0x0a # rest) = l"
    "dropWhile (\<lambda>c. \<not> line_boundary c) (l @ 0x0a # rest) = 0x0a # rest"
    by (simp_all add: unbroken_def line_boundary_def takeWhile_append2 dropWhile_append2)
  then show ?thesis by (subst splitlines.simps) simp
qed

lemma splitlines_written: "\<forall>l \<in> set ls. unbroken l \<Longrightarrow> splitlines (written_lines ls) = ls"
  by (induction ls) (simp_all add: written_lines_def splitlines_line, simp add: splitlines.simps)

definition entry :: "ustr \<times> ustr \<Rightarrow> ustr" where [eval_defs]:
  "entry kv = fst kv @ lit ''='' @ snd kv"

definition entry_ok :: "ustr \<times> ustr \<Rightarrow> bool" where [eval_defs]:
  "entry_ok kv \<longleftrightarrow> 0x3d \<notin> set (fst kv) \<and> unbroken (fst kv) \<and> unbroken (snd kv)"

lemma parse_settings_written:
  assumes "\<forall>kv \<in> set kvs. entry_ok kv"
  shows "parse_settings (written_lines (map entry kvs)) = map_of (rev kvs)"
proof -
  have one: "\<forall>l \<in> set (map entry kvs). unbroken l"
    using assms by (auto simp: entry_def entry_ok_def unbroken_def line_boundary_def lit_def)
  have s: "split_once (lit ''='') (entry kv) = Some kv" if "entry_ok kv" for kv
    using split_once_first [of "0x3d" "fst kv" "[]" "snd kv"] that by (simp add: entry_def entry_ok_def lit_def)
  have "fold (\<lambda>line m. case split_once (lit ''='') line of Some (k, v) \<Rightarrow> m(k \<mapsto> v) | None \<Rightarrow> m) (map entry kvs) m = m ++ map_of (rev kvs)" for m
    using assms
  proof (induction kvs arbitrary: m)
    case (Cons kv kvs)
    then show ?case using s [of kv] by (cases kv) (simp add: map_add_def fun_eq_iff map_of_append split: option.splits)
  qed simp
  then show ?thesis unfolding parse_settings_def splitlines_written [OF one] by simp
qed

text \<open>The window of a 1Password identity, as it is written.\<close>

definition apple_lines :: "ustr \<Rightarrow> int \<Rightarrow> ustr \<Rightarrow> (ustr \<times> ustr) list" where [eval_defs]:
  "apple_lines fetch_id expiry serial =
     [(lit ''source'', lit ''1password''), (lit ''fetch_id'', fetch_id), (lit ''hard_expiry'', int_text expiry), (lit ''cache_serial'', serial)]"

lemma fetch_id_line: "is_fetch_id f \<Longrightarrow> unbroken f"
  by (auto simp: is_fetch_id_def unbroken_def line_boundary_def is_ascii_digit_def list_all_iff)

lemma dec_line: "unbroken (dec n)"
  using dec_digits [of n] by (auto simp: unbroken_def line_boundary_def is_ascii_digit_def)

lemma parse_window_apple:
  assumes "is_fetch_id f" "0 \<le> e" "e < 2 ^ 63" "unbroken serial"
  shows "parse_window (written_lines (map entry (apple_lines f e serial))) = Some (One_password f e)"
proof -
  have i: "int_text e = dec (nat e)" using assms(2) by (simp add: int_text_def)
  have ok: "\<forall>kv \<in> set (apple_lines f e serial). entry_ok kv"
    using assms(1,4) fetch_id_line dec_line unfolding apple_lines_def i
    by (auto simp: entry_ok_def unbroken_def line_boundary_def lit_def)
  have g: "map_of (rev (apple_lines f e serial)) (lit ''source'') = Some (lit ''1password'')"
    "map_of (rev (apple_lines f e serial)) (lit ''fetch_id'') = Some f"
    "map_of (rev (apple_lines f e serial)) (lit ''hard_expiry'') = Some (dec (nat e))"
    by (simp_all add: apple_lines_def i lit_def)
  have d: "dec (nat e) \<noteq> []" "list_all is_ascii_digit (dec (nat e))" using dec_not_Nil dec_digits by (auto simp: list_all_iff)
  have "\<not> starts_with (dec (nat e)) (lit ''-'')"
    using d dec_digits [of "nat e"] by (cases "dec (nat e)") (auto simp: lit_def is_ascii_digit_def)
  then have p: "parse_i64 (dec (nat e)) = Some e"
    using from_str_radix_show [where b = 10 and n = "nat e" and mx = "2 ^ 63 - 1"] assms(2,3) by (simp add: parse_i64_def)
  have n: "lit ''1password'' \<noteq> lit ''disk''" "lit ''1password'' \<noteq> lit ''self-signed''" by (simp_all add: lit_def)
  show ?thesis unfolding parse_window_def parse_settings_written [OF ok] Let_def g text_or_empty_def
    using assms(1) d p n by simp
qed

section \<open>An identity presented\<close>

definition apple_resolver :: resolver where [eval_defs]:
  "apple_resolver =
     \<lparr>rv_file = (\<lambda>f. if f = Window_file then Ok (Some (as_bytes (written_lines (map entry (apple_lines (replicate 32 0x61) 20 (lit ''7''))))))
                     else Ok None),
      rv_keyring = (\<lambda>s. Ok (if s = Some 7 then Some (ID_MAGIC @ [10, 123, 10, 1, 2, 3]) else None)), rv_as_user = None, rv_protect = True,
      rv_have = Some (False, False, False, False, False), rv_matches = (\<lambda>_ _. False), rv_root = False,
      rv_make_pair = (\<lambda>_. Err []), rv_pair = Err (), rv_hostname = [],
      rv_json = (\<lambda>b. if b = [123] then Some (payload_members (replicate 32 0x61) 0 10 20 1 1 1) else None)\<rparr>"

lemma text_decoded: "\<forall>c \<in> set s. is_scalar c \<Longrightarrow> from_utf8 (as_bytes s) = Some s"
  by (auto simp: from_utf8_def utf8_decode_as_bytes Let_def)

lemma apple_fetch_id: "is_fetch_id (replicate 32 0x61)"
  by (simp add: is_fetch_id_def list_all_iff str_len_def utf8_len_def sum_list_replicate)

lemma apple_window: "resolve_window apple_resolver = (Parsed (One_password (replicate 32 0x61) 20), Some 7)"
proof -
  let ?t = "written_lines (map entry (apple_lines (replicate 32 0x61) 20 (lit ''7'')))"
  have "unbroken (lit ''7'')" by (simp add: eval_defs)
  then have w: "parse_window ?t = Some (One_password (replicate 32 0x61) 20)"
    using apple_fetch_id by (intro parse_window_apple) simp_all
  have "\<forall>kv \<in> set (apple_lines (replicate 32 0x61) 20 (lit ''7'')). entry_ok kv"
    by (simp add: eval_defs digits.simps)
  then have "serial_in ?t = Some 7"
    by (simp add: serial_in_def parse_settings_written) (simp add: eval_defs digits.simps)
  moreover have "from_utf8 (as_bytes ?t) = Some ?t" by (rule text_decoded) (simp add: eval_defs digits.simps is_scalar_def)
  ultimately show ?thesis using w by (simp add: resolve_window_def apple_resolver_def)
qed

lemma apple_state:
  "rv_keyring apple_resolver = (\<lambda>s. Ok (if s = Some 7 then Some (ID_MAGIC @ [10, 123, 10, 1, 2, 3]) else None))"
  "rv_as_user apple_resolver = None" "rv_protect apple_resolver" "\<not> rv_root apple_resolver"
  "rv_have apple_resolver = Some (False, False, False, False, False)"
  by (simp_all add: apple_resolver_def)

lemma apple_payload:
  "parse_payload (rv_json apple_resolver) (ID_MAGIC @ [10, 123, 10, 1, 2, 3]) =
     Some \<lparr>pl_fetch_id = replicate 32 0x61, pl_fetched_at = 0, pl_period_ends = 10, pl_hard_expiry = 20,
           pl_certificate = [1], pl_key = [2], pl_record = [3]\<rparr>"
proof -
  have m: "10 \<notin> set ID_MAGIC" by (simp add: eval_defs)
  have "payload_of (payload_members (replicate 32 0x61) 0 10 20 (length [1 :: u8]) (length [2 :: u8]) (length [3 :: u8])) ([1] @ [2] @ [3]) =
      Some \<lparr>pl_fetch_id = replicate 32 0x61, pl_fetched_at = 0, pl_period_ends = 10, pl_hard_expiry = 20,
            pl_certificate = [1], pl_key = [2], pl_record = [3]\<rparr>"
    unfolding payload_of_members using apple_fetch_id by (simp add: payload_valid_def MAX_LIFETIME_def MAX_PART_def)
  moreover have "split_newline [123, 10, 1, 2, 3] = Some ([123], [1, 2, 3])" by (simp add: split_newline_def)
  moreover have "length (ID_MAGIC @ [10, 123, 10, 1, 2, 3]) \<le> MAX_PAYLOAD" by (simp add: eval_defs)
  ultimately show ?thesis unfolding parse_payload_def using m by (simp add: split_newline_first apple_resolver_def)
qed

lemma apple_presented:
  "resolve_with apple_resolver True None 10 =
     Ok \<lparr>id_source = From_cache, id_certificate = [1], id_key = [2], id_record = Some [3], id_warnings = []\<rparr>"
proof -
  have "resolve_cache apple_resolver (Parsed (One_password (replicate 32 0x61) 20)) (Some 7) 10 =
      Ok (Cached (replicate 32 0x61) 20, Some \<lparr>pl_fetch_id = replicate 32 0x61, pl_fetched_at = 0, pl_period_ends = 10, pl_hard_expiry = 20,
            pl_certificate = [1], pl_key = [2], pl_record = [3]\<rparr>)"
    by (simp add: resolve_cache_def read_cache_def keyring_read_def apple_state apple_payload then_ok_def)
  moreover have "resolve_settings apple_resolver = Ok Map.empty" by (simp add: resolve_settings_def apple_resolver_def)
  ultimately show ?thesis
    by (simp add: resolve_with_def apple_window select_identity_def present_identity_def apple_state then_ok_def Let_def)
qed

theorem presented_as_contracted_witness:
  "\<exists>data p. read_cache apple_resolver (Some 7) = Ok (Some data) \<and> parse_payload (rv_json apple_resolver) data = Some p
     \<and> pl_fetch_id p = replicate 32 0x61 \<and> 10 < pl_hard_expiry p \<and> pl_key p = [2]"
  using presented_as_contracted [OF apple_presented apple_window] by auto

end
