(* ===== verification/Keyring.thy ===== *)
theory Keyring
  imports Contract
begin

text \<open>
  The identity cache in the kernel's keyring (omdrop-identity/src/keyring.rs): finding, reading, publishing, timing out
  and revoking the one key, over the raw operations of the trait \<open>KeyOps\<close>. Each of those is one system call, so they are the
  parameter (\<open>key_ops\<close>), with a state of their own; what the kernel's manual promises of them is \<open>kernel_ok\<close>.
\<close>

section \<open>Operations with a state\<close>

text \<open>The \<open>?\<close> of a function that changes a state: go on with the value, or return the error.\<close>

definition go_on :: "('s \<Rightarrow> ('a, 'e) result \<times> 's) \<Rightarrow> ('a \<Rightarrow> 's \<Rightarrow> ('b, 'e) result \<times> 's) \<Rightarrow> 's \<Rightarrow> ('b, 'e) result \<times> 's" where
  "go_on m k s = (case m s of (Ok x, s') \<Rightarrow> k x s' | (Err e, s') \<Rightarrow> (Err e, s'))"

definition give :: "'a \<Rightarrow> 's \<Rightarrow> ('a, 'e) result \<times> 's" where
  "give x s = (Ok x, s)"

definition give_up :: "'e \<Rightarrow> 's \<Rightarrow> ('a, 'e) result \<times> 's" where
  "give_up e s = (Err e, s)"

definition map_error :: "('e \<Rightarrow> 'd) \<Rightarrow> ('s \<Rightarrow> ('a, 'e) result \<times> 's) \<Rightarrow> 's \<Rightarrow> ('a, 'd) result \<times> 's" where
  "map_error f m s = (case m s of (Ok x, s') \<Rightarrow> (Ok x, s') | (Err e, s') \<Rightarrow> (Err (f e), s'))"

text \<open>\<open>let _ =\<close>: whatever the operation gives is passed over.\<close>

definition whatever :: "('s \<Rightarrow> ('a, 'e) result \<times> 's) \<Rightarrow> 's \<Rightarrow> (unit, 'd) result \<times> 's" where
  "whatever m s = (Ok (), snd (m s))"

lemmas go_defs [eval_defs] = go_on_def give_def give_up_def map_error_def whatever_def

section \<open>The raw operations\<close>

record 'w key_ops =
  ko_search :: "'w \<Rightarrow> (int, nat) result \<times> 'w"
  ko_read :: "int \<Rightarrow> nat \<Rightarrow> 'w \<Rightarrow> (nat \<times> bytes, nat) result \<times> 'w"
  ko_add :: "bytes \<Rightarrow> 'w \<Rightarrow> (int, nat) result \<times> 'w"
  ko_set_timeout :: "int \<Rightarrow> nat \<Rightarrow> 'w \<Rightarrow> (unit, nat) result \<times> 'w"
  ko_setperm :: "int \<Rightarrow> nat \<Rightarrow> 'w \<Rightarrow> (unit, nat) result \<times> 'w"
  ko_link :: "int \<Rightarrow> int \<Rightarrow> 'w \<Rightarrow> (unit, nat) result \<times> 'w"
  ko_unlink :: "int \<Rightarrow> int \<Rightarrow> 'w \<Rightarrow> (unit, nat) result \<times> 'w"
  ko_revoke :: "int \<Rightarrow> 'w \<Rightarrow> (unit, nat) result \<times> 'w"
  ko_strerror :: "nat \<Rightarrow> ustr"

definition KEY_SPEC_PROCESS_KEYRING :: int where [eval_defs]:
  "KEY_SPEC_PROCESS_KEYRING = -2"

definition KEY_SPEC_USER_KEYRING :: int where [eval_defs]:
  "KEY_SPEC_USER_KEYRING = -4"

definition KEY_PERM :: nat where [eval_defs]:
  "KEY_PERM = 0x3f010000"

definition MAX_KEY_PAYLOAD :: nat where [eval_defs]:
  "MAX_KEY_PAYLOAD = 32767"

definition is_missing :: "nat \<Rightarrow> bool" where [eval_defs]:
  "is_missing err \<longleftrightarrow> err \<in> {126, 127, 128, 2}"

definition key_fail :: "'w key_ops \<Rightarrow> string \<Rightarrow> nat \<Rightarrow> ustr" where [eval_defs]:
  "key_fail ops what err = lit what @ lit '': '' @ ko_strerror ops err"

definition clamp_secs :: "int \<Rightarrow> nat" where [eval_defs]:
  "clamp_secs timeout = (if max timeout 0 < 2 ^ 32 then nat (max timeout 0) else 2 ^ 32 - 1)"

section \<open>The cache's key\<close>

definition key_find :: "'w key_ops \<Rightarrow> 'w \<Rightarrow> (int option, ustr) result \<times> 'w" where [eval_defs]:
  "key_find ops w =
     (case ko_search ops w of
        (Ok n, w') \<Rightarrow> (Ok (Some n), w')
      | (Err e, w') \<Rightarrow> if is_missing e then (Ok None, w') else (Err (key_fail ops ''searching for the identity cache'' e), w'))"

text \<open>The buffer grows to the length the kernel reports, as long as that is at most a mebibyte.\<close>

function read_key :: "'w key_ops \<Rightarrow> int \<Rightarrow> nat \<Rightarrow> 'w \<Rightarrow> (bytes option, ustr) result \<times> 'w" where
  "read_key ops n room w =
     (case ko_read ops n room w of
        (Ok (len, buf), w') \<Rightarrow>
          if len \<le> room then (Ok (Some (take len buf)), w')
          else if len \<le> 1048576 then read_key ops n len w'
          else (Err (lit ''reading the identity cache: payload too large''), w')
      | (Err e, w') \<Rightarrow> if is_missing e then (Ok None, w') else (Err (key_fail ops ''reading the identity cache'' e), w'))"
  by pat_completeness auto
termination
  by (relation "measure (\<lambda>(_, _, room, _). 1048576 - room)") auto

declare read_key.simps [simp del]

definition key_read :: "'w key_ops \<Rightarrow> int option \<Rightarrow> 'w \<Rightarrow> (bytes option, ustr) result \<times> 'w" where [eval_defs]:
  "key_read ops serial =
     (case serial of
        Some n \<Rightarrow> read_key ops n (MAX_KEY_PAYLOAD + 1)
      | None \<Rightarrow> go_on (key_find ops) (\<lambda>found. case found of None \<Rightarrow> give None | Some n \<Rightarrow> read_key ops n (MAX_KEY_PAYLOAD + 1)))"

text \<open>A key is given its timeout and permissions before it is linked where others can find it.\<close>

definition stage_key :: "'w key_ops \<Rightarrow> int \<Rightarrow> int \<Rightarrow> 'w \<Rightarrow> (unit, ustr) result \<times> 'w" where [eval_defs]:
  "stage_key ops n timeout =
     go_on (map_error (key_fail ops ''setting the cache timeout'') (ko_set_timeout ops n (clamp_secs timeout))) (\<lambda>_.
     go_on (map_error (key_fail ops ''setting the cache permissions'') (ko_setperm ops n KEY_PERM)) (\<lambda>_.
     map_error (key_fail ops ''linking the identity cache'') (ko_link ops n KEY_SPEC_USER_KEYRING)))"

definition key_publish :: "'w key_ops \<Rightarrow> bytes \<Rightarrow> int \<Rightarrow> 'w \<Rightarrow> (int, ustr) result \<times> 'w" where [eval_defs]:
  "key_publish ops payload timeout w =
     (if timeout < 1 then (Err (lit ''refusing to publish a cache that has already expired''), w)
      else (case key_find ops w of (found, w0) \<Rightarrow>
        (let old = (case found of Ok x \<Rightarrow> x | Err _ \<Rightarrow> None)
         in case map_error (key_fail ops ''adding the identity cache'') (ko_add ops payload) w0 of
              (Err e, w1) \<Rightarrow> (Err e, w1)
            | (Ok n, w1) \<Rightarrow>
                (case stage_key ops n timeout w1 of
                   (Err e, w2) \<Rightarrow> (Err e, snd (ko_revoke ops n w2))
                 | (Ok _, w2) \<Rightarrow>
                     (let w3 = snd (ko_unlink ops n KEY_SPEC_PROCESS_KEYRING w2)
                      in (Ok n, case old of Some m \<Rightarrow> if m \<noteq> n then snd (ko_revoke ops m w3) else w3 | None \<Rightarrow> w3))))))"

definition key_revoke :: "'w key_ops \<Rightarrow> 'w \<Rightarrow> (bool, ustr) result \<times> 'w" where [eval_defs]:
  "key_revoke ops =
     go_on (key_find ops) (\<lambda>found. case found of
       None \<Rightarrow> give False
     | Some n \<Rightarrow> go_on (whatever (ko_revoke ops n)) (\<lambda>_. go_on (whatever (ko_unlink ops n KEY_SPEC_USER_KEYRING)) (\<lambda>_. give True)))"

definition key_set_timeout :: "'w key_ops \<Rightarrow> int \<Rightarrow> 'w \<Rightarrow> (bool, ustr) result \<times> 'w" where [eval_defs]:
  "key_set_timeout ops timeout =
     go_on (key_find ops) (\<lambda>found. case found of
       None \<Rightarrow> give False
     | Some n \<Rightarrow>
         if timeout < 1 then go_on (key_revoke ops) (\<lambda>_. give False)
         else go_on (map_error (key_fail ops ''setting the cache timeout'') (ko_set_timeout ops n (clamp_secs timeout))) (\<lambda>_. give True))"

section \<open>A cache is never visible without a timeout\<close>

text \<open>The operations that succeeded, oldest first, as a second part of the state.\<close>

datatype key_call =
    Added int bytes | Timed int nat | Allowed int nat | Linked int int | Unlinked int int | Revoked int

definition log_ok :: "('a \<Rightarrow> key_call) \<Rightarrow> ('w \<Rightarrow> ('a, 'e) result \<times> 'w) \<Rightarrow> 'w \<times> key_call list \<Rightarrow> ('a, 'e) result \<times> 'w \<times> key_call list" where
  "log_ok call op = (\<lambda>(w, calls). case op w of (Ok x, w') \<Rightarrow> (Ok x, w', calls @ [call x]) | (Err e, w') \<Rightarrow> (Err e, w', calls))"

definition unlogged :: "('w \<Rightarrow> ('a, 'e) result \<times> 'w) \<Rightarrow> 'w \<times> key_call list \<Rightarrow> ('a, 'e) result \<times> 'w \<times> key_call list" where
  "unlogged op = (\<lambda>(w, calls). case op w of (r, w') \<Rightarrow> (r, w', calls))"

definition logged :: "'w key_ops \<Rightarrow> ('w \<times> key_call list) key_ops" where
  "logged ops =
     \<lparr>ko_search = unlogged (ko_search ops), ko_read = (\<lambda>n room. unlogged (ko_read ops n room)),
      ko_add = (\<lambda>p. log_ok (\<lambda>n. Added n p) (ko_add ops p)),
      ko_set_timeout = (\<lambda>n secs. log_ok (\<lambda>_. Timed n secs) (ko_set_timeout ops n secs)),
      ko_setperm = (\<lambda>n perm. log_ok (\<lambda>_. Allowed n perm) (ko_setperm ops n perm)),
      ko_link = (\<lambda>n ring. log_ok (\<lambda>_. Linked n ring) (ko_link ops n ring)),
      ko_unlink = (\<lambda>n ring. log_ok (\<lambda>_. Unlinked n ring) (ko_unlink ops n ring)),
      ko_revoke = (\<lambda>n. log_ok (\<lambda>_. Revoked n) (ko_revoke ops n)), ko_strerror = ko_strerror ops\<rparr>"

lemma logged_simps:
  "ko_search (logged ops) (w, cs) = (let (r, w') = ko_search ops w in (r, w', cs))"
  "ko_add (logged ops) p (w, cs) = (case ko_add ops p w of (Ok n, w') \<Rightarrow> (Ok n, w', cs @ [Added n p]) | (Err e, w') \<Rightarrow> (Err e, w', cs))"
  "ko_set_timeout (logged ops) n secs (w, cs) =
     (case ko_set_timeout ops n secs w of (Ok x, w') \<Rightarrow> (Ok x, w', cs @ [Timed n secs]) | (Err e, w') \<Rightarrow> (Err e, w', cs))"
  "ko_setperm (logged ops) n perm (w, cs) =
     (case ko_setperm ops n perm w of (Ok x, w') \<Rightarrow> (Ok x, w', cs @ [Allowed n perm]) | (Err e, w') \<Rightarrow> (Err e, w', cs))"
  "ko_link (logged ops) n ring (w, cs) =
     (case ko_link ops n ring w of (Ok x, w') \<Rightarrow> (Ok x, w', cs @ [Linked n ring]) | (Err e, w') \<Rightarrow> (Err e, w', cs))"
  "ko_unlink (logged ops) n ring (w, cs) =
     (case ko_unlink ops n ring w of (Ok x, w') \<Rightarrow> (Ok x, w', cs @ [Unlinked n ring]) | (Err e, w') \<Rightarrow> (Err e, w', cs))"
  "ko_revoke (logged ops) n (w, cs) =
     (case ko_revoke ops n w of (Ok x, w') \<Rightarrow> (Ok x, w', cs @ [Revoked n]) | (Err e, w') \<Rightarrow> (Err e, w', cs))"
  by (simp_all add: logged_def log_ok_def unlogged_def Let_def split: prod.splits)

lemma find_logged: "key_find (logged ops) (w, cs) = (r, w', cs') \<Longrightarrow> cs' = cs"
  by (auto simp: key_find_def logged_simps Let_def split: prod.splits result.splits if_splits)

text \<open>Staging runs these operations in this order, up to the first that fails.\<close>

definition stages :: "int \<Rightarrow> int \<Rightarrow> key_call list" where
  "stages n timeout = [Timed n (clamp_secs timeout), Allowed n KEY_PERM, Linked n KEY_SPEC_USER_KEYRING]"

lemma stage_logged:
  assumes "stage_key (logged ops) n timeout (w, cs) = (r, w', cs')"
  shows "case r of Ok _ \<Rightarrow> cs' = cs @ stages n timeout | Err _ \<Rightarrow> \<exists>k < 3. cs' = cs @ take k (stages n timeout)"
proof -
  have k: "take 0 (stages n timeout) = []" "take 1 (stages n timeout) = [Timed n (clamp_secs timeout)]"
    "take 2 (stages n timeout) = [Timed n (clamp_secs timeout), Allowed n KEY_PERM]"
    by (simp_all add: stages_def)
  have "case r of Ok _ \<Rightarrow> cs' = cs @ stages n timeout | Err _ \<Rightarrow>
      cs' = cs @ take 0 (stages n timeout) \<or> cs' = cs @ take 1 (stages n timeout) \<or> cs' = cs @ take 2 (stages n timeout)"
    unfolding k using assms by (auto simp: stage_key_def go_defs logged_simps stages_def split: prod.splits result.splits)
  moreover have "\<exists>k < 3. cs' = cs @ take k xs" if "cs' = cs @ take 0 xs \<or> cs' = cs @ take 1 xs \<or> cs' = cs @ take 2 xs" for xs
    using that by (auto simp: numeral_3_eq_3 numeral_2_eq_2 Ex_less_Suc)
  ultimately show ?thesis by (simp split: result.splits)
qed

lemma revoke_logged: "\<exists>w' tail. snd (ko_revoke (logged ops) n (w, cs)) = (w', cs @ tail) \<and> tail \<in> {[], [Revoked n]}"
  by (auto simp: logged_simps split: prod.splits result.splits)

lemma unlink_logged: "\<exists>w' tail. snd (ko_unlink (logged ops) n ring (w, cs)) = (w', cs @ tail) \<and> tail \<in> {[], [Unlinked n ring]}"
  by (auto simp: logged_simps split: prod.splits result.splits)

lemma retire_logged:
  "\<exists>w' tail. (case old of Some m \<Rightarrow> if m \<noteq> n then snd (ko_revoke (logged ops) m (w, cs)) else (w, cs) | None \<Rightarrow> (w, cs)) = (w', cs @ tail)
     \<and> (\<forall>c \<in> set tail. \<exists>m. m \<noteq> n \<and> c = Revoked m)"
proof (cases "\<exists>m. old = Some m \<and> m \<noteq> n")
  case True
  then obtain m where m: "old = Some m" "m \<noteq> n" by blast
  obtain w' tail where "snd (ko_revoke (logged ops) m (w, cs)) = (w', cs @ tail)" "tail \<in> {[], [Revoked m]}"
    using revoke_logged [of ops m w cs] by (elim exE conjE) (rule that)
  with m show ?thesis by auto
qed (auto split: option.splits)

lemma undone_logged:
  assumes "stage_key (logged ops) n timeout (w, cs) = (Err e, w2, cs2)" "snd (ko_revoke (logged ops) n (w2, cs2)) = (w3, calls)"
  shows "\<exists>tail. calls = cs @ tail \<and> (\<forall>m ring. Linked m ring \<notin> set tail) \<and> (\<forall>m. Revoked m \<in> set tail \<longrightarrow> m = n)"
proof -
  obtain k where k: "k < 3" "cs2 = cs @ take k (stages n timeout)" using stage_logged [OF assms(1)] by auto
  obtain w' tail where v: "snd (ko_revoke (logged ops) n (w2, cs2)) = (w', cs2 @ tail)" "tail \<in> {[], [Revoked n]}"
    using revoke_logged [of ops n w2 cs2] by (elim exE conjE) (rule that)
  have "k = 0 \<or> k = 1 \<or> k = 2" using k(1) by arith
  then have "take k (stages n timeout) \<in> {[], [Timed n (clamp_secs timeout)], [Timed n (clamp_secs timeout), Allowed n KEY_PERM]}"
    by (elim disjE) (simp_all add: stages_def)
  with k v assms(2) show ?thesis by (intro exI [of _ "take k (stages n timeout) @ tail"]) auto
qed


section \<open>What is in the cache\<close>

text \<open>
  The kernel's manual, of the keys this program makes: \<open>ring\<close> is the key of the cache in the user's keyring, if one is there and
  can be used, and \<open>content\<close> what a key holds. A key may expire, or be revoked, at any time; its content never changes; only adding
  makes a new one, which is not in that keyring until it is linked; and linking puts it in place of the one that was there.
\<close>

type_synonym 'w key_view = "('w \<Rightarrow> int option) \<times> ('w \<Rightarrow> int \<Rightarrow> bytes option)"

definition cache_held :: "'w key_view \<Rightarrow> 'w \<Rightarrow> bytes option" where [eval_defs]:
  "cache_held kv w = (case fst kv w of Some n \<Rightarrow> snd kv w n | None \<Rightarrow> None)"

definition quiet :: "'w key_view \<Rightarrow> 'w \<Rightarrow> 'w \<Rightarrow> bool" where
  "quiet kv w w' \<longleftrightarrow> snd kv w' = snd kv w \<and> (fst kv w' = fst kv w \<or> fst kv w' = None)"

definition kernel_ok :: "'w key_ops \<Rightarrow> 'w key_view \<Rightarrow> bool" where
  "kernel_ok ops kv \<longleftrightarrow>
     (\<forall>w. quiet kv w (snd (ko_search ops w)) \<and> (\<forall>n. fst (ko_search ops w) = Ok n \<longrightarrow> fst kv w = Some n))
   \<and> (\<forall>n room w. quiet kv w (snd (ko_read ops n room w))
        \<and> (\<forall>len buf. fst (ko_read ops n room w) = Ok (len, buf) \<and> len \<le> room \<longrightarrow> snd kv w n = Some (take len buf)))
   \<and> (\<forall>p w. case ko_add ops p w of
          (Ok n, w') \<Rightarrow> snd kv w' = (snd kv w)(n \<mapsto> p) \<and> (fst kv w' = fst kv w \<or> fst kv w' = None) \<and> fst kv w \<noteq> Some n
        | (Err _, w') \<Rightarrow> quiet kv w w')
   \<and> (\<forall>n secs w. quiet kv w (snd (ko_set_timeout ops n secs w))) \<and> (\<forall>n perm w. quiet kv w (snd (ko_setperm ops n perm w)))
   \<and> (\<forall>n keys w. case ko_link ops n keys w of
          (Ok _, w') \<Rightarrow> snd kv w' = snd kv w \<and> fst kv w' \<in> {fst kv w, None, Some n}
        | (Err _, w') \<Rightarrow> quiet kv w w')
   \<and> (\<forall>n keys w. quiet kv w (snd (ko_unlink ops n keys w))) \<and> (\<forall>n w. quiet kv w (snd (ko_revoke ops n w)))"

text \<open>The cache is as it was, or empty.\<close>

definition fades :: "'w key_view \<Rightarrow> 'w \<Rightarrow> 'w \<Rightarrow> bool" where
  "fades kv w w' \<longleftrightarrow> cache_held kv w' = cache_held kv w \<or> cache_held kv w' = None"

named_theorems quiet_rules

lemma quiet_refl [quiet_rules]: "quiet kv w w"
  by (simp add: quiet_def)

lemma quiet_trans: "quiet kv w w' \<Longrightarrow> quiet kv w' w'' \<Longrightarrow> quiet kv w w''"
  by (auto simp: quiet_def)

lemma quiet_fades: "quiet kv w w' \<Longrightarrow> fades kv w w'"
  by (cases "fst kv w") (auto simp: quiet_def fades_def cache_held_def)

lemma fades_refl: "fades kv w w"
  by (simp add: fades_def)

lemma fades_trans: "fades kv w w' \<Longrightarrow> fades kv w' w'' \<Longrightarrow> fades kv w w''"
  by (auto simp: fades_def)

lemma kernel_quiet [quiet_rules]:
  assumes "kernel_ok ops kv"
  shows "quiet kv w (snd (ko_search ops w))" "quiet kv w (snd (ko_read ops n room w))" "quiet kv w (snd (ko_set_timeout ops n secs w))"
    "quiet kv w (snd (ko_setperm ops n perm w))" "quiet kv w (snd (ko_unlink ops n keys w))" "quiet kv w (snd (ko_revoke ops n w))"
  using assms by (simp_all add: kernel_ok_def)

lemma kernel_search: "kernel_ok ops kv \<Longrightarrow> fst (ko_search ops w) = Ok n \<Longrightarrow> fst kv w = Some n"
  unfolding kernel_ok_def by (elim conjE) simp

lemma kernel_read: "kernel_ok ops kv \<Longrightarrow> fst (ko_read ops n room w) = Ok (len, buf) \<Longrightarrow> len \<le> room \<Longrightarrow> snd kv w n = Some (take len buf)"
  unfolding kernel_ok_def by (elim conjE) simp

lemma kernel_add:
  assumes "kernel_ok ops kv"
  shows "case ko_add ops p w of
      (Ok n, w') \<Rightarrow> snd kv w' = (snd kv w)(n \<mapsto> p) \<and> (fst kv w' = fst kv w \<or> fst kv w' = None) \<and> fst kv w \<noteq> Some n
    | (Err _, w') \<Rightarrow> quiet kv w w'"
  using assms unfolding kernel_ok_def by (elim conjE) (drule spec, erule spec)

lemma kernel_link:
  assumes "kernel_ok ops kv"
  shows "case ko_link ops n keys w of
      (Ok _, w') \<Rightarrow> snd kv w' = snd kv w \<and> fst kv w' \<in> {fst kv w, None, Some n} | (Err _, w') \<Rightarrow> quiet kv w w'"
  using assms unfolding kernel_ok_def by (elim conjE) (drule spec, drule spec, erule spec)

lemma quiet_go_on [quiet_rules]:
  "(\<And>w. quiet kv w (snd (m w))) \<Longrightarrow> (\<And>x w. quiet kv w (snd (k x w))) \<Longrightarrow> quiet kv w (snd (go_on m k w))"
  by (auto simp: go_on_def split: prod.splits result.splits intro: quiet_trans)
    (metis quiet_trans snd_conv)+

lemma quiet_map_error [quiet_rules]: "quiet kv w (snd (m w)) \<Longrightarrow> quiet kv w (snd (map_error f m w))"
  by (auto simp: map_error_def split: prod.splits result.splits)

lemma quiet_simple [quiet_rules]:
  "quiet kv w (snd (give x w))" "quiet kv w (snd (give_up e w))" "quiet kv w (snd (m w)) \<Longrightarrow> quiet kv w (snd (whatever m w))"
  by (simp_all add: give_def give_up_def whatever_def quiet_refl)

lemma quiet_option [quiet_rules]:
  "quiet kv w (snd (a w)) \<Longrightarrow> (\<And>n. quiet kv w (snd (b n w))) \<Longrightarrow> quiet kv w (snd ((case x of None \<Rightarrow> a | Some n \<Rightarrow> b n) w))"
  "quiet kv w (snd (c w)) \<Longrightarrow> quiet kv w (snd (d w)) \<Longrightarrow> quiet kv w (snd ((if q then c else d) w))"
  by (auto split: option.splits)

lemma key_find_quiet [quiet_rules]: "kernel_ok ops kv \<Longrightarrow> quiet kv w (snd (key_find ops w))"
  using kernel_quiet(1) [of ops kv w] by (auto simp: key_find_def split: prod.splits result.splits)

lemma read_key_quiet [quiet_rules]:
  assumes "kernel_ok ops kv" shows "quiet kv w (snd (read_key ops n room w))"
proof (induction "1048576 - room" arbitrary: room w rule: less_induct)
  case less
  obtain r w' where r: "ko_read ops n room w = (r, w')" by fastforce
  have q: "quiet kv w w'" using kernel_quiet(2) [OF assms, of w n room] r by simp
  show ?case
  proof (cases "\<exists>len buf. r = Ok (len, buf) \<and> \<not> len \<le> room \<and> len \<le> 1048576")
    case True
    then obtain len buf where l: "r = Ok (len, buf)" "\<not> len \<le> room" "len \<le> 1048576" by blast
    then have "1048576 - len < 1048576 - room" by simp
    from less [OF this] have "quiet kv w' (snd (read_key ops n len w'))" .
    with q r l show ?thesis by (subst read_key.simps) (auto intro: quiet_trans)
  next
    case False
    with q r show ?thesis by (subst read_key.simps) (auto split: result.splits)
  qed
qed

lemma read_key_content:
  assumes "kernel_ok ops kv" "fst (read_key ops n room w) = Ok (Some p)"
  shows "snd kv w n = Some p"
  using assms(2)
proof (induction "1048576 - room" arbitrary: room w rule: less_induct)
  case less
  obtain r w' where r: "ko_read ops n room w = (r, w')" by fastforce
  from less.prems r obtain len buf where x: "r = Ok (len, buf)" by (subst (asm) read_key.simps) (auto split: result.splits if_splits)
  show ?case
  proof (cases "len \<le> room")
    case True
    with less.prems r x have "p = take len buf" by (subst (asm) read_key.simps) simp
    moreover have "fst (ko_read ops n room w) = Ok (len, buf)" using r x by simp
    ultimately show ?thesis using kernel_read [OF assms(1) _ True] by simp
  next
    case False
    with less.prems r x have "len \<le> 1048576" by (subst (asm) read_key.simps) (auto split: if_splits)
    moreover from this False less.prems r x have "fst (read_key ops n len w') = Ok (Some p)" by (subst (asm) read_key.simps) simp
    ultimately have "snd kv w' n = Some p" using False less.hyps [of len w'] by simp
    moreover have "snd kv w' = snd kv w" using kernel_quiet(2) [OF assms(1), of w n room] r by (simp add: quiet_def)
    ultimately show ?thesis by simp
  qed
qed

lemma key_read_quiet [quiet_rules]: "kernel_ok ops kv \<Longrightarrow> quiet kv w (snd (key_read ops serial w))"
  unfolding key_read_def by (cases serial) (simp_all add: quiet_rules)

lemma key_read_held:
  assumes "kernel_ok ops kv" "fst (key_read ops None w) = Ok (Some p)"
  shows "cache_held kv w = Some p"
proof -
  obtain f w' where f: "key_find ops w = (f, w')" by fastforce
  from assms(2) f obtain n where n: "f = Ok (Some n)" "fst (read_key ops n (MAX_KEY_PAYLOAD + 1) w') = Ok (Some p)"
    by (auto simp: key_read_def go_on_def give_def split: result.splits option.splits)
  have "fst (ko_search ops w) = Ok n" using f n(1) by (auto simp: key_find_def split: prod.splits result.splits if_splits)
  then have "fst kv w = Some n" by (rule kernel_search [OF assms(1)])
  moreover have "snd kv w' n = Some p" using read_key_content [OF assms(1) n(2)] .
  moreover have "snd kv w' = snd kv w" using key_find_quiet [OF assms(1), of w] f by (simp add: quiet_def)
  ultimately show ?thesis by (simp add: cache_held_def)
qed

lemma key_revoke_quiet [quiet_rules]: "kernel_ok ops kv \<Longrightarrow> quiet kv w (snd (key_revoke ops w))"
  unfolding key_revoke_def by (intro quiet_rules)

lemma key_set_timeout_quiet [quiet_rules]: "kernel_ok ops kv \<Longrightarrow> quiet kv w (snd (key_set_timeout ops timeout w))"
  unfolding key_set_timeout_def by (intro quiet_rules)

lemma link_held:
  assumes "kernel_ok ops kv" "ko_link ops n keys w = (r, w')" "snd kv w n = Some p"
  shows "fades kv w w' \<or> r = Ok () \<and> cache_held kv w' = Some p"
proof (cases r)
  case (Ok u)
  with kernel_link [OF assms(1), where n = n and keys = keys and w = w] assms(2) have l: "snd kv w' = snd kv w" "fst kv w' = fst kv w \<or> fst kv w' = None \<or> fst kv w' = Some n" by auto
  show ?thesis
  proof (cases "fst kv w' = Some n")
    case True
    with l(1) assms(3) Ok show ?thesis by (simp add: cache_held_def)
  next
    case False
    with l have "quiet kv w w'" by (auto simp: quiet_def)
    then show ?thesis by (simp add: quiet_fades)
  qed
next
  case (Err e)
  with kernel_link [OF assms(1), where n = n and keys = keys and w = w] assms(2) show ?thesis by (simp add: quiet_fades)
qed

lemma stage_held:
  assumes "kernel_ok ops kv" "stage_key ops n timeout w = (r, w')" "snd kv w n = Some p"
  shows "fades kv w w' \<or> (\<exists>u. r = Ok u) \<and> cache_held kv w' = Some p"
proof -
  obtain r1 w1 where a: "ko_set_timeout ops n (clamp_secs timeout) w = (r1, w1)" by fastforce
  obtain r2 w2 where b: "ko_setperm ops n KEY_PERM w1 = (r2, w2)" by fastforce
  obtain r3 w3 where c: "ko_link ops n KEY_SPEC_USER_KEYRING w2 = (r3, w3)" by fastforce
  have q: "quiet kv w w1" "quiet kv w1 w2"
    using kernel_quiet(3) [OF assms(1), of w n "clamp_secs timeout"] kernel_quiet(4) [OF assms(1), of w1 n KEY_PERM] a b by simp_all
  then have f: "fades kv w w1" "fades kv w w2" "snd kv w2 n = Some p" using assms(3)
    by (auto intro: quiet_fades quiet_trans simp: quiet_def)
  have "w' = w1 \<or> w' = w2 \<or> w' = w3 \<and> (r3 = Ok () \<longrightarrow> r = Ok ())"
    using assms(2) a b c by (auto simp: stage_key_def go_on_def map_error_def split: result.splits)
  then show ?thesis using link_held [OF assms(1) c f(3)] f(1,2) by (auto intro: fades_trans)
qed

lemma key_publish_held:
  assumes "kernel_ok ops kv" "key_publish ops p timeout w = (r, w')"
  shows "fades kv w w' \<or> (\<exists>n. r = Ok n) \<and> (cache_held kv w' = Some p \<or> cache_held kv w' = None)"
proof (cases "timeout < 1")
  case True
  then show ?thesis using assms(2) by (auto simp: key_publish_def fades_refl)
next
  case False
  obtain found w0 where f: "key_find ops w = (found, w0)" by fastforce
  obtain a w1 where a: "ko_add ops p w0 = (a, w1)" by fastforce
  have q0: "quiet kv w w0" using key_find_quiet [OF assms(1), of w] f by simp
  note add = kernel_add [OF assms(1), where p = p and w = w0]
  show ?thesis
  proof (cases a)
    case (Err e)
    then show ?thesis using assms(2) False f a add q0
      by (auto simp: key_publish_def Let_def map_error_def intro: quiet_fades quiet_trans split: result.splits)
  next
    case (Ok n)
    then have w1: "snd kv w1 n = Some p" "fades kv w0 w1" using add a by (auto simp: fades_def cache_held_def split: option.splits)
    obtain s w2 where s: "stage_key ops n timeout w1 = (s, w2)" by fastforce
    note st = stage_held [OF assms(1) s w1(1)]
    have f1: "fades kv w w1" using q0 w1(2) by (blast intro: quiet_fades fades_trans)
    obtain w3 where w3: "w' = w3" "quiet kv w2 w3" and res: "\<forall>u. s = Ok u \<longrightarrow> r = Ok n"
    proof (cases s)
      case (Err e)
      then show thesis using that [of w'] assms(2) False f a Ok s kernel_quiet(6) [OF assms(1), of w2 n]
        by (auto simp: key_publish_def Let_def map_error_def)
    next
      case ok: (Ok u)
      let ?w3 = "snd (ko_unlink ops n KEY_SPEC_PROCESS_KEYRING w2)"
      have "quiet kv w2 ?w3" "quiet kv ?w3 (snd (ko_revoke ops m ?w3))" for m using kernel_quiet(5,6) [OF assms(1)] by blast+
      then show thesis using that [of w'] assms(2) False f a Ok s ok
        by (auto simp: key_publish_def Let_def map_error_def intro: quiet_trans split: option.splits if_splits result.splits)
    qed
    have "fades kv w2 w'" using w3 by (simp add: quiet_fades)
    then show ?thesis using st f1 res by (auto simp: fades_def)
  qed
qed

section \<open>A small keyring\<close>

text \<open>Keys are numbered as they are made and nothing fails: the promises can be kept, and a publication runs to its end.\<close>

type_synonym small_ring = "int option \<times> bytes list"

definition small_content :: "small_ring \<Rightarrow> int \<Rightarrow> bytes option" where [eval_defs]:
  "small_content w n = (if 0 \<le> n \<and> nat n < length (snd w) then Some (snd w ! nat n) else None)"

definition small_key :: "small_ring \<Rightarrow> int option" where [eval_defs]:
  "small_key w = (case fst w of Some n \<Rightarrow> if small_content w n = None then None else Some n | None \<Rightarrow> None)"

definition small_drop :: "int \<Rightarrow> small_ring \<Rightarrow> small_ring" where [eval_defs]:
  "small_drop n w = (if small_key w = Some n then (None, snd w) else w)"

definition small_ops :: "small_ring key_ops" where [eval_defs]:
  "small_ops =
     \<lparr>ko_search = (\<lambda>w. case small_key w of Some n \<Rightarrow> (Ok n, w) | None \<Rightarrow> (Err 126, w)),
      ko_read = (\<lambda>n room w. case small_content w n of Some d \<Rightarrow> (Ok (length d, take room d), w) | None \<Rightarrow> (Err 126, w)),
      ko_add = (\<lambda>p w. (Ok (int (length (snd w))), (small_key w, snd w @ [p]))),
      ko_set_timeout = (\<lambda>_ _ w. (Ok (), w)), ko_setperm = (\<lambda>_ _ w. (Ok (), w)),
      ko_link = (\<lambda>n keys w. (Ok (), if keys = KEY_SPEC_USER_KEYRING then (Some n, snd w) else w)),
      ko_unlink = (\<lambda>n keys w. (Ok (), if keys = KEY_SPEC_USER_KEYRING then small_drop n w else w)),
      ko_revoke = (\<lambda>n w. (Ok (), small_drop n w)), ko_strerror = (\<lambda>_. [])\<rparr>"

definition small_view :: "small_ring key_view" where [eval_defs]:
  "small_view = (small_key, small_content)"

lemma small_key_valid: "small_key w = Some n \<Longrightarrow> 0 \<le> n \<and> nat n < length (snd w)"
  by (auto simp: small_key_def small_content_def split: option.splits if_splits)

lemma small_drop_quiet: "quiet small_view w (small_drop n w)"
  by (auto simp: quiet_def small_view_def small_drop_def small_key_def small_content_def fun_eq_iff)

lemma small_add: "small_content (small_key w, snd w @ [p]) = (small_content w)(int (length (snd w)) \<mapsto> p)"
  by (auto simp: small_content_def fun_eq_iff nth_append nat_eq_iff2)

lemma small_add_key: "small_key (small_key w, snd w @ [p]) = small_key w"
proof (cases "small_key w")
  case (Some n)
  then show ?thesis using small_key_valid [OF Some] by (subst small_key_def) (auto simp: small_content_def)
qed (simp add: small_key_def [of "(None, _)"])

lemma small_link:
  "case ko_link small_ops n keys w of
     (Ok _, w') \<Rightarrow> snd small_view w' = snd small_view w \<and> fst small_view w' \<in> {fst small_view w, None, Some n}
   | (Err _, w') \<Rightarrow> quiet small_view w w'"
  by (auto simp: small_ops_def small_view_def small_key_def small_content_def fun_eq_iff split: option.splits)

lemma small_ok: "kernel_ok small_ops small_view"
proof -
  have v: "small_key w \<noteq> Some (int (length (snd w)))" for w using small_key_valid [of w "int (length (snd w))"] by auto
  show ?thesis unfolding kernel_ok_def
  proof (intro conjI allI small_link)
    fix p and w :: small_ring
    show "case ko_add small_ops p w of
        (Ok n, w') \<Rightarrow> snd small_view w' = (snd small_view w)(n \<mapsto> p) \<and> (fst small_view w' = fst small_view w \<or> fst small_view w' = None)
          \<and> fst small_view w \<noteq> Some n
      | (Err _, w') \<Rightarrow> quiet small_view w w'"
      using v by (simp add: small_ops_def small_view_def small_add small_add_key)
  qed (auto simp: small_ops_def small_drop_quiet quiet_refl small_view_def [symmetric] split: option.splits, auto simp: small_view_def)
qed

text \<open>The contract's step 5 fails, and the cache is published all the same.\<close>

lemma failed_unlink_passed_over:
  "fst (key_publish (small_ops\<lparr>ko_unlink := (\<lambda>_ _ w. (Err 1, w))\<rparr>) [5] 60 (Some 0, [[4]])) = Ok 1"
  by (simp add: key_publish_def key_find_def stage_key_def go_defs small_ops_def small_key_def small_content_def Let_def)


end
