(* ===== verification/Lifecycle.thy ===== *)
theory Lifecycle
  imports Keyring
begin

text \<open>
  The identity commands that omdrop runs (omdrop-identity/src/lifecycle.rs): windows, the 1Password cache, import. Every
  section that a command runs under the identity lock is one definition, and so is each command; a step is one section of any
  command, and what 1Password, the clock and the other programs do happens between steps.

  Parameters (\<open>life_env\<close>): the keyring's operations, reading and writing the files, the lock, 1Password's program, the
  Apple checks, the self-signed pair. Of a file the state keeps its text as \<open>read_text\<close> gives it.
\<close>

section \<open>The state and its surroundings\<close>

datatype life_file = State_text | Settings_text | Window_text

datatype life_fail = Fetch_failed (ff_message: ustr) (ff_detail: ustr) | Keyring_failed ustr | Superseded ustr | Io_failed ustr

datatype create_error = Pair_io ustr | Pair_unusable ustr

record 'w life_env =
  le_ops :: "'w key_ops"
  le_unreadable :: "life_file \<Rightarrow> 'w \<Rightarrow> ustr option"
  le_write :: "life_file \<Rightarrow> ustr \<Rightarrow> 'w \<Rightarrow> (unit, ustr) result \<times> 'w"
  le_remove_window :: "'w \<Rightarrow> (unit, ustr) result \<times> 'w"
  le_lock :: "'w \<Rightarrow> (unit, ustr) result \<times> 'w"
  le_kill_fetch :: "'w \<Rightarrow> (unit, ustr) result \<times> 'w"
  le_now :: "'w \<Rightarrow> int"
  le_op :: "ustr list \<Rightarrow> 'w \<Rightarrow> (bytes, ustr \<times> ustr) result \<times> 'w"
  le_ids :: "bytes \<Rightarrow> (ustr \<times> ustr) option"
  le_account :: "bytes \<Rightarrow> ustr option"
  le_check_apple :: "bytes \<Rightarrow> bytes \<Rightarrow> bytes \<Rightarrow> ustr option"
  le_random :: "'w \<Rightarrow> (bytes, ustr) result \<times> 'w"
  le_json :: "bytes \<Rightarrow> (ustr \<times> json_value) list option"
  le_quote :: "ustr \<Rightarrow> ustr"
  le_file :: "ident_file \<Rightarrow> 'w \<Rightarrow> (bytes option, ustr) result"
  le_lexists :: "ident_file \<Rightarrow> 'w \<Rightarrow> bool"
  le_exists :: "ident_file \<Rightarrow> 'w \<Rightarrow> bool"
  le_path :: "ident_file \<Rightarrow> ustr"
  le_matches :: "bytes \<Rightarrow> bytes \<Rightarrow> bool"
  le_delete :: "ident_file \<Rightarrow> 'w \<Rightarrow> (unit, ustr) result \<times> 'w"
  le_create_pair :: "ustr \<Rightarrow> 'w \<Rightarrow> (bool, create_error) result \<times> 'w"
  le_migrate :: "'w \<Rightarrow> (ustr, ustr) result \<times> 'w"

record 'w life =
  lf_text :: "life_file \<Rightarrow> ustr option"
  lf_world :: 'w
  lf_out :: "ustr list"

type_synonym ('a, 'w) life_op = "'w life \<Rightarrow> ('a, life_fail) result \<times> 'w life"

text \<open>What is done in the surroundings, and what is only looked at there.\<close>

definition in_world :: "('e \<Rightarrow> life_fail) \<Rightarrow> ('w \<Rightarrow> ('a, 'e) result \<times> 'w) \<Rightarrow> ('a, 'w) life_op" where [eval_defs]:
  "in_world as f s =
     (case f (lf_world s) of (Ok x, w) \<Rightarrow> (Ok x, s\<lparr>lf_world := w\<rparr>) | (Err e, w) \<Rightarrow> (Err (as e), s\<lparr>lf_world := w\<rparr>))"

definition asks :: "('w \<Rightarrow> 'a) \<Rightarrow> ('a, 'w) life_op" where [eval_defs]:
  "asks f s = (Ok (f (lf_world s)), s)"

definition say :: "ustr \<Rightarrow> ustr \<Rightarrow> (unit, 'w) life_op" where [eval_defs]:
  "say key value s = (Ok (), s\<lparr>lf_out := lf_out s @ [key @ lit ''='' @ value]\<rparr>)"

section \<open>Small state\<close>

definition read_file :: "'w life_env \<Rightarrow> life_file \<Rightarrow> (ustr option, 'w) life_op" where [eval_defs]:
  "read_file env f s =
     (case lf_text s f of
        None \<Rightarrow> (Ok None, s)
      | Some t \<Rightarrow> (case le_unreadable env f (lf_world s) of None \<Rightarrow> (Ok (Some t), s) | Some e \<Rightarrow> (Err (Io_failed e), s)))"

definition write_file :: "'w life_env \<Rightarrow> life_file \<Rightarrow> ustr \<Rightarrow> (unit, 'w) life_op" where [eval_defs]:
  "write_file env f text s =
     (case le_write env f text (lf_world s) of
        (Ok _, w) \<Rightarrow> (Ok (), s\<lparr>lf_text := (lf_text s)(f \<mapsto> text), lf_world := w\<rparr>)
      | (Err e, w) \<Rightarrow> (Err (Io_failed e), s\<lparr>lf_world := w\<rparr>))"

definition read_kv :: "'w life_env \<Rightarrow> life_file \<Rightarrow> (keyed, 'w) life_op" where [eval_defs]:
  "read_kv env f = go_on (read_file env f) (\<lambda>t. give (parse_settings (text_or_empty t)))"

definition count_in :: "keyed \<Rightarrow> ustr \<Rightarrow> nat" where [eval_defs]:
  "count_in entries name =
     (case entries name of
        Some v \<Rightarrow> if v \<noteq> [] \<and> list_all is_ascii_digit v then (case parse_u64 v of Some n \<Rightarrow> n | None \<Rightarrow> 0) else 0
      | None \<Rightarrow> 0)"

definition counter :: "'w life_env \<Rightarrow> ustr \<Rightarrow> (nat, 'w) life_op" where [eval_defs]:
  "counter env name = go_on (read_kv env State_text) (\<lambda>m. give (count_in m name))"

text \<open>The lines of a file of keys and values, as keys in order; a release build's addition wraps.\<close>

definition keys_of :: "ustr \<Rightarrow> ustr list" where [eval_defs]:
  "keys_of text = List.map_filter (\<lambda>l. map_option fst (split_once (lit ''='') l)) (splitlines text)"

definition state_lines :: "keyed \<Rightarrow> ustr list \<Rightarrow> ustr" where [eval_defs]:
  "state_lines m keys = concat (map (\<lambda>k. k @ lit ''='' @ text_or_empty (m k) @ [0x0a]) (sort (remdups keys)))"

definition bump :: "'w life_env \<Rightarrow> ustr \<Rightarrow> (nat, 'w) life_op" where [eval_defs]:
  "bump env name =
     go_on (counter env name) (\<lambda>n.
       let v = (n + 1) mod 2 ^ 64
       in go_on (read_file env State_text) (\<lambda>t.
          go_on (write_file env State_text
                   (state_lines ((parse_settings (text_or_empty t))(name \<mapsto> dec v)) (name # keys_of (text_or_empty t)))) (\<lambda>_.
          give v)))"

definition setting_set :: "'w life_env \<Rightarrow> (ustr \<times> ustr) list \<Rightarrow> (unit, 'w) life_op" where [eval_defs]:
  "setting_set env changes =
     go_on (read_file env Settings_text) (\<lambda>t.
       let kept = filter (\<lambda>l. takeWhile (\<lambda>c. c \<noteq> 0x3d) l \<notin> set (map fst changes)) (splitlines (text_or_empty t))
       in write_file env Settings_text (join [0x0a] (kept @ map (\<lambda>(k, v). k @ lit ''='' @ v) changes) @ [0x0a]))"

definition id_mode :: "'w life_env \<Rightarrow> (ustr, 'w) life_op" where [eval_defs]:
  "id_mode env = go_on (read_kv env Settings_text) (\<lambda>m. give (case m (lit ''identity_source'') of Some v \<Rightarrow> v | None \<Rightarrow> lit ''disk''))"

definition DEFAULT_HOURS :: int where [eval_defs]:
  "DEFAULT_HOURS = 12"

definition cache_hours :: "keyed \<Rightarrow> int" where [eval_defs]:
  "cache_hours m =
     (case m (lit ''identity_cache_hours'') of
        Some v \<Rightarrow>
          if v \<noteq> [] \<and> list_all is_ascii_digit v
          then (case parse_i64 v of Some n \<Rightarrow> if 1 \<le> n \<and> n \<le> 24 then n else DEFAULT_HOURS | None \<Rightarrow> DEFAULT_HOURS)
          else DEFAULT_HOURS
      | None \<Rightarrow> DEFAULT_HOURS)"

definition locked :: "'w life_env \<Rightarrow> ('a, 'w) life_op \<Rightarrow> ('a, 'w) life_op" where [eval_defs]:
  "locked env m = go_on (in_world Io_failed (le_lock env)) (\<lambda>_. m)"

definition read_window :: "'w life_env \<Rightarrow> (window_state, 'w) life_op" where [eval_defs]:
  "read_window env =
     go_on (read_file env Window_text) (\<lambda>t.
       give (case t of None \<Rightarrow> No_window | Some t \<Rightarrow> (case parse_window t of None \<Rightarrow> Unparseable | Some w \<Rightarrow> Parsed w)))"

definition window_open :: "'w life \<Rightarrow> bool" where [eval_defs]:
  "window_open s \<longleftrightarrow> lf_text s Window_text \<noteq> None"

section \<open>The cache\<close>

definition current_cache :: "'w life_env \<Rightarrow> (payload option, 'w) life_op" where [eval_defs]:
  "current_cache env s =
     (case key_read (le_ops env) None (lf_world s) of
        (Ok (Some raw), w) \<Rightarrow>
          (Ok (case parse_payload (le_json env) raw of
                 Some p \<Rightarrow> if pl_hard_expiry p > le_now env w then Some p else None
               | None \<Rightarrow> None), s\<lparr>lf_world := w\<rparr>)
      | (_, w) \<Rightarrow> (Ok None, s\<lparr>lf_world := w\<rparr>))"

definition usable_for_new_window :: "payload option \<Rightarrow> int \<Rightarrow> bool" where [eval_defs]:
  "usable_for_new_window p now \<longleftrightarrow> (case p of Some x \<Rightarrow> pl_period_ends x > now | None \<Rightarrow> False)"

definition run_op :: "'w life_env \<Rightarrow> ustr list \<Rightarrow> (bytes, 'w) life_op" where [eval_defs]:
  "run_op env args = in_world (\<lambda>(message, detail). Fetch_failed message detail) (le_op env args)"

definition op_name :: "ident_file \<Rightarrow> ustr" where [eval_defs]:
  "op_name f = (case f of Certificate_file \<Rightarrow> lit ''certificate'' | Key_file \<Rightarrow> lit ''key'' | _ \<Rightarrow> lit ''validation_record'')"

definition item_ref :: "'w life_env \<Rightarrow> (ustr \<times> ustr \<times> ustr, 'w) life_op" where [eval_defs]:
  "item_ref env =
     go_on (read_kv env Settings_text) (\<lambda>m.
       let get = (\<lambda>k. text_or_empty (m (lit k))); account = get ''identity_op_account''; vault = get ''identity_op_vault'';
           item = get ''identity_op_item''
       in if vault = [] \<or> item = []
          then give_up (Fetch_failed (lit ''No 1Password item configured'') (lit ''run: omdrop identity 1password import''))
          else give (account, vault, item))"

definition op_read :: "'w life_env \<Rightarrow> ustr \<Rightarrow> ustr \<Rightarrow> ustr \<Rightarrow> ident_file \<Rightarrow> (bytes, 'w) life_op" where [eval_defs]:
  "op_read env account vault item f =
     run_op env ([lit ''read'', lit ''--no-newline''] @ (if account = [] then [] else [lit ''--account'', account])
                 @ [lit ''op://'' @ vault @ lit ''/'' @ item @ lit ''/'' @ op_name f])"

definition op_read_files :: "'w life_env \<Rightarrow> ustr \<Rightarrow> ustr \<Rightarrow> ustr \<Rightarrow> (bytes \<times> bytes \<times> bytes, 'w) life_op" where [eval_defs]:
  "op_read_files env account vault item =
     go_on (op_read env account vault item Certificate_file) (\<lambda>cert.
     go_on (op_read env account vault item Key_file) (\<lambda>key.
     go_on (op_read env account vault item Record_file) (\<lambda>rec. give (cert, key, rec))))"

definition hex_text :: "bytes \<Rightarrow> ustr" where [eval_defs]:
  "hex_text b = concat (map (\<lambda>x. let d = (\<lambda>n. if n < 10 then 0x30 + n else 0x57 + n) in [d (unat x div 16), d (unat x mod 16)]) b)"

definition unusable :: "ustr \<Rightarrow> life_fail" where [eval_defs]:
  "unusable problem = Fetch_failed (lit ''The Apple identity in 1Password is unusable'') problem"

definition fetch_payload :: "'w life_env \<Rightarrow> (bytes, 'w) life_op" where [eval_defs]:
  "fetch_payload env =
     go_on (item_ref env) (\<lambda>(account, vault, item).
     go_on (op_read_files env account vault item) (\<lambda>(cert, key, rec).
       case le_check_apple env cert key rec of
         Some problem \<Rightarrow> give_up (unusable problem)
       | None \<Rightarrow>
           go_on (asks (le_now env)) (\<lambda>t0.
           go_on (read_kv env Settings_text) (\<lambda>m.
             let t2 = t0 + MAX_LIFETIME; t1 = min (t0 + cache_hours m * 3600) t2
             in go_on (in_world Io_failed (le_random env)) (\<lambda>rand.
                case encode_payload (le_json env) (le_quote env) (hex_text rand) t0 t1 t2 cert key rec of
                  Some data \<Rightarrow> give data
                | None \<Rightarrow> give_up (unusable (lit ''too large for the identity cache'')))))))"

text \<open>How filling the cache ended.\<close>

datatype fill_outcome = Published | Superseded_fetch | Window_is_open | Not_fetched

definition publish_if_current :: "'w life_env \<Rightarrow> bytes \<Rightarrow> nat \<Rightarrow> (fill_outcome, 'w) life_op" where [eval_defs]:
  "publish_if_current env data generation =
     locked env
       (go_on (counter env (lit ''gen'')) (\<lambda>n.
          if n \<noteq> generation then give Superseded_fetch
          else go_on (read_window env) (\<lambda>w.
            case w of
              Parsed (One_password _ _) \<Rightarrow> give Window_is_open
            | _ \<Rightarrow>
                (case parse_payload (le_json env) data of
                   None \<Rightarrow> give_up (Keyring_failed (lit ''identity payload would not parse''))
                 | Some p \<Rightarrow>
                     go_on (asks (le_now env)) (\<lambda>now.
                     go_on (in_world Keyring_failed (key_publish (le_ops env) data (pl_period_ends p - now))) (\<lambda>_.
                     give Published))))))"

definition read_gen :: "'w life_env \<Rightarrow> (nat, 'w) life_op" where [eval_defs]:
  "read_gen env = locked env (counter env (lit ''gen''))"

definition fill_cache :: "'w life_env \<Rightarrow> (fill_outcome \<times> life_fail option, 'w) life_op" where [eval_defs]:
  "fill_cache env =
     go_on (read_gen env) (\<lambda>generation s.
       case fetch_payload env s of
         (Err (Fetch_failed m d), s') \<Rightarrow> (Ok (Not_fetched, Some (Fetch_failed m d)), s')
       | (Err e, s') \<Rightarrow> (Err e, s')
       | (Ok data, s') \<Rightarrow>
           (case publish_if_current env data generation s' of
              (Ok o', s'') \<Rightarrow> (Ok (o', None), s'')
            | (Err (Keyring_failed e), s'') \<Rightarrow> (Ok (Not_fetched, Some (Keyring_failed e)), s'')
            | (Err e, s'') \<Rightarrow> (Err e, s'')))"

section \<open>Windows\<close>

definition NOTICE_TAIL :: ustr where [eval_defs]:
  "NOTICE_TAIL = lit ''; using self-signed certificates. Peers must be in '' @ [0x22] @ lit ''Everyone'' @ [0x22] @ lit '' mode.''"

definition create_pair :: "'w life_env \<Rightarrow> ustr \<Rightarrow> ((bool, ustr) result, 'w) life_op" where [eval_defs]:
  "create_pair env name s =
     (case le_create_pair env name (lf_world s) of
        (Ok made, w) \<Rightarrow> (Ok (Ok made), s\<lparr>lf_world := w\<rparr>)
      | (Err (Pair_io e), w) \<Rightarrow> (Err (Io_failed e), s\<lparr>lf_world := w\<rparr>)
      | (Err (Pair_unusable e), w) \<Rightarrow> (Ok (Err e), s\<lparr>lf_world := w\<rparr>))"

definition read_seq :: "'w life_env \<Rightarrow> (nat, 'w) life_op" where [eval_defs]:
  "read_seq env = locked env (counter env (lit ''seq''))"

definition begin_cache :: "'w life_env \<Rightarrow> (int, 'w) life_op" where [eval_defs]:
  "begin_cache env =
     go_on (id_mode env) (\<lambda>m.
       if m \<noteq> lit ''1password'' then give 0
       else go_on (current_cache env) (\<lambda>p.
            go_on (asks (le_now env)) (\<lambda>now.
              if usable_for_new_window p now then give 0
              else go_on (read_window env) (\<lambda>w.
                case w of
                  Parsed _ \<Rightarrow> give 0
                | _ \<Rightarrow>
                    go_on (fill_cache env) (\<lambda>(res, why).
                      if res = Not_fetched
                      then go_on (say (lit ''notice'')
                             ((case why of Some (Fetch_failed msg _) \<Rightarrow> msg | _ \<Rightarrow> lit ''Could not cache the Apple identity'') @ NOTICE_TAIL))
                             (\<lambda>_. give 0)
                      else give 0)))))"

definition cmd_begin :: "'w life_env \<Rightarrow> ustr \<Rightarrow> (int, 'w) life_op" where [eval_defs]:
  "cmd_begin env name =
     go_on (create_pair env name) (\<lambda>made.
       case made of
         Err _ \<Rightarrow> give 1
       | Ok _ \<Rightarrow>
           go_on (in_world Io_failed (le_migrate env)) (\<lambda>_.
           go_on (read_seq env) (\<lambda>n.
           go_on (say (lit ''seq'') (dec n)) (\<lambda>_. begin_cache env))))"

text \<open>The lines of a new window.\<close>

definition cache_serial :: "'w life_env \<Rightarrow> (ustr, 'w) life_op" where [eval_defs]:
  "cache_serial env s =
     (case key_find (le_ops env) (lf_world s) of
        (Ok (Some n), w) \<Rightarrow> (Ok (int_text n), s\<lparr>lf_world := w\<rparr>)
      | (_, w) \<Rightarrow> (Ok (lit ''None''), s\<lparr>lf_world := w\<rparr>))"

definition window_of_cache :: "'w life_env \<Rightarrow> (ustr list, 'w) life_op" where [eval_defs]:
  "window_of_cache env =
     go_on (current_cache env) (\<lambda>p.
     go_on (asks (le_now env)) (\<lambda>now. case p of
       None \<Rightarrow> give []
     | Some x \<Rightarrow>
         if \<not> usable_for_new_window p now then give []
         else go_on (cache_serial env) (\<lambda>serial.
              go_on (asks (le_now env)) (\<lambda>t.
              go_on (in_world Keyring_failed (key_set_timeout (le_ops env) (pl_hard_expiry x - t))) (\<lambda>_.
              go_on (say (lit ''source'') (lit ''1password'')) (\<lambda>_.
              go_on (asks (le_now env)) (\<lambda>later.
              go_on (say (lit ''expiry_in'') (int_text (pl_hard_expiry x - later))) (\<lambda>_.
              give [lit ''source=1password'', lit ''fetch_id='' @ pl_fetch_id x, lit ''hard_expiry='' @ int_text (pl_hard_expiry x),
                    lit ''cache_serial='' @ serial]))))))))"

definition read_present :: "'w life_env \<Rightarrow> ident_file \<Rightarrow> 'w \<Rightarrow> bytes option \<times> bool" where [eval_defs]:
  "read_present env f w = (case le_file env f w of Ok d \<Rightarrow> (d, le_lexists env f w) | Err _ \<Rightarrow> (None, True))"

definition pair_matches :: "'w life_env \<Rightarrow> bytes option \<Rightarrow> bytes option \<Rightarrow> bool" where [eval_defs]:
  "pair_matches env cert key =
     (case (cert, key) of (Some c, Some k) \<Rightarrow> c \<noteq> [] \<and> k \<noteq> [] \<and> le_matches env c k | _ \<Rightarrow> False)"

definition bytes_or_empty :: "bytes option \<Rightarrow> bytes" where [eval_defs]:
  "bytes_or_empty b = (case b of Some x \<Rightarrow> x | None \<Rightarrow> [])"

definition window_of_disk :: "'w life_env \<Rightarrow> (ustr list, 'w) life_op" where [eval_defs]:
  "window_of_disk env =
     go_on (asks (read_present env Certificate_file)) (\<lambda>(cert, have_cert).
     go_on (asks (read_present env Key_file)) (\<lambda>(key, have_key).
       if have_cert \<and> have_key \<and> pair_matches env cert key
       then go_on (asks (le_exists env Record_file)) (\<lambda>record_there.
            go_on (if record_there
                   then go_on (asks (le_file env Record_file)) (\<lambda>r. case r of
                          Err e \<Rightarrow> give_up (Io_failed e)
                        | Ok rec \<Rightarrow> give (le_check_apple env (bytes_or_empty cert) (bytes_or_empty key) (bytes_or_empty rec)))
                   else give None) (\<lambda>problem.
              case problem of
                Some _ \<Rightarrow> go_on (say (lit ''notice'') (lit ''Apple identity unusable'' @ NOTICE_TAIL)) (\<lambda>_. give [])
              | None \<Rightarrow> go_on (say (lit ''source'') (lit ''disk'')) (\<lambda>_. give [lit ''source=disk''])))
       else give []))"

definition cmd_window :: "'w life_env \<Rightarrow> int option \<Rightarrow> (int, 'w) life_op" where [eval_defs]:
  "cmd_window env seq =
     go_on (counter env (lit ''seq'')) (\<lambda>n.
       if seq \<noteq> Some (int n) then give 3
       else go_on (read_window env) (\<lambda>w. case w of
         Parsed existing \<Rightarrow>
           go_on (say (lit ''source'') (window_source existing)) (\<lambda>_.
           go_on (asks (le_now env)) (\<lambda>now.
             case existing of
               One_password _ expiry \<Rightarrow> go_on (say (lit ''expiry_in'') (int_text (max (expiry - now) 0))) (\<lambda>_. give 0)
             | _ \<Rightarrow> give 0))
       | _ \<Rightarrow>
           go_on (id_mode env) (\<lambda>m.
           go_on (if m = lit ''1password'' then window_of_cache env else if m = lit ''disk'' then window_of_disk env else give []) (\<lambda>lines.
           go_on (if lines = [] then go_on (say (lit ''source'') (lit ''self-signed'')) (\<lambda>_. give [lit ''source=self-signed'']) else give lines) (\<lambda>ls.
           go_on (write_file env Window_text (join [0x0a] ls @ [0x0a])) (\<lambda>_. give 0))))))"

definition cmd_stop_begin :: "'w life_env \<Rightarrow> (int, 'w) life_op" where [eval_defs]:
  "cmd_stop_begin env = go_on (bump env (lit ''seq'')) (\<lambda>_. give 0)"

definition remove_window :: "'w life_env \<Rightarrow> (unit, 'w) life_op" where [eval_defs]:
  "remove_window env s =
     (case le_remove_window env (lf_world s) of
        (Ok _, w) \<Rightarrow> (Ok (), s\<lparr>lf_text := (lf_text s)(Window_text := None), lf_world := w\<rparr>)
      | (Err e, w) \<Rightarrow> (Err (Io_failed e), s\<lparr>lf_world := w\<rparr>))"

definition cmd_stop_end :: "'w life_env \<Rightarrow> (int, 'w) life_op" where [eval_defs]:
  "cmd_stop_end env =
     go_on (remove_window env) (\<lambda>_.
     go_on (current_cache env) (\<lambda>p. case p of
       None \<Rightarrow> give 0
     | Some x \<Rightarrow>
         go_on (asks (le_now env)) (\<lambda>now.
         go_on (whatever (in_world Keyring_failed (key_set_timeout (le_ops env) (pl_period_ends x - now)))) (\<lambda>_. give 0))))"

section \<open>Identity commands\<close>

definition kill_fetch :: "'w life_env \<Rightarrow> (unit, 'w) life_op" where [eval_defs]:
  "kill_fetch env = in_world Io_failed (le_kill_fetch env)"

definition cmd_lock :: "'w life_env \<Rightarrow> (int, 'w) life_op" where [eval_defs]:
  "cmd_lock env =
     locked env (\<lambda>s.
       if window_open s then (Ok 1, s)
       else go_on (bump env (lit ''gen'')) (\<lambda>_.
            go_on (kill_fetch env) (\<lambda>_ s'.
              case key_revoke (le_ops env) (lf_world s') of
                (Ok _, w) \<Rightarrow> (Ok 0, s'\<lparr>lf_world := w\<rparr>)
              | (Err _, w) \<Rightarrow> (Ok 1, s'\<lparr>lf_world := w\<rparr>))) s)"

definition cmd_unlock :: "'w life_env \<Rightarrow> (int, 'w) life_op" where [eval_defs]:
  "cmd_unlock env =
     go_on (id_mode env) (\<lambda>m.
       if m \<noteq> lit ''1password'' then give 1
       else go_on (current_cache env) (\<lambda>p.
              if p \<noteq> None then give 0
              else go_on (fill_cache env) (\<lambda>(res, _). give (if res = Published then 0 else 1))))"

definition check_current :: "'w life_env \<Rightarrow> nat \<Rightarrow> (unit, 'w) life_op" where [eval_defs]:
  "check_current env generation s =
     (if window_open s then (Err (Superseded (lit ''Turn Omdrop off first.'')), s)
      else go_on (counter env (lit ''gen'')) (\<lambda>n.
             if n \<noteq> generation then give_up (Superseded (lit ''Cancelled: the identity settings changed meanwhile.''))
             else give ()) s)"

definition item_settings :: "ustr \<Rightarrow> ustr \<Rightarrow> ustr \<Rightarrow> (ustr \<times> ustr) list" where [eval_defs]:
  "item_settings account vault item =
     [(lit ''identity_op_account'', account), (lit ''identity_op_vault'', vault), (lit ''identity_op_item'', item)]"

definition save_item_ids :: "'w life_env \<Rightarrow> ustr \<Rightarrow> ustr \<Rightarrow> ustr \<Rightarrow> nat \<Rightarrow> (unit, 'w) life_op" where [eval_defs]:
  "save_item_ids env account vault item generation =
     locked env (go_on (check_current env generation) (\<lambda>_. setting_set env (item_settings account vault item)))"

definition clear_cache :: "'w life_env \<Rightarrow> (unit, 'w) life_op" where [eval_defs]:
  "clear_cache env =
     go_on (in_world (\<lambda>e. Superseded (lit ''Could not clear the cached identity ('' @ e @ lit ''); nothing changed.''))
              (key_revoke (le_ops env))) (\<lambda>_. give ())"

definition adopt :: "'w life_env \<Rightarrow> ustr \<Rightarrow> ustr \<Rightarrow> ustr \<Rightarrow> nat \<Rightarrow> (unit, 'w) life_op" where [eval_defs]:
  "adopt env account vault item generation =
     locked env
       (go_on (check_current env generation) (\<lambda>_.
        go_on (clear_cache env) (\<lambda>_.
        go_on (setting_set env (item_settings account vault item)) (\<lambda>_.
        go_on (setting_set env [(lit ''identity_source'', lit ''1password'')]) (\<lambda>_.
        go_on (bump env (lit ''gen'')) (\<lambda>_. kill_fetch env))))))"

definition not_json :: life_fail where [eval_defs]:
  "not_json = Fetch_failed (lit ''1Password could not provide the identity'') (lit ''op printed something that is not JSON'')"

definition op_ids :: "'w life_env \<Rightarrow> ustr list \<Rightarrow> (ustr \<times> ustr, 'w) life_op" where [eval_defs]:
  "op_ids env args =
     go_on (run_op env (args @ [lit ''--format'', lit ''json''])) (\<lambda>raw.
       case le_ids env (if raw = [] then blit ''{}'' else raw) of None \<Rightarrow> give_up not_json | Some ids \<Rightarrow> give ids)"

definition account_id :: "'w life_env \<Rightarrow> (ustr, 'w) life_op" where [eval_defs]:
  "account_id env =
     go_on (run_op env [lit ''account'', lit ''list'', lit ''--format'', lit ''json'']) (\<lambda>raw.
       case le_account env (if raw = [] then blit ''[]'' else raw) of None \<Rightarrow> give_up not_json | Some a \<Rightarrow> give a)"

text \<open>Using another item: the generation moves first, and the commitment needs it unmoved since.\<close>

definition use_begin :: "'w life_env \<Rightarrow> (nat option, 'w) life_op" where [eval_defs]:
  "use_begin env =
     locked env (\<lambda>s.
       if window_open s then (Ok None, s)
       else go_on (bump env (lit ''gen'')) (\<lambda>g. go_on (kill_fetch env) (\<lambda>_. give (Some g))) s)"

definition use_fetch :: "'w life_env \<Rightarrow> ustr \<Rightarrow> ustr option \<Rightarrow> ustr option \<Rightarrow> (ustr \<times> ustr \<times> ustr \<times> bytes \<times> bytes \<times> bytes, 'w) life_op" where [eval_defs]:
  "use_fetch env item_arg vault_arg account_arg =
     go_on (op_ids env ([lit ''item'', lit ''get'', item_arg] @ (case vault_arg of Some v \<Rightarrow> [lit ''--vault'', v] | None \<Rightarrow> []))) (\<lambda>(item, vault).
     go_on (if account_arg = None \<or> account_arg = Some [] then account_id env else give (the account_arg)) (\<lambda>account.
     go_on (op_read_files env account vault item) (\<lambda>(cert, key, rec). give (account, vault, item, cert, key, rec))))"

definition cmd_use :: "'w life_env \<Rightarrow> ustr \<Rightarrow> ustr option \<Rightarrow> ustr option \<Rightarrow> (int, 'w) life_op" where [eval_defs]:
  "cmd_use env item_arg vault_arg account_arg =
     go_on (use_begin env) (\<lambda>g. case g of
       None \<Rightarrow> give 1
     | Some generation \<Rightarrow> (\<lambda>s.
         case use_fetch env item_arg vault_arg account_arg s of
           (Err (Fetch_failed _ _), s') \<Rightarrow> (Ok 1, s')
         | (Err e, s') \<Rightarrow> (Err e, s')
         | (Ok (account, vault, item, cert, key, rec), s') \<Rightarrow>
             if le_check_apple env cert key rec \<noteq> None then (Ok 1, s')
             else (case adopt env account vault item generation s' of
                     (Ok _, s'') \<Rightarrow> (Ok 0, s'')
                   | (Err (Superseded _), s'') \<Rightarrow> (Ok 1, s'')
                   | (Err e, s'') \<Rightarrow> (Err e, s''))))"

definition cmd_onepassword_off :: "'w life_env \<Rightarrow> (int, 'w) life_op" where [eval_defs]:
  "cmd_onepassword_off env =
     locked env (\<lambda>s.
       if window_open s then (Ok 1, s)
       else go_on (bump env (lit ''gen'')) (\<lambda>_.
            go_on (kill_fetch env) (\<lambda>_.
            go_on (whatever (in_world Keyring_failed (key_revoke (le_ops env)))) (\<lambda>_.
            go_on (setting_set env [(lit ''identity_source'', lit ''self-signed'')]) (\<lambda>_. give 0)))) s)"

section \<open>Import\<close>

definition import_begin :: "'w life_env \<Rightarrow> (nat option, 'w) life_op" where [eval_defs]:
  "import_begin env = locked env (\<lambda>s. if window_open s then (Ok None, s) else go_on (counter env (lit ''gen'')) (\<lambda>g. give (Some g)) s)"

definition read_disk :: "'w life_env \<Rightarrow> ident_file \<Rightarrow> (bytes option, 'w) life_op" where [eval_defs]:
  "read_disk env f = go_on (asks (le_file env f)) (\<lambda>r. case r of Ok d \<Rightarrow> give d | Err e \<Rightarrow> give_up (Io_failed e))"

text \<open>A rerun: an item is configured, and what is still on disk must be what it holds.\<close>

definition import_again :: "'w life_env \<Rightarrow> nat \<Rightarrow> bool \<Rightarrow> bytes option \<Rightarrow> bytes option \<Rightarrow> bytes option \<Rightarrow> (int option, 'w) life_op" where [eval_defs]:
  "import_again env generation committed cert key rec =
     go_on (item_ref env) (\<lambda>(account, vault, item).
     go_on (op_read_files env account vault item) (\<lambda>(c, k, r).
       if (cert \<noteq> None \<and> cert \<noteq> Some c) \<or> (key \<noteq> None \<and> key \<noteq> Some k) \<or> (rec \<noteq> None \<and> rec \<noteq> Some r) then give (Some 1)
       else if committed then give None
       else if le_check_apple env c k r \<noteq> None then give (Some 1)
       else go_on (adopt env account vault item generation) (\<lambda>_. give None)))"

definition import_new :: "'w life_env \<Rightarrow> nat \<Rightarrow> ustr option \<Rightarrow> ustr \<Rightarrow> bytes \<Rightarrow> bytes \<Rightarrow> bytes \<Rightarrow> (int option, 'w) life_op" where [eval_defs]:
  "import_new env generation vault_arg title cert key rec =
     (if le_check_apple env cert key rec \<noteq> None then give (Some 1)
      else go_on (op_ids env ([lit ''item'', lit ''create'', lit ''--category'', lit ''Secure Note'', lit ''--title'', title]
                    @ (case vault_arg of Some v \<Rightarrow> [lit ''--vault'', v] | None \<Rightarrow> [])
                    @ map (\<lambda>f. op_name f @ lit ''[file]='' @ le_path env f) [Certificate_file, Key_file, Record_file])) (\<lambda>(item, vault).
        if item = [] \<or> vault = [] then give (Some 1)
        else go_on (account_id env) (\<lambda>account s.
          case save_item_ids env account vault item generation s of
            (Err (Io_failed _), s') \<Rightarrow> (Ok (Some 1), s')
          | (Err (Superseded _), s') \<Rightarrow> (Ok (Some 1), s')
          | (Err e, s') \<Rightarrow> (Err e, s')
          | (Ok _, s') \<Rightarrow>
              go_on (op_read_files env account vault item) (\<lambda>(c, k, r) s2.
                if (c, k, r) \<noteq> (cert, key, rec) then (Ok (Some 1), s2)
                else (case adopt env account vault item generation s2 of
                        (Ok _, s3) \<Rightarrow> (Ok None, s3)
                      | (Err (Io_failed _), s3) \<Rightarrow> (Ok (Some 1), s3)
                      | (Err e, s3) \<Rightarrow> (Err e, s3))) s')))"

definition import_decide :: "'w life_env \<Rightarrow> nat \<Rightarrow> ustr option \<Rightarrow> ustr \<Rightarrow> keyed \<Rightarrow> bytes option \<Rightarrow> bytes option \<Rightarrow> bytes option
    \<Rightarrow> (int option, 'w) life_op" where [eval_defs]:
  "import_decide env generation vault_arg title m cert key rec =
     (if text_or_empty (m (lit ''identity_op_item'')) \<noteq> []
      then import_again env generation (m (lit ''identity_source'') = Some (lit ''1password'')) cert key rec
      else (case (cert, key, rec) of
              (Some c, Some k, Some r) \<Rightarrow> import_new env generation vault_arg title c k r
            | _ \<Rightarrow> give (Some 1)))"

definition delete_disk :: "'w life_env \<Rightarrow> (int, 'w) life_op" where [eval_defs]:
  "delete_disk env =
     go_on (in_world Io_failed (le_delete env Key_file)) (\<lambda>_.
     go_on (in_world Io_failed (le_delete env Record_file)) (\<lambda>_.
     go_on (in_world Io_failed (le_delete env Certificate_file)) (\<lambda>_. give 0)))"

definition cmd_import :: "'w life_env \<Rightarrow> ustr option \<Rightarrow> ustr \<Rightarrow> (int, 'w) life_op" where [eval_defs]:
  "cmd_import env vault_arg title =
     go_on (import_begin env) (\<lambda>g. case g of
       None \<Rightarrow> give 1
     | Some generation \<Rightarrow>
         go_on (read_disk env Certificate_file) (\<lambda>cert.
         go_on (read_disk env Key_file) (\<lambda>key.
         go_on (read_disk env Record_file) (\<lambda>rec.
         go_on (read_kv env Settings_text) (\<lambda>m s.
           case import_decide env generation vault_arg title m cert key rec s of
             (Ok (Some rc), s') \<Rightarrow> (Ok rc, s')
           | (Ok None, s') \<Rightarrow> delete_disk env s'
           | (Err (Fetch_failed _ _), s') \<Rightarrow> (Ok 1, s')
           | (Err (Superseded _), s') \<Rightarrow> (Ok 1, s')
           | (Err e, s') \<Rightarrow> (Err e, s'))))))"

definition cmd_ensure_self_signed :: "'w life_env \<Rightarrow> ustr \<Rightarrow> (int, 'w) life_op" where [eval_defs]:
  "cmd_ensure_self_signed env name =
     go_on (create_pair env name) (\<lambda>made. case made of
       Err _ \<Rightarrow> give 2
     | Ok new \<Rightarrow>
         go_on (in_world Io_failed (le_migrate env)) (\<lambda>r.
         go_on (say (lit ''renamed'') r) (\<lambda>_. give (if new then 0 else 1))))"

text \<open>The commands, with their arguments, and the exit status of each.\<close>

datatype life_cmd =
    Begin ustr | Open_window "int option" | Stop_begin | Stop_end | Lock | Unlock | Import "ustr option" ustr
  | Use ustr "ustr option" "ustr option" | Onepassword_off | Ensure_self_signed ustr

definition command :: "'w life_env \<Rightarrow> life_cmd \<Rightarrow> (int, 'w) life_op" where [eval_defs]:
  "command env c =
     (case c of
        Begin name \<Rightarrow> cmd_begin env name
      | Open_window seq \<Rightarrow> cmd_window env seq
      | Stop_begin \<Rightarrow> cmd_stop_begin env
      | Stop_end \<Rightarrow> cmd_stop_end env
      | Lock \<Rightarrow> cmd_lock env
      | Unlock \<Rightarrow> cmd_unlock env
      | Import vault title \<Rightarrow> cmd_import env vault title
      | Use item vault account \<Rightarrow> cmd_use env item vault account
      | Onepassword_off \<Rightarrow> cmd_onepassword_off env
      | Ensure_self_signed name \<Rightarrow> cmd_ensure_self_signed env name)"

definition life_run :: "'w life_env \<Rightarrow> life_cmd \<Rightarrow> 'w life \<Rightarrow> int \<times> 'w life" where [eval_defs]:
  "life_run env c s = (case command env c s of (Ok rc, s') \<Rightarrow> (rc, s') | (Err _, s') \<Rightarrow> (1, s'))"

section \<open>Relations that operations keep\<close>

text \<open>A relation of states that holds across an operation, from whatever state.\<close>

definition always :: "('s \<Rightarrow> 's \<Rightarrow> bool) \<Rightarrow> ('s \<Rightarrow> ('a, 'e) result \<times> 's) \<Rightarrow> bool" where
  "always R m \<longleftrightarrow> (\<forall>s. R s (snd (m s)))"

locale steady =
  fixes R :: "'s \<Rightarrow> 's \<Rightarrow> bool"
  assumes same: "R s s" and later: "R s t \<Longrightarrow> R t u \<Longrightarrow> R s u"
begin

lemma go_on: "always R m \<Longrightarrow> (\<And>x. always R (k x)) \<Longrightarrow> always R (go_on m k)"
  unfolding always_def go_on_def by (auto split: prod.splits result.splits) (metis later snd_conv)+

lemma give: "always R (give x)" "always R (give_up e)"
  by (simp_all add: always_def give_def give_up_def same)

lemma whatever: "always R m \<Longrightarrow> always R (whatever m)"
  by (simp add: always_def whatever_def)

lemma choice_of: "always R a \<Longrightarrow> always R b \<Longrightarrow> always R (if q then a else b)"
  "always R a \<Longrightarrow> (\<And>x. always R (f x)) \<Longrightarrow> always R (case v of None \<Rightarrow> a | Some x \<Rightarrow> f x)"
  by (auto split: option.splits)

lemma either: "(\<And>x. always R (f x)) \<Longrightarrow> (\<And>e. always R (g e)) \<Longrightarrow> always R (case r of Ok x \<Rightarrow> f x | Err e \<Rightarrow> g e)"
  by (auto split: result.splits)

lemma guard: "always R m \<Longrightarrow> always R (\<lambda>s. if q s then (Ok x, s) else m s)"
  "always R m \<Longrightarrow> always R (\<lambda>s. if q s then (Err e, s) else m s)"
  by (simp_all add: always_def same)

lemma at: "always R m \<Longrightarrow> R s (snd (m s))"
  by (simp add: always_def)

end

text \<open>The window is as it was, and the cache as it was or empty.\<close>

definition keeps :: "'w key_view \<Rightarrow> 'w life \<Rightarrow> 'w life \<Rightarrow> bool" where
  "keeps kv s s' \<longleftrightarrow> lf_text s' Window_text = lf_text s Window_text \<and> fades kv (lf_world s) (lf_world s')"

interpretation keep: steady "keeps kv" for kv :: "'w key_view"
  by unfold_locales (auto simp: keeps_def fades_refl intro: fades_trans)

text \<open>What is relied on in the surroundings: none of it puts anything into the cache.\<close>

definition life_ok :: "'w life_env \<Rightarrow> 'w key_view \<Rightarrow> bool" where
  "life_ok env kv \<longleftrightarrow> kernel_ok (le_ops env) kv
     \<and> (\<forall>f t w. fades kv w (snd (le_write env f t w))) \<and> (\<forall>w. fades kv w (snd (le_remove_window env w)))
     \<and> (\<forall>w. fades kv w (snd (le_lock env w))) \<and> (\<forall>w. fades kv w (snd (le_kill_fetch env w)))
     \<and> (\<forall>args w. fades kv w (snd (le_op env args w))) \<and> (\<forall>w. fades kv w (snd (le_random env w)))
     \<and> (\<forall>f w. fades kv w (snd (le_delete env f w))) \<and> (\<forall>name w. fades kv w (snd (le_create_pair env name w)))
     \<and> (\<forall>w. fades kv w (snd (le_migrate env w)))"

lemma keep_in_world: "(\<And>w. fades kv w (snd (f w))) \<Longrightarrow> always (keeps kv) (in_world as f)"
  unfolding always_def in_world_def by (auto simp: keeps_def split: prod.splits result.splits) (metis snd_conv)+

lemma keep_simple: "always (keeps kv) (asks f)" "always (keeps kv) (say k v)" "always (keeps kv) (read_file env file)"
  by (auto simp: always_def asks_def say_def read_file_def keeps_def fades_refl split: option.splits)

lemma keep_write: "life_ok env kv \<Longrightarrow> f \<noteq> Window_text \<Longrightarrow> always (keeps kv) (write_file env f t)"
  unfolding always_def write_file_def life_ok_def keeps_def
  by (auto split: prod.splits result.splits) (metis snd_conv)+

lemma keep_cache: "kernel_ok (le_ops env) kv \<Longrightarrow> always (keeps kv) (current_cache env)"
proof -
  assume k: "kernel_ok (le_ops env) kv"
  have "keeps kv s (snd (current_cache env s))" for s
    using quiet_fades [OF key_read_quiet [OF k, of "lf_world s" None]]
    by (auto simp: current_cache_def keeps_def split: prod.splits result.splits option.splits)
  then show ?thesis by (simp add: always_def)
qed

lemmas keep_rules = keep.go_on keep.give keep.whatever keep.guard keep.choice_of keep.either keep_simple

lemma keep_reads:
  "always (keeps kv) (read_kv env f)" "always (keeps kv) (counter env name)" "always (keeps kv) (id_mode env)" "always (keeps kv) (read_window env)"
  by (simp_all add: read_kv_def counter_def id_mode_def read_window_def keep_rules)

lemma keep_locked: "life_ok env kv \<Longrightarrow> always (keeps kv) m \<Longrightarrow> always (keeps kv) (locked env m)"
  unfolding locked_def by (intro keep_rules keep_in_world) (simp_all add: life_ok_def)

lemma keep_bump: "life_ok env kv \<Longrightarrow> always (keeps kv) (bump env name)"
  unfolding bump_def Let_def by (intro keep_rules keep_reads keep_write) simp_all

lemma keep_setting: "life_ok env kv \<Longrightarrow> always (keeps kv) (setting_set env changes)"
  unfolding setting_set_def Let_def by (intro keep_rules keep_write) simp_all

lemma keep_ring:
  assumes "life_ok env kv"
  shows "always (keeps kv) (in_world as (key_revoke (le_ops env)))" "always (keeps kv) (in_world as (key_set_timeout (le_ops env) n))"
    "always (keeps kv) (kill_fetch env)" "always (keeps kv) (run_op env args)" "always (keeps kv) (current_cache env)"
  using assms unfolding kill_fetch_def run_op_def life_ok_def
  by (auto intro!: keep_in_world keep_cache intro: quiet_fades [OF key_revoke_quiet] quiet_fades [OF key_set_timeout_quiet])

lemma keep_revoke_status:
  "kernel_ok (le_ops env) kv \<Longrightarrow> always (keeps kv)
     (\<lambda>s. case key_revoke (le_ops env) (lf_world s) of (Ok _, w) \<Rightarrow> (Ok a, s\<lparr>lf_world := w\<rparr>) | (Err _, w) \<Rightarrow> (Ok b, s\<lparr>lf_world := w\<rparr>))"
proof -
  assume k: "kernel_ok (le_ops env) kv"
  have "fades kv w (snd (key_revoke (le_ops env) w))" for w using key_revoke_quiet [OF k] by (rule quiet_fades)
  then show ?thesis unfolding always_def keeps_def by (auto split: prod.splits result.splits) (metis snd_conv)+
qed

text \<open>Every section but the three that write or remove the window, or fill the cache.\<close>

lemma keep_sections:
  assumes "life_ok env kv"
  shows "always (keeps kv) (cmd_stop_begin env)" "always (keeps kv) (cmd_lock env)" "always (keeps kv) (use_begin env)"
    "always (keeps kv) (adopt env account vault item g)" "always (keeps kv) (save_item_ids env account vault item g)"
    "always (keeps kv) (cmd_onepassword_off env)"
proof -
  have k: "kernel_ok (le_ops env) kv" using assms by (simp add: life_ok_def)
  have c: "always (keeps kv) (check_current env g)" unfolding check_current_def by (intro keep_rules keep_reads)
  show "always (keeps kv) (cmd_stop_begin env)" unfolding cmd_stop_begin_def by (intro keep_rules keep_bump assms)
  show "always (keeps kv) (cmd_lock env)"
    unfolding cmd_lock_def by (intro keep_locked keep_rules keep_bump keep_ring keep_revoke_status k assms)
  show "always (keeps kv) (use_begin env)" unfolding use_begin_def by (intro keep_locked keep_rules keep_bump keep_ring assms)
  show "always (keeps kv) (adopt env account vault item g)"
    unfolding adopt_def clear_cache_def by (intro keep_locked keep_rules keep_bump keep_ring keep_setting c assms)
  show "always (keeps kv) (save_item_ids env account vault item g)"
    unfolding save_item_ids_def by (intro keep_locked keep_rules keep_setting c assms)
  show "always (keeps kv) (cmd_onepassword_off env)"
    unfolding cmd_onepassword_off_def by (intro keep_locked keep_rules keep_bump keep_ring keep_setting assms)
qed

section \<open>Steps\<close>

text \<open>
  A step is one section that some command runs under the lock, whatever its arguments and whatever was fetched; or the
  surroundings move, the time passes and another program rewrites the settings.
\<close>

inductive life_step :: "'w life_env \<Rightarrow> 'w key_view \<Rightarrow> 'w life \<Rightarrow> 'w life \<Rightarrow> bool" for env :: "'w life_env" and kv :: "'w key_view" where
  step_window: "cmd_window env seq s = (r, s') \<Longrightarrow> life_step env kv s s'"
| step_stop_begin: "cmd_stop_begin env s = (r, s') \<Longrightarrow> life_step env kv s s'"
| step_stop_end: "cmd_stop_end env s = (r, s') \<Longrightarrow> life_step env kv s s'"
| step_lock: "cmd_lock env s = (r, s') \<Longrightarrow> life_step env kv s s'"
| step_publish: "publish_if_current env data g s = (q, s') \<Longrightarrow> life_step env kv s s'"
| step_use: "use_begin env s = (n, s') \<Longrightarrow> life_step env kv s s'"
| step_save: "save_item_ids env account vault item g s = (u, s') \<Longrightarrow> life_step env kv s s'"
| step_adopt: "adopt env account vault item g s = (u, s') \<Longrightarrow> life_step env kv s s'"
| step_off: "cmd_onepassword_off env s = (r, s') \<Longrightarrow> life_step env kv s s'"
| step_outside: "fades kv (lf_world s) w \<Longrightarrow> life_step env kv s (s\<lparr>lf_world := w, lf_out := out\<rparr>)"
| step_settings: "life_step env kv s (s\<lparr>lf_text := (lf_text s)(Settings_text := t)\<rparr>)"

text \<open>A window of a 1Password identity, and the cache it was opened with or none.\<close>

definition kept :: "'w life_env \<Rightarrow> 'w key_view \<Rightarrow> 'w life \<Rightarrow> bool" where
  "kept env kv s \<longleftrightarrow>
     (\<forall>t f e data. lf_text s Window_text = Some t \<and> parse_window t = Some (One_password f e) \<and> cache_held kv (lf_world s) = Some data
        \<longrightarrow> (\<exists>p. parse_payload (le_json env) data = Some p \<and> pl_fetch_id p = f \<and> pl_hard_expiry p = e))"

lemma kept_keeps: "kept env kv s \<Longrightarrow> keeps kv s s' \<Longrightarrow> kept env kv s'"
  unfolding kept_def keeps_def fades_def by (elim conjE disjE) simp_all

lemma kept_without: "lf_text s Window_text = None \<Longrightarrow> kept env kv s"
  by (simp add: kept_def)

text \<open>What holds after an operation: one thing with its value, another after an error.\<close>

definition yields :: "('s \<Rightarrow> bool) \<Rightarrow> ('s \<Rightarrow> bool) \<Rightarrow> ('s \<Rightarrow> ('a, 'e) result \<times> 's) \<Rightarrow> ('a \<Rightarrow> 's \<Rightarrow> bool) \<Rightarrow> bool" where
  "yields err pre m post \<longleftrightarrow> (\<forall>s. pre s \<longrightarrow> (case m s of (Ok x, s') \<Rightarrow> post x s' | (Err _, s') \<Rightarrow> err s'))"

lemma yields_go_on: "yields err pre m mid \<Longrightarrow> (\<And>x. yields err (mid x) (k x) post) \<Longrightarrow> yields err pre (go_on m k) post"
  unfolding yields_def go_on_def by (fastforce split: prod.splits result.splits)

lemma yields_give: "(\<And>s. pre s \<Longrightarrow> post x s) \<Longrightarrow> yields err pre (give x) post"
  by (simp add: yields_def give_def)

lemma yields_give_up: "(\<And>s. pre s \<Longrightarrow> err s) \<Longrightarrow> yields err pre (give_up e) post"
  by (simp add: yields_def give_up_def)

lemma yields_post: "yields err pre m post \<Longrightarrow> (\<And>x s. post x s \<Longrightarrow> post' x s) \<Longrightarrow> yields err pre m post'"
  unfolding yields_def by (fastforce split: prod.splits result.splits)

lemma yields_if: "(q \<Longrightarrow> yields err pre a post) \<Longrightarrow> (\<not> q \<Longrightarrow> yields err pre b post) \<Longrightarrow> yields err pre (if q then a else b) post"
  by simp

lemma yields_pre: "yields err pre m post \<Longrightarrow> (\<And>s. pre' s \<Longrightarrow> pre s) \<Longrightarrow> yields err pre' m post"
  by (auto simp: yields_def)

lemma yields_after: "yields err pre m post \<Longrightarrow> pre s \<Longrightarrow> m s = (r, s') \<Longrightarrow> case r of Ok x \<Rightarrow> post x s' | Err _ \<Rightarrow> err s'"
  by (auto simp: yields_def split: result.splits prod.splits)

lemma yields_always:
  assumes "always R m" "\<And>s s'. pre s \<Longrightarrow> R s s' \<Longrightarrow> pre s'" "\<And>s. pre s \<Longrightarrow> err s"
  shows "yields err pre m (\<lambda>_. pre)"
proof -
  have "pre s \<Longrightarrow> pre (snd (m s))" for s using assms(1,2) by (auto simp: always_def)
  then show ?thesis using assms(3) by (fastforce simp: yields_def split: prod.splits result.splits)
qed

text \<open>Operations that keep the window keep what is said of the window and of the cache that fades.\<close>

definition fading :: "'w key_view \<Rightarrow> ('w life \<Rightarrow> bool) \<Rightarrow> bool" where
  "fading kv p \<longleftrightarrow> (\<forall>s s'. p s \<longrightarrow> keeps kv s s' \<longrightarrow> p s')"

lemma yields_keeps: "always (keeps kv) m \<Longrightarrow> fading kv p \<Longrightarrow> (\<And>s. p s \<Longrightarrow> err s) \<Longrightarrow> yields err p m (\<lambda>_. p)"
  by (rule yields_always [where R = "keeps kv"]) (auto simp: fading_def)

definition window_of :: "'w life \<Rightarrow> window_state" where
  "window_of s = (case lf_text s Window_text of None \<Rightarrow> No_window
     | Some t \<Rightarrow> (case parse_window t of None \<Rightarrow> Unparseable | Some x \<Rightarrow> Parsed x))"

lemma yields_read_window: "(\<And>s. p s \<Longrightarrow> err s) \<Longrightarrow> yields err p (read_window env) (\<lambda>w s. p s \<and> w = window_of s)"
  by (auto simp: yields_def read_window_def read_file_def go_on_def give_def window_of_def split: option.splits)

lemma kept_window: "kept env kv s \<longleftrightarrow>
    (\<forall>f e data. window_of s = Parsed (One_password f e) \<and> cache_held kv (lf_world s) = Some data
      \<longrightarrow> (\<exists>p. parse_payload (le_json env) data = Some p \<and> pl_fetch_id p = f \<and> pl_hard_expiry p = e))"
  by (auto simp: kept_def window_of_def split: option.splits)

lemma fading_kept: "fading kv (kept env kv)"
  by (auto simp: fading_def intro: kept_keeps)

lemma kernel_of: "life_ok env kv \<Longrightarrow> kernel_ok (le_ops env) kv"
  by (simp add: life_ok_def)

text \<open>A window that is not of 1Password.\<close>

definition other_window :: "'w life \<Rightarrow> bool" where
  "other_window s \<longleftrightarrow> (\<forall>f e. window_of s \<noteq> Parsed (One_password f e))"

lemma other_kept: "other_window s \<Longrightarrow> kept env kv s"
  by (simp add: kept_window other_window_def)

lemma fading_other: "fading kv other_window"
  by (auto simp: fading_def keeps_def other_window_def window_of_def)

abbreviation upholds :: "'w life_env \<Rightarrow> 'w key_view \<Rightarrow> ('a, 'w) life_op \<Rightarrow> bool" where
  "upholds env kv m \<equiv> yields (kept env kv) (kept env kv) m (\<lambda>_. kept env kv)"

lemma upholds_keeps: "always (keeps kv) m \<Longrightarrow> upholds env kv m"
  by (rule yields_keeps) (auto intro: fading_kept)

lemma upholds_locked:
  assumes "life_ok env kv" "upholds env kv m" shows "upholds env kv (locked env m)"
  unfolding locked_def
  by (rule yields_go_on [OF upholds_keeps assms(2)]) (use assms(1) in \<open>simp add: keep_in_world life_ok_def\<close>)

lemma publish_same_window: "always (\<lambda>s s'. lf_text s' = lf_text s) (in_world as f)"
  by (auto simp: always_def in_world_def split: prod.splits result.splits)

lemma publish_upholds:
  assumes "life_ok env kv" shows "upholds env kv (publish_if_current env data g)"
proof -
  have fill: "yields (kept env kv) other_window (in_world Keyring_failed (key_publish (le_ops env) data n)) (\<lambda>_. other_window)" for n
    using publish_same_window by (rule yields_always) (auto simp: other_window_def window_of_def intro: other_kept)
  have plain: "yields (kept env kv) other_window
      (case parse_payload (le_json env) data of
         None \<Rightarrow> give_up (Keyring_failed (lit ''identity payload would not parse''))
       | Some p \<Rightarrow> go_on (asks (le_now env)) (\<lambda>now.
           go_on (in_world Keyring_failed (key_publish (le_ops env) data (pl_period_ends p - now))) (\<lambda>_. give Published))) (\<lambda>_. kept env kv)"
    by (auto split: option.splits intro!: yields_give_up other_kept yields_go_on [OF yields_keeps [OF keep_simple(1) fading_other]]
        yields_go_on [OF fill] yields_give)
  show ?thesis unfolding publish_if_current_def
  proof (intro upholds_locked assms yields_go_on [OF upholds_keeps [OF keep_reads(2)]] yields_if yields_go_on [OF yields_read_window])
    fix w
    show "yields (kept env kv) (\<lambda>s. kept env kv s \<and> w = window_of s)
        (case w of Parsed (One_password _ _) \<Rightarrow> give Window_is_open
         | _ \<Rightarrow> (case parse_payload (le_json env) data of
                   None \<Rightarrow> give_up (Keyring_failed (lit ''identity payload would not parse''))
                 | Some p \<Rightarrow> go_on (asks (le_now env)) (\<lambda>now.
                     go_on (in_world Keyring_failed (key_publish (le_ops env) data (pl_period_ends p - now))) (\<lambda>_. give Published)))) (\<lambda>_. kept env kv)"
    proof (cases "\<exists>f e. w = Parsed (One_password f e)")
      case True
      then show ?thesis by (auto intro: yields_give)
    next
      case False
      then have "yields (kept env kv) (\<lambda>s. kept env kv s \<and> w = window_of s)
        (case parse_payload (le_json env) data of
                   None \<Rightarrow> give_up (Keyring_failed (lit ''identity payload would not parse''))
                 | Some p \<Rightarrow> go_on (asks (le_now env)) (\<lambda>now.
                     go_on (in_world Keyring_failed (key_publish (le_ops env) data (pl_period_ends p - now))) (\<lambda>_. give Published))) (\<lambda>_. kept env kv)"
        by (intro yields_pre [OF plain]) (auto simp: other_window_def)
      with False show ?thesis by (auto split: window_state.splits id_window.splits)
    qed
  qed (auto intro: yields_give)
qed

lemma stop_end_upholds:
  assumes "life_ok env kv" shows "upholds env kv (cmd_stop_end env)"
proof -
  have "yields (kept env kv) (kept env kv) (remove_window env) (\<lambda>_. kept env kv)"
    unfolding yields_def
  proof (intro allI impI)
    fix s
    assume k: "kept env kv s"
    have "fades kv (lf_world s) (snd (le_remove_window env (lf_world s)))" using assms by (simp add: life_ok_def)
    then show "case remove_window env s of (Ok _, s') \<Rightarrow> kept env kv s' | (Err _, s') \<Rightarrow> kept env kv s'"
      using kept_keeps [OF k] by (auto simp: remove_window_def keeps_def intro: kept_without split: prod.splits result.splits)
  qed
  then show ?thesis unfolding cmd_stop_end_def
    by (rule yields_go_on, intro upholds_keeps keep_rules keep_ring assms)
qed

lemma payload_fields:
  assumes "parse_payload json data = Some p"
  shows "is_fetch_id (pl_fetch_id p) \<and> 0 \<le> pl_hard_expiry p \<and> pl_hard_expiry p < 2 ^ 63"
proof -
  have n: "0 \<le> i \<and> i < 2 ^ 63" if "nonneg_int v = Some i" for v i
    using that by (auto simp: nonneg_int_def split: json_value.splits if_splits)
  from assms obtain members body where "payload_of members body = Some p"
    by (auto simp: parse_payload_def bind_eq_Some_conv split: if_splits)
  then obtain f t0 t1 t2 where "header_fetch_id (map_of members) = Some f" "header_times (map_of members) = Some (t0, t1, t2)"
    "pl_fetch_id p = f" "pl_hard_expiry p = t2"
    by (auto simp: payload_of_def bind_eq_Some_conv split: if_splits)
  then show ?thesis
    by (auto simp: header_fetch_id_def header_times_def bind_eq_Some_conv dest: n split: option.splits json_value.splits if_splits)
qed

lemma join_written: "ls \<noteq> [] \<Longrightarrow> join [0x0a] ls @ [0x0a] = written_lines ls"
  by (induction "[0x0a :: uchar]" ls rule: join.induct) (simp_all add: written_lines_def)

lemma serial_unbroken: "unbroken (int_text n)" "unbroken (lit ''None'')"
  using dec_line [of "nat n"] dec_line [of "nat (- n)"] by (auto simp: int_text_def unbroken_def line_boundary_def lit_def)

lemma apple_window_read:
  assumes "is_fetch_id f" "0 \<le> e" "e < 2 ^ 63" "unbroken serial"
  shows "parse_window (join [0x0a] [lit ''source=1password'', lit ''fetch_id='' @ f, lit ''hard_expiry='' @ int_text e, lit ''cache_serial='' @ serial]
    @ [0x0a]) = Some (One_password f e)"
proof -
  have "[lit ''source=1password'', lit ''fetch_id='' @ f, lit ''hard_expiry='' @ int_text e, lit ''cache_serial='' @ serial]
    = map entry (apple_lines f e serial)" by (simp add: apple_lines_def entry_def lit_def)
  moreover have "map entry (apple_lines f e serial) \<noteq> []" by (simp add: apple_lines_def)
  then have "join [0x0a] (map entry (apple_lines f e serial)) @ [0x0a] = written_lines (map entry (apple_lines f e serial))" by (rule join_written)
  ultimately show ?thesis using parse_window_apple [OF assms] by simp
qed

lemma source_line_read:
  assumes "v = lit ''disk'' \<or> v = lit ''self-signed''"
  shows "parse_window (join [0x0a] [lit ''source='' @ v] @ [0x0a]) = Some (if v = lit ''disk'' then On_disk else Self_made)"
proof -
  have "\<forall>kv \<in> set [(lit ''source'', v)]. entry_ok kv" using assms by (auto simp: entry_ok_def unbroken_def line_boundary_def lit_def)
  from parse_settings_written [OF this] have "parse_settings (written_lines [lit ''source='' @ v]) = [lit ''source'' \<mapsto> v]"
    by (simp add: entry_def lit_def)
  moreover have "lit ''self-signed'' \<noteq> lit ''disk''" by (simp add: lit_def)
  ultimately show ?thesis using assms unfolding join_written [of "[_]", simplified] parse_window_def by auto
qed

section \<open>Opening a window\<close>

text \<open>The cache a window is about to be opened with, and the lines of a window that fit the cache.\<close>

definition cached :: "'w life_env \<Rightarrow> 'w key_view \<Rightarrow> payload option \<Rightarrow> 'w life \<Rightarrow> bool" where
  "cached env kv p s \<longleftrightarrow> (\<forall>x. p = Some x \<longrightarrow> (\<exists>data. parse_payload (le_json env) data = Some x \<and> cache_held kv (lf_world s) \<in> {Some data, None}))"

definition fits :: "'w life_env \<Rightarrow> 'w key_view \<Rightarrow> ustr list \<Rightarrow> 'w life \<Rightarrow> bool" where
  "fits env kv ls s \<longleftrightarrow>
     (\<forall>f e data. ls \<noteq> [] \<and> parse_window (join [0x0a] ls @ [0x0a]) = Some (One_password f e) \<and> cache_held kv (lf_world s) = Some data
        \<longrightarrow> (\<exists>p. parse_payload (le_json env) data = Some p \<and> pl_fetch_id p = f \<and> pl_hard_expiry p = e))"

lemma fading_and: "fading kv p \<Longrightarrow> fading kv q \<Longrightarrow> fading kv (\<lambda>s. p s \<and> q s)"
  by (auto simp: fading_def)

lemma fading_cached: "fading kv (cached env kv p)"
  unfolding fading_def
proof (intro allI impI)
  fix s s'
  assume "cached env kv p s" "keeps kv s s'"
  then show "cached env kv p s'" unfolding cached_def keeps_def fades_def by (elim conjE disjE) auto
qed

lemma fading_fits: "fading kv (fits env kv ls)"
  unfolding fading_def
proof (intro allI impI)
  fix s s'
  assume "fits env kv ls s" "keeps kv s s'"
  then show "fits env kv ls s'" unfolding fits_def keeps_def fades_def by (elim conjE disjE) simp_all
qed

lemma fading_const: "fading kv (\<lambda>_. c)"
  by (simp add: fading_def)

lemmas fading_rules = fading_and fading_kept fading_cached fading_fits fading_const

lemma current_cache_read:
  assumes "life_ok env kv"
  shows "yields (kept env kv) (kept env kv) (current_cache env) (\<lambda>p s. kept env kv s \<and> cached env kv p s)"
  unfolding yields_def
proof (intro allI impI)
  fix s
  assume k: "kept env kv s"
  note kernel = kernel_of [OF assms]
  obtain r w where r: "key_read (le_ops env) None (lf_world s) = (r, w)" by fastforce
  have "fades kv (lf_world s) w" using quiet_fades [OF key_read_quiet [OF kernel, of "lf_world s" None]] r by simp
  moreover from this have "kept env kv (s\<lparr>lf_world := w\<rparr>)" by (intro kept_keeps [OF k]) (simp add: keeps_def)
  moreover have "cache_held kv (lf_world s) = Some raw" if "r = Ok (Some raw)" for raw
    using key_read_held [OF kernel, of "lf_world s" raw] r that by simp
  ultimately show "case current_cache env s of (Ok p, s') \<Rightarrow> kept env kv s' \<and> cached env kv p s' | (Err _, s') \<Rightarrow> kept env kv s'"
    using r by (auto simp: current_cache_def cached_def fades_def split: result.splits option.splits)
qed

lemma serial_read:
  assumes "life_ok env kv" "fading kv p" "\<And>s. p s \<Longrightarrow> err s"
  shows "yields err p (cache_serial env) (\<lambda>serial s. p s \<and> unbroken serial)"
  unfolding yields_def
proof (intro allI impI)
  fix s
  assume k: "p s"
  obtain r w where r: "key_find (le_ops env) (lf_world s) = (r, w)" by fastforce
  have "fades kv (lf_world s) w" using quiet_fades [OF key_find_quiet [OF kernel_of [OF assms(1)], of "lf_world s"]] r by simp
  then have "p (s\<lparr>lf_world := w\<rparr>)" using assms(2) k unfolding fading_def by (elim allE impE) (simp_all add: keeps_def)
  then show "case cache_serial env s of (Ok serial, s') \<Rightarrow> p s' \<and> unbroken serial | (Err _, s') \<Rightarrow> err s'"
    using r serial_unbroken by (auto simp: cache_serial_def split: result.splits option.splits)
qed

lemma fits_Nil: "fits env kv [] s"
  by (simp add: fits_def)

lemma window_of_cache_fits:
  assumes "life_ok env kv"
  shows "yields (kept env kv) (kept env kv) (window_of_cache env) (\<lambda>ls s. kept env kv s \<and> fits env kv ls s)"
proof -
  define lines :: "payload \<Rightarrow> ustr \<Rightarrow> ustr list" where "lines x serial = [lit ''source=1password'', lit ''fetch_id='' @ pl_fetch_id x,
    lit ''hard_expiry='' @ int_text (pl_hard_expiry x), lit ''cache_serial='' @ serial]" for x serial
  have fit: "fits env kv (lines x serial) s" if "cached env kv (Some x) s" "unbroken serial" for x s serial
  proof -
    from that(1) obtain data where d: "parse_payload (le_json env) data = Some x" "cache_held kv (lf_world s) \<in> {Some data, None}"
      by (auto simp: cached_def)
    with payload_fields [OF d(1)] apple_window_read [of "pl_fetch_id x" "pl_hard_expiry x" serial] that(2)
    show ?thesis by (auto simp: fits_def lines_def)
  qed
  have rest: "yields (kept env kv) q
      (go_on (asks (le_now env)) (\<lambda>t.
       go_on (in_world Keyring_failed (key_set_timeout (le_ops env) (pl_hard_expiry x - t))) (\<lambda>_.
       go_on (say (lit ''source'') (lit ''1password'')) (\<lambda>_.
       go_on (asks (le_now env)) (\<lambda>later.
       go_on (say (lit ''expiry_in'') (int_text (pl_hard_expiry x - later))) (\<lambda>_. give (lines x serial))))))) (\<lambda>ls s. q s \<and> ls = lines x serial)"
    if "fading kv q" "\<And>s. q s \<Longrightarrow> kept env kv s" for q x serial
    by (intro yields_go_on [OF yields_keeps [OF keep_simple(1) that]] yields_go_on [OF yields_keeps [OF keep_ring(2) [OF assms] that]]
        yields_go_on [OF yields_keeps [OF keep_simple(2) that]] yields_give) simp_all
  have both: "fading kv (\<lambda>s. (kept env kv s \<and> cached env kv (Some x) s) \<and> unbroken serial)" for x serial
    by (intro fading_rules)
  have some: "yields (kept env kv) (\<lambda>s. kept env kv s \<and> cached env kv (Some x) s)
      (go_on (cache_serial env) (\<lambda>serial.
       go_on (asks (le_now env)) (\<lambda>t.
       go_on (in_world Keyring_failed (key_set_timeout (le_ops env) (pl_hard_expiry x - t))) (\<lambda>_.
       go_on (say (lit ''source'') (lit ''1password'')) (\<lambda>_.
       go_on (asks (le_now env)) (\<lambda>later.
       go_on (say (lit ''expiry_in'') (int_text (pl_hard_expiry x - later))) (\<lambda>_. give (lines x serial)))))))) (\<lambda>ls s. kept env kv s \<and> fits env kv ls s)" for x
    by (rule yields_go_on [OF serial_read [OF assms]], intro fading_rules, simp,
        rule yields_post [OF rest [OF both]]) (auto intro: fit)
  show ?thesis unfolding window_of_cache_def lines_def [symmetric]
  proof (intro yields_go_on [OF current_cache_read [OF assms]])
    fix p
    have f: "fading kv (\<lambda>s. kept env kv s \<and> cached env kv p s)" by (intro fading_rules)
    show "yields (kept env kv) (\<lambda>s. kept env kv s \<and> cached env kv p s)
      (go_on (asks (le_now env)) (\<lambda>now. case p of
         None \<Rightarrow> give []
       | Some x \<Rightarrow>
           if \<not> usable_for_new_window p now then give []
           else go_on (cache_serial env) (\<lambda>serial.
                go_on (asks (le_now env)) (\<lambda>t.
                go_on (in_world Keyring_failed (key_set_timeout (le_ops env) (pl_hard_expiry x - t))) (\<lambda>_.
                go_on (say (lit ''source'') (lit ''1password'')) (\<lambda>_.
                go_on (asks (le_now env)) (\<lambda>later.
                go_on (say (lit ''expiry_in'') (int_text (pl_hard_expiry x - later))) (\<lambda>_. give (lines x serial))))))))) (\<lambda>ls s. kept env kv s \<and> fits env kv ls s)"
      by (rule yields_go_on [OF yields_keeps [OF keep_simple(1) f]]) (auto split: option.splits intro!: yields_give some simp: fits_Nil)
  qed
qed

lemma window_of_disk_fits:
  "yields (kept env kv) (kept env kv) (window_of_disk env) (\<lambda>ls s. kept env kv s \<and> fits env kv ls s)"
proof -
  have "lit ''source=disk'' = lit ''source='' @ lit ''disk''" by (simp add: lit_def)
  then have fit: "fits env kv [lit ''source=disk''] s" for s using source_line_read [of "lit ''disk''"] by (simp add: fits_def)
  have disk: "yields (kept env kv) (kept env kv)
      (case problem of
         Some _ \<Rightarrow> go_on (say (lit ''notice'') (lit ''Apple identity unusable'' @ NOTICE_TAIL)) (\<lambda>_. give [])
       | None \<Rightarrow> go_on (say (lit ''source'') (lit ''disk'')) (\<lambda>_. give [lit ''source=disk'']))
      (\<lambda>ls s. kept env kv s \<and> fits env kv ls s)" for problem :: "ustr option"
    by (auto split: option.splits intro!: yields_go_on [OF upholds_keeps [OF keep_simple(2)]] yields_give simp: fit fits_Nil)
  have checked: "always (keeps kv) (if there then go_on (asks (le_file env Record_file)) (\<lambda>r. case r of
        Err e \<Rightarrow> give_up (Io_failed e) | Ok rec \<Rightarrow> give (check rec)) else give None)" for there and check :: "bytes option \<Rightarrow> ustr option"
    by (intro keep_rules)
  show ?thesis unfolding window_of_disk_def
    by (intro yields_go_on [OF upholds_keeps [OF keep_simple(1)]])
      (auto split: prod.splits intro!: yields_go_on [OF upholds_keeps [OF keep_simple(1)]] yields_go_on [OF upholds_keeps [OF checked]]
        yields_give disk simp: fits_Nil)
qed

lemma write_window_upholds:
  assumes "life_ok env kv" "ls \<noteq> []"
  shows "yields (kept env kv) (\<lambda>s. kept env kv s \<and> fits env kv ls s) (write_file env Window_text (join [0x0a] ls @ [0x0a])) (\<lambda>_. kept env kv)"
  unfolding yields_def
proof (intro allI impI, elim conjE)
  fix s
  assume k: "kept env kv s" and f: "fits env kv ls s"
  let ?t = "join [0x0a] ls @ [0x0a]"
  obtain r w where r: "le_write env Window_text ?t (lf_world s) = (r, w)" by fastforce
  have "fades kv (lf_world s) (snd (le_write env Window_text ?t (lf_world s)))" using assms(1) by (simp add: life_ok_def)
  then have w: "fades kv (lf_world s) w" using r by simp
  have "kept env kv (s\<lparr>lf_world := w\<rparr>)" by (rule kept_keeps [OF k]) (simp add: keeps_def w)
  moreover have "kept env kv (s\<lparr>lf_text := (lf_text s)(Window_text \<mapsto> ?t), lf_world := w\<rparr>)"
    using f w assms(2) by (auto simp: kept_def fits_def fades_def)
  ultimately show "case write_file env Window_text ?t s of (Ok _, s') \<Rightarrow> kept env kv s' | (Err _, s') \<Rightarrow> kept env kv s'"
    using r by (auto simp: write_file_def split: result.splits)
qed

lemma window_upholds:
  assumes "life_ok env kv" shows "upholds env kv (cmd_window env seq)"
proof -
  have "lit ''source=self-signed'' = lit ''source='' @ lit ''self-signed''" "lit ''self-signed'' \<noteq> lit ''disk''" by (simp_all add: lit_def)
  then have self: "fits env kv [lit ''source=self-signed''] s" for s using source_line_read [of "lit ''self-signed''"] by (simp add: fits_def)
  have known: "upholds env kv
      (go_on (say (lit ''source'') (window_source existing)) (\<lambda>_.
       go_on (asks (le_now env)) (\<lambda>now. case existing of
           One_password _ expiry \<Rightarrow> go_on (say (lit ''expiry_in'') (int_text (max (expiry - now) 0))) (\<lambda>_. give 0)
         | _ \<Rightarrow> give 0)))" for existing
    by (intro upholds_keeps keep_rules) (auto split: id_window.splits intro!: keep_rules)
  have fresh: "upholds env kv
      (go_on (id_mode env) (\<lambda>m.
       go_on (if m = lit ''1password'' then window_of_cache env else if m = lit ''disk'' then window_of_disk env else give []) (\<lambda>lines.
       go_on (if lines = [] then go_on (say (lit ''source'') (lit ''self-signed'')) (\<lambda>_. give [lit ''source=self-signed'']) else give lines) (\<lambda>ls.
       go_on (write_file env Window_text (join [0x0a] ls @ [0x0a])) (\<lambda>_. give 0)))))"
  proof (rule yields_go_on [OF upholds_keeps [OF keep_reads(3)]], rule yields_go_on)
    fix m
    show "yields (kept env kv) (kept env kv)
        (if m = lit ''1password'' then window_of_cache env else if m = lit ''disk'' then window_of_disk env else give [])
        (\<lambda>ls s. kept env kv s \<and> fits env kv ls s)"
      using window_of_cache_fits [OF assms] window_of_disk_fits [of env kv] by (auto intro: yields_give simp: fits_Nil)
  next
    fix m lines
    have "yields (kept env kv) (\<lambda>s. kept env kv s \<and> fits env kv lines s)
        (if lines = [] then go_on (say (lit ''source'') (lit ''self-signed'')) (\<lambda>_. give [lit ''source=self-signed'']) else give lines)
        (\<lambda>ls s. kept env kv s \<and> fits env kv ls s \<and> ls \<noteq> [])"
      by (auto intro!: yields_go_on [OF upholds_keeps [OF keep_simple(2)]] yields_give simp: self fits_Nil)
    moreover have "yields (kept env kv) (\<lambda>s. kept env kv s \<and> fits env kv ls s \<and> ls \<noteq> [])
        (go_on (write_file env Window_text (join [0x0a] ls @ [0x0a])) (\<lambda>_. give 0)) (\<lambda>_. kept env kv)" for ls
    proof (cases "ls = []")
      case False
      show ?thesis by (rule yields_pre [OF yields_go_on [OF write_window_upholds [OF assms False]]]) (auto intro: yields_give)
    qed (simp add: yields_def)
    ultimately show "yields (kept env kv) (\<lambda>s. kept env kv s \<and> fits env kv lines s)
        (go_on (if lines = [] then go_on (say (lit ''source'') (lit ''self-signed'')) (\<lambda>_. give [lit ''source=self-signed'']) else give lines) (\<lambda>ls.
         go_on (write_file env Window_text (join [0x0a] ls @ [0x0a])) (\<lambda>_. give 0))) (\<lambda>_. kept env kv)"
      by (rule yields_go_on)
  qed
  show ?thesis unfolding cmd_window_def
  proof (intro yields_go_on [OF upholds_keeps [OF keep_reads(2)]] yields_if yields_go_on [OF yields_read_window])
    fix w
    show "yields (kept env kv) (\<lambda>s. kept env kv s \<and> w = window_of s)
       (case w of
         Parsed existing \<Rightarrow>
           go_on (say (lit ''source'') (window_source existing)) (\<lambda>_.
           go_on (asks (le_now env)) (\<lambda>now. case existing of
               One_password _ expiry \<Rightarrow> go_on (say (lit ''expiry_in'') (int_text (max (expiry - now) 0))) (\<lambda>_. give 0)
             | _ \<Rightarrow> give 0))
       | _ \<Rightarrow>
           go_on (id_mode env) (\<lambda>m.
           go_on (if m = lit ''1password'' then window_of_cache env else if m = lit ''disk'' then window_of_disk env else give []) (\<lambda>lines.
           go_on (if lines = [] then go_on (say (lit ''source'') (lit ''self-signed'')) (\<lambda>_. give [lit ''source=self-signed'']) else give lines) (\<lambda>ls.
           go_on (write_file env Window_text (join [0x0a] ls @ [0x0a])) (\<lambda>_. give 0))))) (\<lambda>_. kept env kv)"
      by (rule yields_pre [where pre = "kept env kv"]) (cases w, simp_all only: window_state.case known fresh)
  qed (auto intro: yields_give)
qed

text \<open>Every step keeps a window's cache.\<close>

lemma upholds_after:
  assumes "upholds env kv m" "m s = (r, s')" "kept env kv s" shows "kept env kv s'"
  using yields_after [OF assms(1,3,2)] by (simp split: result.splits)

lemma step_kept:
  assumes "life_step env kv s s'" "life_ok env kv" "kept env kv s"
  shows "kept env kv s'"
  using assms(1)
proof cases
  case (step_window seq r)
  then show ?thesis using window_upholds [OF assms(2)] assms(3) by (blast intro: upholds_after)
next
  case (step_stop_end r)
  then show ?thesis using stop_end_upholds [OF assms(2)] assms(3) by (blast intro: upholds_after)
next
  case (step_publish data g q)
  then show ?thesis using publish_upholds [OF assms(2)] assms(3) by (blast intro: upholds_after)
next
  case (step_outside w out)
  then show ?thesis by (intro kept_keeps [OF assms(3)]) (simp add: keeps_def)
next
  case (step_settings t)
  then show ?thesis by (intro kept_keeps [OF assms(3)]) (simp add: keeps_def fades_refl)
next
  case (step_stop_begin r)
  then show ?thesis by (rule upholds_after [OF upholds_keeps [OF keep_sections(1) [OF assms(2)]] _ assms(3)])
next
  case (step_lock r)
  then show ?thesis by (rule upholds_after [OF upholds_keeps [OF keep_sections(2) [OF assms(2)]] _ assms(3)])
next
  case (step_use n)
  then show ?thesis by (rule upholds_after [OF upholds_keeps [OF keep_sections(3) [OF assms(2)]] _ assms(3)])
next
  case (step_adopt account vault item g u)
  then show ?thesis by (rule upholds_after [OF upholds_keeps [OF keep_sections(4) [OF assms(2)]] _ assms(3)])
next
  case (step_save account vault item g u)
  then show ?thesis by (rule upholds_after [OF upholds_keeps [OF keep_sections(5) [OF assms(2)]] _ assms(3)])
next
  case (step_off r)
  then show ?thesis by (rule upholds_after [OF upholds_keeps [OF keep_sections(6) [OF assms(2)]] _ assms(3)])
qed

text \<open>
  C39. Whatever the identity commands do in whatever order, with fetches that end late and other programs in between: while
  a window of a 1Password identity is open, the cache is the very one the window was opened with, or is gone. It is never replaced,
  so a program that finds a cache presents it until one of the two has expired, and never sees one of another fetch.
\<close>

theorem window_keeps_its_cache:
  assumes "life_ok env kv" "lf_text s Window_text = None" "(life_step env kv)\<^sup>*\<^sup>* s t"
    and "lf_text t Window_text = Some text" "parse_window text = Some (One_password f e)" "cache_held kv (lf_world t) = Some data"
  shows "\<exists>p. parse_payload (le_json env) data = Some p \<and> pl_fetch_id p = f \<and> pl_hard_expiry p = e
    \<and> (\<forall>settings disk pair root now.
         select_identity settings (Parsed (One_password f e)) (Cached (pl_fetch_id p) (pl_hard_expiry p)) disk pair root now =
           (if e \<le> now then Err (lit ''window-expired'')
            else Ok \<lparr>co_identity = From_cache, co_record = True, co_create = False, co_warnings = []\<rparr>))"
proof -
  have "kept env kv t" using assms(3)
    by (induction rule: rtranclp_induct) (auto intro: kept_without [OF assms(2)] step_kept [OF _ assms(1)])
  with assms(4-6) obtain p where "parse_payload (le_json env) data = Some p" "pl_fetch_id p = f" "pl_hard_expiry p = e"
    unfolding kept_def by blast
  then show ?thesis by (intro exI [of _ p]) (simp add: select_identity_def)
qed

section \<open>Counters\<close>

definition counts :: "ustr \<Rightarrow> 'w life \<Rightarrow> nat" where
  "counts name s = count_in (parse_settings (text_or_empty (lf_text s State_text))) name"

lemma parse_settings_pairs: "parse_settings t = map_of (rev (List.map_filter (split_once (lit ''='')) (splitlines t)))"
proof -
  have "fold (\<lambda>line m. case split_once (lit ''='') line of Some (k, v) \<Rightarrow> m(k \<mapsto> v) | None \<Rightarrow> m) ls m
      = m ++ map_of (rev (List.map_filter (split_once (lit ''='')) ls))" for ls m
    by (induction ls arbitrary: m) (auto simp: List.map_filter_simps map_add_def fun_eq_iff map_of_append split: option.splits prod.splits)
  then show ?thesis by (simp add: parse_settings_def)
qed

lemma splitlines_unbroken: "l \<in> set (splitlines t) \<Longrightarrow> unbroken l"
proof (induction t rule: splitlines.induct)
  case (1 t)
  have tw: "unbroken (takeWhile (\<lambda>c. \<not> line_boundary c) t)" by (auto simp: unbroken_def dest: set_takeWhileD)
  show ?case
  proof (cases "dropWhile (\<lambda>c. \<not> line_boundary c) t")
    case Nil
    then have "unbroken t" by (auto simp: unbroken_def dropWhile_eq_Nil_conv)
    moreover have "splitlines t = (if t = [] then [] else [t])" by (subst splitlines.simps, subst Nil) simp
    ultimately show ?thesis using 1(2) by (simp split: if_splits)
  next
    case (Cons c rest)
    with 1(2) tw 1(1) [OF Cons] show ?thesis by (subst (asm) splitlines.simps) auto
  qed
qed

lemma split_once_key:
  assumes "split_once [c] s = Some (k, v)" shows "c \<notin> set k"
proof
  assume "c \<in> set k"
  from assms obtain i where i: "find (\<lambda>i. starts_with (drop i s) [c]) [0..<length s] = Some i" "k = take i s"
    by (auto simp: split_once_def)
  with \<open>c \<in> set k\<close> obtain j where j: "j < i" "j < length s" "s ! j = c" by (auto simp: in_set_conv_nth)
  then have "starts_with (drop j s) [c]" by (auto simp: starts_with_iff Cons_nth_drop_Suc [symmetric])
  with i j show False by (auto simp: find_Some_iff)
qed

lemma parsed_entry: "(k, v) \<in> set (List.map_filter (split_once (lit ''='')) (splitlines t)) \<Longrightarrow> entry_ok (k, v)"
proof -
  assume "(k, v) \<in> set (List.map_filter (split_once (lit ''='')) (splitlines t))"
  then obtain l where l: "l \<in> set (splitlines t)" "split_once (lit ''='') l = Some (k, v)" by (auto simp: List.map_filter_def)
  then have "unbroken l" by (simp add: splitlines_unbroken)
  moreover have "l = k @ lit ''='' @ v" "0x3d \<notin> set k" using split_once_Some [OF l(2)] split_once_key [of "0x3d" l k v] l(2) by (simp_all add: lit_def)
  ultimately show ?thesis by (auto simp: entry_ok_def unbroken_def)
qed

lemma state_lines_read:
  assumes "set keys = dom m" "\<And>k v. m k = Some v \<Longrightarrow> entry_ok (k, v)"
  shows "parse_settings (state_lines m keys) = m"
proof -
  let ?ks = "sort (remdups keys)"
  let ?kvs = "map (\<lambda>k. (k, text_or_empty (m k))) ?ks"
  have "state_lines m keys = written_lines (map entry ?kvs)"
    by (simp add: state_lines_def written_lines_def entry_def comp_def)
  moreover have "\<forall>kv \<in> set ?kvs. entry_ok kv" using assms by (fastforce simp: text_or_empty_def dom_def)
  ultimately have "parse_settings (state_lines m keys) = map_of (rev ?kvs)" by (simp only: parse_settings_written)
  also have "rev ?kvs = map (\<lambda>k. (k, text_or_empty (m k))) (rev ?ks)" by (simp add: rev_map)
  also have "map_of (map (\<lambda>k. (k, text_or_empty (m k))) (rev ?ks)) = m"
    using assms(1) by (auto simp: map_of_map_restrict restrict_map_def fun_eq_iff text_or_empty_def dom_def split: option.splits)
  finally show ?thesis .
qed

lemma name_chars: "entry_ok (lit ''gen'', dec n)" "entry_ok (lit ''seq'', dec n)"
  using dec_line [of n] by (auto simp: entry_ok_def unbroken_def line_boundary_def lit_def)

lemma counts_small: "count_in m name < 2 ^ 64"
  by (auto simp: count_in_def parse_u64_def from_str_radix_def parse_digits_def Let_def u64_max_def split: option.splits list.splits if_splits)

lemma keys_of_pairs: "keys_of t = map fst (List.map_filter (split_once (lit ''='')) (splitlines t))"
proof -
  have "List.map_filter (\<lambda>l. map_option fst (f l)) ls = map fst (List.map_filter f ls)" for f :: "ustr \<Rightarrow> (ustr \<times> ustr) option" and ls
    by (induction ls) (auto simp: List.map_filter_simps split: option.splits)
  then show ?thesis by (simp add: keys_of_def)
qed

lemma count_dec: "n < 2 ^ 64 \<Longrightarrow> count_in (m(name \<mapsto> dec n)) name = n"
  using dec_digits [of n] dec_not_Nil [of n] parse_u64_dec [of n] by (auto simp: count_in_def list_all_iff u64_max_def)

text \<open>What a bump does: one counter goes up by one, the others stay; or there is an error, and none has moved.\<close>

lemma bump_counts:
  assumes "bump env name s = (r, s')" "name = lit ''gen'' \<or> name = lit ''seq''"
  shows "case r of Ok v \<Rightarrow> v = (counts name s + 1) mod 2 ^ 64 \<and> (\<forall>other. counts other s' = (if other = name then v else counts other s))
    | Err _ \<Rightarrow> \<forall>other. counts other s' = counts other s"
proof -
  let ?t = "text_or_empty (lf_text s State_text)"
  let ?v = "(counts name s + 1) mod 2 ^ 64"
  let ?m = "(parse_settings ?t)(name \<mapsto> dec ?v)"
  have "parse_settings (state_lines ?m (name # keys_of ?t)) = ?m"
  proof (rule state_lines_read)
    show "set (name # keys_of ?t) = dom ?m"
      by (simp add: parse_settings_pairs keys_of_pairs dom_map_of_conv_image_fst)
    show "entry_ok (k, v)" if "?m k = Some v" for k v
      using that assms(2) name_chars [of ?v] parsed_entry [of k v ?t]
      by (auto simp: parse_settings_pairs split: if_splits dest: map_of_SomeD)
  qed
  moreover have "?v < 2 ^ 64" by simp
  ultimately have read: "count_in (parse_settings (state_lines ?m (name # keys_of ?t))) other = (if other = name then ?v else counts other s)" for other
    using count_dec [of ?v] by (auto simp: count_in_def counts_def)
  obtain r1 w1 where w1: "counter env name s = (r1, w1)" by fastforce
  have c: "w1 = s \<and> (\<forall>n. r1 = Ok n \<longrightarrow> n = counts name s)" using w1
    by (auto simp: counter_def read_kv_def read_file_def go_on_def give_def counts_def text_or_empty_def split: option.splits)
  obtain r2 w2 where w2: "read_file env State_text s = (r2, w2)" by fastforce
  have d: "w2 = s \<and> (\<forall>x. r2 = Ok x \<longrightarrow> x = lf_text s State_text)" using w2 by (auto simp: read_file_def split: option.splits)
  let ?x = "state_lines ?m (name # keys_of ?t)"
  obtain q s2 where q: "write_file env State_text ?x s = (q, s2)" by fastforce
  have e: "case q of Ok _ \<Rightarrow> lf_text s2 State_text = Some ?x | Err _ \<Rightarrow> lf_text s2 State_text = lf_text s State_text"
    using q by (auto simp: write_file_def split: prod.splits result.splits)
  have "(\<exists>f. r = Err f \<and> s' = s) \<or> (\<exists>f. q = Err f \<and> r = Err f \<and> s' = s2) \<or> (\<exists>u. q = Ok u) \<and> r = Ok ?v \<and> s' = s2"
    using assms(1) w1 w2 c d q by (auto simp: bump_def go_on_def give_def Let_def split: result.splits)
  then show ?thesis using e read by (auto simp: counts_def text_or_empty_def split: result.splits)
qed

text \<open>Operations that leave the counters alone.\<close>

definition still :: "'w life \<Rightarrow> 'w life \<Rightarrow> bool" where
  "still s s' \<longleftrightarrow> lf_text s' State_text = lf_text s State_text"

interpretation stays: steady still
  by unfold_locales (auto simp: still_def)

lemma still_simple:
  "always still (asks f)" "always still (say k v)" "always still (read_file env file)" "always still (in_world as g)"
  "file \<noteq> State_text \<Longrightarrow> always still (write_file env file t)" "always still (current_cache env)" "always still (cache_serial env)"
  "always still (remove_window env)"
  by (auto simp: always_def still_def asks_def say_def read_file_def in_world_def write_file_def current_cache_def cache_serial_def
      remove_window_def split: option.splits prod.splits result.splits)

lemmas still_rules = stays.go_on stays.give stays.whatever stays.guard stays.choice_of stays.either still_simple

lemma still_reads: "always still (read_kv env file)" "always still (counter env name)" "always still (id_mode env)" "always still (read_window env)"
    "always still (setting_set env changes)" "always still (kill_fetch env)" "always still (clear_cache env)"
  unfolding read_kv_def counter_def id_mode_def read_window_def setting_set_def Let_def kill_fetch_def clear_cache_def
  by (intro still_rules; simp)+

lemma still_locked: "always still m \<Longrightarrow> always still (locked env m)"
  unfolding locked_def by (intro still_rules)

lemma still_sections:
  "always still (cmd_window env seq)" "always still (cmd_stop_end env)" "always still (publish_if_current env data g)"
  "always still (save_item_ids env account vault item g)" "always still (check_current env g)"
proof -
  show c: "always still (check_current env g)" unfolding check_current_def by (intro still_rules still_reads)
  show "always still (save_item_ids env account vault item g)"
    unfolding save_item_ids_def by (intro still_locked still_rules still_reads c)
  show "always still (cmd_stop_end env)" unfolding cmd_stop_end_def by (intro still_rules)
  show "always still (publish_if_current env data g)" unfolding publish_if_current_def
    by (intro still_locked still_rules still_reads) (auto split: window_state.splits id_window.splits intro!: still_rules)
  have d: "always still (window_of_disk env)" unfolding window_of_disk_def
    by (intro still_rules) (auto split: prod.splits intro!: still_rules)
  have e: "always still (window_of_cache env)" unfolding window_of_cache_def by (intro still_rules)
  show "always still (cmd_window env seq)" unfolding cmd_window_def
    by (intro still_rules still_reads) (auto split: window_state.splits id_window.splits intro!: still_rules still_reads d e)
qed

text \<open>A section moves each counter by one at most.\<close>

definition moved :: "ustr \<Rightarrow> nat \<Rightarrow> 'w life \<Rightarrow> bool" where
  "moved name c s \<longleftrightarrow> counts name s = c \<or> counts name s = (c + 1) mod 2 ^ 64"

lemma still_counts: "still s s' \<Longrightarrow> counts name s' = counts name s"
  by (simp add: still_def counts_def)

lemma tick_before: "always still m \<Longrightarrow> yields (moved name c) (\<lambda>s. counts name s = c) m (\<lambda>_ s. counts name s = c)"
  by (rule yields_always [where R = still]) (simp_all add: still_counts moved_def)

lemma tick_after: "always still m \<Longrightarrow> yields (moved name c) (moved name c) m (\<lambda>_. moved name c)"
  by (rule yields_always [where R = still]) (simp_all add: still_counts moved_def)

lemma tick_bump:
  assumes "which = lit ''gen'' \<or> which = lit ''seq''"
  shows "yields (moved name c) (\<lambda>s. counts name s = c) (bump env which) (\<lambda>_. moved name c)"
  unfolding yields_def
proof (intro allI impI)
  fix s :: "'a life"
  assume "counts name s = c"
  obtain r s' where r: "bump env which s = (r, s')" by fastforce
  from bump_counts [OF r assms] \<open>counts name s = c\<close>
  show "case bump env which s of (Ok _, s') \<Rightarrow> moved name c s' | (Err _, s') \<Rightarrow> moved name c s'"
    unfolding r moved_def by (auto split: result.splits)
qed

lemma yields_guard: "(\<And>s. pre s \<Longrightarrow> post x s) \<Longrightarrow> yields err pre m post \<Longrightarrow> yields err pre (\<lambda>s. if q s then (Ok x, s) else m s) post"
  by (simp add: yields_def)

lemma ticks_locked:
  "yields (moved name c) (\<lambda>s. counts name s = c) m post \<Longrightarrow> yields (moved name c) (\<lambda>s. counts name s = c) (locked env m) post"
  unfolding locked_def by (rule yields_go_on [OF tick_before]) (simp_all add: still_simple)

lemma still_revoke_status:
  "always still (\<lambda>s. case key_revoke ops (lf_world s) of (Ok _, w) \<Rightarrow> (Ok a, s\<lparr>lf_world := w\<rparr>) | (Err _, w) \<Rightarrow> (Ok b, s\<lparr>lf_world := w\<rparr>))"
  by (auto simp: always_def still_def split: prod.splits result.splits)

lemma section_ticks:
  "yields (moved name c) (\<lambda>s. counts name s = c) (cmd_stop_begin env) (\<lambda>_. moved name c)"
  "yields (moved name c) (\<lambda>s. counts name s = c) (cmd_lock env) (\<lambda>_. moved name c)"
  "yields (moved name c) (\<lambda>s. counts name s = c) (use_begin env) (\<lambda>_. moved name c)"
  "yields (moved name c) (\<lambda>s. counts name s = c) (adopt env account vault item g) (\<lambda>_. moved name c)"
  "yields (moved name c) (\<lambda>s. counts name s = c) (cmd_onepassword_off env) (\<lambda>_. moved name c)"
proof -
  note bump = yields_go_on [OF tick_bump]
  have z: "counts name s = c \<Longrightarrow> moved name c s" for s :: "'a life" by (simp add: moved_def)
  show "yields (moved name c) (\<lambda>s. counts name s = c) (cmd_stop_begin env) (\<lambda>_. moved name c)"
    unfolding cmd_stop_begin_def by (rule bump) (simp_all add: tick_after still_rules)
  show "yields (moved name c) (\<lambda>s. counts name s = c) (cmd_lock env) (\<lambda>_. moved name c)"
    unfolding cmd_lock_def
    by (intro ticks_locked yields_guard bump z tick_after still_rules still_reads still_revoke_status) simp_all
  show "yields (moved name c) (\<lambda>s. counts name s = c) (use_begin env) (\<lambda>_. moved name c)"
    unfolding use_begin_def by (intro ticks_locked yields_guard bump z tick_after still_rules still_reads) simp_all
  show "yields (moved name c) (\<lambda>s. counts name s = c) (adopt env account vault item g) (\<lambda>_. moved name c)"
    unfolding adopt_def
    by (intro ticks_locked yields_go_on [OF tick_before [OF still_sections(5)]] yields_go_on [OF tick_before [OF still_reads(7)]]
        yields_go_on [OF tick_before [OF still_reads(5)]] bump tick_after still_reads) simp_all
  show "yields (moved name c) (\<lambda>s. counts name s = c) (cmd_onepassword_off env) (\<lambda>_. moved name c)"
    unfolding cmd_onepassword_off_def by (intro ticks_locked yields_guard bump z tick_after still_rules still_reads) simp_all
qed

lemma ticked: "yields (moved name (counts name s)) (\<lambda>t. counts name t = counts name s) m (\<lambda>_. moved name (counts name s)) \<Longrightarrow> m s = (r, s')
    \<Longrightarrow> moved name (counts name s) s'"
  by (drule yields_after [of _ _ m _ s r s']) (simp_all split: result.splits)

lemma unticked: "always still m \<Longrightarrow> m s = (r, s') \<Longrightarrow> moved name (counts name s) s'"
  using still_counts [of s s' name] stays.at [of m s] by (simp add: moved_def)

lemma step_counts:
  assumes "life_step env kv s s'" shows "moved name (counts name s) s'"
  using assms
proof cases
  case (step_window seq r)
  then show ?thesis by (rule unticked [OF still_sections(1)])
next
  case (step_stop_end r)
  then show ?thesis by (rule unticked [OF still_sections(2)])
next
  case (step_publish data g q)
  then show ?thesis by (rule unticked [OF still_sections(3)])
next
  case (step_save account vault item g u)
  then show ?thesis by (rule unticked [OF still_sections(4)])
next
  case (step_stop_begin r)
  then show ?thesis by (rule ticked [OF section_ticks(1)])
next
  case (step_lock r)
  then show ?thesis by (rule ticked [OF section_ticks(2)])
next
  case (step_use n)
  then show ?thesis by (rule ticked [OF section_ticks(3)])
next
  case (step_adopt account vault item g u)
  then show ?thesis by (rule ticked [OF section_ticks(4)])
next
  case (step_off r)
  then show ?thesis by (rule ticked [OF section_ticks(5)])
qed (simp_all add: moved_def counts_def)

lemma path_counts:
  assumes "(life_step env kv ^^ n) s t" shows "\<exists>k \<le> n. counts name t = (counts name s + k) mod 2 ^ 64"
  using assms
proof (induction n arbitrary: t)
  case 0
  then show ?case using counts_small by (auto simp: counts_def)
next
  case (Suc n)
  then obtain u where u: "(life_step env kv ^^ n) s u" "life_step env kv u t" by auto
  from Suc.IH [OF u(1)] obtain k where k: "k \<le> n" "counts name u = (counts name s + k) mod 2 ^ 64" by blast
  from step_counts [OF u(2), of name] show ?case unfolding moved_def
  proof
    assume "counts name t = counts name u"
    with k show ?thesis by (intro exI [of _ k]) simp
  next
    assume "counts name t = (counts name u + 1) mod 2 ^ 64"
    with k show ?thesis by (intro exI [of _ "k + 1"]) (simp add: mod_simps)
  qed
qed

lemma counter_reads:
  assumes "counter env name s = (r, s')" shows "s' = s \<and> (\<forall>n. r = Ok n \<longrightarrow> n = counts name s)"
  using assms
  by (auto simp: counter_def read_kv_def read_file_def go_on_def give_def counts_def text_or_empty_def split: option.splits)

text \<open>The commands after which no earlier fetch counts, when they succeed.\<close>

definition invalidates :: "'w life_env \<Rightarrow> 'w life \<Rightarrow> 'w life \<Rightarrow> bool" where
  "invalidates env u v \<longleftrightarrow>
     cmd_lock env u = (Ok 0, v) \<or> (\<exists>g. use_begin env u = (Ok (Some g), v))
     \<or> (\<exists>account vault item g. adopt env account vault item g u = (Ok (), v)) \<or> cmd_onepassword_off env u = (Ok 0, v)"

lemma bumped:
  assumes "which = lit ''gen'' \<or> which = lit ''seq''"
  shows "yields (\<lambda>_. True) (\<lambda>s. counts which s = c) (bump env which) (\<lambda>_ s. counts which s = (c + 1) mod 2 ^ 64)"
  unfolding yields_def
proof (intro allI impI)
  fix s :: "'a life"
  assume "counts which s = c"
  obtain r s' where r: "bump env which s = (r, s')" by fastforce
  from bump_counts [OF r assms] \<open>counts which s = c\<close>
  show "case bump env which s of (Ok _, s') \<Rightarrow> counts which s' = (c + 1) mod 2 ^ 64 | (Err _, s') \<Rightarrow> True"
    unfolding r by (auto split: result.splits)
qed

lemma yields_Ok: "yields err pre m post \<Longrightarrow> m s = (Ok x, s') \<Longrightarrow> pre s \<Longrightarrow> post x s'"
  unfolding yields_def by (metis (no_types, lifting) case_prod_conv result.simps(5))

lemma stays_at: "always still m \<Longrightarrow> yields (\<lambda>_. True) (\<lambda>s. counts name s = c) m (\<lambda>_ s. counts name s = c)"
  by (rule yields_always [where R = still]) (simp_all add: still_counts)

lemma stays_locked:
  "yields (\<lambda>_. True) (\<lambda>s. counts name s = c) m post \<Longrightarrow> yields (\<lambda>_. True) (\<lambda>s. counts name s = c) (locked env m) post"
  unfolding locked_def by (rule yields_go_on [OF stays_at]) (simp_all add: still_simple)

lemma invalidated:
  assumes "invalidates env u v" shows "counts (lit ''gen'') v = (counts (lit ''gen'') u + 1) mod 2 ^ 64"
proof -
  let ?c = "counts (lit ''gen'') u" and ?g = "lit ''gen''"
  let ?up = "\<lambda>s. counts ?g s = (?c + 1) mod 2 ^ 64"
  note bump = yields_go_on [OF bumped]
  have rest: "always still m \<Longrightarrow> (\<And>x s. ?up s \<Longrightarrow> post x s) \<Longrightarrow> yields (\<lambda>_. True) ?up m post" for m :: "('b, 'a) life_op" and post
    by (rule yields_post [OF stays_at])
  have l1: "yields (\<lambda>_. True) (\<lambda>s. counts ?g s = ?c) (cmd_lock env) (\<lambda>r s. r = 0 \<longrightarrow> ?up s)"
    unfolding cmd_lock_def by (intro stays_locked yields_guard bump rest still_rules still_reads still_revoke_status) simp_all
  have l2: "yields (\<lambda>_. True) (\<lambda>s. counts ?g s = ?c) (use_begin env) (\<lambda>r s. r \<noteq> None \<longrightarrow> ?up s)"
    unfolding use_begin_def by (intro stays_locked yields_guard bump rest still_rules still_reads) simp_all
  have l3: "yields (\<lambda>_. True) (\<lambda>s. counts ?g s = ?c) (adopt env account vault item g) (\<lambda>_. ?up)" for account vault item g
    unfolding adopt_def
    by (intro stays_locked yields_go_on [OF stays_at [OF still_sections(5)]] yields_go_on [OF stays_at [OF still_reads(7)]]
        yields_go_on [OF stays_at [OF still_reads(5)]] bump rest still_reads) simp_all
  have l4: "yields (\<lambda>_. True) (\<lambda>s. counts ?g s = ?c) (cmd_onepassword_off env) (\<lambda>r s. r = 0 \<longrightarrow> ?up s)"
    unfolding cmd_onepassword_off_def by (intro stays_locked yields_guard bump rest still_rules still_reads) simp_all
  show ?thesis using assms unfolding invalidates_def
    using yields_Ok [OF l1, of u 0 v] yields_Ok [OF l2, of u _ v] yields_Ok [OF l3, of _ _ _ _ u "()" v] yields_Ok [OF l4, of u 0 v] by auto
qed

lemma mod_moved:
  fixes c k m :: nat assumes "c < m" "0 < k" "k < m" shows "(c + k) mod m \<noteq> c"
proof (cases "c + k < m")
  case False
  then have "(c + k) mod m = c + k - m" using assms by (simp add: le_mod_geq)
  with False assms show ?thesis by simp
qed (use assms in simp)

lemma moved_on:
  assumes "(life_step env kv ^^ i) s u" "counts name v = (counts name u + 1) mod 2 ^ 64" "(life_step env kv ^^ j) v t" "i + j < 2 ^ 64 - 1"
  shows "counts name t \<noteq> counts name s"
proof -
  obtain a where a: "a \<le> i" "counts name u = (counts name s + a) mod 2 ^ 64" using path_counts [OF assms(1)] by blast
  obtain b where b: "b \<le> j" "counts name t = (counts name v + b) mod 2 ^ 64" using path_counts [OF assms(3)] by blast
  let ?k = "a + 1 + b"
  have t: "counts name t = (counts name s + ?k) mod 2 ^ 64" unfolding b(2) assms(2) a(2) by (simp add: mod_simps algebra_simps)
  have s: "counts name s < 2 ^ 64" using counts_small [of _ name] by (simp add: counts_def)
  have k: "0 < ?k" "?k < 2 ^ 64" using a(1) b(1) assms(4) by simp_all
  show ?thesis unfolding t by (rule mod_moved [OF s k])
qed

text \<open>
  C40. What was begun before and ends late does nothing. A fetch that started before \<open>identity lock\<close>, a change of the 1Password
  item or turning 1Password off publishes nothing after it; and an \<open>on\<close> that started before an \<open>off\<close> opens no
  window after it. However many other commands run in between (the counters have 64 bits).
\<close>

theorem late_steps_do_nothing:
  assumes "life_ok env kv" "(life_step env kv ^^ i) s u" "(life_step env kv ^^ j) v t" "i + j < 2 ^ 64 - 1"
  shows "(invalidates env u v \<longrightarrow>
      (case publish_if_current env data (counts (lit ''gen'') s) t of
         (r, t') \<Rightarrow> (r = Ok Superseded_fetch \<or> (\<exists>e. r = Err e)) \<and> lf_text t' = lf_text t \<and> fades kv (lf_world t) (lf_world t')))
    \<and> (cmd_stop_begin env u = (Ok 0, v) \<longrightarrow>
      (case cmd_window env (Some (int (counts (lit ''seq'') s))) t of (r, t') \<Rightarrow> (r = Ok 3 \<or> (\<exists>e. r = Err e)) \<and> t' = t))"
proof (intro conjI impI)
  assume "invalidates env u v"
  then have ne: "counts (lit ''gen'') t \<noteq> counts (lit ''gen'') s" by (rule moved_on [OF assms(2) invalidated assms(3,4)])
  obtain l w where l: "le_lock env (lf_world t) = (l, w)" by fastforce
  have "fades kv (lf_world t) (snd (le_lock env (lf_world t)))" using assms(1) by (simp add: life_ok_def)
  then have f: "fades kv (lf_world t) w" using l by simp
  have "counts (lit ''gen'') (t\<lparr>lf_world := w\<rparr>) = counts (lit ''gen'') t" by (simp add: counts_def)
  then show "case publish_if_current env data (counts (lit ''gen'') s) t of
      (r, t') \<Rightarrow> (r = Ok Superseded_fetch \<or> (\<exists>e. r = Err e)) \<and> lf_text t' = lf_text t \<and> fades kv (lf_world t) (lf_world t')"
    using l f ne counter_reads [of env "lit ''gen''" "t\<lparr>lf_world := w\<rparr>"]
    by (auto simp: publish_if_current_def locked_def go_on_def in_world_def give_def split: prod.splits result.splits)
next
  assume stopped: "cmd_stop_begin env u = (Ok 0, v)"
  have y: "yields (\<lambda>_. True) (\<lambda>s. counts (lit ''seq'') s = counts (lit ''seq'') u) (cmd_stop_begin env)
      (\<lambda>_ s. counts (lit ''seq'') s = (counts (lit ''seq'') u + 1) mod 2 ^ 64)"
    unfolding cmd_stop_begin_def by (rule yields_go_on [OF bumped]) (simp_all add: yields_give)
  have "counts (lit ''seq'') v = (counts (lit ''seq'') u + 1) mod 2 ^ 64" using yields_Ok [OF y stopped] by simp
  from moved_on [OF assms(2) this assms(3,4)] have "counts (lit ''seq'') t \<noteq> counts (lit ''seq'') s" .
  then show "case cmd_window env (Some (int (counts (lit ''seq'') s))) t of (r, t') \<Rightarrow> (r = Ok 3 \<or> (\<exists>e. r = Err e)) \<and> t' = t"
    using counter_reads [of env "lit ''seq''" t]
    by (auto simp: cmd_window_def go_on_def give_def split: prod.splits result.splits)
qed

section \<open>A window opened, a fetch that ends late\<close>

definition small_life :: "small_ring life_env" where [eval_defs]:
  "small_life =
     \<lparr>le_ops = small_ops, le_unreadable = (\<lambda>_ _. None), le_write = (\<lambda>_ _ w. (Ok (), w)), le_remove_window = (\<lambda>w. (Ok (), w)),
      le_lock = (\<lambda>w. (Ok (), w)), le_kill_fetch = (\<lambda>w. (Ok (), w)), le_now = (\<lambda>_. 5), le_op = (\<lambda>_ w. (Err ([], []), w)),
      le_ids = (\<lambda>_. None), le_account = (\<lambda>_. None), le_check_apple = (\<lambda>_ _ _. None), le_random = (\<lambda>w. (Ok [], w)),
      le_json = rv_json apple_resolver, le_quote = plain_quote, le_file = (\<lambda>_ _. Ok None), le_lexists = (\<lambda>_ _. False),
      le_exists = (\<lambda>_ _. False), le_path = (\<lambda>_. []), le_matches = (\<lambda>_ _. False), le_delete = (\<lambda>_ w. (Ok (), w)),
      le_create_pair = (\<lambda>_ w. (Ok False, w)), le_migrate = (\<lambda>w. (Ok [], w))\<rparr>"

lemma small_life_ok: "life_ok small_life small_view"
  by (simp add: life_ok_def small_life_def small_ok fades_refl)

definition small_payload :: payload where [eval_defs]:
  "small_payload = \<lparr>pl_fetch_id = replicate 32 0x61, pl_fetched_at = 0, pl_period_ends = 10, pl_hard_expiry = 20,
     pl_certificate = [1], pl_key = [2], pl_record = [3]\<rparr>"

definition small_cache :: bytes where [eval_defs]:
  "small_cache = ID_MAGIC @ [10, 123, 10, 1, 2, 3]"

definition small_start :: "small_ring life" where [eval_defs]:
  "small_start = \<lparr>lf_text = (\<lambda>f. if f = Settings_text then Some (lit ''identity_source=1password'' @ [0x0a]) else None),
     lf_world = (Some 0, [small_cache]), lf_out = []\<rparr>"

lemma small_parsed: "parse_payload (le_json small_life) small_cache = Some small_payload"
  using apple_payload by (simp add: small_life_def small_cache_def small_payload_def)

lemma small_mode: "id_mode small_life small_start = (Ok (lit ''1password''), small_start)"
proof -
  have "lit ''identity_source=1password'' @ [0x0a] = written_lines (map entry [(lit ''identity_source'', lit ''1password'')])"
    by (simp add: written_lines_def entry_def lit_def)
  moreover have "parse_settings (written_lines (map entry [(lit ''identity_source'', lit ''1password'')])) =
      map_of (rev [(lit ''identity_source'', lit ''1password'')])"
    by (rule parse_settings_written) (simp add: entry_ok_def unbroken_def line_boundary_def lit_def)
  ultimately have "parse_settings (lit ''identity_source=1password'' @ [0x0a]) = [lit ''identity_source'' \<mapsto> lit ''1password'']" by simp
  then show ?thesis
    by (simp add: id_mode_def read_kv_def read_file_def go_on_def give_def small_start_def small_life_def text_or_empty_def)
qed

lemma small_read: "current_cache small_life small_start = (Ok (Some small_payload), small_start)"
proof -
  have l: "length small_cache \<le> 32768" by (simp add: eval_defs)
  then have "read_key small_ops 0 (MAX_KEY_PAYLOAD + 1) (Some 0, [small_cache]) = (Ok (Some small_cache), (Some 0, [small_cache]))"
    by (subst read_key.simps) (simp add: small_ops_def small_content_def MAX_KEY_PAYLOAD_def)
  then have "key_read small_ops None (Some 0, [small_cache]) = (Ok (Some small_cache), (Some 0, [small_cache]))"
    by (simp add: key_read_def key_find_def go_on_def small_ops_def small_key_def small_content_def)
  then show ?thesis using small_parsed
    by (simp add: current_cache_def small_start_def) (simp add: small_life_def small_payload_def)
qed

definition small_window :: ustr where
  "small_window = join [0x0a] [lit ''source=1password'', lit ''fetch_id='' @ replicate 32 0x61, lit ''hard_expiry='' @ int_text 20,
     lit ''cache_serial='' @ int_text 0] @ [0x0a]"

lemma small_lines:
  "fst (window_of_cache small_life small_start) = Ok [lit ''source=1password'', lit ''fetch_id='' @ replicate 32 0x61,
     lit ''hard_expiry='' @ int_text 20, lit ''cache_serial='' @ int_text 0]
   \<and> lf_world (snd (window_of_cache small_life small_start)) = (Some 0, [small_cache])"
  unfolding window_of_cache_def go_on_def small_read
  by (simp add: small_start_def small_life_def small_ops_def small_payload_def asks_def say_def in_world_def cache_serial_def give_def
      usable_for_new_window_def key_find_def key_set_timeout_def go_on_def map_error_def small_key_def small_content_def)

lemma small_opened:
  "\<exists>t. cmd_window small_life (Some 0) small_start = (Ok 0, t) \<and> lf_text t Window_text = Some small_window
     \<and> lf_world t = (Some 0, [small_cache])"
proof -
  have c: "counter small_life (lit ''seq'') small_start = (Ok 0, small_start)"
    by (simp add: counter_def read_kv_def read_file_def go_on_def give_def small_start_def text_or_empty_def parse_settings_def
        splitlines.simps [of "[]"] count_in_def)
  have w: "read_window small_life small_start = (Ok No_window, small_start)"
    by (simp add: read_window_def read_file_def go_on_def give_def small_start_def)
  obtain s1 where l: "window_of_cache small_life small_start = (Ok [lit ''source=1password'', lit ''fetch_id='' @ replicate 32 0x61,
     lit ''hard_expiry='' @ int_text 20, lit ''cache_serial='' @ int_text 0], s1)" "lf_world s1 = (Some 0, [small_cache])"
    using small_lines by (metis prod.collapse)
  have "write_file small_life Window_text small_window s1 = (Ok (), s1\<lparr>lf_text := (lf_text s1)(Window_text \<mapsto> small_window)\<rparr>)"
    by (simp add: write_file_def small_life_def)
  then have "cmd_window small_life (Some 0) small_start = (Ok 0, s1\<lparr>lf_text := (lf_text s1)(Window_text \<mapsto> small_window)\<rparr>)"
    by (simp add: cmd_window_def go_on_def c w small_mode l(1) give_def small_window_def)
  with l(2) show ?thesis by simp
qed

theorem window_keeps_its_cache_witness:
  "\<exists>t p. (life_step small_life small_view)\<^sup>*\<^sup>* small_start t \<and> lf_text t Window_text = Some small_window
     \<and> parse_payload (le_json small_life) small_cache = Some p \<and> pl_fetch_id p = replicate 32 0x61
     \<and> select_identity Map.empty (Parsed (One_password (replicate 32 0x61) 20)) (Cached (pl_fetch_id p) (pl_hard_expiry p))
         \<lparr>dk_certificate = False, dk_key = False, dk_matches = False, dk_record = False\<rparr>
         \<lparr>pr_certificate = False, pr_key = False\<rparr> False 19 =
       Ok \<lparr>co_identity = From_cache, co_record = True, co_create = False, co_warnings = []\<rparr>"
proof -
  obtain t where t: "cmd_window small_life (Some 0) small_start = (Ok 0, t)" "lf_text t Window_text = Some small_window"
    "lf_world t = (Some 0, [small_cache])" using small_opened by blast
  then have r: "(life_step small_life small_view)\<^sup>*\<^sup>* small_start t" by (blast intro: step_window)
  have w: "parse_window small_window = Some (One_password (replicate 32 0x61) 20)"
    unfolding small_window_def using apple_fetch_id serial_unbroken(1) by (intro apple_window_read) simp_all
  have h: "cache_held small_view (lf_world t) = Some small_cache"
    by (simp add: t(3) cache_held_def small_view_def small_key_def small_content_def)
  have n: "lf_text small_start Window_text = None" by (simp add: small_start_def)
  from window_keeps_its_cache [OF small_life_ok n r t(2) w h] r t(2) show ?thesis by auto
qed

lemma small_locked: "\<exists>v. cmd_lock small_life small_start = (Ok 0, v)"
proof -
  have c: "counter small_life (lit ''gen'') small_start = (Ok 0, small_start)"
    by (simp add: counter_def read_kv_def read_file_def go_on_def give_def small_start_def text_or_empty_def parse_settings_def
        splitlines.simps [of "[]"] count_in_def)
  have rd: "read_file small_life State_text small_start = (Ok None, small_start)" by (simp add: read_file_def small_start_def)
  have wr: "write_file small_life State_text x small_start = (Ok (), small_start\<lparr>lf_text := (lf_text small_start)(State_text \<mapsto> x)\<rparr>)" for x
    by (simp add: write_file_def small_life_def)
  obtain x where b: "bump small_life (lit ''gen'') small_start = (Ok 1, small_start\<lparr>lf_text := (lf_text small_start)(State_text \<mapsto> x)\<rparr>)"
    by (simp add: bump_def go_on_def c give_def Let_def rd wr)
  have revoked: "\<exists>b w'. key_revoke small_ops w = (Ok b, w')" for w
    by (auto simp: key_revoke_def key_find_def go_defs small_ops_def is_missing_def split: option.splits)
  have "window_open small_start = False" "in_world Io_failed (le_lock small_life) small_start = (Ok (), small_start)"
    by (simp_all add: window_open_def small_start_def in_world_def small_life_def)
  moreover have "kill_fetch small_life s = (Ok (), s)" for s by (simp add: kill_fetch_def in_world_def small_life_def)
  moreover have "le_ops small_life = small_ops" by (simp add: small_life_def)
  ultimately have "fst (cmd_lock small_life small_start) = Ok 0"
    using revoked [of "lf_world small_start"] by (auto simp: cmd_lock_def locked_def go_on_def b)
  then show ?thesis by (metis prod.collapse)
qed

theorem late_steps_do_nothing_witness:
  "\<exists>v. cmd_lock small_life small_start = (Ok 0, v) \<and>
     (case publish_if_current small_life small_cache 0 v of (r, t') \<Rightarrow> r = Ok Superseded_fetch \<or> (\<exists>e. r = Err e))"
proof -
  obtain v where v: "cmd_lock small_life small_start = (Ok 0, v)" using small_locked by blast
  have "(life_step small_life small_view ^^ 0) small_start small_start" "(life_step small_life small_view ^^ 0) v v" by simp_all
  moreover have "counts (lit ''gen'') small_start = 0"
    by (simp add: counts_def small_start_def text_or_empty_def parse_settings_def splitlines.simps [of "[]"] count_in_def)
  moreover have "invalidates small_life small_start v" using v by (simp add: invalidates_def)
  ultimately show ?thesis using late_steps_do_nothing [OF small_life_ok, of 0 small_start small_start 0 v v small_cache] v
    by (auto split: prod.splits)
qed

section \<open>Commands are steps\<close>

text \<open>Every command, run without the others, is a sequence of steps; run with them, its sections are steps of the interleaving.\<close>

lemma life_path_refl: "(life_step env kv)\<^sup>*\<^sup>* s s"
  by simp

interpretation path: steady "(life_step env kv)\<^sup>*\<^sup>*" for env :: "'w life_env" and kv
  by unfold_locales (auto intro: rtranclp_trans)

lemma handle:
  assumes "\<And>s t u. R s t \<Longrightarrow> R t u \<Longrightarrow> R s u" "always R m" "\<And>x. always R (k x)" "\<And>e. always R (h e)"
  shows "always R (\<lambda>s. case m s of (Ok x, s') \<Rightarrow> k x s' | (Err e, s') \<Rightarrow> h e s')"
  unfolding always_def
proof
  fix s
  obtain r s1 where r: "m s = (r, s1)" by fastforce
  with assms(2) have "R s s1" by (metis always_def snd_conv)
  moreover have "R s1 (snd (k x s1))" "R s1 (snd (h e s1))" for x e using assms(3,4) by (simp_all add: always_def)
  ultimately show "R s (snd (case m s of (Ok x, s') \<Rightarrow> k x s' | (Err e, s') \<Rightarrow> h e s'))"
    using r assms(1) by (auto split: result.splits)
qed

lemma path_handle:
  assumes "always (life_step env kv)\<^sup>*\<^sup>* m" "\<And>x. always (life_step env kv)\<^sup>*\<^sup>* (k x)" "\<And>e. always (life_step env kv)\<^sup>*\<^sup>* (h e)"
  shows "always (life_step env kv)\<^sup>*\<^sup>* (\<lambda>s. case m s of (Ok x, s') \<Rightarrow> k x s' | (Err e, s') \<Rightarrow> h e s')"
  using assms by (intro handle) (auto intro: rtranclp_trans)

lemma path_step: "(\<And>s r s'. m s = (r, s') \<Longrightarrow> life_step env kv s s') \<Longrightarrow> always (life_step env kv)\<^sup>*\<^sup>* m"
  by (auto simp: always_def) (metis prod.collapse r_into_rtranclp)

lemma path_world: "fades kv (lf_world s) w \<Longrightarrow> (life_step env kv)\<^sup>*\<^sup>* s (s\<lparr>lf_world := w\<rparr>)"
  using step_outside [of kv s w env "lf_out s"] by auto

lemma path_in_world: "(\<And>w. fades kv w (snd (f w))) \<Longrightarrow> always (life_step env kv)\<^sup>*\<^sup>* (in_world as f)"
  unfolding always_def in_world_def by (auto split: prod.splits result.splits intro!: path_world) (metis snd_conv)+

lemma path_simple:
  "always (life_step env kv)\<^sup>*\<^sup>* (asks f)" "always (life_step env kv)\<^sup>*\<^sup>* (read_file env file)" "always (life_step env kv)\<^sup>*\<^sup>* (say k v)"
proof -
  have "life_step env kv s (s\<lparr>lf_out := out\<rparr>)" for s out
    using step_outside [of kv s "lf_world s" env out] by (simp add: fades_refl)
  then show "always (life_step env kv)\<^sup>*\<^sup>* (say k v)" by (auto simp: always_def say_def)
qed (auto simp: always_def asks_def read_file_def split: option.splits)

lemmas path_rules = path.go_on path.give path.whatever path.guard path.choice_of path.either path_simple

lemma path_reads:
  "always (life_step env kv)\<^sup>*\<^sup>* (read_kv env file)" "always (life_step env kv)\<^sup>*\<^sup>* (counter env name)"
  "always (life_step env kv)\<^sup>*\<^sup>* (id_mode env)" "always (life_step env kv)\<^sup>*\<^sup>* (read_window env)"
  by (simp_all add: read_kv_def counter_def id_mode_def read_window_def path_rules)

lemma path_cache: "life_ok env kv \<Longrightarrow> always (life_step env kv)\<^sup>*\<^sup>* (current_cache env)"
proof -
  assume k: "life_ok env kv"
  have "fades kv w (snd (key_read (le_ops env) None w))" for w using key_read_quiet [OF kernel_of [OF k]] by (rule quiet_fades)
  then have "fades kv w w'" if "key_read (le_ops env) None w = (r, w')" for w r w' using that by (metis snd_conv)
  then show ?thesis by (auto simp: always_def current_cache_def split: prod.splits result.splits option.splits intro!: path_world)
qed

lemma path_outside:
  assumes "life_ok env kv"
  shows "always (life_step env kv)\<^sup>*\<^sup>* (run_op env args)" "always (life_step env kv)\<^sup>*\<^sup>* (in_world Io_failed (le_random env))"
    "always (life_step env kv)\<^sup>*\<^sup>* (in_world Io_failed (le_migrate env))" "always (life_step env kv)\<^sup>*\<^sup>* (in_world Io_failed (le_delete env f))"
    "always (life_step env kv)\<^sup>*\<^sup>* (in_world Io_failed (le_lock env))"
  using assms unfolding run_op_def by (simp_all add: path_in_world life_ok_def)

lemma path_pair: "life_ok env kv \<Longrightarrow> always (life_step env kv)\<^sup>*\<^sup>* (create_pair env name)"
proof -
  assume "life_ok env kv"
  then have "fades kv w (snd (le_create_pair env name w))" for w by (simp add: life_ok_def)
  then have "fades kv w w'" if "le_create_pair env name w = (r, w')" for w r w' using that by (metis snd_conv)
  then show ?thesis by (auto simp: always_def create_pair_def split: prod.splits result.splits create_error.splits intro!: path_world)
qed

lemma path_locked: "life_ok env kv \<Longrightarrow> always (life_step env kv)\<^sup>*\<^sup>* m \<Longrightarrow> always (life_step env kv)\<^sup>*\<^sup>* (locked env m)"
  unfolding locked_def by (intro path_rules path_outside)

lemma path_files: "life_ok env kv \<Longrightarrow> always (life_step env kv)\<^sup>*\<^sup>* (op_read_files env account vault item)"
  unfolding op_read_files_def op_read_def by (intro path_rules path_outside)

lemma path_fetch: "life_ok env kv \<Longrightarrow> always (life_step env kv)\<^sup>*\<^sup>* (fetch_payload env)"
  unfolding fetch_payload_def item_ref_def Let_def
  by (intro path_rules path_reads) (auto split: prod.splits option.splits intro!: path_rules path_reads path_files path_outside)

lemma path_sections:
  "always (life_step env kv)\<^sup>*\<^sup>* (cmd_window env seq)" "always (life_step env kv)\<^sup>*\<^sup>* (cmd_stop_begin env)"
  "always (life_step env kv)\<^sup>*\<^sup>* (cmd_stop_end env)" "always (life_step env kv)\<^sup>*\<^sup>* (cmd_lock env)"
  "always (life_step env kv)\<^sup>*\<^sup>* (publish_if_current env data g)" "always (life_step env kv)\<^sup>*\<^sup>* (use_begin env)"
  "always (life_step env kv)\<^sup>*\<^sup>* (save_item_ids env account vault item g)" "always (life_step env kv)\<^sup>*\<^sup>* (adopt env account vault item g)"
  "always (life_step env kv)\<^sup>*\<^sup>* (cmd_onepassword_off env)"
  by (rule path_step, erule life_step.intros)+

lemma path_end: "always (life_step env kv)\<^sup>*\<^sup>* (\<lambda>s. (r, s))"
  by (simp add: always_def)

lemma path_fail: "(\<And>m d. always R (\<lambda>s. a m d s)) \<Longrightarrow> (\<And>e. always R (\<lambda>s. b e s)) \<Longrightarrow> (\<And>e. always R (\<lambda>s. c e s)) \<Longrightarrow> (\<And>e. always R (\<lambda>s. d' e s))
    \<Longrightarrow> always R (\<lambda>s. case f of Fetch_failed m d \<Rightarrow> a m d s | Keyring_failed e \<Rightarrow> b e s | Superseded e \<Rightarrow> c e s | Io_failed e \<Rightarrow> d' e s)"
  by (cases f) simp_all

lemma path_maybe: "always R (n :: 's \<Rightarrow> ('a, 'e) result \<times> 's) \<Longrightarrow> (\<And>x. always R (\<lambda>s. j x s)) \<Longrightarrow> always R (\<lambda>s. case a of None \<Rightarrow> n s | Some x \<Rightarrow> j x s)"
  by (cases a) simp_all

lemma path_fill: "life_ok env kv \<Longrightarrow> always (life_step env kv)\<^sup>*\<^sup>* (fill_cache env)"
  unfolding fill_cache_def read_gen_def
  by (intro path_rules path_locked path_reads path_handle path_fetch path_sections path_fail path_end)

lemma path_commands:
  assumes "life_ok env kv"
  shows "always (life_step env kv)\<^sup>*\<^sup>* (cmd_begin env name)" "always (life_step env kv)\<^sup>*\<^sup>* (cmd_unlock env)"
    "always (life_step env kv)\<^sup>*\<^sup>* (cmd_ensure_self_signed env name)"
  using assms unfolding cmd_begin_def begin_cache_def read_seq_def cmd_unlock_def cmd_ensure_self_signed_def
  by (auto split: window_state.splits prod.splits intro!: path_rules path_locked path_reads path_cache path_fill path_pair path_outside)

lemma path_op_ids: "life_ok env kv \<Longrightarrow> always (life_step env kv)\<^sup>*\<^sup>* (op_ids env args)" "life_ok env kv \<Longrightarrow> always (life_step env kv)\<^sup>*\<^sup>* (account_id env)"
  unfolding op_ids_def account_id_def by (intro path_rules path_outside; assumption)+

lemma path_use: "life_ok env kv \<Longrightarrow> always (life_step env kv)\<^sup>*\<^sup>* (cmd_use env item vault account)"
proof -
  assume ok: "life_ok env kv"
  have f: "always (life_step env kv)\<^sup>*\<^sup>* (use_fetch env item vault account)" unfolding use_fetch_def
    by (intro path_rules path_op_ids ok) (auto split: prod.splits intro!: path_rules path_op_ids path_files ok)
  show ?thesis unfolding cmd_use_def
    by (intro path_rules path_sections path_handle f path_fail path_end)
      (auto split: prod.splits intro!: path_rules path_handle path_sections path_fail path_end)
qed

lemma path_import: "life_ok env kv \<Longrightarrow> always (life_step env kv)\<^sup>*\<^sup>* (cmd_import env vault title)"
proof -
  assume ok: "life_ok env kv"
  have b: "always (life_step env kv)\<^sup>*\<^sup>* (import_begin env)" unfolding import_begin_def by (intro path_locked ok path_rules path_reads)
  have d: "always (life_step env kv)\<^sup>*\<^sup>* (read_disk env f)" for f unfolding read_disk_def by (intro path_rules)
  have i: "always (life_step env kv)\<^sup>*\<^sup>* (item_ref env)" unfolding item_ref_def Let_def by (intro path_rules path_reads)
  have again: "always (life_step env kv)\<^sup>*\<^sup>* (import_again env g q cert key rec)" for g q cert key rec
    unfolding import_again_def by (intro path_rules i) (auto split: prod.splits intro!: path_rules path_files path_sections ok)
  have again_end: "always (life_step env kv)\<^sup>*\<^sup>* (go_on (op_read_files env account vault item) (\<lambda>(c, k, r) s2.
      if (c, k, r) \<noteq> x then (Ok (Some 1), s2)
      else (case adopt env account vault item g s2 of
              (Ok _, s3) \<Rightarrow> (Ok None, s3)
            | (Err (Io_failed _), s3) \<Rightarrow> (Ok (Some 1), s3)
            | (Err e, s3) \<Rightarrow> (Err e, s3))))" for account vault item g and x :: "bytes \<times> bytes \<times> bytes"
    by (intro path_rules path_files ok)
      (auto split: prod.splits intro!: path_rules path_handle path_sections path_fail path_end)
  have new: "always (life_step env kv)\<^sup>*\<^sup>* (import_new env g vault title cert key rec)" for g vault title cert key rec
    unfolding import_new_def
    by (intro path.choice_of path.give path.go_on path_op_ids ok)
      (auto split: prod.splits intro!: path_rules path_op_ids path_handle path_sections path_fail path_end again_end ok)
  have decide: "always (life_step env kv)\<^sup>*\<^sup>* (import_decide env g vault title m cert key rec)" for g m cert key rec
    unfolding import_decide_def by (auto split: option.splits intro!: path_rules again new)
  have delete: "always (life_step env kv)\<^sup>*\<^sup>* (delete_disk env)"
    unfolding delete_disk_def by (intro path_rules path_outside ok)
  have last: "always (life_step env kv)\<^sup>*\<^sup>* (\<lambda>s. case import_decide env g vault title m cert key rec s of
             (Ok (Some rc), s') \<Rightarrow> (Ok rc, s')
           | (Ok None, s') \<Rightarrow> delete_disk env s'
           | (Err (Fetch_failed _ _), s') \<Rightarrow> (Ok 1, s')
           | (Err (Superseded _), s') \<Rightarrow> (Ok 1, s')
           | (Err e, s') \<Rightarrow> (Err e, s'))" for g m cert key rec
    by (intro path_handle [OF decide] path_maybe delete path_end path_fail)
  show ?thesis unfolding cmd_import_def
    by (rule path.go_on [OF b], auto split: option.splits intro!: path.give path.go_on d path_reads last)
qed

lemma command_path: "life_ok env kv \<Longrightarrow> always (life_step env kv)\<^sup>*\<^sup>* (command env c)"
  unfolding command_def by (cases c) (simp_all add: path_commands path_sections path_use path_import)

end
