(* ===== verification/Spec2Isabelle.thy ===== *)
theory Spec2Isabelle
  imports Delivery Calendar SendHttp Gate Discovery Window Links Sending Lifecycle
begin

text \<open>
  A verification library for Omdrop, an AirDrop receiver and sender for Linux (src/core/crates).

  \<^bold>\<open>The program.\<close> A Mac or iPhone finds this machine by multicast DNS over Apple's wireless link,
  asks it over HTTPS whether it takes a transfer, and uploads an archive, which is unpacked into the
  download directory; or this machine sends the same way. The radio helper, which runs as root, keeps
  the machine discoverable for a window of time. The parts modelled are, from the bottom:

  \<^item> omdrop-proto/src/archive.rs, the archive: a cpio in gzip or in Apple's DVZip blocks. File names and
    Python's repr are in Names; errors and byte streams in Io; the decoder and encoder of DVZip in
    Dvzip; the reader and writer of cpio in Cpio; extraction into a directory in Extract. \<open>fill_buf\<close>,
    \<open>copy_out\<close> and the like are the buffered readers and copies of the standard library that
    archive.rs uses.
  \<^item> omdrop-proto/src/http.rs, HTTP/1.1: line reading in Buffered, body framing in Http, the small-body and
    upload-body readers in Body, request heads, responses and the date in Head. Calendar
    relates the date's division formulas to counting days. omdrop-send/src/http.rs, the
    sender's side of the same protocol, is in SendHttp.
  \<^item> omdrop-proto/src/safeplist.rs and contacts.rs: bounded property lists in Plist, the Contacts Only policy
    in Contacts.
  \<^item> omdrop-receiver/src/server.rs: the table of connections, upload slots, budgets, links and log lines
    in Connections; the connection loop and the handlers of Discover, Ask and Upload in Session.
    log.rs is in Logs; args.rs, config.rs and the checks of main.rs are in Settings.
  \<^item> omdrop-adv/src: frames, names and checksums (frames.rs) in Frames; the responder's reading of queries
    (mdns.rs, cli.rs) and the machine's name (host.rs) in Mdns. The browser of
    omdrop-send/src/mdns.rs is in Browse.
  \<^item> omdrop-radio/src: the texts the helper trusts in Radio (ctx.rs, net.rs, diag.rs, window.rs), the processes it
    signals and \<open>status\<close> in Processes (proc.rs, window.rs), and the protocol of start, supervisor and stop in Window
    (window.rs).
  \<^item> omdrop-cli/src/links.rs, the client's watcher: which log records are news, which files they name and which
    links are opened, in Arrivals; Links follows a link from the Ask to the browser.
  \<^item> omdrop-send/src, the sender: the command-line parser, both command lines and their messages (args.rs, pyfmt.rs,
    airdrop_send.rs) in Commands; send-to-peer, which finds the peer in the radio's tables and runs airdrop-send
    (send_to_peer.rs, and the addresses of omdrop-proto/src/net.rs), in Peers; the property lists and headers of the requests (client.rs)
    in Asks; what airdrop-send reads from the radio's log of frames (aflog.rs) in Aflog; and its run from the command line to
    the exit status, with error.rs, in Sending.
  \<^item> omdrop-identity/src/contract.rs and resolver.rs, which identity a program presents, in Contract; keyring.rs, the cache's key in the
    kernel, in Keyring; lifecycle.rs, the commands that open and close windows, fill and clear the cache and move the identity to
    1Password, in Lifecycle.

  \<^bold>\<open>How the code is rendered.\<close> Prelude and Text hold what all theories share. A byte is an 8-bit word
  and bytes are lists of them; a Rust string is a list of Unicode scalars (\<open>ustr\<close>), with \<open>str_len\<close> its
  length in UTF-8 and \<open>as_bytes\<close> its encoding. Sizes are natural numbers, with the width written out
  where the code converts or could overflow (\<open>u16_of_be\<close>, \<open>parse_digits\<close> with a maximum, the 128-bit
  product of \<open>budget_compute\<close>, the offsets of packets). \<open>Result\<close> is the datatype \<open>result\<close>;
  an error message is a list of pieces, so that a message can hold text of a foreign library without
  modelling its wording. A function with \<open>&mut self\<close> returns its new state. Code that is
  not in the repository is a parameter: zlib, Unicode normalisation and case, SHA-256, signature checks,
  the property-list, TOML and JSON parsers, the file system and the clock.

  A stream is what the kernel hands over: a list of pieces and failures, read through \<open>source_read\<close>, so
  every theorem about a stream holds for all ways the network cuts, interrupts or ends it. Loops over a
  stream are \<open>partial_function (option)\<close> where they end only because the stream does; \<open>None\<close> is then a
  loop that does not return, and the theorems that something is read say so with \<open>Some\<close>. The
  locales state what one layer promises the next: \<open>byte_reader\<close> and \<open>byte_writer\<close> (Io) what a stream
  yields, \<open>buffered_input\<close> and \<open>dv_input\<close> the same of a buffer and of the DVZip decoder on top of any
  reader, \<open>copying\<close> of a copy between the two, \<open>extract_input\<close> of extraction, \<open>tape_reader\<close>,
  \<open>body_tape\<close> and \<open>body_live\<close> of a connection with deadlines, \<open>session_invariant\<close> of a property that every handler
  keeps, and \<open>steady\<close> (Lifecycle) of a relation that operations run one after the other keep. Each is interpreted on the model's own functions where they are defined (\<open>source_reader\<close>, \<open>vec_writer\<close>,
  \<open>buffered_source\<close>, \<open>flagged\<close>, \<open>net\<close>, \<open>wire\<close>, \<open>live\<close>, \<open>kept_files\<close> and others), and the properties rest on those facts.

  \<^bold>\<open>What is shown.\<close>

  \<^item> Names and archives: a name made from a sender's text is one visible entry of the directory; cpio, DVZip
    and HTTP chunks read back what was written, through any stream; a truncated DVZip body is
    never taken for a short archive; an extraction leaves the directory as it was or adds exactly the files it
    reports, within its limits; and the sender's archive of any files arrives whole (Delivery).
  \<^item> HTTP: what is read of a connection is bounded by the limits, framed by the headers, and leaves the
    connection exactly behind it; what the framing allows is accepted; responses are bounded.
  \<^item> Property lists: what is accepted is within the limits of size, number and depth, and every value
    within them is parsed back exactly.
  \<^item> The receiver: caps on connections and upload slots under every interleaving; budgets; the Contacts Only
    policy as an equivalence; and, in Gate, whole connections: every connection refines a sequence of
    deposits of new files, a stranger stores nothing, no slot leaks, a 200 is true. Its settings are
    checked before it serves, and its log records are single lines. What it stores is what the watcher announces, and
    a link is opened as the URL that was sent (Arrivals, Links).
  \<^item> Discovery: names, announcements, queries and frames are read back by the other side, no packet
    makes a name reader run on or leave the packet, and every checksum verifies.
  \<^item> The sender: the command send-to-peer builds is read by airdrop-send as what was asked for, for a peer that was heard and
    is the only one meant; the links of an Ask are what the receiver of this repository stores (Peers, Asks); and a run
    uploads only what the receiver it discovered accepted, and says so truthfully (Sending).
  \<^item> The identity: selection is the contract's table, a window of a 1Password identity is never served by anything but
    its own live cache, and a payload reads back (Contract); the cache is never visible without a timeout (Keyring); and in every interleaving of the
    commands the cache of an open window is not replaced, and what was begun before a lock or an off does nothing after it (Lifecycle,
    where every command is also shown to be a sequence of the steps that are interleaved).
  \<^item> The radio helper: it signals only processes it provably started, reports the window truthfully,
    and in every interleaving of start, supervisor and stop there is one supervisor, one holder of the lock, and an
    extension that was reported is not undone by expiry.

  \<^bold>\<open>Bounds and fuel.\<close> The bounds are the code's constants (\<open>MAX_FILE_NAME_BYTES\<close>, \<open>MAX_DEPTH\<close>,
  \<open>MAX_HEADERS\<close>, \<open>MAX_MESSAGE_BYTES\<close> and so on). Loops the code bounds by counting are recursions on that
  count: \<open>dns_labels\<close> on its hops, \<open>read_labels\<close> on the pointers it follows, \<open>descends_within\<close> on its 64 steps,
  \<open>bind_port\<close> on the attempts, \<open>candidate_names\<close> on its 10,000 names. No other fuel is used.

  \<^bold>\<open>Not modelled.\<close> TLS and certificates (tls.rs, applecheck.rs, selfsigned.rs) and the run of the 1Password program (op.rs)
  rest on external libraries and on calls of the kernel; the policy, the resolution of an identity and the identity commands take
  their answers as parameters. The command \<open>identity status\<close> only prints. Raw and Bluetooth sockets, pacing, threads and signal handlers are
  calls of the operating system. The run directory's checked file operations (rundir.rs) and the
  running of hooks (proc.rs) appear in the radio theories by their results only. The
  sender's connections and the waiting, waking and parallel lookups of send-to-peer are parameters or left out. The
  rest of the command-line client (omdrop-cli) and the desktop plug-in start these programs and show their output.
  Within modelled parts, the text of foreign error messages, the order of hash maps and the wording of debug logs
  are left open.
\<close>

end
